(* ===== verification/Prelude.thy ===== *)
theory Prelude
  imports Main "HOL-Library.Word" "HOL-Library.Monad_Syntax"
begin

text \<open>
  What the component theories share: 32-bit \<open>size_t\<close> arithmetic, raw memory cells
  with bounds-checked reads and writes, the doubling loop of the growable containers,
  C strings and decimal printing, and the result type of code that may have no defined
  result. The targets of the system (riscv32, wasm32) both have a 32-bit \<open>size_t\<close>.
\<close>

unbundle bit_operations_syntax

named_theorems cell_simps \<open>reads and writes of memory cells\<close>
named_theorems run_simps \<open>unfolding of result-passing code\<close>

section \<open>Machine sizes\<close>

definition size_mod :: nat where
  "size_mod = 2 ^ 32"

definition sz :: "nat \<Rightarrow> nat" where
  "sz n = n mod size_mod"

definition sz_sub :: "nat \<Rightarrow> nat \<Rightarrow> nat" where
  "sz_sub a b = (if b \<le> a then a - b else size_mod - (b - a))"

lemma sz_small [simp]: "n < size_mod \<Longrightarrow> sz n = n"
  by (simp add: sz_def)

lemma sz_sub_le [simp]: "b \<le> a \<Longrightarrow> sz_sub a b = a - b"
  by (simp add: sz_sub_def)

lemma sz_lt [simp]: "sz n < size_mod"
  by (simp add: sz_def size_mod_def)

text \<open>\<open>if (pos > n) pos = n\<close>.\<close>

definition clamp :: "nat \<Rightarrow> nat \<Rightarrow> nat" where
  "clamp n pos = (if pos > n then n else pos)"

lemma clamp_le [simp]: "clamp n p \<le> n"
  by (simp add: clamp_def)

lemma take_drop_clamp [simp]:
  "take (clamp (length x) p) x = take p x" "drop (clamp (length x) p) x = drop p x"
  by (auto simp: clamp_def)

text \<open>\<open>if (pos + len > n) len = n - pos\<close>.\<close>

definition span :: "nat \<Rightarrow> nat \<Rightarrow> nat \<Rightarrow> nat" where
  "span n pos len = (if sz (pos + len) > n then n - pos else len)"

lemma span_bound: "pos \<le> n \<Longrightarrow> pos + len < size_mod \<Longrightarrow> pos + span n pos len \<le> n"
  by (simp add: span_def)

lemma span_take:
  "pos \<le> length x \<Longrightarrow> pos + len < size_mod \<Longrightarrow>
   take (span (length x) pos len) (drop pos x) = take len (drop pos x)"
  by (simp add: span_def)

lemma span_drop:
  "pos \<le> length x \<Longrightarrow> pos + len < size_mod \<Longrightarrow>
   drop (pos + span (length x) pos len) x = drop (pos + len) x"
  by (simp add: span_def)

section \<open>Results of code that may have no defined result\<close>

text \<open>
  \<open>Undefined\<close> stands for behaviour the C++ standard leaves undefined, with the reason;
  \<open>NoFuel\<close> for a computation that did not finish within the fuel.
\<close>

datatype ub = Ub_empty_argv | Ub_argv_index | Ub_overflow | Ub_division | Ub_shift | Ub_view
  | Ub_null | Ub_frames | Ub_index | Ub_format | Ub_command

datatype 'a run = Done 'a | Undefined ub | NoFuel

fun run_bind :: "'a run \<Rightarrow> ('a \<Rightarrow> 'b run) \<Rightarrow> 'b run" where
  "run_bind (Done x) f = f x"
| "run_bind (Undefined u) f = Undefined u"
| "run_bind NoFuel f = NoFuel"

declare run_bind.simps [run_simps]

lemma run_bind_Done_iff:
  "run_bind m f = Done y \<longleftrightarrow> (\<exists>x. m = Done x \<and> f x = Done y)"
  by (cases m) auto

lemma run_bind_Undefined_iff:
  "run_bind m f = Undefined u \<longleftrightarrow> m = Undefined u \<or> (\<exists>x. m = Done x \<and> f x = Undefined u)"
  by (cases m) auto

text \<open>More fuel only replaces \<open>NoFuel\<close> by a result.\<close>

definition run_le :: "'a run \<Rightarrow> 'a run \<Rightarrow> bool" where
  "run_le r r' \<longleftrightarrow> r = NoFuel \<or> r = r'"

lemma run_le_refl [simp, intro]: "run_le r r"
  by (simp add: run_le_def)

lemma run_le_NoFuel [simp, intro]: "run_le NoFuel r"
  by (simp add: run_le_def)

lemma run_le_trans: "run_le a b \<Longrightarrow> run_le b c \<Longrightarrow> run_le a c"
  by (auto simp: run_le_def)

lemma run_le_bind:
  "run_le m m' \<Longrightarrow> (\<And>x. m = Done x \<Longrightarrow> run_le (f x) (g x)) \<Longrightarrow> run_le (run_bind m f) (run_bind m' g)"
  by (cases m) (auto simp: run_le_def)

lemma run_le_Done: "run_le (Done x) r \<Longrightarrow> r = Done x"
  by (auto simp: run_le_def)

section \<open>Memory cells\<close>

text \<open>
  A heap block is a list of cells; \<open>None\<close> is a cell that was never written. A write
  past the end, or a read past the end or of an unwritten cell, has no result.
\<close>

definition write_cells :: "'a option list \<Rightarrow> nat \<Rightarrow> 'a list \<Rightarrow> 'a option list option" where
  "write_cells cs p xs =
     (if p + length xs \<le> length cs
      then Some (take p cs @ map Some xs @ drop (p + length xs) cs) else None)"

definition read_cells :: "'a option list \<Rightarrow> nat \<Rightarrow> nat \<Rightarrow> 'a list option" where
  "read_cells cs p n =
     (if p + n \<le> length cs \<and> list_all (\<lambda>c. c \<noteq> None) (take n (drop p cs))
      then Some (map the (take n (drop p cs))) else None)"

definition realloc_cells :: "'a option list option \<Rightarrow> nat \<Rightarrow> 'a option list" where
  "realloc_cells d n =
     (case d of None \<Rightarrow> replicate n None
      | Some cs \<Rightarrow> take n cs @ replicate (n - length cs) None)"

lemma length_write_cells: "write_cells cs p xs = Some cs' \<Longrightarrow> length cs' = length cs"
  by (auto simp: write_cells_def split: if_splits)

lemma write_cells_Some [cell_simps]:
  "p + length xs \<le> length cs \<Longrightarrow>
   write_cells cs p xs = Some (take p cs @ map Some xs @ drop (p + length xs) cs)"
  by (simp add: write_cells_def)

lemma length_realloc_cells [simp]: "length (realloc_cells d n) = n"
  by (auto simp: realloc_cells_def split: option.splits)

lemma take_realloc_cells:
  "length cs \<le> n \<Longrightarrow> take (length cs) (realloc_cells (Some cs) n) = cs"
  by (simp add: realloc_cells_def)

section \<open>The doubling loop of the growable containers\<close>

text \<open>
  \<open>while (alloc_cap < new_cap) alloc_cap *= 2\<close>, in 32-bit arithmetic: the product wraps
  to 0, from where the loop never ends. \<open>None\<close>: not finished within the fuel.
\<close>

fun grow_cap :: "nat \<Rightarrow> nat \<Rightarrow> nat \<Rightarrow> nat option" where
  "grow_cap 0 c n = None"
| "grow_cap (Suc f) c n = (if c < n then grow_cap f (sz (c * 2)) n else Some c)"

text \<open>Doublings from any capacity of at least 1 reach \<open>2 ^ 31\<close> within 31 steps.\<close>

definition grow_fuel :: nat where
  "grow_fuel = 33"

lemma grow_cap_pow2:
  assumes "k \<le> 31" and "n \<le> 2 ^ 31" and "32 - k \<le> f"
  shows "\<exists>j. k \<le> j \<and> j \<le> 31 \<and> grow_cap f (2 ^ k) n = Some (2 ^ j) \<and> n \<le> 2 ^ j"
  using assms
proof (induction f arbitrary: k)
  case 0
  then show ?case by simp
next
  case (Suc f)
  show ?case
  proof (cases "(2::nat) ^ k < n")
    case True
    with Suc.prems have "k \<noteq> 31" by (intro notI) simp
    with Suc.prems have k: "Suc k \<le> 31" by simp
    then have "(2::nat) ^ Suc k < size_mod"
      unfolding size_mod_def by (intro power_strict_increasing) auto
    then have "sz (2 ^ k * 2) = (2::nat) ^ Suc k" by (simp add: mult.commute)
    moreover have "32 - Suc k \<le> f" using Suc.prems(3) by arith
    then obtain j where
      "Suc k \<le> j" "j \<le> 31" "grow_cap f (2 ^ Suc k) n = Some (2 ^ j)" "n \<le> 2 ^ j"
      using Suc.IH [OF k Suc.prems(2)] by blast
    ultimately show ?thesis using True by (intro exI [of _ j]) simp
  next
    case False
    with Suc.prems show ?thesis by auto
  qed
qed

lemma grow_cap_zero: "0 < n \<Longrightarrow> grow_cap f 0 n = None"
  by (induction f) (simp_all add: sz_def)

lemma grow_cap_diverges:
  assumes "k \<le> 31" and "2 ^ 31 < n"
  shows "grow_cap f (2 ^ k) n = None"
  using assms(1)
proof (induction f arbitrary: k)
  case 0
  then show ?case by simp
next
  case (Suc f)
  have "(2::nat) ^ k \<le> 2 ^ 31" using Suc.prems by (intro power_increasing) auto
  with assms(2) have lt: "2 ^ k < n" by simp
  show ?case
  proof (cases "k = 31")
    case True
    then have "sz (2 ^ k * 2) = 0" by (simp add: sz_def size_mod_def)
    with lt assms(2) show ?thesis by (simp add: grow_cap_zero)
  next
    case False
    with Suc.prems have k: "Suc k \<le> 31" by simp
    then have "(2::nat) ^ Suc k < size_mod"
      unfolding size_mod_def by (intro power_strict_increasing) auto
    then have "sz (2 ^ k * 2) = (2::nat) ^ Suc k" by (simp add: mult.commute)
    with lt Suc.IH [OF k] show ?thesis by simp
  qed
qed

lemma pow2_le_2_31 [simp]: "k \<le> 31 \<Longrightarrow> (2::nat) ^ k \<le> 2147483648"
  using power_increasing [of k 31 "2::nat"] by simp

section \<open>C strings and decimal numbers\<close>

definition nul :: char where
  "nul = CHR 0x00"

definition cstr :: "string \<Rightarrow> string" where
  "cstr s = takeWhile (\<lambda>c. c \<noteq> nul) s"

lemma cstr_id [simp]: "nul \<notin> set s \<Longrightarrow> cstr s = s"
  unfolding cstr_def by (induction s) auto

lemma nul_notin_cstr [simp]: "nul \<notin> set (cstr s)"
  unfolding cstr_def by (auto dest: set_takeWhileD)

definition char_val :: "char \<Rightarrow> nat" where
  "char_val c = of_char c"

definition is_digit :: "char \<Rightarrow> bool" where
  "is_digit c \<longleftrightarrow> 48 \<le> char_val c \<and> char_val c \<le> 57"

definition digit_val :: "char \<Rightarrow> int" where
  "digit_val c = int (char_val c) - 48"

definition digit_char :: "nat \<Rightarrow> char" where
  "digit_char d = char_of (48 + d)"

fun dec_nat :: "nat \<Rightarrow> string" where
  "dec_nat n = (if n < 10 then [digit_char n] else dec_nat (n div 10) @ [digit_char (n mod 10)])"

declare dec_nat.simps [simp del]

text \<open>The \<open>%d\<close> of \<open>snprintf\<close>.\<close>

definition dec_int :: "int \<Rightarrow> string" where
  "dec_int i = (if i < 0 then CHR ''-'' # dec_nat (nat (- i)) else dec_nat (nat i))"

lemma char_val_digit_char: "d < 10 \<Longrightarrow> char_val (digit_char d) = 48 + d"
  by (simp add: char_val_def digit_char_def)

lemma is_digit_digit_char: "d < 10 \<Longrightarrow> is_digit (digit_char d)"
  by (simp add: is_digit_def char_val_digit_char)

lemma digit_val_digit_char: "d < 10 \<Longrightarrow> digit_val (digit_char d) = int d"
  by (simp add: digit_val_def char_val_digit_char)

lemma dec_nat_nonempty: "dec_nat n \<noteq> []"
  by (subst dec_nat.simps) simp

lemma dec_nat_digits: "c \<in> set (dec_nat n) \<Longrightarrow> is_digit c"
proof (induction n rule: dec_nat.induct)
  case (1 n)
  then show ?case
    by (cases "n < 10") (auto simp: dec_nat.simps [of n] is_digit_digit_char)
qed

section \<open>The interface of the growable sequences\<close>

fun fold_opt :: "('a \<Rightarrow> 's \<Rightarrow> 's option) \<Rightarrow> 'a list \<Rightarrow> 's \<Rightarrow> 's option" where
  "fold_opt f [] s = Some s"
| "fold_opt f (x # xs) s = do { s' \<leftarrow> f x s; fold_opt f xs s' }"

text \<open>
  What the clients of the string and the vector class rely on: \<open>rep s x\<close> says that \<open>s\<close>
  is a well-formed object holding the sequence \<open>x\<close>; below a size limit the operations
  return and act on the sequence. The editor types by inserting at the cursor and the
  interpreter builds words by appending characters.
\<close>

locale seq_buffer =
  fixes rep :: "'s \<Rightarrow> 'a list \<Rightarrow> bool"
    and push :: "'s \<Rightarrow> 'a \<Rightarrow> 's option"
    and insert1 :: "'s \<Rightarrow> nat \<Rightarrow> 'a \<Rightarrow> 's option"
    and erase :: "'s \<Rightarrow> nat \<Rightarrow> nat \<Rightarrow> 's option"
    and limit :: nat
  assumes push_law: "rep s x \<Longrightarrow> length x + 1 < limit \<Longrightarrow> \<exists>s'. push s a = Some s' \<and> rep s' (x @ [a])"
    and insert1_law: "rep s x \<Longrightarrow> length x + 1 < limit \<Longrightarrow>
      \<exists>s'. insert1 s p a = Some s' \<and> rep s' (take p x @ a # drop p x)"
    and erase_law: "rep s x \<Longrightarrow> p + n < size_mod \<Longrightarrow>
      \<exists>s'. erase s p n = Some s' \<and> rep s' (take p x @ drop (p + n) x)"
    and limit_size: "limit < size_mod"
begin

lemma push_all:
  assumes "rep s x" and "length x + length ys < limit"
  shows "\<exists>s'. fold_opt (\<lambda>a s. push s a) ys s = Some s' \<and> rep s' (x @ ys)"
  using assms
proof (induction ys arbitrary: s x)
  case Nil
  then show ?case by simp
next
  case (Cons y ys)
  from push_law [OF Cons.prems(1)] Cons.prems(2) obtain s1 where
    s1: "push s y = Some s1" "rep s1 (x @ [y])" by fastforce
  with Cons.IH [OF s1(2)] Cons.prems(2) show ?case by auto
qed

lemma insert_then_erase:
  assumes r: "rep s x" and l: "length x + 1 < limit" and p: "p \<le> length x"
  shows "\<exists>s1 s2. insert1 s p a = Some s1 \<and> erase s1 p 1 = Some s2 \<and> rep s2 x"
proof -
  from insert1_law [OF r l] obtain s1 where
    s1: "insert1 s p a = Some s1" "rep s1 (take p x @ a # drop p x)" by blast
  have "p + 1 < size_mod" using p l limit_size by simp
  from erase_law [OF s1(2) this] obtain s2 where
    s2: "erase s1 p 1 = Some s2"
        "rep s2 (take p (take p x @ a # drop p x) @ drop (p + 1) (take p x @ a # drop p x))"
    by blast
  have "take p (take p x @ a # drop p x) @ drop (p + 1) (take p x @ a # drop p x) = x"
    using p by (simp add: min_def)
  with s1(1) s2 show ?thesis by auto
qed

lemma insert_insert:
  assumes r: "rep s x" and l2: "length x + 2 < limit" and p: "p \<le> length x"
  shows "\<exists>s1 s2. insert1 s p a = Some s1 \<and> insert1 s1 (p + 1) b = Some s2 \<and>
    rep s2 (take p x @ a # b # drop p x)"
proof -
  have l: "length x + 1 < limit" using l2 by simp
  from insert1_law [OF r l] obtain s1 where
    s1: "insert1 s p a = Some s1" "rep s1 (take p x @ a # drop p x)" by blast
  have "length (take p x @ a # drop p x) + 1 < limit" using l2 p by simp
  from insert1_law [OF s1(2) this, of "p + 1" b] obtain s2 where
    "insert1 s1 (p + 1) b = Some s2"
    "rep s2 (take (p + 1) (take p x @ a # drop p x) @ b # drop (p + 1) (take p x @ a # drop p x))"
    by blast
  moreover have "take (p + 1) (take p x @ a # drop p x) @ b # drop (p + 1) (take p x @ a # drop p x)
      = take p x @ a # b # drop p x"
    using p by (simp add: min_def)
  ultimately show ?thesis using s1(1) by auto
qed

end

section \<open>Sequences of operations\<close>

text \<open>
  A component whose operations may stop the program (\<open>None\<close>) runs a list of them; an invariant
  that every operation keeps holds after the run, and so does the frame of an item that no
  operation of the list may touch.
\<close>

fun run_steps :: "('s \<Rightarrow> 'o \<Rightarrow> 's option) \<Rightarrow> 's \<Rightarrow> 'o list \<Rightarrow> 's option" where
  "run_steps step s [] = Some s"
| "run_steps step s (x # xs) = (case step s x of None \<Rightarrow> None | Some s' \<Rightarrow> run_steps step s' xs)"

locale step_inv =
  fixes step :: "'s \<Rightarrow> 'o \<Rightarrow> 's option" and inv :: "'s \<Rightarrow> bool"
  assumes step_keeps: "inv s \<Longrightarrow> step s x = Some s' \<Longrightarrow> inv s'"
begin

lemma run_keeps: "inv s \<Longrightarrow> run_steps step s xs = Some s' \<Longrightarrow> inv s'"
  by (induction xs arbitrary: s) (auto split: option.splits dest: step_keeps)

end

locale step_frame = step_inv step inv
  for step :: "'s \<Rightarrow> 'o \<Rightarrow> 's option" and inv :: "'s \<Rightarrow> bool" +
  fixes kept :: "'s \<Rightarrow> 'i \<Rightarrow> 's \<Rightarrow> bool" and safe :: "'o \<Rightarrow> 's \<Rightarrow> 'i \<Rightarrow> bool"
  assumes kept_refl: "kept s i s"
    and kept_trans: "kept s i s' \<Longrightarrow> kept s' i s'' \<Longrightarrow> kept s i s''"
    and step_kept: "inv s \<Longrightarrow> safe x s i \<Longrightarrow> step s x = Some s' \<Longrightarrow> kept s i s'"
    and safe_kept: "kept s i s' \<Longrightarrow> safe x s i \<Longrightarrow> safe x s' i"
begin

lemma run_kept: "inv s \<Longrightarrow> \<forall>x\<in>set xs. safe x s i \<Longrightarrow> run_steps step s xs = Some s' \<Longrightarrow> kept s i s'"
proof (induction xs arbitrary: s)
  case Nil
  then show ?case by (simp add: kept_refl)
next
  case (Cons x xs)
  then obtain t where t: "step s x = Some t" "run_steps step t xs = Some s'" by (auto split: option.splits)
  have k: "kept s i t" using Cons.prems(1,2) t(1) by (auto intro: step_kept)
  have "kept t i s'"
    by (rule Cons.IH [OF step_keeps [OF Cons.prems(1) t(1)] _ t(2)]) (use Cons.prems(2) safe_kept [OF k] in auto)
  with k show ?case by (rule kept_trans)
qed

end

end
