(* ===== verification/OuString.thy ===== *)
theory OuString
  imports Prelude
begin

text \<open>
  The string class of the user space (\<open>ot/user/string.hpp\<close>, \<open>ot/user/string.cpp\<close>) at the
  level of its representation: a heap block, a length and a capacity. Each operation
  is the sequence of allocations and bounds-checked copies of the source; \<open>None\<close> is a
  call that does not return or that leaves the block. \<open>str_inv\<close> is the invariant of the
  class and \<open>str_abs\<close> the text it represents.
\<close>

record ou_string =
  s_data :: "char option list option"
  s_len :: nat
  s_cap :: nat

section \<open>Operations\<close>

definition str_default :: ou_string where
  "str_default = \<lparr>s_data = None, s_len = 0, s_cap = 0\<rparr>"

definition str_poke :: "ou_string \<Rightarrow> nat \<Rightarrow> char list \<Rightarrow> ou_string option" where
  "str_poke s p xs =
     (case s_data s of None \<Rightarrow> None
      | Some cs \<Rightarrow> map_option (\<lambda>cs'. s\<lparr>s_data := Some cs'\<rparr>) (write_cells cs p xs))"

definition str_peek :: "ou_string \<Rightarrow> nat \<Rightarrow> nat \<Rightarrow> char list option" where
  "str_peek s p n = (case s_data s of None \<Rightarrow> (if n = 0 then Some [] else None)
                     | Some cs \<Rightarrow> read_cells cs p n)"

definition ensure_capacity :: "ou_string \<Rightarrow> nat \<Rightarrow> ou_string option" where
  "ensure_capacity s new_cap =
     (if new_cap \<le> s_cap s then Some s
      else do {
        c \<leftarrow> grow_cap grow_fuel (if s_cap s = 0 then 16 else s_cap s) new_cap;
        Some (s\<lparr>s_data := Some (realloc_cells (s_data s) c), s_cap := c\<rparr>)
      })"

text \<open>The steps the constructors and \<open>operator=\<close> share: \<open>ensure_capacity(len_ + 1)\<close>, copy, terminate.\<close>

definition str_fill :: "ou_string \<Rightarrow> char list \<Rightarrow> ou_string option" where
  "str_fill s0 xs = do {
     s \<leftarrow> ensure_capacity (s0\<lparr>s_len := length xs\<rparr>) (sz (length xs + 1));
     s \<leftarrow> str_poke s 0 xs;
     str_poke s (length xs) [nul]
   }"

definition str_of_cstr :: "char list option \<Rightarrow> ou_string option" where
  "str_of_cstr s = (case s of None \<Rightarrow> Some str_default | Some x \<Rightarrow> str_fill str_default (cstr x))"

definition str_of_buf :: "char list option \<Rightarrow> ou_string option" where
  "str_of_buf s = (case s of None \<Rightarrow> Some str_default
                   | Some x \<Rightarrow> if x = [] then Some str_default else str_fill str_default x)"

definition str_clear :: "ou_string \<Rightarrow> ou_string option" where
  "str_clear s = (let s' = s\<lparr>s_len := 0\<rparr> in
     case s_data s of None \<Rightarrow> Some s' | Some _ \<Rightarrow> str_poke s' 0 [nul])"

definition str_copy :: "ou_string \<Rightarrow> ou_string option" where
  "str_copy other =
     (if 0 < s_len other
      then do { x \<leftarrow> str_peek other 0 (s_len other); str_fill str_default x }
      else Some str_default)"

text \<open>\<open>s = other\<close> for two distinct objects (\<open>s = s\<close> is skipped by the source).\<close>

definition str_assign :: "ou_string \<Rightarrow> ou_string \<Rightarrow> ou_string option" where
  "str_assign s other = do {
     s \<leftarrow> str_clear s;
     if 0 < s_len other
     then do { x \<leftarrow> str_peek other 0 (s_len other); str_fill s x }
     else Some s
   }"

text \<open>Moving out of a string leaves the source empty: the new value and the moved-from one.\<close>

definition str_move :: "ou_string \<Rightarrow> ou_string \<times> ou_string" where
  "str_move other = (other, \<lparr>s_data = None, s_len = 0, s_cap = 0\<rparr>)"

definition str_assign_cstr :: "ou_string \<Rightarrow> char list option \<Rightarrow> ou_string option" where
  "str_assign_cstr s x = do {
     s \<leftarrow> str_clear s;
     case x of None \<Rightarrow> Some s | Some y \<Rightarrow> str_fill s (cstr y)
   }"

definition str_append :: "ou_string \<Rightarrow> char list \<Rightarrow> ou_string option" where
  "str_append s xs =
     (if xs = [] then Some s
      else do {
        s \<leftarrow> ensure_capacity s (sz (s_len s + length xs + 1));
        s \<leftarrow> str_poke s (s_len s) xs;
        str_poke (s\<lparr>s_len := s_len s + length xs\<rparr>) (s_len s + length xs) [nul]
      })"

definition str_push_back :: "ou_string \<Rightarrow> char \<Rightarrow> ou_string option" where
  "str_push_back s c = do {
     s \<leftarrow> ensure_capacity s (sz (s_len s + 2));
     s \<leftarrow> str_poke s (s_len s) [c];
     str_poke (s\<lparr>s_len := s_len s + 1\<rparr>) (s_len s + 1) [nul]
   }"

definition str_insert :: "ou_string \<Rightarrow> nat \<Rightarrow> nat \<Rightarrow> char \<Rightarrow> ou_string option" where
  "str_insert s pos0 count c =
     (if count = 0 then Some s
      else let pos = clamp (s_len s) pos0 in do {
        s \<leftarrow> ensure_capacity s (sz (s_len s + count + 1));
        s \<leftarrow> (if pos < s_len s
              then do { tl \<leftarrow> str_peek s pos (s_len s - pos); str_poke s (pos + count) tl }
              else Some s);
        s \<leftarrow> str_poke s pos (replicate count c);
        str_poke (s\<lparr>s_len := s_len s + count\<rparr>) (s_len s + count) [nul]
      })"

definition str_erase :: "ou_string \<Rightarrow> nat \<Rightarrow> nat \<Rightarrow> ou_string option" where
  "str_erase s pos len0 =
     (if pos \<ge> s_len s \<or> len0 = 0 then Some s
      else let len = span (s_len s) pos len0 in do {
        tl \<leftarrow> str_peek s (pos + len) (sz_sub (s_len s - pos) len);
        s \<leftarrow> str_poke s pos tl;
        str_poke (s\<lparr>s_len := s_len s - len\<rparr>) (s_len s - len) [nul]
      })"

definition str_erase_from :: "ou_string \<Rightarrow> nat \<Rightarrow> ou_string option" where
  "str_erase_from s pos =
     (if pos \<ge> s_len s then Some s else str_poke (s\<lparr>s_len := pos\<rparr>) pos [nul])"

definition str_substr :: "ou_string \<Rightarrow> nat \<Rightarrow> nat \<Rightarrow> ou_string option" where
  "str_substr s pos0 len0 =
     (let pos = clamp (s_len s) pos0;
          len = span (s_len s) pos len0
      in do { x \<leftarrow> str_peek s pos len;
              str_of_buf (if s_data s = None \<and> pos = 0 then None else Some x) })"

definition str_substr_from :: "ou_string \<Rightarrow> nat \<Rightarrow> ou_string option" where
  "str_substr_from s pos =
     (if pos > s_len s then Some str_default
      else do { x \<leftarrow> str_peek s pos (s_len s - pos);
                str_of_buf (if s_data s = None \<and> pos = 0 then None else Some x) })"

text \<open>The sign of \<open>memcmp\<close> on blocks of one length, and of \<open>strcmp\<close>.\<close>

fun memcmp_sign :: "char list \<Rightarrow> char list \<Rightarrow> int" where
  "memcmp_sign (x # xs) (y # ys) =
     (if x = y then memcmp_sign xs ys else if char_val x < char_val y then - 1 else 1)"
| "memcmp_sign _ _ = 0"

fun strcmp_sign :: "char list \<Rightarrow> char list \<Rightarrow> int" where
  "strcmp_sign [] [] = 0"
| "strcmp_sign [] (y # ys) = - 1"
| "strcmp_sign (x # xs) [] = 1"
| "strcmp_sign (x # xs) (y # ys) =
     (if x = y then strcmp_sign xs ys else if char_val x < char_val y then - 1 else 1)"

text \<open>The pointer comparisons come before any look at the text.\<close>

definition str_compare_cstr :: "ou_string \<Rightarrow> char list option \<Rightarrow> int option" where
  "str_compare_cstr s x =
     (case (s_data s, x) of
        (None, None) \<Rightarrow> Some 0
      | (None, Some _) \<Rightarrow> Some (- 1)
      | (Some _, None) \<Rightarrow> Some 1
      | (Some _, Some y) \<Rightarrow> do {
          d \<leftarrow> str_peek s 0 (s_len s + 1);
          Some (strcmp_sign (cstr d) (cstr y)) })"

definition str_compare_view :: "ou_string \<Rightarrow> char list option \<Rightarrow> int option" where
  "str_compare_view s v =
     (case (s_data s, v) of
        (None, None) \<Rightarrow> Some 0
      | (None, Some _) \<Rightarrow> Some (- 1)
      | (Some _, None) \<Rightarrow> Some 1
      | (Some _, Some y) \<Rightarrow> do {
          let minlen = (if s_len s < length y then s_len s else length y);
          d \<leftarrow> str_peek s 0 minlen;
          let c = memcmp_sign d (take minlen y);
          Some (if c = 0 then (if s_len s < length y then - 1
                               else if s_len s > length y then 1 else 0) else c) })"

section \<open>Invariant and abstraction\<close>

definition str_buf :: "ou_string \<Rightarrow> bool" where
  "str_buf s \<longleftrightarrow>
     (case s_data s of None \<Rightarrow> s_cap s = 0
      | Some cs \<Rightarrow> length cs = s_cap s \<and> s_cap s \<in> (\<lambda>k. 2 ^ k) ` {4..31})"

definition str_inv :: "ou_string \<Rightarrow> bool" where
  "str_inv s \<longleftrightarrow> str_buf s \<and>
     (case s_data s of None \<Rightarrow> s_len s = 0
      | Some cs \<Rightarrow> s_len s < length cs \<and> list_all (\<lambda>c. c \<noteq> None) (take (s_len s) cs) \<and>
                   cs ! s_len s = Some nul)"

definition str_abs :: "ou_string \<Rightarrow> char list" where
  "str_abs s = (case s_data s of None \<Rightarrow> [] | Some cs \<Rightarrow> map the (take (s_len s) cs))"

text \<open>
  \<open>str_rep s x\<close>: the block of \<open>s\<close> starts with the text \<open>x\<close> and its terminator. It is
  the invariant and the abstraction in one, in the form the proofs step through.
\<close>

definition str_rep :: "ou_string \<Rightarrow> char list \<Rightarrow> bool" where
  "str_rep s x \<longleftrightarrow> str_buf s \<and> s_len s = length x \<and>
     (case s_data s of None \<Rightarrow> x = []
      | Some cs \<Rightarrow> \<exists>rest. cs = map Some x @ Some nul # rest)"

lemma map_Some_the: "list_all (\<lambda>c. c \<noteq> None) cs \<Longrightarrow> map Some (map the cs) = cs"
  by (induction cs) auto

lemma str_rep_iff: "str_rep s x \<longleftrightarrow> str_inv s \<and> x = str_abs s"
proof (cases "s_data s")
  case None
  then show ?thesis by (auto simp: str_rep_def str_inv_def str_abs_def)
next
  case (Some cs)
  show ?thesis
  proof
    assume r: "str_rep s x"
    then obtain rest where cs: "cs = map Some x @ Some nul # rest" and l: "s_len s = length x"
      using Some by (auto simp: str_rep_def)
    have "take (s_len s) cs = map Some x" using cs l by simp
    then show "str_inv s \<and> x = str_abs s"
      using r Some cs l by (auto simp: str_rep_def str_inv_def str_abs_def list_all_iff nth_append comp_def)
  next
    assume a: "str_inv s \<and> x = str_abs s"
    then have l: "s_len s < length cs" and n: "cs ! s_len s = Some nul"
      and i: "list_all (\<lambda>c. c \<noteq> None) (take (s_len s) cs)" and x: "x = map the (take (s_len s) cs)"
      using Some by (auto simp: str_inv_def str_abs_def)
    have "cs = take (s_len s) cs @ cs ! s_len s # drop (Suc (s_len s)) cs"
      using l by (rule id_take_nth_drop)
    then have "cs = map Some x @ Some nul # drop (Suc (s_len s)) cs"
      using map_Some_the [OF i] n x by simp
    then show "str_rep s x"
      using a Some l x by (auto simp: str_rep_def str_inv_def str_abs_def)
  qed
qed

text \<open>Requests up to \<open>2 ^ 31\<close> are served with the old cells in place; larger ones never return.\<close>

lemma ensure_capacity_ok:
  assumes "str_buf s" and "0 < n" and "n \<le> 2 ^ 31"
  obtains cs where "ensure_capacity s n = Some (s\<lparr>s_data := Some cs, s_cap := length cs\<rparr>)"
    and "n \<le> length cs" and "length cs \<in> (\<lambda>k. 2 ^ k) ` {4..31}"
    and "\<And>ds. s_data s = Some ds \<Longrightarrow> length ds \<le> length cs \<and> take (length ds) cs = ds"
proof (cases "n \<le> s_cap s")
  case True
  with assms obtain cs where "s_data s = Some cs" "length cs = s_cap s"
      "s_cap s \<in> (\<lambda>k. 2 ^ k) ` {4..31}"
    by (cases "s_data s") (auto simp: str_buf_def)
  then show thesis using True by (intro that [of cs]) (auto simp: ensure_capacity_def)
next
  case False
  have "\<exists>k. 4 \<le> k \<and> k \<le> 31 \<and> (if s_cap s = 0 then 16 else s_cap s) = (2::nat) ^ k"
    using assms(1) by (cases "s_data s") (auto simp: str_buf_def intro: exI [of _ 4])
  then obtain k where k: "4 \<le> k" "k \<le> 31" "(if s_cap s = 0 then 16 else s_cap s) = (2::nat) ^ k"
    by blast
  have "32 - k \<le> grow_fuel" by (simp add: grow_fuel_def)
  from grow_cap_pow2 [OF k(2) assms(3) this] obtain j where
    j: "k \<le> j" "j \<le> 31" "grow_cap grow_fuel (2 ^ k) n = Some (2 ^ j)" "n \<le> 2 ^ j"
    by blast
  have pre: "length ds \<le> 2 ^ j \<and> take (length ds) (realloc_cells (Some ds) (2 ^ j)) = ds"
    if "s_data s = Some ds" for ds
  proof -
    have "length ds \<le> 2 ^ j" using that assms(1) False j(4) by (auto simp: str_buf_def)
    then show ?thesis by (simp add: take_realloc_cells)
  qed
  show thesis
    by (rule that [of "realloc_cells (s_data s) (2 ^ j)"])
      (use False k j pre in \<open>auto simp: ensure_capacity_def\<close>)
qed

lemma ensure_capacity_diverges:
  assumes "str_buf s" and "2 ^ 31 < n"
  shows "ensure_capacity s n = None"
proof -
  obtain k where k: "k \<le> 31" "(if s_cap s = 0 then 16 else s_cap s) = (2::nat) ^ k"
    using assms(1) that [of 4] by (cases "s_data s") (auto simp: str_buf_def)
  have "s_cap s \<le> 2 ^ 31"
    using assms(1) by (cases "s_data s") (auto simp: str_buf_def)
  with k assms(2) show ?thesis by (simp add: ensure_capacity_def grow_cap_diverges)
qed

section \<open>Functional correctness of the operations\<close>

definition str_max :: nat where
  "str_max = 2 ^ 31"

lemma str_rep_default: "str_rep str_default []"
  by (simp add: str_rep_def str_default_def str_buf_def)

lemma str_rep_SomeI:
  assumes "length cs \<in> (\<lambda>k. 2 ^ k) ` {4..31}" and "cs = map Some x @ Some nul # rest"
  shows "str_rep (s\<lparr>s_data := Some cs, s_len := length x, s_cap := length cs\<rparr>) x"
  using assms by (auto simp: str_rep_def str_buf_def)

lemma str_buf_len [simp]: "str_buf (s\<lparr>s_len := n\<rparr>) = str_buf s"
  by (auto simp: str_buf_def split: option.splits)

lemma str_fill_rep:
  assumes "str_buf s" and "length x < str_max"
  shows "\<exists>s'. str_fill s x = Some s' \<and> str_rep s' x"
proof -
  have n: "0 < Suc (length x)" "Suc (length x) \<le> 2 ^ 31" "Suc (length x) < size_mod"
    using assms(2) by (simp_all add: str_max_def size_mod_def)
  have "str_buf (s\<lparr>s_len := length x\<rparr>)" using assms(1) by simp
  from ensure_capacity_ok [OF this n(1,2)] obtain cs where
    e: "ensure_capacity (s\<lparr>s_len := length x\<rparr>) (Suc (length x)) =
         Some (s\<lparr>s_len := length x, s_data := Some cs, s_cap := length cs\<rparr>)"
    and c: "Suc (length x) \<le> length cs" "length cs \<in> (\<lambda>k. 2 ^ k) ` {4..31}"
    by metis
  define cs' where "cs' = map Some x @ Some nul # drop (length x + 1) cs"
  have l: "length cs' = length cs" using c(1) by (simp add: cs'_def)
  have "str_fill s x = Some (s\<lparr>s_data := Some cs', s_len := length x, s_cap := length cs'\<rparr>)"
    using c(1) n(3) l by (simp add: str_fill_def e str_poke_def cell_simps cs'_def)
  moreover have "str_rep (s\<lparr>s_data := Some cs', s_len := length x, s_cap := length cs'\<rparr>) x"
    using c(2) l by (intro str_rep_SomeI) (auto simp: cs'_def)
  ultimately show ?thesis by blast
qed

lemma str_rep_buf: "str_rep s x \<Longrightarrow> str_buf s"
  by (simp add: str_rep_def)

lemma str_rep_len: "str_rep s x \<Longrightarrow> s_len s = length x"
  by (simp add: str_rep_def)

lemma str_peek_rep:
  assumes "str_rep s x" and "p + n \<le> length x"
  shows "str_peek s p n = Some (take n (drop p x))"
proof (cases "s_data s")
  case None
  with assms show ?thesis by (simp add: str_rep_def str_peek_def)
next
  case (Some cs)
  with assms(1) obtain rest where "cs = map Some x @ Some nul # rest" by (auto simp: str_rep_def)
  with Some assms(2) show ?thesis
    by (auto simp: str_peek_def read_cells_def list_all_iff comp_def take_map drop_map)
qed

lemma str_peek_terminated:
  assumes "str_rep s x" and "s_data s \<noteq> None"
  shows "str_peek s 0 (length x + 1) = Some (x @ [nul])"
  using assms by (auto simp: str_rep_def str_peek_def read_cells_def list_all_iff comp_def)

lemma str_len_lt: "str_rep s x \<Longrightarrow> length x < str_max"
proof (cases "s_data s")
  case None
  then show "str_rep s x \<Longrightarrow> length x < str_max" by (simp add: str_rep_def str_max_def)
next
  case (Some cs)
  assume "str_rep s x"
  with Some have "length cs \<le> 2 ^ 31" "length x < length cs"
    by (auto simp: str_rep_def str_buf_def)
  then show "length x < str_max" by (simp add: str_max_def)
qed

lemma str_clear_rep:
  assumes "str_rep s x"
  shows "\<exists>s'. str_clear s = Some s' \<and> str_rep s' []"
proof (cases "s_data s")
  case None
  with assms show ?thesis by (simp add: str_clear_def str_rep_def str_buf_def)
next
  case (Some cs)
  with assms have "1 \<le> length cs" "length cs = s_cap s" "s_cap s \<in> (\<lambda>k. 2 ^ k) ` {4..31}"
    by (auto simp: str_rep_def str_buf_def)
  with Some show ?thesis
    by (auto simp: str_clear_def str_poke_def cell_simps str_rep_def str_buf_def)
qed

text \<open>The growing operations share one shape: make room, rewrite from \<open>p\<close>, terminate.\<close>

lemma str_grow_rep:
  assumes r: "str_rep s x" and n: "length x + n < str_max" "0 < n"
  obtains cs where "ensure_capacity s (sz (Suc (length x + n))) =
      Some (s\<lparr>s_data := Some cs, s_cap := length cs\<rparr>)"
    and "Suc (length x + n) \<le> length cs" and "length cs \<in> (\<lambda>k. 2 ^ k) ` {4..31}"
    and "take (length x) cs = map Some x"
proof -
  have m: "0 < Suc (length x + n)" "Suc (length x + n) \<le> 2 ^ 31" "Suc (length x + n) < size_mod"
    using n by (simp_all add: str_max_def size_mod_def)
  from ensure_capacity_ok [OF str_rep_buf [OF r] m(1,2)] obtain cs where
    cs: "ensure_capacity s (Suc (length x + n)) = Some (s\<lparr>s_data := Some cs, s_cap := length cs\<rparr>)"
        "Suc (length x + n) \<le> length cs" "length cs \<in> (\<lambda>k. 2 ^ k) ` {4..31}"
    and keep: "\<And>ds. s_data s = Some ds \<Longrightarrow> length ds \<le> length cs \<and> take (length ds) cs = ds"
    by metis
  have "take (length x) cs = map Some x"
  proof (cases "s_data s")
    case None
    with r show ?thesis by (simp add: str_rep_def)
  next
    case (Some ds)
    with r obtain rest where ds: "ds = map Some x @ Some nul # rest" by (auto simp: str_rep_def)
    have "take (length x) cs = take (length x) (take (length ds) cs)"
      using ds by (simp add: min_def)
    also have "\<dots> = map Some x" using keep [OF Some] ds by simp
    finally show ?thesis .
  qed
  with cs m(3) that show thesis by simp
qed

lemma str_append_rep:
  assumes r: "str_rep s x" and n: "length x + length y < str_max"
  shows "\<exists>s'. str_append s y = Some s' \<and> str_rep s' (x @ y)"
proof (cases "y = []")
  case True
  with r show ?thesis by (simp add: str_append_def)
next
  case False
  then have "0 < length y" by simp
  from str_grow_rep [OF r n this] obtain cs where
    e: "ensure_capacity s (sz (Suc (length x + length y))) = Some (s\<lparr>s_data := Some cs, s_cap := length cs\<rparr>)"
    and c: "Suc (length x + length y) \<le> length cs" "length cs \<in> (\<lambda>k. 2 ^ k) ` {4..31}"
    and t: "take (length x) cs = map Some x" .
  define cs' where "cs' = map Some (x @ y) @ Some nul # drop (length x + length y + 1) cs"
  have l: "length cs' = length cs" using c(1) by (simp add: cs'_def)
  have "str_append s y = Some (s\<lparr>s_data := Some cs', s_len := length (x @ y), s_cap := length cs'\<rparr>)"
    using False c(1) l t
    by (simp add: str_append_def str_rep_len [OF r] e str_poke_def cell_simps cs'_def)
  moreover have "str_rep (s\<lparr>s_data := Some cs', s_len := length (x @ y), s_cap := length cs'\<rparr>) (x @ y)"
    using c(2) l by (intro str_rep_SomeI) (auto simp: cs'_def)
  ultimately show ?thesis by blast
qed

lemma str_push_back_append: "str_push_back s c = str_append s [c]"
  by (simp add: str_push_back_def str_append_def)

lemma str_insert_rep:
  assumes r: "str_rep s x" and n: "length x + n < str_max"
  shows "\<exists>s'. str_insert s p n c = Some s' \<and>
     str_rep s' (take p x @ replicate n c @ drop p x)"
proof (cases "n = 0")
  case True
  with r show ?thesis by (simp add: str_insert_def)
next
  case False
  then have "0 < n" by simp
  from str_grow_rep [OF r n this] obtain cs where
    e: "ensure_capacity s (sz (Suc (length x + n))) = Some (s\<lparr>s_data := Some cs, s_cap := length cs\<rparr>)"
    and c: "Suc (length x + n) \<le> length cs" "length cs \<in> (\<lambda>k. 2 ^ k) ` {4..31}"
    and t: "take (length x) cs = map Some x" .
  define q where "q = clamp (length x) p"
  have q: "q \<le> length x" "take q x = take p x" "drop q x = drop p x"
    by (simp_all add: q_def)
  define y where "y = take q x @ replicate n c @ drop q x"
  define cs' where "cs' = map Some y @ Some nul # drop (Suc (length x + n)) cs"
  have ly: "length y = length x + n" using q(1) by (simp add: y_def)
  have l: "length cs' = length cs" using c(1) ly by (simp add: cs'_def)
  have tq: "take q cs = map Some (take q x)"
    using t q(1) by (metis min.absorb1 take_map take_take)
  have dq: "take (length x - q) (drop q cs) = map Some (drop q x)"
    using t by (metis drop_map drop_take)
  have "str_insert s p n c = Some (s\<lparr>s_data := Some cs', s_len := length y, s_cap := length cs'\<rparr>)"
  proof (cases "q < length x")
    case True
    have rd: "str_peek (s\<lparr>s_data := Some cs, s_cap := length cs\<rparr>) q (length x - q) = Some (drop q x)"
      using q(1) c(1) dq by (simp add: str_peek_def read_cells_def list_all_iff comp_def)
    show ?thesis
      using False True c(1) q(1) tq dq l ly
      by (simp add: str_insert_def q_def [symmetric] Let_def str_rep_len [OF r] e rd str_poke_def cell_simps cs'_def y_def
          take_map [symmetric] add.commute [of n])
  next
    case False2: False
    with q(1) have "q = length x" by simp
    then show ?thesis
      using False c(1) t l ly
      by (simp add: str_insert_def q_def [symmetric] Let_def str_rep_len [OF r] e str_poke_def cell_simps cs'_def y_def)
  qed
  moreover have "str_rep (s\<lparr>s_data := Some cs', s_len := length y, s_cap := length cs'\<rparr>) y"
    using c(2) l by (intro str_rep_SomeI) (auto simp: cs'_def)
  ultimately show ?thesis using q by (auto simp: y_def)
qed

text \<open>A rewrite inside the block that ends in a terminator represents the new text.\<close>

lemma str_rep_data:
  assumes "str_rep s x" and "x \<noteq> []"
  obtains cs rest where "s_data s = Some cs" and "cs = map Some x @ Some nul # rest"
    and "length cs = s_cap s" and "s_cap s \<in> (\<lambda>k. 2 ^ k) ` {4..31}"
  using assms by (cases "s_data s") (auto simp: str_rep_def str_buf_def)

lemma str_erase_rep:
  assumes r: "str_rep s x" and n: "p + n < size_mod"
  shows "\<exists>s'. str_erase s p n = Some s' \<and> str_rep s' (take p x @ drop (p + n) x)"
proof (cases "p \<ge> length x \<or> n = 0")
  case True
  with r show ?thesis by (auto simp: str_erase_def str_rep_len [OF r])
next
  case False
  then have p: "p < length x" and n0: "0 < n" by auto
  then have "x \<noteq> []" by auto
  with r obtain cs rest where d: "s_data s = Some cs" and cs: "cs = map Some x @ Some nul # rest"
    and cap: "length cs = s_cap s" "s_cap s \<in> (\<lambda>k. 2 ^ k) ` {4..31}"
    by (rule str_rep_data)
  define m where "m = span (length x) p n"
  have m: "p + m \<le> length x" "drop (p + m) x = drop (p + n) x"
    using p n by (simp_all add: m_def span_bound span_drop)
  define y where "y = take p x @ drop (p + m) x"
  have ly: "length y = length x - m" using m(1) by (simp add: y_def)
  have pk: "str_peek s (p + m) (length x - (p + m)) = Some (drop (p + m) x)"
    using m(1) by (simp add: str_peek_rep [OF r])
  define cs1 where "cs1 = take p cs @ map Some (drop (p + m) x) @ drop (length x - m) cs"
  have w1: "write_cells cs p (drop (p + m) x) = Some cs1"
    using m(1) cs by (simp add: cell_simps cs1_def)
  define cs2 where "cs2 = map Some y @ Some nul # drop (Suc (length y)) cs"
  have "min (length x - m) p = p" "length x - m - p = length x - (p + m)" using m(1) by simp_all
  then have w2: "write_cells cs1 (length x - m) [nul] = Some cs2"
    using m(1) p cs ly by (simp add: cell_simps cs1_def cs2_def y_def take_map)
  have l2: "length cs2 = length cs" using cs ly by (simp add: cs2_def)
  have "str_erase s p n = Some (s\<lparr>s_data := Some cs2, s_len := length y, s_cap := length cs2\<rparr>)"
    using False n pk w1 w2 d m(1) cap(1) l2 ly
    by (simp add: str_erase_def str_rep_len [OF r] m_def [symmetric] Let_def str_poke_def)
  moreover have "str_rep (s\<lparr>s_data := Some cs2, s_len := length y, s_cap := length cs2\<rparr>) y"
    using cap l2 by (intro str_rep_SomeI) (auto simp: cs2_def)
  ultimately show ?thesis using m(2) by (auto simp: y_def)
qed

lemma str_erase_from_rep:
  assumes r: "str_rep s x"
  shows "\<exists>s'. str_erase_from s p = Some s' \<and> str_rep s' (take p x)"
proof (cases "p \<ge> length x")
  case True
  with r show ?thesis by (simp add: str_erase_from_def str_rep_len [OF r])
next
  case False
  then have "x \<noteq> []" by auto
  with r obtain cs rest where d: "s_data s = Some cs" and cs: "cs = map Some x @ Some nul # rest"
    and cap: "length cs = s_cap s" "s_cap s \<in> (\<lambda>k. 2 ^ k) ` {4..31}"
    by (rule str_rep_data)
  define cs2 where "cs2 = map Some (take p x) @ Some nul # drop (Suc p) cs"
  have l2: "length cs2 = length cs" using cs False by (simp add: cs2_def)
  have w: "write_cells cs p [nul] = Some cs2"
    using False cs by (simp add: cell_simps cs2_def take_map)
  have "str_erase_from s p = Some (s\<lparr>s_data := Some cs2, s_len := length (take p x), s_cap := length cs2\<rparr>)"
    using False w d cap(1) l2 by (simp add: str_erase_from_def str_rep_len [OF r] str_poke_def)
  moreover have "str_rep (s\<lparr>s_data := Some cs2, s_len := length (take p x), s_cap := length cs2\<rparr>) (take p x)"
    using cap l2 by (intro str_rep_SomeI) (auto simp: cs2_def)
  ultimately show ?thesis by blast
qed

lemma str_of_buf_rep:
  assumes "length x < str_max"
  shows "\<exists>s'. str_of_buf (Some x) = Some s' \<and> str_rep s' x"
  using assms str_fill_rep [OF str_rep_buf [OF str_rep_default]]
  by (auto simp: str_of_buf_def str_rep_default)

lemma str_of_cstr_rep:
  assumes "length (cstr x) < str_max"
  shows "\<exists>s'. str_of_cstr (Some x) = Some s' \<and> str_rep s' (cstr x)"
  using str_fill_rep [OF str_rep_buf [OF str_rep_default] assms] by (simp add: str_of_cstr_def)

lemma str_copy_rep:
  assumes r: "str_rep s x"
  shows "\<exists>s'. str_copy s = Some s' \<and> str_rep s' x"
  using r str_len_lt [OF r] str_peek_rep [OF r, of 0 "length x"]
    str_fill_rep [OF str_rep_buf [OF str_rep_default], of x]
  by (auto simp: str_copy_def str_rep_len [OF r] str_rep_default)

lemma str_assign_rep:
  assumes s: "str_rep s y" and r: "str_rep other x"
  shows "\<exists>s'. str_assign s other = Some s' \<and> str_rep s' x"
proof -
  from str_clear_rep [OF s] obtain s1 where s1: "str_clear s = Some s1" "str_rep s1 []" by blast
  show ?thesis
    using s1 r str_len_lt [OF r] str_peek_rep [OF r, of 0 "length x"]
      str_fill_rep [OF str_rep_buf [OF s1(2)], of x]
    by (auto simp: str_assign_def str_rep_len [OF r])
qed

lemma str_assign_cstr_rep:
  assumes s: "str_rep s y" and "length (cstr x) < str_max"
  shows "\<exists>s'. str_assign_cstr s (Some x) = Some s' \<and> str_rep s' (cstr x)"
proof -
  from str_clear_rep [OF s] obtain s1 where s1: "str_clear s = Some s1" "str_rep s1 []" by blast
  with str_fill_rep [OF str_rep_buf [OF s1(2)] assms(2)] show ?thesis
    by (simp add: str_assign_cstr_def)
qed

lemma str_substr_rep:
  assumes r: "str_rep s x" and n: "p + n < size_mod"
  shows "\<exists>s'. str_substr s p n = Some s' \<and> str_rep s' (take n (drop p x))"
proof -
  define q where "q = clamp (length x) p"
  have q: "q \<le> length x" "drop q x = drop p x" "q \<le> p" by (auto simp: q_def clamp_def)
  define m where "m = span (length x) q n"
  have qn: "q + n < size_mod" using q(3) n by simp
  have m: "q + m \<le> length x" "take m (drop q x) = take n (drop p x)"
    using q(1) qn span_bound span_take [OF q(1) qn] by (simp_all add: m_def q(2))
  have pk: "str_peek s q m = Some (take n (drop p x))"
    using str_peek_rep [OF r m(1)] m(2) by simp
  have len: "length (take n (drop p x)) < str_max"
    using str_len_lt [OF r] by simp
  have "str_substr s p n = str_of_buf (if s_data s = None \<and> q = 0 then None else Some (take n (drop p x)))"
    unfolding str_substr_def str_rep_len [OF r] Let_def q_def [symmetric] m_def [symmetric]
    by (simp add: pk)
  moreover have "\<exists>s'. \<dots> = Some s' \<and> str_rep s' (take n (drop p x))"
  proof (cases "s_data s = None")
    case True
    with r have "x = []" by (simp add: str_rep_def)
    then show ?thesis by (simp add: str_of_buf_def str_rep_default)
  next
    case False
    with str_of_buf_rep [OF len] show ?thesis by auto
  qed
  ultimately show ?thesis by simp
qed

lemma str_substr_from_rep:
  assumes r: "str_rep s x"
  shows "\<exists>s'. str_substr_from s p = Some s' \<and> str_rep s' (drop p x)"
proof (cases "p > length x")
  case True
  then show ?thesis by (simp add: str_substr_from_def str_rep_len [OF r] str_rep_default)
next
  case False
  have len: "length (drop p x) < str_max" using str_len_lt [OF r] by simp
  have pk: "str_peek s p (length x - p) = Some (drop p x)"
    using False by (simp add: str_peek_rep [OF r])
  show ?thesis
  proof (cases "s_data s = None")
    case True
    with r have "x = []" by (simp add: str_rep_def)
    with pk False show ?thesis by (simp add: str_substr_from_def str_rep_len [OF r] str_of_buf_def str_rep_default)
  next
    case False2: False
    with pk False str_of_buf_rep [OF len] show ?thesis
      by (auto simp: str_substr_from_def str_rep_len [OF r])
  qed
qed

interpretation str_seq: seq_buffer str_rep str_push_back "\<lambda>s p c. str_insert s p 1 c" str_erase str_max
proof unfold_locales
  fix s x and a :: char
  assume "str_rep s x" and "length x + 1 < str_max"
  then show "\<exists>s'. str_push_back s a = Some s' \<and> str_rep s' (x @ [a])"
    using str_append_rep [of s x "[a]"] by (simp add: str_push_back_append)
next
  fix s x p and a :: char
  assume "str_rep s x" and "length x + 1 < str_max"
  then show "\<exists>s'. str_insert s p 1 a = Some s' \<and> str_rep s' (take p x @ a # drop p x)"
    using str_insert_rep [of s x 1 p a] by simp
next
  show "str_max < size_mod" by (simp add: str_max_def size_mod_def)
qed (rule str_erase_rep)

section \<open>Properties\<close>

text \<open>C28. The operations refine those of character sequences: on a well-formed object of text
  \<open>x\<close>, \<open>append\<close>, \<open>insert\<close>, both forms of \<open>erase\<close> and of \<open>substr\<close> return, keep the
  object well-formed and terminated, and represent the concatenation, the insertion, the
  deletion and the slice, with positions past the end clamped to it.\<close>

theorem str_ops_refine:
  assumes "str_rep s x" and "length x + length y < str_max" and "length x + k < str_max" and "p + n < size_mod"
  shows "(\<exists>s'. str_append s y = Some s' \<and> str_rep s' (x @ y)) \<and>
    (\<exists>s'. str_insert s p k c = Some s' \<and> str_rep s' (take p x @ replicate k c @ drop p x)) \<and>
    (\<exists>s'. str_erase s p n = Some s' \<and> str_rep s' (take p x @ drop (p + n) x)) \<and>
    (\<exists>s'. str_erase_from s p = Some s' \<and> str_rep s' (take p x)) \<and>
    (\<exists>s'. str_substr s p n = Some s' \<and> str_rep s' (take n (drop p x))) \<and>
    (\<exists>s'. str_substr_from s p = Some s' \<and> str_rep s' (drop p x))"
  by (intro conjI str_append_rep str_insert_rep str_erase_rep str_erase_from_rep str_substr_rep
      str_substr_from_rep assms)

theorem str_ops_refine_witness:
  "\<exists>s. str_of_cstr (Some ''abc'') = Some s \<and>
    (\<exists>s'. str_append s ''de'' = Some s' \<and> str_rep s' ''abcde'') \<and>
    (\<exists>s'. str_insert s 1 2 (CHR ''x'') = Some s' \<and> str_rep s' ''axxbc'') \<and>
    (\<exists>s'. str_erase s 1 1 = Some s' \<and> str_rep s' ''ac'')"
proof -
  obtain s where s: "str_of_cstr (Some ''abc'') = Some s" "str_rep s ''abc''"
    using str_of_cstr_rep [of "''abc''"] by (auto simp: str_max_def nul_def)
  from str_ops_refine [OF s(2), of "''de''" 2 1 1 "CHR ''x''"] s(1) show ?thesis
    by (simp add: str_max_def size_mod_def) (simp add: numeral_2_eq_2)
qed

text \<open>Typing a character and deleting it again restores the text: an insertion of one
  character followed by the erasure of one character at the same position represents the
  text before, also when the insertion moved the text to a larger block.\<close>

theorem str_insert_erase:
  assumes "str_rep s x" and "length x + 1 < str_max" and "p \<le> length x"
  shows "\<exists>s1 s2. str_insert s p 1 c = Some s1 \<and> str_erase s1 p 1 = Some s2 \<and> str_rep s2 x"
  using assms by (rule str_seq.insert_then_erase)

theorem str_insert_erase_witness:
  "\<exists>s1 s2. str_insert str_default 0 1 (CHR ''a'') = Some s1 \<and> str_erase s1 0 1 = Some s2 \<and> str_rep s2 []"
  by (rule str_insert_erase [OF str_rep_default]) (simp_all add: str_max_def)

text \<open>Above \<open>2\<^sup>3\<^sup>1\<close> bytes the capacity loop never ends: the doubled capacity wraps to 0 and
  stays 0, so no number of iterations reaches the request.\<close>

theorem str_capacity_diverges:
  assumes "str_buf s" and "2 ^ 31 < n"
  shows "ensure_capacity s n = None \<and> (\<forall>f. grow_cap f (if s_cap s = 0 then 16 else s_cap s) n = None)"
proof -
  obtain k where k: "k \<le> 31" "(if s_cap s = 0 then 16 else s_cap s) = (2::nat) ^ k"
    using assms(1) that [of 4] by (cases "s_data s") (auto simp: str_buf_def)
  show ?thesis
    using ensure_capacity_diverges [OF assms] grow_cap_diverges [OF k(1) assms(2)] by (simp only: k(2)) simp
qed

theorem str_capacity_diverges_witness:
  "ensure_capacity str_default (2 ^ 31 + 1) = None \<and> (\<forall>f. grow_cap f 16 (2 ^ 31 + 1) = None)"
  using str_capacity_diverges [OF str_rep_buf [OF str_rep_default], of "2 ^ 31 + 1"]
  by (simp add: str_default_def)

text \<open>
  A default-constructed string and a string constructed from the empty literal represent
  the same text, but compare differently with the empty literal.
\<close>

lemma str_compare_unallocated:
  "str_compare_cstr str_default (Some []) = Some (- 1)"
  "str_of_cstr (Some []) = Some s \<Longrightarrow> str_compare_cstr s (Some []) = Some 0"
proof -
  show "str_compare_cstr str_default (Some []) = Some (- 1)"
    by (simp add: str_compare_cstr_def str_default_def)
  assume a: "str_of_cstr (Some []) = Some s"
  then have r: "str_rep s []" using str_of_cstr_rep [of "[]"] by (simp add: str_max_def cstr_def)
  have d: "s_data s \<noteq> None"
    using a by (auto simp: str_of_cstr_def str_fill_def str_poke_def bind_eq_Some_conv split: option.splits)
  show "str_compare_cstr s (Some []) = Some 0"
    using str_peek_terminated [OF r d] d str_rep_len [OF r]
    by (auto simp: str_compare_cstr_def cstr_def nul_def)
qed

end
