(* ===== verification/OuVector.thy ===== *)
theory OuVector
  imports Prelude
begin

text \<open>
  The vector template of the user space (\<open>ot/user/vector.hpp\<close>): a block of element slots,
  a size and a capacity. A slot is \<open>None\<close> where no object is alive (raw or destroyed
  memory), so \<open>None\<close> of an operation also covers moving from or reading a dead object.
  Loops that shift elements go slot by slot, in the order of the source.
\<close>

record 'a ou_vector =
  v_data :: "'a option list option"
  v_size :: nat
  v_cap :: nat

section \<open>Operations\<close>

definition vec_default :: "'a ou_vector" where
  "vec_default = \<lparr>v_data = None, v_size = 0, v_cap = 0\<rparr>"

text \<open>Move construction: the new vector and the emptied source.\<close>

definition vec_move :: "'a ou_vector \<Rightarrow> 'a ou_vector \<times> 'a ou_vector" where
  "vec_move other = (other, \<lparr>v_data = None, v_size = 0, v_cap = 0\<rparr>)"

text \<open>A new block, the elements moved over one by one, the old block freed.\<close>

definition vec_ensure :: "'a ou_vector \<Rightarrow> nat \<Rightarrow> 'a ou_vector option" where
  "vec_ensure v new_cap =
     (if new_cap \<le> v_cap v then Some v
      else do {
        c \<leftarrow> grow_cap grow_fuel (if v_cap v = 0 then 8 else v_cap v) new_cap;
        cells \<leftarrow> (case v_data v of None \<Rightarrow> Some (replicate c None)
                  | Some cs \<Rightarrow> do { xs \<leftarrow> read_cells cs 0 (v_size v);
                                   write_cells (replicate c None) 0 xs });
        Some (v\<lparr>v_data := Some cells, v_cap := c\<rparr>)
      })"

definition vec_get :: "'a ou_vector \<Rightarrow> nat \<Rightarrow> 'a option" where
  "vec_get v i = (case v_data v of None \<Rightarrow> None
                  | Some cs \<Rightarrow> if i < length cs then cs ! i else None)"

definition vec_back :: "'a ou_vector \<Rightarrow> 'a option" where
  "vec_back v = vec_get v (sz_sub (v_size v) 1)"

text \<open>Constructing an object in a slot, destroying the objects of a range.\<close>

definition slot_set :: "'a ou_vector \<Rightarrow> nat \<Rightarrow> 'a list \<Rightarrow> 'a ou_vector option" where
  "slot_set v i xs = (case v_data v of None \<Rightarrow> None
     | Some cs \<Rightarrow> map_option (\<lambda>cs'. v\<lparr>v_data := Some cs'\<rparr>) (write_cells cs i xs))"

definition destroy :: "'a option list \<Rightarrow> nat \<Rightarrow> nat \<Rightarrow> 'a option list option" where
  "destroy cs i n =
     (if i + n \<le> length cs \<and> list_all (\<lambda>c. c \<noteq> None) (take n (drop i cs))
      then Some (take i cs @ replicate n None @ drop (i + n) cs) else None)"

definition vec_push_back :: "'a ou_vector \<Rightarrow> 'a \<Rightarrow> 'a ou_vector option" where
  "vec_push_back v x = do {
     v \<leftarrow> vec_ensure v (sz (v_size v + 1));
     v \<leftarrow> slot_set v (v_size v) [x];
     Some (v\<lparr>v_size := v_size v + 1\<rparr>)
   }"

definition vec_pop_back :: "'a ou_vector \<Rightarrow> 'a ou_vector option" where
  "vec_pop_back v =
     (if v_size v > 0
      then do { cs \<leftarrow> v_data v; cs' \<leftarrow> destroy cs (v_size v - 1) 1;
                Some (v\<lparr>v_data := Some cs', v_size := v_size v - 1\<rparr>) }
      else Some v)"

definition vec_resize :: "'a ou_vector \<Rightarrow> nat \<Rightarrow> 'a \<Rightarrow> 'a ou_vector option" where
  "vec_resize v n x =
     (if n < v_size v
      then do { cs \<leftarrow> v_data v; cs' \<leftarrow> destroy cs n (v_size v - n);
                Some (v\<lparr>v_data := Some cs', v_size := n\<rparr>) }
      else if n > v_size v
      then do { v \<leftarrow> vec_ensure v n;
                v \<leftarrow> slot_set v (v_size v) (replicate (n - v_size v) x);
                Some (v\<lparr>v_size := n\<rparr>) }
      else Some v)"

definition vec_clear :: "'a ou_vector \<Rightarrow> 'a ou_vector option" where
  "vec_clear v =
     (if v_size v = 0 then Some (v\<lparr>v_size := 0\<rparr>)
      else do { cs \<leftarrow> v_data v; cs' \<leftarrow> destroy cs 0 (v_size v);
                Some (v\<lparr>v_data := Some cs', v_size := 0\<rparr>) })"

text \<open>Move the object of slot \<open>i\<close> to the raw slot \<open>j\<close> and destroy the original.\<close>

definition move_cell :: "'a option list \<Rightarrow> nat \<Rightarrow> nat \<Rightarrow> 'a option list option" where
  "move_cell cs i j =
     (if i < length cs \<and> j < length cs \<and> cs ! i \<noteq> None
      then Some ((cs[j := cs ! i])[i := None]) else None)"

text \<open>
  The loops that open and close a gap of \<open>count\<close> slots at \<open>pos\<close>; the last argument counts
  the elements still to be moved, from the back in \<open>insert\<close> and from the front in \<open>erase\<close>.
\<close>

fun shift_up :: "'a option list \<Rightarrow> nat \<Rightarrow> nat \<Rightarrow> nat \<Rightarrow> 'a option list option" where
  "shift_up cs pos count 0 = Some cs"
| "shift_up cs pos count (Suc k) =
     do { cs' \<leftarrow> move_cell cs (pos + k) (pos + k + count); shift_up cs' pos count k }"

fun shift_down :: "'a option list \<Rightarrow> nat \<Rightarrow> nat \<Rightarrow> nat \<Rightarrow> 'a option list option" where
  "shift_down cs pos count 0 = Some cs"
| "shift_down cs pos count (Suc k) =
     do { cs' \<leftarrow> move_cell cs (pos + count) pos; shift_down cs' (Suc pos) count k }"

definition vec_insert :: "'a ou_vector \<Rightarrow> nat \<Rightarrow> 'a \<Rightarrow> 'a ou_vector option" where
  "vec_insert v pos0 x = (let pos = clamp (v_size v) pos0 in do {
     v \<leftarrow> vec_ensure v (sz (v_size v + 1));
     cs \<leftarrow> v_data v;
     cs' \<leftarrow> shift_up cs pos 1 (v_size v - pos);
     v \<leftarrow> slot_set (v\<lparr>v_data := Some cs'\<rparr>) pos [x];
     Some (v\<lparr>v_size := v_size v + 1\<rparr>)
   })"

definition vec_insert_n :: "'a ou_vector \<Rightarrow> nat \<Rightarrow> nat \<Rightarrow> 'a \<Rightarrow> 'a ou_vector option" where
  "vec_insert_n v pos0 count x =
     (if count = 0 then Some v
      else let pos = clamp (v_size v) pos0 in do {
        v \<leftarrow> vec_ensure v (sz (v_size v + count));
        cs \<leftarrow> v_data v;
        cs' \<leftarrow> shift_up cs pos count (v_size v - pos);
        v \<leftarrow> slot_set (v\<lparr>v_data := Some cs'\<rparr>) pos (replicate count x);
        Some (v\<lparr>v_size := v_size v + count\<rparr>)
      })"

definition vec_erase :: "'a ou_vector \<Rightarrow> nat \<Rightarrow> 'a ou_vector option" where
  "vec_erase v pos =
     (if pos \<ge> v_size v then Some v
      else do {
        cs \<leftarrow> v_data v;
        cs \<leftarrow> destroy cs pos 1;
        cs \<leftarrow> shift_down cs pos 1 (v_size v - 1 - pos);
        Some (v\<lparr>v_data := Some cs, v_size := v_size v - 1\<rparr>)
      })"

definition vec_erase_n :: "'a ou_vector \<Rightarrow> nat \<Rightarrow> nat \<Rightarrow> 'a ou_vector option" where
  "vec_erase_n v pos count0 =
     (if count0 = 0 \<or> pos \<ge> v_size v then Some v
      else let count = span (v_size v) pos count0 in do {
        cs \<leftarrow> v_data v;
        cs \<leftarrow> destroy cs pos count;
        cs \<leftarrow> shift_down cs pos count (v_size v - count - pos);
        Some (v\<lparr>v_data := Some cs, v_size := v_size v - count\<rparr>)
      })"

section \<open>Representation\<close>

definition vec_max :: nat where
  "vec_max = 2 ^ 31"

definition vec_rep :: "'a ou_vector \<Rightarrow> 'a list \<Rightarrow> bool" where
  "vec_rep v xs \<longleftrightarrow> v_size v = length xs \<and>
     (case v_data v of None \<Rightarrow> xs = [] \<and> v_cap v = 0
      | Some cs \<Rightarrow> v_cap v \<in> (\<lambda>k. 2 ^ k) ` {3..31} \<and> length xs \<le> v_cap v \<and>
                   cs = map Some xs @ replicate (v_cap v - length xs) None)"

lemma vec_rep_size: "vec_rep v xs \<Longrightarrow> v_size v = length xs"
  by (simp add: vec_rep_def)

lemma vec_rep_default: "vec_rep vec_default []"
  by (simp add: vec_rep_def vec_default_def)

lemma vec_rep_data:
  assumes "vec_rep v xs" and "xs \<noteq> []"
  shows "v_data v = Some (map Some xs @ replicate (v_cap v - length xs) None)"
    and "v_cap v \<in> (\<lambda>k. 2 ^ k) ` {3..31}" and "length xs \<le> v_cap v"
  using assms by (cases "v_data v"; auto simp: vec_rep_def)+

lemma vec_repI:
  assumes "c \<in> (\<lambda>k. 2 ^ k) ` {3..31}" and "length xs \<le> c"
  shows "vec_rep (v\<lparr>v_data := Some (map Some xs @ replicate (c - length xs) None),
                    v_size := length xs, v_cap := c\<rparr>) xs"
  using assms by (simp add: vec_rep_def)

lemma read_cells_all: "read_cells (map Some xs @ rest) 0 (length xs) = Some xs"
  by (simp add: read_cells_def list_all_iff comp_def)

lemma vec_ensure_rep:
  assumes r: "vec_rep v xs" and n: "0 < n" "n \<le> vec_max"
  obtains c where "vec_ensure v n =
      Some (v\<lparr>v_data := Some (map Some xs @ replicate (c - length xs) None), v_cap := c\<rparr>)"
    and "n \<le> c" and "length xs \<le> c" and "c \<in> (\<lambda>k. 2 ^ k) ` {3..31}"
proof (cases "n \<le> v_cap v")
  case True
  with r n have "v_data v = Some (map Some xs @ replicate (v_cap v - length xs) None)"
    and "v_cap v \<in> (\<lambda>k. 2 ^ k) ` {3..31}" and "length xs \<le> v_cap v"
    by (cases "v_data v"; auto simp: vec_rep_def)+
  with True show thesis by (intro that [of "v_cap v"]) (simp_all add: vec_ensure_def)
next
  case False
  have "\<exists>k. 3 \<le> k \<and> k \<le> 31 \<and> (if v_cap v = 0 then 8 else v_cap v) = (2::nat) ^ k"
    using r by (cases "v_data v") (auto simp: vec_rep_def intro: exI [of _ 3])
  then obtain k where k: "3 \<le> k" "k \<le> 31" "(if v_cap v = 0 then 8 else v_cap v) = (2::nat) ^ k"
    by blast
  have "n \<le> 2 ^ 31" "32 - k \<le> grow_fuel" using n by (simp_all add: vec_max_def grow_fuel_def)
  from grow_cap_pow2 [OF k(2) this] obtain j where
    j: "k \<le> j" "j \<le> 31" "grow_cap grow_fuel (2 ^ k) n = Some (2 ^ j)" "n \<le> 2 ^ j"
    by blast
  have l: "length xs \<le> 2 ^ j"
    using r False j(4) by (cases "v_data v") (auto simp: vec_rep_def)
  have "(case v_data v of None \<Rightarrow> Some (replicate (2 ^ j) None)
         | Some cs \<Rightarrow> do { xs \<leftarrow> read_cells cs 0 (v_size v); write_cells (replicate (2 ^ j) None) 0 xs })
        = Some (map Some xs @ replicate (2 ^ j - length xs) None)"
    using r l by (cases "v_data v") (auto simp: vec_rep_def read_cells_all cell_simps)
  then have "vec_ensure v n =
      Some (v\<lparr>v_data := Some (map Some xs @ replicate (2 ^ j - length xs) None), v_cap := 2 ^ j\<rparr>)"
    using False k(3) j(3) by (simp add: vec_ensure_def)
  then show thesis using j k l by (intro that [of "2 ^ j"]) auto
qed

section \<open>The shifting loops\<close>

lemma move_cell_up:
  "move_cell (A @ Some b # replicate (Suc c) None @ R) (length A) (length A + Suc c) =
   Some (A @ replicate (Suc c) None @ Some b # R)"
proof -
  have "(Some b # replicate (Suc c) None @ R)[Suc c := Some b] =
        Some b # replicate c None @ Some b # R"
    by (simp add: list_update_append flip: replicate_append_same)
  then show ?thesis
    by (simp add: move_cell_def nth_append list_update_append replicate_append_same [symmetric]
        del: replicate_append_same)
qed

lemma shift_up_gap:
  "length A = pos \<Longrightarrow> length B = k \<Longrightarrow>
   shift_up (A @ map Some B @ replicate (Suc c) None @ R) pos (Suc c) k =
   Some (A @ replicate (Suc c) None @ map Some B @ R)"
proof (induction k arbitrary: B R)
  case 0
  then show ?case by simp
next
  case (Suc k)
  then obtain B' b where B: "B = B' @ [b]" "length B' = k"
    by (cases B rule: rev_cases) auto
  let ?A = "A @ map Some B'"
  have "move_cell (?A @ Some b # replicate (Suc c) None @ R) (length ?A) (length ?A + Suc c) =
      Some (?A @ replicate (Suc c) None @ Some b # R)"
    by (rule move_cell_up)
  moreover have "length ?A = pos + k" using Suc.prems B by simp
  ultimately have m: "move_cell (A @ map Some B @ replicate (Suc c) None @ R) (pos + k) (pos + k + Suc c) =
      Some (A @ map Some B' @ replicate (Suc c) None @ Some b # R)"
    using B by simp
  show ?case
    using Suc.IH [OF Suc.prems(1) B(2), of "Some b # R"] m B by simp
qed

lemma move_cell_down:
  "move_cell (A @ replicate (Suc c) None @ Some b # R) (length A + Suc c) (length A) =
   Some (A @ Some b # replicate (Suc c) None @ R)"
proof -
  have "(replicate c None @ Some b # R)[c := None] = replicate (Suc c) None @ R"
    by (simp add: list_update_append replicate_append_same [symmetric] del: replicate_append_same)
  moreover have "(replicate c None @ Some b # R) ! c = Some b"
    by (simp add: nth_append)
  ultimately show ?thesis
    by (simp add: move_cell_def nth_append list_update_append)
qed

lemma shift_down_gap:
  "length A = pos \<Longrightarrow> length B = k \<Longrightarrow>
   shift_down (A @ replicate (Suc c) None @ map Some B @ R) pos (Suc c) k =
   Some (A @ map Some B @ replicate (Suc c) None @ R)"
proof (induction k arbitrary: A B pos)
  case 0
  then show ?case by simp
next
  case (Suc k)
  then obtain b B' where B: "B = b # B'" "length B' = k" by (cases B) auto
  have "move_cell (A @ replicate (Suc c) None @ map Some B @ R) (pos + Suc c) pos =
      Some (A @ Some b # replicate (Suc c) None @ map Some B' @ R)"
    using move_cell_down [of A c b "map Some B' @ R"] Suc.prems(1) B by simp
  with Suc.IH [of "A @ [Some b]" "Suc pos" B'] Suc.prems(1) B show ?case by simp
qed

lemma destroy_mid:
  "length A = p \<Longrightarrow> length B = n \<Longrightarrow>
   destroy (A @ map Some B @ R) p n = Some (A @ replicate n None @ R)"
  by (simp add: destroy_def list_all_iff)

section \<open>Functional correctness of the operations\<close>

lemma slot_set_end:
  assumes "v_data v = Some (map Some xs @ replicate m None)" and "length ys \<le> m" and "p = length xs"
  shows "slot_set v p ys =
    Some (v\<lparr>v_data := Some (map Some (xs @ ys) @ replicate (m - length ys) None)\<rparr>)"
  using assms by (simp add: slot_set_def cell_simps)

lemma vec_insert_n_rep:
  assumes r: "vec_rep v xs" and n: "length xs + n \<le> vec_max"
  shows "\<exists>v'. vec_insert_n v p n x = Some v' \<and> vec_rep v' (take p xs @ replicate n x @ drop p xs)"
proof (cases n)
  case 0
  with r show ?thesis by (simp add: vec_insert_n_def)
next
  case (Suc c)
  then have nz: "n \<noteq> 0" by simp
  have m: "0 < length xs + n" "length xs + n < size_mod"
    using n Suc by (simp_all add: vec_max_def size_mod_def)
  obtain cap where
    e: "vec_ensure v (length xs + n) =
        Some (v\<lparr>v_data := Some (map Some xs @ replicate (cap - length xs) None), v_cap := cap\<rparr>)"
    and cap: "length xs + n \<le> cap" "cap \<in> (\<lambda>k. 2 ^ k) ` {3..31}"
    using vec_ensure_rep [OF r m(1) n] by metis
  define q where "q = clamp (length xs) p"
  have q: "q \<le> length xs" "take q xs = take p xs" "drop q xs = drop p xs" by (simp_all add: q_def)
  define R where "R = replicate (cap - length xs - n) (None :: 'a option)"
  have R: "replicate (cap - length xs) None = replicate (Suc c) None @ R"
  proof -
    have "cap - length xs = Suc c + (cap - length xs - n)" using cap(1) Suc by simp
    then show ?thesis by (metis R_def replicate_add)
  qed
  have cells: "map Some xs = map Some (take q xs) @ map Some (drop q xs)"
    by (simp flip: map_append)
  have sh: "shift_up (map Some xs @ replicate (cap - length xs) None) q n (length xs - q) =
      Some (map Some (take q xs) @ replicate n None @ map Some (drop q xs) @ R)"
    unfolding R cells using q(1) Suc by (simp add: shift_up_gap del: replicate_Suc)
  define ys where "ys = take q xs @ replicate n x @ drop q xs"
  have ys: "length ys = length xs + n" using q(1) by (simp add: ys_def)
  have "slot_set (v\<lparr>v_cap := cap, v_data := Some (map Some (take q xs) @ replicate n None @ map Some (drop q xs) @ R)\<rparr>)
      q (replicate n x) = Some (v\<lparr>v_data := Some (map Some ys @ R), v_cap := cap\<rparr>)"
    using q(1) by (simp add: slot_set_def cell_simps ys_def)
  then have "vec_insert_n v p n x =
      Some (v\<lparr>v_data := Some (map Some ys @ replicate (cap - length ys) None),
              v_size := length ys, v_cap := cap\<rparr>)"
    using nz m(2) sh ys
    by (simp add: vec_insert_n_def vec_rep_size [OF r] q_def [symmetric] Let_def e R_def)
  moreover have "vec_rep (v\<lparr>v_data := Some (map Some ys @ replicate (cap - length ys) None),
      v_size := length ys, v_cap := cap\<rparr>) ys"
    using cap ys by (intro vec_repI) auto
  ultimately show ?thesis using q by (auto simp: ys_def)
qed

lemma vec_insert_eq: "vec_insert v p x = vec_insert_n v p 1 x"
  by (simp add: vec_insert_def vec_insert_n_def)

lemma vec_push_back_rep:
  assumes r: "vec_rep v xs" and n: "length xs + 1 \<le> vec_max"
  shows "\<exists>v'. vec_push_back v x = Some v' \<and> vec_rep v' (xs @ [x])"
proof -
  have m: "0 < length xs + 1" "length xs + 1 < size_mod"
    using n by (simp_all add: vec_max_def size_mod_def)
  obtain cap where
    e: "vec_ensure v (length xs + 1) =
        Some (v\<lparr>v_data := Some (map Some xs @ replicate (cap - length xs) None), v_cap := cap\<rparr>)"
    and cap: "length xs + 1 \<le> cap" "cap \<in> (\<lambda>k. 2 ^ k) ` {3..31}"
    using vec_ensure_rep [OF r m(1) n] by metis
  have "vec_push_back v x =
      Some (v\<lparr>v_data := Some (map Some (xs @ [x]) @ replicate (cap - length (xs @ [x])) None),
              v_size := length (xs @ [x]), v_cap := cap\<rparr>)"
    using m(2) e cap(1)
      slot_set_end [of "v\<lparr>v_data := Some (map Some xs @ replicate (cap - length xs) None), v_cap := cap\<rparr>"
        xs "cap - length xs" "[x]" "length xs"]
    by (simp add: vec_push_back_def vec_rep_size [OF r])
  moreover have "vec_rep (v\<lparr>v_data := Some (map Some (xs @ [x]) @ replicate (cap - length (xs @ [x])) None),
      v_size := length (xs @ [x]), v_cap := cap\<rparr>) (xs @ [x])"
    using cap by (intro vec_repI) auto
  ultimately show ?thesis by blast
qed

lemma vec_erase_n_rep:
  assumes r: "vec_rep v xs" and n: "p + n < size_mod"
  shows "\<exists>v'. vec_erase_n v p n = Some v' \<and> vec_rep v' (take p xs @ drop (p + n) xs)"
proof (cases "n = 0 \<or> p \<ge> length xs")
  case True
  with r show ?thesis by (auto simp: vec_erase_n_def vec_rep_size [OF r])
next
  case False
  then have p: "p < length xs" and "xs \<noteq> []" by auto
  note d = vec_rep_data [OF r \<open>xs \<noteq> []\<close>]
  define m where "m = span (length xs) p n"
  have m: "p + m \<le> length xs" "drop (p + m) xs = drop (p + n) xs"
    using p n by (simp_all add: m_def span_bound span_drop)
  have "0 < m" using False p by (simp add: m_def span_def)
  then obtain c where c: "m = Suc c" by (cases m) auto
  define R where "R = replicate (v_cap v - length xs) (None :: 'a option)"
  define B where "B = drop (p + m) xs"
  have lB: "length B = length xs - m - p" using m(1) by (simp add: B_def)
  have xs: "map Some xs = map Some (take p xs) @ map Some (take m (drop p xs)) @ map Some B"
    by (simp add: B_def add.commute flip: map_append drop_drop)
  have e1: "destroy (map Some xs @ R) p m = Some (map Some (take p xs) @ replicate m None @ map Some B @ R)"
    unfolding xs using m(1) destroy_mid [of "map Some (take p xs)" p "take m (drop p xs)" m "map Some B @ R"]
    by simp
  have e2: "shift_down (map Some (take p xs) @ replicate m None @ map Some B @ R) p m (length xs - m - p) =
      Some (map Some (take p xs) @ map Some B @ replicate m None @ R)"
    unfolding c using p lB c shift_down_gap [of "map Some (take p xs)" p B "length xs - m - p" c R]
    by simp
  define ys where "ys = take p xs @ B"
  have ys: "length ys = length xs - m" using m(1) lB by (simp add: ys_def)
  have "replicate m None @ R = replicate (v_cap v - length ys) None"
    using d(3) m(1) ys by (simp add: R_def flip: replicate_add)
  then have "vec_erase_n v p n =
      Some (v\<lparr>v_data := Some (map Some ys @ replicate (v_cap v - length ys) None),
              v_size := length ys, v_cap := v_cap v\<rparr>)"
    using False d(1) e1 e2 ys
    by (simp add: vec_erase_n_def vec_rep_size [OF r] m_def [symmetric] Let_def R_def ys_def)
  moreover have "vec_rep (v\<lparr>v_data := Some (map Some ys @ replicate (v_cap v - length ys) None),
      v_size := length ys, v_cap := v_cap v\<rparr>) ys"
    using d ys by (intro vec_repI) auto
  ultimately show ?thesis using m(2) by (auto simp: ys_def B_def)
qed

lemma vec_erase_eq: "p < v_size v \<Longrightarrow> v_size v < size_mod \<Longrightarrow> vec_erase v p = vec_erase_n v p 1"
  by (simp add: vec_erase_def vec_erase_n_def span_def Let_def)

lemma vec_erase_rep:
  assumes r: "vec_rep v xs" and p: "p < length xs" and n: "length xs < size_mod"
  shows "\<exists>v'. vec_erase v p = Some v' \<and> vec_rep v' (take p xs @ drop (p + 1) xs)"
  using vec_erase_n_rep [OF r, of p 1] vec_erase_eq [of p v] assms
  by (simp add: vec_rep_size [OF r])

lemma vec_resize_shrink: "n < v_size v \<Longrightarrow> v_size v < size_mod \<Longrightarrow>
    vec_resize v n x = vec_erase_n v n (v_size v - n)"
  by (simp add: vec_resize_def vec_erase_n_def span_def Let_def)

lemma vec_resize_rep:
  assumes r: "vec_rep v xs" and l: "length xs < size_mod" and n: "n \<le> vec_max"
  shows "\<exists>v'. vec_resize v n x = Some v' \<and> vec_rep v' (take n xs @ replicate (n - length xs) x)"
proof (cases n "length xs" rule: linorder_cases)
  case less
  then show ?thesis
    using vec_erase_n_rep [OF r, of n "length xs - n"] vec_resize_shrink [of n v x] l
    by (simp add: vec_rep_size [OF r])
next
  case equal
  with r show ?thesis by (simp add: vec_resize_def vec_rep_size [OF r])
next
  case greater
  then have "0 < n" by simp
  then obtain cap where
    e: "vec_ensure v n =
        Some (v\<lparr>v_data := Some (map Some xs @ replicate (cap - length xs) None), v_cap := cap\<rparr>)"
    and cap: "n \<le> cap" "cap \<in> (\<lambda>k. 2 ^ k) ` {3..31}"
    using vec_ensure_rep [OF r _ n] by metis
  let ?ys = "xs @ replicate (n - length xs) x"
  have ys: "length ?ys = n" using greater by simp
  have "vec_resize v n x =
      Some (v\<lparr>v_data := Some (map Some ?ys @ replicate (cap - length ?ys) None),
              v_size := length ?ys, v_cap := cap\<rparr>)"
    using greater e cap(1)
      slot_set_end [of "v\<lparr>v_data := Some (map Some xs @ replicate (cap - length xs) None), v_cap := cap\<rparr>"
        xs "cap - length xs" "replicate (n - length xs) x" "length xs"]
    by (simp add: vec_resize_def vec_rep_size [OF r])
  moreover have "vec_rep (v\<lparr>v_data := Some (map Some ?ys @ replicate (cap - length ?ys) None),
      v_size := length ?ys, v_cap := cap\<rparr>) ?ys"
    using cap ys by (intro vec_repI) auto
  ultimately show ?thesis using greater by auto
qed

lemma vec_clear_rep:
  assumes r: "vec_rep v xs"
  shows "\<exists>v'. vec_clear v = Some v' \<and> vec_rep v' [] \<and> v_cap v' = v_cap v"
proof (cases "xs = []")
  case True
  with r show ?thesis
    by (intro exI [of _ "v\<lparr>v_size := 0\<rparr>"])
      (auto simp: vec_clear_def vec_rep_def split: option.splits)
next
  case False
  note d = vec_rep_data [OF r False]
  have "destroy (map Some xs @ replicate (v_cap v - length xs) None) 0 (length xs) =
      Some (replicate (v_cap v) None)"
    using destroy_mid [of "[]" 0 xs "length xs" "replicate (v_cap v - length xs) None"] d(3)
    by (simp flip: replicate_add)
  with False d show ?thesis
    by (intro exI [of _ "v\<lparr>v_data := Some (replicate (v_cap v) None), v_size := 0\<rparr>"])
      (simp add: vec_clear_def vec_rep_size [OF r] vec_rep_def)
qed

lemma vec_get_rep: "vec_rep v xs \<Longrightarrow> i < length xs \<Longrightarrow> vec_get v i = Some (xs ! i)"
  by (auto simp: vec_get_def vec_rep_def nth_append split: option.splits)

lemma vec_back_rep: "vec_rep v xs \<Longrightarrow> xs \<noteq> [] \<Longrightarrow> vec_back v = Some (last xs)"
  by (cases xs rule: rev_cases) (simp_all add: vec_back_def vec_rep_size vec_get_rep nth_append)

lemma vec_pop_back_rep:
  assumes r: "vec_rep v xs" and l: "length xs < size_mod"
  shows "\<exists>v'. vec_pop_back v = Some v' \<and> vec_rep v' (butlast xs)"
proof (cases "xs = []")
  case True
  with r show ?thesis by (simp add: vec_pop_back_def vec_rep_size [OF r])
next
  case False
  then obtain m where m: "length xs = Suc m" by (cases xs) auto
  have "vec_pop_back v = vec_resize v (length xs - 1) undefined"
    by (simp add: vec_pop_back_def vec_resize_def vec_rep_size [OF r] m)
  moreover have "length xs - 1 \<le> vec_max"
  proof -
    have "v_cap v \<le> vec_max" using vec_rep_data(2) [OF r False] by (auto simp: vec_max_def)
    with vec_rep_data(3) [OF r False] show ?thesis by linarith
  qed
  ultimately show ?thesis
    using vec_resize_rep [OF r l, of "length xs - 1" undefined] by (simp add: butlast_conv_take)
qed

section \<open>The vector as a sequence buffer\<close>

lemma vec_max_size: "vec_max < size_mod"
  by (simp add: vec_max_def size_mod_def)

interpretation vec_seq: seq_buffer vec_rep vec_push_back vec_insert vec_erase_n vec_max
proof unfold_locales
  fix v :: "'a ou_vector" and xs p a
  assume r: "vec_rep v xs" and l: "length xs + 1 < vec_max"
  show "\<exists>v'. vec_push_back v a = Some v' \<and> vec_rep v' (xs @ [a])"
    using vec_push_back_rep [OF r] l by simp
  show "\<exists>v'. vec_insert v p a = Some v' \<and> vec_rep v' (take p xs @ a # drop p xs)"
    using vec_insert_n_rep [OF r, of 1] l by (simp add: vec_insert_eq)
next
  fix v :: "'a ou_vector" and xs p n
  assume "vec_rep v xs" and "p + n < size_mod"
  then show "\<exists>v'. vec_erase_n v p n = Some v' \<and> vec_rep v' (take p xs @ drop (p + n) xs)"
    by (rule vec_erase_n_rep)
next
  show "vec_max < size_mod" by (rule vec_max_size)
qed

section \<open>Properties\<close>



end
