(* ===== verification/OuHashMap.thy ===== *)
theory OuHashMap
  imports Prelude
begin

text \<open>
  The string hash map of the user space (\<open>ot/user/hashmap.hpp\<close>): open addressing with
  linear probing over a table whose size is a power of two, growing by doubling. The hash
  is djb2 in 32-bit arithmetic; \<open>sg\<close> says whether \<open>char\<close> is signed (wasm32) or not
  (riscv32). \<open>alloc n\<close> says whether \<open>ou_malloc\<close> delivers a table of \<open>n\<close> entries.
  The keys are the caller's: the table stores pointers, which the model identifies with
  the strings they point to.
\<close>

unbundle bit_operations_syntax

section \<open>Hashing\<close>

definition char_int :: "bool \<Rightarrow> char \<Rightarrow> int" where
  "char_int sg c = (if sg \<and> char_val c \<ge> 128 then int (char_val c) - 256 else int (char_val c))"

fun hash_from :: "bool \<Rightarrow> 32 word \<Rightarrow> string \<Rightarrow> 32 word" where
  "hash_from sg h [] = h"
| "hash_from sg h (c # cs) = hash_from sg ((push_bit 5 h + h) + word_of_int (char_int sg c)) cs"

definition hash_string :: "bool \<Rightarrow> string \<Rightarrow> 32 word" where
  "hash_string sg s = hash_from sg 5381 s"

section \<open>The table\<close>

text \<open>A default-constructed entry has no value of the client (\<open>None\<close>).\<close>

record 'v entry =
  e_key :: string
  e_value :: "'v option"
  e_occupied :: bool

definition entry_default :: "'v entry" where
  "entry_default = \<lparr>e_key = [], e_value = None, e_occupied = False\<rparr>"

record 'v hashmap =
  hm_table :: "'v entry list option"
  hm_cap :: nat
  hm_count :: nat

definition initial_capacity :: nat where
  "initial_capacity = 16"

definition hm_new :: "(nat \<Rightarrow> bool) \<Rightarrow> 'v hashmap" where
  "hm_new alloc =
     \<lparr>hm_table = (if alloc initial_capacity then Some (replicate initial_capacity entry_default) else None),
      hm_cap = initial_capacity, hm_count = 0\<rparr>"

definition hash_index :: "bool \<Rightarrow> nat \<Rightarrow> string \<Rightarrow> nat" where
  "hash_index sg cap k = unat (hash_string sg k) AND (cap - 1)"

text \<open>
  The probe loop that \<open>insert\<close>, \<open>find\<close> and \<open>remove\<close> share: it ends at the first free slot,
  at the slot of the key, or after \<open>cap\<close> slots (\<open>n\<close> counts the slots left).
\<close>

datatype probe = Free nat | Found nat | Full

fun hm_probe :: "'v entry list \<Rightarrow> nat \<Rightarrow> nat \<Rightarrow> string \<Rightarrow> nat \<Rightarrow> nat \<Rightarrow> probe" where
  "hm_probe t cap idx k i 0 = Full"
| "hm_probe t cap idx k i (Suc n) =
     (let p = (idx + i) AND (cap - 1) in
      if \<not> e_occupied (t ! p) then Free p
      else if e_key (t ! p) = k then Found p
      else hm_probe t cap idx k (Suc i) n)"

definition hm_search :: "bool \<Rightarrow> 'v entry list \<Rightarrow> nat \<Rightarrow> string \<Rightarrow> probe" where
  "hm_search sg t cap k = hm_probe t cap (hash_index sg cap k) k 0 cap"

text \<open>The part of \<open>insert\<close> after the growth check; \<open>None\<close> is a null table.\<close>

definition hm_place :: "bool \<Rightarrow> 'v hashmap \<Rightarrow> string \<Rightarrow> 'v \<Rightarrow> ('v hashmap \<times> bool) option" where
  "hm_place sg m k v = do {
     t \<leftarrow> hm_table m;
     Some (case hm_search sg t (hm_cap m) k of
        Free p \<Rightarrow> (m\<lparr>hm_table := Some (t[p := \<lparr>e_key = k, e_value = Some v, e_occupied = True\<rparr>]),
                      hm_count := sz (hm_count m + 1)\<rparr>, True)
      | Found p \<Rightarrow> (m\<lparr>hm_table := Some (t[p := (t ! p)\<lparr>e_value := Some v\<rparr>])\<rparr>, True)
      | Full \<Rightarrow> (m, False))
   }"

text \<open>\<open>resize\<close>, with the insertion it calls back as an argument.\<close>

definition hm_resize ::
  "('v hashmap \<Rightarrow> string \<Rightarrow> 'v \<Rightarrow> ('v hashmap \<times> bool) option) \<Rightarrow> (nat \<Rightarrow> bool) \<Rightarrow>
   'v hashmap \<Rightarrow> nat \<Rightarrow> 'v hashmap option" where
  "hm_resize ins alloc m n =
     (if \<not> alloc n then Some m
      else fold_opt (\<lambda>e m'. if e_occupied e
                            then do { v \<leftarrow> e_value e; r \<leftarrow> ins m' (e_key e) v; Some (fst r) }
                            else Some m')
             (case hm_table m of None \<Rightarrow> [] | Some t \<Rightarrow> t)
             (m\<lparr>hm_table := Some (replicate n entry_default), hm_cap := n, hm_count := 0\<rparr>))"

text \<open>\<open>insert\<close> and \<open>resize\<close> call each other; the fuel bounds the nesting.\<close>

fun hm_insert_f :: "nat \<Rightarrow> bool \<Rightarrow> (nat \<Rightarrow> bool) \<Rightarrow> 'v hashmap \<Rightarrow> string \<Rightarrow> 'v \<Rightarrow> ('v hashmap \<times> bool) option" where
  "hm_insert_f 0 sg alloc m k v = None"
| "hm_insert_f (Suc f) sg alloc m k v = do {
     m \<leftarrow> (if hm_count m \<ge> sz (hm_cap m * 3) div 4
          then hm_resize (hm_insert_f f sg alloc) alloc m (sz (hm_cap m * 2))
          else Some m);
     hm_place sg m k v
   }"

definition hm_insert :: "bool \<Rightarrow> (nat \<Rightarrow> bool) \<Rightarrow> 'v hashmap \<Rightarrow> string \<Rightarrow> 'v \<Rightarrow> ('v hashmap \<times> bool) option" where
  "hm_insert = hm_insert_f 2"

definition hm_find :: "bool \<Rightarrow> 'v hashmap \<Rightarrow> string \<Rightarrow> 'v option" where
  "hm_find sg m k = do {
     t \<leftarrow> hm_table m;
     case hm_search sg t (hm_cap m) k of Found p \<Rightarrow> e_value (t ! p) | _ \<Rightarrow> None
   }"

definition hm_remove :: "bool \<Rightarrow> 'v hashmap \<Rightarrow> string \<Rightarrow> 'v hashmap \<times> bool" where
  "hm_remove sg m k =
     (case hm_table m of None \<Rightarrow> (m, False)
      | Some t \<Rightarrow>
         (case hm_search sg t (hm_cap m) k of
            Found p \<Rightarrow> (m\<lparr>hm_table := Some (t[p := (t ! p)\<lparr>e_occupied := False\<rparr>]),
                          hm_count := sz_sub (hm_count m) 1\<rparr>, True)
          | _ \<Rightarrow> (m, False)))"

definition hm_clear :: "'v hashmap \<Rightarrow> 'v hashmap" where
  "hm_clear m =
     (case hm_table m of None \<Rightarrow> m
      | Some t \<Rightarrow> m\<lparr>hm_table := Some (map (\<lambda>e. e\<lparr>e_occupied := False\<rparr>) t), hm_count := 0\<rparr>)"

section \<open>Invariant and abstraction\<close>

text \<open>Slot \<open>j\<close> of the probe sequence of a key.\<close>

definition slot_of :: "bool \<Rightarrow> nat \<Rightarrow> string \<Rightarrow> nat \<Rightarrow> nat" where
  "slot_of sg cap k j = (unat (hash_string sg k) + j) mod cap"

definition occ :: "'v entry list \<Rightarrow> nat \<Rightarrow> bool" where
  "occ t p \<longleftrightarrow> p < length t \<and> e_occupied (t ! p)"

text \<open>
  Every occupied slot is on the probe sequence of its key behind occupied slots only, and
  no two occupied slots have the same key.
\<close>

definition table_ok :: "bool \<Rightarrow> 'v entry list \<Rightarrow> bool" where
  "table_ok sg t \<longleftrightarrow>
     (\<forall>p. occ t p \<longrightarrow> e_value (t ! p) \<noteq> None \<and>
        (\<exists>j<length t. slot_of sg (length t) (e_key (t ! p)) j = p \<and>
           (\<forall>i<j. occ t (slot_of sg (length t) (e_key (t ! p)) i)))) \<and>
     (\<forall>p q. occ t p \<longrightarrow> occ t q \<longrightarrow> e_key (t ! p) = e_key (t ! q) \<longrightarrow> p = q)"

definition hm_inv :: "bool \<Rightarrow> 'v hashmap \<Rightarrow> bool" where
  "hm_inv sg m \<longleftrightarrow>
     (case hm_table m of None \<Rightarrow> False
      | Some t \<Rightarrow> length t = hm_cap m \<and> hm_cap m \<in> (\<lambda>k. 2 ^ k) ` {4..27} \<and> table_ok sg t \<and>
                  hm_count m = card {p. occ t p})"

definition table_map :: "'v entry list \<Rightarrow> string \<Rightarrow> 'v option" where
  "table_map t k = (case filter (\<lambda>e. e_occupied e \<and> e_key e = k) t of [] \<Rightarrow> None | e # _ \<Rightarrow> e_value e)"

definition hm_abs :: "'v hashmap \<Rightarrow> string \<Rightarrow> 'v option" where
  "hm_abs m k = (case hm_table m of None \<Rightarrow> None | Some t \<Rightarrow> table_map t k)"

lemma hm_abs_table: "hm_table m = Some t \<Longrightarrow> hm_abs m = table_map t"
  by (simp add: hm_abs_def fun_eq_iff)

section \<open>Slots\<close>

lemma and_pred_pow2: "cap = 2 ^ n \<Longrightarrow> (x::nat) AND (cap - 1) = x mod cap"
  by (simp only: take_bit_eq_mod [symmetric] take_bit_eq_mask mask_eq_exp_minus_1)

lemma probe_slot:
  assumes "cap \<in> (\<lambda>k. 2 ^ k) ` A"
  shows "(hash_index sg cap k + i) AND (cap - 1) = slot_of sg cap k i"
proof -
  from assms obtain n where "cap = 2 ^ n" by blast
  from and_pred_pow2 [OF this] show ?thesis
    by (simp only: hash_index_def slot_of_def mod_add_left_eq)
qed

lemma hm_probe_step:
  assumes "length t \<in> (\<lambda>k. 2 ^ k) ` A" and "p = slot_of sg (length t) k i"
  shows "hm_probe t (length t) (hash_index sg (length t) k) k i (Suc n) =
    (if \<not> e_occupied (t ! p) then Free p else if e_key (t ! p) = k then Found p
     else hm_probe t (length t) (hash_index sg (length t) k) k (Suc i) n)"
  by (simp only: hm_probe.simps Let_def probe_slot [OF assms(1)] assms(2))

lemma slot_of_lt: "0 < cap \<Longrightarrow> slot_of sg cap k i < cap"
  by (simp add: slot_of_def)

lemma slot_of_onto:
  assumes "p < cap"
  shows "\<exists>j<cap. slot_of sg cap k j = p"
proof -
  define h where "h = unat (hash_string sg k) mod cap"
  have h: "h < cap" using assms by (simp add: h_def)
  have "(h + (p + (cap - h)) mod cap) mod cap = p"
    using assms h by (simp add: mod_add_right_eq)
  moreover have "(h + (p + (cap - h)) mod cap) mod cap = slot_of sg cap k ((p + (cap - h)) mod cap)"
    by (simp add: slot_of_def h_def mod_add_left_eq)
  moreover have "(p + (cap - h)) mod cap < cap" using assms by simp
  ultimately show ?thesis by metis
qed

text \<open>What each outcome of the probe loop says.\<close>

definition missed :: "bool \<Rightarrow> 'v entry list \<Rightarrow> string \<Rightarrow> nat \<Rightarrow> bool" where
  "missed sg t k j \<longleftrightarrow>
     (let p = slot_of sg (length t) k j in occ t p \<and> e_key (t ! p) \<noteq> k)"

lemma hm_probe_outcome:
  assumes "length t \<in> (\<lambda>k. 2 ^ k) ` A"
  shows "case hm_probe t (length t) (hash_index sg (length t) k) k i n of
     Free p \<Rightarrow> \<exists>j. i \<le> j \<and> j < i + n \<and> slot_of sg (length t) k j = p \<and> \<not> occ t p \<and>
                    (\<forall>l. i \<le> l \<and> l < j \<longrightarrow> missed sg t k l)
   | Found p \<Rightarrow> occ t p \<and> e_key (t ! p) = k
   | Full \<Rightarrow> \<forall>l. i \<le> l \<and> l < i + n \<longrightarrow> missed sg t k l"
  using assms
proof (induction n arbitrary: i)
  case 0
  then show ?case by auto
next
  case (Suc n)
  let ?p = "slot_of sg (length t) k i"
  have p: "?p < length t" using Suc.prems by (intro slot_of_lt) auto
  note ps = hm_probe_step [OF Suc.prems refl, of sg k i n]
  show ?case
  proof (cases "missed sg t k i")
    case True
    then have eq: "hm_probe t (length t) (hash_index sg (length t) k) k i (Suc n) =
        hm_probe t (length t) (hash_index sg (length t) k) k (Suc i) n"
      unfolding ps by (simp add: missed_def Let_def occ_def)
    have ext: "(\<forall>l. i \<le> l \<and> l < b \<longrightarrow> missed sg t k l)"
      if "\<forall>l. Suc i \<le> l \<and> l < b \<longrightarrow> missed sg t k l" for b
      using that True by (metis Suc_leI le_neq_implies_less)
    show ?thesis
      unfolding eq using Suc.IH [OF Suc.prems, of "Suc i"] ext
      by (auto split: probe.splits) (metis Suc_leD)
  next
    case False
    then show ?thesis
      unfolding ps using p by (auto simp: missed_def Let_def occ_def intro!: exI [of _ i])
  qed
qed

lemma hm_search_outcome:
  assumes "length t \<in> (\<lambda>k. 2 ^ k) ` A"
  shows "case hm_search sg t (length t) k of
     Free p \<Rightarrow> \<exists>j<length t. slot_of sg (length t) k j = p \<and> \<not> occ t p \<and> (\<forall>l<j. missed sg t k l)
   | Found p \<Rightarrow> occ t p \<and> e_key (t ! p) = k
   | Full \<Rightarrow> \<forall>l<length t. missed sg t k l"
  using hm_probe_outcome [OF assms, where sg = sg and k = k and i = 0 and n = "length t"]
  by (auto simp: hm_search_def split: probe.splits)

lemma missed_all_full:
  assumes m: "\<forall>l<length t. missed sg t k l"
  shows "{p. occ t p} = {..<length t}" and "\<not> (\<exists>p. occ t p \<and> e_key (t ! p) = k)"
proof -
  have *: "occ t p \<and> e_key (t ! p) \<noteq> k" if "p < length t" for p
    using slot_of_onto [OF that, of sg k] m by (auto simp: missed_def Let_def)
  then show "{p. occ t p} = {..<length t}" by (auto simp: occ_def)
  show "\<not> (\<exists>p. occ t p \<and> e_key (t ! p) = k)" using * by (auto simp: occ_def)
qed

lemma hm_search_found:
  assumes ok: "table_ok sg t" and n: "length t \<in> (\<lambda>k. 2 ^ k) ` A"
    and p: "occ t p" "e_key (t ! p) = k"
  shows "hm_search sg t (length t) k = Found p"
proof -
  from ok p obtain j where
    j: "j < length t" "slot_of sg (length t) k j = p" "\<forall>i<j. occ t (slot_of sg (length t) k i)"
    unfolding table_ok_def by blast
  have uniq: "occ t q \<Longrightarrow> e_key (t ! q) = k \<Longrightarrow> q = p" for q
    using ok p unfolding table_ok_def by blast
  show ?thesis
  proof (cases "hm_search sg t (length t) k")
    case (Free q)
    with hm_search_outcome [OF n, of sg k] obtain j' where
      j': "slot_of sg (length t) k j' = q" "\<not> occ t q" "\<forall>l<j'. missed sg t k l" by auto
    have "\<not> j < j'" using j'(3) j(2) p by (auto simp: missed_def Let_def)
    moreover have "\<not> j' < j" using j(3) j'(1,2) by blast
    moreover have "j \<noteq> j'" using j(2) j'(1,2) p by blast
    ultimately show ?thesis by simp
  next
    case (Found q)
    with hm_search_outcome [OF n, of sg k] uniq show ?thesis by auto
  next
    case Full
    with hm_search_outcome [OF n, of sg k] have "missed sg t k j" using j(1) by auto
    with j(2) p show ?thesis by (simp add: missed_def Let_def)
  qed
qed

section \<open>The abstraction of a table\<close>

lemma table_map_Nil [simp]: "table_map [] = Map.empty"
  by (simp add: table_map_def fun_eq_iff)

lemma table_map_Cons [simp]:
  "table_map (e # es) k = (if e_occupied e \<and> e_key e = k then e_value e else table_map es k)"
  by (simp add: table_map_def)

lemma table_map_None: "\<not> (\<exists>p. occ t p \<and> e_key (t ! p) = k) \<Longrightarrow> table_map t k = None"
proof (induction t)
  case (Cons e t)
  have "\<not> (\<exists>p. occ t p \<and> e_key (t ! p) = k)"
    using Cons.prems by (auto simp: occ_def) (metis Suc_less_eq length_Cons nth_Cons_Suc)
  moreover have "\<not> (e_occupied e \<and> e_key e = k)"
    using Cons.prems by (auto simp: occ_def) (metis length_Cons nth_Cons_0 zero_less_Suc)
  ultimately show ?case using Cons.IH by auto
qed simp

lemma table_map_Some:
  "occ t p \<Longrightarrow> e_key (t ! p) = k \<Longrightarrow>
   \<forall>q. occ t q \<longrightarrow> e_key (t ! q) = k \<longrightarrow> q = p \<Longrightarrow> table_map t k = e_value (t ! p)"
proof (induction t arbitrary: p)
  case Nil
  then show ?case by (simp add: occ_def)
next
  case (Cons e t)
  show ?case
  proof (cases p)
    case 0
    with Cons.prems show ?thesis by (auto simp: occ_def)
  next
    case (Suc q)
    have lift: "occ t r \<Longrightarrow> occ (e # t) (Suc r)" for r by (simp add: occ_def)
    have e: "\<not> (e_occupied e \<and> e_key e = k)"
      using Cons.prems(3) Suc by (auto simp: occ_def dest: spec [of _ 0])
    have "occ t q" "e_key (t ! q) = k"
      using Cons.prems(1,2) Suc by (simp_all add: occ_def)
    have "\<forall>r. occ t r \<longrightarrow> e_key (t ! r) = k \<longrightarrow> r = q"
      using Cons.prems(3) lift Suc by (metis nat.inject nth_Cons_Suc)
    then have "table_map t k = e_value (t ! q)"
      by (rule Cons.IH [OF \<open>occ t q\<close> \<open>e_key (t ! q) = k\<close>])
    with e Suc show ?thesis by auto
  qed
qed

lemma table_ok_value: "table_ok sg t \<Longrightarrow> occ t p \<Longrightarrow> e_value (t ! p) \<noteq> None"
  unfolding table_ok_def by blast

lemma table_ok_key:
  "table_ok sg t \<Longrightarrow> occ t p \<Longrightarrow> occ t q \<Longrightarrow> e_key (t ! q) = e_key (t ! p) \<Longrightarrow> q = p"
  unfolding table_ok_def by blast

lemma table_map_ok:
  assumes "table_ok sg t" and "occ t p" and "e_key (t ! p) = k"
  shows "table_map t k = e_value (t ! p)"
proof (rule table_map_Some [OF assms(2,3)], intro allI impI)
  fix q
  assume "occ t q" and "e_key (t ! q) = k"
  with assms show "q = p" by (intro table_ok_key [OF assms(1,2)]) simp_all
qed

lemma hm_find_table:
  assumes ok: "table_ok sg t" and n: "length t \<in> (\<lambda>k. 2 ^ k) ` A"
  shows "(case hm_search sg t (length t) k of Found p \<Rightarrow> e_value (t ! p) | _ \<Rightarrow> None) = table_map t k"
proof (cases "\<exists>p. occ t p \<and> e_key (t ! p) = k")
  case True
  then obtain p where p: "occ t p" "e_key (t ! p) = k" by blast
  then show ?thesis
    using hm_search_found [OF ok n p] table_map_ok [OF ok p] by simp
next
  case False
  then show ?thesis
    using hm_search_outcome [OF n, of sg k] table_map_None [OF False]
    by (auto split: probe.splits)
qed

lemma hm_invD:
  assumes "hm_inv sg m"
  obtains t where "hm_table m = Some t" and "length t = hm_cap m"
    and "length t \<in> (\<lambda>k. 2 ^ k) ` {4..27}" and "table_ok sg t" and "hm_count m = card {p. occ t p}"
  using assms by (auto simp: hm_inv_def split: option.splits)

lemma hm_find_abs:
  assumes "hm_inv sg m"
  shows "hm_find sg m k = hm_abs m k"
proof -
  obtain t where t: "hm_table m = Some t" "length t = hm_cap m"
      "length t \<in> (\<lambda>k. 2 ^ k) ` {4..27}" "table_ok sg t"
    using assms by (rule hm_invD)
  show ?thesis
    using hm_find_table [OF t(4,3), of k] t(1,2) by (simp add: hm_find_def hm_abs_def)
qed

section \<open>Placing an entry\<close>

lemma occ_update:
  "p < length t \<Longrightarrow> occ (t[p := e]) q \<longleftrightarrow> (if q = p then e_occupied e else occ t q)"
  by (auto simp: occ_def nth_list_update)

lemma occ_lt: "occ t p \<Longrightarrow> p < length t"
  by (simp add: occ_def)

lemma table_okI:
  assumes "\<And>p. occ t p \<Longrightarrow> e_value (t ! p) \<noteq> None"
    and "\<And>p. occ t p \<Longrightarrow> \<exists>j<length t. slot_of sg (length t) (e_key (t ! p)) j = p \<and>
           (\<forall>i<j. occ t (slot_of sg (length t) (e_key (t ! p)) i))"
    and "\<And>p q. occ t p \<Longrightarrow> occ t q \<Longrightarrow> e_key (t ! p) = e_key (t ! q) \<Longrightarrow> p = q"
  shows "table_ok sg t"
  unfolding table_ok_def using assms by blast

lemma table_ok_reach:
  "table_ok sg t \<Longrightarrow> occ t p \<Longrightarrow> \<exists>j<length t. slot_of sg (length t) (e_key (t ! p)) j = p \<and>
     (\<forall>i<j. occ t (slot_of sg (length t) (e_key (t ! p)) i))"
  unfolding table_ok_def by blast

text \<open>Two well-formed tables, the second holding one more binding or a newer one.\<close>

lemma table_map_upd:
  assumes ok: "table_ok sg t" and ok': "table_ok sg t'"
    and p: "occ t' p" "e_key (t' ! p) = k" "e_value (t' ! p) = Some v"
    and same: "\<And>q. q \<noteq> p \<Longrightarrow> occ t' q = occ t q \<and> t' ! q = t ! q"
    and old: "occ t p \<Longrightarrow> e_key (t ! p) = k"
  shows "table_map t' = (table_map t)(k \<mapsto> v)"
proof
  fix k'
  show "table_map t' k' = ((table_map t)(k \<mapsto> v)) k'"
  proof (cases "k' = k")
    case True
    then show ?thesis using table_map_ok [OF ok' p(1,2)] p(3) by simp
  next
    case False
    show ?thesis
    proof (cases "\<exists>q. occ t q \<and> e_key (t ! q) = k'")
      case True
      then obtain q where q: "occ t q" "e_key (t ! q) = k'" by blast
      then have "q \<noteq> p" using old False by auto
      then have q': "occ t' q" "e_key (t' ! q) = k'" "t' ! q = t ! q" using q same by auto
      show ?thesis
        using table_map_ok [OF ok q] table_map_ok [OF ok' q'(1,2)] q'(3) False by simp
    next
      case no: False
      then have "\<not> (\<exists>q. occ t' q \<and> e_key (t' ! q) = k')" using same p(2) False by metis
      from table_map_None [OF this] table_map_None [OF no] False show ?thesis by simp
    qed
  qed
qed

lemma place_free:
  assumes ok: "table_ok sg t" and n: "length t \<in> (\<lambda>k. 2 ^ k) ` A"
    and s: "hm_search sg t (length t) k = Free p"
    and t': "t' = t[p := \<lparr>e_key = k, e_value = Some v, e_occupied = True\<rparr>]"
  shows "table_ok sg t'" and "table_map t' = (table_map t)(k \<mapsto> v)"
    and "{q. occ t' q} = insert p {q. occ t q}" and "\<not> occ t p" and "table_map t k = None"
proof -
  have "0 < length t" using n by auto
  from hm_search_outcome [OF n, of sg k] s obtain j where
    j: "j < length t" "slot_of sg (length t) k j = p" "\<not> occ t p" "\<forall>l<j. missed sg t k l" by auto
  have p: "p < length t" using j(2) slot_of_lt [OF \<open>0 < length t\<close>] by metis
  have new: "\<not> (\<exists>q. occ t q \<and> e_key (t ! q) = k)"
    using hm_search_found [OF ok n] s by fastforce
  have o: "occ t' q \<longleftrightarrow> q = p \<or> occ t q" for q using p by (auto simp: t' occ_update)
  have key: "e_key (t' ! q) = (if q = p then k else e_key (t ! q))" for q using p by (simp add: t')
  have len: "length t' = length t" by (simp add: t')
  show ok': "table_ok sg t'"
  proof (rule table_okI)
    fix q
    assume "occ t' q"
    then show "e_value (t' ! q) \<noteq> None"
      using table_ok_value [OF ok] o p by (cases "q = p") (auto simp: t')
    show "\<exists>j<length t'. slot_of sg (length t') (e_key (t' ! q)) j = q \<and>
        (\<forall>i<j. occ t' (slot_of sg (length t') (e_key (t' ! q)) i))"
    proof (cases "q = p")
      case True
      with j show ?thesis
        by (intro exI [of _ j]) (auto simp: key len o missed_def Let_def)
    next
      case False
      with \<open>occ t' q\<close> table_ok_reach [OF ok, of q] show ?thesis by (auto simp: key len o)
    qed
  next
    fix q r
    assume "occ t' q" "occ t' r" "e_key (t' ! q) = e_key (t' ! r)"
    then show "q = r"
      using table_ok_key [OF ok, of r q] new by (auto simp: key o split: if_splits)
  qed
  show "table_map t' = (table_map t)(k \<mapsto> v)"
    by (rule table_map_upd [OF ok ok', of p]) (use p o j(3) in \<open>auto simp: t' nth_list_update\<close>)
  show "{q. occ t' q} = insert p {q. occ t q}" using o by auto
  show "\<not> occ t p" by (rule j(3))
  show "table_map t k = None" by (rule table_map_None [OF new])
qed

lemma place_found:
  assumes ok: "table_ok sg t" and n: "length t \<in> (\<lambda>k. 2 ^ k) ` A"
    and s: "hm_search sg t (length t) k = Found p"
    and t': "t' = t[p := (t ! p)\<lparr>e_value := Some v\<rparr>]"
  shows "table_ok sg t'" and "table_map t' = (table_map t)(k \<mapsto> v)"
    and "{q. occ t' q} = {q. occ t q}"
proof -
  have p: "occ t p" "e_key (t ! p) = k"
    using hm_search_outcome [OF n, of sg k] s by simp_all
  note lt = occ_lt [OF p(1)]
  have o: "occ t' q \<longleftrightarrow> occ t q" for q using p lt by (auto simp: t' occ_update) (simp add: occ_def)
  have key: "e_key (t' ! q) = e_key (t ! q)" for q using lt by (cases "q = p") (simp_all add: t')
  have len: "length t' = length t" by (simp add: t')
  show ok': "table_ok sg t'"
  proof (rule table_okI)
    fix q
    assume "occ t' q"
    then show "e_value (t' ! q) \<noteq> None"
      using table_ok_value [OF ok] o lt by (cases "q = p") (auto simp: t')
    show "\<exists>j<length t'. slot_of sg (length t') (e_key (t' ! q)) j = q \<and>
        (\<forall>i<j. occ t' (slot_of sg (length t') (e_key (t' ! q)) i))"
      using table_ok_reach [OF ok, of q] \<open>occ t' q\<close> by (simp add: key len o)
  next
    fix q r
    assume "occ t' q" "occ t' r" "e_key (t' ! q) = e_key (t' ! r)"
    then show "q = r" using table_ok_key [OF ok, of r q] by (simp add: key o)
  qed
  show "table_map t' = (table_map t)(k \<mapsto> v)"
    by (rule table_map_upd [OF ok ok', of p]) (use p lt o in \<open>auto simp: t'\<close>)
  show "{q. occ t' q} = {q. occ t q}" using o by auto
qed

lemma finite_occ [simp]: "finite {p. occ t p}"
  by (rule finite_subset [of _ "{..<length t}"]) (auto simp: occ_def)

lemma card_occ_le: "card {p. occ t p} \<le> length t"
  using card_mono [of "{..<length t}" "{p. occ t p}"] by (auto simp: occ_def)

lemma pow2_le_2_27: "k \<le> 27 \<Longrightarrow> (2::nat) ^ k \<le> 134217728"
  using power_increasing [of k 27 "2::nat"] by simp

lemma hm_place_rep:
  assumes inv: "hm_inv sg m"
  shows "\<exists>m' b. hm_place sg m k v = Some (m', b) \<and> hm_inv sg m' \<and> hm_cap m' = hm_cap m \<and>
    (if b then hm_abs m' = (hm_abs m)(k \<mapsto> v) \<and>
            hm_count m' = hm_count m + (if hm_abs m k = None then 1 else 0)
     else m' = m \<and> hm_abs m k = None \<and> hm_count m = hm_cap m)"
proof -
  obtain t where t: "hm_table m = Some t" "length t = hm_cap m"
      "length t \<in> (\<lambda>k. 2 ^ k) ` {4..27}" "table_ok sg t" "hm_count m = card {p. occ t p}"
    using inv by (rule hm_invD)
  have lt: "length t \<le> 134217728" using t(3) by (auto simp: pow2_le_2_27)
  then have cnt: "hm_count m + 1 < size_mod"
    using card_occ_le [of t] t(5) by (simp add: size_mod_def)
  show ?thesis
  proof (cases "hm_search sg t (length t) k")
    case (Free p)
    define t' where "t' = t[p := \<lparr>e_key = k, e_value = Some v, e_occupied = True\<rparr>]"
    note f = place_free [OF t(4,3) Free t'_def]
    have "length t' = length t" by (simp add: t'_def)
    with t f Free cnt show ?thesis
      by (intro exI [of _ "m\<lparr>hm_table := Some t', hm_count := Suc (card {q. occ t q})\<rparr>"]
            exI [of _ True])
        (simp add: hm_place_def hm_inv_def hm_abs_table flip: t'_def)
  next
    case (Found p)
    define t' where "t' = t[p := (t ! p)\<lparr>e_value := Some v\<rparr>]"
    note f = place_found [OF t(4,3) Found t'_def]
    have p: "occ t p" "e_key (t ! p) = k"
      using hm_search_outcome [OF t(3), of sg k] Found by simp_all
    have "table_map t k \<noteq> None"
      using table_map_ok [OF t(4) p] table_ok_value [OF t(4) p(1)] by simp
    moreover have "length t' = length t" by (simp add: t'_def)
    ultimately show ?thesis using t f Found
      by (intro exI [of _ "m\<lparr>hm_table := Some t'\<rparr>"] exI [of _ True])
        (simp add: hm_place_def hm_inv_def hm_abs_table flip: t'_def)
  next
    case Full
    have "\<forall>l<length t. missed sg t k l" using hm_search_outcome [OF t(3), of sg k] Full by simp
    note f = missed_all_full [OF this]
    show ?thesis using t f Full inv table_map_None [of t k]
      by (intro exI [of _ m] exI [of _ False]) (simp add: hm_place_def hm_abs_table)
  qed
qed

section \<open>Growing\<close>

definition hm_fresh :: "'v hashmap \<Rightarrow> nat \<Rightarrow> 'v hashmap" where
  "hm_fresh m n = m\<lparr>hm_table := Some (replicate n entry_default), hm_cap := n, hm_count := 0\<rparr>"

lemma occ_default [simp]: "\<not> occ (replicate n entry_default) p"
  by (simp add: occ_def entry_default_def)

lemma table_map_default [simp]: "table_map (replicate n entry_default) = Map.empty"
  by (rule ext) (simp add: table_map_None)

lemma hm_fresh_inv:
  "n \<in> (\<lambda>k. 2 ^ k) ` {4..27} \<Longrightarrow> hm_inv sg (hm_fresh m n) \<and> hm_abs (hm_fresh m n) = Map.empty"
  by (simp add: hm_fresh_def hm_inv_def hm_abs_def fun_eq_iff table_ok_def)

declare hm_insert_f.simps [simp del]

text \<open>Below the load limit the insertion does not grow the table.\<close>

lemma hm_insert_f_place:
  "hm_count m < sz (hm_cap m * 3) div 4 \<Longrightarrow> hm_insert_f (Suc f) sg alloc m k v = hm_place sg m k v"
  by (simp add: hm_insert_f.simps)

definition live_keys :: "'v entry list \<Rightarrow> string list" where
  "live_keys es = map e_key (filter e_occupied es)"

lemma table_map_live: "k \<notin> set (live_keys es) \<Longrightarrow> table_map es k = None"
  by (induction es) (auto simp: live_keys_def split: if_splits)

text \<open>The reinsertion loop of \<open>resize\<close> over the entries still to be moved.\<close>

lemma resize_loop:
  assumes "hm_inv sg m" and "hm_count m + length (live_keys es) \<le> hm_cap m div 2"
    and "distinct (live_keys es)" and "\<forall>k\<in>set (live_keys es). hm_abs m k = None"
    and "\<forall>e\<in>set es. e_occupied e \<longrightarrow> e_value e \<noteq> None"
  shows "\<exists>m'. fold_opt (\<lambda>e m'. if e_occupied e
        then do { v \<leftarrow> e_value e; r \<leftarrow> hm_insert_f (Suc f) sg alloc m' (e_key e) v; Some (fst r) }
        else Some m') es m = Some m' \<and>
      hm_inv sg m' \<and> hm_cap m' = hm_cap m \<and> hm_count m' = hm_count m + length (live_keys es) \<and>
      hm_abs m' = hm_abs m ++ table_map es"
  using assms
proof (induction es arbitrary: m)
  case Nil
  then show ?case by (simp add: live_keys_def)
next
  case (Cons e es)
  show ?case
  proof (cases "e_occupied e")
    case False
    then have "live_keys (e # es) = live_keys es" "table_map (e # es) = table_map es"
      by (simp_all add: live_keys_def fun_eq_iff)
    with Cons False show ?thesis by simp
  next
    case True
    with Cons.prems(5) obtain v where v: "e_value e = Some v" by auto
    have keys: "live_keys (e # es) = e_key e # live_keys es" using True by (simp add: live_keys_def)
    have "hm_cap m \<in> (\<lambda>k. 2 ^ k) ` {4..27}" using Cons.prems(1) by (rule hm_invD) simp
    then have cap: "hm_cap m * 3 < size_mod" "16 \<le> hm_cap m"
      using pow2_le_2_27 power_increasing [of 4 _ "2::nat"] by (fastforce simp: size_mod_def)+
    have cnt: "hm_count m + Suc (length (live_keys es)) \<le> hm_cap m div 2"
      using Cons.prems(2) keys by simp
    have "hm_count m < sz (hm_cap m * 3) div 4" using cnt cap by simp
    note ins = hm_insert_f_place [OF this, of f sg alloc "e_key e" v]
    have new: "hm_abs m (e_key e) = None" using Cons.prems(4) keys by simp
    have nf: "hm_count m \<noteq> hm_cap m" using cnt cap by linarith
    with hm_place_rep [OF Cons.prems(1), of "e_key e" v] new obtain m1 where
      m1: "hm_place sg m (e_key e) v = Some (m1, True)" "hm_inv sg m1" "hm_cap m1 = hm_cap m"
        "hm_abs m1 = (hm_abs m)(e_key e \<mapsto> v)" "hm_count m1 = hm_count m + 1"
      by (auto split: if_splits)
    have "e_key e \<notin> set (live_keys es)" using Cons.prems(3) keys by simp
    note fresh = table_map_live [OF this]
    have "\<exists>m'. fold_opt (\<lambda>e m'. if e_occupied e
        then do { v \<leftarrow> e_value e; r \<leftarrow> hm_insert_f (Suc f) sg alloc m' (e_key e) v; Some (fst r) }
        else Some m') es m1 = Some m' \<and>
      hm_inv sg m' \<and> hm_cap m' = hm_cap m1 \<and> hm_count m' = hm_count m1 + length (live_keys es) \<and>
      hm_abs m' = hm_abs m1 ++ table_map es"
      using m1 cnt Cons.prems keys by (intro Cons.IH) auto
    moreover have "(hm_abs m)(e_key e \<mapsto> v) ++ table_map es = hm_abs m ++ table_map (e # es)"
      using fresh True v by (auto simp: fun_eq_iff map_add_def split: option.splits)
    ultimately show ?thesis using True v ins m1 keys by (simp del: table_map_Cons)
  qed
qed

lemma distinct_live_keys:
  "(\<And>p q. occ t p \<Longrightarrow> occ t q \<Longrightarrow> e_key (t ! p) = e_key (t ! q) \<Longrightarrow> p = q) \<Longrightarrow> distinct (live_keys t)"
proof (induction t)
  case Nil
  then show ?case by (simp add: live_keys_def)
next
  case (Cons e t)
  have lift: "occ t r \<Longrightarrow> occ (e # t) (Suc r)" for r by (simp add: occ_def)
  have d: "distinct (live_keys t)"
    using Cons.prems lift by (intro Cons.IH) (metis nat.inject nth_Cons_Suc)
  have "e_key e \<notin> set (live_keys t)" if e: "e_occupied e"
  proof
    assume "e_key e \<in> set (live_keys t)"
    then obtain q where q: "occ t q" "e_key (t ! q) = e_key e"
      by (auto simp: live_keys_def in_set_conv_nth occ_def)
    with Cons.prems [of 0 "Suc q"] e lift show False by (simp add: occ_def)
  qed
  with d show ?case by (auto simp: live_keys_def)
qed

lemma length_live_keys: "length (live_keys t) = card {p. occ t p}"
  by (simp add: live_keys_def length_filter_conv_card occ_def)

lemma hm_insert_eq: "hm_insert sg alloc m k v = do {
     m \<leftarrow> (if hm_count m \<ge> sz (hm_cap m * 3) div 4
          then hm_resize (hm_insert_f 1 sg alloc) alloc m (sz (hm_cap m * 2))
          else Some m);
     hm_place sg m k v }"
  using hm_insert_f.simps(2) [of 1 sg alloc m k v] by (simp only: hm_insert_def Suc_1)

lemma hm_insert_rep:
  assumes inv: "hm_inv sg m" and room: "hm_cap m \<le> 2 ^ 26"
  shows "\<exists>m' b. hm_insert sg alloc m k v = Some (m', b) \<and> hm_inv sg m' \<and>
    (hm_cap m' = hm_cap m \<or>
     hm_cap m' = 2 * hm_cap m \<and> 3 * hm_cap m \<le> 4 * hm_count m \<and> hm_count m \<le> hm_count m') \<and>
    (if b then hm_abs m' = (hm_abs m)(k \<mapsto> v) \<and>
            hm_count m' = hm_count m + (if hm_abs m k = None then 1 else 0)
     else m' = m \<and> hm_abs m k = None \<and> hm_count m = hm_cap m \<and> \<not> alloc (2 * hm_cap m))"
proof -
  obtain t where t: "hm_table m = Some t" "length t = hm_cap m"
      "length t \<in> (\<lambda>k. 2 ^ k) ` {4..27}" "table_ok sg t" "hm_count m = card {p. occ t p}"
    using inv by (rule hm_invD)
  obtain e where e: "hm_cap m = 2 ^ e" "4 \<le> e" using t(2,3) by auto
  have "e \<le> 26" using room e(1) by (metis one_less_numeral_iff power_le_imp_le_exp semiring_norm(76))
  then have big: "hm_cap m * 2 \<in> (\<lambda>k. 2 ^ k) ` {4..27}" using e by (auto intro!: image_eqI [of _ _ "Suc e"])
  have szs: "sz (hm_cap m * 3) = hm_cap m * 3" "sz (hm_cap m * 2) = hm_cap m * 2" "0 < hm_cap m"
    using room e(1) by (simp_all add: size_mod_def)
  have ge: "hm_count m \<ge> sz (hm_cap m * 3) div 4 \<longleftrightarrow> 3 * hm_cap m \<le> 4 * hm_count m"
    using e(1) szs(1) power_increasing [OF e(2), of "2::nat"] dvd_power_le [of 4 4 _]
      le_imp_power_dvd [of 2 e "2::nat"] e(2) by (auto simp: dvd_def)
  show ?thesis
  proof (cases "hm_count m \<ge> sz (hm_cap m * 3) div 4 \<and> alloc (hm_cap m * 2)")
    case False
    then have "hm_insert sg alloc m k v = hm_place sg m k v"
      by (auto simp: hm_insert_eq hm_resize_def szs(2))
    moreover have "hm_count m = hm_cap m \<longrightarrow> \<not> alloc (2 * hm_cap m)"
      using False szs(1,3) by (auto simp: mult.commute)
    moreover obtain m' b where "hm_place sg m k v = Some (m', b)" "hm_inv sg m'" "hm_cap m' = hm_cap m"
      "if b then hm_abs m' = (hm_abs m)(k \<mapsto> v) \<and>
            hm_count m' = hm_count m + (if hm_abs m k = None then 1 else 0)
       else m' = m \<and> hm_abs m k = None \<and> hm_count m = hm_cap m"
      using hm_place_rep [OF inv, of k v] by blast
    ultimately show ?thesis by (intro exI [of _ m'] exI [of _ b]) simp
  next
    case True
    have keys: "distinct (live_keys t)"
      using table_ok_key [OF t(4)] by (intro distinct_live_keys) simp
    note f = hm_fresh_inv [OF big, of sg m]
    have vals: "\<forall>e\<in>set t. e_occupied e \<longrightarrow> e_value e \<noteq> None"
      using table_ok_value [OF t(4)] by (auto simp: in_set_conv_nth occ_def)
    have le: "length (live_keys t) \<le> hm_cap m"
      using card_occ_le [of t] t(2) by (simp add: length_live_keys)
    let ?step = "\<lambda>e m'. if e_occupied e
        then do { v \<leftarrow> e_value e; r \<leftarrow> hm_insert_f (Suc 0) sg alloc m' (e_key e) v; Some (fst r) }
        else Some m'"
    have fresh: "hm_count (hm_fresh m (hm_cap m * 2)) = 0"
        "hm_cap (hm_fresh m (hm_cap m * 2)) = hm_cap m * 2" by (simp_all add: hm_fresh_def)
    have "\<exists>m1. fold_opt ?step t (hm_fresh m (hm_cap m * 2)) = Some m1 \<and> hm_inv sg m1 \<and>
        hm_cap m1 = hm_cap m * 2 \<and> hm_count m1 = length (live_keys t) \<and>
        hm_abs m1 = table_map t"
      using resize_loop [OF conjunct1 [OF f], of t 0 alloc] keys f vals le
      by (simp add: fresh del: hm_abs_table)
    then obtain m1 where
      m1: "fold_opt ?step t (hm_fresh m (hm_cap m * 2)) = Some m1" "hm_inv sg m1"
        "hm_cap m1 = hm_cap m * 2" "hm_count m1 = hm_count m" "hm_abs m1 = hm_abs m"
      using hm_abs_table [OF t(1)] t(5) by (auto simp: length_live_keys)
    have "hm_resize (hm_insert_f 1 sg alloc) alloc m (hm_cap m * 2) = Some m1"
      using True m1(1) t(1) by (simp add: hm_resize_def hm_fresh_def)
    then have "hm_insert sg alloc m k v = hm_place sg m1 k v"
      using True by (simp add: hm_insert_eq szs(2))
    moreover have "hm_count m1 \<noteq> hm_cap m1"
      using m1(3,4) le szs(3) t(5) by (simp add: length_live_keys)
    then obtain m' where "hm_place sg m1 k v = Some (m', True)" "hm_inv sg m'" "hm_cap m' = hm_cap m1"
      "hm_abs m' = (hm_abs m1)(k \<mapsto> v)"
      "hm_count m' = hm_count m1 + (if hm_abs m1 k = None then 1 else 0)"
      using hm_place_rep [OF m1(2), of k v] by (metis (full_types))
    ultimately show ?thesis
      using True ge m1(3-5) by (intro exI [of _ m'] exI [of _ True]) simp
  qed
qed

section \<open>Construction, clearing, removal\<close>

lemma hm_new_inv: "alloc initial_capacity \<Longrightarrow> hm_inv sg (hm_new alloc) \<and> hm_abs (hm_new alloc) = Map.empty"
  by (auto simp: hm_new_def hm_inv_def hm_abs_def initial_capacity_def table_ok_def fun_eq_iff
      intro!: image_eqI [of _ _ 4])

lemma hm_clear_inv:
  assumes "hm_inv sg m"
  shows "hm_inv sg (hm_clear m) \<and> hm_abs (hm_clear m) = Map.empty"
proof -
  obtain t where t: "hm_table m = Some t" "length t = hm_cap m"
      "length t \<in> (\<lambda>k. 2 ^ k) ` {4..27}" "table_ok sg t"
    using assms by (rule hm_invD)
  define t' where "t' = map (\<lambda>e. e\<lparr>e_occupied := False\<rparr>) t"
  have none: "\<not> occ t' p" for p by (simp add: t'_def occ_def)
  then have "table_map t' = Map.empty" by (intro ext table_map_None) simp
  moreover have "length t' = length t" by (simp add: t'_def)
  ultimately show ?thesis
    using t none by (simp add: hm_clear_def hm_inv_def hm_abs_table table_ok_def flip: t'_def)
qed

text \<open>What \<open>remove\<close> does guarantee: the removed key is no longer found.\<close>

lemma hm_remove_gone:
  assumes "hm_inv sg m"
  shows "hm_find sg (fst (hm_remove sg m k)) k = None"
proof -
  obtain t where t: "hm_table m = Some t" "length t = hm_cap m"
      "length t \<in> (\<lambda>k. 2 ^ k) ` {4..27}" "table_ok sg t"
    using assms by (rule hm_invD)
  show ?thesis
  proof (cases "hm_search sg t (length t) k")
    case (Found p)
    have p: "occ t p" "e_key (t ! p) = k"
      using hm_search_outcome [OF t(3), of sg k] Found by simp_all
    define t' where "t' = t[p := (t ! p)\<lparr>e_occupied := False\<rparr>]"
    have o: "occ t' q \<longleftrightarrow> q \<noteq> p \<and> occ t q" for q
      using occ_lt [OF p(1)] by (simp add: t'_def occ_update)
    have key: "q \<noteq> p \<Longrightarrow> t' ! q = t ! q" for q by (simp add: t'_def)
    have len: "length t' = length t" by (simp add: t'_def)
    have "\<not> (\<exists>q. occ t' q \<and> e_key (t' ! q) = k)"
      using o key table_ok_key [OF t(4) p(1)] p(2) by metis
    moreover have n': "length t' \<in> (\<lambda>k. 2 ^ k) ` {4..27}" using t(3) len by simp
    ultimately have "\<nexists>q. hm_search sg t' (length t') k = Found q"
      using hm_search_outcome [OF n', of sg k] by auto
    then show ?thesis using t len Found
      by (auto simp: hm_remove_def hm_find_def simp flip: t'_def split: probe.splits)
  qed (use t in \<open>auto simp: hm_remove_def hm_find_def\<close>)
qed

section \<open>The map interface\<close>

text \<open>
  What a client that only inserts relies on: \<open>rep m f\<close> says that \<open>m\<close> is a well-formed
  table holding the bindings \<open>f\<close>; up to a number of bindings an insertion succeeds.
\<close>

locale string_map =
  fixes rep :: "'m \<Rightarrow> (string \<Rightarrow> 'v option) \<Rightarrow> bool"
    and fresh :: 'm
    and insert :: "'m \<Rightarrow> string \<Rightarrow> 'v \<Rightarrow> 'm option"
    and find :: "'m \<Rightarrow> string \<Rightarrow> 'v option"
    and limit :: nat
  assumes fresh_law: "rep fresh Map.empty"
    and insert_law: "rep m f \<Longrightarrow> card (dom f) < limit \<Longrightarrow> \<exists>m'. insert m k v = Some m' \<and> rep m' (f(k \<mapsto> v))"
    and find_law: "rep m f \<Longrightarrow> find m k = f k"
    and finite_law: "rep m f \<Longrightarrow> finite (dom f)"
begin

lemma find_insert:
  assumes "rep m f" and "card (dom f) < limit"
  shows "\<exists>m'. insert m k v = Some m' \<and> find m' k' = (if k' = k then Some v else find m k')"
  using insert_law [OF assms, of k v] find_law [OF assms(1)] find_law by fastforce

lemma insert_all:
  assumes "rep m f" and "card (dom f) + length kvs \<le> limit"
  shows "\<exists>m'. fold_opt (\<lambda>kv m. insert m (fst kv) (snd kv)) kvs m = Some m' \<and>
    rep m' (f ++ map_of (rev kvs))"
  using assms
proof (induction kvs arbitrary: m f)
  case Nil
  then show ?case by simp
next
  case (Cons kv kvs)
  have "card (dom f) < limit" using Cons.prems(2) by simp
  from insert_law [OF Cons.prems(1) this, of "fst kv" "snd kv"] obtain m' where
    m': "insert m (fst kv) (snd kv) = Some m'" "rep m' (f(fst kv \<mapsto> snd kv))" by blast
  have "card (dom (f(fst kv \<mapsto> snd kv))) \<le> Suc (card (dom f))"
    using finite_law [OF Cons.prems(1)] by (simp add: card_insert_if)
  then have "card (dom (f(fst kv \<mapsto> snd kv))) + length kvs \<le> limit" using Cons.prems(2) by simp
  from Cons.IH [OF m'(2) this] obtain m'' where
    "fold_opt (\<lambda>kv m. insert m (fst kv) (snd kv)) kvs m' = Some m''"
    "rep m'' (f(fst kv \<mapsto> snd kv) ++ map_of (rev kvs))" by blast
  moreover have "f(fst kv \<mapsto> snd kv) ++ map_of (rev kvs) = f ++ map_of (rev (kv # kvs))"
    by (simp add: map_add_assoc [symmetric])
  ultimately show ?case using m'(1) by (intro exI [of _ m'']) (simp only: fold_opt.simps bind.simps simp_thms)
qed

lemma find_after_all:
  assumes "distinct (map fst kvs)" and "length kvs \<le> limit" and "(k, v) \<in> set kvs"
  shows "\<exists>m. fold_opt (\<lambda>kv m. insert m (fst kv) (snd kv)) kvs fresh = Some m \<and> find m k = Some v"
proof -
  from insert_all [OF fresh_law, of kvs] assms(2) obtain m where
    "fold_opt (\<lambda>kv m. insert m (fst kv) (snd kv)) kvs fresh = Some m" "rep m (map_of (rev kvs))"
    by auto
  moreover have "map_of (rev kvs) k = Some v"
    using assms(1,3) by (intro map_of_is_SomeI) (simp_all add: rev_map [symmetric])
  ultimately show ?thesis using find_law by auto
qed

end

text \<open>
  Insertion alone keeps the table at least three eighths full once it has grown, which
  bounds the capacity by the number of bindings.
\<close>

definition hm_rep :: "bool \<Rightarrow> 'v hashmap \<Rightarrow> (string \<Rightarrow> 'v option) \<Rightarrow> bool" where
  "hm_rep sg m f \<longleftrightarrow> hm_inv sg m \<and> hm_abs m = f \<and> (hm_cap m = 16 \<or> 3 * hm_cap m \<le> 8 * hm_count m)"

definition hm_limit :: nat where
  "hm_limit = 2 ^ 24"

definition hm_put :: "bool \<Rightarrow> 'v hashmap \<Rightarrow> string \<Rightarrow> 'v \<Rightarrow> 'v hashmap option" where
  "hm_put sg m k v = map_option fst (hm_insert sg (\<lambda>_. True) m k v)"

lemma hm_dom:
  assumes "hm_inv sg m"
  shows "finite (dom (hm_abs m)) \<and> card (dom (hm_abs m)) = hm_count m"
proof -
  obtain t where t: "hm_table m = Some t" "table_ok sg t" "hm_count m = card {p. occ t p}"
    using assms by (rule hm_invD)
  have "dom (table_map t) = (\<lambda>p. e_key (t ! p)) ` {p. occ t p}"
  proof (intro equalityI subsetI)
    fix k
    assume "k \<in> dom (table_map t)"
    then show "k \<in> (\<lambda>p. e_key (t ! p)) ` {p. occ t p}"
      using table_map_None [of t k] by (force simp: domIff)
  next
    fix k
    assume "k \<in> (\<lambda>p. e_key (t ! p)) ` {p. occ t p}"
    then obtain p where "occ t p" "e_key (t ! p) = k" by auto
    then show "k \<in> dom (table_map t)"
      using table_map_ok [OF t(2)] table_ok_value [OF t(2)] by (simp add: domIff)
  qed
  moreover have "inj_on (\<lambda>p. e_key (t ! p)) {p. occ t p}"
    using table_ok_key [OF t(2)] by (auto intro!: inj_onI)
  ultimately show ?thesis using t by (simp add: hm_abs_table card_image)
qed

lemma hm_put_rep:
  assumes r: "hm_rep sg m f" and l: "card (dom f) < hm_limit"
  shows "\<exists>m'. hm_put sg m k v = Some m' \<and> hm_rep sg m' (f(k \<mapsto> v))"
proof -
  have inv: "hm_inv sg m" and f: "hm_abs m = f" and d: "hm_cap m = 16 \<or> 3 * hm_cap m \<le> 8 * hm_count m"
    using r by (simp_all add: hm_rep_def)
  have "hm_count m < 2 ^ 24" using hm_dom [OF inv] l by (simp add: f hm_limit_def)
  with d have room: "hm_cap m \<le> 2 ^ 26" by auto
  obtain m' b where m': "hm_insert sg (\<lambda>_. True) m k v = Some (m', b)" "hm_inv sg m'"
      "hm_cap m' = hm_cap m \<or>
       hm_cap m' = 2 * hm_cap m \<and> 3 * hm_cap m \<le> 4 * hm_count m \<and> hm_count m \<le> hm_count m'" "b"
      "hm_abs m' = (hm_abs m)(k \<mapsto> v)" "hm_count m \<le> hm_count m'"
    using hm_insert_rep [OF inv room, of "\<lambda>_. True" k v] by (auto split: if_splits)
  then have "hm_cap m' = 16 \<or> 3 * hm_cap m' \<le> 8 * hm_count m'" using d by auto
  with m' f show ?thesis by (simp add: hm_put_def hm_rep_def)
qed

interpretation hm: string_map "hm_rep sg" "hm_new (\<lambda>_. True)" "hm_put sg" "hm_find sg" hm_limit
  for sg
proof unfold_locales
  show "hm_rep sg (hm_new (\<lambda>_. True)) Map.empty"
    using hm_new_inv [of "\<lambda>_. True" sg] by (simp add: hm_rep_def) (simp add: hm_new_def initial_capacity_def)
next
  fix m :: "'a hashmap" and f k v
  assume "hm_rep sg m f" and "card (dom f) < hm_limit"
  then show "\<exists>m'. hm_put sg m k v = Some m' \<and> hm_rep sg m' (f(k \<mapsto> v))" by (rule hm_put_rep)
next
  fix m :: "'a hashmap" and f k
  assume "hm_rep sg m f"
  then show "hm_find sg m k = f k" using hm_find_abs by (auto simp: hm_rep_def)
next
  fix m :: "'a hashmap" and f
  assume "hm_rep sg m f"
  then show "finite (dom f)" using hm_dom by (auto simp: hm_rep_def)
qed

section \<open>Properties\<close>

text \<open>Insertion and lookup: on a well-formed table with fewer than \<open>2\<^sup>2\<^sup>4\<close> bindings \<open>insert\<close>
  succeeds, growing the table when it is three quarters full, and afterwards \<open>find\<close> returns
  the new value for the key and for every other key what it returned before.\<close>

theorem hm_insert_find:
  assumes "hm_rep sg m f" and "card (dom f) < hm_limit"
  shows "\<exists>m'. hm_put sg m k v = Some m' \<and> hm_find sg m' k' = (if k' = k then Some v else hm_find sg m k')"
  using assms by (rule hm.find_insert)

theorem hm_insert_find_witness:
  "\<exists>m'. hm_put True (hm_new (\<lambda>_. True)) ''k'' (7::nat) = Some m' \<and>
    hm_find True m' ''k'' = (if ''k'' = ''k'' then Some 7 else hm_find True (hm_new (\<lambda>_. True)) ''k'')"
  by (rule hm_insert_find [OF hm.fresh_law]) (simp add: hm_limit_def)

text \<open>C27. A table filled from empty with bindings of distinct keys, however many times it grows and
  rehashes on the way, returns the value of each of them.\<close>

theorem hm_fill_find:
  assumes "distinct (map fst kvs)" and "length kvs \<le> hm_limit" and "(k, v) \<in> set kvs"
  shows "\<exists>m. fold_opt (\<lambda>kv m. hm_put sg m (fst kv) (snd kv)) kvs (hm_new (\<lambda>_. True)) = Some m \<and>
    hm_find sg m k = Some v"
  using assms by (rule hm.find_after_all)

theorem hm_fill_find_witness:
  "\<exists>m. fold_opt (\<lambda>kv m. hm_put False m (fst kv) (snd kv)) [(''a'', 1::nat), (''q'', 2)] (hm_new (\<lambda>_. True)) = Some m \<and>
    hm_find False m ''a'' = Some 1"
  by (rule hm_fill_find) (simp_all add: hm_limit_def)

text \<open>A removed key is no longer found.\<close>

theorem hm_remove_not_found:
  assumes "hm_inv sg m"
  shows "hm_find sg (fst (hm_remove sg m k)) k = None"
  using assms by (rule hm_remove_gone)

theorem hm_remove_not_found_witness:
  "hm_find True (fst (hm_remove True (hm_new (\<lambda>_. True)) ''k'')) ''k'' = (None :: nat option)"
  by (rule hm_remove_not_found) (rule conjunct1 [OF hm_new_inv], simp)

lemmas hm_probe_run = hm_probe.simps(2) [of t cap idx key i "pred_numeral k", folded numeral_eq_Suc]
  for t cap idx key i k

text \<open>Removal loses other keys: of two keys with the same slot, the second is found as long
  as the first is there, and no longer when the first has been removed; its slot is free
  and ends the probe, although the comment calls it a tombstone.\<close>

theorem hm_remove_breaks_chain:
  "map_option (\<lambda>m. (hm_find True m ''q'', hm_find True (fst (hm_remove True m ''a'')) ''q''))
     (do { r \<leftarrow> hm_insert True (\<lambda>_. True) (hm_new (\<lambda>_. True)) ''a'' (1::nat);
           r \<leftarrow> hm_insert True (\<lambda>_. True) (fst r) ''q'' 2; Some (fst r) }) = Some (Some 2, None)"
  by (simp add: hm_insert_eq hm_new_def initial_capacity_def sz_def size_mod_def hm_place_def hm_search_def
      hash_index_def hash_string_def char_int_def char_val_def hm_find_def hm_remove_def
      hm_probe_run entry_default_def nth_list_update sz_sub_def)

end
