(* ===== verification/TclParser.thy ===== *)
theory TclParser
  imports Prelude
begin

text \<open>
  The tokenizer of the Tcl interpreter (\<open>ot/user/tcl.cpp\<close>, \<open>Parser\<close>): a cursor over the
  script, the bounds of the last token, and the mode flags. \<open>_next_token\<close> is a loop over
  the characters with a \<open>goto start\<close> for comments and a recursive parser for command
  substitutions; the model gives the loop, the label and the recursion one fuel.
\<close>

section \<open>Escapes\<close>

fun process_escapes :: "string \<Rightarrow> string" where
  "process_escapes [] = []"
| "process_escapes [c] = [c]"
| "process_escapes (c # d # cs) =
     (if c = CHR 0x5C then
        (if d = CHR 0x22 then CHR 0x22 # process_escapes cs
         else if d = CHR 0x5C then CHR 0x5C # process_escapes cs
         else if d = CHR ''n'' then CHR 0x0A # process_escapes cs
         else if d = CHR ''t'' then CHR 0x09 # process_escapes cs
         else if d = CHR ''r'' then CHR 0x0D # process_escapes cs
         else c # process_escapes (d # cs))
      else c # process_escapes (d # cs))"

section \<open>Parser state\<close>

datatype tok = TK_ESC | TK_STR | TK_CMD | TK_VAR | TK_SEP | TK_EOL | TK_EOF | TK_UNKNOWN

fun token_type_str :: "tok \<Rightarrow> string" where
  "token_type_str TK_ESC = ''TK_ESC''"
| "token_type_str TK_STR = ''TK_STR''"
| "token_type_str TK_CMD = ''TK_CMD''"
| "token_type_str TK_VAR = ''TK_VAR''"
| "token_type_str TK_SEP = ''TK_SEP''"
| "token_type_str TK_EOL = ''TK_EOL''"
| "token_type_str TK_EOF = ''TK_EOF''"
| "token_type_str TK_UNKNOWN = ''TK_UNKNOWN''"

record parser =
  p_body :: string
  p_cursor :: nat
  p_begin :: nat
  p_end :: nat
  p_in_string :: bool
  p_in_brace :: bool
  p_in_quote :: bool
  p_has_escapes :: bool
  p_brace_level :: nat
  p_token :: tok
  p_term :: char

definition parser_new :: "string \<Rightarrow> parser" where
  "parser_new body = \<lparr>p_body = body, p_cursor = 0, p_begin = 0, p_end = 0, p_in_string = False,
     p_in_brace = False, p_in_quote = False, p_has_escapes = False, p_brace_level = 0,
     p_token = TK_EOL, p_term = nul\<rparr>"

definition p_done :: "parser \<Rightarrow> bool" where
  "p_done p \<longleftrightarrow> p_cursor p \<ge> length (p_body p)"

definition p_peek :: "parser \<Rightarrow> char" where
  "p_peek p = p_body p ! p_cursor p"

definition p_advance :: "parser \<Rightarrow> parser" where
  "p_advance p = p\<lparr>p_cursor := p_cursor p + 1\<rparr>"

definition p_back :: "parser \<Rightarrow> parser" where
  "p_back p = p\<lparr>p_cursor := p_cursor p - 1\<rparr>"

text \<open>
  \<open>string_view::substr\<close>: the length is only cut when \<open>pos + len\<close>, computed modulo \<open>2\<^sup>3\<^sup>2\<close>,
  exceeds the view; \<open>None\<close> is a view that reaches past the text it is taken from.
\<close>

definition view_substr :: "string \<Rightarrow> nat \<Rightarrow> nat \<Rightarrow> string option" where
  "view_substr s pos0 len0 =
     (let pos = clamp (length s) pos0; len = span (length s) pos len0
      in if pos + len \<le> length s then Some (take len (drop pos s)) else None)"

definition token_body :: "parser \<Rightarrow> string option" where
  "token_body p = view_substr (p_body p) (p_begin p) (sz_sub (p_end p) (p_begin p))"

text \<open>The text the evaluator takes from a token: its body, with the escapes of a quoted word.\<close>

definition token_text :: "parser \<Rightarrow> string option" where
  "token_text p = map_option (\<lambda>t. if p_has_escapes p then process_escapes t else t) (token_body p)"

text \<open>\<open>consume_whitespace_check_eol\<close>: the new cursor, and whether it stands at a newline.\<close>

fun ws_scan :: "string \<Rightarrow> nat \<Rightarrow> nat \<times> bool" where
  "ws_scan [] i = (i, False)"
| "ws_scan (c # cs) i =
     (if c = CHR 0x0A then (i, True)
      else if c = CHR '' '' \<or> c = CHR 0x0D \<or> c = CHR 0x09 \<or> c = CHR '';'' then ws_scan cs (i + 1)
      else (i, False))"

definition consume_whitespace :: "parser \<Rightarrow> parser \<times> bool" where
  "consume_whitespace p =
     (let r = ws_scan (drop (p_cursor p) (p_body p)) (p_cursor p)
      in (p\<lparr>p_cursor := fst r\<rparr>, snd r))"

text \<open>The loop that skips a comment with its newline.\<close>

fun skip_line :: "string \<Rightarrow> nat \<Rightarrow> nat" where
  "skip_line [] i = i"
| "skip_line (c # cs) i = (if c = CHR 0x0A then i + 1 else skip_line cs (i + 1))"

definition p_finish :: "nat \<Rightarrow> parser \<Rightarrow> parser \<times> tok" where
  "p_finish adj p = (p\<lparr>p_end := sz_sub (p_cursor p) adj\<rparr>, p_token p)"

section \<open>The tokenizer\<close>

definition escapable :: "char \<Rightarrow> bool" where
  "escapable c \<longleftrightarrow> c = CHR 0x22 \<or> c = CHR 0x5C \<or> c = CHR ''n'' \<or> c = CHR ''t'' \<or> c = CHR ''r''"

definition is_blank :: "char \<Rightarrow> bool" where
  "is_blank c \<longleftrightarrow> c = CHR '' '' \<or> c = CHR 0x0A \<or> c = CHR 0x0D \<or> c = CHR 0x09 \<or> c = CHR '';''"

text \<open>
  One iteration of the \<open>while\<close> loop, which ends with a token (\<open>Stop\<close>), goes on with the
  adjustment it leaves (\<open>Again\<close>), jumps to \<open>start\<close> (\<open>Restart\<close>), or starts the parser of a
  command substitution at the cursor (\<open>Sub\<close>). A \<open>}\<close> that closes no brace falls through to
  the case of \<open>[\<close>.
\<close>

datatype step = Stop parser tok | Again nat parser | Restart parser | Sub parser

definition tok_stop :: "nat \<Rightarrow> parser \<Rightarrow> step" where
  "tok_stop adj p = Stop (fst (p_finish adj p)) (snd (p_finish adj p))"

definition step_open_brace :: "parser \<Rightarrow> step" where
  "step_open_brace p =
     (if p_in_quote p \<or> p_in_string p then Again 0 p
      else let p = (if \<not> p_in_brace p
                    then p\<lparr>p_begin := p_begin p + 1, p_token := TK_STR, p_in_brace := True\<rparr> else p)
           in Again 0 (p\<lparr>p_brace_level := p_brace_level p + 1\<rparr>))"

definition step_bracket :: "parser \<Rightarrow> step" where
  "step_bracket p =
     (if p_in_quote p \<or> p_in_string p \<or> p_in_brace p then Again 0 p
      else Sub (p\<lparr>p_begin := p_begin p + 1\<rparr>))"

definition step_close_brace :: "parser \<Rightarrow> step" where
  "step_close_brace p =
     (if p_in_quote p \<or> p_in_string p then Again 0 p
      else if p_brace_level p > 0
      then let p = p\<lparr>p_brace_level := p_brace_level p - 1\<rparr>
           in if p_brace_level p = 0 then tok_stop 1 (p\<lparr>p_in_brace := False\<rparr>) else Again 0 p
      else step_bracket p)"

definition step_dollar :: "parser \<Rightarrow> step" where
  "step_dollar p =
     (if p_in_string p \<or> p_in_brace p then Again 0 p
      else if p_in_quote p \<and> p_cursor p \<noteq> p_begin p + 1 then tok_stop 0 (p_back p)
      else Again 0 (p\<lparr>p_begin := p_begin p + 1, p_token := TK_VAR, p_in_string := True\<rparr>))"

definition step_hash :: "parser \<Rightarrow> step" where
  "step_hash p =
     (if p_in_string p \<or> p_in_quote p \<or> p_in_brace p then Again 0 p
      else Restart (p\<lparr>p_cursor := skip_line (drop (p_cursor p) (p_body p)) (p_cursor p)\<rparr>))"

definition step_backslash :: "parser \<Rightarrow> step" where
  "step_backslash p =
     (if p_in_quote p \<and> \<not> p_done p \<and> escapable (p_peek p)
      then Again 0 ((p_advance p)\<lparr>p_has_escapes := True\<rparr>)
      else Again 0 p)"

definition step_quote :: "parser \<Rightarrow> step" where
  "step_quote p =
     (if p_in_brace p then Again 0 p
      else if p_in_quote p then tok_stop 1 (p\<lparr>p_in_quote := False\<rparr>)
      else Again 1 (p\<lparr>p_in_quote := True, p_begin := p_begin p + 1\<rparr>))"

definition step_blank :: "char \<Rightarrow> parser \<Rightarrow> step" where
  "step_blank c p =
     (if p_in_brace p then Again 0 p
      else if p_in_string p then tok_stop 0 ((p_back p)\<lparr>p_in_string := False\<rparr>)
      else if p_in_quote p then Again 0 p
      else let p = p\<lparr>p_token := (if c = CHR 0x0A \<or> c = CHR '';'' then TK_EOL else TK_SEP)\<rparr>;
               r = consume_whitespace p
           in tok_stop 0 (if snd r then (fst r)\<lparr>p_token := TK_EOL\<rparr> else fst r))"

definition tok_step :: "parser \<Rightarrow> step" where
  "tok_step p0 =
     (let c = p_peek p0; p = p_advance p0 in
      if p_term p \<noteq> nul \<and> c = p_term p then Stop (p\<lparr>p_end := p_cursor p\<rparr>) TK_EOF
      else if c = CHR ''{'' then step_open_brace p
      else if c = CHR ''}'' then step_close_brace p
      else if c = CHR ''['' then step_bracket p
      else if c = CHR ''$'' then step_dollar p
      else if c = CHR ''#'' then step_hash p
      else if c = CHR 0x5C then step_backslash p
      else if c = CHR 0x22 then step_quote p
      else if is_blank c then step_blank c p
      else Again 0 (if \<not> p_in_quote p \<and> \<not> p_in_brace p then p\<lparr>p_in_string := True\<rparr> else p))"

definition sub_parser :: "parser \<Rightarrow> parser" where
  "sub_parser p = (parser_new (drop (p_cursor p) (p_body p)))\<lparr>p_term := CHR '']''\<rparr>"

text \<open>
  \<open>tok_start\<close> is the label \<open>start\<close>, \<open>tok_loop adj\<close> the \<open>while\<close> loop with the adjustment the
  last iteration left, \<open>tok_recurse\<close> the parser of a command substitution run to its end.
\<close>

fun tok_start :: "nat \<Rightarrow> parser \<Rightarrow> (parser \<times> tok) option"
and tok_loop :: "nat \<Rightarrow> nat \<Rightarrow> parser \<Rightarrow> (parser \<times> tok) option"
and tok_recurse :: "nat \<Rightarrow> parser \<Rightarrow> parser option" where
  "tok_start 0 p = None"
| "tok_start (Suc f) p =
     (if p_done p
      then let t = (if p_token p \<noteq> TK_EOL \<and> p_token p \<noteq> TK_EOF then TK_EOL else TK_EOF)
           in Some (p\<lparr>p_token := t\<rparr>, t)
      else tok_loop f 0 (p\<lparr>p_token := TK_ESC, p_begin := p_cursor p\<rparr>))"
| "tok_loop 0 adj p = None"
| "tok_loop (Suc f) adj p =
     (if p_done p then Some (p_finish adj p)
      else case tok_step p of
        Stop q t \<Rightarrow> Some (q, t)
      | Again adj' q \<Rightarrow> tok_loop f adj' q
      | Restart q \<Rightarrow> tok_start f q
      | Sub q \<Rightarrow> do {
          sub \<leftarrow> tok_recurse f (sub_parser q);
          Some (p_finish 1 (q\<lparr>p_cursor := p_cursor q + p_cursor sub, p_token := TK_CMD\<rparr>))
        })"
| "tok_recurse 0 p = None"
| "tok_recurse (Suc f) p = do {
     r \<leftarrow> tok_start f (p\<lparr>p_has_escapes := False\<rparr>);
     if snd r = TK_EOF then Some (fst r) else tok_recurse f (fst r)
   }"

declare tok_start.simps [simp del] tok_loop.simps [simp del] tok_recurse.simps [simp del]

definition next_token :: "nat \<Rightarrow> parser \<Rightarrow> (parser \<times> tok) option" where
  "next_token f p = tok_start f (p\<lparr>p_has_escapes := False\<rparr>)"

text \<open>Fuel for one token of a parser: enough by \<open>next_token_total\<close> below.\<close>

definition rest_len :: "parser \<Rightarrow> nat" where
  "rest_len p = length (p_body p) - p_cursor p"

definition tok_fuel :: "parser \<Rightarrow> nat" where
  "tok_fuel p = 4 * rest_len p + 2"

section \<open>The cursor only moves forward and stays within the script\<close>

lemma skip_line_bounds: "i \<le> skip_line cs i \<and> skip_line cs i \<le> i + length cs"
proof (induction cs arbitrary: i)
  case (Cons c cs)
  from Cons.IH [of "i + 1"] show ?case by simp
qed simp

lemma ws_scan_bounds: "i \<le> fst (ws_scan cs i) \<and> fst (ws_scan cs i) \<le> i + length cs"
proof (induction cs arbitrary: i)
  case (Cons c cs)
  from Cons.IH [of "i + 1"] show ?case by simp
qed simp

definition moves :: "parser \<Rightarrow> parser \<Rightarrow> bool" where
  "moves p q \<longleftrightarrow> p_body q = p_body p \<and> p_term q = p_term p \<and>
     p_cursor p \<le> p_cursor q \<and> p_cursor q \<le> length (p_body p)"

named_theorems tok_simps \<open>the primitive steps of the tokenizer\<close>

declare p_done_def [tok_simps] p_peek_def [tok_simps] p_advance_def [tok_simps]
  p_back_def [tok_simps] p_finish_def [tok_simps] tok_stop_def [tok_simps]
  consume_whitespace_def [tok_simps] Let_def [tok_simps] step_open_brace_def [tok_simps]
  step_close_brace_def [tok_simps] step_bracket_def [tok_simps] step_dollar_def [tok_simps]
  step_hash_def [tok_simps] step_backslash_def [tok_simps] step_quote_def [tok_simps]
  step_blank_def [tok_simps]

lemma moves_trans: "moves p q \<Longrightarrow> moves q r \<Longrightarrow> moves p r"
  by (auto simp: moves_def)

text \<open>
  One iteration consumes a character, except that a variable or a word inside quotes, and
  a word before a blank, end in front of the character read.
\<close>

fun step_ok :: "parser \<Rightarrow> step \<Rightarrow> bool" where
  "step_ok p (Stop q t) \<longleftrightarrow> moves p q \<and> (p_cursor p < p_cursor q \<or>
     p_cursor q = p_cursor p \<and> p_in_string p \<and> \<not> p_in_string q \<or>
     p_cursor q = p_cursor p \<and> p_cursor p \<noteq> p_begin p)"
| "step_ok p (Again a q) \<longleftrightarrow> moves p q \<and> p_cursor p < p_cursor q"
| "step_ok p (Restart q) \<longleftrightarrow> moves p q \<and> p_cursor p < p_cursor q"
| "step_ok p (Sub q) \<longleftrightarrow> moves p q \<and> p_cursor q = Suc (p_cursor p)"

lemma step_parts_ok:
  assumes c: "p_cursor p0 < length (p_body p0)" and p: "p = p0\<lparr>p_cursor := Suc (p_cursor p0)\<rparr>"
  shows "step_ok p0 (step_open_brace p)" and "step_ok p0 (step_bracket p)"
    and "step_ok p0 (step_close_brace p)" and "step_ok p0 (step_dollar p)"
    and "step_ok p0 (step_hash p)" and "step_ok p0 (step_backslash p)"
    and "step_ok p0 (step_quote p)" and "step_ok p0 (step_blank ch p)"
proof -
  let ?i = "Suc (p_cursor p0)" and ?cs = "drop (Suc (p_cursor p0)) (p_body p0)"
  have "?i + length ?cs = length (p_body p0)" using c by simp
  then have b: "?i \<le> fst (ws_scan ?cs ?i)" "fst (ws_scan ?cs ?i) \<le> length (p_body p0)"
      "?i \<le> skip_line ?cs ?i" "skip_line ?cs ?i \<le> length (p_body p0)"
    using ws_scan_bounds [of ?i ?cs] skip_line_bounds [of ?i ?cs] by (simp_all only:)
  show "step_ok p0 (step_open_brace p)"
    using c p by (simp add: step_open_brace_def Let_def moves_def)
  show br: "step_ok p0 (step_bracket p)"
    using c p by (simp add: step_bracket_def moves_def)
  then show "step_ok p0 (step_close_brace p)"
    using c p by (simp add: step_close_brace_def Let_def tok_stop_def p_finish_def moves_def)
  show "step_ok p0 (step_dollar p)"
    using c p by (simp add: step_dollar_def tok_stop_def p_finish_def p_back_def moves_def)
  show "step_ok p0 (step_hash p)"
    using c p b by (simp add: step_hash_def moves_def)
  show "step_ok p0 (step_backslash p)"
    using c p by (simp add: step_backslash_def p_done_def p_peek_def p_advance_def moves_def)
  show "step_ok p0 (step_quote p)"
    using c p by (simp add: step_quote_def tok_stop_def p_finish_def moves_def)
  show "step_ok p0 (step_blank ch p)"
    using c p b
    by (simp add: step_blank_def Let_def tok_stop_def p_finish_def p_back_def consume_whitespace_def moves_def)
qed

lemma tok_step_ok:
  assumes "\<not> p_done p"
  shows "step_ok p (tok_step p)"
proof -
  have c: "p_cursor p < length (p_body p)" using assms by (simp add: p_done_def)
  have "p_advance p = p\<lparr>p_cursor := Suc (p_cursor p)\<rparr>" by (simp add: p_advance_def)
  note parts = step_parts_ok [OF c this]
  have "step_ok p (Stop ((p_advance p)\<lparr>p_end := p_cursor (p_advance p)\<rparr>) TK_EOF)"
    and "step_ok p (Again 0 (if \<not> p_in_quote (p_advance p) \<and> \<not> p_in_brace (p_advance p)
           then (p_advance p)\<lparr>p_in_string := True\<rparr> else p_advance p))"
    using c by (simp_all add: p_advance_def moves_def)
  with parts show ?thesis unfolding tok_step_def Let_def by (simp only: if_split) blast
qed

lemma moves_refl: "p_cursor p \<le> length (p_body p) \<Longrightarrow> moves p p"
  by (simp add: moves_def)

lemma moves_bound: "moves p q \<Longrightarrow> p_cursor q \<le> length (p_body q)"
  by (simp add: moves_def)

lemma tok_moves:
  "(p_cursor p \<le> length (p_body p) \<longrightarrow> tok_start f p = Some (q, t) \<longrightarrow> moves p q) \<and>
   (p_cursor p \<le> length (p_body p) \<longrightarrow> tok_loop f adj p = Some (q, t) \<longrightarrow> moves p q) \<and>
   (p_cursor p \<le> length (p_body p) \<longrightarrow> tok_recurse f p = Some q \<longrightarrow> moves p q)"
proof (induction f arbitrary: p q t adj)
  case 0
  then show ?case by (simp add: tok_start.simps tok_loop.simps tok_recurse.simps)
next
  case (Suc f)
  have start: "moves p q" if "p_cursor p \<le> length (p_body p)" "tok_start f p = Some (q, t)" for p q t
    using Suc.IH that by blast
  have loop: "moves p q" if "p_cursor p \<le> length (p_body p)" "tok_loop f adj p = Some (q, t)" for p q t adj
    using Suc.IH that by blast
  have recu: "moves p q" if "p_cursor p \<le> length (p_body p)" "tok_recurse f p = Some q" for p q
    using Suc.IH that by blast
  have "moves p q" if "p_cursor p \<le> length (p_body p)" "tok_start (Suc f) p = Some (q, t)" for p q t
    using that loop [of "p\<lparr>p_token := TK_ESC, p_begin := p_cursor p\<rparr>" 0 q t]
    by (auto simp: tok_start.simps moves_def Let_def split: if_splits)
  moreover have "moves p q"
    if l: "p_cursor p \<le> length (p_body p)" "tok_recurse (Suc f) p = Some q" for p q
  proof (cases "tok_start f (p\<lparr>p_has_escapes := False\<rparr>)")
    case None
    with l(2) show ?thesis by (simp add: tok_recurse.simps)
  next
    case (Some r)
    obtain q1 t1 where r: "r = (q1, t1)" by (cases r)
    from start [OF _ Some [unfolded r]] l(1) have m: "moves p q1" by (simp add: moves_def)
    with l(2) Some recu [OF moves_bound [OF m], of q] show ?thesis
      by (auto simp: tok_recurse.simps r split: if_splits intro: moves_trans)
  qed
  moreover have "moves p q"
    if l: "p_cursor p \<le> length (p_body p)" "tok_loop (Suc f) adj p = Some (q, t)" for p q t adj
  proof (cases "p_done p")
    case True
    with l show ?thesis by (auto simp: tok_loop.simps moves_def p_finish_def)
  next
    case False
    note st = tok_step_ok [OF False]
    show ?thesis
    proof (cases "tok_step p")
      case (Stop q' t')
      with l False st show ?thesis by (simp add: tok_loop.simps)
    next
      case (Again a q')
      with l False st loop [of q' a q t] show ?thesis
        by (auto simp: tok_loop.simps dest: moves_bound intro: moves_trans)
    next
      case (Restart q')
      with l False st start [of q' q t] show ?thesis
        by (auto simp: tok_loop.simps dest: moves_bound intro: moves_trans)
    next
      case (Sub q')
      with st have m: "moves p q'" by simp
      show ?thesis
      proof (cases "tok_recurse f (sub_parser q')")
        case None
        with l False Sub show ?thesis by (simp add: tok_loop.simps)
      next
        case (Some s)
        have "p_cursor s \<le> length (p_body q') - p_cursor q'"
          using recu [OF _ Some] by (simp add: moves_def sub_parser_def parser_new_def)
        with l False Sub Some m show ?thesis
          by (auto simp: tok_loop.simps moves_def p_finish_def)
      qed
    qed
  qed
  ultimately show ?case by blast
qed

section \<open>Tokenizing terminates\<close>

text \<open>What is left to do: the text, an open word, and a line to close.\<close>

definition todo :: "parser \<Rightarrow> nat" where
  "todo p = 4 * rest_len p + (if p_in_string p then 2 else 0) +
     (if p_token p \<noteq> TK_EOL \<and> p_token p \<noteq> TK_EOF then 1 else 0)"

lemma tok_loop_first:
  assumes l: "tok_loop (Suc f) 0 p = Some (q, t)" and "\<not> p_done p" and b: "p_begin p = p_cursor p"
  shows "p_cursor p < p_cursor q \<or> p_cursor q = p_cursor p \<and> p_in_string p \<and> \<not> p_in_string q"
proof -
  note st = tok_step_ok [OF assms(2)]
  have c: "p_cursor p \<le> length (p_body p)" using assms(2) by (simp add: p_done_def)
  show ?thesis
  proof (cases "tok_step p")
    case (Stop q' t')
    with l assms(2) st b show ?thesis by (simp add: tok_loop.simps)
  next
    case (Again a q')
    with st have m: "p_cursor q' \<le> length (p_body q')" "p_cursor p < p_cursor q'"
      by (auto intro: moves_bound)
    with l assms(2) Again tok_moves [of q' f q t a] show ?thesis
      by (auto simp: tok_loop.simps moves_def)
  next
    case (Restart q')
    with st have m: "p_cursor q' \<le> length (p_body q')" "p_cursor p < p_cursor q'"
      by (auto intro: moves_bound)
    with l assms(2) Restart tok_moves [of q' f q t 0] show ?thesis
      by (auto simp: tok_loop.simps moves_def)
  next
    case (Sub q')
    with l assms(2) st show ?thesis
      by (cases "tok_recurse f (sub_parser q')") (auto simp: tok_loop.simps p_finish_def)
  qed
qed

lemma tok_start_progress:
  assumes s: "tok_start f p = Some (q, t)" and c: "p_cursor p \<le> length (p_body p)" and t: "t \<noteq> TK_EOF"
  shows "todo q < todo p"
proof (cases f)
  case 0
  with s show ?thesis by (simp add: tok_start.simps)
next
  case (Suc f')
  show ?thesis
  proof (cases "p_done p")
    case True
    with s t Suc show ?thesis
      by (auto simp: tok_start.simps Let_def todo_def rest_len_def split: if_splits)
  next
    case False
    let ?p = "p\<lparr>p_token := TK_ESC, p_begin := p_cursor p\<rparr>"
    from s Suc False have l: "tok_loop f' 0 ?p = Some (q, t)" by (simp add: tok_start.simps)
    then obtain g where g: "f' = Suc g" by (cases f') (auto simp: tok_loop.simps)
    have "\<not> p_done ?p" using False by (simp add: p_done_def)
    from tok_loop_first [OF l [unfolded g] this]
    have f: "p_cursor p < p_cursor q \<or> p_cursor q = p_cursor p \<and> p_in_string p \<and> \<not> p_in_string q"
      by simp
    have m: "moves p q" using tok_moves [of p f q t 0] s c by simp
    show ?thesis
    proof (cases "p_cursor p < p_cursor q")
      case True
      then have "rest_len q < rest_len p" using m by (auto simp: rest_len_def moves_def)
      then show ?thesis by (simp add: todo_def)
    next
      case no: False
      with f m show ?thesis by (simp add: todo_def rest_len_def moves_def)
    qed
  qed
qed

lemma tok_total:
  "(p_cursor p \<le> length (p_body p) \<longrightarrow> 4 * rest_len p + 2 \<le> f \<longrightarrow> (\<exists>r. tok_start f p = Some r)) \<and>
   (p_cursor p \<le> length (p_body p) \<longrightarrow> 4 * rest_len p + 1 \<le> f \<longrightarrow> (\<exists>r. tok_loop f adj p = Some r)) \<and>
   (p_cursor p \<le> length (p_body p) \<longrightarrow> todo p + 3 \<le> f \<longrightarrow> (\<exists>r. tok_recurse f p = Some r))"
proof (induction f arbitrary: p adj)
  case 0
  then show ?case by simp
next
  case (Suc f)
  have start: "\<exists>r. tok_start f p = Some r" if "p_cursor p \<le> length (p_body p)" "4 * rest_len p + 2 \<le> f" for p
    using Suc.IH that by blast
  have loop: "\<exists>r. tok_loop f adj p = Some r" if "p_cursor p \<le> length (p_body p)" "4 * rest_len p + 1 \<le> f" for p adj
    using Suc.IH that by blast
  have recu: "\<exists>r. tok_recurse f p = Some r" if "p_cursor p \<le> length (p_body p)" "todo p + 3 \<le> f" for p
    using Suc.IH that by blast
  have "\<exists>r. tok_start (Suc f) p = Some r" if "p_cursor p \<le> length (p_body p)" "4 * rest_len p + 2 \<le> Suc f" for p
    using that loop [of "p\<lparr>p_token := TK_ESC, p_begin := p_cursor p\<rparr>" 0]
    by (auto simp: tok_start.simps rest_len_def Let_def)
  moreover have "\<exists>r. tok_recurse (Suc f) p = Some r"
    if c: "p_cursor p \<le> length (p_body p)" "todo p + 3 \<le> Suc f" for p
  proof -
    let ?p = "p\<lparr>p_has_escapes := False\<rparr>"
    have c': "p_cursor ?p \<le> length (p_body ?p)" "todo ?p = todo p"
      using c(1) by (simp_all add: todo_def rest_len_def)
    have "4 * rest_len ?p + 2 \<le> f" using c(2) c'(2) by (simp add: todo_def)
    from start [OF c'(1) this] obtain q t where q: "tok_start f ?p = Some (q, t)" by auto
    have m: "moves ?p q" using tok_moves [of ?p f q t 0] q c'(1) by simp
    show ?thesis
    proof (cases "t = TK_EOF")
      case True
      with q show ?thesis by (simp add: tok_recurse.simps)
    next
      case False
      from tok_start_progress [OF q c'(1) False] c(2) c'(2) have "todo q + 3 \<le> f" by simp
      from recu [OF moves_bound [OF m] this] q False show ?thesis by (simp add: tok_recurse.simps)
    qed
  qed
  moreover have "\<exists>r. tok_loop (Suc f) adj p = Some r"
    if c: "p_cursor p \<le> length (p_body p)" "4 * rest_len p + 1 \<le> Suc f" for p adj
  proof (cases "p_done p")
    case True
    then show ?thesis by (simp add: tok_loop.simps)
  next
    case False
    note st = tok_step_ok [OF False]
    have dec: "p_cursor q \<le> length (p_body q) \<and> 4 * rest_len q + 4 \<le> 4 * rest_len p"
      if "moves p q" "p_cursor p < p_cursor q" for q
      using that by (auto simp: moves_def rest_len_def)
    show ?thesis
    proof (cases "tok_step p")
      case (Stop q t)
      with False show ?thesis by (simp add: tok_loop.simps)
    next
      case (Again a q)
      with st dec [of q] c(2) loop [of q a] False show ?thesis by (simp add: tok_loop.simps)
    next
      case (Restart q)
      with st dec [of q] c(2) start [of q] False show ?thesis by (simp add: tok_loop.simps)
    next
      case (Sub q)
      with st have q: "moves p q" "p_cursor p < p_cursor q" by simp_all
      have "todo (sub_parser q) = 4 * rest_len q"
        by (simp add: todo_def sub_parser_def parser_new_def rest_len_def)
      with dec [OF q] c(2) have "todo (sub_parser q) + 3 \<le> f" by simp
      from recu [OF _ this] False Sub show ?thesis
        by (auto simp: tok_loop.simps sub_parser_def parser_new_def)
    qed
  qed
  ultimately show ?case by blast
qed

lemma next_token_facts:
  assumes c: "p_cursor p \<le> length (p_body p)" and f: "tok_fuel p \<le> f"
  shows "\<exists>q t. next_token f p = Some (q, t) \<and> moves p q \<and> (t \<noteq> TK_EOF \<longrightarrow> todo q < todo p)"
proof -
  let ?p = "p\<lparr>p_has_escapes := False\<rparr>"
  have c': "p_cursor ?p \<le> length (p_body ?p)" "todo ?p = todo p" "4 * rest_len ?p + 2 \<le> f"
    using c f by (simp_all add: todo_def rest_len_def tok_fuel_def)
  obtain q t where q: "tok_start f ?p = Some (q, t)" using tok_total [of ?p f 0] c' by auto
  have "moves ?p q" using tok_moves [of ?p f q t 0] q c'(1) by simp
  then have "moves p q" by (simp add: moves_def)
  with q tok_start_progress [OF q c'(1)] c'(2) show ?thesis
    by (intro exI [of _ q] exI [of _ t]) (simp add: next_token_def)
qed

section \<open>The token that is returned is the one that is kept\<close>

lemma tok_stop_token: "tok_stop a p = Stop q t \<Longrightarrow> p_token q = t"
  by (auto simp: tok_stop_def p_finish_def)

lemma step_parts_token:
  "step_open_brace p = Stop q t \<Longrightarrow> p_token q = t" "step_bracket p = Stop q t \<Longrightarrow> p_token q = t"
  "step_close_brace p = Stop q t \<Longrightarrow> p_token q = t" "step_dollar p = Stop q t \<Longrightarrow> p_token q = t"
  "step_hash p = Stop q t \<Longrightarrow> p_token q = t" "step_backslash p = Stop q t \<Longrightarrow> p_token q = t"
  "step_quote p = Stop q t \<Longrightarrow> p_token q = t" "step_blank c p = Stop q t \<Longrightarrow> p_token q = t"
proof -
  show "step_open_brace p = Stop q t \<Longrightarrow> p_token q = t" by (simp add: step_open_brace_def Let_def split: if_splits)
  show br: "step_bracket p = Stop q t \<Longrightarrow> p_token q = t" by (simp add: step_bracket_def split: if_splits)
  then show "step_close_brace p = Stop q t \<Longrightarrow> p_token q = t"
    by (auto simp: step_close_brace_def Let_def dest: tok_stop_token split: if_splits)
  show "step_dollar p = Stop q t \<Longrightarrow> p_token q = t"
    by (auto simp: step_dollar_def dest: tok_stop_token split: if_splits)
  show "step_hash p = Stop q t \<Longrightarrow> p_token q = t" by (simp add: step_hash_def split: if_splits)
  show "step_backslash p = Stop q t \<Longrightarrow> p_token q = t" by (simp add: step_backslash_def split: if_splits)
  show "step_quote p = Stop q t \<Longrightarrow> p_token q = t"
    by (auto simp: step_quote_def dest: tok_stop_token split: if_splits)
  show "step_blank c p = Stop q t \<Longrightarrow> p_token q = t"
    by (auto simp: step_blank_def Let_def dest: tok_stop_token split: if_splits)
qed

lemma tok_step_token: "tok_step p = Stop q t \<Longrightarrow> p_term p = nul \<Longrightarrow> p_token q = t"
  unfolding tok_step_def Let_def
  by (simp add: p_advance_def split: if_split_asm) (auto dest: step_parts_token)

lemma tok_token:
  "(p_cursor p \<le> length (p_body p) \<longrightarrow> p_term p = nul \<longrightarrow> tok_start f p = Some (q, t) \<longrightarrow> p_token q = t) \<and>
   (p_cursor p \<le> length (p_body p) \<longrightarrow> p_term p = nul \<longrightarrow> tok_loop f adj p = Some (q, t) \<longrightarrow> p_token q = t)"
proof (induction f arbitrary: p q t adj)
  case 0
  then show ?case by (simp add: tok_start.simps tok_loop.simps)
next
  case (Suc f)
  have start: "p_token q = t" if "p_cursor p \<le> length (p_body p)" "p_term p = nul" "tok_start f p = Some (q, t)" for p q t
    using Suc.IH that by blast
  have loop: "p_token q = t" if "p_cursor p \<le> length (p_body p)" "p_term p = nul" "tok_loop f adj p = Some (q, t)" for p q t adj
    using Suc.IH that by blast
  have "p_token q = t" if "p_cursor p \<le> length (p_body p)" "p_term p = nul" "tok_start (Suc f) p = Some (q, t)" for p q t
    using that loop [of "p\<lparr>p_token := TK_ESC, p_begin := p_cursor p\<rparr>" 0 q t]
    by (auto simp: tok_start.simps Let_def split: if_splits)
  moreover have "p_token q = t"
    if l: "p_cursor p \<le> length (p_body p)" "p_term p = nul" "tok_loop (Suc f) adj p = Some (q, t)" for p q t adj
  proof (cases "p_done p")
    case True
    with l show ?thesis by (auto simp: tok_loop.simps p_finish_def)
  next
    case False
    note st = tok_step_ok [OF False]
    have at: "p_cursor q' \<le> length (p_body q') \<and> p_term q' = nul" if "moves p q'" for q'
      using that l(2) by (simp add: moves_def)
    show ?thesis
    proof (cases "tok_step p")
      case (Stop q' t')
      with l False tok_step_token [OF Stop] show ?thesis by (simp add: tok_loop.simps)
    next
      case (Again a q')
      with l False st at loop [of q' a q t] show ?thesis by (simp add: tok_loop.simps)
    next
      case (Restart q')
      with l False st at start [of q' q t] show ?thesis by (simp add: tok_loop.simps)
    next
      case (Sub q')
      with l False show ?thesis
        by (cases "tok_recurse f (sub_parser q')") (auto simp: tok_loop.simps p_finish_def)
    qed
  qed
  ultimately show ?case by blast
qed

lemma next_token_token:
  assumes "next_token f p = Some (q, t)" and "p_cursor p \<le> length (p_body p)" and "p_term p = nul"
  shows "p_token q = t"
  using tok_token [of "p\<lparr>p_has_escapes := False\<rparr>" f q t 0] assms by (simp add: next_token_def)

section \<open>Quoted and braced words\<close>

text \<open>The inverse of \<open>process_escapes\<close>: how to write a text between double quotes.\<close>

definition esc_char :: "char \<Rightarrow> string" where
  "esc_char c =
     (if c = CHR 0x22 then [CHR 0x5C, CHR 0x22]
      else if c = CHR 0x5C then [CHR 0x5C, CHR 0x5C]
      else if c = CHR 0x0A then [CHR 0x5C, CHR ''n'']
      else if c = CHR 0x09 then [CHR 0x5C, CHR ''t'']
      else if c = CHR 0x0D then [CHR 0x5C, CHR ''r'']
      else [c])"

definition esc :: "string \<Rightarrow> string" where
  "esc s = concat (map esc_char s)"

definition must_escape :: "char \<Rightarrow> bool" where
  "must_escape c \<longleftrightarrow> esc_char c \<noteq> [c]"

lemma esc_simps [simp]: "esc [] = []" "esc (c # s) = esc_char c @ esc s"
  by (simp_all add: esc_def)

lemma process_esc_char: "process_escapes (esc_char c @ r) = c # process_escapes r"
  by (cases r) (auto simp: esc_char_def)

lemma process_escapes_esc [simp]: "process_escapes (esc s) = s"
  by (induction s) (simp_all add: process_esc_char)

lemma esc_plain: "\<not> (\<exists>c\<in>set s. must_escape c) \<Longrightarrow> esc s = s"
  by (induction s) (auto simp: must_escape_def)

lemma peek_drop: "drop (p_cursor p) (p_body p) = c # r \<Longrightarrow> p_peek p = c"
  by (simp add: p_peek_def nth_via_drop)

lemma drop_done: "drop (p_cursor p) (p_body p) = c # r \<Longrightarrow> \<not> p_done p"
  by (auto simp: p_done_def)

lemma drop_advance: "drop i s = c # r \<Longrightarrow> drop (Suc i) s = r"
  by (metis drop_Suc list.sel(3) tl_drop)

definition quoting :: "parser \<Rightarrow> bool" where
  "quoting p \<longleftrightarrow> p_in_quote p \<and> \<not> p_in_string p \<and> \<not> p_in_brace p \<and> p_term p = nul"

lemma step_quoting:
  assumes "quoting p" and "drop (p_cursor p) (p_body p) = c # r"
    and "c \<noteq> CHR ''$''" "c \<noteq> CHR 0x22" "c \<noteq> CHR 0x5C"
  shows "tok_step p = Again 0 (p\<lparr>p_cursor := Suc (p_cursor p)\<rparr>)"
  using assms peek_drop [OF assms(2)]
  by (simp add: quoting_def tok_step_def p_advance_def Let_def step_open_brace_def
      step_close_brace_def step_bracket_def step_hash_def step_blank_def)

lemma step_quoting_escape:
  assumes "quoting p" and "drop (p_cursor p) (p_body p) = CHR 0x5C # d # r" and "escapable d"
  shows "tok_step p = Again 0 (p\<lparr>p_cursor := Suc (Suc (p_cursor p)), p_has_escapes := True\<rparr>)"
proof -
  have d: "drop (Suc (p_cursor p)) (p_body p) = d # r" using drop_advance [OF assms(2)] .
  have "p_peek (p_advance p) = d" "\<not> p_done (p_advance p)"
    using peek_drop [of "p_advance p"] drop_done [of "p_advance p"] d by (simp_all add: p_advance_def)
  with assms peek_drop [OF assms(2)] show ?thesis
    by (simp add: quoting_def tok_step_def p_advance_def Let_def step_backslash_def)
qed

lemma step_quoting_end:
  assumes "quoting p" and "drop (p_cursor p) (p_body p) = CHR 0x22 # r"
  shows "tok_step p =
    Stop (p\<lparr>p_cursor := Suc (p_cursor p), p_in_quote := False, p_end := p_cursor p\<rparr>) (p_token p)"
  using assms peek_drop [OF assms(2)]
  by (simp add: quoting_def tok_step_def p_advance_def Let_def step_quote_def tok_stop_def p_finish_def)

lemma tok_loop_again: "\<not> p_done p \<Longrightarrow> tok_step p = Again a q \<Longrightarrow> tok_loop (Suc f) adj p = tok_loop f a q"
  by (simp add: tok_loop.simps)

lemma quote_loop:
  assumes "quoting p" and "drop (p_cursor p) (p_body p) = esc s @ CHR 0x22 # r"
    and "CHR ''$'' \<notin> set s" and "length s < f"
  shows "tok_loop f adj p =
    Some (p\<lparr>p_cursor := Suc (p_cursor p + length (esc s)), p_in_quote := False,
            p_end := p_cursor p + length (esc s),
            p_has_escapes := p_has_escapes p \<or> (\<exists>c\<in>set s. must_escape c)\<rparr>, p_token p)"
  using assms
proof (induction s arbitrary: p f adj)
  case Nil
  then have d: "drop (p_cursor p) (p_body p) = CHR 0x22 # r" by simp
  from Nil.prems(4) obtain g where "f = Suc g" by (cases f) auto
  with step_quoting_end [OF Nil.prems(1) d] drop_done [OF d] show ?case by (simp add: tok_loop.simps)
next
  case (Cons c s)
  from Cons.prems(4) obtain g where g: "f = Suc g" "length s < g" by (cases f) auto
  show ?case
  proof (cases "must_escape c")
    case False
    then have e: "esc_char c = [c]" by (simp add: must_escape_def)
    then have c: "c \<noteq> CHR 0x22" "c \<noteq> CHR 0x5C" by (auto simp: esc_char_def)
    have d: "drop (p_cursor p) (p_body p) = c # esc s @ CHR 0x22 # r" using Cons.prems(2) e by simp
    have st: "tok_step p = Again 0 (p\<lparr>p_cursor := Suc (p_cursor p)\<rparr>)"
      using Cons.prems(1,3) c by (intro step_quoting [OF _ d]) auto
    have "tok_loop g 0 (p\<lparr>p_cursor := Suc (p_cursor p)\<rparr>) =
        Some (p\<lparr>p_cursor := Suc (Suc (p_cursor p) + length (esc s)), p_in_quote := False,
          p_end := Suc (p_cursor p) + length (esc s),
          p_has_escapes := p_has_escapes p \<or> (\<exists>c\<in>set s. must_escape c)\<rparr>, p_token p)"
      using Cons.IH [of "p\<lparr>p_cursor := Suc (p_cursor p)\<rparr>" g 0] Cons.prems g(2) drop_advance [OF d]
      by (simp add: quoting_def)
    then show ?thesis
      using tok_loop_again [OF drop_done [OF d] st] g False e by simp
  next
    case True
    then obtain d where e: "esc_char c = [CHR 0x5C, d]" "escapable d"
      by (auto simp: must_escape_def esc_char_def escapable_def split: if_splits)
    have d: "drop (p_cursor p) (p_body p) = CHR 0x5C # d # esc s @ CHR 0x22 # r"
      using Cons.prems(2) e by simp
    note st = step_quoting_escape [OF Cons.prems(1) d e(2)]
    have "tok_loop g 0 (p\<lparr>p_cursor := Suc (Suc (p_cursor p)), p_has_escapes := True\<rparr>) =
        Some (p\<lparr>p_cursor := Suc (Suc (Suc (p_cursor p)) + length (esc s)), p_in_quote := False,
          p_end := Suc (Suc (p_cursor p)) + length (esc s), p_has_escapes := True\<rparr>, p_token p)"
      using Cons.IH [of "p\<lparr>p_cursor := Suc (Suc (p_cursor p)), p_has_escapes := True\<rparr>" g 0]
        Cons.prems g(2) drop_advance [OF drop_advance [OF d]]
      by (simp add: quoting_def)
    then show ?thesis
      using tok_loop_again [OF drop_done [OF d] st] g True e by simp
  qed
qed

text \<open>Braces nest; \<open>balanced n s\<close>: the text \<open>s\<close> closes every brace it opens, \<open>n\<close> deep already.\<close>

fun balanced :: "nat \<Rightarrow> string \<Rightarrow> bool" where
  "balanced n [] \<longleftrightarrow> n = 0"
| "balanced n (c # s) \<longleftrightarrow>
     (if c = CHR ''{'' then balanced (Suc n) s
      else if c = CHR ''}'' then 0 < n \<and> balanced (n - 1) s
      else balanced n s)"

definition bracing :: "nat \<Rightarrow> parser \<Rightarrow> bool" where
  "bracing n p \<longleftrightarrow> p_in_brace p \<and> \<not> p_in_string p \<and> \<not> p_in_quote p \<and> p_term p = nul \<and>
     p_brace_level p = Suc n"

lemma step_bracing:
  assumes "bracing n p" and "drop (p_cursor p) (p_body p) = c # r"
  shows "tok_step p =
    (if c = CHR ''{'' then Again 0 (p\<lparr>p_cursor := Suc (p_cursor p), p_brace_level := Suc (Suc n)\<rparr>)
     else if c = CHR ''}''
     then (if n = 0 then Stop (p\<lparr>p_cursor := Suc (p_cursor p), p_brace_level := 0, p_in_brace := False,
                                 p_end := p_cursor p\<rparr>) (p_token p)
           else Again 0 (p\<lparr>p_cursor := Suc (p_cursor p), p_brace_level := n\<rparr>))
     else Again 0 (p\<lparr>p_cursor := Suc (p_cursor p)\<rparr>))"
  using assms peek_drop [OF assms(2)]
  by (simp add: bracing_def tok_step_def p_advance_def Let_def step_open_brace_def
      step_close_brace_def step_bracket_def step_hash_def step_blank_def step_dollar_def
      step_backslash_def step_quote_def tok_stop_def p_finish_def)

lemma brace_loop:
  assumes "bracing n p" and "drop (p_cursor p) (p_body p) = s @ CHR ''}'' # r"
    and "balanced n s" and "length s < f"
  shows "tok_loop f adj p =
    Some (p\<lparr>p_cursor := Suc (p_cursor p + length s), p_brace_level := 0, p_in_brace := False,
            p_end := p_cursor p + length s\<rparr>, p_token p)"
  using assms
proof (induction s arbitrary: n p f adj)
  case Nil
  then have d: "drop (p_cursor p) (p_body p) = CHR ''}'' # r" by simp
  from Nil.prems(4) obtain g where "f = Suc g" by (cases f) auto
  with step_bracing [OF Nil.prems(1) d] drop_done [OF d] Nil.prems(3) show ?case
    by (simp add: tok_loop.simps)
next
  case (Cons c s)
  from Cons.prems(4) obtain g where g: "f = Suc g" "length s < g" by (cases f) auto
  have d: "drop (p_cursor p) (p_body p) = c # s @ CHR ''}'' # r" using Cons.prems(2) by simp
  define n' where "n' = (if c = CHR ''{'' then Suc n else if c = CHR ''}'' then n - 1 else n)"
  define p' where "p' = p\<lparr>p_cursor := Suc (p_cursor p), p_brace_level := Suc n'\<rparr>"
  have lvl: "p_brace_level p = Suc n" using Cons.prems(1) by (simp add: bracing_def)
  then have same: "p\<lparr>p_cursor := x, p_brace_level := Suc n\<rparr> = p\<lparr>p_cursor := x\<rparr>" for x
    by (cases p) simp
  have "tok_step p = Again 0 p'"
    using step_bracing [OF Cons.prems(1) d] Cons.prems(3) same by (auto simp: p'_def n'_def)
  note again = tok_loop_again [OF drop_done [OF d] this]
  have "bracing n' p'" using Cons.prems(1) by (simp add: bracing_def p'_def)
  moreover have "balanced n' s" using Cons.prems(3) by (auto simp: n'_def split: if_splits)
  moreover have "drop (p_cursor p') (p_body p') = s @ CHR ''}'' # r"
    using drop_advance [OF d] by (simp add: p'_def)
  ultimately have "tok_loop g 0 p' = Some (p'\<lparr>p_cursor := Suc (p_cursor p' + length s), p_brace_level := 0,
      p_in_brace := False, p_end := p_cursor p' + length s\<rparr>, p_token p')"
    using g(2) by (intro Cons.IH)
  then show ?case using again g by (simp add: p'_def)
qed

definition idle :: "parser \<Rightarrow> bool" where
  "idle p \<longleftrightarrow> \<not> p_in_quote p \<and> \<not> p_in_string p \<and> \<not> p_in_brace p \<and> p_brace_level p = 0 \<and>
     p_term p = nul"

lemma idle_new: "idle (parser_new s)"
  by (simp add: idle_def parser_new_def)

text \<open>The parser at the start of a token.\<close>

definition at_start :: "parser \<Rightarrow> parser" where
  "at_start p = p\<lparr>p_has_escapes := False, p_token := TK_ESC, p_begin := p_cursor p\<rparr>"

lemma next_token_loop:
  "\<not> p_done p \<Longrightarrow> next_token (Suc f) p = tok_loop f 0 (at_start p)"
  by (simp add: next_token_def tok_start.simps p_done_def at_start_def)

lemma drop_length: "drop i s = x @ c # y \<Longrightarrow> i + length x < length s"
proof -
  assume "drop i s = x @ c # y"
  then have "length (drop i s) = length x + Suc (length y)" by simp
  then show ?thesis by (simp only: length_drop)
qed

lemma drop_take: "drop i s = x @ y \<Longrightarrow> take (length x) (drop i s) = x"
  by simp

lemma view_substr_mid:
  "i + length x \<le> length s \<Longrightarrow> length s < size_mod \<Longrightarrow> drop i s = x @ y \<Longrightarrow>
   view_substr s i (length x) = Some x"
  by (simp add: view_substr_def clamp_def span_def Let_def)

lemma tok_fuel_length:
  assumes "drop (p_cursor p) (p_body p) = c # x @ d # r"
  shows "length x + 2 \<le> tok_fuel p - 2"
proof -
  have "length (drop (p_cursor p) (p_body p)) = length x + 2 + length r" using assms by simp
  then show ?thesis by (simp add: tok_fuel_def rest_len_def)
qed

lemma esc_length: "length s \<le> length (esc s)"
proof (induction s)
  case (Cons c s)
  have "1 \<le> length (esc_char c)" by (simp add: esc_char_def)
  with Cons show ?case by simp
qed simp

lemma quoted_token:
  assumes i: "idle p" and d: "drop (p_cursor p) (p_body p) = CHR 0x22 # esc s @ CHR 0x22 # r"
    and s: "CHR ''$'' \<notin> set s" and b: "length (p_body p) < size_mod"
  shows "\<exists>q. next_token (tok_fuel p) p = Some (q, TK_ESC) \<and> token_text q = Some s \<and> idle q \<and>
    p_body q = p_body p \<and> p_token q = TK_ESC \<and> p_cursor q = p_cursor p + length (esc s) + 2"
proof -
  note nd = drop_done [OF d]
  obtain f where f: "tok_fuel p = Suc (Suc f)" "length s < f"
    using tok_fuel_length [OF d] esc_length [of s] by (cases "tok_fuel p - 2") (auto simp: tok_fuel_def)
  let ?p = "at_start p"
  let ?p1 = "?p\<lparr>p_cursor := Suc (p_cursor p), p_in_quote := True, p_begin := Suc (p_cursor p)\<rparr>"
  have pk: "p_peek ?p = CHR 0x22" using peek_drop [OF d] by (simp add: at_start_def p_peek_def)
  have "tok_step ?p = Again 1 ?p1"
    using i pk by (simp add: idle_def tok_step_def p_advance_def Let_def step_quote_def at_start_def)
  then have l: "next_token (tok_fuel p) p = tok_loop f 1 ?p1"
    using nd f by (simp add: next_token_loop tok_loop_again p_done_def at_start_def)
  have d1: "drop (p_cursor ?p1) (p_body ?p1) = esc s @ CHR 0x22 # r"
    using drop_advance [OF d] by (simp add: at_start_def)
  have "quoting ?p1" using i by (simp add: quoting_def idle_def at_start_def)
  note q = quote_loop [OF this d1 s f(2), of 1]
  have "view_substr (p_body p) (Suc (p_cursor p)) (length (esc s)) = Some (esc s)"
    using drop_length [of "Suc (p_cursor p)" "p_body p" "esc s"] d1 b
    by (intro view_substr_mid) (auto simp: at_start_def)
  then show ?thesis
    unfolding l q using i esc_plain [of s]
    by (auto simp: token_text_def token_body_def idle_def at_start_def)
qed

lemma braced_token:
  assumes i: "idle p" and d: "drop (p_cursor p) (p_body p) = CHR ''{'' # s @ CHR ''}'' # r"
    and s: "balanced 0 s" and b: "length (p_body p) < size_mod"
  shows "\<exists>q. next_token (tok_fuel p) p = Some (q, TK_STR) \<and> token_text q = Some s \<and> idle q \<and>
    p_body q = p_body p \<and> p_token q = TK_STR \<and> p_cursor q = p_cursor p + length s + 2"
proof -
  note nd = drop_done [OF d]
  obtain f where f: "tok_fuel p = Suc (Suc f)" "length s < f"
    using tok_fuel_length [OF d] by (cases "tok_fuel p - 2") (auto simp: tok_fuel_def)
  let ?p = "at_start p"
  let ?p1 = "?p\<lparr>p_cursor := Suc (p_cursor p), p_in_brace := True, p_begin := Suc (p_cursor p),
    p_token := TK_STR, p_brace_level := 1\<rparr>"
  have pk: "p_peek ?p = CHR ''{''" using peek_drop [OF d] by (simp add: at_start_def p_peek_def)
  have "tok_step ?p = Again 0 ?p1"
    using i pk by (simp add: idle_def tok_step_def p_advance_def Let_def step_open_brace_def at_start_def)
  then have l: "next_token (tok_fuel p) p = tok_loop f 0 ?p1"
    using nd f by (simp add: next_token_loop tok_loop_again p_done_def at_start_def)
  have d1: "drop (p_cursor ?p1) (p_body ?p1) = s @ CHR ''}'' # r"
    using drop_advance [OF d] by (simp add: at_start_def)
  have "bracing 0 ?p1" using i by (simp add: bracing_def idle_def at_start_def)
  note q = brace_loop [OF this d1 s f(2), of 0]
  have "view_substr (p_body p) (Suc (p_cursor p)) (length s) = Some s"
    using drop_length [of "Suc (p_cursor p)" "p_body p" s] d1 b
    by (intro view_substr_mid) (auto simp: at_start_def)
  then show ?thesis
    unfolding l q using i
    by (auto simp: token_text_def token_body_def idle_def at_start_def)
qed

text \<open>Bare words.\<close>

definition bare :: "char \<Rightarrow> bool" where
  "bare c \<longleftrightarrow> \<not> is_blank c \<and> c \<notin> set ''{}[$#'' \<and> c \<noteq> CHR 0x22 \<and> c \<noteq> CHR 0x5C"

lemma step_bare:
  assumes "\<not> p_in_quote p" "\<not> p_in_brace p" "p_term p = nul"
    and "drop (p_cursor p) (p_body p) = c # r" and "bare c"
  shows "tok_step p = Again 0 (p\<lparr>p_cursor := Suc (p_cursor p), p_in_string := True\<rparr>)"
  using assms peek_drop [OF assms(4)] by (simp add: tok_step_def p_advance_def Let_def bare_def)

lemma bare_loop:
  assumes "\<not> p_in_quote p" "\<not> p_in_brace p" "p_term p = nul" "p_in_string p"
    and "drop (p_cursor p) (p_body p) = s @ b # r" and "list_all bare s" and "is_blank b" and "length s < f"
  shows "tok_loop f adj p =
    Some (p\<lparr>p_cursor := p_cursor p + length s, p_in_string := False, p_end := p_cursor p + length s\<rparr>, p_token p)"
  using assms
proof (induction s arbitrary: p f adj)
  case Nil
  then have d: "drop (p_cursor p) (p_body p) = b # r" by simp
  from Nil.prems(8) obtain g where g: "f = Suc g" by (cases f) auto
  have "tok_step p = step_blank b (p_advance p)"
    using Nil.prems(3,7) peek_drop [OF d] by (auto simp: tok_step_def Let_def p_advance_def is_blank_def)
  then show ?case
    using Nil.prems(2,4) drop_done [OF d] g
    by (simp add: tok_loop.simps step_blank_def p_advance_def p_back_def tok_stop_def p_finish_def)
next
  case (Cons c s)
  from Cons.prems(8) obtain g where g: "f = Suc g" "length s < g" by (cases f) auto
  have d: "drop (p_cursor p) (p_body p) = c # s @ b # r" using Cons.prems(5) by simp
  have "tok_step p = Again 0 (p\<lparr>p_cursor := Suc (p_cursor p), p_in_string := True\<rparr>)"
    using Cons.prems by (intro step_bare [OF _ _ _ d]) auto
  note again = tok_loop_again [OF drop_done [OF d] this]
  show ?case
    using Cons.IH [of "p\<lparr>p_cursor := Suc (p_cursor p), p_in_string := True\<rparr>" g 0] Cons.prems g
      again drop_advance [OF d] by simp
qed

lemma bare_token:
  assumes i: "idle p" and d: "drop (p_cursor p) (p_body p) = w @ b # r" and w: "w \<noteq> []" "list_all bare w"
    and bl: "is_blank b" and b: "length (p_body p) < size_mod"
  shows "\<exists>q. next_token (tok_fuel p) p = Some (q, TK_ESC) \<and> token_text q = Some w \<and> idle q \<and>
    p_body q = p_body p \<and> p_token q = TK_ESC \<and> p_cursor q = p_cursor p + length w"
proof -
  from w(1) obtain c s where cs: "w = c # s" by (cases w) auto
  with d have d': "drop (p_cursor p) (p_body p) = c # s @ b # r" by simp
  note nd = drop_done [OF d']
  obtain f where f: "tok_fuel p = Suc (Suc f)" "length s < f"
    using tok_fuel_length [OF d'] by (cases "tok_fuel p - 2") (auto simp: tok_fuel_def)
  let ?p = "at_start p"
  let ?p1 = "?p\<lparr>p_cursor := Suc (p_cursor p), p_in_string := True\<rparr>"
  have "tok_step ?p = Again 0 ?p1"
    using i step_bare [of ?p c "s @ b # r"] w(2) cs d' by (simp add: idle_def at_start_def)
  then have l: "next_token (tok_fuel p) p = tok_loop f 0 ?p1"
    using nd f by (simp add: next_token_loop tok_loop_again p_done_def at_start_def)
  have d1: "drop (p_cursor ?p1) (p_body ?p1) = s @ b # r"
    using drop_advance [OF d'] by (simp add: at_start_def)
  have q: "tok_loop f 0 ?p1 = Some (?p1\<lparr>p_cursor := Suc (p_cursor p) + length s, p_in_string := False,
      p_end := Suc (p_cursor p) + length s\<rparr>, TK_ESC)"
    using bare_loop [of ?p1 s b r f 0] i d1 w(2) cs bl f(2) by (simp add: idle_def at_start_def)
  have "view_substr (p_body p) (p_cursor p) (Suc (length s)) = Some w"
    using drop_length [of "p_cursor p" "p_body p" w] d b view_substr_mid [of "p_cursor p" w "p_body p" "b # r"] cs
    by simp
  then show ?thesis
    unfolding l q using i cs
    by (auto simp: token_text_def token_body_def idle_def at_start_def)
qed

lemma space_token:
  assumes i: "idle p" and d: "drop (p_cursor p) (p_body p) = CHR '' '' # c # r" and c: "\<not> is_blank c"
  shows "\<exists>q. next_token (tok_fuel p) p = Some (q, TK_SEP) \<and> idle q \<and>
    p_body q = p_body p \<and> p_token q = TK_SEP \<and> p_cursor q = p_cursor p + 1"
proof -
  note nd = drop_done [OF d]
  obtain f where f: "tok_fuel p = Suc (Suc f)" by (cases "tok_fuel p - 2") (auto simp: tok_fuel_def)
  let ?p = "at_start p"
  have pk: "p_peek ?p = CHR '' ''" using peek_drop [OF d] by (simp add: at_start_def p_peek_def)
  have "drop (Suc (p_cursor p)) (p_body p) = c # r" by (rule drop_advance [OF d])
  then have "ws_scan (drop (Suc (p_cursor p)) (p_body p)) (Suc (p_cursor p)) = (Suc (p_cursor p), False)"
    using c by (simp add: is_blank_def)
  then have "tok_step ?p = Stop (?p\<lparr>p_cursor := Suc (p_cursor p), p_token := TK_SEP,
      p_end := Suc (p_cursor p)\<rparr>) TK_SEP"
    using i pk by (simp add: idle_def tok_step_def p_advance_def Let_def step_blank_def at_start_def
        is_blank_def consume_whitespace_def tok_stop_def p_finish_def)
  then have "next_token (tok_fuel p) p = Some (?p\<lparr>p_cursor := Suc (p_cursor p), p_token := TK_SEP,
      p_end := Suc (p_cursor p)\<rparr>, TK_SEP)"
    using nd f by (simp add: next_token_loop tok_loop.simps p_done_def at_start_def)
  with i show ?thesis by (simp add: idle_def at_start_def)
qed

lemma end_token:
  assumes "p_cursor p = length (p_body p)"
  shows "next_token (tok_fuel p) p =
    (let t = (if p_token p \<noteq> TK_EOL \<and> p_token p \<noteq> TK_EOF then TK_EOL else TK_EOF)
     in Some (p\<lparr>p_has_escapes := False, p_token := t\<rparr>, t))"
  using assms by (simp add: next_token_def tok_fuel_def rest_len_def tok_start.simps numeral_2_eq_2 p_done_def Let_def)

lemma newline_token:
  assumes i: "idle p" and d: "drop (p_cursor p) (p_body p) = [CHR 0x0A]"
  shows "\<exists>q. next_token (tok_fuel p) p = Some (q, TK_EOL) \<and> idle q \<and>
    p_body q = p_body p \<and> p_token q = TK_EOL \<and> p_cursor q = length (p_body q)"
proof -
  note nd = drop_done [OF d]
  have "length (drop (p_cursor p) (p_body p)) = 1" by (simp add: d)
  then have len: "length (p_body p) = Suc (p_cursor p)" by (simp only: length_drop)
  obtain f where f: "tok_fuel p = Suc (Suc f)" by (cases "tok_fuel p - 2") (auto simp: tok_fuel_def)
  let ?p = "at_start p"
  have pk: "p_peek ?p = CHR 0x0A" using peek_drop [OF d] by (simp add: at_start_def p_peek_def)
  have "drop (Suc (p_cursor p)) (p_body p) = []" by (rule drop_advance [OF d])
  then have "tok_step ?p = Stop (?p\<lparr>p_cursor := Suc (p_cursor p), p_token := TK_EOL,
      p_end := Suc (p_cursor p)\<rparr>) TK_EOL"
    using i pk by (simp add: idle_def tok_step_def p_advance_def Let_def step_blank_def at_start_def
        is_blank_def consume_whitespace_def tok_stop_def p_finish_def)
  then have "next_token (tok_fuel p) p = Some (?p\<lparr>p_cursor := Suc (p_cursor p), p_token := TK_EOL,
      p_end := Suc (p_cursor p)\<rparr>, TK_EOL)"
    using nd f by (simp add: next_token_loop tok_loop.simps p_done_def at_start_def)
  with i len show ?thesis by (simp add: idle_def at_start_def)
qed

section \<open>Command lines\<close>

text \<open>The three ways to write a word literally, and a line of such words.\<close>

datatype word_src = Bare string | Quoted string | Braced string

fun word_text :: "word_src \<Rightarrow> string" where
  "word_text (Bare s) = s"
| "word_text (Quoted s) = s"
| "word_text (Braced s) = s"

fun word_form :: "word_src \<Rightarrow> string" where
  "word_form (Bare s) = s"
| "word_form (Quoted s) = CHR 0x22 # esc s @ [CHR 0x22]"
| "word_form (Braced s) = CHR ''{'' # s @ ''}''"

fun word_ok :: "word_src \<Rightarrow> bool" where
  "word_ok (Bare s) \<longleftrightarrow> s \<noteq> [] \<and> list_all bare s"
| "word_ok (Quoted s) \<longleftrightarrow> CHR ''$'' \<notin> set s"
| "word_ok (Braced s) \<longleftrightarrow> balanced 0 s"

fun line :: "word_src list \<Rightarrow> string" where
  "line [] = [CHR 0x0A]"
| "line [w] = word_form w @ [CHR 0x0A]"
| "line (w # v # ws) = word_form w @ CHR '' '' # line (v # ws)"

lemma word_form_head: "word_ok w \<Longrightarrow> \<exists>c s. word_form w = c # s \<and> \<not> is_blank c"
  by (cases w) (auto simp: bare_def is_blank_def neq_Nil_conv)

lemma word_token:
  assumes i: "idle p" and w: "word_ok w" and d: "drop (p_cursor p) (p_body p) = word_form w @ b # r"
    and bl: "is_blank b" and b: "length (p_body p) < size_mod"
  shows "\<exists>q t. next_token (tok_fuel p) p = Some (q, t) \<and> (t = TK_ESC \<or> t = TK_STR) \<and>
    token_text q = Some (word_text w) \<and> idle q \<and> p_body q = p_body p \<and> p_token q = t \<and>
    p_cursor q = p_cursor p + length (word_form w)"
proof (cases w)
  case (Bare s)
  with bare_token [OF i, of s b r] w d bl b show ?thesis by auto
next
  case (Quoted s)
  have e: "p_cursor p + length (word_form w) = p_cursor p + length (esc s) + 2" using Quoted by simp
  have "drop (p_cursor p) (p_body p) = CHR 0x22 # esc s @ CHR 0x22 # b # r" using Quoted d by simp
  from quoted_token [OF i this _ b] w Quoted show ?thesis unfolding e by fastforce
next
  case (Braced s)
  have e: "p_cursor p + length (word_form w) = p_cursor p + length s + 2" using Braced by simp
  have "drop (p_cursor p) (p_body p) = CHR ''{'' # s @ CHR ''}'' # b # r" using Braced d by simp
  from braced_token [OF i this _ b] w Braced show ?thesis unfolding e by fastforce
qed

lemma drop_word: "drop i s = x @ y \<Longrightarrow> drop (i + length x) s = y"
  by (metis add.commute append_eq_conv_conj drop_drop)

section \<open>Properties\<close>

text \<open>C35. The tokenizer always returns a token: from any cursor within the script, four
  units of fuel per remaining character are enough for one token, the cursor stays within
  the script and never moves back, and every token but the end of the script consumes
  some of what is left to do.\<close>

theorem next_token_total:
  assumes "p_cursor p \<le> length (p_body p)"
  shows "\<exists>q t. next_token (tok_fuel p) p = Some (q, t) \<and> p_body q = p_body p \<and>
    p_cursor p \<le> p_cursor q \<and> p_cursor q \<le> length (p_body q) \<and> (t = TK_EOF \<or> todo q < todo p)"
  using next_token_facts [OF assms order_refl] by (auto simp: moves_def)

theorem next_token_total_witness:
  "\<exists>q t. next_token 14 (parser_new ''a b'') = Some (q, t) \<and> p_body q = ''a b'' \<and>
    0 \<le> p_cursor q \<and> p_cursor q \<le> length (p_body q) \<and>
    (t = TK_EOF \<or> todo q < todo (parser_new ''a b''))"
  using next_token_total [of "parser_new ''a b''"]
  by (simp add: parser_new_def tok_fuel_def rest_len_def)

text \<open>C36. Every text without a dollar sign can be written as a quoted word: with its
  quotes, backslashes and control characters escaped and put between double quotes, it is
  read back as one word that stands for exactly that text, whatever follows.\<close>

theorem quoted_word_roundtrip:
  assumes "idle p" and "drop (p_cursor p) (p_body p) = CHR 0x22 # esc s @ CHR 0x22 # r"
    and "CHR ''$'' \<notin> set s" and "length (p_body p) < size_mod"
  shows "\<exists>q. next_token (tok_fuel p) p = Some (q, TK_ESC) \<and> token_text q = Some s \<and>
    p_cursor q = p_cursor p + length (esc s) + 2"
  using quoted_token [OF assms] by blast

theorem quoted_word_roundtrip_witness:
  "\<exists>q. next_token 30 (parser_new (CHR 0x22 # esc [CHR ''a'', CHR 0x22, CHR 0x5C] @ [CHR 0x22])) = Some (q, TK_ESC) \<and>
    token_text q = Some [CHR ''a'', CHR 0x22, CHR 0x5C] \<and> p_cursor q = 7"
  using quoted_word_roundtrip [of "parser_new (CHR 0x22 # esc [CHR ''a'', CHR 0x22, CHR 0x5C] @ [CHR 0x22])"
      "[CHR ''a'', CHR 0x22, CHR 0x5C]" "[]", OF idle_new]
  by (simp add: parser_new_def tok_fuel_def rest_len_def esc_char_def size_mod_def) (simp add: eval_nat_numeral)

text \<open>C37. A text with matching braces between braces is read as one word that stands for
  exactly that text, blanks, dollars, quotes and backslashes included.\<close>

theorem braced_word_roundtrip:
  assumes "idle p" and "drop (p_cursor p) (p_body p) = CHR ''{'' # s @ CHR ''}'' # r"
    and "balanced 0 s" and "length (p_body p) < size_mod"
  shows "\<exists>q. next_token (tok_fuel p) p = Some (q, TK_STR) \<and> token_text q = Some s \<and>
    p_cursor q = p_cursor p + length s + 2"
  using braced_token [OF assms] by blast

theorem braced_word_roundtrip_witness:
  "\<exists>q. next_token 34 (parser_new ''{$a {b}}'') = Some (q, TK_STR) \<and>
    token_text q = Some ''$a {b}'' \<and> p_cursor q = 8"
  using braced_word_roundtrip [of "parser_new ''{$a {b}}''" "''$a {b}''" "[]", OF idle_new]
  by (simp add: parser_new_def tok_fuel_def rest_len_def size_mod_def) (simp add: eval_nat_numeral)

lemmas tok_run =
  tok_start.simps(2) [of "pred_numeral k", folded numeral_eq_Suc]
  tok_loop.simps(2) [of "pred_numeral k", folded numeral_eq_Suc]
  tok_recurse.simps(2) [of "pred_numeral k", folded numeral_eq_Suc]
  for k

text \<open>A double quote that ends the script is no word of any text: the end of the token
  lies before its beginning, and the length of its view wraps around to \<open>2\<^sup>3\<^sup>2 - 1\<close>, past
  the end of the script.\<close>

theorem lone_quote_out_of_range:
  "map_option (\<lambda>r. (snd r, p_begin (fst r), p_end (fst r), token_body (fst r)))
     (next_token 6 (parser_new [CHR 0x22])) = Some (TK_ESC, 1, 0, None)"
  by (simp add: next_token_def parser_new_def tok_run tok_simps tok_step_def nul_def token_body_def
      view_substr_def size_mod_def sz_sub_def sz_def span_def clamp_def)

text \<open>A command substitution that is never closed loses its last character.\<close>

theorem open_bracket_drops_char:
  "map_option (\<lambda>r. (snd r, token_body (fst r))) (next_token 18 (parser_new ''[abc'')) =
     Some (TK_CMD, Some ''ab'')"
  by (simp add: next_token_def parser_new_def tok_run tok_simps tok_step_def nul_def token_body_def
      sub_parser_def is_blank_def view_substr_def size_mod_def sz_sub_def sz_def span_def clamp_def)

end
