(* ===== verification/TclList.thy ===== *)
theory TclList
  imports TclParser
begin

text \<open>
  The parts of the Tcl interpreter that work on text and numbers alone: lists in their string
  form (\<open>list_parse\<close>, \<open>list_format\<close> of \<open>ot/user/tcl.cpp\<close>), the reading of integers
  (\<open>parse_and_check_int\<close> of \<open>ot/user/tcl.hpp\<close>, \<open>parse_int\<close> of \<open>ot/lib/std.cpp\<close>, \<open>atoi\<close> of the
  C library) and the arithmetic of the commands in 32-bit \<open>int\<close>. Signed overflow, division
  by zero and bad shifts have no defined result.
\<close>

unbundle bit_operations_syntax

section \<open>Lists\<close>

definition list_blank :: "char \<Rightarrow> bool" where
  "list_blank c \<longleftrightarrow> c = CHR '' '' \<or> c = CHR 0x09 \<or> c = CHR 0x0A"

text \<open>A braced element: its text, and what is left from the closing brace on.\<close>

fun brace_element :: "nat \<Rightarrow> string \<Rightarrow> string \<times> string" where
  "brace_element n [] = ([], [])"
| "brace_element n (c # cs) =
     (let n' = (if c = CHR ''{'' then n + 1 else if c = CHR ''}'' then n - 1 else n)
      in if n' = 0 then ([], c # cs)
         else let r = brace_element n' cs in (c # fst r, snd r))"

lemma brace_element_shorter: "length (snd (brace_element n s)) \<le> length s"
proof (induction s arbitrary: n)
  case (Cons c cs)
  show ?case by (simp add: Let_def le_SucI [OF Cons.IH])
qed simp

lemma dropWhile_Cons_length: "dropWhile P s = c # cs \<Longrightarrow> length cs < length s"
  by (metis length_Cons length_dropWhile_le less_eq_Suc_le)

function list_parse :: "string \<Rightarrow> string list" where
  "list_parse s =
     (case dropWhile list_blank s of
        [] \<Rightarrow> []
      | c # cs \<Rightarrow>
          if c = CHR ''{''
          then let r = brace_element 1 cs in fst r # list_parse (drop 1 (snd r))
          else (c # takeWhile (\<lambda>d. \<not> list_blank d) cs) # list_parse (dropWhile (\<lambda>d. \<not> list_blank d) cs))"
  by pat_completeness auto

termination
proof (relation "measure length")
  fix s :: string and c cs r
  assume s: "dropWhile list_blank s = c # cs" and r: "r = brace_element 1 cs"
  have "length (drop 1 (snd r)) \<le> length cs"
    using brace_element_shorter [of 1 cs] r by simp
  with dropWhile_Cons_length [OF s] show "(drop 1 (snd r), s) \<in> measure length" by simp
next
  fix s :: string and c cs
  assume "dropWhile list_blank s = c # cs"
  with dropWhile_Cons_length [OF this] length_dropWhile_le [of "\<lambda>d. \<not> list_blank d" cs]
  show "(dropWhile (\<lambda>d. \<not> list_blank d) cs, s) \<in> measure length" by simp
qed simp

declare list_parse.simps [simp del]

definition needs_braces :: "string \<Rightarrow> bool" where
  "needs_braces e \<longleftrightarrow> e = [] \<or> list_ex (\<lambda>c. list_blank c \<or> c = CHR ''{'' \<or> c = CHR ''}'') e"

definition list_element :: "string \<Rightarrow> string" where
  "list_element e = (if needs_braces e then CHR ''{'' # e @ ''}'' else e)"

fun list_format :: "string list \<Rightarrow> string" where
  "list_format [] = []"
| "list_format [e] = list_element e"
| "list_format (e # f # es) = list_element e @ CHR '' '' # list_format (f # es)"

lemma brace_element_balanced:
  "balanced n s \<Longrightarrow> brace_element (Suc n) (s @ CHR ''}'' # r) = (s, CHR ''}'' # r)"
proof (induction s arbitrary: n)
  case (Cons c s)
  then show ?case
    by (cases "c = CHR ''{''"; cases "c = CHR ''}''") (auto simp: Let_def gr0_conv_Suc)
qed simp

lemma list_parse_element:
  assumes "balanced 0 e" and r: "r = [] \<or> (\<exists>c r'. r = c # r' \<and> list_blank c)"
  shows "list_parse (list_element e @ r) = e # list_parse r"
proof (cases "needs_braces e")
  case True
  have "\<not> list_blank (CHR ''{'')" by (simp add: list_blank_def)
  with True brace_element_balanced [OF assms(1), of r] show ?thesis
    by (subst list_parse.simps) (simp add: list_element_def Let_def)
next
  case False
  then obtain c s where e: "e = c # s" by (auto simp: needs_braces_def neq_Nil_conv)
  with False have c: "\<not> list_blank c" "c \<noteq> CHR ''{''" and s: "\<forall>d\<in>set s. \<not> list_blank d"
    by (auto simp: needs_braces_def list_ex_iff)
  have "takeWhile (\<lambda>d. \<not> list_blank d) (s @ r) = s" "dropWhile (\<lambda>d. \<not> list_blank d) (s @ r) = r"
    using s r by (auto simp: takeWhile_append dropWhile_append)
  with c e False show ?thesis
    by (subst list_parse.simps) (simp add: list_element_def)
qed

lemma list_parse_blank: "list_parse (CHR '' '' # s) = list_parse s"
  by (subst (1 2) list_parse.simps) (simp add: list_blank_def)

lemma list_parse_format: "\<forall>e\<in>set es. balanced 0 e \<Longrightarrow> list_parse (list_format es) = es"
proof (induction es rule: list_format.induct)
  case 1
  then show ?case by (simp add: list_parse.simps)
next
  case (2 e)
  then show ?case using list_parse_element [of e "[]"] by (simp add: list_parse.simps [of "[]"])
next
  case (3 e f es)
  have "list_blank (CHR '' '')" by (simp add: list_blank_def)
  with 3 list_parse_element [of e "CHR '' '' # list_format (f # es)"]
  show ?case by (simp add: list_parse_blank)
qed

section \<open>Integers\<close>

definition int_ok :: "int \<Rightarrow> bool" where
  "int_ok i \<longleftrightarrow> - (2 ^ 31) \<le> i \<and> i < 2 ^ 31"

definition chk :: "int \<Rightarrow> int run" where
  "chk i = (if int_ok i then Done i else Undefined Ub_overflow)"

lemma chk_ok [simp]: "int_ok i \<Longrightarrow> chk i = Done i"
  by (simp add: chk_def)

text \<open>\<open>result = result * 10 + digit\<close> over the digits, in \<open>int\<close>.\<close>

fun digits_loop :: "int \<Rightarrow> string \<Rightarrow> int option run" where
  "digits_loop acc [] = Done (Some acc)"
| "digits_loop acc (c # cs) =
     (if \<not> is_digit c then Done None
      else run_bind (chk (acc * 10)) (\<lambda>m. run_bind (chk (m + digit_val c)) (\<lambda>r. digits_loop r cs)))"

definition parse_and_check_int :: "string \<Rightarrow> int option run" where
  "parse_and_check_int s =
     (case s of [] \<Rightarrow> Done None
      | c # cs \<Rightarrow>
          let negative = (c = CHR ''-''); ds = (if c = CHR ''-'' \<or> c = CHR ''+'' then cs else s)
          in if ds = [] then Done None
             else run_bind (digits_loop 0 ds) (\<lambda>r. Done (map_option (\<lambda>v. if negative then - v else v) r)))"

text \<open>\<open>parse_int\<close> of a C string; the bound is checked by a division that rounds down.\<close>

fun parse_int_loop :: "int \<Rightarrow> int \<Rightarrow> string \<Rightarrow> (int \<times> string) option run" where
  "parse_int_loop sign acc [] = Done (Some (acc, []))"
| "parse_int_loop sign acc (c # cs) =
     (if \<not> is_digit c then Done (Some (acc, c # cs))
      else if sign = 1 \<and> acc > (2147483647 - digit_val c) div 10 then Done None
      else if sign = - 1 \<and> acc > (2147483648 - digit_val c) div 10 then Done None
      else run_bind (chk (acc * 10)) (\<lambda>m. run_bind (chk (m + digit_val c)) (\<lambda>r. parse_int_loop sign r cs)))"

definition parse_int :: "string \<Rightarrow> int option run" where
  "parse_int s0 = (let s = cstr s0 in
     case s of [] \<Rightarrow> Done None
      | c # cs \<Rightarrow>
          let sign = (if c = CHR ''-'' then - 1 else 1);
              ds = (if c = CHR ''-'' \<or> c = CHR ''+'' then cs else s)
          in case ds of [] \<Rightarrow> Done None
             | d # _ \<Rightarrow>
                if \<not> is_digit d then Done None
                else run_bind (parse_int_loop sign 0 ds) (\<lambda>r. case r of
                    None \<Rightarrow> Done None
                  | Some (v, rest) \<Rightarrow> if rest \<noteq> [] then Done None else Done (Some (sign * v))))"

text \<open>\<open>atoi\<close>: the value of the longest prefix that is an integer, undefined if it overflows.\<close>

definition is_space :: "char \<Rightarrow> bool" where
  "is_space c \<longleftrightarrow> c = CHR '' '' \<or> 9 \<le> char_val c \<and> char_val c \<le> 13"

definition atoi :: "string \<Rightarrow> int run" where
  "atoi s0 = (let s = dropWhile is_space (cstr s0);
       negative = (case s of [] \<Rightarrow> False | c # _ \<Rightarrow> c = CHR ''-'');
       ds = takeWhile is_digit (case s of [] \<Rightarrow> [] | c # cs \<Rightarrow> if c = CHR ''-'' \<or> c = CHR ''+'' then cs else s);
       v = foldl (\<lambda>a d. a * 10 + digit_val d) 0 ds
     in chk (if negative then - v else v))"

section \<open>Arithmetic in \<open>int\<close>\<close>

text \<open>C++ division rounds towards zero; \<open>INT_MIN / -1\<close> overflows.\<close>

definition quot :: "int \<Rightarrow> int \<Rightarrow> int" where
  "quot a b = (if (a < 0) = (b < 0) then \<bar>a\<bar> div \<bar>b\<bar> else - (\<bar>a\<bar> div \<bar>b\<bar>))"

definition op_add :: "int \<Rightarrow> int \<Rightarrow> int run" where "op_add a b = chk (a + b)"
definition op_sub :: "int \<Rightarrow> int \<Rightarrow> int run" where "op_sub a b = chk (a - b)"
definition op_mul :: "int \<Rightarrow> int \<Rightarrow> int run" where "op_mul a b = chk (a * b)"

definition op_div :: "int \<Rightarrow> int \<Rightarrow> int run" where
  "op_div a b = (if b = 0 then Undefined Ub_division else chk (quot a b))"

definition op_mod :: "int \<Rightarrow> int \<Rightarrow> int run" where
  "op_mod a b = (if b = 0 then Undefined Ub_division
                 else run_bind (chk (quot a b)) (\<lambda>q. Done (a - q * b)))"

definition op_and :: "int \<Rightarrow> int \<Rightarrow> int run" where
  "op_and a b = Done (a AND b)"

text \<open>Shifts by the rules of C++17, which the compilers of the build default to.\<close>

definition op_shl :: "int \<Rightarrow> int \<Rightarrow> int run" where
  "op_shl a b =
     (if b < 0 \<or> b \<ge> 32 \<or> a < 0 \<or> a * 2 ^ nat b \<ge> 2 ^ 32 then Undefined Ub_shift
      else Done (let v = a * 2 ^ nat b in if v \<ge> 2 ^ 31 then v - 2 ^ 32 else v))"

definition op_shr :: "int \<Rightarrow> int \<Rightarrow> int run" where
  "op_shr a b = (if b < 0 \<or> b \<ge> 32 then Undefined Ub_shift else Done (a div 2 ^ nat b))"

definition of_bool_int :: "bool \<Rightarrow> int" where
  "of_bool_int b = (if b then 1 else 0)"

text \<open>
  The number conversion commands read digits of base 16, 8 or 2 into an \<open>intptr_t\<close>, which
  has 32 bits on the targets.
\<close>

definition hex_digit :: "char \<Rightarrow> int option" where
  "hex_digit c = (let n = int (char_val c) in
     if 48 \<le> n \<and> n \<le> 57 then Some (n - 48)
     else if 97 \<le> n \<and> n \<le> 102 then Some (n - 97 + 10)
     else if 65 \<le> n \<and> n \<le> 70 then Some (n - 65 + 10) else None)"

definition oct_digit :: "char \<Rightarrow> int option" where
  "oct_digit c = (let n = int (char_val c) in if 48 \<le> n \<and> n \<le> 55 then Some (n - 48) else None)"

definition bin_digit :: "char \<Rightarrow> int option" where
  "bin_digit c = (let n = int (char_val c) in if n = 48 \<or> n = 49 then Some (n - 48) else None)"

text \<open>\<open>Inr\<close> the value, \<open>Inl c\<close> the first character that is no digit.\<close>

fun base_loop :: "(char \<Rightarrow> int option) \<Rightarrow> int \<Rightarrow> int \<Rightarrow> string \<Rightarrow> (char + int) run" where
  "base_loop dig base acc [] = Done (Inr acc)"
| "base_loop dig base acc (c # cs) =
     (case dig c of None \<Rightarrow> Done (Inl c)
      | Some d \<Rightarrow> run_bind (chk (acc * base)) (\<lambda>m. run_bind (chk (m + d)) (\<lambda>r. base_loop dig base r cs)))"

definition strip_prefix :: "char \<Rightarrow> char \<Rightarrow> string \<Rightarrow> string" where
  "strip_prefix lower upper s =
     (if length s > 2 \<and> s ! 0 = CHR ''0'' \<and> (s ! 1 = lower \<or> s ! 1 = upper) then drop 2 s else s)"

section \<open>Decimal numbers are read back\<close>

lemma digits_loop_append:
  "digits_loop a (xs @ ys) =
   run_bind (digits_loop a xs) (\<lambda>r. case r of None \<Rightarrow> Done None | Some v \<Rightarrow> digits_loop v ys)"
proof (induction xs arbitrary: a)
  case (Cons x xs)
  then show ?case by (auto simp: chk_def)
qed simp

lemma digits_loop_dec: "int n < 2 ^ 31 \<Longrightarrow> digits_loop 0 (dec_nat n) = Done (Some (int n))"
proof (induction n rule: dec_nat.induct)
  case (1 n)
  show ?case
  proof (cases "n < 10")
    case True
    then show ?thesis
      by (simp add: dec_nat.simps [of n] is_digit_digit_char digit_val_digit_char int_ok_def)
  next
    case False
    have "int (n div 10) * 10 \<le> int n" by linarith
    then have ok: "int_ok (int (n div 10) * 10)" "int_ok (int n)" "int (n div 10) < 2 ^ 31"
      using 1(2) by (auto simp: int_ok_def)
    have "int (n div 10) * 10 + int (n mod 10) = int n"
      by (metis div_mult_mod_eq of_nat_add of_nat_mult of_nat_numeral)
    with 1(1) [OF False ok(3)] False ok show ?thesis
      by (simp add: dec_nat.simps [of n] digits_loop_append is_digit_digit_char digit_val_digit_char)
  qed
qed

lemma dec_nat_sign: "\<exists>c cs. dec_nat n = c # cs \<and> is_digit c \<and> c \<noteq> CHR ''-'' \<and> c \<noteq> CHR ''+''"
proof (cases "dec_nat n")
  case Nil
  then show ?thesis using dec_nat_nonempty by simp
next
  case (Cons c cs)
  then have "is_digit c" using dec_nat_digits [of c n] by simp
  moreover have "\<not> is_digit (CHR ''-'')" "\<not> is_digit (CHR ''+'')" by (simp_all add: is_digit_def char_val_def)
  ultimately show ?thesis using Cons by auto
qed

lemma parse_dec_int:
  assumes "- (2 ^ 31) < i" and "i < 2 ^ 31"
  shows "parse_and_check_int (dec_int i) = Done (Some i)"
proof (cases "i < 0")
  case True
  then have "digits_loop 0 (dec_nat (nat (- i))) = Done (Some (- i))"
    using assms digits_loop_dec [of "nat (- i)"] by simp
  with True show ?thesis by (simp add: parse_and_check_int_def dec_int_def dec_nat_nonempty)
next
  case False
  then have "digits_loop 0 (dec_nat (nat i)) = Done (Some i)"
    using assms digits_loop_dec [of "nat i"] by simp
  moreover obtain c cs where "dec_nat (nat i) = c # cs" "c \<noteq> CHR ''-''" "c \<noteq> CHR ''+''"
    using dec_nat_sign by blast
  ultimately show ?thesis using False by (simp add: parse_and_check_int_def dec_int_def)
qed

lemma foldl_dec: "foldl (\<lambda>a d. a * 10 + digit_val d) 0 (dec_nat n) = int n"
proof (induction n rule: dec_nat.induct)
  case (1 n)
  show ?case
  proof (cases "n < 10")
    case True
    then show ?thesis by (simp add: dec_nat.simps [of n] digit_val_digit_char)
  next
    case False
    have "int (n div 10) * 10 + int (n mod 10) = int n"
      by (metis div_mult_mod_eq of_nat_add of_nat_mult of_nat_numeral)
    with 1(1) [OF False] False show ?thesis
      by (simp add: dec_nat.simps [of n] digit_val_digit_char)
  qed
qed

lemma digit_plain: "is_digit c \<Longrightarrow> c \<noteq> nul \<and> \<not> is_space c"
  by (auto simp: is_digit_def is_space_def nul_def char_val_def)

lemma dec_nat_plain: "nul \<notin> set (dec_nat n)" "takeWhile is_digit (dec_nat n) = dec_nat n"
  using dec_nat_digits [of _ n] digit_plain by (auto simp: takeWhile_eq_all_conv)

lemma atoi_dec_int:
  assumes "int_ok i"
  shows "atoi (dec_int i) = Done i"
proof -
  have sp: "\<not> is_space (CHR ''-'')" by (simp add: is_space_def char_val_def)
  have ne: "CHR ''-'' \<noteq> nul" by (simp add: nul_def)
  show ?thesis
  proof (cases "i < 0")
    case True
    then show ?thesis using assms sp ne
      by (simp add: atoi_def dec_int_def foldl_dec dec_nat_plain)
  next
    case False
    obtain c cs where c: "dec_nat (nat i) = c # cs" "is_digit c" "c \<noteq> CHR ''-''" "c \<noteq> CHR ''+''"
      using dec_nat_sign by blast
    then have "dropWhile is_space (dec_nat (nat i)) = dec_nat (nat i)" using digit_plain by simp
    with False c(3,4) assms show ?thesis
      by (cases "dec_nat (nat i)")
        (use c(1) dec_nat_plain [of "nat i"] foldl_dec [of "nat i"] in \<open>auto simp: atoi_def dec_int_def\<close>)
  qed
qed

section \<open>Properties\<close>

text \<open>C38. A list of elements whose braces balance, formatted by \<open>list_format\<close>, is parsed back by
  \<open>list_parse\<close> element by element, empty elements and elements with blanks included.\<close>

theorem list_roundtrip: "\<forall>e\<in>set es. balanced 0 e \<Longrightarrow> list_parse (list_format es) = es"
  by (rule list_parse_format)

theorem list_roundtrip_witness:
  "list_parse (list_format [''a b'', '''', ''{x} y'', ''z'']) = [''a b'', '''', ''{x} y'', ''z'']"
  using list_roundtrip [of "[''a b'', '''', ''{x} y'', ''z'']"] by simp

text \<open>Without the balance the round trip fails: one element with a lone brace swallows the
  element after it or is cut short.\<close>

theorem list_roundtrip_unbalanced:
  "list_parse (list_format [''a{'', ''b'']) = [''a{} b''] \<and>
   list_parse (list_format [''a}b'', ''c'']) = [''a'', ''b}'', ''c'']"
  by code_simp

text \<open>The integers the commands print are read back by the operand check of the arithmetic
  commands and by \<open>atoi\<close>; only the smallest \<open>int\<close> cannot be an operand again: its digits
  overflow before the sign is applied.\<close>

theorem int_print_parse:
  assumes "int_ok i"
  shows "atoi (dec_int i) = Done i \<and>
    parse_and_check_int (dec_int i) = (if i = - (2 ^ 31) then Undefined Ub_overflow else Done (Some i))"
proof (cases "i = - (2 ^ 31)")
  case True
  have "dec_int (- (2 ^ 31)) = ''-2147483648''"
    by (simp add: dec_int_def dec_nat.simps digit_char_def, code_simp)
  moreover have "parse_and_check_int ''-2147483648'' = Undefined Ub_overflow" by code_simp
  ultimately have "parse_and_check_int (dec_int (- (2 ^ 31))) = Undefined Ub_overflow" by simp
  with True assms show ?thesis by (simp add: atoi_dec_int)
next
  case False
  with assms show ?thesis using parse_dec_int [of i] by (auto simp: int_ok_def atoi_dec_int)
qed

theorem int_print_parse_witness:
  "atoi (dec_int (- 42)) = Done (- 42) \<and> parse_and_check_int (dec_int (- 42)) = Done (Some (- 42))"
  using int_print_parse [of "- 42"] by (simp add: int_ok_def)

end
