(* ===== verification/Mpack.thy ===== *)
theory Mpack
  imports Prelude
begin

text \<open>
  The MessagePack writer and reader (\<open>ot/lib/mpack/mpack-writer.hpp\<close>,
  \<open>ot/lib/mpack/mpack-reader.cpp\<close>) on top of the token coder of libmpack
  (\<open>ot/vendor/libmpack/core.c\<close>, \<open>conv.c\<close>). Both wrappers stop at the first token that is
  not complete, so the resumption state of the token buffer is never used again and is
  left out; \<open>passthrough\<close>, the bytes of a blob still to be delivered, is kept.
\<close>

unbundle bit_operations_syntax

type_synonym byte = "8 word"

definition byte_of :: "char \<Rightarrow> byte" where
  "byte_of c = of_nat (char_val c)"

definition bytes_of :: "string \<Rightarrow> byte list" where
  "bytes_of s = map byte_of s"

section \<open>Tokens\<close>

datatype ttype = MT_NIL | MT_BOOLEAN | MT_UINT | MT_SINT | MT_FLOAT | MT_CHUNK | MT_ARRAY
  | MT_MAP | MT_BIN | MT_STR | MT_EXT

record mtoken =
  mt_type :: ttype
  mt_length :: "32 word"
  mt_hi :: "32 word"
  mt_lo :: "32 word"
  mt_chunk :: "byte list"
  mt_ext :: "32 word"

definition blank_token :: mtoken where
  "blank_token = \<lparr>mt_type = MT_NIL, mt_length = 0, mt_hi = 0, mt_lo = 0, mt_chunk = [], mt_ext = 0\<rparr>"

definition pack_nil :: mtoken where
  "pack_nil = blank_token\<lparr>mt_type := MT_NIL\<rparr>"

definition pack_boolean :: "bool \<Rightarrow> mtoken" where
  "pack_boolean v = blank_token\<lparr>mt_type := MT_BOOLEAN, mt_lo := (if v then 1 else 0)\<rparr>"

definition pack_uint :: "64 word \<Rightarrow> mtoken" where
  "pack_uint v = blank_token\<lparr>mt_type := MT_UINT, mt_lo := ucast (v AND 0xffffffff),
     mt_hi := ucast (drop_bit 1 (drop_bit 31 v))\<rparr>"

definition pack_sint :: "64 word \<Rightarrow> mtoken" where
  "pack_sint v =
     (if v <s 0
      then let tc = - (v + 1) + 1; tc = NOT tc + 1 in (pack_uint tc)\<lparr>mt_type := MT_SINT\<rparr>
      else pack_uint v)"

definition pack_blob :: "ttype \<Rightarrow> 32 word \<Rightarrow> mtoken" where
  "pack_blob t l = blank_token\<lparr>mt_type := t, mt_length := l\<rparr>"

definition pack_chunk :: "byte list \<Rightarrow> mtoken" where
  "pack_chunk bs = blank_token\<lparr>mt_type := MT_CHUNK, mt_length := of_nat (length bs), mt_chunk := bs\<rparr>"

definition unpack_boolean :: "mtoken \<Rightarrow> bool" where
  "unpack_boolean t \<longleftrightarrow> mt_lo t \<noteq> 0 \<or> mt_hi t \<noteq> 0"

definition unpack_sint :: "mtoken \<Rightarrow> int" where
  "unpack_sint t =
     (let rv = ucast (mt_lo t) :: 64 word;
          rv = (if mt_length t = 8 then rv OR push_bit 1 (push_bit 31 (ucast (mt_hi t))) else rv);
          rv = (NOT rv AND (push_bit (unat (mt_length t) * 8 - 1) 1 - 1)) + 1
      in - uint (rv - 1) - 1)"

section \<open>Encoding\<close>

definition w1 :: "32 word \<Rightarrow> byte list" where
  "w1 v = [ucast v]"

definition w2 :: "32 word \<Rightarrow> byte list" where
  "w2 v = [ucast (drop_bit 8 v), ucast v]"

definition w4 :: "32 word \<Rightarrow> byte list" where
  "w4 v = [ucast (drop_bit 24 v), ucast (drop_bit 16 v), ucast (drop_bit 8 v), ucast v]"

definition wpint :: "32 word \<Rightarrow> 32 word \<Rightarrow> byte list" where
  "wpint hi lo =
     (if hi \<noteq> 0 then w1 0xcf @ w4 hi @ w4 lo
      else if lo > 0xffff then w1 0xce @ w4 lo
      else if lo > 0xff then w1 0xcd @ w2 lo
      else if lo > 0x7f then w1 0xcc @ w1 lo
      else w1 lo)"

definition wnint :: "32 word \<Rightarrow> 32 word \<Rightarrow> byte list" where
  "wnint hi lo =
     (if lo < 0x80000000 then w1 0xd3 @ w4 hi @ w4 lo
      else if lo < 0xffff7fff then w1 0xd2 @ w4 lo
      else if lo < 0xffffff7f then w1 0xd1 @ w2 lo
      else if lo < 0xffffffe0 then w1 0xd0 @ w1 lo
      else w1 (0x100 + lo))"

definition wstr :: "32 word \<Rightarrow> byte list" where
  "wstr len =
     (if len < 0x20 then w1 (0xa0 OR len)
      else if len < 0x100 then w1 0xd9 @ w1 len
      else if len < 0x10000 then w1 0xda @ w2 len
      else w1 0xdb @ w4 len)"

definition wbin :: "32 word \<Rightarrow> byte list" where
  "wbin len =
     (if len < 0x100 then w1 0xc4 @ w1 len
      else if len < 0x10000 then w1 0xc5 @ w2 len
      else w1 0xc6 @ w4 len)"

definition warray :: "32 word \<Rightarrow> byte list" where
  "warray len =
     (if len < 0x10 then w1 (0x90 OR len)
      else if len < 0x10000 then w1 0xdc @ w2 len
      else w1 0xdd @ w4 len)"

definition wmap :: "32 word \<Rightarrow> byte list" where
  "wmap len =
     (if len < 0x10 then w1 (0x80 OR len)
      else if len < 0x10000 then w1 0xde @ w2 len
      else w1 0xdf @ w4 len)"

text \<open>The bytes of the tokens the writer produces (it packs no floats and no extensions).\<close>

definition wtoken :: "mtoken \<Rightarrow> byte list" where
  "wtoken t = (case mt_type t of
       MT_NIL \<Rightarrow> w1 0xc0
     | MT_BOOLEAN \<Rightarrow> w1 (if mt_lo t \<noteq> 0 then 0xc3 else 0xc2)
     | MT_UINT \<Rightarrow> wpint (mt_hi t) (mt_lo t)
     | MT_SINT \<Rightarrow> wnint (mt_hi t) (mt_lo t)
     | MT_BIN \<Rightarrow> wbin (mt_length t)
     | MT_STR \<Rightarrow> wstr (mt_length t)
     | MT_ARRAY \<Rightarrow> warray (mt_length t)
     | MT_MAP \<Rightarrow> wmap (mt_length t)
     | MT_CHUNK \<Rightarrow> mt_chunk t
     | _ \<Rightarrow> [])"

section \<open>The writer\<close>

text \<open>The bytes in the buffer so far, its capacity, and the error flag.\<close>

record mpack_writer =
  mw_bytes :: "byte list"
  mw_capacity :: nat
  mw_error :: bool

definition mw_default :: mpack_writer where
  "mw_default = \<lparr>mw_bytes = [], mw_capacity = 0, mw_error = True\<rparr>"

definition mw_init :: "nat \<Rightarrow> mpack_writer" where
  "mw_init n = \<lparr>mw_bytes = [], mw_capacity = n, mw_error = False\<rparr>"

definition mw_reset :: "mpack_writer \<Rightarrow> mpack_writer" where
  "mw_reset w = w\<lparr>mw_bytes := [], mw_error := False\<rparr>"

definition mw_remaining :: "mpack_writer \<Rightarrow> nat" where
  "mw_remaining w = mw_capacity w - length (mw_bytes w)"

definition mw_size :: "mpack_writer \<Rightarrow> nat" where
  "mw_size w = mw_capacity w - mw_remaining w"

text \<open>\<open>write_token\<close>: as many bytes of the token as fit, and an error if some did not.\<close>

definition mw_token :: "mpack_writer \<Rightarrow> mtoken \<Rightarrow> mpack_writer" where
  "mw_token w t =
     (if mw_error w then w
      else let bs = wtoken t; n = min (length bs) (mw_remaining w)
           in w\<lparr>mw_bytes := mw_bytes w @ take n bs, mw_error := n < length bs\<rparr>)"

definition mw_nil :: "mpack_writer \<Rightarrow> mpack_writer" where
  "mw_nil w = mw_token w pack_nil"

definition mw_bool :: "mpack_writer \<Rightarrow> bool \<Rightarrow> mpack_writer" where
  "mw_bool w v = mw_token w (pack_boolean v)"

definition mw_uint :: "mpack_writer \<Rightarrow> 32 word \<Rightarrow> mpack_writer" where
  "mw_uint w v = mw_token w (pack_uint (ucast v))"

definition mw_int :: "mpack_writer \<Rightarrow> 32 word \<Rightarrow> mpack_writer" where
  "mw_int w v = mw_token w (pack_sint (scast v))"

definition mw_str :: "mpack_writer \<Rightarrow> byte list \<Rightarrow> mpack_writer" where
  "mw_str w s =
     (if mw_error w then w
      else mw_token (mw_token w (pack_blob MT_STR (of_nat (length s)))) (pack_chunk s))"

definition mw_cstr :: "mpack_writer \<Rightarrow> string option \<Rightarrow> mpack_writer" where
  "mw_cstr w s = (case s of None \<Rightarrow> w
     | Some x \<Rightarrow> if mw_error w then w else mw_str w (bytes_of (cstr x)))"

definition mw_bin :: "mpack_writer \<Rightarrow> byte list \<Rightarrow> mpack_writer" where
  "mw_bin w s =
     (if mw_error w then w
      else mw_token (mw_token w (pack_blob MT_BIN (of_nat (length s)))) (pack_chunk s))"

definition mw_array :: "mpack_writer \<Rightarrow> 32 word \<Rightarrow> mpack_writer" where
  "mw_array w n = mw_token w (pack_blob MT_ARRAY n)"

definition mw_map :: "mpack_writer \<Rightarrow> 32 word \<Rightarrow> mpack_writer" where
  "mw_map w n = mw_token w (pack_blob MT_MAP n)"

definition mw_stringarray :: "mpack_writer \<Rightarrow> string list \<Rightarrow> mpack_writer" where
  "mw_stringarray w argv =
     fold (\<lambda>s w. mw_cstr w (Some s)) argv (mw_array w (of_nat (length argv)))"

section \<open>Decoding\<close>

datatype rresult = R_ok mtoken "byte list" | R_eof | R_error

fun rv_loop :: "nat \<Rightarrow> byte list \<Rightarrow> 32 word \<Rightarrow> 32 word \<Rightarrow> (32 word \<times> 32 word) \<times> byte list" where
  "rv_loop (Suc r) (b # bs) hi lo =
     (let lo' = lo OR push_bit (r mod 4 * 8) (ucast b)
      in if r = 4 then rv_loop r bs lo' 0 else rv_loop r bs hi lo')"
| "rv_loop _ bs hi lo = ((hi, lo), bs)"

definition rvalue :: "ttype \<Rightarrow> nat \<Rightarrow> byte list \<Rightarrow> rresult" where
  "rvalue t n bs =
     (if length bs < n then R_eof
      else let r = rv_loop n bs 0 0; hi = fst (fst r); lo = snd (fst r);
               msb = (n = 8 \<and> drop_bit 31 hi \<noteq> 0 \<or> n = 4 \<and> drop_bit 31 lo \<noteq> 0 \<or>
                      n = 2 \<and> drop_bit 15 lo \<noteq> 0 \<or> n = 1 \<and> drop_bit 7 lo \<noteq> 0);
               t' = (if t = MT_SINT \<and> \<not> msb then MT_UINT else t)
           in R_ok (blank_token\<lparr>mt_type := t', mt_length := of_nat n, mt_hi := hi, mt_lo := lo\<rparr>) (snd r))"

definition rblob :: "ttype \<Rightarrow> nat \<Rightarrow> byte list \<Rightarrow> rresult" where
  "rblob t n bs =
     (if length bs < n + (if t = MT_EXT then 1 else 0) then R_eof
      else let r = rv_loop n bs 0 0;
               tok = blank_token\<lparr>mt_type := t, mt_length := snd (fst r)\<rparr>
           in if t = MT_EXT then R_ok (tok\<lparr>mt_ext := ucast (hd (snd r))\<rparr>) (tl (snd r))
              else R_ok tok (snd r))"

definition small :: "ttype \<Rightarrow> 32 word \<Rightarrow> 32 word \<Rightarrow> mtoken" where
  "small t len lo = blank_token\<lparr>mt_type := t, mt_length := len, mt_lo := lo\<rparr>"

text \<open>\<open>TLEN(val, start)\<close>.\<close>

definition tlen :: "nat \<Rightarrow> nat \<Rightarrow> nat" where
  "tlen v start = 2 ^ (v - start)"

definition rtoken :: "byte \<Rightarrow> byte list \<Rightarrow> rresult" where
  "rtoken b bs = (let t = unat b; w = ucast b :: 32 word in
     if t < 0x80 then R_ok (small MT_UINT 1 w) bs
     else if t < 0x90 then R_ok (small MT_MAP (w AND 0xf) 0) bs
     else if t < 0xa0 then R_ok (small MT_ARRAY (w AND 0xf) 0) bs
     else if t < 0xc0 then R_ok (small MT_STR (w AND 0x1f) 0) bs
     else if t < 0xe0 then
       (if t = 0xc0 then R_ok (small MT_NIL 0 0) bs
        else if t = 0xc2 then R_ok (small MT_BOOLEAN 1 0) bs
        else if t = 0xc3 then R_ok (small MT_BOOLEAN 1 1) bs
        else if 0xc4 \<le> t \<and> t \<le> 0xc6 then rblob MT_BIN (tlen t 0xc4) bs
        else if 0xc7 \<le> t \<and> t \<le> 0xc9 then rblob MT_EXT (tlen t 0xc7) bs
        else if t = 0xca \<or> t = 0xcb then rvalue MT_FLOAT (tlen t 0xc8) bs
        else if 0xcc \<le> t \<and> t \<le> 0xcf then rvalue MT_UINT (tlen t 0xcc) bs
        else if 0xd0 \<le> t \<and> t \<le> 0xd3 then rvalue MT_SINT (tlen t 0xd0) bs
        else if 0xd4 \<le> t \<and> t \<le> 0xd8 then
          (case bs of [] \<Rightarrow> R_eof
           | e # bs' \<Rightarrow> R_ok ((small MT_EXT (of_nat (tlen t 0xd4)) 0)\<lparr>mt_ext := ucast e\<rparr>) bs')
        else if 0xd9 \<le> t \<and> t \<le> 0xdb then rblob MT_STR (tlen t 0xd9) bs
        else if t = 0xdc \<or> t = 0xdd then rblob MT_ARRAY (tlen t 0xdb) bs
        else if t = 0xde \<or> t = 0xdf then rblob MT_MAP (tlen t 0xdd) bs
        else R_error)
     else R_ok (small MT_SINT 1 w) bs)"

section \<open>The reader\<close>

record mpack_reader =
  mr_buf :: "byte list"
  mr_pass :: "32 word"
  mr_error :: bool

definition mr_new :: "byte list \<Rightarrow> mpack_reader" where
  "mr_new bs = \<lparr>mr_buf = bs, mr_pass = 0, mr_error = False\<rparr>"

definition is_blob :: "ttype \<Rightarrow> bool" where
  "is_blob t \<longleftrightarrow> t = MT_BIN \<or> t = MT_STR \<or> t = MT_EXT"

text \<open>
  \<open>read_next\<close>: the rest of a blob is delivered as one chunk, cut to what the buffer holds;
  a token is read from the buffer whether or not there is a byte left in it.
\<close>

definition read_next :: "mpack_reader \<Rightarrow> (mpack_reader \<times> mtoken option) run" where
  "read_next r =
     (if mr_error r then Done (r, None)
      else if mr_pass r \<noteq> 0
      then let n = min (length (mr_buf r)) (unat (mr_pass r));
               tok = blank_token\<lparr>mt_type := MT_CHUNK, mt_length := of_nat n, mt_chunk := take n (mr_buf r)\<rparr>
           in Done (r\<lparr>mr_buf := drop n (mr_buf r), mr_pass := mr_pass r - of_nat n\<rparr>, Some tok)
      else case mr_buf r of [] \<Rightarrow> Undefined Ub_view
       | b # bs \<Rightarrow>
          (case rtoken b bs of
             R_ok tok rest \<Rightarrow>
               Done (r\<lparr>mr_buf := rest, mr_pass := (if is_blob (mt_type tok) then mt_length tok else 0)\<rparr>, Some tok)
           | _ \<Rightarrow> Done (r\<lparr>mr_error := True\<rparr>, None)))"

definition mr_fail :: "mpack_reader \<Rightarrow> (mpack_reader \<times> 'a option) run" where
  "mr_fail r = Done (r\<lparr>mr_error := True\<rparr>, None)"

text \<open>The pattern of the typed reads: the next token, which \<open>f\<close> accepts or not.\<close>

definition read_as :: "(mtoken \<Rightarrow> 'a option) \<Rightarrow> mpack_reader \<Rightarrow> (mpack_reader \<times> 'a option) run" where
  "read_as f r = run_bind (read_next r) (\<lambda>(r', t).
     case t of None \<Rightarrow> mr_fail r'
     | Some tok \<Rightarrow> (case f tok of None \<Rightarrow> mr_fail r' | Some x \<Rightarrow> Done (r', Some x)))"

definition read_nil :: "mpack_reader \<Rightarrow> (mpack_reader \<times> unit option) run" where
  "read_nil = read_as (\<lambda>t. if mt_type t = MT_NIL then Some () else None)"

definition read_bool :: "mpack_reader \<Rightarrow> (mpack_reader \<times> bool option) run" where
  "read_bool = read_as (\<lambda>t. if mt_type t = MT_BOOLEAN then Some (unpack_boolean t) else None)"

definition read_uint :: "mpack_reader \<Rightarrow> (mpack_reader \<times> 32 word option) run" where
  "read_uint = read_as (\<lambda>t. if mt_type t = MT_UINT \<and> mt_hi t = 0 then Some (mt_lo t) else None)"

definition read_int :: "mpack_reader \<Rightarrow> (mpack_reader \<times> int option) run" where
  "read_int = read_as (\<lambda>t.
     if mt_type t = MT_UINT
     then (if mt_hi t \<noteq> 0 \<or> mt_lo t > 0x7fffffff then None else Some (uint (mt_lo t)))
     else if mt_type t = MT_SINT
     then (let v = unpack_sint t in if v < - 2147483648 \<or> v > 2147483647 then None else Some v)
     else None)"

text \<open>
  Reading a blob: the length of its header and the bytes of the chunk that follows. The
  view the source returns has the length of the header and starts at the chunk.
\<close>

definition read_blob :: "ttype \<Rightarrow> mpack_reader \<Rightarrow> (mpack_reader \<times> (nat \<times> byte list) option) run" where
  "read_blob ty r = run_bind (read_as (\<lambda>t. if mt_type t = ty then Some (unat (mt_length t)) else None) r)
     (\<lambda>(r', l). case l of None \<Rightarrow> Done (r', None)
      | Some len \<Rightarrow> read_as (\<lambda>t. if mt_type t = MT_CHUNK then Some (len, mt_chunk t) else None) r')"

definition read_string :: "mpack_reader \<Rightarrow> (mpack_reader \<times> (nat \<times> byte list) option) run" where
  "read_string = read_blob MT_STR"

definition read_bin :: "mpack_reader \<Rightarrow> (mpack_reader \<times> (nat \<times> byte list) option) run" where
  "read_bin = read_blob MT_BIN"

definition enter_array :: "mpack_reader \<Rightarrow> (mpack_reader \<times> nat option) run" where
  "enter_array = read_as (\<lambda>t. if mt_type t = MT_ARRAY then Some (unat (mt_length t)) else None)"

definition enter_map :: "mpack_reader \<Rightarrow> (mpack_reader \<times> nat option) run" where
  "enter_map = read_as (\<lambda>t. if mt_type t = MT_MAP then Some (unat (mt_length t)) else None)"

fun read_strings :: "nat \<Rightarrow> mpack_reader \<Rightarrow> (mpack_reader \<times> (nat \<times> byte list) list option) run" where
  "read_strings 0 r = Done (r, Some [])"
| "read_strings (Suc n) r = run_bind (read_string r) (\<lambda>(r', s).
     case s of None \<Rightarrow> Done (r', None)
     | Some x \<Rightarrow> run_bind (read_strings n r') (\<lambda>(r'', xs). Done (r'', map_option ((#) x) xs)))"

definition read_stringarray :: "nat \<Rightarrow> mpack_reader \<Rightarrow> (mpack_reader \<times> (nat \<times> byte list) list option) run" where
  "read_stringarray max_count r = run_bind (enter_array r) (\<lambda>(r', c).
     case c of None \<Rightarrow> Done (r', None)
     | Some n \<Rightarrow> if n > max_count then mr_fail r' else read_strings n r')"

definition read_args_map :: "nat \<Rightarrow> mpack_reader \<Rightarrow> (mpack_reader \<times> (nat \<times> byte list) list option) run" where
  "read_args_map max_args r = run_bind (enter_map r) (\<lambda>(r1, c).
     case c of None \<Rightarrow> Done (r1, None)
     | Some n \<Rightarrow>
        if n \<noteq> 1 then mr_fail r1
        else run_bind (read_string r1) (\<lambda>(r2, k).
          case k of None \<Rightarrow> Done (r2, None)
          | Some (len, bs) \<Rightarrow>
             if len \<noteq> 4 \<or> bs \<noteq> take (length bs) (bytes_of ''args'') then mr_fail r2
             else if length bs < 4 then Undefined Ub_view
             else read_stringarray max_args r2))"

text \<open>\<open>peek_type\<close>; \<open>None\<close> is the invalid type 0.\<close>

definition peek_type :: "mpack_reader \<Rightarrow> ttype option" where
  "peek_type r =
     (if mr_error r then None
      else case mr_buf r of [] \<Rightarrow> None
      | b # _ \<Rightarrow> (let t = unat b in
          if t < 0x80 then Some MT_UINT
          else if t < 0x90 then Some MT_MAP
          else if t < 0xa0 then Some MT_ARRAY
          else if t < 0xc0 then Some MT_STR
          else if t = 0xc0 then Some MT_NIL
          else if t = 0xc2 \<or> t = 0xc3 then Some MT_BOOLEAN
          else if 0xc4 \<le> t \<and> t \<le> 0xc6 then Some MT_BIN
          else if 0xcc \<le> t \<and> t \<le> 0xcf then Some MT_UINT
          else if 0xd0 \<le> t \<and> t \<le> 0xd3 then Some MT_SINT
          else if 0xd9 \<le> t \<and> t \<le> 0xdb then Some MT_STR
          else if t = 0xdc \<or> t = 0xdd then Some MT_ARRAY
          else if t = 0xde \<or> t = 0xdf then Some MT_MAP
          else None))"

section \<open>What is written is read back\<close>

definition decode :: "byte list \<Rightarrow> rresult" where
  "decode bs = (case bs of [] \<Rightarrow> R_eof | b # bs' \<Rightarrow> rtoken b bs')"

lemma decode_Cons [simp]: "decode (b # bs) = rtoken b bs"
  by (simp add: decode_def)

lemma word_bit_lt:
  fixes v :: "32 word"
  assumes "unat v < 2 ^ k" and "bit v n"
  shows "n < k"
proof (rule ccontr)
  assume "\<not> n < k"
  then have "(2::nat) ^ k \<le> 2 ^ n" by (intro power_increasing) auto
  with assms(1) have "unat v < 2 ^ n" by (rule less_le_trans)
  then have "unat v div 2 ^ n = 0" by simp
  moreover have "bit (unat v) n" using assms(2) by (simp add: bit_unsigned_iff)
  ultimately show False by (simp add: bit_iff_odd)
qed

lemma bit_byte_at:
  fixes v :: "32 word"
  assumes "n < 32"
  shows "bit (push_bit k (ucast (ucast (drop_bit k v) :: byte)) :: 32 word) n \<longleftrightarrow>
    k \<le> n \<and> n < k + 8 \<and> bit v n"
proof (cases "k \<le> n")
  case True
  then have "k + (n - k) = n" "n - k < 8 \<longleftrightarrow> n < k + 8" by auto
  with True assms show ?thesis by (auto simp: bit_simps)
qed (simp add: bit_simps)

lemma bit_byte_at_0:
  fixes v :: "32 word"
  assumes "n < 32"
  shows "bit (ucast (ucast v :: byte) :: 32 word) n \<longleftrightarrow> n < 8 \<and> bit v n"
  using bit_byte_at [OF assms, of 0 v] by simp

lemma byte_ranges_4:
  "n < 32 \<Longrightarrow> n < 8 \<or> 8 \<le> n \<and> n < 16 \<or> 16 \<le> n \<and> n < 24 \<or> 24 \<le> (n::nat) \<Longrightarrow>
   (24 \<le> n \<and> n < 24 + 8 \<and> b \<or> 16 \<le> n \<and> n < 16 + 8 \<and> b \<or> 8 \<le> n \<and> n < 8 + 8 \<and> b \<or> n < 8 \<and> b) = b"
  by auto

lemma byte_ranges_2:
  "(b \<Longrightarrow> n < 16) \<Longrightarrow> (8 \<le> n \<and> n < 8 + 8 \<and> b \<or> (n::nat) < 8 \<and> b) = b"
  by auto

lemma rv_loop_bytes:
  "rv_loop (Suc 0) (a # rest) 0 0 = ((0, ucast a), rest)"
  "rv_loop (Suc (Suc 0)) (a # b # rest) 0 0 = ((0, push_bit 8 (ucast a) OR ucast b), rest)"
  "rv_loop (Suc (Suc (Suc (Suc 0)))) (a # b # c # d # rest) 0 0 =
     ((0, push_bit 24 (ucast a) OR push_bit 16 (ucast b) OR push_bit 8 (ucast c) OR ucast d), rest)"
  by (simp_all add: Let_def or.assoc)

lemma rv_loop_4: "rv_loop 4 (w4 v @ rest) 0 0 = ((0, v), rest)"
proof -
  have "push_bit 24 (ucast (ucast (drop_bit 24 v) :: byte)) OR
      push_bit 16 (ucast (ucast (drop_bit 16 v) :: byte)) OR
      push_bit 8 (ucast (ucast (drop_bit 8 v) :: byte)) OR ucast (ucast v :: byte) = v" (is "?l = v")
  proof (rule bit_word_eqI)
    fix n
    assume "n < LENGTH(32)"
    then have n: "n < 32" by simp
    then have "n < 8 \<or> 8 \<le> n \<and> n < 16 \<or> 16 \<le> n \<and> n < 24 \<or> 24 \<le> n" by linarith
    with n show "bit ?l n = bit v n"
      unfolding bit_or_iff bit_byte_at [OF n] bit_byte_at_0 [OF n] by (rule byte_ranges_4)
  qed
  moreover have "(4::nat) = Suc (Suc (Suc (Suc 0)))" by simp
  ultimately show ?thesis
    by (simp only: w4_def append_Cons append_Nil rv_loop_bytes)
qed

lemma rv_loop_2:
  assumes "unat v < 2 ^ 16"
  shows "rv_loop 2 (w2 v @ rest) 0 0 = ((0, v), rest)"
proof -
  have "push_bit 8 (ucast (ucast (drop_bit 8 v) :: byte)) OR ucast (ucast v :: byte) = v" (is "?l = v")
  proof (rule bit_word_eqI)
    fix n
    assume "n < LENGTH(32)"
    then have n: "n < 32" by simp
    have "bit v n \<Longrightarrow> n < 16" by (rule word_bit_lt [OF assms])
    then show "bit ?l n = bit v n"
      unfolding bit_or_iff bit_byte_at [OF n] bit_byte_at_0 [OF n] by (rule byte_ranges_2)
  qed
  moreover have "(2::nat) = Suc (Suc 0)" by simp
  ultimately show ?thesis
    by (simp only: w2_def append_Cons append_Nil rv_loop_bytes)
qed

lemma rv_loop_1:
  assumes "unat v < 2 ^ 8"
  shows "rv_loop 1 (w1 v @ rest) 0 0 = ((0, v), rest)"
proof -
  have "ucast (ucast v :: byte) = v"
    by (rule bit_word_eqI) (auto simp: bit_simps dest: word_bit_lt [OF assms])
  then show ?thesis by (simp add: w1_def Let_def)
qed

lemma drop_bit_eq_0: "drop_bit k (v :: 32 word) = 0 \<longleftrightarrow> unat v < 2 ^ k"
proof -
  have "drop_bit k v = 0 \<longleftrightarrow> drop_bit k (unat v) = 0"
    by (metis unat_drop_bit_eq unat_eq_zero)
  also have "\<dots> \<longleftrightarrow> unat v < 2 ^ k" by (simp add: drop_bit_eq_div div_eq_0_iff)
  finally show ?thesis .
qed

lemma length_w [simp]: "length (w1 v) = 1" "length (w2 v) = 2" "length (w4 v) = 4"
  by (simp_all add: w1_def w2_def w4_def)

definition number :: "ttype \<Rightarrow> nat \<Rightarrow> 32 word \<Rightarrow> mtoken" where
  "number t n lo = blank_token\<lparr>mt_type := t, mt_length := of_nat n, mt_lo := lo\<rparr>"

lemma number_simps [simp]:
  "mt_type (number t n lo) = t" "mt_lo (number t n lo) = lo" "mt_hi (number t n lo) = 0"
  "mt_length (number t n lo) = of_nat n"
  by (simp_all add: number_def blank_token_def)

lemma rvalue_uint:
  "rvalue MT_UINT 4 (w4 v @ rest) = R_ok (number MT_UINT 4 v) rest"
  "unat v < 2 ^ 16 \<Longrightarrow> rvalue MT_UINT 2 (w2 v @ rest) = R_ok (number MT_UINT 2 v) rest"
  "unat v < 2 ^ 8 \<Longrightarrow> rvalue MT_UINT 1 (w1 v @ rest) = R_ok (number MT_UINT 1 v) rest"
  by (simp_all add: rvalue_def rv_loop_4 rv_loop_2 rv_loop_1 [simplified] number_def blank_token_def)

lemma rvalue_sint:
  "2 ^ 31 \<le> unat v \<Longrightarrow> rvalue MT_SINT 4 (w4 v @ rest) = R_ok (number MT_SINT 4 v) rest"
  "2 ^ 15 \<le> unat v \<Longrightarrow> unat v < 2 ^ 16 \<Longrightarrow> rvalue MT_SINT 2 (w2 v @ rest) = R_ok (number MT_SINT 2 v) rest"
  "2 ^ 7 \<le> unat v \<Longrightarrow> unat v < 2 ^ 8 \<Longrightarrow> rvalue MT_SINT 1 (w1 v @ rest) = R_ok (number MT_SINT 1 v) rest"
  by (simp_all add: rvalue_def rv_loop_4 rv_loop_2 rv_loop_1 [simplified] number_def blank_token_def drop_bit_eq_0)

text \<open>A byte that fits: its value as a token and as a byte.\<close>

lemma ucast_byte:
  assumes "unat (v :: 32 word) < 2 ^ 8"
  shows "unat (ucast v :: byte) = unat v" and "ucast (ucast v :: byte) = v"
proof -
  show "unat (ucast v :: byte) = unat v"
    using assms by (simp add: unsigned_ucast_eq take_bit_eq_mod)
  show "ucast (ucast v :: byte) = v"
    by (rule bit_word_eqI) (auto simp: bit_simps dest: word_bit_lt [OF assms])
qed

lemma decode_uint: "\<exists>n. decode (wpint 0 lo @ rest) = R_ok (number MT_UINT n lo) rest"
proof -
  consider "lo > 0xffff" | "\<not> lo > 0xffff" "lo > 0xff" | "\<not> lo > 0xff" "lo > 0x7f" | "\<not> lo > 0x7f"
    by blast
  then show ?thesis
  proof cases
    case 1
    then have "decode (wpint 0 lo @ rest) = R_ok (number MT_UINT 4 lo) rest"
      using rvalue_uint(1) [of lo rest] by (simp add: wpint_def w1_def rtoken_def Let_def tlen_def)
    then show ?thesis by blast
  next
    case 2
    then have "unat lo < 2 ^ 16" by (simp add: word_less_nat_alt)
    then have "decode (wpint 0 lo @ rest) = R_ok (number MT_UINT 2 lo) rest"
      using 2 rvalue_uint(2) [of lo rest] by (simp add: wpint_def w1_def rtoken_def Let_def tlen_def)
    then show ?thesis by blast
  next
    case 3
    then have "unat lo < 2 ^ 8" by (simp add: word_less_nat_alt)
    moreover have "\<not> lo > 0xffff" using 3 by (simp add: word_less_nat_alt)
    ultimately have "decode (wpint 0 lo @ rest) = R_ok (number MT_UINT 1 lo) rest"
      using 3 rvalue_uint(3) [of lo rest] by (simp add: wpint_def w1_def rtoken_def Let_def tlen_def)
    then show ?thesis by blast
  next
    case 4
    then have "unat lo < 128" "\<not> lo > 0xffff" "\<not> lo > 0xff" by (simp_all add: word_less_nat_alt)
    then have "decode (wpint 0 lo @ rest) = R_ok (number MT_UINT 1 lo) rest"
      using 4 ucast_byte [of lo]
      by (simp add: wpint_def w1_def rtoken_def Let_def small_def number_def)
    then show ?thesis by blast
  qed
qed

lemma unpack_sint_number:
  assumes n: "n = 1 \<or> n = 2 \<or> n = 4" and lo: "2 ^ (8 * n - 1) \<le> unat lo" "unat lo < 2 ^ (8 * n)"
  shows "unpack_sint (number MT_SINT n lo) = int (unat lo) - 2 ^ (8 * n)"
proof -
  define m where "m = 8 * n - 1"
  have m: "8 * n = Suc m" "m \<le> 64" "unat (of_nat n :: 32 word) = n" "of_nat n \<noteq> (8 :: 32 word)"
    using n by (auto simp: m_def)
  define u where "u = uint (ucast lo :: 64 word)"
  have u: "u = int (unat lo)"
    by (simp add: u_def unsigned_ucast_eq take_bit_int_eq_self_iff order_less_trans [OF unsigned_less])
  have "uint (NOT (ucast lo :: 64 word) AND (push_bit m 1 - 1)) = take_bit m (uint (NOT (ucast lo :: 64 word)))"
  proof -
    have "push_bit m 1 - 1 = (mask m :: 64 word)" by (simp add: mask_eq_decr_exp)
    then show ?thesis by (simp only: take_bit_eq_mask [symmetric] unsigned_take_bit_eq)
  qed
  also have "\<dots> = take_bit m (NOT u)"
    using m(2) by (simp add: unsigned_not_eq u_def min_def)
  also have "\<dots> = (- u - 1) mod 2 ^ m" by (simp add: take_bit_eq_mod not_eq_complement)
  also have "- u - 1 = 2 * 2 ^ m - u - 1 + (- 2) * 2 ^ m" by simp
  also have "(2 * 2 ^ m - u - 1 + (- 2) * 2 ^ m) mod 2 ^ m = (2 * 2 ^ m - u - 1) mod 2 ^ m"
    by (simp only: mod_mult_self1)
  also have "\<dots> = 2 * 2 ^ m - u - 1"
  proof -
    have "2 ^ m \<le> unat lo" "unat lo < 2 * 2 ^ m"
      using lo m(1) by (simp_all add: m_def [symmetric])
    then have "int (2 ^ m) \<le> u" "u < int (2 * 2 ^ m)" unfolding u by (simp_all only: of_nat_le_iff of_nat_less_iff)
    then have "2 ^ m \<le> u" "u < 2 * 2 ^ m" by simp_all
    then show ?thesis by (simp add: mod_pos_pos_trivial)
  qed
  finally show ?thesis
    using m by (simp add: unpack_sint_def Let_def u mult.commute [of n 8])
qed

text \<open>The low bytes of a negative number.\<close>

lemma w2_low: "w2 v = w2 (take_bit 16 v)"
proof -
  have "ucast (drop_bit 8 v) = (ucast (drop_bit 8 (take_bit 16 v)) :: byte)"
    by (rule bit_word_eqI) (auto simp: bit_simps)
  moreover have "ucast v = (ucast (take_bit 16 v) :: byte)"
    by (rule bit_word_eqI) (auto simp: bit_simps)
  ultimately show ?thesis by (simp add: w2_def)
qed

lemma w1_low: "w1 v = w1 (take_bit 8 v)"
proof -
  have "ucast v = (ucast (take_bit 8 v) :: byte)"
    by (rule bit_word_eqI) (auto simp: bit_simps)
  then show ?thesis by (simp add: w1_def)
qed

lemma unat_take_bit: "unat (take_bit k (v :: 32 word)) = unat v mod 2 ^ k"
  unfolding unsigned_take_bit_eq by (rule take_bit_eq_mod)

lemma low_part:
  assumes "a * 2 ^ k \<le> unat (v :: 32 word)" and "unat v < Suc a * 2 ^ k"
  shows "unat (take_bit k v) = unat v - a * 2 ^ k"
proof -
  have "unat v mod 2 ^ k = (unat v - a * 2 ^ k + a * 2 ^ k) mod 2 ^ k" using assms(1) by simp
  also have "\<dots> = (unat v - a * 2 ^ k) mod 2 ^ k" by (simp only: mod_mult_self1)
  also have "\<dots> = unat v - a * 2 ^ k" using assms by (intro mod_less) simp
  finally show ?thesis by (simp add: unat_take_bit)
qed

text \<open>The two numbers whose encoding is one size too small.\<close>

definition misencoded :: "32 word \<Rightarrow> bool" where
  "misencoded lo \<longleftrightarrow> lo = 0xffffff7f \<or> lo = 0xffff7fff"

lemma decode_nint:
  assumes neg: "2 ^ 31 \<le> unat lo" and ok: "\<not> misencoded lo"
  shows "\<exists>n v. decode (wnint hi lo @ rest) = R_ok (number MT_SINT n v) rest \<and>
    unpack_sint (number MT_SINT n v) = int (unat lo) - 2 ^ 32"
proof -
  have big: "\<not> lo < 0x80000000" using neg by (simp add: word_less_nat_alt)
  have max: "unat lo < 4294967296" using unsigned_less [of lo, where 'a = nat] by simp
  consider "lo < 0xffff7fff" | "\<not> lo < 0xffff7fff" "lo < 0xffffff7f"
    | "\<not> lo < 0xffffff7f" "lo < 0xffffffe0" | "\<not> lo < 0xffffffe0" by blast
  then show ?thesis
  proof cases
    case 1
    then have "decode (wnint hi lo @ rest) = R_ok (number MT_SINT 4 lo) rest"
      using big rvalue_sint(1) [of lo rest] neg by (simp add: wnint_def w1_def rtoken_def Let_def tlen_def)
    moreover have "unpack_sint (number MT_SINT 4 lo) = int (unat lo) - 2 ^ 32"
      using unpack_sint_number [of 4 lo] neg max by simp
    ultimately show ?thesis by blast
  next
    case 2
    have "lo \<noteq> 0xffff7fff" using ok by (simp add: misencoded_def)
    then have "unat lo \<noteq> 4294934527" using word_unat_eq_iff [of lo] by simp
    with 2 have r: "4294934528 \<le> unat lo" "unat lo < 4294967167" by (simp_all add: word_less_nat_alt)
    let ?v = "take_bit 16 lo"
    have v: "unat ?v = unat lo - 65535 * 2 ^ 16" using r by (intro low_part) simp_all
    have "decode (wnint hi lo @ rest) = R_ok (number MT_SINT 2 ?v) rest"
      using 2 big rvalue_sint(2) [of ?v rest] v r max w2_low [of lo]
      by (simp add: wnint_def w1_def rtoken_def Let_def tlen_def)
    moreover have "unpack_sint (number MT_SINT 2 ?v) = int (unat lo) - 2 ^ 32"
      using unpack_sint_number [of 2 ?v] v r max by (simp add: of_nat_diff)
    ultimately show ?thesis by blast
  next
    case 3
    have "lo \<noteq> 0xffffff7f" using ok by (simp add: misencoded_def)
    then have "unat lo \<noteq> 4294967167" using word_unat_eq_iff [of lo] by simp
    with 3 have r: "4294967168 \<le> unat lo" "unat lo < 4294967264" by (simp_all add: word_less_nat_alt)
    let ?v = "take_bit 8 lo"
    have v: "unat ?v = unat lo - 16777215 * 2 ^ 8" using r by (intro low_part) simp_all
    have "\<not> lo < 0xffff7fff" using r by (simp add: word_less_nat_alt)
    moreover have "rvalue MT_SINT 1 (w1 lo @ rest) = R_ok (number MT_SINT 1 ?v) rest"
      using rvalue_sint(3) [of ?v rest] v r w1_low [of lo] by simp
    ultimately have "decode (wnint hi lo @ rest) = R_ok (number MT_SINT 1 ?v) rest"
      using 3 big by (simp add: wnint_def w1_def rtoken_def Let_def tlen_def)
    moreover have "unpack_sint (number MT_SINT 1 ?v) = int (unat lo) - 2 ^ 32"
      using unpack_sint_number [of 1 ?v] v r max by (simp add: of_nat_diff)
    ultimately show ?thesis by blast
  next
    case 4
    then have r: "4294967264 \<le> unat lo" by (simp add: word_less_nat_alt)
    let ?v = "take_bit 8 lo"
    have v: "unat ?v = unat lo - 16777215 * 2 ^ 8" using r max by (intro low_part) simp_all
    have sm: "\<not> lo < 0xffff7fff" "\<not> lo < 0xffffff7f" using r by (simp_all add: word_less_nat_alt)
    have "w1 (0x100 + lo) = w1 ?v"
    proof -
      have "take_bit 8 (0x100 + lo) = take_bit 8 lo"
      proof -
        have "unat (0x100 + lo) mod 2 ^ 8 = unat lo mod 2 ^ 8"
          by (simp add: unat_word_ariths mod_mod_cancel)
        then show ?thesis by (simp only: word_unat_eq_iff unat_take_bit)
      qed
      then show ?thesis using w1_low [of "0x100 + lo"] by simp
    qed
    then have "decode (wnint hi lo @ rest) = R_ok (number MT_SINT 1 ?v) rest"
      using 4 big sm ucast_byte [of ?v] v r max
      by (simp add: wnint_def w1_def rtoken_def Let_def small_def number_def)
    moreover have "unpack_sint (number MT_SINT 1 ?v) = int (unat lo) - 2 ^ 32"
      using unpack_sint_number [of 1 ?v] v r max by (simp add: of_nat_diff)
    ultimately show ?thesis by blast
  qed
qed

section \<open>Headers of blobs and collections\<close>

text \<open>A length in the low bits of a type byte.\<close>

definition tagged :: "32 word \<Rightarrow> 32 word \<Rightarrow> nat \<Rightarrow> nat \<Rightarrow> bool" where
  "tagged tag mask_bits n k \<longleftrightarrow>
     unat (ucast (tag OR of_nat k) :: byte) = unat tag + k \<and>
     ucast (ucast (tag OR of_nat k) :: byte) AND mask_bits = (of_nat k :: 32 word)"

lemma tagged_all:
  "list_all (tagged 0xa0 0x1f 32) [0..<32]" "list_all (tagged 0x90 0xf 16) [0..<16]"
  "list_all (tagged 0x80 0xf 16) [0..<16]"
  by code_simp+

lemma tagged_word:
  assumes "list_all (tagged tag m n) [0..<n]" and "unat len < n"
  shows "unat (ucast (tag OR len) :: byte) = unat tag + unat len"
    and "ucast (ucast (tag OR len) :: byte) AND m = len"
proof -
  have "tagged tag m n (unat len)" using assms by (simp add: list_all_iff)
  then show "unat (ucast (tag OR len) :: byte) = unat tag + unat len"
    and "ucast (ucast (tag OR len) :: byte) AND m = len" by (simp_all add: tagged_def)
qed

definition header :: "ttype \<Rightarrow> 32 word \<Rightarrow> mtoken" where
  "header t len = blank_token\<lparr>mt_type := t, mt_length := len\<rparr>"

lemma header_simps [simp]: "mt_type (header t len) = t" "mt_length (header t len) = len"
  by (simp_all add: header_def)

lemma rblob_header:
  assumes "t \<noteq> MT_EXT"
  shows "rblob t 4 (w4 v @ rest) = R_ok (header t v) rest"
    and "unat v < 2 ^ 16 \<Longrightarrow> rblob t 2 (w2 v @ rest) = R_ok (header t v) rest"
    and "unat v < 2 ^ 8 \<Longrightarrow> rblob t 1 (w1 v @ rest) = R_ok (header t v) rest"
  using assms by (simp_all add: rblob_def rv_loop_4 rv_loop_2 rv_loop_1 [simplified] header_def)

lemma small_header: "small t len 0 = header t len"
  by (simp add: small_def header_def blank_token_def)

lemma decode_str: "decode (wstr len @ rest) = R_ok (header MT_STR len) rest"
proof -
  consider "len < 0x20" | "\<not> len < 0x20" "len < 0x100" | "\<not> len < 0x100" "len < 0x10000" | "\<not> len < 0x10000"
    by blast
  then show ?thesis
  proof cases
    case 1
    then have "unat len < 32" by (simp add: word_less_nat_alt)
    with 1 tagged_word [OF tagged_all(1) this] show ?thesis
      by (simp add: wstr_def w1_def rtoken_def Let_def small_header)
  next
    case 2
    then have "unat len < 2 ^ 8" by (simp add: word_less_nat_alt)
    from rblob_header(3) [OF _ this, of MT_STR rest] 2 show ?thesis
      by (simp add: wstr_def w1_def rtoken_def Let_def tlen_def)
  next
    case 3
    then have "unat len < 2 ^ 16" "\<not> len < 0x20" by (simp_all add: word_less_nat_alt)
    with rblob_header(2) [of MT_STR len rest] 3 show ?thesis
      by (simp add: wstr_def w1_def rtoken_def Let_def tlen_def)
  next
    case 4
    then have "\<not> len < 0x20" "\<not> len < 0x100" by (simp_all add: word_less_nat_alt)
    with rblob_header(1) [of MT_STR len rest] 4 show ?thesis
      by (simp add: wstr_def w1_def rtoken_def Let_def tlen_def)
  qed
qed

lemma decode_bin: "decode (wbin len @ rest) = R_ok (header MT_BIN len) rest"
proof -
  consider "len < 0x100" | "\<not> len < 0x100" "len < 0x10000" | "\<not> len < 0x10000"
    by blast
  then show ?thesis
  proof cases
    case 1
    then have "unat len < 2 ^ 8" by (simp add: word_less_nat_alt)
    from rblob_header(3) [OF _ this, of MT_BIN rest] 1 show ?thesis
      by (simp add: wbin_def w1_def rtoken_def Let_def tlen_def)
  next
    case 2
    then have "unat len < 2 ^ 16" by (simp add: word_less_nat_alt)
    with rblob_header(2) [of MT_BIN len rest] 2 show ?thesis
      by (simp add: wbin_def w1_def rtoken_def Let_def tlen_def)
  next
    case 3
    then have "\<not> len < 0x100" by (simp add: word_less_nat_alt)
    with rblob_header(1) [of MT_BIN len rest] 3 show ?thesis
      by (simp add: wbin_def w1_def rtoken_def Let_def tlen_def)
  qed
qed

lemma decode_array: "decode (warray len @ rest) = R_ok (header MT_ARRAY len) rest"
proof -
  consider "len < 0x10" | "\<not> len < 0x10" "len < 0x10000" | "\<not> len < 0x10000" by blast
  then show ?thesis
  proof cases
    case 1
    then have "unat len < 16" by (simp add: word_less_nat_alt)
    with 1 tagged_word [OF tagged_all(2) this] show ?thesis
      by (simp add: warray_def w1_def rtoken_def Let_def small_header)
  next
    case 2
    then have "unat len < 2 ^ 16" by (simp add: word_less_nat_alt)
    with rblob_header(2) [of MT_ARRAY len rest] 2 show ?thesis
      by (simp add: warray_def w1_def rtoken_def Let_def tlen_def)
  next
    case 3
    then have "\<not> len < 0x10" by (simp add: word_less_nat_alt)
    with rblob_header(1) [of MT_ARRAY len rest] 3 show ?thesis
      by (simp add: warray_def w1_def rtoken_def Let_def tlen_def)
  qed
qed

lemma decode_map: "decode (wmap len @ rest) = R_ok (header MT_MAP len) rest"
proof -
  consider "len < 0x10" | "\<not> len < 0x10" "len < 0x10000" | "\<not> len < 0x10000" by blast
  then show ?thesis
  proof cases
    case 1
    then have "unat len < 16" by (simp add: word_less_nat_alt)
    with 1 tagged_word [OF tagged_all(3) this] show ?thesis
      by (simp add: wmap_def w1_def rtoken_def Let_def small_header)
  next
    case 2
    then have "unat len < 2 ^ 16" by (simp add: word_less_nat_alt)
    with rblob_header(2) [of MT_MAP len rest] 2 show ?thesis
      by (simp add: wmap_def w1_def rtoken_def Let_def tlen_def)
  next
    case 3
    then have "\<not> len < 0x10" by (simp add: word_less_nat_alt)
    with rblob_header(1) [of MT_MAP len rest] 3 show ?thesis
      by (simp add: wmap_def w1_def rtoken_def Let_def tlen_def)
  qed
qed

section \<open>Round trips\<close>

lemma read_next_decode:
  "decode bs = R_ok tok rest \<Longrightarrow> read_next (mr_new bs) =
     Done (\<lparr>mr_buf = rest, mr_pass = (if is_blob (mt_type tok) then mt_length tok else 0), mr_error = False\<rparr>,
           Some tok)"
  by (cases bs) (simp_all add: read_next_def mr_new_def decode_def)

lemma read_as_decode:
  "decode bs = R_ok tok rest \<Longrightarrow> \<not> is_blob (mt_type tok) \<Longrightarrow> f tok = Some x \<Longrightarrow>
   read_as f (mr_new bs) = Done (mr_new rest, Some x)"
  by (simp add: read_as_def read_next_decode) (simp add: mr_new_def)

lemma read_uint_back: "read_uint (mr_new (wpint 0 v @ rest)) = Done (mr_new rest, Some v)"
proof -
  obtain n where "decode (wpint 0 v @ rest) = R_ok (number MT_UINT n v) rest"
    using decode_uint by blast
  then show ?thesis unfolding read_uint_def by (rule read_as_decode) (simp_all add: is_blob_def)
qed

lemma uint_range: "0 \<le> uint (v :: 32 word)" "uint v < 4294967296"
  using unsigned_less [of v, where 'a = int] by simp_all

lemma unat_ge: "2 ^ 31 \<le> unat (v :: 32 word) \<longleftrightarrow> 2147483648 \<le> uint v"
proof -
  have "2147483648 \<le> unat v \<longleftrightarrow> 2147483648 \<le> uint v" using uint_nat [of v] by linarith
  then show ?thesis by simp
qed

lemma sint_uint32:
  "sint (v :: 32 word) = (if 2147483648 \<le> uint v then uint v - 4294967296 else uint v)"
proof -
  have "sint v = signed_take_bit 31 (uint v)" by (simp add: sint_uint)
  also have "\<dots> = (if 2147483648 \<le> uint v then uint v - 4294967296 else uint v)"
    using uint_range [of v]
    by (simp add: signed_take_bit_eq_take_bit_shift take_bit_eq_mod mod_if not_le)
      (smt (verit) mod_pos_pos_trivial mod_add_self2 minus_mod_self2)
  finally show ?thesis .
qed

lemma negative_uint: "scast v <s (0 :: 64 word) \<longleftrightarrow> 2147483648 \<le> uint (v :: 32 word)"
  using uint_range [of v] by (simp add: word_sless_alt sint_up_scast is_up sint_uint32)

lemma low_mask: "(0xffffffff :: 64 word) = mask 32"
  by (simp add: mask_eq_decr_exp)

lemma ucast_low_word:
  "ucast ((scast v :: 64 word) AND 0xffffffff) = (v :: 32 word)"
  "ucast ((ucast v :: 64 word) AND 0xffffffff) = (v :: 32 word)"
  unfolding low_mask by (rule bit_word_eqI; auto simp: bit_simps)+

lemma ucast_high_word: "ucast (drop_bit 32 (ucast (v :: 32 word) :: 64 word)) = (0 :: 32 word)"
  by (rule bit_word_eqI) (auto simp: bit_simps dest: bit_imp_le_length)

lemma scast_nonneg:
  assumes "\<not> scast v <s (0 :: 64 word)"
  shows "scast (v :: 32 word) = (ucast v :: 64 word)"
proof -
  have "sint v = uint v" using assms by (simp add: negative_uint sint_uint32)
  then show ?thesis by (simp only: scast_eq ucast_eq)
qed

lemma twice_complement: "NOT (- (x + 1 :: 64 word) + 1) + 1 = x"
proof -
  have "NOT (- x) + 1 = x" by (metis minus_eq_not_plus_1 minus_minus)
  then show ?thesis by simp
qed

lemma wtoken_uint: "wtoken (pack_uint (ucast (v :: 32 word))) = wpint 0 v"
  by (simp add: wtoken_def pack_uint_def blank_token_def ucast_low_word ucast_high_word)

lemma wtoken_int:
  "wtoken (pack_sint (scast (v :: 32 word))) =
     (if 2147483648 \<le> uint v
      then wnint (ucast (drop_bit 32 (scast v :: 64 word))) v else wpint 0 v)"
proof (cases "scast v <s (0 :: 64 word)")
  case True
  then show ?thesis
    unfolding pack_sint_def Let_def twice_complement
    by (simp add: negative_uint wtoken_def pack_uint_def blank_token_def ucast_low_word)
next
  case False
  then have "\<not> 2147483648 \<le> uint v" by (simp add: negative_uint)
  with False show ?thesis
    using wtoken_uint [of v] scast_nonneg [OF False] by (simp add: pack_sint_def)
qed

lemma read_int_back:
  assumes "\<not> misencoded v"
  shows "read_int (mr_new (wtoken (pack_sint (scast v)) @ rest)) = Done (mr_new rest, Some (sint v))"
proof (cases "2147483648 \<le> uint v")
  case True
  obtain n u where
    d: "decode (wtoken (pack_sint (scast v)) @ rest) = R_ok (number MT_SINT n u) rest"
      "unpack_sint (number MT_SINT n u) = int (unat v) - 2 ^ 32"
    using decode_nint [OF _ assms] True wtoken_int [of v] unat_ge [of v] by metis
  have "unpack_sint (number MT_SINT n u) = sint v" "- 2147483648 \<le> sint v" "sint v \<le> 2147483647"
    using True sint_uint32 [of v] uint_range [of v] d(2) by simp_all
  then show ?thesis
    unfolding read_int_def by (intro read_as_decode [OF d(1)]) (simp_all add: is_blob_def Let_def)
next
  case False
  obtain n where
    d: "decode (wtoken (pack_sint (scast v)) @ rest) = R_ok (number MT_UINT n v) rest"
    using decode_uint [of v rest] False wtoken_int [of v] by metis
  have "\<not> v > 0x7fffffff" "uint v = sint v"
    using False sint_uint32 [of v] by (simp_all add: word_less_def)
  then show ?thesis
    unfolding read_int_def by (intro read_as_decode [OF d]) (simp_all add: is_blob_def)
qed

lemma read_blob_back:
  assumes d: "decode bs = R_ok (header ty (of_nat (length s))) (s @ rest)" and ty: "is_blob ty"
    and s: "s \<noteq> []" "length s < 2 ^ 32"
  shows "read_blob ty (mr_new bs) = Done (mr_new rest, Some (length s, s))"
proof -
  have n: "unat (of_nat (length s) :: 32 word) = length s" using s(2) by (simp add: unat_of_nat)
  then have nz: "of_nat (length s) \<noteq> (0 :: 32 word)" using s(1) by (metis length_0_conv unat_0)
  have 1: "read_as (\<lambda>t. if mt_type t = ty then Some (unat (mt_length t)) else None) (mr_new bs) =
      Done (\<lparr>mr_buf = s @ rest, mr_pass = of_nat (length s), mr_error = False\<rparr>, Some (length s))"
    using ty n by (simp add: read_as_def read_next_decode [OF d])
  show ?thesis
    unfolding read_blob_def 1 using n nz
    by (simp add: read_as_def read_next_def blank_token_def) (simp add: mr_new_def)
qed

text \<open>Writing into a buffer with room.\<close>

lemma mw_token_fits:
  "\<not> mw_error w \<Longrightarrow> length (mw_bytes w) + length (wtoken t) \<le> mw_capacity w \<Longrightarrow>
   mw_token w t = w\<lparr>mw_bytes := mw_bytes w @ wtoken t\<rparr>"
  by (simp add: mw_token_def Let_def mw_remaining_def)

lemma mw_token_bounded:
  "length (mw_bytes w) \<le> mw_capacity w \<Longrightarrow>
   length (mw_bytes (mw_token w t)) \<le> mw_capacity (mw_token w t) \<and> mw_capacity (mw_token w t) = mw_capacity w"
  by (auto simp: mw_token_def Let_def mw_remaining_def)

lemma length_wpint: "length (wpint hi lo) \<le> 9" "length (wpint 0 lo) \<le> 5"
  by (simp_all add: wpint_def)

lemma length_wnint: "2147483648 \<le> uint lo \<Longrightarrow> length (wnint hi lo) \<le> 5"
  by (simp add: wnint_def word_less_def)

lemma length_int_token: "length (wtoken (pack_sint (scast (v :: 32 word)))) \<le> 5"
  by (simp add: wtoken_int length_wpint length_wnint)

text \<open>The encoding of one string, and of a list of them.\<close>

definition enc_str :: "byte list \<Rightarrow> byte list" where
  "enc_str s = wstr (of_nat (length s)) @ s"

lemma mw_str_fits:
  assumes "\<not> mw_error w" and "length (mw_bytes w) + length (enc_str s) \<le> mw_capacity w"
  shows "mw_str w s = w\<lparr>mw_bytes := mw_bytes w @ enc_str s\<rparr>"
proof -
  let ?h = "pack_blob MT_STR (of_nat (length s))"
  have t: "wtoken ?h = wstr (of_nat (length s))" "wtoken (pack_chunk s) = s"
    by (simp_all add: wtoken_def pack_blob_def pack_chunk_def blank_token_def)
  have "mw_token w ?h = w\<lparr>mw_bytes := mw_bytes w @ wstr (of_nat (length s))\<rparr>"
    using assms mw_token_fits [of w ?h] by (simp add: t enc_str_def)
  moreover have "mw_token (w\<lparr>mw_bytes := mw_bytes w @ wstr (of_nat (length s))\<rparr>) (pack_chunk s) =
      w\<lparr>mw_bytes := mw_bytes w @ enc_str s\<rparr>"
    using assms mw_token_fits [of "w\<lparr>mw_bytes := mw_bytes w @ wstr (of_nat (length s))\<rparr>" "pack_chunk s"]
    by (simp add: t enc_str_def)
  ultimately show ?thesis using assms(1) by (simp add: mw_str_def)
qed

lemma mw_strings_fit:
  assumes "\<not> mw_error w" and "\<forall>s\<in>set ss. nul \<notin> set s"
    and "length (mw_bytes w) + length (concat (map (enc_str \<circ> bytes_of) ss)) \<le> mw_capacity w"
  shows "fold (\<lambda>s w. mw_cstr w (Some s)) ss w =
    w\<lparr>mw_bytes := mw_bytes w @ concat (map (enc_str \<circ> bytes_of) ss)\<rparr>"
  using assms
proof (induction ss arbitrary: w)
  case Nil
  then show ?case by simp
next
  case (Cons s ss)
  have "mw_cstr w (Some s) = w\<lparr>mw_bytes := mw_bytes w @ enc_str (bytes_of s)\<rparr>"
    using Cons.prems by (simp add: mw_cstr_def mw_str_fits)
  then show ?case using Cons.IH [of "w\<lparr>mw_bytes := mw_bytes w @ enc_str (bytes_of s)\<rparr>"] Cons.prems
    by simp
qed

lemma read_string_back:
  "s \<noteq> [] \<Longrightarrow> length s < 2 ^ 32 \<Longrightarrow>
   read_string (mr_new (enc_str s @ rest)) = Done (mr_new rest, Some (length s, s))"
  unfolding read_string_def enc_str_def
  by (rule read_blob_back) (simp_all add: decode_str is_blob_def)

lemma read_strings_back:
  "\<forall>s\<in>set ss. s \<noteq> [] \<and> length s < 2 ^ 32 \<Longrightarrow>
   read_strings (length ss) (mr_new (concat (map enc_str ss) @ rest)) =
   Done (mr_new rest, Some (map (\<lambda>s. (length s, s)) ss))"
  by (induction ss) (simp_all add: read_string_back)

lemma length_bytes_of [simp]: "length (bytes_of s) = length s"
  by (simp add: bytes_of_def)

section \<open>Properties\<close>

text \<open>A signed 32-bit integer that the writer packs into a buffer with room for it is read
  back unchanged, with the bytes after it left in the buffer, unless it is one of the two
  numbers of the next property.\<close>

theorem mpack_int_roundtrip:
  assumes "\<not> misencoded v" and "5 \<le> n"
  shows "read_int (mr_new (mw_bytes (mw_int (mw_init n) v) @ rest)) = Done (mr_new rest, Some (sint v))"
proof -
  have "mw_bytes (mw_int (mw_init n) v) = wtoken (pack_sint (scast v))"
    using length_int_token [of v] assms(2)
    by (simp add: mw_int_def mw_token_fits mw_init_def)
  then show ?thesis using read_int_back [OF assms(1)] by simp
qed

theorem mpack_int_roundtrip_witness:
  "read_int (mr_new (mw_bytes (mw_int (mw_init 16) (- 300)) @ [0xc0])) = Done (mr_new [0xc0], Some (- 300))"
  using mpack_int_roundtrip [of "- 300" 16 "[0xc0]"] by (simp add: misencoded_def)

text \<open>The encoder of libmpack picks the next smaller size for -129 and -32769: what the writer
  packs for them is read back as 127 and 32767.\<close>

theorem mpack_int_misencoded:
  "read_int (mr_new (mw_bytes (mw_int (mw_init 16) (- 129)))) = Done (mr_new [], Some 127) \<and>
   read_int (mr_new (mw_bytes (mw_int (mw_init 16) (- 32769)))) = Done (mr_new [], Some 32767)"
  by code_simp



text \<open>The reader believes the length in a string's header: of a message that was cut off it
  returns a view longer than the bytes that are there, and reading a string that was packed
  empty looks for its chunk past the end of the buffer.\<close>

theorem mpack_read_string_unchecked:
  "read_string (mr_new (bytes_of ''ab'' @ [])) = Done (\<lparr>mr_buf = [0x62], mr_pass = 0, mr_error = True\<rparr>, None) \<and>
   read_string (mr_new (0xa5 # bytes_of ''ab'')) =
     Done (\<lparr>mr_buf = [], mr_pass = 3, mr_error = False\<rparr>, Some (5, bytes_of ''ab'')) \<and>
   read_string (mr_new (mw_bytes (mw_str (mw_init 16) []))) = Undefined Ub_view"
  by code_simp

end
