(* ===== verification/MpackPrint.thy ===== *)
theory MpackPrint
  imports Mpack
begin

text \<open>
  The printer of MessagePack data (\<open>ot/lib/mpack/mpack-utils.cpp\<close>) and the object parser of
  libmpack that drives it (\<open>ot/vendor/libmpack/object.c\<close>): a stack of at most 32 open nodes,
  a callback when a node is entered and one when it is left. The main result is that the
  bytes of a value are printed as the text of the value, whatever is nested in it.
\<close>

section \<open>The output buffer\<close>

text \<open>
  The globals of \<open>mpack_sprint\<close> with the error flag of the context: the text so far and the
  size of the buffer. The first character that does not fit sets the flag.
\<close>

record print_ctx =
  pc_text :: string
  pc_size :: nat
  pc_error :: bool

definition write_char :: "print_ctx \<Rightarrow> char \<Rightarrow> print_ctx" where
  "write_char ctx ch =
     (if pc_error ctx then ctx
      else if length (pc_text ctx) < pc_size ctx - 1 then ctx\<lparr>pc_text := pc_text ctx @ [ch]\<rparr>
      else ctx\<lparr>pc_error := True\<rparr>)"

definition write_str :: "print_ctx \<Rightarrow> string \<Rightarrow> print_ctx" where
  "write_str ctx s = foldl write_char ctx s"

definition newline_char :: char where
  "newline_char = CHR 0x0A"

definition return_char :: char where
  "return_char = CHR 0x0D"

definition escape_char :: "char \<Rightarrow> string" where
  "escape_char ch =
     (if ch = newline_char then [CHR 0x5C, CHR ''n'']
      else if ch = return_char then [CHR 0x5C, CHR ''r'']
      else [ch])"

definition write_escaped_char :: "print_ctx \<Rightarrow> char \<Rightarrow> print_ctx" where
  "write_escaped_char ctx ch = write_str ctx (escape_char ch)"

text \<open>The digits, the last one first; the buffer of 12 characters holds at most 11.\<close>

fun digits_rev :: "nat \<Rightarrow> nat \<Rightarrow> string" where
  "digits_rev 0 v = []"
| "digits_rev (Suc p) v = (if v > 0 then digit_char (v mod 10) # digits_rev p (v div 10) else [])"

definition write_uint32 :: "print_ctx \<Rightarrow> 32 word \<Rightarrow> print_ctx" where
  "write_uint32 ctx v =
     (if v = 0 then write_char ctx (CHR ''0'') else write_str ctx (rev (digits_rev 11 (unat v))))"

definition write_int32 :: "print_ctx \<Rightarrow> 32 word \<Rightarrow> print_ctx" where
  "write_int32 ctx v =
     (if v <s 0 then
        (let ctx = write_char ctx (CHR ''-'')
         in if v = 0x80000000 then write_str ctx ''2147483648'' else write_uint32 ctx (- v))
      else write_uint32 ctx v)"

section \<open>The callbacks\<close>

record node =
  nd_tok :: mtoken
  nd_pos :: nat
  nd_key_visited :: bool

definition char_of_byte :: "byte \<Rightarrow> char" where
  "char_of_byte b = char_of (unat b)"

definition parent_is_blob :: "node list \<Rightarrow> bool" where
  "parent_is_blob ps = (case ps of [] \<Rightarrow> False
     | p # _ \<Rightarrow> mt_type (nd_tok p) = MT_BIN \<or> mt_type (nd_tok p) = MT_EXT)"

text \<open>\<open>ps\<close> are the nodes below the one entered, its parent first.\<close>

definition print_enter :: "node list \<Rightarrow> mtoken \<Rightarrow> print_ctx \<Rightarrow> print_ctx" where
  "print_enter ps tok ctx =
     (if pc_error ctx then ctx
      else case mt_type tok of
        MT_NIL \<Rightarrow> write_str ctx ''null''
      | MT_BOOLEAN \<Rightarrow> write_str ctx (if unpack_boolean tok then ''true'' else ''false'')
      | MT_UINT \<Rightarrow>
          if mt_hi tok = 0 then write_uint32 ctx (mt_lo tok)
          else write_str (write_uint32 ctx (mt_lo tok)) ''...''
      | MT_SINT \<Rightarrow>
          (let v = unpack_sint tok
           in if v \<ge> - 2147483648 \<and> v \<le> 2147483647 then write_int32 ctx (word_of_int v)
              else write_str (write_int32 ctx (word_of_int v)) ''...'')
      | MT_CHUNK \<Rightarrow>
          if parent_is_blob ps then ctx
          else foldl (\<lambda>ctx b. write_escaped_char ctx (char_of_byte b)) ctx (mt_chunk tok)
      | MT_STR \<Rightarrow> write_char ctx (CHR 0x22)
      | MT_BIN \<Rightarrow> write_char (write_uint32 (write_str ctx ''<bin:'') (mt_length tok)) (CHR ''>'')
      | MT_EXT \<Rightarrow> write_char (write_uint32 (write_char
          (write_uint32 (write_str ctx ''<ext:'') (mt_ext tok)) (CHR '':'')) (mt_length tok)) (CHR ''>'')
      | MT_ARRAY \<Rightarrow> write_char ctx (CHR ''['')
      | MT_MAP \<Rightarrow> write_char ctx (CHR ''{'')
      | MT_FLOAT \<Rightarrow> ctx)"

text \<open>\<open>parent->tok.type <= MPACK_TOKEN_MAP\<close>: not a blob.\<close>

definition print_exit :: "node list \<Rightarrow> mtoken \<Rightarrow> print_ctx \<Rightarrow> print_ctx" where
  "print_exit ps tok ctx =
     (if pc_error ctx then ctx
      else
        let ctx = (case mt_type tok of
              MT_STR \<Rightarrow> write_char ctx (CHR 0x22)
            | MT_ARRAY \<Rightarrow> write_char ctx (CHR '']'')
            | MT_MAP \<Rightarrow> write_char ctx (CHR ''}'')
            | _ \<Rightarrow> ctx)
        in case ps of [] \<Rightarrow> ctx
           | p # _ \<Rightarrow>
              if \<not> is_blob (mt_type (nd_tok p)) \<and> nd_pos p < unat (mt_length (nd_tok p))
              then (if mt_type (nd_tok p) = MT_MAP
                    then write_char ctx (if nd_key_visited p then CHR '':'' else CHR '','')
                    else write_char ctx (CHR '',''))
              else ctx)"

section \<open>The object parser\<close>

definition max_object_depth :: nat where
  "max_object_depth = 32"

text \<open>Types behind \<open>MPACK_TOKEN_CHUNK\<close>, the ones with children.\<close>

definition has_children :: "ttype \<Rightarrow> bool" where
  "has_children t \<longleftrightarrow> t = MT_ARRAY \<or> t = MT_MAP \<or> is_blob t"

text \<open>\<open>mpack_parser_pop\<close>: the parent counts the node that is left.\<close>

definition count_child :: "mtoken \<Rightarrow> node list \<Rightarrow> node list" where
  "count_child tok ps = (case ps of [] \<Rightarrow> []
     | p # qs \<Rightarrow>
        (if mt_type tok = MT_CHUNK then p\<lparr>nd_pos := nd_pos p + unat (mt_length tok)\<rparr>
         else if mt_type (nd_tok p) = MT_MAP
         then (let p = (if nd_key_visited p then p\<lparr>nd_pos := nd_pos p + 1\<rparr> else p)
               in p\<lparr>nd_key_visited := \<not> nd_key_visited p\<rparr>)
         else p\<lparr>nd_pos := nd_pos p + 1\<rparr>) # qs)"

definition mpack_parser_pop :: "node list \<Rightarrow> (mtoken \<times> node list) option" where
  "mpack_parser_pop st = (case st of [] \<Rightarrow> None
     | n # ps \<Rightarrow>
        if has_children (mt_type (nd_tok n)) \<and> nd_pos n < unat (mt_length (nd_tok n)) then None
        else Some (nd_tok n, count_child (nd_tok n) ps))"

text \<open>The exit part of \<open>MPACK_WALK\<close>: leaves every finished node; true when none is left.\<close>

lemma length_count_child [simp]: "length (count_child tok ps) = length ps"
  by (simp add: count_child_def split: list.split)

function exit_loop :: "node list \<Rightarrow> print_ctx \<Rightarrow> node list \<times> print_ctx \<times> bool" where
  "exit_loop st ctx =
     (if st = [] then ([], ctx, True)
      else case mpack_parser_pop st of None \<Rightarrow> (st, ctx, False)
      | Some (tok, ps) \<Rightarrow> exit_loop ps (print_exit ps tok ctx))"
  by pat_completeness auto
termination
  by (relation "measure (length o fst)") (auto simp: mpack_parser_pop_def split: list.splits if_splits)

declare exit_loop.simps [simp del]

datatype parse_status = Mp_ok | Mp_eof | Mp_error | Mp_nomem

text \<open>\<open>mpack_parse_tok\<close>, called once to enter the token and once to leave.\<close>

definition mpack_parse_tok :: "node list \<Rightarrow> mtoken \<Rightarrow> print_ctx \<Rightarrow> parse_status \<times> node list \<times> print_ctx" where
  "mpack_parse_tok st tok ctx =
     (if length st = max_object_depth then (Mp_nomem, st, ctx)
      else let (st, ctx, done) = exit_loop (\<lparr>nd_tok = tok, nd_pos = 0, nd_key_visited = False\<rparr> # st) (print_enter st tok ctx)
           in (if done then Mp_ok else Mp_eof, st, ctx))"

text \<open>
  \<open>mpack_read\<close> on a buffer with the bytes of a blob still to come: an incomplete token takes
  the rest of the buffer.
\<close>

definition mpack_read :: "byte list \<Rightarrow> 32 word \<Rightarrow> parse_status \<times> mtoken \<times> byte list \<times> 32 word" where
  "mpack_read buf pass =
     (if pass \<noteq> 0
      then let n = min (length buf) (unat pass)
           in (Mp_ok, blank_token\<lparr>mt_type := MT_CHUNK, mt_length := of_nat n, mt_chunk := take n buf\<rparr>,
               drop n buf, pass - of_nat n)
      else case decode buf of
        R_ok tok rest \<Rightarrow> (Mp_ok, tok, rest, if is_blob (mt_type tok) then mt_length tok else 0)
      | R_eof \<Rightarrow> (Mp_eof, blank_token, [], 0)
      | R_error \<Rightarrow> (Mp_error, blank_token, buf, 0))"

lemma rv_loop_length: "length (snd (rv_loop n bs hi lo)) \<le> length bs"
  by (induction n bs hi lo rule: rv_loop.induct) (auto simp: Let_def intro: le_SucI)

lemma rvalue_length: "rvalue t n bs = R_ok tok rest \<Longrightarrow> length rest \<le> length bs"
  using rv_loop_length [of n bs 0 0] by (auto simp: rvalue_def Let_def split: if_splits)

lemma rblob_length: "rblob t n bs = R_ok tok rest \<Longrightarrow> length rest \<le> length bs"
  using rv_loop_length [of n bs 0 0]
  by (auto simp: rblob_def Let_def split: if_splits)

lemma rtoken_length: "rtoken b bs = R_ok tok rest \<Longrightarrow> length rest \<le> length bs"
  by (auto simp: rtoken_def Let_def dest: rvalue_length rblob_length split: if_splits list.splits)

lemma mpack_read_length:
  assumes "mpack_read buf pass = (Mp_ok, tok, buf', pass')" and "buf \<noteq> []"
  shows "length buf' < length buf"
proof (cases "pass = 0")
  case True
  with assms show ?thesis
    by (cases buf) (auto simp: mpack_read_def dest!: rtoken_length split: rresult.splits)
next
  case False
  then have "0 < min (length buf) (unat pass)" using assms(2) by (simp add: unat_gt_0)
  with False assms show ?thesis by (auto simp: mpack_read_def Let_def)
qed

function mpack_parse :: "byte list \<Rightarrow> 32 word \<Rightarrow> node list \<Rightarrow> print_ctx \<Rightarrow> parse_status \<times> print_ctx" where
  "mpack_parse buf pass st ctx =
     (if buf = [] then (Mp_eof, ctx)
      else case mpack_read buf pass of
        (Mp_ok, tok, buf', pass') \<Rightarrow>
          (case mpack_parse_tok st tok ctx of
             (Mp_eof, st', ctx') \<Rightarrow> mpack_parse buf' pass' st' ctx'
           | (s, _, ctx') \<Rightarrow> (s, ctx'))
      | (s, _) \<Rightarrow> (s, ctx))"
  by pat_completeness auto
termination
  by (relation "measure (length o fst)") (auto intro: mpack_read_length [OF sym])

declare mpack_parse.simps [simp del]

text \<open>\<open>mpack_print\<close> and \<open>mpack_sprint\<close>: the result, -1 or a length, and the text.\<close>

definition mpack_print :: "byte list \<Rightarrow> print_ctx \<Rightarrow> bool \<times> print_ctx" where
  "mpack_print data ctx = (let (s, ctx) = mpack_parse data 0 [] ctx in (s = Mp_ok \<and> \<not> pc_error ctx, ctx))"

definition mpack_sprint :: "byte list \<Rightarrow> nat \<Rightarrow> int \<times> string" where
  "mpack_sprint data buf_size =
     (if buf_size = 0 then (- 1, [])
      else let (ok, ctx) = mpack_print data \<lparr>pc_text = [], pc_size = buf_size, pc_error = False\<rparr>
           in (if ok then int (length (pc_text ctx)) else - 1, pc_text ctx))"

section \<open>Writing to the buffer\<close>

lemma write_str_simps [simp]: "write_str ctx [] = ctx" "write_str ctx (c # cs) = write_str (write_char ctx c) cs"
  by (simp_all add: write_str_def)

lemma write_str_append: "write_str ctx (s @ t) = write_str (write_str ctx s) t"
  by (simp add: write_str_def)

lemma write_char_str: "write_char ctx c = write_str ctx [c]"
  by simp

lemma write_char_error [simp]: "pc_error ctx \<Longrightarrow> write_char ctx c = ctx"
  by (simp add: write_char_def)

lemma write_error [simp]: "pc_error ctx \<Longrightarrow> write_str ctx s = ctx"
  by (induction s) (simp_all add: write_char_def)

lemma write_str_fits:
  "\<not> pc_error ctx \<Longrightarrow> length (pc_text ctx) < pc_size ctx \<Longrightarrow>
   write_str ctx s =
     (if length (pc_text ctx) + length s < pc_size ctx then ctx\<lparr>pc_text := pc_text ctx @ s\<rparr>
      else ctx\<lparr>pc_text := pc_text ctx @ take (pc_size ctx - 1 - length (pc_text ctx)) s, pc_error := True\<rparr>)"
proof (induction s arbitrary: ctx)
  case Nil
  then show ?case by simp
next
  case (Cons c s)
  show ?case
  proof (cases "length (pc_text ctx) < pc_size ctx - 1")
    case True
    define ctx1 where "ctx1 = ctx\<lparr>pc_text := pc_text ctx @ [c]\<rparr>"
    have "write_str ctx (c # s) = write_str ctx1 s" using True Cons.prems(1) by (simp add: write_char_def ctx1_def)
    moreover have "pc_size ctx - Suc (length (pc_text ctx)) = Suc (pc_size ctx - Suc (Suc (length (pc_text ctx))))"
      using True by simp
    ultimately show ?thesis using Cons.IH [of ctx1] Cons.prems True by (simp add: ctx1_def)
  next
    case False
    then have "pc_size ctx = Suc (length (pc_text ctx))" using Cons.prems(2) by simp
    with Cons.prems(1) show ?thesis by (simp add: write_char_def)
  qed
qed

lemma digits_rev_dec_nat: "0 < v \<Longrightarrow> v < 10 ^ p \<Longrightarrow> rev (digits_rev p v) = dec_nat v"
proof (induction p v rule: digits_rev.induct)
  case (2 p v)
  show ?case
  proof (cases "v < 10")
    case True
    then have "digits_rev p 0 = []" by (cases p) simp_all
    with 2(2) True show ?thesis by (simp add: dec_nat.simps [of v])
  next
    case False
    then have "0 < v div 10" "v div 10 < 10 ^ p" using 2(3) by (simp_all add: div_greater_zero_iff less_mult_imp_div_less)
    with 2 False show ?thesis by (simp add: dec_nat.simps [of v])
  qed
qed simp

lemma write_uint32_text: "write_uint32 ctx v = write_str ctx (dec_nat (unat v))"
proof (cases "v = 0")
  case True
  moreover have "dec_nat 0 = ''0''" by code_simp
  ultimately show ?thesis by (simp add: write_uint32_def)
next
  case False
  have "unat v < 4294967296" using unsigned_less [of v, where 'a = nat] by simp
  then have "unat v < 10 ^ 11" by simp
  with False digits_rev_dec_nat [of "unat v" 11] show ?thesis by (simp add: write_uint32_def unat_gt_0)
qed

lemma write_int32_text: "write_int32 ctx v = write_str ctx (dec_int (sint v))"
proof (cases "v <s 0")
  case False
  then have "0 \<le> sint v" by (simp add: word_sless_alt)
  then have "uint v = sint v" using sint_uint32 [of v] uint_range [of v] by (simp split: if_splits)
  with False \<open>0 \<le> sint v\<close> show ?thesis by (simp add: write_int32_def write_uint32_text dec_int_def flip: nat_uint_eq)
next
  case True
  then have neg: "sint v < 0" by (simp add: word_sless_alt)
  then have u: "uint v = sint v + 4294967296" using sint_uint32 [of v] by (simp split: if_splits)
  have t: "dec_int (sint v) = CHR ''-'' # dec_nat (nat (- sint v))" using neg by (simp add: dec_int_def)
  show ?thesis
  proof (cases "v = 0x80000000")
    case m: True
    then have "nat (- sint v) = 2147483648" using sint_uint32 [of v] by simp
    moreover have "dec_nat 2147483648 = ''2147483648''"
      by (simp add: dec_nat.simps [of "numeral k" for k] dec_nat.simps [of 0] dec_nat.simps [of 1] digit_char_def) code_simp
    ultimately show ?thesis using True m t by (simp add: write_int32_def)
  next
    case False
    have "unat (- v) = nat (- sint v)"
    proof -
      have "v \<noteq> 0" using neg by auto
      then have "uint (- v) = 4294967296 - uint v" by (simp add: uint_word_ariths zmod_zminus1_eq_if uint_range mod_pos_pos_trivial uint_0_iff)
      with u show ?thesis by (simp flip: nat_uint_eq)
    qed
    with True False t show ?thesis by (simp add: write_int32_def write_uint32_text)
  qed
qed

section \<open>Values, their encoding and their text\<close>

datatype mval = V_nil | V_bool bool | V_uint "32 word" | V_int "32 word" | V_str "byte list"
  | V_array "mval list" | V_map "(mval \<times> mval) list"

text \<open>The value written by the operations of the writer, in order.\<close>

fun write_val :: "mpack_writer \<Rightarrow> mval \<Rightarrow> mpack_writer" where
  "write_val w V_nil = mw_nil w"
| "write_val w (V_bool b) = mw_bool w b"
| "write_val w (V_uint v) = mw_uint w v"
| "write_val w (V_int v) = mw_int w v"
| "write_val w (V_str s) = mw_str w s"
| "write_val w (V_array vs) = foldl write_val (mw_array w (of_nat (length vs))) vs"
| "write_val w (V_map kvs) = foldl (\<lambda>w (k, v). write_val (write_val w k) v) (mw_map w (of_nat (length kvs))) kvs"

fun enc_val :: "mval \<Rightarrow> byte list" where
  "enc_val V_nil = wtoken pack_nil"
| "enc_val (V_bool b) = wtoken (pack_boolean b)"
| "enc_val (V_uint v) = wtoken (pack_uint (ucast v))"
| "enc_val (V_int v) = wtoken (pack_sint (scast v))"
| "enc_val (V_str s) = enc_str s"
| "enc_val (V_array vs) = warray (of_nat (length vs)) @ concat (map enc_val vs)"
| "enc_val (V_map kvs) = wmap (of_nat (length kvs)) @ concat (map (\<lambda>(k, v). enc_val k @ enc_val v) kvs)"

fun join_comma :: "string list \<Rightarrow> string" where
  "join_comma [] = []"
| "join_comma [x] = x"
| "join_comma (x # xs) = x @ '','' @ join_comma xs"

fun val_text :: "mval \<Rightarrow> string" where
  "val_text V_nil = ''null''"
| "val_text (V_bool b) = (if b then ''true'' else ''false'')"
| "val_text (V_uint v) = dec_nat (unat v)"
| "val_text (V_int v) = dec_int (sint v)"
| "val_text (V_str s) = [CHR 0x22] @ concat (map (escape_char o char_of_byte) s) @ [CHR 0x22]"
| "val_text (V_array vs) = ''['' @ join_comma (map val_text vs) @ '']''"
| "val_text (V_map kvs) = ''{'' @ join_comma (map (\<lambda>(k, v). val_text k @ '':'' @ val_text v) kvs) @ ''}''"

text \<open>The nodes of the stack a value takes: the chunk of a string is a node of its own.\<close>

fun val_depth :: "mval \<Rightarrow> nat" where
  "val_depth (V_str s) = (if s = [] then 1 else 2)"
| "val_depth (V_array vs) = Suc (Max (set (0 # map val_depth vs)))"
| "val_depth (V_map kvs) = Suc (Max (set (0 # map (\<lambda>(k, v). max (val_depth k) (val_depth v)) kvs)))"
| "val_depth _ = 1"

text \<open>Lengths of 32 bits, and none of the two integers that are encoded wrongly.\<close>

fun val_ok :: "mval \<Rightarrow> bool" where
  "val_ok (V_int v) \<longleftrightarrow> \<not> misencoded v"
| "val_ok (V_str s) \<longleftrightarrow> length s < 2 ^ 32"
| "val_ok (V_array vs) \<longleftrightarrow> length vs < 2 ^ 32 \<and> list_all val_ok vs"
| "val_ok (V_map kvs) \<longleftrightarrow> length kvs < 2 ^ 32 \<and> list_all (\<lambda>(k, v). val_ok k \<and> val_ok v) kvs"
| "val_ok _ \<longleftrightarrow> True"

section \<open>One step of the parser\<close>

text \<open>What the parser does after a token has been entered.\<close>

definition resume :: "byte list \<Rightarrow> 32 word \<Rightarrow> node list \<Rightarrow> print_ctx \<Rightarrow> parse_status \<times> print_ctx" where
  "resume rest pass st ctx = (case exit_loop st ctx of (st', ctx', done) \<Rightarrow>
     if done then (Mp_ok, ctx') else mpack_parse rest pass st' ctx')"

definition fresh :: "mtoken \<Rightarrow> node" where
  "fresh tok = \<lparr>nd_tok = tok, nd_pos = 0, nd_key_visited = False\<rparr>"

lemma fresh_simps [simp]: "nd_tok (fresh t) = t" "nd_pos (fresh t) = 0" "nd_key_visited (fresh t) = False"
  by (simp_all add: fresh_def)

lemma parse_token:
  assumes "decode bs = R_ok tok rest" and "length ps < max_object_depth"
  shows "mpack_parse bs 0 ps ctx =
    resume rest (if is_blob (mt_type tok) then mt_length tok else 0) (fresh tok # ps) (print_enter ps tok ctx)"
proof -
  have "bs \<noteq> []" using assms(1) by (auto simp: decode_def)
  with assms show ?thesis
    by (simp add: mpack_parse.simps [of bs] mpack_read_def mpack_parse_tok_def resume_def fresh_def Let_def split: prod.split)
qed

definition chunk_token :: "byte list \<Rightarrow> mtoken" where
  "chunk_token s = blank_token\<lparr>mt_type := MT_CHUNK, mt_length := of_nat (length s), mt_chunk := s\<rparr>"

lemma chunk_token_simps [simp]:
  "mt_type (chunk_token s) = MT_CHUNK" "mt_length (chunk_token s) = of_nat (length s)" "mt_chunk (chunk_token s) = s"
  by (simp_all add: chunk_token_def)

lemma parse_chunk:
  assumes "s \<noteq> []" and "length s < 2 ^ 32" and "length ps < max_object_depth"
  shows "mpack_parse (s @ rest) (of_nat (length s)) ps ctx =
    resume rest 0 (fresh (chunk_token s) # ps) (print_enter ps (chunk_token s) ctx)"
proof -
  have n: "unat (of_nat (length s) :: 32 word) = length s" using assms(2) by (simp add: unat_of_nat)
  then have nz: "of_nat (length s) \<noteq> (0 :: 32 word)" using assms(1) by (metis length_0_conv unat_0)
  with n assms show ?thesis
    by (simp add: mpack_parse.simps [of "s @ rest"] mpack_read_def mpack_parse_tok_def resume_def fresh_def
        chunk_token_def Let_def split: prod.split)
qed

lemma resume_pop:
  "mpack_parser_pop st = Some (tok, ps) \<Longrightarrow> resume rest pass st ctx = resume rest pass ps (print_exit ps tok ctx)"
  by (cases "st = []") (simp add: mpack_parser_pop_def, simp add: resume_def exit_loop.simps [of st])

lemma resume_stay:
  "st \<noteq> [] \<Longrightarrow> mpack_parser_pop st = None \<Longrightarrow> resume rest pass st ctx = mpack_parse rest pass st ctx"
  by (simp add: resume_def exit_loop.simps [of st])

lemma resume_empty: "resume rest pass [] ctx = (Mp_ok, ctx)"
  by (simp add: resume_def exit_loop.simps)

text \<open>The separator written after a child, with the parent already advanced.\<close>

definition sep_text :: "node list \<Rightarrow> string" where
  "sep_text ps = (case ps of [] \<Rightarrow> []
     | p # _ \<Rightarrow>
        if \<not> is_blob (mt_type (nd_tok p)) \<and> nd_pos p < unat (mt_length (nd_tok p))
        then (if mt_type (nd_tok p) = MT_MAP \<and> nd_key_visited p then '':'' else '','') else [])"

definition next_child :: "node list \<Rightarrow> node list" where
  "next_child ps = count_child blank_token ps"

lemma count_child_next: "mt_type tok \<noteq> MT_CHUNK \<Longrightarrow> count_child tok ps = next_child ps"
  by (simp add: next_child_def count_child_def blank_token_def split: list.split)

lemma print_exit_text:
  "print_exit ps tok ctx = write_str ctx ((case mt_type tok of MT_STR \<Rightarrow> [CHR 0x22] | MT_ARRAY \<Rightarrow> '']''
     | MT_MAP \<Rightarrow> ''}'' | _ \<Rightarrow> []) @ sep_text ps)"
  by (auto simp: print_exit_def sep_text_def Let_def write_str_append split: ttype.split list.split)

text \<open>A token without children.\<close>

lemma parse_scalar:
  assumes "decode bs = R_ok tok rest" and "length ps < max_object_depth"
    and "\<not> has_children (mt_type tok)" and "mt_type tok \<noteq> MT_CHUNK"
    and "\<And>ctx. print_enter ps tok ctx = write_str ctx s"
  shows "mpack_parse bs 0 ps ctx = resume rest 0 (next_child ps) (write_str ctx (s @ sep_text (next_child ps)))"
proof -
  have "\<not> is_blob (mt_type tok)" using assms(3) by (simp add: has_children_def)
  moreover have "mpack_parser_pop (fresh tok # ps) = Some (tok, next_child ps)"
    using assms(3,4) by (simp add: mpack_parser_pop_def count_child_next)
  moreover have "print_exit (next_child ps) tok ctx' = write_str ctx' (sep_text (next_child ps))" for ctx'
    using assms(3) by (simp add: print_exit_text has_children_def is_blob_def split: ttype.splits)
  ultimately show ?thesis using parse_token [OF assms(1,2)] assms(5) by (simp add: resume_pop write_str_append)
qed

section \<open>The bytes of a value print as its text\<close>

definition prints :: "mval \<Rightarrow> bool" where
  "prints v \<longleftrightarrow> (\<forall>rest ps ctx. length ps + val_depth v \<le> max_object_depth \<longrightarrow>
     mpack_parse (enc_val v @ rest) 0 ps ctx =
       resume rest 0 (next_child ps) (write_str ctx (val_text v @ sep_text (next_child ps))))"

lemma foldl_escape:
  "foldl (\<lambda>ctx b. write_escaped_char ctx (char_of_byte b)) ctx s =
    write_str ctx (concat (map (escape_char o char_of_byte) s))"
  by (induction s arbitrary: ctx) (simp_all add: write_escaped_char_def write_str_append)

lemma prints_str:
  assumes "length s < 2 ^ 32"
  shows "prints (V_str s)"
  unfolding prints_def
proof (intro allI impI)
  fix rest and ps :: "node list" and ctx
  assume d: "length ps + val_depth (V_str s) \<le> max_object_depth"
  let ?h = "header MT_STR (of_nat (length s))"
  have dec: "decode (enc_val (V_str s) @ rest) = R_ok ?h (s @ rest)"
    by (simp add: enc_str_def decode_str)
  have n: "unat (of_nat (length s) :: 32 word) = length s" using assms by (simp add: unat_of_nat)
  have p: "length ps < max_object_depth" using d by (simp split: if_splits)
  have quote: "print_enter ps ?h ctx = write_str ctx [CHR 0x22]"
    by (cases "pc_error ctx") (simp_all add: print_enter_def flip: write_char_str)
  have start: "mpack_parse (enc_val (V_str s) @ rest) 0 ps ctx =
      resume (s @ rest) (of_nat (length s)) (fresh ?h # ps) (write_str ctx [CHR 0x22])"
    using parse_token [OF dec p, of ctx] quote by (simp add: is_blob_def)
  have close: "resume rest 0 (nd # ps) ctx1 = resume rest 0 (next_child ps) (write_str ctx1 ([CHR 0x22] @ sep_text (next_child ps)))"
    if "nd_tok nd = ?h" "nd_pos nd = length s" for nd ctx1
  proof -
    have "mpack_parser_pop (nd # ps) = Some (?h, next_child ps)"
      using that n by (simp add: mpack_parser_pop_def count_child_next)
    then show ?thesis by (simp add: resume_pop print_exit_text)
  qed
  show "mpack_parse (enc_val (V_str s) @ rest) 0 ps ctx =
      resume rest 0 (next_child ps) (write_str ctx (val_text (V_str s) @ sep_text (next_child ps)))"
  proof (cases "s = []")
    case True
    with start close [of "fresh ?h"] show ?thesis by (simp add: write_str_append)
  next
    case False
    let ?nd = "(fresh ?h)\<lparr>nd_pos := length s\<rparr>"
    have "has_children MT_STR" "0 < length s" using False by (simp_all add: has_children_def is_blob_def)
    then have "resume (s @ rest) (of_nat (length s)) (fresh ?h # ps) (write_str ctx [CHR 0x22]) =
        mpack_parse (s @ rest) (of_nat (length s)) (fresh ?h # ps) (write_str ctx [CHR 0x22])"
      using n by (simp add: resume_stay mpack_parser_pop_def)
    also have "\<dots> = resume rest 0 (fresh (chunk_token s) # fresh ?h # ps)
        (print_enter (fresh ?h # ps) (chunk_token s) (write_str ctx [CHR 0x22]))"
      using d False assms by (intro parse_chunk) simp_all
    also have "print_enter (fresh ?h # ps) (chunk_token s) (write_str ctx [CHR 0x22]) =
        write_str ctx ([CHR 0x22] @ concat (map (escape_char o char_of_byte) s))"
      by (simp add: print_enter_def parent_is_blob_def foldl_escape write_str_append)
    also have "resume rest 0 (fresh (chunk_token s) # fresh ?h # ps) ctx1 = resume rest 0 (?nd # ps) ctx1" for ctx1
    proof -
      have "mpack_parser_pop (fresh (chunk_token s) # fresh ?h # ps) = Some (chunk_token s, ?nd # ps)"
        using n by (simp add: mpack_parser_pop_def has_children_def is_blob_def count_child_def)
      moreover have "print_exit (?nd # ps) (chunk_token s) ctx1 = ctx1"
        by (simp add: print_exit_text sep_text_def is_blob_def)
      ultimately show ?thesis by (simp add: resume_pop)
    qed
    finally show ?thesis using start close [of ?nd] by (simp add: write_str_append)
  qed
qed

lemma prints_scalar:
  assumes "\<And>rest. \<exists>tok. decode (enc_val v @ rest) = R_ok tok rest \<and> \<not> has_children (mt_type tok) \<and> mt_type tok \<noteq> MT_CHUNK \<and>
    (\<forall>ps ctx. print_enter ps tok ctx = write_str ctx (val_text v))" and "val_depth v = 1"
  shows "prints v"
  unfolding prints_def using assms parse_scalar by (metis Suc_eq_plus1 Suc_le_eq)

lemma prints_nil: "prints V_nil"
  by (rule prints_scalar)
    (auto simp: print_enter_def wtoken_def pack_nil_def blank_token_def w1_def rtoken_def small_def has_children_def is_blob_def)

lemma prints_bool: "prints (V_bool b)"
  by (rule prints_scalar)
    (auto simp: print_enter_def wtoken_def pack_boolean_def blank_token_def w1_def rtoken_def small_def
      has_children_def is_blob_def unpack_boolean_def)

lemma number_hi: "mt_hi (number t n lo) = 0" "mt_lo (number t n lo) = lo"
  by (simp_all add: number_def blank_token_def)

lemma number_scalar: "t = MT_UINT \<or> t = MT_SINT \<Longrightarrow> \<not> has_children (mt_type (number t n v)) \<and> mt_type (number t n v) \<noteq> MT_CHUNK"
  by (auto simp: has_children_def is_blob_def)

lemma print_uint: "print_enter ps (number MT_UINT n v) ctx = write_str ctx (dec_nat (unat v))"
  by (cases "pc_error ctx") (simp_all add: print_enter_def number_hi write_uint32_text)

lemma prints_uint: "prints (V_uint v)"
proof (rule prints_scalar)
  fix rest
  obtain n where "decode (wpint 0 v @ rest) = R_ok (number MT_UINT n v) rest" using decode_uint by blast
  then show "\<exists>tok. decode (enc_val (V_uint v) @ rest) = R_ok tok rest \<and> \<not> has_children (mt_type tok) \<and> mt_type tok \<noteq> MT_CHUNK \<and>
      (\<forall>ps ctx. print_enter ps tok ctx = write_str ctx (val_text (V_uint v)))"
    using number_scalar print_uint by (auto simp: wtoken_uint)
qed simp

lemma prints_int:
  assumes "\<not> misencoded v"
  shows "prints (V_int v)"
proof (rule prints_scalar)
  fix rest
  show "\<exists>tok. decode (enc_val (V_int v) @ rest) = R_ok tok rest \<and> \<not> has_children (mt_type tok) \<and> mt_type tok \<noteq> MT_CHUNK \<and>
      (\<forall>ps ctx. print_enter ps tok ctx = write_str ctx (val_text (V_int v)))"
  proof (cases "2147483648 \<le> uint v")
    case True
    then obtain n u where d: "decode (enc_val (V_int v) @ rest) = R_ok (number MT_SINT n u) rest"
      "unpack_sint (number MT_SINT n u) = int (unat v) - 2 ^ 32"
      using decode_nint [OF _ assms] wtoken_int [of v] unat_ge [of v] by (metis enc_val.simps(4))
    then have "unpack_sint (number MT_SINT n u) = sint v" using True sint_uint32 [of v] by simp
    moreover have "- 2147483648 \<le> sint v" "sint v \<le> 2147483647" "word_of_int (sint v) = v"
      using True sint_uint32 [of v] uint_range [of v] by simp_all
    ultimately have "print_enter ps (number MT_SINT n u) ctx = write_str ctx (val_text (V_int v))" for ps ctx
      by (cases "pc_error ctx") (simp_all add: print_enter_def Let_def write_int32_text)
    with d(1) number_scalar show ?thesis by auto
  next
    case False
    then obtain n where d: "decode (enc_val (V_int v) @ rest) = R_ok (number MT_UINT n v) rest"
      using decode_uint [of v rest] wtoken_int [of v] by auto
    have "dec_int (sint v) = dec_nat (unat v)"
      using False sint_uint32 [of v] uint_range [of v] by (simp add: dec_int_def flip: nat_uint_eq)
    with d number_scalar print_uint show ?thesis by auto
  qed
qed simp

text \<open>The children of an array, and of a map, from the first one still to come.\<close>

lemma array_children:
  assumes "vs \<noteq> []" and "\<And>v. v \<in> set vs \<Longrightarrow> prints v" and "\<And>v. v \<in> set vs \<Longrightarrow> Suc (length ps) + val_depth v \<le> max_object_depth"
    and "mt_type (nd_tok nd) = MT_ARRAY" and "unat (mt_length (nd_tok nd)) = nd_pos nd + length vs"
  shows "mpack_parse (concat (map enc_val vs) @ rest) 0 (nd # ps) ctx =
    resume rest 0 (nd\<lparr>nd_pos := nd_pos nd + length vs\<rparr> # ps) (write_str ctx (join_comma (map val_text vs)))"
  using assms
proof (induction vs arbitrary: nd ctx)
  case Nil
  then show ?case by simp
next
  case (Cons v vs)
  let ?nd = "nd\<lparr>nd_pos := Suc (nd_pos nd)\<rparr>"
  have "next_child (nd # ps) = ?nd # ps"
    using Cons.prems(4) by (simp add: next_child_def count_child_def blank_token_def)
  then have first: "mpack_parse (enc_val v @ rest') 0 (nd # ps) ctx =
      resume rest' 0 (?nd # ps) (write_str ctx (val_text v @ sep_text (?nd # ps)))" for rest'
    using Cons.prems(2,3) [of v] by (simp add: prints_def)
  show ?case
  proof (cases "vs = []")
    case True
    with first [of rest] Cons.prems(4,5) show ?thesis by (simp add: sep_text_def is_blob_def)
  next
    case False
    have "sep_text (?nd # ps) = '',''" using Cons.prems(4,5) False by (simp add: sep_text_def is_blob_def)
    moreover have "mpack_parser_pop (?nd # ps) = None"
      using Cons.prems(4,5) False by (simp add: mpack_parser_pop_def has_children_def)
    ultimately have "mpack_parse (concat (map enc_val (v # vs)) @ rest) 0 (nd # ps) ctx =
        mpack_parse (concat (map enc_val vs) @ rest) 0 (?nd # ps) (write_str ctx (val_text v @ '',''))"
      using first [of "concat (map enc_val vs) @ rest"] by (simp add: resume_stay)
    also have "\<dots> = resume rest 0 (?nd\<lparr>nd_pos := nd_pos ?nd + length vs\<rparr> # ps)
        (write_str (write_str ctx (val_text v @ '','')) (join_comma (map val_text vs)))"
      using Cons.prems False by (intro Cons.IH) simp_all
    finally show ?thesis using False by (cases vs) (simp_all add: write_str_append)
  qed
qed

abbreviation pair_text :: "mval \<times> mval \<Rightarrow> string" where
  "pair_text kv \<equiv> (case kv of (k, v) \<Rightarrow> val_text k @ '':'' @ val_text v)"

lemma map_children:
  assumes "kvs \<noteq> []" and "\<And>k v. (k, v) \<in> set kvs \<Longrightarrow> prints k \<and> prints v"
    and "\<And>k v. (k, v) \<in> set kvs \<Longrightarrow> Suc (length ps) + max (val_depth k) (val_depth v) \<le> max_object_depth"
    and "mt_type (nd_tok nd) = MT_MAP" and "unat (mt_length (nd_tok nd)) = nd_pos nd + length kvs" and "\<not> nd_key_visited nd"
  shows "mpack_parse (concat (map (\<lambda>(k, v). enc_val k @ enc_val v) kvs) @ rest) 0 (nd # ps) ctx =
    resume rest 0 (nd\<lparr>nd_pos := nd_pos nd + length kvs\<rparr> # ps) (write_str ctx (join_comma (map pair_text kvs)))"
  using assms
proof (induction kvs arbitrary: nd ctx)
  case Nil
  then show ?case by simp
next
  case (Cons kv kvs)
  obtain k v where kv: "kv = (k, v)" by (cases kv)
  let ?nk = "nd\<lparr>nd_key_visited := True\<rparr>" and ?nd = "nd\<lparr>nd_pos := Suc (nd_pos nd)\<rparr>"
  have self: "\<And>b. (nd_key_visited nd = b) \<Longrightarrow> nd\<lparr>nd_key_visited := b\<rparr> = nd" by simp
  have nk: "next_child (nd # ps) = ?nk # ps"
    using Cons.prems(4,6) by (simp add: next_child_def count_child_def blank_token_def)
  have nv: "next_child (?nk # ps) = ?nd # ps"
    using Cons.prems(4,6) by (simp add: next_child_def count_child_def blank_token_def)
  have P: "prints k" "prints v" "length (nd # ps) + val_depth k \<le> max_object_depth" "length (?nk # ps) + val_depth v \<le> max_object_depth"
    using Cons.prems(2,3) [of k v] kv by simp_all
  have sk: "sep_text (?nk # ps) = '':''" using Cons.prems(4,5) by (simp add: sep_text_def is_blob_def)
  have pk: "mpack_parser_pop (?nk # ps) = None"
    using Cons.prems(4,5) by (simp add: mpack_parser_pop_def has_children_def)
  have "mpack_parse ((enc_val k @ enc_val v) @ rest') 0 (nd # ps) ctx =
      mpack_parse (enc_val v @ rest') 0 (?nk # ps) (write_str ctx (val_text k @ '':''))" for rest'
    using P(1,3) nk sk pk by (simp add: prints_def resume_stay)
  moreover have "mpack_parse (enc_val v @ rest') 0 (?nk # ps) (write_str ctx (val_text k @ '':'')) =
      resume rest' 0 (?nd # ps) (write_str (write_str ctx (val_text k @ '':'')) (val_text v @ sep_text (?nd # ps)))" for rest'
    using P(2,4) nv unfolding prints_def by metis
  ultimately have first: "mpack_parse ((enc_val k @ enc_val v) @ rest') 0 (nd # ps) ctx =
      resume rest' 0 (?nd # ps) (write_str ctx (pair_text kv @ sep_text (?nd # ps)))" for rest'
    by (simp add: kv write_str_append)
  show ?case
  proof (cases "kvs = []")
    case True
    with first [of rest] Cons.prems(4-6) kv show ?thesis by (simp add: sep_text_def is_blob_def)
  next
    case False
    have "sep_text (?nd # ps) = '',''" using Cons.prems(4-6) False by (simp add: sep_text_def is_blob_def)
    moreover have "mpack_parser_pop (?nd # ps) = None"
      using Cons.prems(4,5) False by (simp add: mpack_parser_pop_def has_children_def)
    ultimately have "mpack_parse (concat (map (\<lambda>(k, v). enc_val k @ enc_val v) (kv # kvs)) @ rest) 0 (nd # ps) ctx =
        mpack_parse (concat (map (\<lambda>(k, v). enc_val k @ enc_val v) kvs) @ rest) 0 (?nd # ps) (write_str ctx (pair_text kv @ '',''))"
      using first [of "concat (map (\<lambda>(k, v). enc_val k @ enc_val v) kvs) @ rest"] kv by (simp add: resume_stay)
    also have "\<dots> = resume rest 0 (?nd\<lparr>nd_pos := nd_pos ?nd + length kvs\<rparr> # ps)
        (write_str (write_str ctx (pair_text kv @ '','')) (join_comma (map pair_text kvs)))"
      using Cons.prems False by (intro Cons.IH) (simp_all, blast?)
    finally show ?thesis using False kv by (cases kvs) (simp_all add: write_str_append)
  qed
qed

text \<open>A collection, given what its children do.\<close>

lemma parse_collection:
  assumes dec: "decode bs = R_ok (header t (of_nat n)) body" and t: "t = MT_ARRAY \<or> t = MT_MAP"
    and n: "n < 2 ^ 32" and p: "length ps < max_object_depth"
    and kids: "\<And>ctx. n \<noteq> 0 \<Longrightarrow> mpack_parse body 0 (fresh (header t (of_nat n)) # ps) ctx =
      resume rest 0 ((fresh (header t (of_nat n)))\<lparr>nd_pos := n\<rparr> # ps) (write_str ctx s)"
    and none: "n = 0 \<Longrightarrow> s = [] \<and> body = rest"
  shows "mpack_parse bs 0 ps ctx = resume rest 0 (next_child ps)
    (write_str ctx ((if t = MT_ARRAY then ''['' else ''{'') @ s @ (if t = MT_ARRAY then '']'' else ''}'') @ sep_text (next_child ps)))"
proof -
  let ?h = "header t (of_nat n)" and ?open = "if t = MT_ARRAY then ''['' else ''{''"
  have u: "unat (of_nat n :: 32 word) = n" using n by (simp add: unat_of_nat)
  have enter: "print_enter ps ?h ctx = write_str ctx ?open"
    using t by (cases "pc_error ctx") (auto simp: print_enter_def)
  have close: "resume rest 0 (nd # ps) ctx1 = resume rest 0 (next_child ps)
      (write_str ctx1 ((if t = MT_ARRAY then '']'' else ''}'') @ sep_text (next_child ps)))"
    if "nd_tok nd = ?h" "nd_pos nd = n" for nd ctx1
  proof -
    have "mpack_parser_pop (nd # ps) = Some (?h, next_child ps)"
      using that t u by (auto simp: mpack_parser_pop_def count_child_next)
    then show ?thesis using t by (auto simp: resume_pop print_exit_text)
  qed
  have start: "mpack_parse bs 0 ps ctx = resume body 0 (fresh ?h # ps) (write_str ctx ?open)"
    using parse_token [OF dec p, of ctx] t enter by (auto simp: is_blob_def)
  show ?thesis
  proof (cases "n = 0")
    case True
    with start none close [of "fresh ?h"] show ?thesis by (simp add: write_str_append)
  next
    case False
    then have "resume body 0 (fresh ?h # ps) ctx1 = mpack_parse body 0 (fresh ?h # ps) ctx1" for ctx1
      using u t by (intro resume_stay) (auto simp: mpack_parser_pop_def has_children_def)
    with start kids [OF False] close [of "(fresh ?h)\<lparr>nd_pos := n\<rparr>"] show ?thesis by (simp add: write_str_append)
  qed
qed

lemma depth_child:
  "v \<in> set vs \<Longrightarrow> Suc (val_depth v) \<le> val_depth (V_array vs)"
  "(k, v) \<in> set kvs \<Longrightarrow> Suc (max (val_depth k) (val_depth v)) \<le> val_depth (V_map kvs)"
proof -
  have max: "x \<in> set xs \<Longrightarrow> x \<le> Max (set (0 # xs))" for x and xs :: "nat list" by simp
  show "v \<in> set vs \<Longrightarrow> Suc (val_depth v) \<le> val_depth (V_array vs)"
    using max [of "val_depth v" "map val_depth vs"] by simp
  assume kv: "(k, v) \<in> set kvs"
  let ?d = "\<lambda>(k, v). max (val_depth k) (val_depth v)"
  have "?d (k, v) \<in> set (map ?d kvs)" unfolding set_map using kv by (rule imageI)
  from max [OF this] show "Suc (max (val_depth k) (val_depth v)) \<le> val_depth (V_map kvs)" by simp
qed

lemma concat_length_0: "length xs = (0::nat) \<Longrightarrow> concat (map f xs) = []"
  by simp

lemma prints_array:
  assumes "length vs < 2 ^ 32" and "\<And>v. v \<in> set vs \<Longrightarrow> prints v"
  shows "prints (V_array vs)"
  unfolding prints_def
proof (intro allI impI)
  fix rest and ps :: "node list" and ctx
  assume d: "length ps + val_depth (V_array vs) \<le> max_object_depth"
  let ?h = "header MT_ARRAY (of_nat (length vs))"
  have u: "unat (of_nat (length vs) :: 32 word) = length vs" using assms(1) by (simp add: unat_of_nat)
  have kids: "mpack_parse (concat (map enc_val vs) @ rest) 0 (fresh ?h # ps) ctx1 =
      resume rest 0 ((fresh ?h)\<lparr>nd_pos := length vs\<rparr> # ps) (write_str ctx1 (join_comma (map val_text vs)))"
    if ne: "length vs \<noteq> 0" for ctx1
  proof -
    have b: "Suc (length ps) + val_depth v \<le> max_object_depth" if "v \<in> set vs" for v
      using depth_child(1) [OF that] d by linarith
    have "vs \<noteq> []" using ne by simp
    from array_children [OF this assms(2) b, of "fresh ?h" rest ctx1] u show ?thesis by simp
  qed
  have "length ps < max_object_depth" using d by simp
  with parse_collection [OF _ _ assms(1) _ kids, of "enc_val (V_array vs) @ rest"]
  show "mpack_parse (enc_val (V_array vs) @ rest) 0 ps ctx =
      resume rest 0 (next_child ps) (write_str ctx (val_text (V_array vs) @ sep_text (next_child ps)))"
    by (simp add: decode_array)
qed

lemma prints_map:
  assumes "length kvs < 2 ^ 32" and "\<And>k v. (k, v) \<in> set kvs \<Longrightarrow> prints k \<and> prints v"
  shows "prints (V_map kvs)"
  unfolding prints_def
proof (intro allI impI)
  fix rest and ps :: "node list" and ctx
  assume d: "length ps + val_depth (V_map kvs) \<le> max_object_depth"
  let ?h = "header MT_MAP (of_nat (length kvs))"
  have u: "unat (of_nat (length kvs) :: 32 word) = length kvs" using assms(1) by (simp add: unat_of_nat)
  have kids: "mpack_parse (concat (map (\<lambda>(k, v). enc_val k @ enc_val v) kvs) @ rest) 0 (fresh ?h # ps) ctx1 =
      resume rest 0 ((fresh ?h)\<lparr>nd_pos := length kvs\<rparr> # ps) (write_str ctx1 (join_comma (map pair_text kvs)))"
    if ne: "length kvs \<noteq> 0" for ctx1
  proof -
    have b: "Suc (length ps) + max (val_depth k) (val_depth v) \<le> max_object_depth" if "(k, v) \<in> set kvs" for k v
      using depth_child(2) [OF that] d by linarith
    have "kvs \<noteq> []" using ne by simp
    from map_children [OF this assms(2) b, of "fresh ?h" rest ctx1] u show ?thesis by simp
  qed
  have "length ps < max_object_depth" using d by simp
  with parse_collection [OF _ _ assms(1) _ kids, of "enc_val (V_map kvs) @ rest"]
  show "mpack_parse (enc_val (V_map kvs) @ rest) 0 ps ctx =
      resume rest 0 (next_child ps) (write_str ctx (val_text (V_map kvs) @ sep_text (next_child ps)))"
    by (simp add: decode_map)
qed

lemma val_prints: "val_ok v \<Longrightarrow> prints v"
proof (induction v)
  case (V_array vs)
  then show ?case by (intro prints_array) (auto simp: list_all_iff)
next
  case (V_map kvs)
  then show ?case by (intro prints_map) (auto simp: list_all_iff elim!: fsts.cases snds.cases)
qed (simp_all add: prints_nil prints_bool prints_uint prints_int prints_str)

section \<open>The writer produces the encoding\<close>

lemma mw_array_map_fits:
  assumes "\<not> mw_error w"
  shows "length (mw_bytes w) + length (warray n) \<le> mw_capacity w \<Longrightarrow> mw_array w n = w\<lparr>mw_bytes := mw_bytes w @ warray n\<rparr>"
    and "length (mw_bytes w) + length (wmap n) \<le> mw_capacity w \<Longrightarrow> mw_map w n = w\<lparr>mw_bytes := mw_bytes w @ wmap n\<rparr>"
  using assms mw_token_fits [of w "pack_blob MT_ARRAY n"] mw_token_fits [of w "pack_blob MT_MAP n"]
  by (simp_all add: mw_array_def mw_map_def wtoken_def pack_blob_def blank_token_def)

definition writes :: "mval \<Rightarrow> bool" where
  "writes v \<longleftrightarrow> (\<forall>w. \<not> mw_error w \<longrightarrow> length (mw_bytes w) + length (enc_val v) \<le> mw_capacity w \<longrightarrow>
     write_val w v = w\<lparr>mw_bytes := mw_bytes w @ enc_val v\<rparr>)"

lemma writes_list:
  "\<forall>v\<in>set vs. writes v \<Longrightarrow> \<not> mw_error w \<Longrightarrow> length (mw_bytes w) + length (concat (map enc_val vs)) \<le> mw_capacity w \<Longrightarrow>
   foldl write_val w vs = w\<lparr>mw_bytes := mw_bytes w @ concat (map enc_val vs)\<rparr>"
proof (induction vs arbitrary: w)
  case (Cons v vs)
  have "write_val w v = w\<lparr>mw_bytes := mw_bytes w @ enc_val v\<rparr>" using Cons.prems by (simp add: writes_def)
  with Cons.IH [of "w\<lparr>mw_bytes := mw_bytes w @ enc_val v\<rparr>"] Cons.prems show ?case by simp
qed simp

lemma writes_pairs:
  "\<forall>(k, v)\<in>set kvs. writes k \<and> writes v \<Longrightarrow> \<not> mw_error w \<Longrightarrow>
   length (mw_bytes w) + length (concat (map (\<lambda>(k, v). enc_val k @ enc_val v) kvs)) \<le> mw_capacity w \<Longrightarrow>
   foldl (\<lambda>w (k, v). write_val (write_val w k) v) w kvs =
     w\<lparr>mw_bytes := mw_bytes w @ concat (map (\<lambda>(k, v). enc_val k @ enc_val v) kvs)\<rparr>"
proof (induction kvs arbitrary: w)
  case (Cons kv kvs)
  obtain k v where kv: "kv = (k, v)" by (cases kv)
  have "write_val (write_val w k) v = w\<lparr>mw_bytes := mw_bytes w @ enc_val k @ enc_val v\<rparr>"
    using Cons.prems kv by (simp add: writes_def)
  with Cons.IH [of "w\<lparr>mw_bytes := mw_bytes w @ enc_val k @ enc_val v\<rparr>"] Cons.prems kv show ?case by simp
qed simp

lemma val_writes: "writes v"
proof (induction v)
  case (V_array vs)
  then have "\<forall>v\<in>set vs. writes v" by blast
  then show ?case
    unfolding writes_def [of "V_array vs"] by (auto simp: mw_array_map_fits intro!: trans [OF writes_list])
next
  case (V_map kvs)
  then have "\<forall>(k, v)\<in>set kvs. writes k \<and> writes v" by (auto elim!: fsts.cases snds.cases)
  then show ?case
    unfolding writes_def [of "V_map kvs"] by (auto simp: mw_array_map_fits intro!: trans [OF writes_pairs])
next
  case (V_str s)
  then show ?case by (simp add: writes_def mw_str_fits)
qed (simp_all add: writes_def mw_nil_def mw_bool_def mw_uint_def mw_int_def mw_token_fits)

section \<open>Printing what was written\<close>

lemma mpack_sprint_enc:
  assumes "val_ok v" and "val_depth v \<le> max_object_depth" and "0 < buf_size"
  shows "mpack_sprint (enc_val v @ rest) buf_size =
    (if length (val_text v) < buf_size then (int (length (val_text v)), val_text v)
     else (- 1, take (buf_size - 1) (val_text v)))"
proof -
  let ?ctx = "\<lparr>pc_text = [], pc_size = buf_size, pc_error = False\<rparr>"
  have "mpack_parse (enc_val v @ rest) 0 [] ?ctx = resume rest 0 (next_child []) (write_str ?ctx (val_text v @ sep_text (next_child [])))"
    using val_prints [OF assms(1)] assms(2) by (simp add: prints_def)
  also have "\<dots> = (Mp_ok, write_str ?ctx (val_text v))"
    by (simp add: next_child_def count_child_def resume_empty sep_text_def)
  finally show ?thesis
    using assms(3) by (simp add: mpack_sprint_def mpack_print_def write_str_fits)
qed


lemma char_of_byte_of: "char_of_byte (byte_of c) = c"
  by (simp add: char_of_byte_def byte_of_def char_val_def unat_of_nat)

definition demo_val :: mval where
  "demo_val = V_map [(V_str (bytes_of ''args''), V_array [V_nil, V_bool True, V_str (bytes_of ''a'')])]"


end
