(* ===== verification/TclInterp.thy ===== *)
theory TclInterp
  imports TclList OuHashMap MpackPrint
begin

text \<open>
  The Tcl interpreter (\<open>ot/user/tcl.cpp\<close>, \<open>Interp\<close>): the command table with its hash index,
  the call frames, the result, the output and the MessagePack buffer; the evaluator; and
  every command that \<open>register_core_commands\<close> and \<open>register_mpack_functions\<close> install.
  Strings are the texts of the string class (theory \<open>OuString\<close> relates the two).
  \<open>eval\<close> takes fuel for the nesting of evaluations and for the turns of \<open>while\<close>.
\<close>

section \<open>State\<close>

datatype status = S_OK | S_ERR | S_RETURN | S_BREAK | S_CONTINUE

datatype func =
    F_puts | F_set | F_if | F_while | F_break | F_continue | F_proc | F_return
  | F_add | F_sub | F_mul | F_div | F_mod | F_and | F_shl | F_shr
  | F_eq | F_ne | F_gt | F_lt | F_gte | F_lte | F_notn
  | F_help | F_commands | F_list | F_lindex | F_lappend | F_llength | F_lrange
  | F_split | F_join | F_lloop | F_hex | F_oct | F_bin | F_eval
  | F_mp_reset | F_mp_array | F_mp_map | F_mp_string | F_mp_int | F_mp_uint | F_mp_bool
  | F_mp_nil | F_mp_print | F_mp_size | F_mp_hex
  | F_call_proc | F_ext nat

text \<open>The private data of a procedure is its argument list and its body.\<close>

record cmd =
  c_name :: string
  c_func :: func
  c_proc :: "(string \<times> string) option"
  c_doc :: string

type_synonym frame = "(string \<times> string) list"

text \<open>
  The frames are kept innermost first; the hash index holds positions in the command
  list, the model of the pointers; \<open>i_mpack\<close> is \<open>None\<close> while no buffer is registered.
\<close>

record 'e interp =
  i_commands :: "cmd list"
  i_hash :: "nat hashmap"
  i_frames :: "frame list"
  i_result :: string
  i_out :: "string list"
  i_mpack :: "mpack_writer option"
  i_ext :: 'e

text \<open>
  What the code takes from its surroundings: the signedness of \<open>char\<close> in the hash, and the
  commands that other programs register, by number. Such a command works on the state its
  private data points to, \<open>i_ext\<close>, and may set the result.
\<close>

record 'e env =
  env_signed :: bool
  env_command :: "nat \<Rightarrow> 'e \<Rightarrow> string list \<Rightarrow> ('e \<times> string option \<times> status) run"

type_synonym 'e outcome = "('e interp \<times> status) run"

definition interp_with :: "'e \<Rightarrow> 'e interp" where
  "interp_with e = \<lparr>i_commands = [], i_hash = hm_new (\<lambda>_. True), i_frames = [[]], i_result = [],
     i_out = [], i_mpack = None, i_ext = e\<rparr>"

definition interp_new :: "unit interp" where
  "interp_new = interp_with ()"

section \<open>Basic operations\<close>

text \<open>\<open>format_error\<close>: a buffer of 4096 bytes, taken over as a C string.\<close>

definition format_error :: "'e interp \<Rightarrow> string \<Rightarrow> 'e interp" where
  "format_error i s = i\<lparr>i_result := cstr (take 4095 s)\<rparr>"

definition err :: "'e interp \<Rightarrow> string \<Rightarrow> 'e outcome" where
  "err i s = Done (format_error i s, S_ERR)"

definition ok :: "'e interp \<Rightarrow> 'e outcome" where
  "ok i = Done (i, S_OK)"

definition ok_result :: "'e interp \<Rightarrow> string \<Rightarrow> 'e outcome" where
  "ok_result i s = Done (i\<lparr>i_result := s\<rparr>, S_OK)"

definition i_write :: "'e interp \<Rightarrow> string \<Rightarrow> 'e interp" where
  "i_write i s = i\<lparr>i_out := i_out i @ [cstr s]\<rparr>"

definition get_command :: "'e env \<Rightarrow> 'e interp \<Rightarrow> string \<Rightarrow> cmd option" where
  "get_command env i name = map_option (\<lambda>k. i_commands i ! k) (hm_find (env_signed env) (i_hash i) name)"

definition register_command ::
  "'e env \<Rightarrow> 'e interp \<Rightarrow> string \<Rightarrow> func \<Rightarrow> (string \<times> string) option \<Rightarrow> string \<Rightarrow> 'e interp run" where
  "register_command env i name f pd doc =
     (case hm_find (env_signed env) (i_hash i) name of
        Some k \<Rightarrow> Done (i\<lparr>i_commands := (i_commands i)[k := (i_commands i ! k)\<lparr>c_func := f, c_proc := pd, c_doc := doc\<rparr>]\<rparr>)
      | None \<Rightarrow>
          (case hm_put (env_signed env) (i_hash i) name (length (i_commands i)) of
             None \<Rightarrow> Undefined Ub_null
           | Some h \<Rightarrow> Done (i\<lparr>i_commands := i_commands i @ [\<lparr>c_name = name, c_func = f, c_proc = pd, c_doc = doc\<rparr>],
                               i_hash := h\<rparr>)))"

text \<open>
  A variable matches a name unless its own name is empty: the comparison of a string with
  no buffer and a view is never 0.
\<close>

fun frame_get :: "frame \<Rightarrow> string \<Rightarrow> string option" where
  "frame_get [] name = None"
| "frame_get ((k, v) # vs) name = (if k = name \<and> k \<noteq> [] then Some v else frame_get vs name)"

fun frames_get :: "frame list \<Rightarrow> string \<Rightarrow> string option" where
  "frames_get [] name = None"
| "frames_get (f # fs) name =
     (case frame_get f name of Some v \<Rightarrow> Some v | None \<Rightarrow> frames_get fs name)"

definition get_var :: "'e interp \<Rightarrow> string \<Rightarrow> string option" where
  "get_var i name = frames_get (i_frames i) name"

fun frame_set :: "frame \<Rightarrow> string \<Rightarrow> string \<Rightarrow> frame" where
  "frame_set [] name val = []"
| "frame_set ((k, v) # vs) name val =
     (if k = name \<and> k \<noteq> [] then (k, val) # vs else (k, v) # frame_set vs name val)"

fun frames_set :: "frame list \<Rightarrow> string \<Rightarrow> string \<Rightarrow> frame list" where
  "frames_set [] name val = []"
| "frames_set (f # fs) name val =
     (case frame_get f name of Some _ \<Rightarrow> frame_set f name val # fs
      | None \<Rightarrow> f # frames_set fs name val)"

definition set_var :: "'e interp \<Rightarrow> string \<Rightarrow> string \<Rightarrow> 'e interp run" where
  "set_var i name val =
     (case get_var i name of
        Some _ \<Rightarrow> Done (i\<lparr>i_frames := frames_set (i_frames i) name val\<rparr>)
      | None \<Rightarrow> (case i_frames i of [] \<Rightarrow> Undefined Ub_frames
                 | f # fs \<Rightarrow> Done (i\<lparr>i_frames := (f @ [(name, val)]) # fs\<rparr>)))"

definition drop_call_frame :: "'e interp \<Rightarrow> 'e interp run" where
  "drop_call_frame i = (case i_frames i of [] \<Rightarrow> Undefined Ub_frames | _ # fs \<Rightarrow> Done (i\<lparr>i_frames := fs\<rparr>))"

text \<open>\<open>arity_check\<close> in front of the rest of a command.\<close>

definition arity_check :: "'e interp \<Rightarrow> string \<Rightarrow> string list \<Rightarrow> nat \<Rightarrow> nat \<Rightarrow> 'e outcome \<Rightarrow> 'e outcome" where
  "arity_check i name argv mn mx rest =
     (if mn = mx \<and> length argv \<noteq> mn
      then err i (''wrong number of args for '' @ name @ '' (expected '' @ dec_nat mn @ '')'')
      else if length argv < mn \<or> length argv > mx
      then err i (''['' @ name @ '']: wrong number of args (expected '' @ dec_nat mn @ '' to '' @ dec_nat mx @ '')'')
      else rest)"

text \<open>\<open>int_check\<close>: digits, with a sign allowed as the first character.\<close>

definition int_chars :: "string \<Rightarrow> bool" where
  "int_chars s = (case s of [] \<Rightarrow> True
     | c # cs \<Rightarrow> (c = CHR ''-'' \<or> c = CHR ''+'' \<or> is_digit c) \<and> list_all is_digit cs)"

definition int_check :: "'e interp \<Rightarrow> string \<Rightarrow> string list \<Rightarrow> nat \<Rightarrow> 'e outcome \<Rightarrow> 'e outcome" where
  "int_check i name argv idx rest =
     (if int_chars (argv ! idx) then rest
      else err i (''['' @ name @ '']: argument '' @ dec_nat idx @ '' is not an integer''))"

section \<open>Output, variables, control\<close>

definition cmd_puts :: "'e interp \<Rightarrow> string list \<Rightarrow> 'e outcome" where
  "cmd_puts i argv = arity_check i ''puts'' argv 2 2
     (ok (i_write i (take 4095 (cstr (argv ! 1) @ [CHR 0x0A]))))"

definition cmd_set :: "'e interp \<Rightarrow> string list \<Rightarrow> 'e outcome" where
  "cmd_set i argv = arity_check i ''set'' argv 3 3 (run_bind (set_var i (argv ! 1) (argv ! 2)) ok)"

type_synonym 'e evaluator = "'e interp \<Rightarrow> string \<Rightarrow> 'e outcome"

definition cmd_if :: "'e evaluator \<Rightarrow> 'e interp \<Rightarrow> string list \<Rightarrow> 'e outcome" where
  "cmd_if ev i argv = arity_check i ''if'' argv 3 5
     (run_bind (ev i (argv ! 1)) (\<lambda>(i, s).
        if s \<noteq> S_OK then Done (i, S_ERR)
        else run_bind (atoi (i_result i)) (\<lambda>v.
          if v \<noteq> 0 then ev i (argv ! 2)
          else if length argv = 5 then ev i (argv ! 4)
          else ok i)))"

fun while_loop :: "'e evaluator \<Rightarrow> nat \<Rightarrow> 'e interp \<Rightarrow> string \<Rightarrow> string \<Rightarrow> 'e outcome" where
  "while_loop ev 0 i test body = NoFuel"
| "while_loop ev (Suc n) i test body =
     run_bind (ev i test) (\<lambda>(i, s).
       if s \<noteq> S_OK then Done (i, s)
       else run_bind (atoi (i_result i)) (\<lambda>v.
         if v \<noteq> 0
         then run_bind (ev i body) (\<lambda>(i, s).
           if s = S_CONTINUE \<or> s = S_OK then while_loop ev n i test body
           else if s = S_BREAK then ok i
           else Done (i, s))
         else ok i))"

definition cmd_while :: "'e evaluator \<Rightarrow> nat \<Rightarrow> 'e interp \<Rightarrow> string list \<Rightarrow> 'e outcome" where
  "cmd_while ev n i argv = arity_check i ''while'' argv 3 3 (while_loop ev n i (argv ! 1) (argv ! 2))"

definition cmd_break :: "'e interp \<Rightarrow> string list \<Rightarrow> 'e outcome" where
  "cmd_break i argv = arity_check i ''break'' argv 1 1 (Done (i, S_BREAK))"

definition cmd_continue :: "'e interp \<Rightarrow> string list \<Rightarrow> 'e outcome" where
  "cmd_continue i argv = arity_check i ''continue'' argv 1 1 (Done (i, S_CONTINUE))"

definition cmd_proc :: "'e env \<Rightarrow> 'e interp \<Rightarrow> string list \<Rightarrow> 'e outcome" where
  "cmd_proc env i argv = arity_check i ''proc'' argv 4 4
     (run_bind (register_command env i (argv ! 1) F_call_proc (Some (argv ! 2, argv ! 3)) []) ok)"

definition cmd_return :: "'e interp \<Rightarrow> string list \<Rightarrow> 'e outcome" where
  "cmd_return i argv = arity_check i ''return'' argv 1 2
     (Done (if length argv = 2 then i\<lparr>i_result := argv ! 1\<rparr> else i, S_RETURN))"

definition cmd_eval :: "'e evaluator \<Rightarrow> 'e interp \<Rightarrow> string list \<Rightarrow> 'e outcome" where
  "cmd_eval ev i argv = arity_check i ''eval'' argv 2 2 (ev i (argv ! 1))"

section \<open>Arithmetic\<close>

text \<open>
  The pattern of the commands with two integer operands; \<open>bad\<close> is the branch for operands
  that are no integers.
\<close>

definition cmd_int2 ::
  "string \<Rightarrow> ('e interp \<Rightarrow> 'e outcome) \<Rightarrow> (int \<Rightarrow> int \<Rightarrow> int run) \<Rightarrow> 'e interp \<Rightarrow> string list \<Rightarrow> 'e outcome" where
  "cmd_int2 name bad f i argv = arity_check i name argv 3 3
     (run_bind (parse_and_check_int (argv ! 1)) (\<lambda>a.
      run_bind (parse_and_check_int (argv ! 2)) (\<lambda>b.
        case (a, b) of
          (Some x, Some y) \<Rightarrow> run_bind (f x y) (\<lambda>r. ok_result i (dec_int r))
        | _ \<Rightarrow> bad i)))"

definition cmd_arith :: "string \<Rightarrow> (int \<Rightarrow> int \<Rightarrow> int run) \<Rightarrow> 'e interp \<Rightarrow> string list \<Rightarrow> 'e outcome" where
  "cmd_arith name = cmd_int2 name (\<lambda>i. err i (''['' @ name @ '']: arguments must be integers''))"

definition op_cmp :: "(int \<Rightarrow> int \<Rightarrow> bool) \<Rightarrow> int \<Rightarrow> int \<Rightarrow> int run" where
  "op_cmp p a b = Done (of_bool_int (p a b))"

definition cmd_add :: "'e interp \<Rightarrow> string list \<Rightarrow> 'e outcome" where "cmd_add = cmd_arith ''+'' op_add"
definition cmd_sub :: "'e interp \<Rightarrow> string list \<Rightarrow> 'e outcome" where "cmd_sub = cmd_arith ''-'' op_sub"
definition cmd_mul :: "'e interp \<Rightarrow> string list \<Rightarrow> 'e outcome" where "cmd_mul = cmd_arith ''*'' op_mul"
definition cmd_div :: "'e interp \<Rightarrow> string list \<Rightarrow> 'e outcome" where "cmd_div = cmd_arith ''/'' op_div"

text \<open>
  The format string of the error of \<open>%\<close> holds the invalid conversion \<open>%]\<close>, for which
  \<open>vsnprintf\<close> has no defined behaviour.
\<close>

definition cmd_mod :: "'e interp \<Rightarrow> string list \<Rightarrow> 'e outcome" where
  "cmd_mod = cmd_int2 ''%'' (\<lambda>i. Undefined Ub_format) op_mod"

definition cmd_and :: "'e interp \<Rightarrow> string list \<Rightarrow> 'e outcome" where "cmd_and = cmd_arith ''&'' op_and"
definition cmd_shl :: "'e interp \<Rightarrow> string list \<Rightarrow> 'e outcome" where "cmd_shl = cmd_arith ''<<'' op_shl"
definition cmd_shr :: "'e interp \<Rightarrow> string list \<Rightarrow> 'e outcome" where "cmd_shr = cmd_arith ''>>'' op_shr"
definition cmd_eq :: "'e interp \<Rightarrow> string list \<Rightarrow> 'e outcome" where "cmd_eq = cmd_arith ''=='' (op_cmp (=))"
definition cmd_ne :: "'e interp \<Rightarrow> string list \<Rightarrow> 'e outcome" where "cmd_ne = cmd_arith ''!='' (op_cmp (\<noteq>))"
definition cmd_gt :: "'e interp \<Rightarrow> string list \<Rightarrow> 'e outcome" where "cmd_gt = cmd_arith ''>'' (op_cmp (>))"
definition cmd_lt :: "'e interp \<Rightarrow> string list \<Rightarrow> 'e outcome" where "cmd_lt = cmd_arith ''<'' (op_cmp (<))"
definition cmd_gte :: "'e interp \<Rightarrow> string list \<Rightarrow> 'e outcome" where "cmd_gte = cmd_arith ''>='' (op_cmp (\<ge>))"
definition cmd_lte :: "'e interp \<Rightarrow> string list \<Rightarrow> 'e outcome" where "cmd_lte = cmd_arith ''<='' (op_cmp (\<le>))"

definition cmd_notn :: "'e interp \<Rightarrow> string list \<Rightarrow> 'e outcome" where
  "cmd_notn i argv = arity_check i ''!'' argv 2 2 (int_check i ''!'' argv 1
     (run_bind (parse_int (argv ! 1)) (\<lambda>r. case r of
          None \<Rightarrow> Done (i, S_ERR)
        | Some v \<Rightarrow> ok_result i (dec_int (of_bool_int (v = 0))))))"

section \<open>Help\<close>

fun contains :: "string \<Rightarrow> string \<Rightarrow> bool" where
  "contains [] pat = (pat = [])"
| "contains (c # cs) pat = (take (length pat) (c # cs) = pat \<or> contains cs pat)"

definition newline :: string where
  "newline = [CHR 0x0A]"

text \<open>\<open>snprintf\<close> into the buffer of 512 bytes, then \<open>write\<close>.\<close>

definition help_write :: "'e interp \<Rightarrow> string \<Rightarrow> 'e interp" where
  "help_write i s = i_write i (take 511 s)"

definition help_entry :: "'e interp \<Rightarrow> cmd \<Rightarrow> 'e interp" where
  "help_entry i c = help_write i
     (if c_doc c \<noteq> [] then ''  '' @ cstr (c_name c) @ newline @ ''    '' @ cstr (c_doc c) @ newline
      else ''  '' @ cstr (c_name c) @ newline)"

definition cmd_help :: "'e env \<Rightarrow> 'e interp \<Rightarrow> string list \<Rightarrow> 'e outcome" where
  "cmd_help env i argv =
     (if length argv = 1
      then ok (foldl help_entry (i_write i (''Available commands:'' @ newline)) (i_commands i))
      else if length argv = 2
      then (case get_command env i (argv ! 1) of
          Some c \<Rightarrow> ok (help_write i (cstr (c_name c) @ '': '' @
              (if c_doc c \<noteq> [] then cstr (c_doc c) else ''no documentation available'') @ newline))
        | None \<Rightarrow>
            let search = cstr (argv ! 1);
                hits = filter (\<lambda>c. contains (cstr (c_name c)) search) (i_commands i)
            in if hits = [] then err i (''no commands found matching '' @ [CHR 0x27] @ search @ [CHR 0x27])
               else ok (foldl help_entry
                 (help_write i (''Commands matching '' @ [CHR 0x27] @ search @ [CHR 0x27] @ '':'' @ newline)) hits))
      else err i ''[help]: expected 0 or 1 arguments'')"

definition cmd_commands :: "'e interp \<Rightarrow> string list \<Rightarrow> 'e outcome" where
  "cmd_commands i argv = arity_check i ''commands'' argv 1 1
     (ok (i_write i (concat (map (\<lambda>c. c_name c @ '' '') (i_commands i)) @ newline)))"

section \<open>List commands\<close>

definition cmd_list :: "'e interp \<Rightarrow> string list \<Rightarrow> 'e outcome" where
  "cmd_list i argv = ok_result i (list_format (drop 1 argv))"

definition cmd_lindex :: "'e interp \<Rightarrow> string list \<Rightarrow> 'e outcome" where
  "cmd_lindex i argv = arity_check i ''lindex'' argv 3 3 (int_check i ''lindex'' argv 2
     (let es = list_parse (argv ! 1) in
      run_bind (atoi (argv ! 2)) (\<lambda>k.
        if k < 0 \<or> k \<ge> int (length es) then ok_result i [] else ok_result i (es ! nat k))))"

definition cmd_lappend :: "'e interp \<Rightarrow> string list \<Rightarrow> 'e outcome" where
  "cmd_lappend i argv = arity_check i ''lappend'' argv 2 1024
     (let es = (case get_var i (argv ! 1) of Some v \<Rightarrow> list_parse v | None \<Rightarrow> []);
          l = list_format (es @ drop 2 argv)
      in run_bind (set_var i (argv ! 1) l) (\<lambda>i. ok_result i l))"

definition cmd_llength :: "'e interp \<Rightarrow> string list \<Rightarrow> 'e outcome" where
  "cmd_llength i argv = arity_check i ''llength'' argv 2 2
     (ok_result i (dec_int (int (length (list_parse (argv ! 1))))))"

definition cmd_lrange :: "'e interp \<Rightarrow> string list \<Rightarrow> 'e outcome" where
  "cmd_lrange i argv = arity_check i ''lrange'' argv 4 4
     (int_check i ''lrange'' argv 2 (int_check i ''lrange'' argv 3
       (let es = list_parse (argv ! 1) in
        run_bind (atoi (argv ! 2)) (\<lambda>s0. run_bind (atoi (argv ! 3)) (\<lambda>e0.
          let s = (if s0 < 0 then 0 else s0);
              e = (if e0 \<ge> int (length es) then int (length es) - 1 else e0)
          in ok_result i (list_format (take (nat (e + 1 - s)) (drop (nat s) es))))))))"

fun split_on :: "char \<Rightarrow> string \<Rightarrow> string \<Rightarrow> string list" where
  "split_on d acc [] = [acc]"
| "split_on d acc (c # cs) = (if c = d then acc # split_on d [] cs else split_on d (acc @ [c]) cs)"

definition cmd_split :: "'e interp \<Rightarrow> string list \<Rightarrow> 'e outcome" where
  "cmd_split i argv = arity_check i ''split'' argv 2 3
     (if length argv = 3 \<and> length (argv ! 2) \<noteq> 1
      then err i ''split: delimiter must be a single character''
      else let d = (if length argv = 3 then argv ! 2 ! 0 else CHR '' '')
           in ok_result i (list_format (split_on d [] (argv ! 1))))"

fun join_with :: "string \<Rightarrow> string list \<Rightarrow> string" where
  "join_with sep [] = []"
| "join_with sep [e] = e"
| "join_with sep (e # f # es) = e @ sep @ join_with sep (f # es)"

definition cmd_join :: "'e interp \<Rightarrow> string list \<Rightarrow> 'e outcome" where
  "cmd_join i argv = arity_check i ''join'' argv 2 3
     (ok_result i (join_with (if length argv = 3 then argv ! 2 else '' '') (list_parse (argv ! 1))))"

text \<open>The loop of \<open>lloop\<close> from element \<open>j\<close> on, with the index variable if there is one.\<close>

fun lloop :: "'e evaluator \<Rightarrow> string option \<Rightarrow> string \<Rightarrow> string \<Rightarrow> nat \<Rightarrow> string list \<Rightarrow> 'e interp \<Rightarrow> 'e outcome" where
  "lloop ev idx item body j [] i = ok i"
| "lloop ev idx item body j (e # es) i =
     run_bind (case idx of None \<Rightarrow> Done i | Some v \<Rightarrow> set_var i v (dec_nat j)) (\<lambda>i.
     run_bind (set_var i item e) (\<lambda>i.
     run_bind (ev i body) (\<lambda>(i, s).
       if s = S_CONTINUE \<or> s = S_OK then lloop ev idx item body (j + 1) es i
       else if s = S_BREAK then ok i
       else Done (i, s))))"

definition cmd_lloop :: "'e evaluator \<Rightarrow> 'e interp \<Rightarrow> string list \<Rightarrow> 'e outcome" where
  "cmd_lloop ev i argv = arity_check i ''lloop'' argv 4 4
     (let es = list_parse (argv ! 1); names = list_parse (argv ! 2) in
      case names of
        [item] \<Rightarrow> lloop ev None item (argv ! 3) 0 es i
      | [idx, item] \<Rightarrow> lloop ev (Some idx) item (argv ! 3) 0 es i
      | _ \<Rightarrow> err i (''lloop: expected 1 or 2 variable names, got '' @ dec_nat (length names)))"

section \<open>Number conversion\<close>

definition cmd_base :: "string \<Rightarrow> string \<Rightarrow> char \<Rightarrow> char \<Rightarrow> (char \<Rightarrow> int option) \<Rightarrow> int \<Rightarrow> 'e interp \<Rightarrow> string list \<Rightarrow> 'e outcome" where
  "cmd_base name kind lower upper dig base i argv = arity_check i name argv 2 2
     (if argv ! 1 = [] then err i (name @ '': empty string'')
      else run_bind (base_loop dig base 0 (strip_prefix lower upper (argv ! 1))) (\<lambda>r. case r of
          Inl c \<Rightarrow> err i (name @ '': invalid '' @ kind @ '' character '' @ [CHR 0x27, c, CHR 0x27])
        | Inr v \<Rightarrow> ok_result i (dec_int v)))"

definition cmd_hex :: "'e interp \<Rightarrow> string list \<Rightarrow> 'e outcome" where
  "cmd_hex = cmd_base ''hex'' ''hex'' (CHR ''x'') (CHR ''X'') hex_digit 16"

definition cmd_oct :: "'e interp \<Rightarrow> string list \<Rightarrow> 'e outcome" where
  "cmd_oct = cmd_base ''oct'' ''octal'' (CHR ''o'') (CHR ''O'') oct_digit 8"

definition cmd_bin :: "'e interp \<Rightarrow> string list \<Rightarrow> 'e outcome" where
  "cmd_bin = cmd_base ''bin'' ''binary'' (CHR ''b'') (CHR ''B'') bin_digit 2"

section \<open>MessagePack commands\<close>

text \<open>The check for a buffer, and the write that ends with the check for an overflow.\<close>

definition with_buffer :: "'e interp \<Rightarrow> string \<Rightarrow> (mpack_writer \<Rightarrow> 'e outcome) \<Rightarrow> 'e outcome" where
  "with_buffer i name k =
     (case i_mpack i of None \<Rightarrow> err i (name @ '': MessagePack buffer not initialized'') | Some w \<Rightarrow> k w)"

definition mp_write :: "'e interp \<Rightarrow> string \<Rightarrow> mpack_writer \<Rightarrow> 'e outcome" where
  "mp_write i name w =
     (let i = i\<lparr>i_mpack := Some w\<rparr>
      in if mw_error w then err i (name @ '': buffer overflow'') else ok i)"

definition cmd_mp_reset :: "'e interp \<Rightarrow> string list \<Rightarrow> 'e outcome" where
  "cmd_mp_reset i argv = arity_check i ''mp/reset'' argv 1 1
     (with_buffer i ''mp/reset'' (\<lambda>w. ok (i\<lparr>i_mpack := Some (mw_reset w)\<rparr>)))"

definition cmd_mp_count ::
  "string \<Rightarrow> (mpack_writer \<Rightarrow> 32 word \<Rightarrow> mpack_writer) \<Rightarrow> 'e interp \<Rightarrow> string list \<Rightarrow> 'e outcome" where
  "cmd_mp_count name f i argv = arity_check i name argv 2 2
     (with_buffer i name (\<lambda>w. int_check i name argv 1
       (run_bind (atoi (argv ! 1)) (\<lambda>n.
          if n < 0 then err i (name @ '': count must be non-negative'')
          else mp_write i name (f w (word_of_int n))))))"

definition cmd_mp_array :: "'e interp \<Rightarrow> string list \<Rightarrow> 'e outcome" where
  "cmd_mp_array = cmd_mp_count ''mp/array'' mw_array"

definition cmd_mp_map :: "'e interp \<Rightarrow> string list \<Rightarrow> 'e outcome" where
  "cmd_mp_map = cmd_mp_count ''mp/map'' mw_map"

definition cmd_mp_string :: "'e interp \<Rightarrow> string list \<Rightarrow> 'e outcome" where
  "cmd_mp_string i argv = arity_check i ''mp/string'' argv 2 2
     (with_buffer i ''mp/string'' (\<lambda>w. mp_write i ''mp/string'' (mw_str w (bytes_of (argv ! 1)))))"

definition cmd_mp_int :: "'e interp \<Rightarrow> string list \<Rightarrow> 'e outcome" where
  "cmd_mp_int i argv = arity_check i ''mp/int'' argv 2 2
     (with_buffer i ''mp/int'' (\<lambda>w. int_check i ''mp/int'' argv 1
       (run_bind (atoi (argv ! 1)) (\<lambda>v. mp_write i ''mp/int'' (mw_int w (word_of_int v))))))"

definition cmd_mp_uint :: "'e interp \<Rightarrow> string list \<Rightarrow> 'e outcome" where
  "cmd_mp_uint i argv = arity_check i ''mp/uint'' argv 2 2
     (with_buffer i ''mp/uint'' (\<lambda>w.
        if \<not> list_all is_digit (argv ! 1)
        then err i ''mp/uint: argument must be a non-negative integer''
        else run_bind (atoi (argv ! 1)) (\<lambda>v. mp_write i ''mp/uint'' (mw_uint w (word_of_int v)))))"

definition cmd_mp_bool :: "'e interp \<Rightarrow> string list \<Rightarrow> 'e outcome" where
  "cmd_mp_bool i argv = arity_check i ''mp/bool'' argv 2 2
     (with_buffer i ''mp/bool'' (\<lambda>w.
        if cstr (argv ! 1) = ''0'' then mp_write i ''mp/bool'' (mw_bool w False)
        else if cstr (argv ! 1) = ''1'' then mp_write i ''mp/bool'' (mw_bool w True)
        else err i ''mp/bool: argument must be 0 or 1''))"

definition cmd_mp_nil :: "'e interp \<Rightarrow> string list \<Rightarrow> 'e outcome" where
  "cmd_mp_nil i argv = arity_check i ''mp/nil'' argv 1 1
     (with_buffer i ''mp/nil'' (\<lambda>w. mp_write i ''mp/nil'' (mw_nil w)))"

definition cmd_mp_print :: "'e interp \<Rightarrow> string list \<Rightarrow> 'e outcome" where
  "cmd_mp_print i argv = arity_check i ''mp/print'' argv 1 1
     (with_buffer i ''mp/print'' (\<lambda>w.
        if mw_error w then err i ''mp/print: MessagePack writer is in error state''
        else let (len, s) = mpack_sprint (mw_bytes w) 4095
          in if len < 0 then err i ''mp/print: output buffer too small''
             else ok (i_write i (s @ newline))))"

definition cmd_mp_size :: "'e interp \<Rightarrow> string list \<Rightarrow> 'e outcome" where
  "cmd_mp_size i argv = arity_check i ''mp/size'' argv 1 1
     (with_buffer i ''mp/size'' (\<lambda>w. ok_result i (dec_int (int (mw_size w)))))"

definition hex_char :: "nat \<Rightarrow> char" where
  "hex_char n = ''0123456789abcdef'' ! n"

definition cmd_mp_hex :: "'e interp \<Rightarrow> string list \<Rightarrow> 'e outcome" where
  "cmd_mp_hex i argv = arity_check i ''mp/hex'' argv 1 1
     (with_buffer i ''mp/hex'' (\<lambda>w. ok_result i
        (concat (map (\<lambda>b. [hex_char (unat b div 16), hex_char (unat b mod 16), CHR '' '']) (mw_bytes w)))))"

section \<open>Procedures and the evaluator\<close>

text \<open>
  The names in the argument list of a procedure, as the loop of \<open>call_proc\<close> cuts them: a
  list that ends with two blanks ends with an empty name.
\<close>

function arg_names :: "string \<Rightarrow> string list" where
  "arg_names s =
     (if s = [] then []
      else let s1 = dropWhile (\<lambda>c. c = CHR '' '') s; r = dropWhile (\<lambda>c. c \<noteq> CHR '' '') s1
           in takeWhile (\<lambda>c. c \<noteq> CHR '' '') s1 # (if r = [] then [] else arg_names (tl r)))"
  by pat_completeness auto

termination
proof (relation "measure length")
  fix s s1 r :: string
  assume "s1 = dropWhile (\<lambda>c. c = CHR '' '') s" and "r = dropWhile (\<lambda>c. c \<noteq> CHR '' '') s1" and "r \<noteq> []"
  then have "length r \<le> length s" "0 < length r"
    using length_dropWhile_le [of "\<lambda>c. c \<noteq> CHR '' ''" s1] length_dropWhile_le [of "\<lambda>c. c = CHR '' ''" s]
    by auto
  then show "(tl r, s) \<in> measure length" by (cases r) auto
qed simp

declare arg_names.simps [simp del]

fun bind_args :: "string list \<Rightarrow> nat \<Rightarrow> string list \<Rightarrow> 'e interp \<Rightarrow> 'e interp run" where
  "bind_args argv arity [] i = Done i"
| "bind_args argv arity (n # ns) i =
     (if arity + 1 < length argv
      then run_bind (set_var i n (argv ! (arity + 1))) (bind_args argv (arity + 1) ns)
      else Undefined Ub_argv_index)"

definition push_frame :: "'e interp \<Rightarrow> 'e interp" where
  "push_frame i = i\<lparr>i_frames := [] # i_frames i\<rparr>"

definition call_proc :: "'e evaluator \<Rightarrow> 'e interp \<Rightarrow> string list \<Rightarrow> string \<times> string \<Rightarrow> 'e outcome" where
  "call_proc ev i argv pd =
     (let names = arg_names (fst pd); arity = length names in
      run_bind (bind_args argv 0 names (push_frame i)) (\<lambda>i.
      run_bind (if arity \<noteq> length argv - 1
                then Done (format_error i (''wrong number of arguments for '' @ cstr (argv ! 0) @ '' got '' @
                             dec_nat (length argv) @ '' expected '' @ dec_nat arity), S_ERR)
                else run_bind (ev i (snd pd)) (\<lambda>(i, s). Done (i, if s = S_RETURN then S_OK else s))) (\<lambda>(i, s).
      run_bind (drop_call_frame i) (\<lambda>i. Done (i, s)))))"

text \<open>A command of another program; what is undefined in it has a reason of its own.\<close>

definition call_ext :: "'e env \<Rightarrow> nat \<Rightarrow> 'e interp \<Rightarrow> string list \<Rightarrow> 'e outcome" where
  "call_ext env k i argv = (case env_command env k (i_ext i) argv of
       Undefined u \<Rightarrow> Undefined Ub_command
     | NoFuel \<Rightarrow> NoFuel
     | Done (e, r, s) \<Rightarrow> Done (i\<lparr>i_result := (case r of None \<Rightarrow> i_result i | Some x \<Rightarrow> x), i_ext := e\<rparr>, s))"

text \<open>The call through the function pointer of a command.\<close>

definition run_command :: "'e evaluator \<Rightarrow> nat \<Rightarrow> 'e env \<Rightarrow> 'e interp \<Rightarrow> cmd \<Rightarrow> string list \<Rightarrow> 'e outcome" where
  "run_command ev n env i c argv = (case c_func c of
       F_puts \<Rightarrow> cmd_puts i argv | F_set \<Rightarrow> cmd_set i argv
     | F_if \<Rightarrow> cmd_if ev i argv | F_while \<Rightarrow> cmd_while ev n i argv
     | F_break \<Rightarrow> cmd_break i argv | F_continue \<Rightarrow> cmd_continue i argv
     | F_proc \<Rightarrow> cmd_proc env i argv | F_return \<Rightarrow> cmd_return i argv
     | F_add \<Rightarrow> cmd_add i argv | F_sub \<Rightarrow> cmd_sub i argv | F_mul \<Rightarrow> cmd_mul i argv
     | F_div \<Rightarrow> cmd_div i argv | F_mod \<Rightarrow> cmd_mod i argv | F_and \<Rightarrow> cmd_and i argv
     | F_shl \<Rightarrow> cmd_shl i argv | F_shr \<Rightarrow> cmd_shr i argv | F_eq \<Rightarrow> cmd_eq i argv
     | F_ne \<Rightarrow> cmd_ne i argv | F_gt \<Rightarrow> cmd_gt i argv | F_lt \<Rightarrow> cmd_lt i argv
     | F_gte \<Rightarrow> cmd_gte i argv | F_lte \<Rightarrow> cmd_lte i argv | F_notn \<Rightarrow> cmd_notn i argv
     | F_help \<Rightarrow> cmd_help env i argv | F_commands \<Rightarrow> cmd_commands i argv
     | F_list \<Rightarrow> cmd_list i argv | F_lindex \<Rightarrow> cmd_lindex i argv
     | F_lappend \<Rightarrow> cmd_lappend i argv | F_llength \<Rightarrow> cmd_llength i argv
     | F_lrange \<Rightarrow> cmd_lrange i argv | F_split \<Rightarrow> cmd_split i argv | F_join \<Rightarrow> cmd_join i argv
     | F_lloop \<Rightarrow> cmd_lloop ev i argv
     | F_hex \<Rightarrow> cmd_hex i argv | F_oct \<Rightarrow> cmd_oct i argv | F_bin \<Rightarrow> cmd_bin i argv
     | F_eval \<Rightarrow> cmd_eval ev i argv
     | F_mp_reset \<Rightarrow> cmd_mp_reset i argv | F_mp_array \<Rightarrow> cmd_mp_array i argv
     | F_mp_map \<Rightarrow> cmd_mp_map i argv | F_mp_string \<Rightarrow> cmd_mp_string i argv
     | F_mp_int \<Rightarrow> cmd_mp_int i argv | F_mp_uint \<Rightarrow> cmd_mp_uint i argv
     | F_mp_bool \<Rightarrow> cmd_mp_bool i argv | F_mp_nil \<Rightarrow> cmd_mp_nil i argv
     | F_mp_print \<Rightarrow> cmd_mp_print i argv | F_mp_size \<Rightarrow> cmd_mp_size i argv
     | F_mp_hex \<Rightarrow> cmd_mp_hex i argv
     | F_call_proc \<Rightarrow> (case c_proc c of None \<Rightarrow> Undefined Ub_null | Some pd \<Rightarrow> call_proc ev i argv pd)
     | F_ext k \<Rightarrow> call_ext env k i argv)"

text \<open>
  The text a token stands for: \<open>Inl\<close> an early return of \<open>eval\<close>, \<open>Inr\<close> the view \<open>t\<close>.
\<close>

definition token_value :: "'e evaluator \<Rightarrow> 'e interp \<Rightarrow> parser \<Rightarrow> tok \<Rightarrow> ('e interp \<times> (status + string)) run" where
  "token_value ev i p token =
     (case token_body p of None \<Rightarrow> Undefined Ub_view
      | Some t \<Rightarrow>
          if token = TK_VAR
          then (case get_var i t of
                  None \<Rightarrow> Done (format_error i (''variable not found: '' @ [CHR 0x27] @ cstr t @ [CHR 0x27]), Inl S_ERR)
                | Some v \<Rightarrow> Done (i, Inr v))
          else if token = TK_CMD
          then run_bind (ev i t) (\<lambda>(i, s). if s \<noteq> S_OK then Done (i, Inl s) else Done (i, Inr (i_result i)))
          else Done (i, Inr t))"

text \<open>The loop of \<open>eval\<close>, one token at a time; \<open>k\<close> bounds the number of tokens.\<close>

fun eval_loop :: "'e evaluator \<Rightarrow> ('e interp \<Rightarrow> cmd \<Rightarrow> string list \<Rightarrow> 'e outcome) \<Rightarrow> 'e env \<Rightarrow> nat \<Rightarrow> parser \<Rightarrow>
    'e interp \<Rightarrow> string list \<Rightarrow> 'e outcome" where
  "eval_loop ev call env 0 p i argv = NoFuel"
| "eval_loop ev call env (Suc k) p i argv =
     (case next_token (tok_fuel p) p of None \<Rightarrow> NoFuel
      | Some (p', token) \<Rightarrow>
          if token = TK_EOF then Done (i, S_OK)
          else if token = TK_SEP then eval_loop ev call env k p' i argv
          else if token = TK_EOL then
            (if argv = [] then eval_loop ev call env k p' i []
             else case get_command env i (hd argv) of
               None \<Rightarrow> err i (''command not found: '' @ [CHR 0x27] @ cstr (hd argv) @ [CHR 0x27])
             | Some c \<Rightarrow> run_bind (call i c argv) (\<lambda>(i, s).
                 if s \<noteq> S_OK then Done (i, s) else eval_loop ev call env k p' i []))
          else run_bind (token_value ev i p' token) (\<lambda>(i, r). case r of
              Inl s \<Rightarrow> Done (i, s)
            | Inr t \<Rightarrow>
                let w = (if p_has_escapes p' then process_escapes t else t) in
                if p_token p = TK_SEP \<or> p_token p = TK_EOL then eval_loop ev call env k p' i (argv @ [w])
                else if argv = [] then Undefined Ub_empty_argv
                else eval_loop ev call env k p' i (butlast argv @ [last argv @ w])))"

definition script_fuel :: "string \<Rightarrow> nat" where
  "script_fuel s = 4 * length s + 2"

fun eval :: "'e env \<Rightarrow> nat \<Rightarrow> 'e interp \<Rightarrow> string \<Rightarrow> 'e outcome" where
  "eval env 0 i s = NoFuel"
| "eval env (Suc n) i s =
     eval_loop (eval env n) (run_command (eval env n) n env) env (script_fuel s) (parser_new s)
       (i\<lparr>i_result := []\<rparr>) []"

declare eval.simps [simp del]

section \<open>Registration\<close>

definition core_commands :: "(string \<times> func \<times> string) list" where
  "core_commands =
    [(''puts'', F_puts, ''[puts string] => nil - Print string to output''),
     (''set'', F_set, ''[set var value] => value - Set variable to value''),
     (''if'', F_if, ''[if cond then else?] => any - Evaluate then-body if condition is true, else-body otherwise''),
     (''while'', F_while, ''[while cond body] => nil - Execute body while condition is true''),
     (''break'', F_break, ''[break] => nil - Break out of innermost loop''),
     (''continue'', F_continue, ''[continue] => nil - Skip to next iteration of innermost loop''),
     (''proc'', F_proc, ''[proc name args body] => nil - Define a new procedure''),
     (''return'', F_return, ''[return value?] => any - Return from current procedure with optional value''),
     (''+'', F_add, ''[+ a:int b:int] => int - Add two integers''),
     (''-'', F_sub, ''[- a:int b:int] => int - Subtract b from a''),
     (''*'', F_mul, ''[* a:int b:int] => int - Multiply two integers''),
     (''/'', F_div, ''[/ a:int b:int] => int - Divide a by b (integer division)''),
     (''%'', F_mod, ''[% a:int b:int] => int - Modulo (remainder of a / b)''),
     (''&'', F_and, ''[& a:int b:int] => int - Bitwise AND''),
     (''<<'', F_shl, ''[<< a:int n:int] => int - Shift a left by n bits''),
     (''>>'', F_shr, ''[>> a:int n:int] => int - Shift a right by n bits''),
     (''=='', F_eq, ''[== a:int b:int] => bool - Test if a equals b (returns 1 or 0)''),
     (''!='', F_ne, ''[!= a:int b:int] => bool - Test if a is not equal to b (returns 1 or 0)''),
     (''>'', F_gt, ''[> a:int b:int] => bool - Test if a is greater than b (returns 1 or 0)''),
     (''<'', F_lt, ''[< a:int b:int] => bool - Test if a is less than b (returns 1 or 0)''),
     (''>='', F_gte, ''[>= a:int b:int] => bool - Test if a is greater than or equal to b (returns 1 or 0)''),
     (''<='', F_lte, ''[<= a:int b:int] => bool - Test if a is less than or equal to b (returns 1 or 0)''),
     (''!'', F_notn, ''[! value] => bool - Test if value is false (returns 1 or 0)''),
     (''help'', F_help, ''[help pattern?] => nil - Show help for all commands, a specific command, or search by substring''),
     (''commands'', F_commands, ''[commands] => nil - List all available commands''),
     (''list'', F_list, ''[list elem1 elem2 ...] => list - Create a list from arguments''),
     (''lindex'', F_lindex, ''[lindex list index:int] => elem - Get element at index from list''),
     (''lappend'', F_lappend, ''[lappend varName elem ...] => list - Append elements to list variable''),
     (''llength'', F_llength, ''[llength list] => int - Get the length of a list''),
     (''lrange'', F_lrange, ''[lrange list start:int end:int] => list - Get range of elements from list''),
     (''split'', F_split, ''[split string delimiter?] => list - Split string into list (default delimiter: space)''),
     (''join'', F_join, ''[join list separator?] => string - Join list elements into string (default separator: space)''),
     (''lloop'', F_lloop, ''[lloop list {idx item} body] or [lloop list item body] => nil - Iterate over list elements with break/continue support''),
     (''hex'', F_hex, ''[hex string] => int - Parse hexadecimal string to decimal (supports 0x prefix)''),
     (''oct'', F_oct, ''[oct string] => int - Parse octal string to decimal (supports 0o prefix)''),
     (''bin'', F_bin, ''[bin string] => int - Parse binary string to decimal (supports 0b prefix)''),
     (''eval'', F_eval, ''[eval string] => any - Evaluate a Tcl string and return the result'')]"

definition mpack_commands :: "(string \<times> func \<times> string) list" where
  "mpack_commands =
    [(''mp/reset'', F_mp_reset, ''[mp/reset] => nil - Reset MessagePack buffer to empty state''),
     (''mp/array'', F_mp_array, ''[mp/array count:int] => nil - Begin MessagePack array with given element count''),
     (''mp/map'', F_mp_map, ''[mp/map count:int] => nil - Begin MessagePack map with given key-value pair count''),
     (''mp/string'', F_mp_string, ''[mp/string str] => nil - Write string to MessagePack buffer''),
     (''mp/int'', F_mp_int, ''[mp/int value:int] => nil - Write signed integer to MessagePack buffer''),
     (''mp/uint'', F_mp_uint, ''[mp/uint value:uint] => nil - Write unsigned integer to MessagePack buffer''),
     (''mp/bool'', F_mp_bool, ''[mp/bool value:bool] => nil - Write boolean (0 or 1) to MessagePack buffer''),
     (''mp/nil'', F_mp_nil, ''[mp/nil] => nil - Write nil value to MessagePack buffer''),
     (''mp/print'', F_mp_print, ''[mp/print] => nil - Print human-readable representation of MessagePack buffer''),
     (''mp/size'', F_mp_size, ''[mp/size] => int - Return current size of MessagePack buffer in bytes''),
     (''mp/hex'', F_mp_hex, ''[mp/hex] => string - Return hexadecimal representation of MessagePack buffer'')]"

fun register_all :: "'e env \<Rightarrow> (string \<times> func \<times> string) list \<Rightarrow> 'e interp \<Rightarrow> 'e interp run" where
  "register_all env [] i = Done i"
| "register_all env ((name, f, doc) # cs) i =
     run_bind (register_command env i name f None doc) (register_all env cs)"

definition register_core_commands :: "'e env \<Rightarrow> 'e interp \<Rightarrow> 'e interp run" where
  "register_core_commands env i = register_all env core_commands i"

definition register_mpack_functions :: "'e env \<Rightarrow> 'e interp \<Rightarrow> nat \<Rightarrow> 'e interp run" where
  "register_mpack_functions env i n =
     register_all env mpack_commands (i\<lparr>i_mpack := Some (mw_init n)\<rparr>)"

end
