(* ===== verification/TclProps.thy ===== *)
theory TclProps
  imports TclInterp
begin

text \<open>
  What the evaluator of theory \<open>TclInterp\<close> guarantees whatever script it runs. The locale
  \<open>interp_rel\<close> collects what a relation between interpreter states must satisfy to be kept
  by every command, and so by \<open>eval\<close>; its interpretations are the discipline of the call
  frames and the consistency of the command table. More fuel never changes a result.
\<close>

section \<open>Fuel\<close>

definition ev_le :: "'e evaluator \<Rightarrow> 'e evaluator \<Rightarrow> bool" where
  "ev_le ev ev' \<longleftrightarrow> (\<forall>i s. run_le (ev i s) (ev' i s))"

lemma ev_leD: "ev_le ev ev' \<Longrightarrow> run_le (ev i s) (ev' i s)"
  by (simp add: ev_le_def)

named_theorems run_le_intros \<open>monotonicity of result-passing code\<close>

declare run_le_bind [run_le_intros]

lemma run_le_arity [run_le_intros]:
  "run_le r r' \<Longrightarrow> run_le (arity_check i name argv mn mx r) (arity_check i name argv mn mx r')"
  by (auto simp: arity_check_def)

lemma run_le_if [run_le_intros]:
  "(b \<Longrightarrow> run_le x x') \<Longrightarrow> (\<not> b \<Longrightarrow> run_le y y') \<Longrightarrow> run_le (if b then x else y) (if b then x' else y')"
  by simp

lemma run_le_pair [run_le_intros]:
  "(\<And>a b. p = (a, b) \<Longrightarrow> run_le (f a b) (g a b)) \<Longrightarrow>
   run_le (case p of (a, b) \<Rightarrow> f a b) (case p of (a, b) \<Rightarrow> g a b)"
  by (cases p) simp

lemma cmd_if_le:
  assumes "ev_le ev ev'"
  shows "run_le (cmd_if ev i argv) (cmd_if ev' i argv)"
  unfolding cmd_if_def by (intro run_le_intros ev_leD [OF assms] run_le_refl)

lemma while_loop_le:
  assumes "ev_le ev ev'" and "n \<le> n'"
  shows "run_le (while_loop ev n i t b) (while_loop ev' n' i t b)"
  using assms(2)
proof (induction n arbitrary: n' i)
  case 0
  then show ?case by simp
next
  case (Suc n)
  then obtain m where m: "n' = Suc m" "n \<le> m" by (cases n') auto
  show ?case
    unfolding m(1) while_loop.simps
    by (intro run_le_intros ev_leD [OF assms(1)] run_le_refl Suc.IH [OF m(2)])
qed

lemma lloop_le:
  assumes "ev_le ev ev'"
  shows "run_le (lloop ev idx item b j es i) (lloop ev' idx item b j es i)"
proof (induction es arbitrary: i j)
  case Nil
  then show ?case by simp
next
  case (Cons e es)
  show ?case
    unfolding lloop.simps
    by (intro run_le_intros ev_leD [OF assms] run_le_refl Cons.IH)
qed

lemma call_proc_le:
  assumes "ev_le ev ev'"
  shows "run_le (call_proc ev i argv pd) (call_proc ev' i argv pd)"
  unfolding call_proc_def Let_def by (intro run_le_intros ev_leD [OF assms] run_le_refl)

lemma run_command_le:
  assumes "ev_le ev ev'" and "n \<le> n'"
  shows "run_le (run_command ev n env i c argv) (run_command ev' n' env i c argv)"
proof (cases "c_func c")
  case F_if
  then show ?thesis using cmd_if_le [OF assms(1)] by (simp add: run_command_def)
next
  case F_while
  then show ?thesis using while_loop_le [OF assms]
    by (simp add: run_command_def cmd_while_def run_le_intros)
next
  case F_lloop
  then show ?thesis using lloop_le [OF assms(1)]
    by (auto simp: run_command_def cmd_lloop_def Let_def intro!: run_le_intros split: list.split)
next
  case F_eval
  then show ?thesis
    by (auto simp: run_command_def cmd_eval_def intro!: run_le_intros ev_leD [OF assms(1)])
next
  case F_call_proc
  then show ?thesis using call_proc_le [OF assms(1)]
    by (auto simp: run_command_def split: option.split)
qed (simp_all add: run_command_def)

lemma token_value_le:
  assumes "ev_le ev ev'"
  shows "run_le (token_value ev i p t) (token_value ev' i p t)"
  by (auto simp: token_value_def intro!: run_le_intros ev_leD [OF assms] split: option.split)

lemma eval_loop_le:
  assumes ev: "ev_le ev ev'" and call: "\<And>i c argv. run_le (call i c argv) (call' i c argv)"
  shows "run_le (eval_loop ev call env k p i argv) (eval_loop ev' call' env k p i argv)"
proof (induction k arbitrary: p i argv)
  case 0
  then show ?case by simp
next
  case (Suc k)
  show ?case
  proof (cases "next_token (tok_fuel p) p")
    case None
    then show ?thesis by simp
  next
    case (Some r)
    obtain p' t where r: "r = (p', t)" by (cases r)
    have cmd: "run_le (case get_command env i (hd argv) of None \<Rightarrow> x
          | Some c \<Rightarrow> run_bind (call i c argv) (\<lambda>(i, s). if s \<noteq> S_OK then Done (i, s) else eval_loop ev call env k p' i []))
        (case get_command env i (hd argv) of None \<Rightarrow> x
          | Some c \<Rightarrow> run_bind (call' i c argv) (\<lambda>(i, s). if s \<noteq> S_OK then Done (i, s) else eval_loop ev' call' env k p' i []))" for x
    proof (cases "get_command env i (hd argv)")
      case (Some c)
      show ?thesis
        unfolding Some option.case
        by (intro run_le_bind call run_le_pair run_le_if run_le_refl Suc.IH)
    qed simp
    have word: "run_le (case x of Inl s \<Rightarrow> Done (i, s)
            | Inr t \<Rightarrow>
                let w = (if p_has_escapes p' then process_escapes t else t) in
                if p_token p = TK_SEP \<or> p_token p = TK_EOL then eval_loop ev call env k p' i (argv @ [w])
                else if argv = [] then Undefined Ub_empty_argv
                else eval_loop ev call env k p' i (butlast argv @ [last argv @ w]))
        (case x of Inl s \<Rightarrow> Done (i, s)
            | Inr t \<Rightarrow>
                let w = (if p_has_escapes p' then process_escapes t else t) in
                if p_token p = TK_SEP \<or> p_token p = TK_EOL then eval_loop ev' call' env k p' i (argv @ [w])
                else if argv = [] then Undefined Ub_empty_argv
                else eval_loop ev' call' env k p' i (butlast argv @ [last argv @ w]))" for i x
    proof (cases x)
      case (Inr t)
      show ?thesis unfolding Inr sum.case Let_def by (intro run_le_if run_le_refl Suc.IH)
    qed simp
    show ?thesis
      unfolding eval_loop.simps Some r option.case prod.case
      by (intro run_le_if run_le_refl Suc.IH cmd run_le_bind [OF token_value_le [OF ev]] run_le_pair word)
  qed
qed

lemma eval_Suc_le: "ev_le (eval env n) (eval env (Suc n))"
proof (induction n)
  case 0
  then show ?case by (simp add: ev_le_def eval.simps)
next
  case (Suc n)
  have "run_le (eval_loop (eval env n) (run_command (eval env n) n env) env k p i argv)
      (eval_loop (eval env (Suc n)) (run_command (eval env (Suc n)) (Suc n) env) env k p i argv)" for k p i argv
    by (intro eval_loop_le Suc run_command_le le_SucI order_refl)
  then show ?case unfolding ev_le_def eval.simps(2) by blast
qed

lemma eval_le: "n \<le> n' \<Longrightarrow> run_le (eval env n i s) (eval env n' i s)"
proof (induction n' rule: nat_induct_at_least [of n])
  case base
  then show ?case by simp
next
  case (Suc m)
  show ?case by (rule run_le_trans [OF Suc.IH ev_leD [OF eval_Suc_le]])
qed

section \<open>Relations that every command keeps\<close>

definition post :: "ub set \<Rightarrow> ('a \<Rightarrow> bool) \<Rightarrow> 'a run \<Rightarrow> bool" where
  "post bad Q r \<longleftrightarrow> (case r of Done x \<Rightarrow> Q x | Undefined u \<Rightarrow> u \<notin> bad | NoFuel \<Rightarrow> True)"

lemma post_simps [simp]:
  "post bad Q (Done x) \<longleftrightarrow> Q x" "post bad Q (Undefined u) \<longleftrightarrow> u \<notin> bad" "post bad Q NoFuel"
  by (simp_all add: post_def)

lemma post_bind: "post bad Q m \<Longrightarrow> (\<And>x. Q x \<Longrightarrow> post bad P (f x)) \<Longrightarrow> post bad P (run_bind m f)"
  by (cases m) auto

lemma post_mono: "post bad Q r \<Longrightarrow> (\<And>x. Q x \<Longrightarrow> P x) \<Longrightarrow> post bad P r"
  by (cases r) auto

abbreviation harmless :: "'a run \<Rightarrow> bool" where
  "harmless r \<equiv> post {Ub_empty_argv, Ub_frames, Ub_index} (\<lambda>_. True) r"

lemma chk_harmless: "harmless (chk v)"
  by (simp add: chk_def)

lemma digits_loop_harmless: "harmless (digits_loop a s)"
  by (induction s arbitrary: a) (auto intro!: post_bind [OF chk_harmless])

lemma parse_and_check_int_harmless: "harmless (parse_and_check_int s)"
  by (auto simp: parse_and_check_int_def Let_def intro!: post_bind [OF digits_loop_harmless]
      simp del: digits_loop.simps split: list.split)

lemma parse_int_loop_harmless: "harmless (parse_int_loop g a s)"
  by (induction s arbitrary: a) (auto intro!: post_bind [OF chk_harmless])

lemma parse_int_harmless: "harmless (parse_int s)"
proof -
  have "harmless (run_bind (parse_int_loop g 0 ds) (\<lambda>r. case r of None \<Rightarrow> Done None
      | Some (v, rest) \<Rightarrow> if rest \<noteq> [] then Done None else Done (Some (g * v))))" for g ds
    by (rule post_bind [OF parse_int_loop_harmless]) (auto split: option.split)
  then show ?thesis
    by (simp add: parse_int_def Let_def split: list.split del: parse_int_loop.simps)
qed

lemma atoi_harmless: "harmless (atoi s)"
  by (simp add: atoi_def Let_def chk_harmless)

lemma base_loop_harmless: "harmless (base_loop dig b a s)"
  by (induction s arbitrary: a) (auto intro!: post_bind [OF chk_harmless] split: option.split)

lemma op_harmless:
  "harmless (op_add a b)" "harmless (op_sub a b)" "harmless (op_mul a b)" "harmless (op_div a b)"
  "harmless (op_mod a b)" "harmless (op_and a b)" "harmless (op_shl a b)" "harmless (op_shr a b)"
  "harmless (op_cmp p a b)"
  by (auto simp: op_add_def op_sub_def op_mul_def op_div_def op_mod_def op_and_def op_shl_def
      op_shr_def op_cmp_def chk_harmless intro!: post_bind [OF chk_harmless])

text \<open>
  \<open>J\<close> is an invariant of the state, \<open>R\<close> relates the states before and after, \<open>bad\<close> are
  causes of undefined behaviour that are excluded; the laws speak of the few primitives
  through which commands change the state.
\<close>

locale interp_rel =
  fixes J :: "'e interp \<Rightarrow> bool"
    and R :: "'e interp \<Rightarrow> 'e interp \<Rightarrow> bool"
    and bad :: "ub set"
    and env :: "'e env"
  assumes R_refl: "R i i"
    and R_trans: "R i j \<Longrightarrow> R j k \<Longrightarrow> R i k"
    and J_local: "J i \<Longrightarrow> J (i\<lparr>i_result := a, i_out := b, i_mpack := c\<rparr>)"
    and R_local: "R i (i\<lparr>i_result := a, i_out := b, i_mpack := c\<rparr>)"
    and ext_law: "J i \<Longrightarrow> env_command env q (i_ext i) argv = Done (e, r, st) \<Longrightarrow>
      R i (i\<lparr>i_ext := e\<rparr>) \<and> J (i\<lparr>i_ext := e\<rparr>)"
    and set_var_law: "J i \<Longrightarrow> post bad (\<lambda>i'. R i i' \<and> J i') (set_var i n v)"
    and register_law: "J i \<Longrightarrow> post bad (\<lambda>i'. R i i' \<and> J i') (register_command env i n f pd d)"
    and push_law: "J i \<Longrightarrow> J (push_frame i)"
    and drop_law: "J i \<Longrightarrow> J i' \<Longrightarrow> R (push_frame i) i' \<Longrightarrow> post bad (\<lambda>i''. R i i'' \<and> J i'') (drop_call_frame i')"
    and bad_law: "bad \<subseteq> {Ub_empty_argv, Ub_frames, Ub_index}"
begin

definition good :: "'e interp \<Rightarrow> 'e outcome \<Rightarrow> bool" where
  "good i r \<longleftrightarrow> post bad (\<lambda>(i', s). R i i' \<and> J i') r"

lemma good_trans: "R i j \<Longrightarrow> good j r \<Longrightarrow> good i r"
  by (auto simp: good_def elim!: post_mono intro: R_trans)

lemma good_pure:
  assumes "harmless m" and "\<And>x. good i (f x)"
  shows "good i (run_bind m f)"
proof -
  have "post bad (\<lambda>_. True) m" using assms(1) bad_law by (cases m) auto
  then show ?thesis using assms(2) by (auto simp: good_def intro!: post_bind)
qed

lemma good_step:
  assumes "post bad (\<lambda>i'. R i i' \<and> J i') m" and "\<And>i'. J i' \<Longrightarrow> good i' (f i')"
  shows "good i (run_bind m f)"
  unfolding good_def
proof (rule post_bind [OF assms(1)])
  fix i'
  assume "R i i' \<and> J i'"
  then have "good i (f i')" using assms(2) good_trans by blast
  then show "post bad (\<lambda>(i', s). R i i' \<and> J i') (f i')" by (simp add: good_def)
qed

lemma good_seq:
  assumes "good i m" and "\<And>i' s. J i' \<Longrightarrow> good i' (f i' s)"
  shows "good i (run_bind m (\<lambda>(i, s). f i s))"
  unfolding good_def
proof (rule post_bind [OF assms(1) [unfolded good_def]])
  fix x :: "'e interp \<times> status"
  assume "case x of (i', s) \<Rightarrow> R i i' \<and> J i'"
  then have "good i (case x of (i, s) \<Rightarrow> f i s)" using assms(2) good_trans by (cases x) auto
  then show "post bad (\<lambda>(i', s). R i i' \<and> J i') (case x of (i, s) \<Rightarrow> f i s)" by (simp add: good_def)
qed

lemma good_undef: "u \<notin> {Ub_empty_argv, Ub_frames, Ub_index} \<Longrightarrow> good i (Undefined u)"
  using bad_law by (auto simp: good_def)

lemma R_result: "R i (i\<lparr>i_result := a\<rparr>)" and J_result: "J i \<Longrightarrow> J (i\<lparr>i_result := a\<rparr>)"
  using R_local [where i = i and a = a and b = "i_out i" and c = "i_mpack i"] J_local [where i = i and a = a and b = "i_out i" and c = "i_mpack i"] by simp_all

lemma R_out: "R i (i\<lparr>i_out := a\<rparr>)" and J_out: "J i \<Longrightarrow> J (i\<lparr>i_out := a\<rparr>)"
  using R_local [where i = i and a = "i_result i" and b = a and c = "i_mpack i"] J_local [where i = i and a = "i_result i" and b = a and c = "i_mpack i"] by simp_all

lemma R_mpack: "R i (i\<lparr>i_mpack := a\<rparr>)" and J_mpack: "J i \<Longrightarrow> J (i\<lparr>i_mpack := a\<rparr>)"
  using R_local [where i = i and a = "i_result i" and b = "i_out i" and c = a] J_local [where i = i and a = "i_result i" and b = "i_out i" and c = a] by simp_all

lemma good_done: "J i \<Longrightarrow> good i (Done (i, s))"
  by (simp add: good_def R_refl)

lemma good_result: "J i \<Longrightarrow> good i (Done (i\<lparr>i_result := a\<rparr>, s))"
  by (simp add: good_def R_result J_result)

lemma good_ok: "J i \<Longrightarrow> good i (ok i)"
  by (simp add: ok_def good_done)

lemma good_ok_result: "J i \<Longrightarrow> good i (ok_result i s)"
  by (simp add: ok_result_def good_result)

lemma good_err: "J i \<Longrightarrow> good i (err i s)"
  by (simp add: err_def format_error_def good_result)

lemma good_out: "J i \<Longrightarrow> good i (ok (i\<lparr>i_out := a\<rparr>))"
  by (simp add: ok_def good_def R_out J_out)

lemma good_arity: "J i \<Longrightarrow> good i r \<Longrightarrow> good i (arity_check i name argv mn mx r)"
  by (auto simp: arity_check_def intro: good_err)

lemma good_int_check: "J i \<Longrightarrow> good i r \<Longrightarrow> good i (int_check i name argv k r)"
  by (auto simp: int_check_def intro: good_err)

lemma good_if: "(b \<Longrightarrow> good i x) \<Longrightarrow> (\<not> b \<Longrightarrow> good i y) \<Longrightarrow> good i (if b then x else y)"
  by simp

lemmas good_intros = good_arity good_int_check good_if good_done good_result good_ok good_ok_result
  good_err good_out

lemma help_entries: "\<exists>a. foldl help_entry i cs = i\<lparr>i_out := a\<rparr>"
proof (induction cs arbitrary: i)
  case Nil
  show ?case by (intro exI [of _ "i_out i"]) simp
next
  case (Cons c cs)
  from Cons.IH [of "help_entry i c"] obtain a where "foldl help_entry (help_entry i c) cs = (help_entry i c)\<lparr>i_out := a\<rparr>"
    by blast
  moreover have "(help_entry i c)\<lparr>i_out := a\<rparr> = i\<lparr>i_out := a\<rparr>"
    by (simp add: help_entry_def help_write_def i_write_def)
  ultimately show ?case by (intro exI [of _ a]) simp
qed

lemma good_help_out: "J i \<Longrightarrow> good i (ok (foldl help_entry (i\<lparr>i_out := b\<rparr>) cs))"
  using help_entries [of "i\<lparr>i_out := b\<rparr>" cs] good_out by auto

lemma good_help: "J i \<Longrightarrow> good i (cmd_help env i argv)"
  by (auto simp: cmd_help_def Let_def help_write_def i_write_def
      intro: good_help_out good_out good_err split: option.split)

lemma good_int2: "J i \<Longrightarrow> (\<And>a b. harmless (f a b)) \<Longrightarrow> good i (bad_case i) \<Longrightarrow> good i (cmd_int2 name bad_case f i argv)"
  unfolding cmd_int2_def
  by (intro good_arity good_pure [OF parse_and_check_int_harmless])
    (auto split: option.split intro: good_pure good_ok_result)

lemma good_arith: "J i \<Longrightarrow> (\<And>a b. harmless (f a b)) \<Longrightarrow> good i (cmd_arith name f i argv)"
  unfolding cmd_arith_def by (rule good_int2) (auto intro: good_err)

lemma good_base: "J i \<Longrightarrow> good i (cmd_base n k l u d b i argv)"
  unfolding cmd_base_def
  by (intro good_intros good_pure [OF base_loop_harmless]) (auto split: sum.split intro: good_intros)

lemma good_mp_write: "J i \<Longrightarrow> good i (mp_write i n w)"
  unfolding mp_write_def Let_def
  by (rule good_trans [OF R_mpack]) (auto intro!: good_intros J_mpack)

lemma good_buffer: "J i \<Longrightarrow> (\<And>w. good i (k w)) \<Longrightarrow> good i (with_buffer i n k)"
  by (auto simp: with_buffer_def intro: good_err split: option.split)

lemma good_mp_count: "J i \<Longrightarrow> good i (cmd_mp_count n f i argv)"
  unfolding cmd_mp_count_def
  by (intro good_intros good_buffer good_pure [OF atoi_harmless] good_mp_write)

lemma good_pure_commands:
  assumes "J i"
  shows "good i (cmd_puts i argv)" "good i (cmd_break i argv)" "good i (cmd_continue i argv)"
    "good i (cmd_return i argv)" "good i (cmd_notn i argv)" "good i (cmd_commands i argv)"
    "good i (cmd_list i argv)" "good i (cmd_lindex i argv)" "good i (cmd_llength i argv)"
    "good i (cmd_lrange i argv)" "good i (cmd_split i argv)" "good i (cmd_join i argv)"
proof -
  note atoi = good_pure [OF atoi_harmless]
  show "good i (cmd_puts i argv)" "good i (cmd_commands i argv)"
    by (simp_all add: cmd_puts_def cmd_commands_def i_write_def good_intros assms)
  show "good i (cmd_break i argv)" "good i (cmd_continue i argv)" "good i (cmd_list i argv)"
    "good i (cmd_llength i argv)" "good i (cmd_join i argv)"
    by (simp_all add: cmd_break_def cmd_continue_def cmd_list_def cmd_llength_def cmd_join_def
        good_intros assms)
  show "good i (cmd_return i argv)"
    using assms by (auto simp: cmd_return_def intro!: good_intros)
  show "good i (cmd_notn i argv)"
    unfolding cmd_notn_def
    by (intro good_arity good_int_check good_pure [OF parse_int_harmless] assms)
      (auto split: option.split intro: good_intros assms)
  show "good i (cmd_lindex i argv)" "good i (cmd_lrange i argv)" "good i (cmd_split i argv)"
    unfolding cmd_lindex_def cmd_lrange_def cmd_split_def Let_def
    by (intro good_intros atoi assms)+
qed

lemma good_mp_commands:
  assumes "J i"
  shows "good i (cmd_mp_reset i argv)" "good i (cmd_mp_array i argv)" "good i (cmd_mp_map i argv)"
    "good i (cmd_mp_string i argv)" "good i (cmd_mp_int i argv)" "good i (cmd_mp_uint i argv)"
    "good i (cmd_mp_bool i argv)" "good i (cmd_mp_nil i argv)" "good i (cmd_mp_print i argv)"
    "good i (cmd_mp_size i argv)" "good i (cmd_mp_hex i argv)"
proof -
  have reset: "good i (ok (i\<lparr>i_mpack := w\<rparr>))" for w
    using assms by (simp add: ok_def good_def R_mpack J_mpack)
  show "good i (cmd_mp_reset i argv)"
    unfolding cmd_mp_reset_def by (intro good_arity good_buffer reset assms)
  show "good i (cmd_mp_array i argv)" "good i (cmd_mp_map i argv)"
    unfolding cmd_mp_array_def cmd_mp_map_def by (rule good_mp_count [OF assms])+
  show "good i (cmd_mp_string i argv)" "good i (cmd_mp_int i argv)" "good i (cmd_mp_uint i argv)"
    "good i (cmd_mp_bool i argv)" "good i (cmd_mp_nil i argv)" "good i (cmd_mp_size i argv)"
    "good i (cmd_mp_hex i argv)"
    unfolding cmd_mp_string_def cmd_mp_int_def cmd_mp_uint_def cmd_mp_bool_def cmd_mp_nil_def
      cmd_mp_size_def cmd_mp_hex_def
    by (intro good_intros good_buffer good_pure [OF atoi_harmless] good_mp_write assms)+
  show "good i (cmd_mp_print i argv)"
    unfolding cmd_mp_print_def
    by (intro good_arity good_buffer good_if good_err assms)
      (auto simp: i_write_def Let_def intro: good_intros assms split: prod.split)
qed

end

context interp_rel
begin

definition ev_good :: "'e evaluator \<Rightarrow> bool" where
  "ev_good ev \<longleftrightarrow> (\<forall>i s. J i \<longrightarrow> good i (ev i s))"

lemma ev_goodD: "ev_good ev \<Longrightarrow> J i \<Longrightarrow> good i (ev i s)"
  by (simp add: ev_good_def)

lemma good_set_var: "J i \<Longrightarrow> (\<And>i'. J i' \<Longrightarrow> good i' (f i')) \<Longrightarrow> good i (run_bind (set_var i n v) f)"
  by (rule good_step [OF set_var_law])

lemma good_cmd_if:
  assumes "ev_good ev" and "J i"
  shows "good i (cmd_if ev i argv)"
  unfolding cmd_if_def
  by (intro good_arity assms(2) good_seq [OF ev_goodD [OF assms]] good_if good_done good_ok
      good_pure [OF atoi_harmless] ev_goodD [OF assms(1)])

lemma good_while:
  assumes "ev_good ev"
  shows "J i \<Longrightarrow> good i (while_loop ev n i t b)"
proof (induction n arbitrary: i)
  case 0
  then show ?case by (simp add: good_def)
next
  case (Suc n)
  show ?case
    unfolding while_loop.simps
    by (intro good_seq [OF ev_goodD [OF assms Suc.prems]] good_if good_done good_ok
        good_pure [OF atoi_harmless] good_seq [OF ev_goodD [OF assms]] Suc.IH)
qed

lemma good_lloop:
  assumes "ev_good ev"
  shows "J i \<Longrightarrow> good i (lloop ev idx item b j es i)"
proof (induction es arbitrary: i j)
  case Nil
  then show ?case by (simp add: good_ok)
next
  case (Cons e es)
  have body: "good i (run_bind (set_var i item e) (\<lambda>i. run_bind (ev i b) (\<lambda>(i, s).
      if s = S_CONTINUE \<or> s = S_OK then lloop ev idx item b (j + 1) es i
      else if s = S_BREAK then ok i else Done (i, s))))" if "J i" for i
    by (intro good_set_var that good_seq [OF ev_goodD [OF assms]] good_if good_done good_ok Cons.IH)
  show ?case
  proof (cases idx)
    case None
    show ?thesis unfolding lloop.simps None option.case run_bind.simps
      by (rule body [OF Cons.prems, unfolded None])
  next
    case (Some v)
    show ?thesis unfolding lloop.simps Some option.case
      by (intro good_set_var [OF Cons.prems] body [unfolded Some])
  qed
qed

lemma good_bind_args:
  "J i \<Longrightarrow> R i0 i \<Longrightarrow> post bad (\<lambda>i'. R i0 i' \<and> J i') (bind_args argv k names i)"
proof (induction names arbitrary: i k)
  case Nil
  then show ?case by simp
next
  case (Cons n names)
  show ?case
  proof (cases "k + 1 < length argv")
    case True
    show ?thesis
      unfolding bind_args.simps if_P [OF True]
      by (rule post_bind [OF set_var_law [OF Cons.prems(1)]])
        (use Cons R_trans in blast)
  next
    case False
    then show ?thesis using bad_law by auto
  qed
qed

lemma good_call_proc:
  assumes ev: "ev_good ev" and J: "J i"
  shows "good i (call_proc ev i argv pd)"
proof -
  have body: "post bad (\<lambda>(i', s). R (push_frame i) i' \<and> J i')
      (if b then Done (format_error i1 m, S_ERR)
       else run_bind (ev i1 (snd pd)) (\<lambda>(i, s). Done (i, if s = S_RETURN then S_OK else s)))"
    if "R (push_frame i) i1 \<and> J i1" for i1 b m
  proof (cases b)
    case True
    then show ?thesis using that R_trans R_result J_result by (simp add: format_error_def) blast
  next
    case False
    have "good i1 (run_bind (ev i1 (snd pd)) (\<lambda>(i, s). Done (i, if s = S_RETURN then S_OK else s)))"
      using that by (intro good_seq [OF ev_goodD [OF ev]] good_done) simp
    then have "good (push_frame i) (run_bind (ev i1 (snd pd)) (\<lambda>(i, s). Done (i, if s = S_RETURN then S_OK else s)))"
      using that good_trans by blast
    with False show ?thesis by (simp add: good_def)
  qed
  have drop: "post bad (\<lambda>(i', s). R i i' \<and> J i') (run_bind (drop_call_frame i2) (\<lambda>i. Done (i, s)))"
    if "R (push_frame i) i2 \<and> J i2" for i2 s
    using that J by (intro post_bind [OF drop_law [of i i2]]) auto
  show ?thesis
    unfolding good_def call_proc_def Let_def
    by (rule post_bind [OF good_bind_args [OF push_law [OF J] R_refl]], rule post_bind [OF body], assumption,
        simp only: split_beta, rule drop, simp add: split_beta)
qed

lemma good_call_ext:
  assumes J: "J i"
  shows "good i (call_ext env k i argv)"
proof (cases "env_command env k (i_ext i) argv")
  case (Done x)
  obtain e r st where x: "x = (e, r, st)" by (cases x)
  have "R i (i\<lparr>i_ext := e\<rparr>)" "J (i\<lparr>i_ext := e\<rparr>)" using ext_law [OF J] Done x by auto
  then have "R i ((i\<lparr>i_ext := e\<rparr>)\<lparr>i_result := a\<rparr>)" "J ((i\<lparr>i_ext := e\<rparr>)\<lparr>i_result := a\<rparr>)" for a
    using R_result J_result R_trans by blast+
  moreover have "i\<lparr>i_result := a, i_ext := e\<rparr> = (i\<lparr>i_ext := e\<rparr>)\<lparr>i_result := a\<rparr>" for a by simp
  ultimately show ?thesis using Done x unfolding good_def call_ext_def by (simp only: run.case post_simps prod.case)
qed (use good_undef [of Ub_command i] in \<open>simp_all add: call_ext_def good_def\<close>)

lemma good_run_command:
  assumes ev: "ev_good ev" and J: "J i"
  shows "good i (run_command ev n env i c argv)"
proof -
  have a: "good i (cmd_arith name f i argv)" if "\<And>a b. harmless (f a b)" for name f
    by (rule good_arith [OF J that])
  show ?thesis
  proof (cases "c_func c")
    case F_set
    then show ?thesis
      by (simp add: run_command_def cmd_set_def good_arity [OF J good_set_var [OF J good_ok]])
  next
    case F_while
    then show ?thesis
      by (simp add: run_command_def cmd_while_def good_arity [OF J good_while [OF ev J]])
  next
    case F_proc
    then show ?thesis
      by (simp add: run_command_def cmd_proc_def good_arity [OF J good_step [OF register_law [OF J] good_ok]])
  next
    case F_lappend
    then show ?thesis
      by (simp add: run_command_def cmd_lappend_def Let_def good_arity [OF J good_set_var [OF J good_ok_result]])
  next
    case F_lloop
    have "good i (cmd_lloop ev i argv)"
      unfolding cmd_lloop_def Let_def
      by (intro good_arity J) (auto split: list.split intro: good_lloop [OF ev J] good_err [OF J])
    with F_lloop show ?thesis by (simp add: run_command_def)
  next
    case F_eval
    then show ?thesis
      by (simp add: run_command_def cmd_eval_def good_arity [OF J ev_goodD [OF ev J]])
  next
    case F_mod
    then show ?thesis
      by (simp add: run_command_def cmd_mod_def good_int2 [OF J op_harmless(5) good_undef])
  next
    case F_call_proc
    then show ?thesis
      using good_call_proc [OF ev J] by (auto simp: run_command_def intro: good_undef split: option.split)
  qed (simp_all add: run_command_def good_call_ext [OF J] good_pure_commands [OF J] good_mp_commands [OF J] good_help [OF J]
      good_cmd_if [OF ev J] a op_harmless cmd_add_def cmd_sub_def cmd_mul_def cmd_div_def cmd_and_def
      cmd_shl_def cmd_shr_def cmd_eq_def cmd_ne_def cmd_gt_def cmd_lt_def cmd_gte_def cmd_lte_def
      cmd_hex_def cmd_oct_def cmd_bin_def good_base [OF J])
qed

lemma good_token_value:
  assumes "ev_good ev" and "J i"
  shows "post bad (\<lambda>(i', r). R i i' \<and> J i') (token_value ev i p t)"
proof -
  have cmd: "post bad (\<lambda>(i', r). R i i' \<and> J i')
      (run_bind (ev i x) (\<lambda>(i, s). if s \<noteq> S_OK then Done (i, Inl s) else Done (i, Inr (i_result i))))" for x
    using ev_goodD [OF assms, of x] by (auto simp: good_def intro!: post_bind)
  show ?thesis
    using bad_law cmd assms(2)
    by (auto simp: token_value_def format_error_def R_refl R_result J_result split: option.split)
qed

text \<open>The token loop: a word is only appended to a list that has one.\<close>

lemma good_eval_loop:
  assumes ev: "ev_good ev" and call: "\<And>i c argv. J i \<Longrightarrow> good i (call i c argv)"
  shows "J i \<Longrightarrow> p_cursor p \<le> length (p_body p) \<Longrightarrow> p_term p = nul \<Longrightarrow>
    argv \<noteq> [] \<or> p_token p = TK_SEP \<or> p_token p = TK_EOL \<Longrightarrow>
    good i (eval_loop ev call env k p i argv)"
proof (induction k arbitrary: i p argv)
  case 0
  then show ?case by (simp add: good_def)
next
  case (Suc k)
  obtain q t where n: "next_token (tok_fuel p) p = Some (q, t)" "moves p q"
    using next_token_facts [OF Suc.prems(2) order_refl] by blast
  have q: "p_cursor q \<le> length (p_body q)" "p_term q = nul" "p_token q = t"
    using n(2) Suc.prems(3) next_token_token [OF n(1) Suc.prems(2,3)] by (simp_all add: moves_def)
  have IH: "good i (eval_loop ev call env k q i argv)"
    if "J i" "argv \<noteq> [] \<or> t = TK_SEP \<or> t = TK_EOL" for i argv
    using Suc.IH [OF that(1) q(1,2)] that(2) q(3) by simp
  have cmd: "good i (run_bind (call i c argv) (\<lambda>(i, s). if s \<noteq> S_OK then Done (i, s) else eval_loop ev call env k q i []))"
    if "t = TK_EOL" for c
    by (intro good_seq [OF call [OF Suc.prems(1)]] good_if good_done IH) (simp_all add: that)
  have word: "good i (run_bind (token_value ev i q t) (\<lambda>(i, r). case r of Inl s \<Rightarrow> Done (i, s)
      | Inr w \<Rightarrow> let w = (if p_has_escapes q then process_escapes w else w) in
          if p_token p = TK_SEP \<or> p_token p = TK_EOL then eval_loop ev call env k q i (argv @ [w])
          else if argv = [] then Undefined Ub_empty_argv
          else eval_loop ev call env k q i (butlast argv @ [last argv @ w])))"
    unfolding good_def
  proof (rule post_bind [OF good_token_value [OF ev Suc.prems(1)]])
    fix x :: "'e interp \<times> (status + string)"
    assume "case x of (i', r) \<Rightarrow> R i i' \<and> J i'"
    then obtain i' r where x: "x = (i', r)" "R i i'" "J i'" by (cases x) auto
    have "good i' (case r of Inl s \<Rightarrow> Done (i', s)
      | Inr w \<Rightarrow> let w = (if p_has_escapes q then process_escapes w else w) in
          if p_token p = TK_SEP \<or> p_token p = TK_EOL then eval_loop ev call env k q i' (argv @ [w])
          else if argv = [] then Undefined Ub_empty_argv
          else eval_loop ev call env k q i' (butlast argv @ [last argv @ w]))"
      using Suc.prems(4) x(3) by (cases r) (auto simp: Let_def intro: good_done IH)
    from good_trans [OF x(2) this] show "post bad (\<lambda>(i', s). R i i' \<and> J i') (case x of (i, r) \<Rightarrow>
        case r of Inl s \<Rightarrow> Done (i, s)
      | Inr w \<Rightarrow> let w = (if p_has_escapes q then process_escapes w else w) in
          if p_token p = TK_SEP \<or> p_token p = TK_EOL then eval_loop ev call env k q i (argv @ [w])
          else if argv = [] then Undefined Ub_empty_argv
          else eval_loop ev call env k q i (butlast argv @ [last argv @ w]))"
      by (simp add: good_def x(1))
  qed
  show ?case
    unfolding eval_loop.simps n(1) option.case prod.case
    using Suc.prems(1) cmd
    by (intro good_if good_done IH word) (auto split: option.split intro: good_err)
qed

theorem eval_good: "ev_good (eval env n)"
proof (induction n)
  case 0
  then show ?case by (simp add: ev_good_def good_def eval.simps)
next
  case (Suc n)
  show ?case
    unfolding ev_good_def eval.simps
  proof (intro allI impI)
    fix i s
    assume J: "J i"
    have "good (i\<lparr>i_result := []\<rparr>) (eval_loop (eval env n) (run_command (eval env n) n env) env
        (script_fuel s) (parser_new s) (i\<lparr>i_result := []\<rparr>) [])"
      by (rule good_eval_loop [OF Suc good_run_command [OF Suc] J_result [OF J]])
        (simp_all add: parser_new_def)
    then show "good i (eval_loop (eval env n) (run_command (eval env n) n env) env
        (script_fuel s) (parser_new s) (i\<lparr>i_result := []\<rparr>) [])"
      by (rule good_trans [OF R_result])
  qed
qed

lemma eval_keeps: "J i \<Longrightarrow> eval env n i s = Done (i', st) \<Longrightarrow> R i i' \<and> J i'"
  using ev_goodD [OF eval_good, of i n s] by (simp add: good_def)

lemma eval_avoids: "J i \<Longrightarrow> u \<in> bad \<Longrightarrow> eval env n i s \<noteq> Undefined u"
  using ev_goodD [OF eval_good, of i n s] by (auto simp: good_def)

end

section \<open>Call frames\<close>

text \<open>The names of the variables, frame by frame.\<close>

definition shape :: "'e interp \<Rightarrow> string list list" where
  "shape i = map (map fst) (i_frames i)"

text \<open>The innermost frame may gain variables; the frames outside of it keep theirs.\<close>

definition frame_step :: "'e interp \<Rightarrow> 'e interp \<Rightarrow> bool" where
  "frame_step i i' \<longleftrightarrow> tl (shape i') = tl (shape i) \<and> (shape i = [] \<longleftrightarrow> shape i' = []) \<and>
     (\<exists>ns. hd (shape i') = hd (shape i) @ ns)"

lemma frame_set_names [simp]: "map fst (frame_set f n v) = map fst f"
  by (induction f n v rule: frame_set.induct) auto

lemma frames_set_shape [simp]: "map (map fst) (frames_set fs n v) = map (map fst) fs"
  by (induction fs n v rule: frames_set.induct) (auto split: option.split)

lemma frame_step_trans: "frame_step i j \<Longrightarrow> frame_step j k \<Longrightarrow> frame_step i k"
  by (auto simp: frame_step_def)

lemma frame_step_drop:
  assumes "frame_step (push_frame i) j" and "i_frames i \<noteq> []"
  shows "\<exists>f fs. i_frames j = f # fs \<and> fs \<noteq> [] \<and> map (map fst) fs = shape i"
proof (cases "i_frames j")
  case Nil
  with assms(1) show ?thesis by (simp add: frame_step_def shape_def push_frame_def)
next
  case (Cons f fs)
  with assms have "map (map fst) fs = shape i"
    by (simp add: frame_step_def shape_def push_frame_def)
  moreover from this assms(2) have "fs \<noteq> []" by (auto simp: shape_def)
  ultimately show ?thesis using Cons by blast
qed

lemma register_frames:
  "register_command env i n f pd d = Done i' \<Longrightarrow> i_frames i' = i_frames i"
  by (auto simp: register_command_def split: option.splits)

lemma register_defined: "register_command env i n f pd d = Undefined u \<Longrightarrow> u = Ub_null"
  by (auto simp: register_command_def split: option.splits)

interpretation frames: interp_rel "\<lambda>i :: 'e interp. i_frames i \<noteq> []" frame_step "{Ub_empty_argv, Ub_frames}" env
  for env :: "'e env"
proof unfold_locales
  fix i j k i' :: "'e interp" and a b c e n v f pd d argv r st and m :: nat
  show "frame_step i i" by (auto simp: frame_step_def)
  show "frame_step i j \<Longrightarrow> frame_step j k \<Longrightarrow> frame_step i k" by (rule frame_step_trans)
  show "i_frames i \<noteq> [] \<Longrightarrow> i_frames (i\<lparr>i_result := a, i_out := b, i_mpack := c\<rparr>) \<noteq> []" by simp
  show "frame_step i (i\<lparr>i_result := a, i_out := b, i_mpack := c\<rparr>)"
    by (simp add: frame_step_def shape_def)
  show "i_frames i \<noteq> [] \<Longrightarrow> frame_step i (i\<lparr>i_ext := e\<rparr>) \<and> i_frames (i\<lparr>i_ext := e\<rparr>) \<noteq> []"
    by (simp add: frame_step_def shape_def)
  show "post {Ub_empty_argv, Ub_frames} (\<lambda>i'. frame_step i i' \<and> i_frames i' \<noteq> []) (set_var i n v)"
    if "i_frames i \<noteq> []"
  proof (cases "get_var i n")
    case None
    with that show ?thesis by (auto simp: set_var_def frame_step_def shape_def split: list.split)
  next
    case (Some w)
    have "map (map fst) (frames_set (i_frames i) n v) \<noteq> []" using that by simp
    then have "frames_set (i_frames i) n v \<noteq> []" by blast
    with Some that show ?thesis by (simp add: set_var_def frame_step_def shape_def)
  qed
  show "post {Ub_empty_argv, Ub_frames} (\<lambda>i'. frame_step i i' \<and> i_frames i' \<noteq> [])
      (register_command env i n f pd d)" if "i_frames i \<noteq> []"
    using that register_frames [of env i n f pd d] register_defined [of env i n f pd d]
    by (cases "register_command env i n f pd d") (auto simp: frame_step_def shape_def)
  show "i_frames (push_frame i) \<noteq> []" by (simp add: push_frame_def)
  show "post {Ub_empty_argv, Ub_frames} (\<lambda>i''. frame_step i i'' \<and> i_frames i'' \<noteq> []) (drop_call_frame i')"
    if "i_frames i \<noteq> []" "frame_step (push_frame i) i'"
    using frame_step_drop [OF that(2,1)]
    by (auto simp: drop_call_frame_def frame_step_def shape_def)
qed simp

section \<open>The command table\<close>

definition ct_index :: "cmd list \<Rightarrow> string \<Rightarrow> nat option" where
  "ct_index cs = map_of (zip (map c_name cs) [0..<length cs])"

text \<open>The hash index holds the position of every command of the list under its name.\<close>

definition ct_inv :: "'e env \<Rightarrow> 'e interp \<Rightarrow> bool" where
  "ct_inv env i \<longleftrightarrow> distinct (map c_name (i_commands i)) \<and>
     hm_rep (env_signed env) (i_hash i) (ct_index (i_commands i))"

text \<open>Commands are added behind the ones there are, or redefined under their name.\<close>

definition ct_step :: "'e env \<Rightarrow> 'e interp \<Rightarrow> 'e interp \<Rightarrow> bool" where
  "ct_step env i i' \<longleftrightarrow> (\<exists>ns. map c_name (i_commands i') = map c_name (i_commands i) @ ns) \<and>
     (length (i_commands i') \<le> hm_limit \<longrightarrow> ct_inv env i \<longrightarrow> ct_inv env i')"

lemma ct_step_length: "ct_step env i i' \<Longrightarrow> length (i_commands i) \<le> length (i_commands i')"
  unfolding ct_step_def by (metis length_append length_map le_add1)

lemma ct_step_trans: "ct_step env i j \<Longrightarrow> ct_step env j k \<Longrightarrow> ct_step env i k"
  using ct_step_length [of env j k] by (auto simp: ct_step_def)

lemma ct_step_same:
  "map c_name (i_commands i') = map c_name (i_commands i) \<Longrightarrow> i_hash i' = i_hash i \<Longrightarrow> ct_step env i i'"
  by (auto simp: ct_step_def ct_inv_def ct_index_def dest: map_eq_imp_length_eq)

lemma dom_ct_index: "dom (ct_index cs) = set (map c_name cs)"
  by (simp add: ct_index_def)

lemma ct_index_snoc:
  assumes "c_name c \<notin> set (map c_name cs)"
  shows "ct_index (cs @ [c]) = (ct_index cs)(c_name c \<mapsto> length cs)"
proof -
  have "c_name c \<notin> dom (ct_index cs)" using assms dom_ct_index [of cs] by blast
  from map_add_upd_left [OF this, of Map.empty] show ?thesis by (simp add: ct_index_def)
qed

lemma ct_index_nth: "distinct (map c_name cs) \<Longrightarrow> k < length cs \<Longrightarrow> ct_index cs (c_name (cs ! k)) = Some k"
  unfolding ct_index_def
  by (intro map_of_is_SomeI) (auto simp: in_set_conv_nth intro!: exI [of _ k])

lemma redefine_names: "map c_name (cs[k := (cs ! k)\<lparr>c_func := f, c_proc := pd, c_doc := d\<rparr>]) = map c_name cs"
  by (cases "k < length cs") (simp_all add: map_update list_update_same_conv list_update_beyond)

lemma ct_register:
  assumes inv: "ct_inv env i" and room: "length (i_commands i) < hm_limit"
  shows "\<exists>i'. register_command env i n f pd d = Done i' \<and> ct_inv env i' \<and>
    map c_name (i_commands i') = (if n \<in> set (map c_name (i_commands i)) then map c_name (i_commands i)
      else map c_name (i_commands i) @ [n])"
proof -
  have dist: "distinct (map c_name (i_commands i))"
    and rep: "hm_rep (env_signed env) (i_hash i) (ct_index (i_commands i))"
    using inv by (simp_all add: ct_inv_def)
  have find: "hm_find (env_signed env) (i_hash i) n = ct_index (i_commands i) n"
    by (rule hm.find_law [OF rep])
  show ?thesis
  proof (cases "ct_index (i_commands i) n")
    case (Some k)
    let ?cs = "(i_commands i)[k := (i_commands i ! k)\<lparr>c_func := f, c_proc := pd, c_doc := d\<rparr>]"
    have names: "map c_name ?cs = map c_name (i_commands i)"
      by (rule redefine_names)
    moreover have "n \<in> set (map c_name (i_commands i))"
      using Some dom_ct_index [of "i_commands i"] by blast
    moreover have "ct_index ?cs = ct_index (i_commands i)" using names by (simp add: ct_index_def)
    ultimately show ?thesis
      using Some find dist rep by (simp add: register_command_def ct_inv_def)
  next
    case None
    then have new: "n \<notin> set (map c_name (i_commands i))"
      using dom_ct_index [of "i_commands i"] by (metis domIff)
    have "card (dom (ct_index (i_commands i))) < hm_limit"
      using dom_ct_index [of "i_commands i"] distinct_card [OF dist] room by simp
    from hm.insert_law [OF rep this] obtain h where
      "hm_put (env_signed env) (i_hash i) n (length (i_commands i)) = Some h"
      "hm_rep (env_signed env) h ((ct_index (i_commands i))(n \<mapsto> length (i_commands i)))" by blast
    with None find dist new show ?thesis
      by (simp add: register_command_def ct_inv_def ct_index_snoc)
  qed
qed

interpretation table: interp_rel "\<lambda>_. True" "ct_step env" "{}" env for env :: "'e env"
proof unfold_locales
  fix i j k i' :: "'e interp" and a b c e n v f pd d argv r st and m :: nat
  show "ct_step env i i" by (rule ct_step_same) simp_all
  show "ct_step env i j \<Longrightarrow> ct_step env j k \<Longrightarrow> ct_step env i k" by (rule ct_step_trans)
  show "ct_step env i (i\<lparr>i_result := a, i_out := b, i_mpack := c\<rparr>)" by (rule ct_step_same) simp_all
  have "ct_step env i (i\<lparr>i_ext := e\<rparr>)" by (rule ct_step_same) simp_all
  then show "ct_step env i (i\<lparr>i_ext := e\<rparr>) \<and> True" by simp
  have "i_commands j = i_commands i \<and> i_hash j = i_hash i" if "set_var i n v = Done j" for j
    using that by (auto simp: set_var_def split: option.splits list.splits)
  then show "post {} (\<lambda>i'. ct_step env i i' \<and> True) (set_var i n v)"
    by (cases "set_var i n v") (auto intro: ct_step_same)
  show "post {} (\<lambda>i'. ct_step env i i' \<and> True) (register_command env i n f pd d)"
  proof (cases "register_command env i n f pd d")
    case (Done j)
    have names: "\<exists>ns. map c_name (i_commands j) = map c_name (i_commands i) @ ns"
    proof (cases "hm_find (env_signed env) (i_hash i) n")
      case None
      with Done show ?thesis by (auto simp: register_command_def split: option.splits)
    next
      case (Some k)
      with Done have "i_commands j = (i_commands i)[k := (i_commands i ! k)\<lparr>c_func := f, c_proc := pd, c_doc := d\<rparr>]"
        by (auto simp: register_command_def)
      then have "map c_name (i_commands j) = map c_name (i_commands i)"
        by (simp add: redefine_names)
      then show ?thesis by simp
    qed
    have "ct_inv env j" if "length (i_commands j) \<le> hm_limit" "ct_inv env i"
    proof (cases "length (i_commands i) < hm_limit")
      case True
      from ct_register [OF that(2) this, of n f pd d] Done show ?thesis by auto
    next
      case False
      have "length (i_commands i) \<le> length (i_commands j)"
        using names by (metis length_append length_map le_add1)
      with False that(1) have "length (i_commands j) = length (i_commands i)" by simp
      then have "i_hash j = i_hash i"
        using Done by (auto simp: register_command_def split: option.splits)
      moreover have "map c_name (i_commands j) = map c_name (i_commands i)"
        using names \<open>length (i_commands j) = length (i_commands i)\<close> by (metis append_Nil2 append_eq_append_conv length_map)
      ultimately show ?thesis
        using that(2) \<open>length (i_commands j) = length (i_commands i)\<close> by (simp add: ct_inv_def ct_index_def)
    qed
    with Done names show ?thesis by (simp add: ct_step_def)
  qed simp_all
  show "post {} (\<lambda>i''. ct_step env i i'' \<and> True) (drop_call_frame i')" if "ct_step env (push_frame i) i'"
  proof -
    have "ct_step env i (push_frame i)" by (rule ct_step_same) (simp_all add: push_frame_def)
    from ct_step_trans [OF this that] have "ct_step env i i'" .
    moreover have "ct_step env i' (i'\<lparr>i_frames := fs\<rparr>)" for fs by (rule ct_step_same) simp_all
    ultimately show ?thesis
      by (auto simp: drop_call_frame_def intro: ct_step_trans split: list.split)
  qed
qed simp_all

section \<open>Command lines\<close>

lemma token_text_value:
  "token_text q = Some w \<Longrightarrow> t = TK_ESC \<or> t = TK_STR \<Longrightarrow>
   \<exists>b. token_value ev i q t = Done (i, Inr b) \<and> (if p_has_escapes q then process_escapes b else b) = w"
  by (auto simp: token_text_def token_value_def)

lemma eval_loop_word:
  assumes "next_token (tok_fuel p) p = Some (q, t)" and "t = TK_ESC \<or> t = TK_STR"
    and "token_text q = Some w" and "p_token p = TK_SEP \<or> p_token p = TK_EOL"
  shows "eval_loop ev call env (Suc k) p i argv = eval_loop ev call env k q i (argv @ [w])"
proof -
  obtain b where b: "token_value ev i q t = Done (i, Inr b)" "(if p_has_escapes q then process_escapes b else b) = w"
    using token_text_value [OF assms(3,2)] by blast
  have t: "t \<noteq> TK_EOF" "t \<noteq> TK_SEP" "t \<noteq> TK_EOL" using assms(2) by auto
  show ?thesis
    unfolding eval_loop.simps assms(1) option.case prod.case if_not_P [OF t(1)] if_not_P [OF t(2)] if_not_P [OF t(3)]
      b(1) run_bind.simps sum.case Let_def b(2) if_P [OF assms(4)] ..
qed

lemma eval_loop_sep:
  assumes "next_token (tok_fuel p) p = Some (q, TK_SEP)"
  shows "eval_loop ev call env (Suc k) p i argv = eval_loop ev call env k q i argv"
  using assms by simp

definition dispatch :: "('e interp \<Rightarrow> cmd \<Rightarrow> string list \<Rightarrow> 'e outcome) \<Rightarrow> 'e env \<Rightarrow> 'e interp \<Rightarrow> string list \<Rightarrow> 'e outcome" where
  "dispatch call env i argv = (case get_command env i (hd argv) of
       None \<Rightarrow> err i (''command not found: '' @ [CHR 0x27] @ cstr (hd argv) @ [CHR 0x27])
     | Some c \<Rightarrow> call i c argv)"

lemma eval_loop_last:
  assumes n: "next_token (tok_fuel p) p = Some (q, TK_EOL)" and q: "p_token q = TK_EOL" "p_cursor q = length (p_body q)"
    and a: "argv \<noteq> []"
  shows "eval_loop ev call env (Suc (Suc k)) p i argv = dispatch call env i argv"
proof -
  have "eval_loop ev call env (Suc k) q j [] = Done (j, S_OK)" for j
    using end_token [OF q(2)] q(1) by simp
  then have "run_bind (call i c argv) (\<lambda>(i, s). if s \<noteq> S_OK then Done (i, s) else eval_loop ev call env (Suc k) q i [])
      = call i c argv" for c
    by (cases "call i c argv") (auto split: prod.split)
  with a show ?thesis
    unfolding eval_loop.simps(2) [of ev call env "Suc k" p] n option.case prod.case dispatch_def
    by (auto simp del: eval_loop.simps split: option.split)
qed

lemma eval_loop_line:
  assumes "ws \<noteq> []" and "\<forall>w\<in>set ws. word_ok w" and "idle p" and "p_token p = TK_SEP \<or> p_token p = TK_EOL"
    and "drop (p_cursor p) (p_body p) = line ws" and "length (p_body p) < size_mod" and "2 * length ws < k"
  shows "eval_loop ev call env k p i argv = dispatch call env i (argv @ map word_text ws)"
  using assms
proof (induction ws arbitrary: p argv k rule: line.induct)
  case 1
  then show ?case by simp
next
  case (2 w)
  obtain k' where k: "k = Suc (Suc (Suc k'))" using "2.prems"(7) by (cases k; cases "k - 1"; cases "k - 2") auto
  have d: "drop (p_cursor p) (p_body p) = word_form w @ CHR 0x0A # []" using "2.prems"(5) by simp
  have w: "word_ok w" using "2.prems"(2) by simp
  obtain q t where q: "next_token (tok_fuel p) p = Some (q, t)" "t = TK_ESC \<or> t = TK_STR"
    "token_text q = Some (word_text w)" "idle q" "p_body q = p_body p"
    "p_cursor q = p_cursor p + length (word_form w)"
    using word_token [OF "2.prems"(3) w d _ "2.prems"(6)] by (auto simp: is_blank_def)
  have "drop (p_cursor q) (p_body q) = [CHR 0x0A]" unfolding q(5,6) by (rule drop_word [OF d])
  from newline_token [OF q(4) this] obtain q' where q': "next_token (tok_fuel q) q = Some (q', TK_EOL)"
    "p_token q' = TK_EOL" "p_cursor q' = length (p_body q')" by blast
  show ?case
    unfolding k eval_loop_word [OF q(1-3) "2.prems"(4)]
    by (subst eval_loop_last [OF q']) simp_all
next
  case (3 w v ws)
  obtain k' where k: "k = Suc (Suc k')" "2 * length (v # ws) < k'"
    using "3.prems"(7) by (cases k; cases "k - 1") auto
  have d: "drop (p_cursor p) (p_body p) = word_form w @ CHR '' '' # line (v # ws)" using "3.prems"(5) by simp
  have w: "word_ok w" "\<forall>w\<in>set (v # ws). word_ok w" using "3.prems"(2) by simp_all
  obtain q t where q: "next_token (tok_fuel p) p = Some (q, t)" "t = TK_ESC \<or> t = TK_STR"
    "token_text q = Some (word_text w)" "idle q" "p_body q = p_body p"
    "p_cursor q = p_cursor p + length (word_form w)"
    using word_token [OF "3.prems"(3) w(1) d _ "3.prems"(6)] by (auto simp: is_blank_def)
  obtain c s where cs: "line (v # ws) = c # s" "\<not> is_blank c"
    using word_form_head [of v] w(2) by (cases ws) fastforce+
  have dq: "drop (p_cursor q) (p_body q) = CHR '' '' # line (v # ws)" unfolding q(5,6) by (rule drop_word [OF d])
  from space_token [OF q(4) dq [unfolded cs(1)] cs(2)] obtain q' where q': "next_token (tok_fuel q) q = Some (q', TK_SEP)"
    "idle q'" "p_body q' = p_body q" "p_token q' = TK_SEP" "p_cursor q' = p_cursor q + 1" by blast
  have "drop (p_cursor q') (p_body q') = line (v # ws)"
    using drop_advance [OF dq] q'(3,5) by simp
  then have "eval_loop ev call env k' q' i (argv @ [word_text w]) =
      dispatch call env i ((argv @ [word_text w]) @ map word_text (v # ws))"
    using "3.prems"(6) q(5) q'(2,3,4) k(2) w(2) by (intro "3.IH") simp_all
  then show ?case
    unfolding k(1) eval_loop_word [OF q(1-3) "3.prems"(4)] eval_loop_sep [OF q'(1)] by simp
qed

lemma line_length: "2 * length ws < 4 * length (line ws) + 2"
  by (induction ws rule: line.induct) simp_all

lemma eval_dispatch:
  assumes "ws \<noteq> []" and "\<forall>w\<in>set ws. word_ok w" and "length (line ws) < size_mod"
  shows "eval env (Suc n) i (line ws) =
    dispatch (run_command (eval env n) n env) env (i\<lparr>i_result := []\<rparr>) (map word_text ws)"
  using eval_loop_line [OF assms(1,2), of "parser_new (line ws)" "script_fuel (line ws)" "eval env n"
      "run_command (eval env n) n env" env "i\<lparr>i_result := []\<rparr>" "[]"] assms(3) line_length [of ws] idle_new [of "line ws"]
  by (simp add: eval.simps(2) script_fuel_def) (simp add: parser_new_def)

section \<open>The token loop ends\<close>

lemma run_bind_NoFuel_iff:
  "run_bind m f = NoFuel \<longleftrightarrow> m = NoFuel \<or> (\<exists>x. m = Done x \<and> f x = NoFuel)"
  by (cases m) auto

lemma eval_loop_total:
  assumes ev: "\<And>i s. ev i s \<noteq> NoFuel" and call: "\<And>i c argv. call i c argv \<noteq> NoFuel"
  shows "p_cursor p \<le> length (p_body p) \<Longrightarrow> todo p < k \<Longrightarrow> eval_loop ev call env k p i argv \<noteq> NoFuel"
proof (induction k arbitrary: p i argv)
  case 0
  then show ?case by simp
next
  case (Suc k)
  obtain q t where n: "next_token (tok_fuel p) p = Some (q, t)" "moves p q" "t \<noteq> TK_EOF \<longrightarrow> todo q < todo p"
    using next_token_facts [OF Suc.prems(1) order_refl] by blast
  have IH: "eval_loop ev call env k q j av \<noteq> NoFuel" if "t \<noteq> TK_EOF" for j av
    using n(2,3) that Suc.prems(2) by (intro Suc.IH) (auto simp: moves_def)
  have val: "token_value ev i q t \<noteq> NoFuel"
    using ev by (cases "ev i (the (token_body q))") (auto simp: token_value_def split: option.split if_splits)
  show ?case
    unfolding eval_loop.simps(2) n(1) option.case prod.case
    using call IH val
    by (auto simp del: eval_loop.simps simp: Let_def err_def run_bind_NoFuel_iff split: option.splits sum.splits if_splits)
qed

section \<open>Registration\<close>

definition cmd_of :: "string \<times> func \<times> string \<Rightarrow> cmd" where
  "cmd_of e = \<lparr>c_name = fst e, c_func = fst (snd e), c_proc = None, c_doc = snd (snd e)\<rparr>"

lemma register_new:
  assumes inv: "ct_inv env i" and room: "length (i_commands i) < hm_limit" and new: "n \<notin> set (map c_name (i_commands i))"
  shows "\<exists>i'. register_command env i n f pd d = Done i' \<and> ct_inv env i' \<and>
    i_commands i' = i_commands i @ [\<lparr>c_name = n, c_func = f, c_proc = pd, c_doc = d\<rparr>]"
proof -
  from ct_register [OF inv room, of n f pd d] obtain i' where
    i': "register_command env i n f pd d = Done i'" "ct_inv env i'" by blast
  have "hm_find (env_signed env) (i_hash i) n = ct_index (i_commands i) n"
    using inv by (intro hm.find_law) (simp add: ct_inv_def)
  also have "\<dots> = None" using new dom_ct_index [of "i_commands i"] by (metis domIff)
  finally show ?thesis using i' by (auto simp: register_command_def split: option.splits)
qed

lemma register_all_new:
  assumes "ct_inv env i" and "length (i_commands i) + length es \<le> hm_limit"
    and "distinct (map c_name (i_commands i) @ map fst es)"
  shows "\<exists>i'. register_all env es i = Done i' \<and> ct_inv env i' \<and> i_commands i' = i_commands i @ map cmd_of es"
  using assms
proof (induction es arbitrary: i)
  case Nil
  then show ?case by simp
next
  case (Cons e es)
  obtain n f d where e: "e = (n, f, d)" by (cases e)
  have "length (i_commands i) < hm_limit" "n \<notin> set (map c_name (i_commands i))"
    using Cons.prems(2,3) e by auto
  from register_new [OF Cons.prems(1) this, of f None d] obtain i1 where
    i1: "register_command env i n f None d = Done i1" "ct_inv env i1" "i_commands i1 = i_commands i @ [cmd_of e]"
    by (auto simp: e cmd_of_def)
  have "\<exists>i'. register_all env es i1 = Done i' \<and> ct_inv env i' \<and> i_commands i' = i_commands i1 @ map cmd_of es"
    using Cons.prems i1 by (intro Cons.IH) (auto simp: cmd_of_def)
  with i1 show ?case by (simp add: e run_simps)
qed

lemma ct_inv_with: "ct_inv env (interp_with e)"
  using hm.fresh_law [of "env_signed env"] by (simp add: ct_inv_def interp_with_def ct_index_def)

lemma ct_inv_new: "ct_inv env interp_new"
  unfolding interp_new_def by (rule ct_inv_with)

lemma ct_find:
  assumes "ct_inv env i"
  shows "get_command env i n = (if n \<in> set (map c_name (i_commands i))
    then Some (i_commands i ! the (ct_index (i_commands i) n)) else None)"
proof -
  have "hm_find (env_signed env) (i_hash i) n = ct_index (i_commands i) n"
    using assms by (intro hm.find_law) (simp add: ct_inv_def)
  moreover have "n \<in> set (map c_name (i_commands i)) \<longleftrightarrow> ct_index (i_commands i) n \<noteq> None"
    using dom_ct_index [of "i_commands i"] by (metis domIff)
  ultimately show ?thesis by (auto simp: get_command_def)
qed

lemma ct_get:
  assumes inv: "ct_inv env i" and c: "c \<in> set (i_commands i)"
  shows "get_command env i (c_name c) = Some c"
proof -
  have dist: "distinct (map c_name (i_commands i))" using inv by (simp add: ct_inv_def)
  obtain k where k: "k < length (i_commands i)" "c = i_commands i ! k"
    using c by (auto simp: in_set_conv_nth)
  have "ct_index (i_commands i) (c_name c) = Some k" unfolding k(2) by (rule ct_index_nth [OF dist k(1)])
  then show ?thesis using ct_find [OF inv, of "c_name c"] c k(2) by simp
qed

lemma core_registered_with:
  "\<exists>i. register_core_commands env (interp_with e) = Done i \<and> ct_inv env i \<and> i_commands i = map cmd_of core_commands"
proof -
  have "distinct (map c_name (i_commands (interp_with e)) @ map fst core_commands)"
    by (simp add: interp_with_def core_commands_def)
  moreover have "length (i_commands (interp_with e)) + length core_commands \<le> hm_limit"
    by (simp add: interp_with_def core_commands_def hm_limit_def)
  moreover have "i_commands (interp_with e) = []" by (simp add: interp_with_def)
  ultimately show ?thesis
    using register_all_new [OF ct_inv_with, of e core_commands env] by (simp add: register_core_commands_def)
qed

lemma core_registered:
  "\<exists>i. register_core_commands env interp_new = Done i \<and> ct_inv env i \<and> i_commands i = map cmd_of core_commands"
  unfolding interp_new_def by (rule core_registered_with)

text \<open>Commands registered behind the core commands of a new interpreter are found, and the
  state behind the extension is untouched.\<close>

lemma register_ext: "register_command env i n f pd d = Done i' \<Longrightarrow> i_ext i' = i_ext i"
  by (auto simp: register_command_def split: option.splits)

lemma register_all_ext: "register_all env es i = Done i' \<Longrightarrow> i_ext i' = i_ext i"
proof (induction es arbitrary: i)
  case (Cons e es)
  then show ?case by (cases e) (auto simp: run_bind_Done_iff dest!: register_ext)
qed simp

lemma extension_registered:
  assumes "distinct (map fst (core_commands @ es))" and "length core_commands + length es \<le> hm_limit"
  shows "\<exists>i i'. register_core_commands env (interp_with s) = Done i \<and> register_all env es i = Done i' \<and> i_ext i' = s \<and>
     (\<forall>e\<in>set es. get_command env i' (fst e) = Some (cmd_of e))"
proof -
  obtain i where i: "register_core_commands env (interp_with s) = Done i" "ct_inv env i" "i_commands i = map cmd_of core_commands"
    using core_registered_with [of env s] by (elim exE conjE)
  have "register_all env core_commands (interp_with s) = Done i" using i(1) unfolding register_core_commands_def .
  then have "i_ext i = i_ext (interp_with s)" by (rule register_all_ext)
  then have ext: "i_ext i = s" by (simp add: interp_with_def)
  have "map c_name (i_commands i) = map fst core_commands" unfolding i(3) by (simp add: cmd_of_def)
  then have "distinct (map c_name (i_commands i) @ map fst es)" using assms(1) by simp
  moreover have "length (i_commands i) + length es \<le> hm_limit" unfolding i(3) using assms(2) by simp
  ultimately obtain i' where i': "register_all env es i = Done i'" "ct_inv env i'"
      "i_commands i' = i_commands i @ map cmd_of es"
    using register_all_new [OF i(2)] by blast
  have "get_command env i' (fst e) = Some (cmd_of e)" if "e \<in> set es" for e
    using ct_get [OF i'(2), of "cmd_of e"] i'(3) that by (simp add: cmd_of_def)
  with i(1) i'(1) ext show ?thesis using register_all_ext [OF i'(1)] by auto
qed

section \<open>Variables\<close>

lemma frame_get_set:
  "frame_get f n = Some w \<Longrightarrow> frame_get (frame_set f n v) m = (if m = n then Some v else frame_get f m)"
  by (induction f n v rule: frame_set.induct) (auto split: if_splits)

lemma frames_get_set:
  "frames_get fs n = Some w \<Longrightarrow> frames_get (frames_set fs n v) m = (if m = n then Some v else frames_get fs m)"
  by (induction fs n v rule: frames_set.induct) (auto simp: frame_get_set split: option.splits)

lemma frame_get_snoc:
  "frame_get (f @ [(n, v)]) m = (case frame_get f m of Some w \<Rightarrow> Some w
    | None \<Rightarrow> if m = n \<and> n \<noteq> [] then Some v else None)"
  by (induction f m rule: frame_get.induct) auto

text \<open>Setting a variable: with a frame on the stack and a name that is not empty it
  succeeds, the name then has the value, every other name has the value it had, and when
  the name was visible in some frame no frame gains a variable.\<close>

theorem set_var_get_var:
  assumes "i_frames i \<noteq> []" and "n \<noteq> []"
  shows "\<exists>i'. set_var i n v = Done i' \<and> get_var i' n = Some v \<and>
    (\<forall>m. m = n \<or> get_var i' m = get_var i m) \<and> (get_var i n = None \<or> shape i' = shape i)"
proof (cases "get_var i n")
  case (Some w)
  then show ?thesis by (simp add: set_var_def get_var_def frames_get_set shape_def)
next
  case None
  obtain f fs where f: "i_frames i = f # fs" using assms(1) by (cases "i_frames i") auto
  with None have "frame_get f n = None" "frames_get fs n = None"
    by (auto simp: get_var_def split: option.splits)
  with None f assms(2) show ?thesis by (auto simp: set_var_def get_var_def frame_get_snoc split: option.split)
qed

theorem set_var_get_var_witness:
  "\<exists>i'. set_var interp_new ''x'' ''1'' = Done i' \<and> get_var i' ''x'' = Some ''1'' \<and>
    (\<forall>m. m = ''x'' \<or> get_var i' m = get_var interp_new m) \<and>
    (get_var interp_new ''x'' = None \<or> shape i' = shape interp_new)"
  using set_var_get_var [of interp_new "''x''" "''1''"] by (simp add: interp_new_def interp_with_def)

section \<open>Procedure calls\<close>

lemma bind_args_missing:
  "i_frames i \<noteq> [] \<Longrightarrow> length argv \<le> k + length names \<Longrightarrow> k < length argv \<Longrightarrow> names \<noteq> [] \<Longrightarrow>
   bind_args argv k names i = Undefined Ub_argv_index"
proof (induction names arbitrary: k i)
  case Nil
  then show ?case by simp
next
  case (Cons n names)
  show ?case
  proof (cases "k + 1 < length argv")
    case True
    then have "names \<noteq> []" using Cons.prems(2) by auto
    moreover obtain i' where "set_var i n (argv ! (k + 1)) = Done i'" "i_frames i' \<noteq> []"
      using Cons.prems(1) frames.set_var_law [of i n "argv ! (k + 1)"]
      by (cases "set_var i n (argv ! (k + 1))") (auto simp: set_var_def split: option.splits list.splits)
    ultimately show ?thesis using True Cons.IH [of i' "k + 1"] Cons.prems(2) by simp
  qed simp
qed

text \<open>A procedure called with too few arguments reads its argument vector past the end: the
  parameters are bound before their number is compared with the arguments.\<close>

theorem call_proc_missing_args:
  assumes "argv \<noteq> []" and "length argv \<le> length (arg_names params)"
  shows "call_proc ev i argv (params, body) = Undefined Ub_argv_index"
proof -
  have "arg_names params \<noteq> []" using assms by auto
  then have "bind_args argv 0 (arg_names params) (push_frame i) = Undefined Ub_argv_index"
    using assms by (intro bind_args_missing) (auto simp: push_frame_def)
  then show ?thesis by (simp add: call_proc_def Let_def)
qed

theorem call_proc_missing_args_witness:
  "call_proc (\<lambda>i s. ok i) interp_new [''f''] (''x'', ''puts $x'') = Undefined Ub_argv_index"
  using call_proc_missing_args [of "[''f'']" "''x''"] by (simp add: arg_names.simps)

lemma frames_get_None_push: "frames_get ([] # fs) m = frames_get fs m"
  by simp

text \<open>A parameter whose name is visible to the caller is no local variable: the call
  assigns the caller's variable, and the value is still there when the frame is dropped.\<close>

theorem call_proc_clobbers:
  assumes "get_var i n = Some w"
  shows "\<exists>i1 i2. bind_args [f, v] 0 [n] (push_frame i) = Done i1 \<and> hd (i_frames i1) = [] \<and>
    drop_call_frame i1 = Done i2 \<and> get_var i2 n = Some v"
  using assms by (simp add: push_frame_def set_var_def get_var_def drop_call_frame_def frames_get_set)

theorem call_proc_clobbers_witness:
  "\<exists>i1 i2. bind_args [''f'', ''2''] 0 [''x''] (push_frame (interp_new\<lparr>i_frames := [[(''x'', ''1'')]]\<rparr>)) = Done i1 \<and>
    hd (i_frames i1) = [] \<and> drop_call_frame i1 = Done i2 \<and> get_var i2 ''x'' = Some ''2''"
  using call_proc_clobbers [of "interp_new\<lparr>i_frames := [[(''x'', ''1'')]]\<rparr>" "''x''" "''1''" "''f''" "''2''"]
  by (simp add: get_var_def)

lemma bind_args_fresh:
  assumes "length argv = k + length names + 1" and "distinct names" and "[] \<notin> set names"
    and "i_frames i = f # fs" and "\<forall>n\<in>set names. frames_get (f # fs) n = None"
  shows "bind_args argv k names i = Done (i\<lparr>i_frames := (f @ zip names (drop (k + 1) argv)) # fs\<rparr>)"
  using assms
proof (induction names arbitrary: k i f)
  case Nil
  then show ?case by simp
next
  case (Cons n names)
  have k: "k + 1 < length argv" using Cons.prems(1) by simp
  then have d: "drop (k + 1) argv = argv ! (k + 1) # drop (k + 2) argv"
    by (simp add: Cons_nth_drop_Suc)
  have g: "get_var i n = None" using Cons.prems(4,5) by (simp add: get_var_def)
  have fresh: "\<forall>m\<in>set names. frames_get ((f @ [(n, argv ! (k + 1))]) # fs) m = None"
    using Cons.prems(2,5) by (auto simp: frame_get_snoc split: option.splits)
  have "bind_args argv (k + 1) names (i\<lparr>i_frames := (f @ [(n, argv ! (k + 1))]) # fs\<rparr>) =
      Done (i\<lparr>i_frames := (f @ [(n, argv ! (k + 1))]) # fs\<rparr>
        \<lparr>i_frames := ((f @ [(n, argv ! (k + 1))]) @ zip names (drop (k + 1 + 1) argv)) # fs\<rparr>)"
    using Cons.prems(1,2,3) fresh by (intro Cons.IH) simp_all
  then show ?case using k d g Cons.prems(4) by (simp add: set_var_def)
qed

text \<open>A call with the right number of arguments whose parameters have distinct names that
  no frame knows: the body runs in a new frame that holds exactly the parameters with the
  arguments in order, a \<open>return\<close> becomes success, and the frame is dropped.\<close>

theorem call_proc_fresh:
  assumes "length argv = length (arg_names params) + 1" and "distinct (arg_names params)"
    and "[] \<notin> set (arg_names params)" and "\<forall>n\<in>set (arg_names params). get_var i n = None"
  shows "call_proc ev i argv (params, body) =
    run_bind (ev (i\<lparr>i_frames := zip (arg_names params) (tl argv) # i_frames i\<rparr>) body) (\<lambda>(i', s).
      run_bind (drop_call_frame i') (\<lambda>i''. Done (i'', if s = S_RETURN then S_OK else s)))"
proof -
  have "bind_args argv 0 (arg_names params) (push_frame i) =
      Done (i\<lparr>i_frames := zip (arg_names params) (tl argv) # i_frames i\<rparr>)"
    using bind_args_fresh [of argv 0 "arg_names params" "push_frame i" "[]" "i_frames i"] assms
    by (simp add: push_frame_def get_var_def drop_Suc)
  moreover have "run_bind (run_bind m (\<lambda>(i, s). Done (i, if s = S_RETURN then S_OK else s)))
      (\<lambda>(i, s). run_bind (drop_call_frame i) (\<lambda>i. Done (i, s))) =
    run_bind m (\<lambda>(i', s). run_bind (drop_call_frame i') (\<lambda>i''. Done (i'', if s = S_RETURN then S_OK else s)))"
    for m :: "'e outcome"
    by (cases m) auto
  ultimately show ?thesis using assms(1) by (simp add: call_proc_def Let_def)
qed

theorem call_proc_fresh_witness:
  "call_proc (\<lambda>i s. Done (i\<lparr>i_result := the (get_var i ''b'')\<rparr>, S_RETURN)) interp_new [''f'', ''1'', ''2''] (''a b'', ''return $b'') =
    Done (interp_new\<lparr>i_result := ''2''\<rparr>, S_OK)"
  using call_proc_fresh [of "[''f'', ''1'', ''2'']" "''a b''" interp_new
      "\<lambda>i s. Done (i\<lparr>i_result := the (get_var i ''b'')\<rparr>, S_RETURN)" "''return $b''"]
  by (simp add: arg_names.simps interp_new_def interp_with_def get_var_def drop_call_frame_def)

section \<open>What evaluation guarantees\<close>

definition demo_env :: "unit env" where
  "demo_env = \<lparr>env_signed = True, env_command = (\<lambda>k e argv. Done ((), None, S_OK))\<rparr>"

lemma core_get:
  assumes "ct_inv env i" and "i_commands i = map cmd_of core_commands" and "e \<in> set core_commands"
  shows "get_command env i (fst e) = Some (cmd_of e)"
  using ct_get [OF assms(1), of "cmd_of e"] assms(2,3) by (simp add: cmd_of_def)

text \<open>C24. A line of literal words, bare, quoted or braced, is evaluated as one command: the
  command named by the first word is looked up and called once with exactly the texts of the
  words as its arguments, and its outcome is the outcome of the line.\<close>

theorem eval_command_line:
  assumes "ws \<noteq> []" and "\<forall>w\<in>set ws. word_ok w" and "length (line ws) < size_mod"
  shows "eval env (Suc n) i (line ws) =
    dispatch (run_command (eval env n) n env) env (i\<lparr>i_result := []\<rparr>) (map word_text ws)"
  using assms by (rule eval_dispatch)

theorem eval_command_line_witness:
  "\<exists>i. register_core_commands demo_env interp_new = Done i \<and>
    eval demo_env (Suc 0) i (line [Bare ''puts'', Braced ''$a b'']) =
      Done (i\<lparr>i_result := [], i_out := i_out i @ [''$a b'' @ newline]\<rparr>, S_OK)"
proof -
  obtain i where i: "register_core_commands demo_env interp_new = Done i" "ct_inv demo_env i"
    "i_commands i = map cmd_of core_commands" using core_registered by blast
  have "get_command demo_env (i\<lparr>i_result := []\<rparr>) ''puts'' =
      Some (cmd_of (''puts'', F_puts, ''[puts string] => nil - Print string to output''))"
    using core_get [OF i(2,3), of "(''puts'', F_puts, ''[puts string] => nil - Print string to output'')"]
    by (simp add: core_commands_def get_command_def)
  then show ?thesis
    using eval_command_line [of "[Bare ''puts'', Braced ''$a b'']" demo_env 0 i] i(1)
    by (simp add: bare_def is_blank_def size_mod_def dispatch_def cmd_of_def run_command_def cmd_puts_def
        arity_check_def ok_def i_write_def newline_def nul_def)
qed

text \<open>The result of an evaluation does not depend on the fuel: once it ends, with a state, an
  error or undefined behaviour, any larger fuel gives the same.\<close>

theorem eval_fuel_mono:
  assumes "eval env n i s \<noteq> NoFuel" and "n \<le> n'"
  shows "eval env n' i s = eval env n i s"
  using eval_le [OF assms(2), of env i s] assms(1) by (auto simp: run_le_def)

theorem eval_fuel_mono_witness:
  "eval demo_env 100 interp_new (line [Bare ''f'']) = err interp_new (''command not found: '' @ [CHR 0x27] @ ''f'' @ [CHR 0x27])"
proof -
  have e: "eval demo_env 1 interp_new (line [Bare ''f'']) = err interp_new (''command not found: '' @ [CHR 0x27] @ ''f'' @ [CHR 0x27])"
    using eval_dispatch [of "[Bare ''f'']" demo_env 0 interp_new] ct_find [OF ct_inv_new, of demo_env "''f''"]
    by (simp add: bare_def is_blank_def size_mod_def dispatch_def get_command_def interp_new_def interp_with_def nul_def)
  then have "eval demo_env 1 interp_new (line [Bare ''f'']) \<noteq> NoFuel" by (simp add: err_def)
  from eval_fuel_mono [OF this, of 100] show ?thesis unfolding e by simp
qed

text \<open>The token loop of \<open>eval\<close> ends: when the nested evaluations and the commands return,
  the bound of \<open>4 n + 2\<close> tokens for a script of \<open>n\<close> characters is never reached.\<close>

theorem eval_loop_ends:
  assumes "\<And>i s. ev i s \<noteq> NoFuel" and "\<And>i c argv. call i c argv \<noteq> NoFuel"
  shows "eval_loop ev call env (script_fuel s) (parser_new s) i [] \<noteq> NoFuel"
  by (rule eval_loop_total [OF assms])
    (simp_all add: parser_new_def todo_def rest_len_def script_fuel_def)

theorem eval_loop_ends_witness:
  "eval_loop (\<lambda>i s. ok i) (\<lambda>i c argv. ok i) demo_env (script_fuel ''puts [f];'') (parser_new ''puts [f];'') interp_new [] \<noteq> NoFuel"
  by (rule eval_loop_ends) (simp_all add: ok_def)

text \<open>C26. Evaluation keeps the call frames: when a script that started with a frame ends, in
  whatever way, there are as many frames as before, the outer frames have the same
  variables, and the innermost frame has its variables and perhaps new ones behind them.\<close>

theorem eval_frame_discipline:
  assumes "i_frames i \<noteq> []" and "eval env n i s = Done (i', st)"
  shows "length (i_frames i') = length (i_frames i) \<and> tl (shape i') = tl (shape i) \<and>
    (\<exists>ns. hd (shape i') = hd (shape i) @ ns)"
proof -
  have "frame_step i i'" using frames.eval_keeps [OF assms] by simp
  moreover from this have "length (shape i') = length (shape i)"
    by (cases "shape i"; cases "shape i'") (auto simp: frame_step_def)
  ultimately show ?thesis by (auto simp: frame_step_def shape_def)
qed

theorem eval_frame_discipline_witness:
  "\<exists>i'. eval demo_env 1 interp_new (line [Bare ''f'']) = Done (i', S_ERR) \<and>
    length (i_frames i') = length (i_frames interp_new) \<and> tl (shape i') = tl (shape interp_new)"
proof -
  have "get_command demo_env (interp_new\<lparr>i_result := []\<rparr>) ''f'' = None"
    using ct_find [OF ct_inv_new, of demo_env "''f''"] by (simp add: get_command_def interp_new_def interp_with_def)
  then obtain i' where e: "eval demo_env 1 interp_new (line [Bare ''f'']) = Done (i', S_ERR)"
    using eval_dispatch [of "[Bare ''f'']" demo_env 0 interp_new]
    by (simp add: bare_def is_blank_def size_mod_def dispatch_def err_def)
  have "i_frames interp_new \<noteq> []" by (simp add: interp_new_def interp_with_def)
  from eval_frame_discipline [OF this e] e show ?thesis by blast
qed

text \<open>Two causes of undefined behaviour never occur: no word is appended to an empty
  argument vector, and no frame is taken from an empty stack.\<close>

theorem eval_argv_and_frames_safe:
  assumes "i_frames i \<noteq> []"
  shows "eval env n i s \<noteq> Undefined Ub_empty_argv \<and> eval env n i s \<noteq> Undefined Ub_frames"
  using frames.eval_avoids [OF assms] by auto

theorem eval_argv_and_frames_safe_witness:
  "eval demo_env 7 interp_new ''x{y}[z] $v'' \<noteq> Undefined Ub_empty_argv \<and>
   eval demo_env 7 interp_new ''x{y}[z] $v'' \<noteq> Undefined Ub_frames"
  by (rule eval_argv_and_frames_safe) (simp add: interp_new_def interp_with_def)

text \<open>C25. The command table stays consistent: whatever a script defines or redefines, every
  command of the list is found under its name, no command is lost, and none is renamed, up
  to \<open>2\<^sup>2\<^sup>4\<close> commands.\<close>

theorem eval_command_table:
  assumes "ct_inv env i" and "eval env n i s = Done (i', st)" and "length (i_commands i') \<le> hm_limit"
  shows "(\<forall>c\<in>set (i_commands i'). get_command env i' (c_name c) = Some c) \<and>
    (\<exists>ns. map c_name (i_commands i') = map c_name (i_commands i) @ ns)"
proof -
  have st: "ct_step env i i'" using table.eval_keeps [OF TrueI assms(2)] by simp
  then have "ct_inv env i'" using assms(1,3) by (simp add: ct_step_def)
  with st show ?thesis by (auto simp: ct_step_def intro: ct_get)
qed

theorem eval_command_table_witness:
  "\<exists>i i'. register_core_commands demo_env interp_new = Done i \<and>
    eval demo_env (Suc 0) i (line [Bare ''proc'', Bare ''f'', Bare ''x'', Braced ''puts $x'']) = Done (i', S_OK) \<and>
    (\<forall>c\<in>set (i_commands i'). get_command demo_env i' (c_name c) = Some c)"
proof -
  obtain i where i: "register_core_commands demo_env interp_new = Done i" "ct_inv demo_env i"
    "i_commands i = map cmd_of core_commands" using core_registered by blast
  let ?j = "i\<lparr>i_result := []\<rparr>"
  have j: "ct_inv demo_env ?j" using i(2) by (simp add: ct_inv_def)
  have room: "length (i_commands ?j) < hm_limit" "''f'' \<notin> set (map c_name (i_commands ?j))"
    using i(3) by (simp_all add: core_commands_def hm_limit_def cmd_of_def)
  from register_new [OF j room, of F_call_proc "Some (''x'', ''puts $x'')" "[]"] obtain i' where
    i': "register_command demo_env ?j ''f'' F_call_proc (Some (''x'', ''puts $x'')) [] = Done i'"
      "i_commands i' = map cmd_of core_commands @ [\<lparr>c_name = ''f'', c_func = F_call_proc, c_proc = Some (''x'', ''puts $x''), c_doc = []\<rparr>]"
    by (auto simp: i(3))
  have "get_command demo_env ?j ''proc'' =
      Some (cmd_of (''proc'', F_proc, ''[proc name args body] => nil - Define a new procedure''))"
    using core_get [OF j, of "(''proc'', F_proc, ''[proc name args body] => nil - Define a new procedure'')"] i(3)
    by (simp add: core_commands_def)
  then have e: "eval demo_env (Suc 0) i (line [Bare ''proc'', Bare ''f'', Bare ''x'', Braced ''puts $x'']) = Done (i', S_OK)"
    using eval_dispatch [of "[Bare ''proc'', Bare ''f'', Bare ''x'', Braced ''puts $x'']" demo_env 0 i] i'(1)
    by (simp add: bare_def is_blank_def size_mod_def dispatch_def cmd_of_def run_command_def cmd_proc_def
        arity_check_def ok_def run_simps)
  have "length (i_commands i') \<le> hm_limit" by (simp add: i'(2) core_commands_def hm_limit_def)
  from eval_command_table [OF i(2) e this] e i(1) show ?thesis by blast
qed

text \<open>\<open>register_core_commands\<close> succeeds on a fresh interpreter and installs the core commands,
  each found under its name with its function, and nothing else.\<close>

theorem core_commands_installed:
  "\<exists>i. register_core_commands env interp_new = Done i \<and> i_commands i = map cmd_of core_commands \<and>
    (\<forall>name. get_command env i name = map_of (map (\<lambda>e. (fst e, cmd_of e)) core_commands) name)"
proof -
  obtain i where i: "register_core_commands env interp_new = Done i" "ct_inv env i"
    "i_commands i = map cmd_of core_commands" using core_registered by blast
  have "get_command env i name = map_of (map (\<lambda>e. (fst e, cmd_of e)) core_commands) name" for name
  proof (cases "\<exists>e\<in>set core_commands. fst e = name")
    case True
    then obtain e where e: "e \<in> set core_commands" "fst e = name" by blast
    have "distinct (map fst core_commands)" by (simp add: core_commands_def)
    then have "distinct (map fst (map (\<lambda>e. (fst e, cmd_of e)) core_commands))" by (simp add: comp_def)
    then have "map_of (map (\<lambda>e. (fst e, cmd_of e)) core_commands) name = Some (cmd_of e)"
      using e by (intro map_of_is_SomeI) auto
    with core_get [OF i(2,3) e(1)] e(2) show ?thesis by simp
  next
    case False
    then have "map_of (map (\<lambda>e. (fst e, cmd_of e)) core_commands) name = None"
      by (force simp: map_of_eq_None_iff)
    moreover have "name \<notin> set (map c_name (i_commands i))" using False i(3) by (auto simp: cmd_of_def)
    ultimately show ?thesis using ct_find [OF i(2), of name] by simp
  qed
  with i show ?thesis by blast
qed

text \<open>The addition command is exact: applied to two printed integers it returns their printed
  sum when that is an \<open>int\<close>, and overflows otherwise.\<close>

theorem cmd_add_exact:
  assumes "\<bar>a\<bar> < 2 ^ 31" and "\<bar>b\<bar> < 2 ^ 31"
  shows "cmd_add i [c, dec_int a, dec_int b] =
    (if - (2 ^ 31) \<le> a + b \<and> a + b < 2 ^ 31 then ok_result i (dec_int (a + b)) else Undefined Ub_overflow)"
  using assms parse_dec_int [of a] parse_dec_int [of b]
  by (simp add: cmd_add_def cmd_arith_def cmd_int2_def arity_check_def run_simps op_add_def chk_def int_ok_def abs_less_iff)

theorem cmd_add_exact_witness:
  "cmd_add interp_new [''+'', dec_int (- 5), dec_int 12] = ok_result interp_new (dec_int 7)"
  using cmd_add_exact [of "- 5" 12 interp_new "''+''"] by simp

text \<open>\<open>lindex\<close> of a list that \<open>list\<close> built returns the element at the index, and the empty
  string outside of the list.\<close>

theorem cmd_lindex_list:
  assumes "\<forall>e\<in>set es. balanced 0 e" and "int_ok k"
  shows "cmd_lindex i [c, list_format es, dec_int k] =
    ok_result i (if 0 \<le> k \<and> k < int (length es) then es ! nat k else [])"
proof -
  have "int_chars (dec_int k)"
    using dec_nat_digits [of _ "nat (- k)"] dec_nat_digits [of _ "nat k"]
    by (auto simp: int_chars_def dec_int_def list_all_iff split: list.split)
  then show ?thesis
    using list_parse_format [OF assms(1)] atoi_dec_int [OF assms(2)]
    by (auto simp: cmd_lindex_def arity_check_def int_check_def run_simps Let_def)
qed

theorem cmd_lindex_list_witness:
  "cmd_lindex interp_new [''lindex'', list_format [''a b'', ''c''], dec_int 0] = ok_result interp_new ''a b''"
  using cmd_lindex_list [of "[''a b'', ''c'']" 0 interp_new "''lindex''"] by (simp add: int_ok_def)

end
