(* ===== verification/PageMemory.thy ===== *)
theory PageMemory
  imports Prelude
begin

text \<open>
  The page manager of the kernel (\<open>ot/core/memory.cpp\<close>): the array of page descriptors at
  the start of free memory, the free list threaded through it, allocation of contiguous
  runs, freeing of the pages of a process, and the reserved regions ("known memory").
  Pointers to descriptors are positions in the array. \<open>page_rep m xs\<close> says that \<open>xs\<close> is the
  free list of \<open>m\<close>; allocation refines taking the first contiguous run from that list.
\<close>

section \<open>Results of kernel code\<close>

text \<open>\<open>Panic\<close> is \<open>PANIC\<close>, which never returns; \<open>Fault\<close> an access through a null pointer.\<close>

datatype 'a kernel = Ret 'a | Panic | Fault

fun k_bind :: "'a kernel \<Rightarrow> ('a \<Rightarrow> 'b kernel) \<Rightarrow> 'b kernel" where
  "k_bind (Ret x) f = f x"
| "k_bind Panic f = Panic"
| "k_bind Fault f = Fault"

section \<open>State\<close>

definition page_size :: nat where
  "page_size = 4096"

record page_info =
  pg_pidx :: int
  pg_addr :: nat
  pg_next :: "nat option"

record mem_stats =
  st_total :: nat
  st_allocated :: nat
  st_freed :: nat
  st_processes :: nat
  st_peak :: nat

record known_info =
  kn_addr :: nat
  kn_pages :: nat
  kn_holder :: int

text \<open>
  \<open>m_base\<close> and \<open>m_end\<close> are the linker symbols \<open>__free_ram\<close> and \<open>__free_ram_end\<close>;
  \<open>total_page_count\<close> is the length of \<open>m_infos\<close>.
\<close>

record memory =
  m_base :: nat
  m_end :: nat
  m_next_addr :: nat
  m_infos :: "page_info list"
  m_free :: "nat option"
  m_stats :: mem_stats
  m_initialized :: bool
  m_known :: "known_info list"
  m_ram :: "nat \<Rightarrow> 8 word"

definition known_memory_count :: nat where
  "known_memory_count = 2"

definition pidx_none :: int where
  "pidx_none = 0"

definition memset_zero :: "nat \<Rightarrow> nat \<Rightarrow> memory \<Rightarrow> memory" where
  "memset_zero a n m = m\<lparr>m_ram := (\<lambda>x. if a \<le> x \<and> x < a + n then 0 else m_ram m x)\<rparr>"

definition set_info :: "nat \<Rightarrow> (page_info \<Rightarrow> page_info) \<Rightarrow> memory \<Rightarrow> memory" where
  "set_info i f m = m\<lparr>m_infos := (m_infos m)[i := f (m_infos m ! i)]\<rparr>"

section \<open>Initialisation\<close>

definition page_allocate_bootstrap :: "memory \<Rightarrow> nat \<Rightarrow> (memory \<times> nat) kernel" where
  "page_allocate_bootstrap m count =
     (let a = m_next_addr m; m = m\<lparr>m_next_addr := sz (a + count * page_size)\<rparr>
      in if m_next_addr m > m_end m then Panic else Ret (memset_zero a (count * page_size) m, a))"

definition known_memory_init :: "memory \<Rightarrow> memory" where
  "known_memory_init m =
     m\<lparr>m_known := replicate known_memory_count \<lparr>kn_addr = 0, kn_pages = 0, kn_holder = pidx_none\<rparr>\<rparr>"

text \<open>The size of a descriptor on a 32-bit machine.\<close>

definition page_info_size :: nat where
  "page_info_size = 12"

text \<open>The loop over the descriptors from position \<open>i\<close> on, with the previous free page.\<close>

fun init_loop :: "nat \<Rightarrow> nat \<Rightarrow> nat option \<Rightarrow> memory \<Rightarrow> memory" where
  "init_loop 0 i prev m = m"
| "init_loop (Suc n) i prev m =
     (let a = sz (m_base m + i * page_size) in
      if a < m_next_addr m
      then init_loop n (i + 1) prev (set_info i (\<lambda>_. \<lparr>pg_pidx = - 1, pg_addr = a, pg_next = None\<rparr>) m)
      else
        let m = set_info i (\<lambda>_. \<lparr>pg_pidx = pidx_none, pg_addr = a, pg_next = None\<rparr>) m;
            m = (case prev of Some p \<Rightarrow> set_info p (\<lambda>g. g\<lparr>pg_next := Some i\<rparr>) m
                 | None \<Rightarrow> m\<lparr>m_free := Some i\<rparr>)
        in init_loop n (i + 1) (Some i) m)"

definition memory_init :: "memory \<Rightarrow> memory kernel" where
  "memory_init m =
     (if m_initialized m then Ret m
      else let total = (m_end m - m_base m) div page_size;
               pages = (sz (total * page_info_size) + page_size - 1) div page_size
           in k_bind (page_allocate_bootstrap m pages) (\<lambda>(m, a).
                let m = m\<lparr>m_infos := replicate total \<lparr>pg_pidx = 0, pg_addr = 0, pg_next = None\<rparr>\<rparr>;
                    m = init_loop total 0 None m
                in Ret (known_memory_init
                     (m\<lparr>m_stats := \<lparr>st_total = total, st_allocated = pages, st_freed = 0, st_processes = 0, st_peak = pages\<rparr>,
                        m_initialized := True\<rparr>))))"

section \<open>Allocation\<close>

text \<open>The local variables of the scan: the run found so far.\<close>

record scan =
  r_start :: "nat option"
  r_prev :: "nat option"
  r_len :: nat
  r_expected :: nat

definition scan_step :: "page_info list \<Rightarrow> nat \<Rightarrow> nat option \<Rightarrow> scan \<Rightarrow> scan" where
  "scan_step infos c prev r =
     (let a = pg_addr (infos ! c);
          new = \<lparr>r_start = Some c, r_prev = prev, r_len = 1, r_expected = sz (a + page_size)\<rparr>
      in if r_len r = 0 then new
         else if a = r_expected r then r\<lparr>r_len := r_len r + 1, r_expected := sz (r_expected r + page_size)\<rparr>
         else new)"

text \<open>The fuel bounds the length of the free list; \<open>None\<close> is a list that is longer.\<close>

fun scan_loop :: "nat \<Rightarrow> page_info list \<Rightarrow> nat \<Rightarrow> nat option \<Rightarrow> nat option \<Rightarrow> scan \<Rightarrow> scan option" where
  "scan_loop f infos n None prev r = Some r"
| "scan_loop 0 infos n (Some c) prev r = None"
| "scan_loop (Suc f) infos n (Some c) prev r =
     (let r = scan_step infos c prev r
      in if r_len r \<ge> n then Some r else scan_loop f infos n (pg_next (infos ! c)) (Some c) r)"

text \<open>The last descriptor of the run: \<open>k\<close> links further.\<close>

fun run_last :: "page_info list \<Rightarrow> nat \<Rightarrow> nat \<Rightarrow> nat option" where
  "run_last infos 0 c = Some c"
| "run_last infos (Suc k) c =
     (case pg_next (infos ! c) of None \<Rightarrow> None | Some d \<Rightarrow> run_last infos k d)"

text \<open>The loop that takes the pages: it follows the links it erases.\<close>

fun take_pages :: "int \<Rightarrow> nat \<Rightarrow> nat option \<Rightarrow> memory \<Rightarrow> memory kernel" where
  "take_pages pidx 0 c m = Ret m"
| "take_pages pidx (Suc k) None m = Fault"
| "take_pages pidx (Suc k) (Some c) m =
     (let next = pg_next (m_infos m ! c);
          m = set_info c (\<lambda>g. g\<lparr>pg_pidx := pidx, pg_next := None\<rparr>) m
      in take_pages pidx k next (memset_zero (pg_addr (m_infos m ! c)) page_size m))"

definition count_allocated :: "nat \<Rightarrow> mem_stats \<Rightarrow> mem_stats" where
  "count_allocated n st =
     (let st = st\<lparr>st_allocated := sz (st_allocated st + n)\<rparr>
      in if st_allocated st > st_peak st then st\<lparr>st_peak := st_allocated st\<rparr> else st)"

text \<open>\<open>None\<close> is a scan that does not end, on a cyclic list.\<close>

definition page_allocate :: "memory \<Rightarrow> int \<Rightarrow> nat \<Rightarrow> (memory \<times> nat) kernel option" where
  "page_allocate m pidx count =
     (if \<not> m_initialized m \<or> count = 0 then Some Panic
      else case scan_loop (length (m_infos m)) (m_infos m) count (m_free m) None
             \<lparr>r_start = None, r_prev = None, r_len = 0, r_expected = 0\<rparr> of
        None \<Rightarrow> None
      | Some r \<Rightarrow>
          if r_len r < count then Some (Ret (m, 0))
          else case r_start r of None \<Rightarrow> Some Fault
          | Some s \<Rightarrow>
             (case run_last (m_infos m) (count - 1) s of None \<Rightarrow> Some Fault
              | Some e \<Rightarrow>
                  let after = pg_next (m_infos m ! e);
                      m = (case r_prev r of Some p \<Rightarrow> set_info p (\<lambda>g. g\<lparr>pg_next := after\<rparr>) m
                           | None \<Rightarrow> m\<lparr>m_free := after\<rparr>)
                  in Some (k_bind (take_pages pidx count (Some s) m) (\<lambda>m.
                       Ret (m\<lparr>m_stats := count_allocated count (m_stats m)\<rparr>, pg_addr (m_infos m ! s))))))"

section \<open>Lookup and freeing\<close>

fun lookup_from :: "page_info list \<Rightarrow> nat \<Rightarrow> nat \<Rightarrow> nat option" where
  "lookup_from [] i a = None"
| "lookup_from (g # gs) i a = (if pg_addr g = a then Some i else lookup_from gs (i + 1) a)"

definition page_info_lookup :: "memory \<Rightarrow> nat \<Rightarrow> nat option" where
  "page_info_lookup m a = lookup_from (m_infos m) 0 a"

fun free_loop :: "nat \<Rightarrow> nat \<Rightarrow> int \<Rightarrow> memory \<Rightarrow> nat \<Rightarrow> memory \<times> nat" where
  "free_loop 0 i pidx m freed = (m, freed)"
| "free_loop (Suc n) i pidx m freed =
     (if pg_pidx (m_infos m ! i) = pidx
      then let m = memset_zero (pg_addr (m_infos m ! i)) page_size m;
               m = set_info i (\<lambda>g. g\<lparr>pg_pidx := pidx_none, pg_next := m_free m\<rparr>) m
           in free_loop n (i + 1) pidx (m\<lparr>m_free := Some i\<rparr>) (freed + 1)
      else free_loop n (i + 1) pidx m freed)"

definition page_free_process :: "memory \<Rightarrow> int \<Rightarrow> memory \<times> nat" where
  "page_free_process m pidx =
     (if \<not> m_initialized m \<or> pidx = pidx_none then (m, 0)
      else let (m, freed) = free_loop (length (m_infos m)) 0 pidx m 0; st = m_stats m
           in (m\<lparr>m_stats := st\<lparr>st_allocated := sz_sub (st_allocated st) freed, st_freed := sz (st_freed st + freed)\<rparr>\<rparr>, freed))"

definition memory_increment_process_count :: "memory \<Rightarrow> memory" where
  "memory_increment_process_count m = m\<lparr>m_stats := (m_stats m)\<lparr>st_processes := sz (st_processes (m_stats m) + 1)\<rparr>\<rparr>"

section \<open>Known memory\<close>

definition known_memory_lock :: "memory \<Rightarrow> int \<Rightarrow> nat \<Rightarrow> int \<Rightarrow> (memory \<times> nat) kernel option" where
  "known_memory_lock m km count pidx =
     (if km \<le> 0 \<or> km \<ge> int known_memory_count then Some (Ret (m, 0))
      else let k = nat km; info = m_known m ! k in
        if kn_holder info \<noteq> pidx_none \<and> kn_holder info \<noteq> pidx then Some (Ret (m, 0))
        else map_option (\<lambda>r. k_bind r (\<lambda>(m, a).
               if a = 0 then Ret (m, 0)
               else let info = (if kn_addr info = 0 then info\<lparr>kn_addr := a, kn_pages := count\<rparr> else info);
                        m = m\<lparr>m_known := (m_known m)[k := info]\<rparr>
                    in if count > kn_pages info then Ret (m, 0)
                       else Ret (m\<lparr>m_known := (m_known m)[k := info\<lparr>kn_holder := pidx\<rparr>]\<rparr>, kn_addr info)))
             (if kn_addr info = 0 then page_allocate m (- 1) count else Some (Ret (m, kn_addr info))))"

fun release_loop :: "known_info list \<Rightarrow> int \<Rightarrow> known_info list \<times> nat" where
  "release_loop [] pidx = ([], 0)"
| "release_loop (k # ks) pidx =
     (let (ks', n) = release_loop ks pidx
      in if pidx \<noteq> pidx_none \<and> kn_holder k = pidx then (k\<lparr>kn_holder := pidx_none\<rparr> # ks', n + 1) else (k # ks', n))"

definition known_memory_release_process :: "memory \<Rightarrow> int \<Rightarrow> memory \<times> nat" where
  "known_memory_release_process m pidx =
     (let (ks, n) = release_loop (m_known m) pidx in (m\<lparr>m_known := ks\<rparr>, n))"

section \<open>The free list\<close>

text \<open>\<open>seg infos h xs e\<close>: the links lead from \<open>h\<close> through the positions \<open>xs\<close> to \<open>e\<close>.\<close>

fun seg :: "page_info list \<Rightarrow> nat option \<Rightarrow> nat list \<Rightarrow> nat option \<Rightarrow> bool" where
  "seg infos h [] e \<longleftrightarrow> h = e"
| "seg infos h (p # ps) e \<longleftrightarrow> h = Some p \<and> p < length infos \<and> seg infos (pg_next (infos ! p)) ps e"

definition hdo :: "nat list \<Rightarrow> nat option" where
  "hdo xs = (case xs of [] \<Rightarrow> None | x # _ \<Rightarrow> Some x)"

lemma hdo_simps [simp]: "hdo [] = None" "hdo (x # xs) = Some x"
  by (simp_all add: hdo_def)

lemma seg_append: "seg infos h (xs @ ys) e \<longleftrightarrow> (\<exists>m. seg infos h xs m \<and> seg infos m ys e)"
  by (induction xs arbitrary: h) auto

lemma seg_head: "seg infos h xs None \<Longrightarrow> h = hdo xs"
  by (cases xs) auto

lemma seg_bound: "seg infos h xs e \<Longrightarrow> x \<in> set xs \<Longrightarrow> x < length infos"
  by (induction xs arbitrary: h) auto

lemma seg_cong:
  "seg infos h xs e \<Longrightarrow> length infos' = length infos \<Longrightarrow>
   (\<And>x. x \<in> set xs \<Longrightarrow> pg_next (infos' ! x) = pg_next (infos ! x)) \<Longrightarrow> seg infos' h xs e"
  by (induction xs arbitrary: h) auto

lemma seg_last: "seg infos h (xs @ [x]) e \<Longrightarrow> pg_next (infos ! x) = e"
  by (auto simp: seg_append)

text \<open>Unlinking the run behind \<open>d\<close>.\<close>

lemma seg_unlink:
  assumes "seg infos h (d @ x # r @ ps) None" and "distinct (d @ x # r @ ps)"
  shows "seg (infos[x := (infos ! x)\<lparr>pg_next := hdo ps\<rparr>]) h (d @ x # ps) None"
proof -
  let ?i = "infos[x := (infos ! x)\<lparr>pg_next := hdo ps\<rparr>]"
  obtain m where m: "seg infos h d m" "m = Some x" "x < length infos" "seg infos (pg_next (infos ! x)) (r @ ps) None"
    using assms(1) by (auto simp: seg_append)
  have ne: "y \<in> set d \<Longrightarrow> x \<noteq> y" "y \<in> set ps \<Longrightarrow> x \<noteq> y" for y using assms(2) by auto
  have "seg ?i h d m" by (rule seg_cong [OF m(1)]) (use ne in \<open>simp_all add: nth_list_update_neq\<close>)
  moreover obtain q where "seg infos q ps None" using m(4) by (auto simp: seg_append)
  then have "seg infos (hdo ps) ps None" using seg_head by blast
  then have "seg ?i (hdo ps) ps None" by (rule seg_cong) (use ne in \<open>simp_all add: nth_list_update_neq\<close>)
  ultimately show ?thesis using m(2,3) by (auto simp: seg_append)
qed

section \<open>The representation of the page pool\<close>

definition page_wf :: "memory \<Rightarrow> bool" where
  "page_wf m \<longleftrightarrow> m_initialized m \<and> 0 < m_base m \<and> m_base m + length (m_infos m) * page_size \<le> size_mod \<and>
     (\<forall>i<length (m_infos m). pg_addr (m_infos m ! i) = m_base m + i * page_size)"

text \<open>
  The pages of the free list are marked free, and the counters account for every page. The
  pages of process 0 have the same mark and are not on the list.
\<close>

definition page_rep :: "memory \<Rightarrow> nat list \<Rightarrow> bool" where
  "page_rep m xs \<longleftrightarrow> page_wf m \<and> seg (m_infos m) (m_free m) xs None \<and> distinct xs \<and>
     (\<forall>i\<in>set xs. pg_pidx (m_infos m ! i) = pidx_none) \<and>
     st_allocated (m_stats m) + length xs = length (m_infos m)"

section \<open>Taking a run from a list\<close>

text \<open>
  The specification of the scan: \<open>d\<close> are the pages passed, \<open>r\<close> the current run of
  neighbours; the result is the list split around the first run of \<open>n\<close>.
\<close>

fun first_run :: "nat \<Rightarrow> nat list \<Rightarrow> nat list \<Rightarrow> nat list \<Rightarrow> (nat list \<times> nat list \<times> nat list) option" where
  "first_run n d r [] = None"
| "first_run n d r (p # ps) =
     (let d' = (if r \<noteq> [] \<and> p = Suc (last r) then d else d @ r);
          r' = (if r \<noteq> [] \<and> p = Suc (last r) then r @ [p] else [p])
      in if length r' \<ge> n then Some (d', r', ps) else first_run n d' r' ps)"

definition consecutive :: "nat list \<Rightarrow> bool" where
  "consecutive r \<longleftrightarrow> (\<exists>a. r = [a..<a + length r])"

lemma consecutive_single [simp]: "consecutive [p]"
  by (simp add: consecutive_def)

lemma consecutive_snoc: "consecutive r \<Longrightarrow> r \<noteq> [] \<Longrightarrow> consecutive (r @ [Suc (last r)])"
proof -
  assume "consecutive r" and ne: "r \<noteq> []"
  then obtain a where r: "r = [a..<a + length r]" by (auto simp: consecutive_def)
  have "last r = a + length r - 1" by (subst r) (use ne in \<open>simp add: last_upt\<close>)
  then have "Suc (last r) = a + length r" using ne by (cases r) auto
  then have "r @ [Suc (last r)] = [a..<a + length (r @ [Suc (last r)])]"
    using r by (simp add: upt_Suc_append)
  then show ?thesis unfolding consecutive_def by blast
qed

lemma first_run_split:
  assumes "first_run n d r xs = Some (d', r', ps)" and "consecutive r \<or> r = []" and "length r < n"
  shows "d @ r @ xs = d' @ r' @ ps \<and> consecutive r' \<and> length r' = n"
  using assms
proof (induction xs arbitrary: d r)
  case Nil
  then show ?case by simp
next
  case (Cons p xs)
  define d1 where "d1 = (if r \<noteq> [] \<and> p = Suc (last r) then d else d @ r)"
  define r1 where "r1 = (if r \<noteq> [] \<and> p = Suc (last r) then r @ [p] else [p])"
  have c: "consecutive r1" using Cons.prems(2) consecutive_snoc by (auto simp: r1_def)
  have e: "d @ r @ p # xs = d1 @ r1 @ xs" by (simp add: d1_def r1_def)
  have l: "length r1 \<le> n" using Cons.prems(3) by (auto simp: r1_def)
  show ?case
  proof (cases "length r1 \<ge> n")
    case True
    then have "d' = d1" "r' = r1" "ps = xs" using Cons.prems(1) by (auto simp: d1_def r1_def Let_def split: if_splits)
    with c e l True show ?thesis by simp
  next
    case False
    then have "first_run n d1 r1 xs = Some (d', r', ps)" using Cons.prems(1) by (simp add: d1_def r1_def Let_def)
    from Cons.IH [OF this] c False e show ?thesis by simp
  qed
qed

text \<open>A run that is there is found: none is skipped.\<close>

lemma first_run_none:
  assumes "first_run n d r xs = None" and "consecutive r \<or> r = []" and "length r < n"
  shows "r @ xs \<noteq> u @ [a..<a + n] @ v"
  using assms
proof (induction xs arbitrary: d r u)
  case Nil
  have "length r \<noteq> length (u @ [a..<a + n] @ v)" using Nil.prems(3) by simp
  then show ?case by auto
next
  case (Cons p xs)
  define d1 where "d1 = (if r \<noteq> [] \<and> p = Suc (last r) then d else d @ r)"
  define r1 where "r1 = (if r \<noteq> [] \<and> p = Suc (last r) then r @ [p] else [p])"
  have f: "first_run n d1 r1 xs = None" "length r1 < n"
    using Cons.prems(1) by (auto simp: d1_def r1_def Let_def split: if_splits)
  have c: "consecutive r1 \<or> r1 = []" using Cons.prems(2) consecutive_snoc by (auto simp: r1_def)
  note IH = Cons.IH [OF f(1) c f(2)]
  show ?case
  proof (cases "r \<noteq> [] \<and> p = Suc (last r)")
    case True
    then show ?thesis using IH [of u] by (simp add: r1_def)
  next
    case False
    then have r1: "r1 = [p]" by (auto simp: r1_def)
    show ?thesis
    proof
      assume eq: "r @ p # xs = u @ [a..<a + n] @ v"
      show False
      proof (cases "length r \<le> length u")
        case True
        then have "u = r @ drop (length r) u" using eq by (metis append_eq_append_conv_if append_take_drop_id)
        with eq have "p # xs = drop (length r) u @ [a..<a + n] @ v" by (metis append.assoc same_append_eq)
        with IH [of "drop (length r) u"] r1 show False by simp
      next
        case False
        let ?k = "length r - 1"
        have ne: "r \<noteq> []" using False by auto
        have k: "length u \<le> ?k" "Suc ?k - length u < n" "Suc ?k = length r" "?k - length u < n" "?k < length r"
          using False Cons.prems(3) by auto
        have "last r = (r @ p # xs) ! ?k" using ne by (simp add: nth_append last_conv_nth)
        also have "\<dots> = a + (?k - length u)" unfolding eq using k(1,4) by (simp only: nth_append) simp
        finally have 1: "last r = a + (?k - length u)" .
        have "p = (r @ p # xs) ! (Suc ?k)" using k(3) by (simp add: nth_append)
        also have "\<dots> = a + (Suc ?k - length u)" unfolding eq using k by (simp add: nth_append)
        finally have "p = Suc (last r)" using 1 k(1) by simp
        with ne \<open>\<not> (r \<noteq> [] \<and> p = Suc (last r))\<close> show False by simp
      qed
    qed
  qed
qed

section \<open>The scan refines the specification\<close>

definition scan_of :: "page_info list \<Rightarrow> nat list \<Rightarrow> nat list \<Rightarrow> scan \<Rightarrow> bool" where
  "scan_of infos d r s \<longleftrightarrow>
     (if r = [] then d = [] \<and> r_len s = 0
      else r_len s = length r \<and> r_start s = Some (hd r) \<and>
           r_prev s = (if d = [] then None else Some (last d)) \<and>
           r_expected s = sz (pg_addr (infos ! last r) + page_size))"

lemma page_addr_next:
  assumes wf: "page_wf m" and x: "x < length (m_infos m)" and p: "p < length (m_infos m)"
  shows "pg_addr (m_infos m ! p) = sz (pg_addr (m_infos m ! x) + page_size) \<longleftrightarrow> p = Suc x"
proof -
  let ?b = "m_base m" and ?n = "length (m_infos m)"
  have a: "pg_addr (m_infos m ! p) = ?b + p * page_size" "pg_addr (m_infos m ! x) = ?b + x * page_size"
    using wf x p by (simp_all add: page_wf_def)
  have b: "0 < ?b" "?b + ?n * page_size \<le> size_mod" using wf by (simp_all add: page_wf_def)
  show ?thesis
  proof (cases "Suc x = ?n")
    case True
    then have "?b + x * page_size + page_size \<le> size_mod" using b(2) by (simp add: add.commute add.left_commute mult_Suc flip: True)
    then have "sz (?b + x * page_size + page_size) = ?b + x * page_size + page_size \<or>
        sz (?b + x * page_size + page_size) = 0"
      by (auto simp: sz_def le_less)
    moreover have "?b + p * page_size \<noteq> ?b + x * page_size + page_size"
      using p True by (auto simp: page_size_def)
    ultimately show ?thesis using a b(1) p True by auto
  next
    case False
    with x have "Suc (Suc x) \<le> ?n" by simp
    then have "Suc (Suc x) * page_size \<le> ?n * page_size" by (rule mult_right_mono) simp
    then have "?b + x * page_size + page_size < size_mod" using b(2) by (simp add: page_size_def)
    then show ?thesis using a by (auto simp: page_size_def)
  qed
qed

lemma scan_step_of:
  assumes wf: "page_wf m" and s: "scan_of (m_infos m) d r s" and p: "p < length (m_infos m)"
    and r: "\<forall>x\<in>set r. x < length (m_infos m)" and prev: "prev = (if d @ r = [] then None else Some (last (d @ r)))"
  shows "scan_of (m_infos m) (if r \<noteq> [] \<and> p = Suc (last r) then d else d @ r)
    (if r \<noteq> [] \<and> p = Suc (last r) then r @ [p] else [p]) (scan_step (m_infos m) p prev s)"
proof (cases "r = []")
  case True
  with s prev show ?thesis by (simp add: scan_of_def scan_step_def Let_def)
next
  case False
  then have l: "last r < length (m_infos m)" using r by simp
  note adj = page_addr_next [OF wf l p]
  have e: "r_expected s = sz (pg_addr (m_infos m ! last r) + page_size)" "0 < r_len s"
    using s False by (simp_all add: scan_of_def)
  show ?thesis
  proof (cases "p = Suc (last r)")
    case True
    then have "pg_addr (m_infos m ! p) = r_expected s" using adj e by simp
    with True False s e(2) show ?thesis by (simp add: scan_of_def scan_step_def Let_def)
  next
    case p: False
    then have "pg_addr (m_infos m ! p) \<noteq> r_expected s" using adj e by simp
    with p False prev e(2) show ?thesis by (simp add: scan_of_def scan_step_def Let_def)
  qed
qed

lemma scan_of_len: "scan_of infos d r s \<Longrightarrow> r_len s = length r"
  by (auto simp: scan_of_def split: if_splits)

lemma scan_loop_first_run:
  assumes wf: "page_wf m"
  shows "seg (m_infos m) cur ps None \<Longrightarrow> scan_of (m_infos m) d r s \<Longrightarrow> \<forall>x\<in>set r. x < length (m_infos m) \<Longrightarrow>
    prev = (if d @ r = [] then None else Some (last (d @ r))) \<Longrightarrow> length r < n \<Longrightarrow> length ps \<le> f \<Longrightarrow>
    \<exists>s'. scan_loop f (m_infos m) n cur prev s = Some s' \<and>
      (case first_run n d r ps of None \<Rightarrow> r_len s' < n
       | Some (d', r', ps') \<Rightarrow> scan_of (m_infos m) d' r' s' \<and> n \<le> r_len s')"
proof (induction ps arbitrary: cur d r s prev f)
  case Nil
  then show ?case by (simp add: scan_of_len)
next
  case (Cons p ps)
  obtain g where g: "f = Suc g" "length ps \<le> g" using Cons.prems(6) by (cases f) auto
  have p: "cur = Some p" "p < length (m_infos m)" "seg (m_infos m) (pg_next (m_infos m ! p)) ps None"
    using Cons.prems(1) by simp_all
  define d1 where "d1 = (if r \<noteq> [] \<and> p = Suc (last r) then d else d @ r)"
  define r1 where "r1 = (if r \<noteq> [] \<and> p = Suc (last r) then r @ [p] else [p])"
  have st: "scan_of (m_infos m) d1 r1 (scan_step (m_infos m) p prev s)"
    unfolding d1_def r1_def by (rule scan_step_of [OF wf Cons.prems(2) p(2) Cons.prems(3,4)])
  have b: "\<forall>x\<in>set r1. x < length (m_infos m)" using Cons.prems(3) p(2) by (auto simp: r1_def)
  have pr: "Some p = (if d1 @ r1 = [] then None else Some (last (d1 @ r1)))" by (simp add: r1_def)
  show ?case
  proof (cases "n \<le> length r1")
    case True
    then show ?thesis using st p g scan_of_len [OF st] by (simp add: Let_def flip: d1_def r1_def)
  next
    case False
    then have "length r1 < n" by simp
    from Cons.IH [OF p(3) st b pr this g(2)] False show ?thesis
      using p g scan_of_len [OF st] by (simp add: Let_def flip: d1_def r1_def)
  qed
qed

section \<open>Taking the pages\<close>

definition mark :: "int \<Rightarrow> nat list \<Rightarrow> page_info list \<Rightarrow> page_info list" where
  "mark pidx r infos = foldl (\<lambda>is c. is[c := (is ! c)\<lparr>pg_pidx := pidx, pg_next := None\<rparr>]) infos r"

lemma mark_simps [simp]:
  "mark pidx [] infos = infos"
  "mark pidx (c # r) infos = mark pidx r (infos[c := (infos ! c)\<lparr>pg_pidx := pidx, pg_next := None\<rparr>])"
  by (simp_all add: mark_def)

lemma length_mark [simp]: "length (mark pidx r infos) = length infos"
  by (induction r arbitrary: infos) auto

lemma mark_nth:
  "distinct r \<Longrightarrow> i < length infos \<Longrightarrow> mark pidx r infos ! i =
    (if i \<in> set r then (infos ! i)\<lparr>pg_pidx := pidx, pg_next := None\<rparr> else infos ! i)"
proof (induction r arbitrary: infos)
  case (Cons a r)
  then show ?case by (cases "a = i") (auto simp: nth_list_update)
qed simp

definition zero_pages :: "page_info list \<Rightarrow> nat list \<Rightarrow> (nat \<Rightarrow> 8 word) \<Rightarrow> nat \<Rightarrow> 8 word" where
  "zero_pages infos r ram = (\<lambda>x. if \<exists>c\<in>set r. pg_addr (infos ! c) \<le> x \<and> x < pg_addr (infos ! c) + page_size then 0 else ram x)"

lemma zero_pages_simps [simp]:
  "zero_pages infos [] ram = ram"
  "zero_pages infos (c # r) ram =
    zero_pages infos r (\<lambda>x. if pg_addr (infos ! c) \<le> x \<and> x < pg_addr (infos ! c) + page_size then 0 else ram x)"
  by (auto simp: zero_pages_def fun_eq_iff)

lemma zero_pages_cong:
  "(\<And>c. c \<in> set r \<Longrightarrow> pg_addr (infos' ! c) = pg_addr (infos ! c)) \<Longrightarrow> zero_pages infos' r ram = zero_pages infos r ram"
  by (auto simp: zero_pages_def fun_eq_iff)

lemma take_pages_run:
  "seg (m_infos m) (Some c) r e \<Longrightarrow> distinct r \<Longrightarrow> r \<noteq> [] \<Longrightarrow>
   take_pages pidx (length r) (Some c) m =
     Ret (m\<lparr>m_infos := mark pidx r (m_infos m), m_ram := zero_pages (m_infos m) r (m_ram m)\<rparr>)"
proof (induction r arbitrary: c m)
  case Nil
  then show ?case by simp
next
  case (Cons p r)
  let ?infos = "(m_infos m)[c := (m_infos m ! c)\<lparr>pg_pidx := pidx, pg_next := None\<rparr>]"
  have c: "p = c" "c < length (m_infos m)" "seg (m_infos m) (pg_next (m_infos m ! c)) r e"
    using Cons.prems(1) by simp_all
  define m1 where "m1 = m\<lparr>m_infos := ?infos,
      m_ram := (\<lambda>x. if pg_addr (m_infos m ! c) \<le> x \<and> x < pg_addr (m_infos m ! c) + page_size then 0 else m_ram m x)\<rparr>"
  have ne: "x \<in> set r \<Longrightarrow> c \<noteq> x" for x using Cons.prems(2) c(1) by auto
  have step: "take_pages pidx (length (p # r)) (Some c) m = take_pages pidx (length r) (pg_next (m_infos m ! c)) m1"
    using c(2) by (simp add: Let_def set_info_def memset_zero_def m1_def cong del: if_weak_cong)
  have s: "seg (m_infos m1) (pg_next (m_infos m ! c)) r e"
    by (rule seg_cong [OF c(3)]) (use ne in \<open>simp_all add: m1_def nth_list_update_neq\<close>)
  show ?case
  proof (cases r)
    case Nil
    with c(1) show ?thesis unfolding step by (simp add: m1_def)
  next
    case (Cons q r')
    then have q: "pg_next (m_infos m ! c) = Some q" using c(3) by simp
    have "zero_pages (m_infos m1) r (m_ram m1) = zero_pages (m_infos m) r (m_ram m1)"
      by (rule zero_pages_cong) (use ne in \<open>simp add: m1_def nth_list_update_neq\<close>)
    moreover have "take_pages pidx (length r) (Some q) m1 =
        Ret (m1\<lparr>m_infos := mark pidx r (m_infos m1), m_ram := zero_pages (m_infos m1) r (m_ram m1)\<rparr>)"
      using Cons.IH [of m1 q] s q Cons.prems(2) Cons by simp
    ultimately show ?thesis unfolding step q using c(1) by (simp add: m1_def)
  qed
qed

lemma run_last_seg: "seg infos (Some c) (r @ [x]) e \<Longrightarrow> run_last infos (length r) c = Some x"
proof (induction r arbitrary: c)
  case (Cons p r)
  then show ?case by (cases r) auto
qed simp

lemma page_count_bound: "page_wf m \<Longrightarrow> length (m_infos m) < size_mod"
  by (auto simp: page_wf_def page_size_def)

lemma pg_addr_set [simp]:
  "map pg_addr (is[c := (is ! c)\<lparr>pg_pidx := x, pg_next := y\<rparr>]) = map pg_addr is"
  "map pg_addr (is[c := (is ! c)\<lparr>pg_next := y\<rparr>]) = map pg_addr is"
  "map pg_pidx (is[c := (is ! c)\<lparr>pg_next := y\<rparr>]) = map pg_pidx is"
  by (cases "c < length is"; simp add: map_update list_update_same_conv list_update_beyond)+

lemma pg_addr_mark [simp]: "map pg_addr (mark pidx r is) = map pg_addr is"
  by (induction r arbitrary: "is") auto

lemma map_nth_eq: "map f xs = map f ys \<Longrightarrow> i < length ys \<Longrightarrow> f (xs ! i) = f (ys ! i)"
  by (metis length_map nth_map)

definition same_frame :: "memory \<Rightarrow> memory \<Rightarrow> bool" where
  "same_frame m m' \<longleftrightarrow> m_base m' = m_base m \<and> m_initialized m' = m_initialized m \<and> m_known m' = m_known m \<and>
     map pg_addr (m_infos m') = map pg_addr (m_infos m)"

lemma same_frame_wf: "same_frame m m' \<Longrightarrow> page_wf m \<Longrightarrow> page_wf m'"
  unfolding same_frame_def page_wf_def by (metis length_map map_nth_eq)

text \<open>The outcome of a successful allocation, with the pages \<open>r\<close> taken out of \<open>d @ r @ ps\<close>.\<close>

definition allocated :: "memory \<Rightarrow> int \<Rightarrow> nat list \<Rightarrow> memory \<Rightarrow> bool" where
  "allocated m pidx r m' \<longleftrightarrow> same_frame m m' \<and>
     (\<forall>i<length (m_infos m). pg_pidx (m_infos m' ! i) = (if i \<in> set r then pidx else pg_pidx (m_infos m ! i))) \<and>
     m_ram m' = zero_pages (m_infos m) r (m_ram m)"

lemma unlink_run:
  assumes s: "seg (m_infos m) (m_free m) (d @ r @ ps) None" and dist: "distinct (d @ r @ ps)" and r: "r \<noteq> []"
    and m1: "m1 = (case (if d = [] then None else Some (last d)) of
      Some p \<Rightarrow> set_info p (\<lambda>g. g\<lparr>pg_next := hdo ps\<rparr>) m | None \<Rightarrow> m\<lparr>m_free := hdo ps\<rparr>)"
  shows "seg (m_infos m1) (m_free m1) (d @ ps) None \<and> seg (m_infos m1) (Some (hd r)) r (hdo ps)"
proof -
  obtain e e' where e: "seg (m_infos m) (m_free m) d e" "seg (m_infos m) e r e'" "seg (m_infos m) e' ps None"
    using s by (auto simp: seg_append)
  have e': "e' = hdo ps" "e = Some (hd r)" using seg_head [OF e(3)] e(2) r by (cases r; simp)+
  show ?thesis
  proof (cases d rule: rev_cases)
    case Nil
    with e e' m1 show ?thesis by simp
  next
    case (snoc d' x)
    have s': "seg (m_infos m) (m_free m) (d' @ x # r @ ps) None" "distinct (d' @ x # r @ ps)"
      using s dist snoc by simp_all
    have ne: "y \<in> set r \<Longrightarrow> x \<noteq> y" for y using s'(2) by auto
    have "seg ((m_infos m)[x := (m_infos m ! x)\<lparr>pg_next := hdo ps\<rparr>]) (Some (hd r)) r (hdo ps)"
      using e(2) unfolding e' by (rule seg_cong) (use ne in \<open>simp_all add: nth_list_update_neq\<close>)
    with seg_unlink [OF s'] show ?thesis using m1 snoc by (simp add: set_info_def)
  qed
qed

lemma scan_init: "scan_of infos [] [] \<lparr>r_start = None, r_prev = None, r_len = 0, r_expected = 0\<rparr>"
  by (simp add: scan_of_def)

lemma page_allocate_run:
  assumes rep: "page_rep m xs" and n: "0 < n" and f: "first_run n [] [] xs = Some (d, r, ps)"
  shows "\<exists>m'. page_allocate m pidx n = Some (Ret (m', pg_addr (m_infos m ! hd r))) \<and>
    page_rep m' (d @ ps) \<and> allocated m pidx r m'"
proof -
  have wf: "page_wf m" and s: "seg (m_infos m) (m_free m) xs None" and dist: "distinct xs"
    and free: "\<forall>i\<in>set xs. pg_pidx (m_infos m ! i) = pidx_none"
    and cnt: "st_allocated (m_stats m) + length xs = length (m_infos m)"
    using rep by (simp_all add: page_rep_def)
  have sp: "xs = d @ r @ ps" "consecutive r" "length r = n"
    using first_run_split [OF f] n by simp_all
  then have r: "r \<noteq> []" using n by auto
  then obtain q x where qx: "r = q @ [x]" by (cases r rule: rev_cases) auto
  have "length xs \<le> length (m_infos m)" using cnt by simp
  from scan_loop_first_run [OF wf s scan_init _ _ _ this, of None n] f n obtain st where
    st: "scan_loop (length (m_infos m)) (m_infos m) n (m_free m) None \<lparr>r_start = None, r_prev = None, r_len = 0, r_expected = 0\<rparr> = Some st"
      "scan_of (m_infos m) d r st" "n \<le> r_len st"
    by auto
  have st': "r_start st = Some (hd r)" "r_prev st = (if d = [] then None else Some (last d))"
    using st(2) r by (simp_all add: scan_of_def)
  obtain e e' where e: "seg (m_infos m) (m_free m) d e" "seg (m_infos m) e r e'" "seg (m_infos m) e' ps None"
    using s sp(1) by (auto simp: seg_append)
  have e': "e' = hdo ps" "e = Some (hd r)" using seg_head [OF e(3)] e(2) r by (cases r; simp)+
  have lst: "run_last (m_infos m) (n - 1) (hd r) = Some x" "pg_next (m_infos m ! x) = hdo ps"
    using run_last_seg [of "m_infos m" "hd r" q x e'] seg_last [of "m_infos m" e q x e'] e(2) e' qx sp(3) by auto
  define m1 where "m1 = (case r_prev st of Some p \<Rightarrow> set_info p (\<lambda>g. g\<lparr>pg_next := hdo ps\<rparr>) m | None \<Rightarrow> m\<lparr>m_free := hdo ps\<rparr>)"
  have u: "seg (m_infos m1) (m_free m1) (d @ ps) None" "seg (m_infos m1) (Some (hd r)) r (hdo ps)"
    using unlink_run [OF _ _ r, of m d ps m1] s dist sp(1) st'(2) by (simp_all add: m1_def)
  have m1: "map pg_addr (m_infos m1) = map pg_addr (m_infos m)" "map pg_pidx (m_infos m1) = map pg_pidx (m_infos m)"
    "m_base m1 = m_base m" "m_initialized m1 = m_initialized m" "m_known m1 = m_known m" "m_ram m1 = m_ram m"
    "m_stats m1 = m_stats m"
    by (simp_all add: m1_def set_info_def split: option.split)
  have len: "length (m_infos m1) = length (m_infos m)" using m1(1) by (rule map_eq_imp_length_eq)
  have dr: "distinct r" "\<forall>y\<in>set (d @ ps). y \<notin> set r" using dist sp(1) by auto
  define m2 where "m2 = m1\<lparr>m_infos := mark pidx r (m_infos m1), m_ram := zero_pages (m_infos m1) r (m_ram m1)\<rparr>"
  have tk: "take_pages pidx n (Some (hd r)) m1 = Ret m2"
    using take_pages_run [OF u(2) dr(1) r, of pidx] sp(3) by (simp add: m2_def)
  define m3 where "m3 = m2\<lparr>m_stats := count_allocated n (m_stats m2)\<rparr>"
  have hr: "hd r < length (m_infos m)" using seg_bound [OF e(2)] r by simp
  have "pg_addr (m_infos m2 ! hd r) = pg_addr (m_infos m ! hd r)"
    using m1(1) hr by (intro map_nth_eq) (simp_all add: m2_def)
  then have run: "page_allocate m pidx n = Some (Ret (m3, pg_addr (m_infos m ! hd r)))"
    using wf n st(1,3) st'(1) lst tk by (simp add: page_allocate_def page_wf_def Let_def m3_def flip: m1_def)
  have fr: "same_frame m m3"
    using m1 by (simp add: same_frame_def m3_def m2_def)
  have zero: "zero_pages (m_infos m1) r (m_ram m1) = zero_pages (m_infos m) r (m_ram m)"
    unfolding m1(6) using m1(1) seg_bound [OF e(2)] by (intro zero_pages_cong map_nth_eq)
  have pid: "pg_pidx (m_infos m3 ! i) = (if i \<in> set r then pidx else pg_pidx (m_infos m ! i))"
    if "i < length (m_infos m)" for i
    using that dr(1) len map_nth_eq [OF m1(2) that] by (simp add: m3_def m2_def mark_nth)
  have al: "allocated m pidx r m3"
    using fr zero pid by (simp add: allocated_def) (simp add: m3_def m2_def)
  have "seg (m_infos m3) (m_free m3) (d @ ps) None"
    unfolding m3_def m2_def
    by (simp, rule seg_cong [OF u(1)]) (use dr seg_bound [OF u(1)] in \<open>auto simp: mark_nth\<close>)
  moreover have "st_allocated (m_stats m3) + length (d @ ps) = length (m_infos m3)"
    using cnt sp(1,3) page_count_bound [OF wf] len m1(7) by (simp add: m3_def m2_def count_allocated_def Let_def)
  moreover have "\<forall>i\<in>set (d @ ps). pg_pidx (m_infos m3 ! i) = pidx_none"
    using pid free dr(2) seg_bound [OF s] sp(1) by auto
  ultimately have "page_rep m3 (d @ ps)"
    using same_frame_wf [OF fr wf] dist sp(1) by (auto simp: page_rep_def)
  with run al show ?thesis by blast
qed

lemma page_allocate_none:
  assumes rep: "page_rep m xs" and n: "0 < n" and f: "first_run n [] [] xs = None"
  shows "page_allocate m pidx n = Some (Ret (m, 0))"
proof -
  have wf: "page_wf m" and s: "seg (m_infos m) (m_free m) xs None"
    and cnt: "st_allocated (m_stats m) + length xs = length (m_infos m)"
    using rep by (simp_all add: page_rep_def)
  have "length xs \<le> length (m_infos m)" using cnt by simp
  from scan_loop_first_run [OF wf s scan_init _ _ _ this, of None n] f n show ?thesis
    using wf by (auto simp: page_allocate_def page_wf_def)
qed

section \<open>Freeing\<close>

definition owned :: "page_info list \<Rightarrow> int \<Rightarrow> nat list" where
  "owned infos pidx = filter (\<lambda>i. pg_pidx (infos ! i) = pidx) [0..<length infos]"

text \<open>The pages \<open>r\<close> of the process have been given back, the last one first on the list.\<close>

definition freed :: "memory \<Rightarrow> nat list \<Rightarrow> memory \<Rightarrow> bool" where
  "freed m r m' \<longleftrightarrow> same_frame m m' \<and>
     (\<forall>i<length (m_infos m). pg_pidx (m_infos m' ! i) = (if i \<in> set r then pidx_none else pg_pidx (m_infos m ! i))) \<and>
     m_ram m' = zero_pages (m_infos m) r (m_ram m)"

lemma free_loop_rep:
  assumes "pidx \<noteq> pidx_none"
  shows "i + n = length (m_infos m) \<Longrightarrow> seg (m_infos m) (m_free m) ys None \<Longrightarrow> distinct ys \<Longrightarrow>
    \<forall>y\<in>set ys. pg_pidx (m_infos m ! y) = pidx_none \<Longrightarrow>
    \<exists>m'. free_loop n i pidx m c = (m', c + length (filter (\<lambda>j. pg_pidx (m_infos m ! j) = pidx) [i..<i + n])) \<and>
      freed m (filter (\<lambda>j. pg_pidx (m_infos m ! j) = pidx) [i..<i + n]) m' \<and> m_stats m' = m_stats m \<and>
      seg (m_infos m') (m_free m') (rev (filter (\<lambda>j. pg_pidx (m_infos m ! j) = pidx) [i..<i + n]) @ ys) None \<and>
      distinct (rev (filter (\<lambda>j. pg_pidx (m_infos m ! j) = pidx) [i..<i + n]) @ ys)"
proof (induction n arbitrary: i m ys c)
  case 0
  then show ?case by (simp add: freed_def same_frame_def)
next
  case (Suc n)
  have i: "i < length (m_infos m)" "Suc i + n = length (m_infos m)" using Suc.prems(1) by simp_all
  have upt: "[i..<i + Suc n] = i # [Suc i..<Suc i + n]" by (simp add: upt_conv_Cons)
  show ?case
  proof (cases "pg_pidx (m_infos m ! i) = pidx")
    case False
    with Suc.IH [OF i(2) Suc.prems(2,3,4), of c] show ?thesis unfolding upt by simp
  next
    case True
    define m1 where "m1 = m\<lparr>m_ram := zero_pages (m_infos m) [i] (m_ram m),
      m_infos := (m_infos m)[i := (m_infos m ! i)\<lparr>pg_pidx := pidx_none, pg_next := m_free m\<rparr>], m_free := Some i\<rparr>"
    have step: "free_loop (Suc n) i pidx m c = free_loop n (Suc i) pidx m1 (Suc c)"
      using True by (simp add: Let_def set_info_def memset_zero_def m1_def cong del: if_weak_cong)
    have ni: "i \<notin> set ys" using True Suc.prems(4) assms by auto
    have len: "length (m_infos m1) = length (m_infos m)" by (simp add: m1_def)
    have ad: "map pg_addr (m_infos m1) = map pg_addr (m_infos m)" by (simp add: m1_def)
    have pn: "pg_pidx ((m_infos m ! i)\<lparr>pg_pidx := pidx_none, pg_next := m_free m\<rparr>) = pidx_none" by simp
    have nth: "m_infos m1 ! j = (if j = i then (m_infos m ! i)\<lparr>pg_pidx := pidx_none, pg_next := m_free m\<rparr> else m_infos m ! j)" for j
      using i(1) by (auto simp: m1_def nth_list_update)
    have fs: "filter (\<lambda>j. pg_pidx (m_infos m1 ! j) = pidx) [Suc i..<Suc i + n] =
        filter (\<lambda>j. pg_pidx (m_infos m ! j) = pidx) [Suc i..<Suc i + n]" (is "?f1 = ?f")
      by (rule filter_cong) (auto simp: nth)
    have "seg (m_infos m1) (m_free m) ys None"
      by (rule seg_cong [OF Suc.prems(2) len]) (use ni nth in auto)
    then have s1: "seg (m_infos m1) (m_free m1) (i # ys) None" using i(1) nth len by (simp add: m1_def)
    have d1: "distinct (i # ys)" using ni Suc.prems(3) by simp
    have p1: "\<forall>y\<in>set (i # ys). pg_pidx (m_infos m1 ! y) = pidx_none" using Suc.prems(4) nth by auto
    have l1: "Suc i + n = length (m_infos m1)" using i(2) len by simp
    from Suc.IH [OF l1 s1 d1 p1, of "Suc c", unfolded fs] obtain m' where
      m': "free_loop n (Suc i) pidx m1 (Suc c) = (m', Suc c + length ?f)" "freed m1 ?f m'" "m_stats m' = m_stats m1"
        "seg (m_infos m') (m_free m') (rev ?f @ i # ys) None" "distinct (rev ?f @ i # ys)"
      by blast
    have z: "zero_pages (m_infos m1) ?f (m_ram m1) = zero_pages (m_infos m) (i # ?f) (m_ram m)"
      using zero_pages_cong [of ?f "m_infos m1" "m_infos m"] nth by (simp add: m1_def)
    have "freed m (i # ?f) m'"
      unfolding freed_def
    proof (intro conjI allI impI)
      have m1s: "m_base m1 = m_base m" "m_initialized m1 = m_initialized m" "m_known m1 = m_known m"
        by (simp_all add: m1_def)
      then show "same_frame m m'" using m'(2) ad unfolding freed_def same_frame_def by simp
      show "m_ram m' = zero_pages (m_infos m) (i # ?f) (m_ram m)" using m'(2) z unfolding freed_def by simp
      fix j
      assume "j < length (m_infos m)"
      then have "pg_pidx (m_infos m' ! j) = (if j \<in> set ?f then pidx_none else pg_pidx (m_infos m1 ! j))"
        using m'(2) len unfolding freed_def by simp
      then show "pg_pidx (m_infos m' ! j) = (if j \<in> set (i # ?f) then pidx_none else pg_pidx (m_infos m ! j))"
        unfolding nth list.set insert_iff
        by (cases "j = i"; cases "j \<in> set ?f")
          (simp_all only: if_True if_False simp_thms pn)
    qed
    with m' True show ?thesis unfolding step upt by (simp add: m1_def)
  qed
qed

lemma page_free_process_rep:
  assumes rep: "page_rep m xs" and p: "pidx \<noteq> pidx_none"
  shows "\<exists>m'. page_free_process m pidx = (m', length (owned (m_infos m) pidx)) \<and>
    page_rep m' (rev (owned (m_infos m) pidx) @ xs) \<and> freed m (owned (m_infos m) pidx) m'"
proof -
  let ?o = "owned (m_infos m) pidx"
  have wf: "page_wf m" and s: "seg (m_infos m) (m_free m) xs None" and dist: "distinct xs"
    and free: "\<forall>i\<in>set xs. pg_pidx (m_infos m ! i) = pidx_none"
    and cnt: "st_allocated (m_stats m) + length xs = length (m_infos m)"
    using rep by (simp_all add: page_rep_def)
  from free_loop_rep [OF p _ s dist free, of 0 "length (m_infos m)" 0] obtain m1 where
    m1: "free_loop (length (m_infos m)) 0 pidx m 0 = (m1, length ?o)" "freed m ?o m1" "m_stats m1 = m_stats m"
      "seg (m_infos m1) (m_free m1) (rev ?o @ xs) None" "distinct (rev ?o @ xs)"
    by (auto simp: owned_def)
  let ?m = "m1\<lparr>m_stats := (m_stats m1)\<lparr>st_allocated := sz_sub (st_allocated (m_stats m1)) (length ?o),
      st_freed := sz (st_freed (m_stats m1) + length ?o)\<rparr>\<rparr>"
  have len: "length (m_infos m1) = length (m_infos m)"
    using m1(2) by (auto simp: freed_def same_frame_def dest: map_eq_imp_length_eq)
  have "set (rev ?o @ xs) \<subseteq> {..<length (m_infos m)}" using seg_bound [OF m1(4)] len by auto
  then have "card (set (rev ?o @ xs)) \<le> card {..<length (m_infos m)}" by (rule card_mono [OF finite_lessThan])
  then have "length (rev ?o @ xs) \<le> length (m_infos m)" by (simp only: distinct_card [OF m1(5)] card_lessThan)
  then have "length ?o \<le> st_allocated (m_stats m)" using cnt by simp
  moreover have fr: "freed m ?o ?m" using m1(2) by (simp add: freed_def same_frame_def)
  moreover have "\<forall>i\<in>set (rev ?o @ xs). pg_pidx (m_infos ?m ! i) = pidx_none"
    using fr free seg_bound [OF m1(4)] len by (auto simp: freed_def)
  moreover have "page_wf ?m" using same_frame_wf [of m ?m] fr wf by (simp add: freed_def)
  ultimately have "page_rep ?m (rev ?o @ xs)" using m1(3-5) cnt len by (simp add: page_rep_def)
  moreover have "page_free_process m pidx = (?m, length ?o)"
    using m1(1) p wf by (simp add: page_free_process_def page_wf_def Let_def)
  ultimately show ?thesis using fr by blast
qed

section \<open>Initialisation links the free pages\<close>

lemma seg_snoc:
  assumes s: "seg infos h xs None" and x: "x < length infos" "x \<notin> set xs" "distinct xs"
    and nx: "pg_next (infos ! x) = None"
  shows "xs = [] \<Longrightarrow> seg infos (Some x) [x] None"
    and "xs \<noteq> [] \<Longrightarrow> seg (infos[last xs := (infos ! last xs)\<lparr>pg_next := Some x\<rparr>]) h (xs @ [x]) None"
proof -
  show "xs = [] \<Longrightarrow> seg infos (Some x) [x] None" using x nx by simp
  assume "xs \<noteq> []"
  then obtain ys y where ys: "xs = ys @ [y]" by (cases xs rule: rev_cases) auto
  obtain e where e: "seg infos h ys e" "e = Some y" "y < length infos" using s ys by (auto simp: seg_append)
  let ?i = "infos[y := (infos ! y)\<lparr>pg_next := Some x\<rparr>]"
  have "z \<in> set ys \<Longrightarrow> y \<noteq> z" for z using x(3) ys by auto
  then have "seg ?i h ys e" using e(1) by (auto intro!: seg_cong [OF e(1)] simp: nth_list_update_neq)
  moreover have "y \<noteq> x" using x(2) ys by auto
  ultimately show "seg (infos[last xs := (infos ! last xs)\<lparr>pg_next := Some x\<rparr>]) h (xs @ [x]) None"
    using e x(1) nx ys by (auto simp: seg_append)
qed

definition init_inv :: "nat \<Rightarrow> nat \<Rightarrow> nat \<Rightarrow> page_info list \<Rightarrow> nat option \<Rightarrow> bool" where
  "init_inv base p i infos h \<longleftrightarrow> seg infos h [p..<i] None \<and>
     (\<forall>j<i. pg_addr (infos ! j) = base + j * page_size \<and> pg_pidx (infos ! j) = (if j < p then - 1 else pidx_none))"

lemma init_inv_reserved:
  assumes "init_inv base p i infos h" and "i < p" and "i < length infos"
  shows "init_inv base p (Suc i) (infos[i := \<lparr>pg_pidx = - 1, pg_addr = base + i * page_size, pg_next = None\<rparr>]) h"
  using assms by (auto simp: init_inv_def less_Suc_eq)

lemma init_inv_free:
  assumes inv: "init_inv base p i infos h" and i: "p \<le> i" "i < length infos"
    and is1: "is1 = infos[i := \<lparr>pg_pidx = pidx_none, pg_addr = base + i * page_size, pg_next = None\<rparr>]"
  shows "p = i \<Longrightarrow> init_inv base p (Suc i) is1 (Some i)"
    and "p < i \<Longrightarrow> init_inv base p (Suc i) (is1[i - 1 := (is1 ! (i - 1))\<lparr>pg_next := Some i\<rparr>]) h"
proof -
  have s: "seg infos h [p..<i] None" using inv by (simp add: init_inv_def)
  have s1: "seg is1 h [p..<i] None" by (rule seg_cong [OF s]) (auto simp: is1)
  have a: "\<forall>j<Suc i. pg_addr (is1 ! j) = base + j * page_size \<and> pg_pidx (is1 ! j) = (if j < p then - 1 else pidx_none)"
    using inv i by (auto simp: init_inv_def is1 less_Suc_eq nth_list_update)
  have n: "i < length is1" "pg_next (is1 ! i) = None" using i by (simp_all add: is1)
  note snoc = seg_snoc [OF s1 n(1) _ _ n(2)]
  show "p = i \<Longrightarrow> init_inv base p (Suc i) is1 (Some i)"
    using a n by (simp add: init_inv_def upt_Suc_append)
  assume p: "p < i"
  then have l: "last [p..<i] = i - 1" "[p..<i] \<noteq> []" by (simp_all add: last_upt)
  let ?is = "is1[i - 1 := (is1 ! (i - 1))\<lparr>pg_next := Some i\<rparr>]"
  have "seg ?is h ([p..<i] @ [i]) None" using snoc(2) l by simp
  then have "seg ?is h [p..<Suc i] None" using i by simp
  moreover have "map pg_addr ?is = map pg_addr is1" "map pg_pidx ?is = map pg_pidx is1"
    by (cases "i - 1 < length is1"; simp add: map_update list_update_same_conv list_update_beyond)+
  then have "pg_addr (?is ! j) = pg_addr (is1 ! j)" "pg_pidx (?is ! j) = pg_pidx (is1 ! j)" if "j < length is1" for j
    using that by (auto intro!: map_nth_eq)
  ultimately show "init_inv base p (Suc i) ?is h" using a n(1) by (simp add: init_inv_def)
qed

lemma init_loop_inv:
  assumes wrap: "m_base m + length (m_infos m) * page_size \<le> size_mod"
    and nx: "m_next_addr m = m_base m + p * page_size"
  shows "i + n = length (m_infos m) \<Longrightarrow> init_inv (m_base m) p i (m_infos m) (m_free m) \<Longrightarrow>
    prev = (if i \<le> p then None else Some (i - 1)) \<Longrightarrow>
    \<exists>is h. init_loop n i prev m = m\<lparr>m_infos := is, m_free := h\<rparr> \<and> length is = length (m_infos m) \<and>
      init_inv (m_base m) p (i + n) is h"
  using wrap nx
proof (induction n arbitrary: i prev m)
  case 0
  have "m = m\<lparr>m_infos := m_infos m, m_free := m_free m\<rparr>" by simp
  with 0 show ?case by (metis add_0_right init_loop.simps(1))
next
  case (Suc n)
  let ?a = "m_base m + i * page_size"
  have i: "i < length (m_infos m)" using Suc.prems(1) by simp
  then have "Suc i * page_size \<le> length (m_infos m) * page_size" by (intro mult_right_mono) simp_all
  then have sz: "sz ?a = ?a" using Suc.prems(4) by (simp add: page_size_def)
  have lt: "?a < m_next_addr m \<longleftrightarrow> i < p" using Suc.prems(5) by (simp add: page_size_def)
  have go: ?case if m1: "init_loop (Suc n) i prev m = init_loop n (Suc i) prev1 m1"
      "m1 = m\<lparr>m_infos := is1, m_free := h1\<rparr>" "length is1 = length (m_infos m)"
      "init_inv (m_base m) p (Suc i) is1 h1" "prev1 = (if Suc i \<le> p then None else Some (Suc i - 1))" for m1 is1 h1 prev1
  proof -
    obtain "is" h where r: "init_loop n (Suc i) prev1 m1 = m1\<lparr>m_infos := is, m_free := h\<rparr>"
      "length is = length is1" "init_inv (m_base m) p (Suc i + n) is h"
      using Suc.IH [of "Suc i" m1 prev1] Suc.prems(1,4,5) m1(2-5) by auto
    then have "init_loop (Suc n) i prev m = m\<lparr>m_infos := is, m_free := h\<rparr>" using m1(1,2) by simp
    with r m1(3) show ?thesis by auto
  qed
  show ?case
  proof (cases "i < p")
    case True
    define is1 where "is1 = (m_infos m)[i := \<lparr>pg_pidx = - 1, pg_addr = ?a, pg_next = None\<rparr>]"
    show ?thesis
    proof (rule go)
      show "init_loop (Suc n) i prev m = init_loop n (Suc i) prev (m\<lparr>m_infos := is1, m_free := m_free m\<rparr>)"
        using sz lt True by (simp add: Let_def set_info_def is1_def)
      show "init_inv (m_base m) p (Suc i) is1 (m_free m)"
        unfolding is1_def by (rule init_inv_reserved [OF Suc.prems(2) True i])
    qed (use Suc.prems(3) True in \<open>simp_all add: is1_def\<close>)
  next
    case False
    define is1 where "is1 = (m_infos m)[i := \<lparr>pg_pidx = pidx_none, pg_addr = ?a, pg_next = None\<rparr>]"
    note free = init_inv_free [OF Suc.prems(2) _ i is1_def]
    show ?thesis
    proof (cases "p = i")
      case True
      show ?thesis
      proof (rule go)
        show "init_loop (Suc n) i prev m = init_loop n (Suc i) (Some i) (m\<lparr>m_infos := is1, m_free := Some i\<rparr>)"
          using sz lt False True Suc.prems(3) by (simp add: Let_def set_info_def is1_def)
        show "init_inv (m_base m) p (Suc i) is1 (Some i)" using free(1) True by simp
      qed (use True in \<open>simp_all add: is1_def\<close>)
    next
      case p: False
      let ?is = "is1[i - 1 := (is1 ! (i - 1))\<lparr>pg_next := Some i\<rparr>]"
      show ?thesis
      proof (rule go)
        show "init_loop (Suc n) i prev m = init_loop n (Suc i) (Some i) (m\<lparr>m_infos := ?is, m_free := m_free m\<rparr>)"
          using sz lt False p Suc.prems(3) by (simp add: Let_def set_info_def is1_def)
        show "init_inv (m_base m) p (Suc i) ?is (m_free m)" using free(2) False p by simp
      qed (use False p in \<open>simp_all add: is1_def\<close>)
    qed
  qed
qed

text \<open>The state of the memory before \<open>memory_init\<close>, from the linker's symbols.\<close>

definition boot_state :: "memory \<Rightarrow> bool" where
  "boot_state m \<longleftrightarrow> \<not> m_initialized m \<and> 0 < m_base m \<and> m_base m \<le> m_end m \<and> m_end m < size_mod \<and>
     m_next_addr m = m_base m \<and> m_free m = None"

definition boot_pages :: "memory \<Rightarrow> nat" where
  "boot_pages m = (m_end m - m_base m) div page_size"

text \<open>The pages that hold the descriptors.\<close>

definition boot_reserved :: "memory \<Rightarrow> nat" where
  "boot_reserved m = (boot_pages m * page_info_size + page_size - 1) div page_size"

lemma boot_bounds:
  assumes "boot_state m"
  shows "boot_reserved m \<le> boot_pages m" "m_base m + boot_pages m * page_size \<le> m_end m"
    "boot_pages m * page_info_size < size_mod" "m_base m + boot_pages m * page_size < size_mod"
proof -
  have e: "boot_pages m * page_size \<le> m_end m - m_base m"
    unfolding boot_pages_def by (simp add: div_times_less_eq_dividend)
  have "m_base m \<le> m_end m" using assms by (simp add: boot_state_def)
  with e show 1: "m_base m + boot_pages m * page_size \<le> m_end m" by linarith
  with assms show "m_base m + boot_pages m * page_size < size_mod" by (simp add: boot_state_def)
  then show "boot_pages m * page_info_size < size_mod" by (simp add: page_size_def page_info_size_def)
  show "boot_reserved m \<le> boot_pages m"
    by (cases "boot_pages m") (simp_all add: boot_reserved_def page_size_def page_info_size_def)
qed

lemma bootstrap_run:
  assumes b: "boot_state m"
  shows "page_allocate_bootstrap m (boot_reserved m) =
    Ret (memset_zero (m_base m) (boot_reserved m * page_size) (m\<lparr>m_next_addr := m_base m + boot_reserved m * page_size\<rparr>), m_base m)"
proof -
  have le: "m_base m + boot_reserved m * page_size \<le> m_base m + boot_pages m * page_size"
    using boot_bounds(1) [OF b] by (simp add: page_size_def)
  then have "sz (m_base m + boot_reserved m * page_size) = m_base m + boot_reserved m * page_size"
    using boot_bounds(4) [OF b] by (intro sz_small) linarith
  moreover have "\<not> m_base m + boot_reserved m * page_size > m_end m" using le boot_bounds(2) [OF b] by linarith
  ultimately show ?thesis using b by (simp add: page_allocate_bootstrap_def boot_state_def Let_def)
qed

lemma memory_init_rep:
  assumes b: "boot_state m"
  shows "\<exists>m'. memory_init m = Ret m' \<and> page_rep m' [boot_reserved m..<boot_pages m] \<and>
    m_base m' = m_base m \<and> length (m_infos m') = boot_pages m \<and>
    (\<forall>i<boot_reserved m. pg_pidx (m_infos m' ! i) = - 1) \<and>
    m_known m' = replicate known_memory_count \<lparr>kn_addr = 0, kn_pages = 0, kn_holder = pidx_none\<rparr>"
proof -
  let ?t = "boot_pages m" and ?p = "boot_reserved m"
  let ?blank = "replicate ?t \<lparr>pg_pidx = 0, pg_addr = 0, pg_next = None\<rparr>"
  define m1 where "m1 = memset_zero (m_base m) (?p * page_size) (m\<lparr>m_next_addr := m_base m + ?p * page_size\<rparr>)"
  note bs = bootstrap_run [OF b, folded m1_def]
  define m2 where "m2 = m1\<lparr>m_infos := ?blank\<rparr>"
  have m2: "m_base m2 = m_base m" "length (m_infos m2) = ?t" "m_next_addr m2 = m_base m2 + ?p * page_size" "m_free m2 = None"
    "m_initialized m2 = False"
    using b by (simp_all add: m2_def m1_def memset_zero_def boot_state_def)
  have "init_inv (m_base m2) ?p 0 (m_infos m2) (m_free m2)" using m2(4) by (simp add: init_inv_def)
  from init_loop_inv [OF _ m2(3) _ this, of ?t None] m2(1,2) boot_bounds(4) [OF b] obtain "is" h where
    r: "init_loop ?t 0 None m2 = m2\<lparr>m_infos := is, m_free := h\<rparr>" "length is = ?t" "init_inv (m_base m) ?p ?t is h"
    by auto
  define m3 where "m3 = known_memory_init (m2\<lparr>m_infos := is, m_free := h,
      m_stats := \<lparr>st_total = ?t, st_allocated = ?p, st_freed = 0, st_processes = 0, st_peak = ?p\<rparr>, m_initialized := True\<rparr>)"
  have "(m_end m - m_base m) div page_size = ?t" "(sz (?t * page_info_size) + page_size - 1) div page_size = ?p"
    using sz_small [OF boot_bounds(3) [OF b]] by (simp_all only: boot_pages_def boot_reserved_def)
  then have run: "memory_init m = Ret m3"
    using b bs r(1) by (simp add: memory_init_def boot_state_def Let_def m3_def flip: m2_def)
  have m3: "m_infos m3 = is" "m_base m3 = m_base m" "m_free m3 = h" "m_initialized m3" "st_allocated (m_stats m3) = ?p"
    "m_known m3 = replicate known_memory_count \<lparr>kn_addr = 0, kn_pages = 0, kn_holder = pidx_none\<rparr>"
    using m2 by (simp_all add: m3_def known_memory_init_def)
  have "page_wf m3" using m3 r b boot_bounds(4) [OF b] by (simp add: page_wf_def init_inv_def boot_state_def)
  moreover have "page_rep m3 [?p..<?t]"
    using calculation m3 r boot_bounds(1) [OF b] by (simp add: page_rep_def init_inv_def)
  ultimately show ?thesis using run m3 r boot_bounds(1) [OF b] by (auto simp: init_inv_def)
qed

section \<open>Properties of the page pool\<close>

text \<open>At boot \<open>memory_init\<close> reserves just the pages that hold the descriptors and puts every
  other page on the free list, in ascending order.\<close>

theorem memory_init_refines:
  assumes "boot_state m"
  shows "\<exists>m'. memory_init m = Ret m' \<and> page_rep m' [boot_reserved m..<boot_pages m] \<and>
    (\<forall>i<boot_reserved m. pg_pidx (m_infos m' ! i) = - 1)"
  using memory_init_rep [OF assms] by blast

definition tiny_memory :: memory where
  "tiny_memory = \<lparr>m_base = 4096, m_end = 20480, m_next_addr = 4096, m_infos = [], m_free = None,
     m_stats = \<lparr>st_total = 0, st_allocated = 0, st_freed = 0, st_processes = 0, st_peak = 0\<rparr>,
     m_initialized = False, m_known = [], m_ram = (\<lambda>_. 1)\<rparr>"

lemma tiny_boot: "boot_state tiny_memory" "boot_pages tiny_memory = 4" "boot_reserved tiny_memory = 1"
  by (simp_all add: boot_state_def boot_pages_def boot_reserved_def tiny_memory_def page_size_def page_info_size_def size_mod_def)

theorem memory_init_refines_witness:
  "\<exists>m'. memory_init tiny_memory = Ret m' \<and> page_rep m' [1..<4]"
  using memory_init_refines [OF tiny_boot(1)] unfolding tiny_boot(2,3) by blast



lemma page_disjoint:
  assumes wf: "page_wf m" and "i < length (m_infos m)" "j < length (m_infos m)" "i \<noteq> j"
    and x: "pg_addr (m_infos m ! i) \<le> x" "x < pg_addr (m_infos m ! i) + page_size"
  shows "\<not> (pg_addr (m_infos m ! j) \<le> x \<and> x < pg_addr (m_infos m ! j) + page_size)"
proof -
  have "pg_addr (m_infos m ! i) = m_base m + i * page_size" "pg_addr (m_infos m ! j) = m_base m + j * page_size"
    using wf assms(2,3) by (simp_all add: page_wf_def)
  with x assms(4) show ?thesis by (auto simp: page_size_def)
qed

lemma zero_pages_other:
  assumes "page_wf m" "i < length (m_infos m)" "\<forall>j\<in>set r. j < length (m_infos m)" "i \<notin> set r"
    and "pg_addr (m_infos m ! i) \<le> x" "x < pg_addr (m_infos m ! i) + page_size"
  shows "zero_pages (m_infos m) r ram x = ram x"
  using page_disjoint [OF assms(1,2) _ _ assms(5,6)] assms(3,4) unfolding zero_pages_def by metis

text \<open>The page \<open>i\<close> has kept its owner and its contents.\<close>

definition page_kept :: "memory \<Rightarrow> nat \<Rightarrow> memory \<Rightarrow> bool" where
  "page_kept m i m' \<longleftrightarrow> map pg_addr (m_infos m') = map pg_addr (m_infos m) \<and>
     (i < length (m_infos m) \<longrightarrow> pg_pidx (m_infos m' ! i) = pg_pidx (m_infos m ! i) \<and>
       (\<forall>x. pg_addr (m_infos m ! i) \<le> x \<and> x < pg_addr (m_infos m ! i) + page_size \<longrightarrow> m_ram m' x = m_ram m x))"

lemma page_kept_refl [simp]: "page_kept m i m"
  by (simp add: page_kept_def)

lemma set_owned: "i \<in> set (owned infos p) \<longleftrightarrow> i < length infos \<and> pg_pidx (infos ! i) = p"
  by (auto simp: owned_def)

lemma page_allocate_kept:
  assumes rep: "page_rep m xs" and i: "i < length (m_infos m)" "pg_pidx (m_infos m ! i) \<noteq> pidx_none"
    and run: "page_allocate m q n = Some (Ret (m', a))"
  shows "page_kept m i m'"
proof (cases "first_run n [] [] xs")
  case None
  have "0 < n" using run by (auto simp: page_allocate_def split: if_splits)
  with page_allocate_none [OF rep _ None] run show ?thesis by simp
next
  case (Some t)
  obtain d r ps where t: "t = (d, r, ps)" by (cases t)
  have n: "0 < n" using run by (auto simp: page_allocate_def split: if_splits)
  have al: "allocated m q r m'" using page_allocate_run [OF rep n, of d r ps q] Some t run by auto
  have xs: "xs = d @ r @ ps" using first_run_split [of n "[]" "[]" xs d r ps] Some t n by simp
  have "seg (m_infos m) (m_free m) xs None" using rep by (simp add: page_rep_def)
  then have b: "\<forall>j\<in>set r. j < length (m_infos m)" using seg_bound xs by auto
  have "i \<notin> set r" using rep i(2) xs by (auto simp: page_rep_def)
  then show ?thesis
    using al i zero_pages_other [OF _ i(1) b] rep by (auto simp: allocated_def page_kept_def page_rep_def same_frame_def)
qed

lemma page_free_kept:
  assumes rep: "page_rep m xs" and i: "i < length (m_infos m)" "pg_pidx (m_infos m ! i) \<noteq> q"
  shows "page_kept m i (fst (page_free_process m q))"
proof (cases "q = pidx_none")
  case True
  then show ?thesis by (simp add: page_free_process_def)
next
  case False
  have "i \<notin> set (owned (m_infos m) q)" "\<forall>j\<in>set (owned (m_infos m) q). j < length (m_infos m)"
    using i by (simp_all add: set_owned)
  with page_free_process_rep [OF rep False] zero_pages_other [OF _ i(1)] rep i show ?thesis
    by (auto simp: freed_def page_kept_def page_rep_def same_frame_def)
qed

text \<open>C22. \<open>page_free_process\<close> zeroes exactly the pages of the process and puts them back on
  the free list, the highest one first, and reports how many they were.\<close>

theorem page_free_refines:
  assumes "page_rep m xs" and "pidx \<noteq> pidx_none"
  shows "\<exists>m'. page_free_process m pidx = (m', length (owned (m_infos m) pidx)) \<and>
    page_rep m' (rev (owned (m_infos m) pidx) @ xs) \<and> freed m (owned (m_infos m) pidx) m'"
  using page_free_process_rep [OF assms] .

theorem page_free_refines_witness:
  "\<exists>m m' zs. memory_init tiny_memory = Ret m \<and> page_free_process m (- 1) = (m', length zs) \<and> page_rep m' (zs @ [1..<4])"
proof -
  obtain m where m: "memory_init tiny_memory = Ret m" "page_rep m [1..<4]"
    using memory_init_rep [OF tiny_boot(1)] unfolding tiny_boot(2,3) by blast
  obtain m' where "page_free_process m (- 1) = (m', length (owned (m_infos m) (- 1)))"
    "page_rep m' (rev (owned (m_infos m) (- 1)) @ [1..<4])"
    using page_free_refines [OF m(2), of "- 1"] by (auto simp: pidx_none_def)
  with m(1) show ?thesis by (metis length_rev)
qed

lemma first_run_descending:
  "sorted_wrt (>) xs \<Longrightarrow> r = [] \<or> (\<forall>x\<in>set xs. x < last r) \<Longrightarrow> 2 \<le> n \<Longrightarrow> length r < n \<Longrightarrow> first_run n d r xs = None"
proof (induction xs arbitrary: d r)
  case (Cons x xs)
  then have e: "\<not> (r \<noteq> [] \<and> x = Suc (last r))" by auto
  have "first_run n (d @ r) [x] xs = None" using Cons.prems by (intro Cons.IH) auto
  with e Cons.prems(3) show ?case by auto
qed simp

text \<open>Freed pages go back in descending order, so a run of them is never found again: when
  all pages of the machine have been in use and a process gives back its pages, even if they
  are neighbours, every allocation of two or more pages fails.\<close>

theorem page_free_fragments:
  assumes "page_rep m []" and "pidx \<noteq> pidx_none" and "2 \<le> n"
  shows "page_allocate (fst (page_free_process m pidx)) q n = Some (Ret (fst (page_free_process m pidx), 0))"
proof -
  obtain m' where m': "page_free_process m pidx = (m', length (owned (m_infos m) pidx))"
    "page_rep m' (rev (owned (m_infos m) pidx))"
    using page_free_process_rep [OF assms(1,2)] by auto
  have "sorted_wrt (<) (owned (m_infos m) pidx)" by (simp add: owned_def sorted_wrt_filter)
  then have "first_run n [] [] (rev (owned (m_infos m) pidx)) = None"
    using assms(3) by (intro first_run_descending) (simp_all add: sorted_wrt_rev)
  then show ?thesis using page_allocate_none [OF m'(2)] m'(1) assms(3) by simp
qed

theorem page_free_fragments_witness:
  "\<exists>m m1 m2. memory_init tiny_memory = Ret m \<and> page_allocate m 1 3 = Some (Ret (m1, 8192)) \<and>
    page_free_process m1 1 = (m2, 3) \<and> page_allocate m2 1 3 = Some (Ret (m2, 0))"
proof -
  obtain m where m: "memory_init tiny_memory = Ret m" "page_rep m [1..<4]" "length (m_infos m) = 4"
      "m_base m = 4096" "pg_pidx (m_infos m ! 0) = - 1"
    using memory_init_rep [OF tiny_boot(1)] unfolding tiny_boot(2,3) by (auto simp: tiny_memory_def)
  have f: "first_run 3 [] [] [1..<4] = Some ([], [1, 2, 3], [])" by (simp add: upt_rec)
  obtain m1 where m1: "page_allocate m 1 3 = Some (Ret (m1, pg_addr (m_infos m ! 1)))" "page_rep m1 []" "allocated m 1 [1, 2, 3] m1"
    using page_allocate_run [OF m(2) _ f, of 1] by auto
  have a: "pg_addr (m_infos m ! 1) = 8192" using m(2-4) by (simp add: page_rep_def page_wf_def page_size_def)
  have l: "length (m_infos m1) = 4" using m1(3) m(3) by (auto simp: allocated_def same_frame_def dest: map_eq_imp_length_eq)
  have "owned (m_infos m1) 1 = [1, 2, 3]"
    using m1(3) m(3,5) by (simp add: owned_def l upt_rec allocated_def)
  then obtain m2 where m2: "page_free_process m1 1 = (m2, 3)"
    using page_free_process_rep [OF m1(2), of 1] by (auto simp: pidx_none_def)
  from page_free_fragments [OF m1(2), of 1 3 1] m2 m m1 a show ?thesis by (auto simp: pidx_none_def)
qed

section \<open>Lookup\<close>

lemma lookup_from_spec:
  "lookup_from gs i a = Some j \<Longrightarrow> i \<le> j \<and> j < i + length gs \<and> pg_addr (gs ! (j - i)) = a"
proof (induction gs arbitrary: i)
  case (Cons g gs)
  show ?case
  proof (cases "pg_addr g = a")
    case True
    with Cons.prems show ?thesis by simp
  next
    case False
    with Cons.prems have "lookup_from gs (Suc i) a = Some j" by simp
    note IH = Cons.IH [OF this]
    then have "j - i = Suc (j - Suc i)" by linarith
    with IH show ?thesis by simp
  qed
qed simp

lemma lookup_from_none: "lookup_from gs i a = None \<longleftrightarrow> (\<forall>g\<in>set gs. pg_addr g \<noteq> a)"
  by (induction gs arbitrary: i) auto

text \<open>The descriptor of the page at an address is the one at its distance from the base.\<close>

lemma page_info_lookup_at:
  assumes wf: "page_wf m"
  shows "page_info_lookup m a = Some i \<longleftrightarrow> i < length (m_infos m) \<and> a = m_base m + i * page_size"
proof
  assume "page_info_lookup m a = Some i"
  from lookup_from_spec [OF this [unfolded page_info_lookup_def]] wf
  show "i < length (m_infos m) \<and> a = m_base m + i * page_size" by (auto simp: page_wf_def)
next
  assume i: "i < length (m_infos m) \<and> a = m_base m + i * page_size"
  then have "m_infos m ! i \<in> set (m_infos m)" "pg_addr (m_infos m ! i) = a" using wf by (simp_all add: page_wf_def)
  then obtain j where j: "lookup_from (m_infos m) 0 a = Some j" using lookup_from_none by (metis option.exhaust)
  from lookup_from_spec [OF j] wf have "a = m_base m + j * page_size" by (auto simp: page_wf_def)
  with i j show "page_info_lookup m a = Some i" by (simp add: page_info_lookup_def page_size_def)
qed

section \<open>Reserved regions\<close>

lemma set_info_known [simp]: "m_known (set_info i f m) = m_known m"
  by (simp add: set_info_def)

lemma memset_known [simp]: "m_known (memset_zero a n m) = m_known m"
  by (simp add: memset_zero_def)

lemma take_pages_known: "take_pages p n c m = Ret m' \<Longrightarrow> m_known m' = m_known m"
  by (induction p n c m rule: take_pages.induct) (auto simp: Let_def)

lemma k_bind_Ret: "k_bind r f = Ret y \<longleftrightarrow> (\<exists>x. r = Ret x \<and> f x = Ret y)"
  by (cases r) auto

lemma page_allocate_known:
  "page_allocate m p n = Some (Ret (m', a)) \<Longrightarrow> m_known m' = m_known m"
  by (auto simp: page_allocate_def Let_def k_bind_Ret dest!: take_pages_known
      split: if_splits option.splits)

text \<open>What a lock that succeeds has done.\<close>

lemma known_lock_success:
  assumes "known_memory_lock m km n p = Some (Ret (m', a))" and "a \<noteq> 0" and "length (m_known m) = known_memory_count"
  shows "0 < km \<and> km < int known_memory_count \<and> length (m_known m') = known_memory_count \<and>
    kn_holder (m_known m' ! nat km) = p \<and> kn_addr (m_known m' ! nat km) = a \<and> n \<le> kn_pages (m_known m' ! nat km) \<and>
    (\<forall>j. j \<noteq> nat km \<longrightarrow> m_known m' ! j = m_known m ! j)"
  using assms
  by (auto simp: known_memory_lock_def Let_def k_bind_Ret nth_list_update_neq dest!: page_allocate_known split: if_splits)

lemma release_loop_nth:
  "i < length ks \<Longrightarrow> p \<noteq> pidx_none \<Longrightarrow> fst (release_loop ks p) ! i =
    (if kn_holder (ks ! i) = p then (ks ! i)\<lparr>kn_holder := pidx_none\<rparr> else ks ! i)"
  by (induction ks p arbitrary: i rule: release_loop.induct) (auto simp: nth_Cons' split: prod.splits)

lemma length_release_loop [simp]: "length (fst (release_loop ks p)) = length ks"
  by (induction ks p rule: release_loop.induct) (auto split: prod.splits)

lemma release_loop_count:
  "p \<noteq> pidx_none \<Longrightarrow> snd (release_loop ks p) = length (filter (\<lambda>k. kn_holder k = p) ks)"
  by (induction ks p rule: release_loop.induct) (auto split: prod.splits)

lemma known_lock_relock:
  assumes k: "0 < km" "km < int known_memory_count" "length (m_known m) = known_memory_count"
    and h: "kn_holder (m_known m ! nat km) \<in> {pidx_none, q}" and a: "kn_addr (m_known m ! nat km) \<noteq> 0"
    and n: "n \<le> kn_pages (m_known m ! nat km)"
  shows "\<exists>m'. known_memory_lock m km n q = Some (Ret (m', kn_addr (m_known m ! nat km)))"
  using assms by (auto simp: known_memory_lock_def Let_def)

lemma known_lock_refused:
  assumes "kn_holder (m_known m ! nat km) \<noteq> pidx_none" and "kn_holder (m_known m ! nat km) \<noteq> q"
  shows "known_memory_lock m km n q = Some (Ret (m, 0))"
  using assms by (simp add: known_memory_lock_def Let_def)

lemma known_memory_exclusive_lemma:
  assumes lock: "known_memory_lock m km n p = Some (Ret (m1, a))" and a: "a \<noteq> 0"
    and len: "length (m_known m) = known_memory_count" and p: "p \<noteq> pidx_none" and q: "q \<noteq> p"
  shows "known_memory_lock m1 km n' q = Some (Ret (m1, 0)) \<and>
    (n' \<le> n \<longrightarrow> (\<exists>m2. known_memory_lock (fst (known_memory_release_process m1 p)) km n' q = Some (Ret (m2, a))))"
proof
  note s = known_lock_success [OF lock a len]
  show "known_memory_lock m1 km n' q = Some (Ret (m1, 0))"
    using s p q by (intro known_lock_refused) auto
  let ?m = "fst (known_memory_release_process m1 p)"
  have known: "m_known ?m = fst (release_loop (m_known m1) p)"
    by (simp add: known_memory_release_process_def split: prod.splits)
  have nk: "nat km < length (m_known m1)" using s by auto
  have r: "m_known ?m ! nat km = (m_known m1 ! nat km)\<lparr>kn_holder := pidx_none\<rparr>"
    unfolding known release_loop_nth [OF nk p] using s by simp
  show "n' \<le> n \<longrightarrow> (\<exists>m2. known_memory_lock ?m km n' q = Some (Ret (m2, a)))"
    using known_lock_relock [of km ?m q n'] s a r known by auto
qed

text \<open>A reserved region has one holder at a time: while a process holds it every other
  process is refused, and when the holder has ended the next process gets the same region.\<close>

theorem known_memory_exclusive:
  assumes "known_memory_lock m km n p = Some (Ret (m1, a))" and "a \<noteq> 0"
    and "length (m_known m) = known_memory_count" and "p \<noteq> pidx_none" and "q \<noteq> p"
  shows "known_memory_lock m1 km n' q = Some (Ret (m1, 0)) \<and>
    (n' \<le> n \<longrightarrow> (\<exists>m2. known_memory_lock (fst (known_memory_release_process m1 p)) km n' q = Some (Ret (m2, a))))"
  using known_memory_exclusive_lemma [OF assms] .

theorem known_memory_exclusive_witness:
  "\<exists>m m1. memory_init tiny_memory = Ret m \<and> known_memory_lock m 1 2 1 = Some (Ret (m1, 8192)) \<and>
    known_memory_lock m1 1 2 2 = Some (Ret (m1, 0))"
proof -
  obtain m where m: "memory_init tiny_memory = Ret m" "page_rep m [1..<4]" "length (m_infos m) = 4"
      "m_base m = 4096" "m_known m = replicate known_memory_count \<lparr>kn_addr = 0, kn_pages = 0, kn_holder = pidx_none\<rparr>"
    using memory_init_rep [OF tiny_boot(1)] unfolding tiny_boot(2,3) by (auto simp: tiny_memory_def)
  have f: "first_run 2 [] [] [1..<4] = Some ([], [1, 2], [3])" by (simp add: upt_rec)
  have "pg_addr (m_infos m ! 1) = 8192" using m(2-4) by (simp add: page_rep_def page_wf_def page_size_def)
  then obtain m1 where m1: "page_allocate m (- 1) 2 = Some (Ret (m1, 8192))"
    using page_allocate_run [OF m(2) _ f, of "- 1"] by auto
  obtain m2 where m2: "known_memory_lock m 1 2 1 = Some (Ret (m2, 8192))"
    using m1 page_allocate_known [OF m1] m(5)
    by (simp add: known_memory_lock_def known_memory_count_def Let_def)
  with known_memory_exclusive [OF m2, of 2 2] m(1,5) show ?thesis by (auto simp: pidx_none_def)
qed

text \<open>A request for no pages at all stops the machine: the syscall hands the count on unchecked.\<close>

lemma known_lock_zero_panics:
  assumes "length (m_known m) = known_memory_count" and "m_known m ! 1 = \<lparr>kn_addr = 0, kn_pages = 0, kn_holder = pidx_none\<rparr>"
  shows "known_memory_lock m 1 0 p = Some Panic"
  using assms by (simp add: known_memory_lock_def known_memory_count_def page_allocate_def)

section \<open>Any sequence of operations\<close>

text \<open>The operations the kernel calls on the pages, and their effect when they return.\<close>

datatype pool_op = Op_allocate int nat | Op_free int | Op_lock int nat int | Op_release int

fun returned :: "('a kernel) option \<Rightarrow> 'a option" where
  "returned (Some (Ret x)) = Some x"
| "returned _ = None"

definition pool_step :: "memory \<Rightarrow> pool_op \<Rightarrow> memory option" where
  "pool_step m x = (case x of
       Op_allocate p n \<Rightarrow> map_option fst (returned (page_allocate m p n))
     | Op_free p \<Rightarrow> Some (fst (page_free_process m p))
     | Op_lock km n p \<Rightarrow> map_option fst (returned (known_memory_lock m km n p))
     | Op_release p \<Rightarrow> Some (fst (known_memory_release_process m p)))"

lemma returned_Some: "returned r = Some x \<longleftrightarrow> r = Some (Ret x)"
  by (cases r rule: returned.cases) auto

definition pool_inv :: "memory \<Rightarrow> bool" where
  "pool_inv m \<longleftrightarrow> (\<exists>xs. page_rep m xs) \<and> length (m_known m) = known_memory_count"

text \<open>The operation does not free the page \<open>i\<close>, which is in use.\<close>

definition pool_safe :: "pool_op \<Rightarrow> memory \<Rightarrow> nat \<Rightarrow> bool" where
  "pool_safe x m i \<longleftrightarrow> i < length (m_infos m) \<and> pg_pidx (m_infos m ! i) \<noteq> pidx_none \<and>
     (\<forall>q. x = Op_free q \<longrightarrow> pg_pidx (m_infos m ! i) \<noteq> q)"

lemma page_rep_known [simp]: "page_rep (m\<lparr>m_known := ks\<rparr>) xs \<longleftrightarrow> page_rep m xs"
  by (simp add: page_rep_def page_wf_def)

lemma page_kept_known [simp]: "page_kept m i (m'\<lparr>m_known := ks\<rparr>) \<longleftrightarrow> page_kept m i m'"
  by (simp add: page_kept_def)

lemma page_allocate_inv: "pool_inv m \<Longrightarrow> page_allocate m p n = Some (Ret (m', a)) \<Longrightarrow> pool_inv m'"
proof -
  assume inv: "pool_inv m" and run: "page_allocate m p n = Some (Ret (m', a))"
  then obtain xs where xs: "page_rep m xs" by (auto simp: pool_inv_def)
  have n: "0 < n" using run by (auto simp: page_allocate_def split: if_splits)
  have "\<exists>ys. page_rep m' ys"
  proof (cases "first_run n [] [] xs")
    case None
    with page_allocate_none [OF xs n None] run xs show ?thesis by auto
  next
    case (Some t)
    with page_allocate_run [OF xs n, of "fst t" "fst (snd t)" "snd (snd t)" p] run show ?thesis by auto
  qed
  with page_allocate_known [OF run] inv show ?thesis by (simp add: pool_inv_def)
qed

lemma known_lock_pages:
  assumes "known_memory_lock m km n p = Some (Ret (m', a))"
  shows "\<exists>m1 ks. m' = m1\<lparr>m_known := ks\<rparr> \<and> length ks = length (m_known m1) \<and>
    (m1 = m \<or> (\<exists>b. page_allocate m (- 1) n = Some (Ret (m1, b))))"
proof -
  have same: "m' = m'\<lparr>m_known := m_known m'\<rparr>" by simp
  show ?thesis using assms
    by (auto simp: known_memory_lock_def Let_def k_bind_Ret split: if_splits)
      (metis length_list_update list_update_id memory.surjective memory.update_convs(8))+
qed

lemma free_process_known [simp]: "m_known (fst (page_free_process m p)) = m_known m"
proof -
  have "free_loop n i p m c = (m', c') \<Longrightarrow> m_known m' = m_known m" for n i c c' m m'
    by (induction n i p m c rule: free_loop.induct) (auto simp: Let_def split: if_splits)
  then show ?thesis by (auto simp: page_free_process_def Let_def split: prod.splits)
qed

lemma release_pages:
  "\<exists>ks. fst (known_memory_release_process m p) = m\<lparr>m_known := ks\<rparr> \<and> length ks = length (m_known m)"
  using length_release_loop [of "m_known m" p]
  by (cases "release_loop (m_known m) p") (auto simp: known_memory_release_process_def)

lemma pool_step_inv:
  assumes inv: "pool_inv m" and run: "pool_step m x = Some m'"
  shows "pool_inv m'"
proof (cases x)
  case (Op_allocate p n)
  with inv run show ?thesis by (auto simp: pool_step_def returned_Some dest: page_allocate_inv)
next
  case (Op_free p)
  obtain xs where xs: "page_rep m xs" using inv by (auto simp: pool_inv_def)
  have "\<exists>ys. page_rep (fst (page_free_process m p)) ys"
  proof (cases "p = pidx_none")
    case False
    with page_free_process_rep [OF xs] show ?thesis by (metis fst_conv)
  qed (use xs in \<open>auto simp: page_free_process_def\<close>)
  with Op_free inv run show ?thesis by (auto simp: pool_step_def pool_inv_def)
next
  case (Op_lock km n p)
  then obtain a where "known_memory_lock m km n p = Some (Ret (m', a))"
    using run by (auto simp: pool_step_def returned_Some)
  from known_lock_pages [OF this] inv page_allocate_inv [OF inv, of "- 1" n] show ?thesis
    by (auto simp: pool_inv_def)
next
  case (Op_release p)
  with inv run release_pages [of m p] show ?thesis by (auto simp: pool_step_def pool_inv_def)
qed

lemma pool_step_kept:
  assumes inv: "pool_inv m" and safe: "pool_safe x m i" and run: "pool_step m x = Some m'"
  shows "page_kept m i m'"
proof -
  obtain xs where xs: "page_rep m xs" using inv by (auto simp: pool_inv_def)
  have i: "i < length (m_infos m)" "pg_pidx (m_infos m ! i) \<noteq> pidx_none" using safe by (auto simp: pool_safe_def)
  note kept = page_allocate_kept [OF xs i] page_free_kept [OF xs i(1)]
  show ?thesis
  proof (cases x)
    case (Op_allocate p n)
    with run kept(1) show ?thesis by (auto simp: pool_step_def returned_Some)
  next
    case (Op_free p)
    with run safe kept(2) show ?thesis by (auto simp: pool_step_def pool_safe_def)
  next
    case (Op_lock km n p)
    then obtain a where "known_memory_lock m km n p = Some (Ret (m', a))"
      using run by (auto simp: pool_step_def returned_Some)
    from known_lock_pages [OF this] kept(1) show ?thesis by auto
  next
    case (Op_release p)
    with run release_pages [of m p] show ?thesis by (auto simp: pool_step_def)
  qed
qed

lemma page_kept_trans:
  assumes "page_kept m i m'" and "page_kept m' i m''"
  shows "page_kept m i m''"
proof -
  have "map pg_addr (m_infos m') = map pg_addr (m_infos m)" using assms(1) by (simp add: page_kept_def)
  then have "length (m_infos m') = length (m_infos m)"
    "i < length (m_infos m) \<Longrightarrow> pg_addr (m_infos m' ! i) = pg_addr (m_infos m ! i)"
    by (auto intro: map_nth_eq map_eq_imp_length_eq)
  with assms show ?thesis by (auto simp: page_kept_def)
qed

lemma pool_safe_kept: "page_kept m i m' \<Longrightarrow> pool_safe x m i \<Longrightarrow> pool_safe x m' i"
  by (auto simp: page_kept_def pool_safe_def dest: map_eq_imp_length_eq)

interpretation pool: step_frame pool_step pool_inv page_kept pool_safe
  by unfold_locales (fact pool_step_inv page_kept_refl page_kept_trans pool_step_kept pool_safe_kept)+

text \<open>C11. Isolation: a page in use keeps its owner and its contents over any sequence of
  allocations, locks, releases and deaths of other processes.\<close>

theorem page_isolation:
  assumes "pool_inv m" and "i < length (m_infos m)" and "pg_pidx (m_infos m ! i) \<noteq> pidx_none"
    and "\<forall>q. Op_free q \<in> set ops \<longrightarrow> q \<noteq> pg_pidx (m_infos m ! i)"
    and "run_steps pool_step m ops = Some m'"
  shows "page_kept m i m' \<and> pool_inv m'"
  using pool.run_kept [OF assms(1) _ assms(5)] pool.run_keeps [OF assms(1,5)] assms(2-4)
  by (auto simp: pool_safe_def)

theorem page_isolation_witness:
  "\<exists>m m'. memory_init tiny_memory = Ret m \<and> run_steps pool_step m [Op_free 5, Op_release 5] = Some m' \<and>
    page_kept m 0 m' \<and> pg_pidx (m_infos m ! 0) = - 1"
proof -
  obtain m where m: "memory_init tiny_memory = Ret m" "page_rep m [1..<4]" "length (m_infos m) = 4"
      "pg_pidx (m_infos m ! 0) = - 1" "m_known m = replicate known_memory_count \<lparr>kn_addr = 0, kn_pages = 0, kn_holder = pidx_none\<rparr>"
    using memory_init_rep [OF tiny_boot(1)] unfolding tiny_boot(2,3) by auto
  obtain m' where r: "run_steps pool_step m [Op_free 5, Op_release 5] = Some m'" by (simp add: pool_step_def)
  from page_isolation [OF _ _ _ _ r, of 0] m r show ?thesis by (auto simp: pool_inv_def pidx_none_def)
qed

end
