(* ===== verification/KernelProcess.thy ===== *)
theory KernelProcess
  imports PageMemory Mpack
begin

text \<open>
  The process table of the kernel (\<open>ot/core/process.cpp\<close>): creation, lookup, the scheduler's
  choice and the end of a process. A pointer to a process is its position in \<open>procs\<close>. What the
  scheduler saves on the kernel stack of a process is the place where it goes on and its trap
  frame: \<open>p_cont\<close> and \<open>p_regs\<close>.
\<close>

section \<open>Results\<close>

text \<open>\<open>None\<close> is code that does not come back; see \<open>kernel\<close> for the results of code that does.\<close>

type_synonym 'a kres = "'a kernel option"

definition ret :: "'a \<Rightarrow> 'a kres" where
  "ret x = Some (Ret x)"

definition panic :: "'a kres" where
  "panic = Some Panic"

definition fault :: "'a kres" where
  "fault = Some Fault"

fun kr_bind :: "'a kres \<Rightarrow> ('a \<Rightarrow> 'b kres) \<Rightarrow> 'b kres" where
  "kr_bind (Some (Ret x)) f = f x"
| "kr_bind (Some Panic) f = Some Panic"
| "kr_bind (Some Fault) f = Some Fault"
| "kr_bind None f = None"

text \<open>A read of the message decoder outside its buffer is a fault.\<close>

definition of_run :: "'a run \<Rightarrow> 'a kres" where
  "of_run r = (case r of Done x \<Rightarrow> ret x | Undefined _ \<Rightarrow> fault | NoFuel \<Rightarrow> None)"

section \<open>State\<close>

datatype proc_state = UNUSED | RUNNABLE | TERMINATED | IPC_RECV_WAIT | IPC_SEND_WAIT

record ipc_message =
  im_sender_pid :: nat
  im_method_and_flags :: "32 word"
  im_arg0 :: "32 word"
  im_arg1 :: "32 word"
  im_arg2 :: "32 word"

record ipc_response =
  ir_error :: "32 word"
  ir_value0 :: "32 word"
  ir_value1 :: "32 word"
  ir_value2 :: "32 word"

record queued_request =
  q_sender :: nat
  q_message :: ipc_message
  q_has_comm_data :: bool

record trap_regs =
  a0 :: "32 word"
  a1 :: "32 word"
  a2 :: "32 word"
  a3 :: "32 word"
  a4 :: "32 word"
  a5 :: "32 word"

text \<open>The functions a process starts in.\<close>

datatype entry_point = Entry_null | User_program_main | Proc_graphics | Proc_filesystem | Proc_keyboard

text \<open>Where a process that is not running goes on.\<close>

datatype cont = C_entry | C_user | C_send | C_recv | C_idle

record proc =
  p_name :: string
  p_pidx :: nat
  p_pid :: nat
  p_state :: proc_state
  p_arg_page :: nat
  p_comm_page :: nat
  p_user_stack :: nat
  p_storage_page :: nat
  p_user_pc :: entry_point
  p_kernel_mode :: bool
  p_pending_message :: ipc_message
  p_has_pending :: bool
  p_blocked_sender :: "nat option"
  p_pending_response :: ipc_response
  p_queue :: "queued_request list"
  p_regs :: trap_regs
  p_cont :: cont

definition zero_regs :: trap_regs where
  "zero_regs = \<lparr>a0 = 0, a1 = 0, a2 = 0, a3 = 0, a4 = 0, a5 = 0\<rparr>"

text \<open>\<open>memset(proc, 0, sizeof(Process))\<close>; state 0 is \<open>UNUSED\<close>.\<close>

definition zero_proc :: proc where
  "zero_proc = \<lparr>p_name = [], p_pidx = 0, p_pid = 0, p_state = UNUSED, p_arg_page = 0, p_comm_page = 0,
     p_user_stack = 0, p_storage_page = 0, p_user_pc = Entry_null, p_kernel_mode = False,
     p_pending_message = \<lparr>im_sender_pid = 0, im_method_and_flags = 0, im_arg0 = 0, im_arg1 = 0, im_arg2 = 0\<rparr>,
     p_has_pending = False, p_blocked_sender = None,
     p_pending_response = \<lparr>ir_error = 0, ir_value0 = 0, ir_value1 = 0, ir_value2 = 0\<rparr>, p_queue = [],
     p_regs = zero_regs, p_cont = C_entry\<rparr>"

record kstate =
  procs :: "proc list"
  current_proc :: "nat option"
  idle_proc :: "nat option"
  proc_pid_counter :: nat
  process_pids :: "nat list"
  k_mem :: memory
  k_out :: "32 word list"
  k_in :: "32 word list"
  k_exited :: bool

definition procs_max :: nat where
  "procs_max = 16"

definition pid_none :: nat where
  "pid_none = 0"

definition proc_at :: "kstate \<Rightarrow> nat \<Rightarrow> proc" where
  "proc_at s i = procs s ! i"

definition set_proc :: "nat \<Rightarrow> (proc \<Rightarrow> proc) \<Rightarrow> kstate \<Rightarrow> kstate" where
  "set_proc i f s = s\<lparr>procs := (procs s)[i := f (procs s ! i)]\<rparr>"

definition set_mem :: "memory \<Rightarrow> kstate \<Rightarrow> kstate" where
  "set_mem m s = s\<lparr>k_mem := m\<rparr>"

definition store_bytes :: "nat \<Rightarrow> byte list \<Rightarrow> memory \<Rightarrow> memory" where
  "store_bytes a bs m = m\<lparr>m_ram := (\<lambda>x. if a \<le> x \<and> x < a + length bs then bs ! (x - a) else m_ram m x)\<rparr>"

definition load_bytes :: "nat \<Rightarrow> nat \<Rightarrow> memory \<Rightarrow> byte list" where
  "load_bytes a n m = map (m_ram m) [a..<a + n]"

text \<open>\<open>memcpy\<close> of a page; the pages are aligned, so equal or disjoint.\<close>

definition copy_page :: "nat \<Rightarrow> nat \<Rightarrow> memory \<Rightarrow> memory" where
  "copy_page dst src m =
     m\<lparr>m_ram := (\<lambda>x. if dst \<le> x \<and> x < dst + page_size then m_ram m (src + (x - dst)) else m_ram m x)\<rparr>"

section \<open>Creation\<close>

fun find_unused :: "proc list \<Rightarrow> nat \<Rightarrow> nat option" where
  "find_unused [] i = None"
| "find_unused (p # ps) i = (if p_state p = UNUSED then Some i else find_unused ps (i + 1))"

definition process_alloc_mapped_pages :: "kstate \<Rightarrow> nat \<Rightarrow> nat \<Rightarrow> (kstate \<times> nat) kres" where
  "process_alloc_mapped_pages s i count =
     kr_bind (page_allocate (k_mem s) (int (p_pidx (proc_at s i))) count) (\<lambda>(m, a). ret (set_mem m s, a))"

text \<open>A page that must be there.\<close>

definition alloc_page_or_panic :: "kstate \<Rightarrow> nat \<Rightarrow> (kstate \<times> nat) kres" where
  "alloc_page_or_panic s i =
     kr_bind (process_alloc_mapped_pages s i 1) (\<lambda>(s, a). if a = 0 then panic else ret (s, a))"

definition write_page :: "nat \<Rightarrow> (mpack_writer \<Rightarrow> mpack_writer) \<Rightarrow> kstate \<Rightarrow> kstate" where
  "write_page a w s = set_mem (store_bytes a (mw_bytes (w (mw_init page_size))) (k_mem s)) s"

definition process_create_impl :: "kstate \<Rightarrow> string \<Rightarrow> entry_point \<Rightarrow> string list option \<Rightarrow> bool \<Rightarrow> (kstate \<times> nat option) kres" where
  "process_create_impl s name entry args kernel_mode =
     kr_bind (Some (memory_init (k_mem s))) (\<lambda>m. let s = set_mem m s in
     case find_unused (procs s) 0 of None \<Rightarrow> ret (s, None)
     | Some i \<Rightarrow>
        let s = set_proc i (\<lambda>_. zero_proc\<lparr>p_name := take 32 (cstr name), p_state := RUNNABLE, p_pidx := i,
              p_pid := proc_pid_counter s, p_kernel_mode := kernel_mode\<rparr>) s;
            s = s\<lparr>proc_pid_counter := sz (proc_pid_counter s + 1)\<rparr>;
            s = s\<lparr>process_pids := (process_pids s)[i := p_pid (proc_at s i)]\<rparr>;
            s = set_proc i (\<lambda>p. p\<lparr>p_user_pc := entry\<rparr>) s
        in kr_bind (alloc_page_or_panic s i) (\<lambda>(s, comm).
           let s = set_proc i (\<lambda>p. p\<lparr>p_comm_page := comm\<rparr>) (write_page comm mw_nil s)
           in kr_bind (alloc_page_or_panic s i) (\<lambda>(s, storage).
              let s = set_mem (memset_zero storage page_size (k_mem s)) s;
                  s = set_proc i (\<lambda>p. p\<lparr>p_storage_page := storage\<rparr>) s
              in kr_bind (alloc_page_or_panic s i) (\<lambda>(s, ustack).
                 let s = set_proc i (\<lambda>p. p\<lparr>p_user_stack := ustack\<rparr>) s
                 in kr_bind (case args of None \<Rightarrow> ret s
                      | Some argv \<Rightarrow> kr_bind (alloc_page_or_panic s i) (\<lambda>(s, arg).
                          ret (set_proc i (\<lambda>p. p\<lparr>p_arg_page := arg\<rparr>)
                            (write_page arg (\<lambda>w. mw_stringarray (mw_cstr (mw_map w 1) (Some ''args'')) argv) s))))
                    (\<lambda>s. ret (set_mem (memory_increment_process_count (k_mem s)) s, Some i))))))"

definition process_create :: "kstate \<Rightarrow> string \<Rightarrow> entry_point \<Rightarrow> string list option \<Rightarrow> bool \<Rightarrow> (kstate \<times> nat) kres" where
  "process_create s name entry args kernel_mode =
     kr_bind (process_create_impl s name entry args kernel_mode) (\<lambda>(s, p).
       case p of None \<Rightarrow> panic | Some i \<Rightarrow> ret (s, i))"

section \<open>Lookup\<close>

definition process_is_running :: "proc \<Rightarrow> bool" where
  "process_is_running p \<longleftrightarrow> p_state p = RUNNABLE \<or> p_state p = IPC_RECV_WAIT \<or> p_state p = IPC_SEND_WAIT"

fun lookup_pid_from :: "nat list \<Rightarrow> proc list \<Rightarrow> nat \<Rightarrow> nat \<Rightarrow> nat option" where
  "lookup_pid_from (q # qs) (p # ps) i pid =
     (if q = pid \<and> p_state p \<noteq> UNUSED then Some i else lookup_pid_from qs ps (i + 1) pid)"
| "lookup_pid_from _ _ i pid = None"

text \<open>\<open>PIDX_INVALID\<close> is \<open>None\<close>.\<close>

definition process_lookup_by_pid :: "kstate \<Rightarrow> nat \<Rightarrow> nat option" where
  "process_lookup_by_pid s pid = lookup_pid_from (process_pids s) (procs s) 0 pid"

definition process_lookup_by_pidx :: "kstate \<Rightarrow> int \<Rightarrow> nat option" where
  "process_lookup_by_pidx s pidx =
     (if pidx < 0 \<or> pidx \<ge> int procs_max then None
      else if process_is_running (proc_at s (nat pidx)) then Some (nat pidx) else None)"

text \<open>\<open>strncmp(a, b, n) == 0\<close>.\<close>

fun strncmp_eq :: "string \<Rightarrow> string \<Rightarrow> nat \<Rightarrow> bool" where
  "strncmp_eq a b 0 \<longleftrightarrow> True"
| "strncmp_eq [] b (Suc n) \<longleftrightarrow> (case b of [] \<Rightarrow> True | c # _ \<Rightarrow> c = nul)"
| "strncmp_eq (c # a) b (Suc n) \<longleftrightarrow> (case b of [] \<Rightarrow> c = nul | d # b \<Rightarrow> c = d \<and> (c = nul \<or> strncmp_eq a b n))"

text \<open>
  The name of a process against a view; a name of 32 characters has no terminator, and
  the test of the character behind the match then leaves the array.
\<close>

definition name_matches :: "proc \<Rightarrow> string \<Rightarrow> bool kres" where
  "name_matches p name =
     (if \<not> strncmp_eq (p_name p) name (length name) then ret False
      else if length name \<ge> 32 then fault
      else ret (length (p_name p) \<le> length name))"

fun process_lookup_from :: "kstate \<Rightarrow> string \<Rightarrow> nat \<Rightarrow> nat kres" where
  "process_lookup_from s name 0 = ret pid_none"
| "process_lookup_from s name (Suc i) =
     (if process_is_running (proc_at s i)
      then kr_bind (name_matches (proc_at s i) name) (\<lambda>b.
             if b then ret (p_pid (proc_at s i)) else process_lookup_from s name i)
      else process_lookup_from s name i)"

definition process_lookup :: "kstate \<Rightarrow> string \<Rightarrow> nat kres" where
  "process_lookup s name = process_lookup_from s name procs_max"

section \<open>Scheduling\<close>

text \<open>The processes behind the current one, in the order of the table.\<close>

fun runnable_from :: "kstate \<Rightarrow> nat \<Rightarrow> nat \<Rightarrow> nat \<Rightarrow> nat option" where
  "runnable_from s c i 0 = None"
| "runnable_from s c i (Suc n) =
     (let j = (c + i + 1) mod procs_max; p = proc_at s j
      in if p_state p = RUNNABLE \<and> p_pidx p > 0 then Some j else runnable_from s c (i + 1) n)"

definition process_next_runnable :: "kstate \<Rightarrow> nat \<Rightarrow> nat \<Rightarrow> nat" where
  "process_next_runnable s c idle =
     (let next = (case runnable_from s (p_pidx (proc_at s c)) 0 procs_max of Some j \<Rightarrow> j | None \<Rightarrow> idle)
      in if p_state (proc_at s 1) = TERMINATED then idle else next)"

definition programs_running :: "kstate \<Rightarrow> bool" where
  "programs_running s \<longleftrightarrow> list_ex (\<lambda>p. p_state p = RUNNABLE) (drop 1 (procs s))"

section \<open>The end of a process\<close>

text \<open>The first queued request of \<open>i\<close> becomes its current one; the list is not empty.\<close>

definition activate_next :: "nat \<Rightarrow> kstate \<Rightarrow> kstate" where
  "activate_next i s = (case p_queue (proc_at s i) of [] \<Rightarrow> s
     | q # qs \<Rightarrow>
        let s = set_proc i (\<lambda>p. p\<lparr>p_queue := qs\<rparr>) s;
            src = p_comm_page (proc_at s (q_sender q)); dst = p_comm_page (proc_at s i);
            s = (if q_has_comm_data q \<and> src \<noteq> 0 \<and> dst \<noteq> 0 then set_mem (copy_page dst src (k_mem s)) s else s)
        in set_proc i (\<lambda>p. p\<lparr>p_pending_message := q_message q, p_has_pending := True,
             p_blocked_sender := Some (q_sender q)\<rparr>) s)"

text \<open>The first request of the process is taken out of the queue.\<close>

fun remove_request :: "nat \<Rightarrow> queued_request list \<Rightarrow> queued_request list" where
  "remove_request i [] = []"
| "remove_request i (q # qs) = (if q_sender q = i then qs else q # remove_request i qs)"

definition exit_cleanup :: "nat \<Rightarrow> nat \<Rightarrow> kstate \<Rightarrow> kstate" where
  "exit_cleanup proc i s =
     (if p_state (proc_at s i) = UNUSED then s
      else
        let s = (if p_blocked_sender (proc_at s i) = Some proc
                 then activate_next i (set_proc i (\<lambda>p. p\<lparr>p_blocked_sender := None\<rparr>) s) else s)
        in set_proc i (\<lambda>p. p\<lparr>p_queue := remove_request proc (p_queue p)\<rparr>) s)"

definition process_exit :: "nat \<Rightarrow> bool \<Rightarrow> kstate \<Rightarrow> kstate" where
  "process_exit proc zero s =
     (let s = fold (exit_cleanup proc) [0..<procs_max] s;
          pidx = p_pidx (proc_at s proc);
          s = set_mem (fst (known_memory_release_process (k_mem s) (int pidx))) s;
          s = set_mem (fst (page_free_process (k_mem s) (int pidx))) s;
          s = s\<lparr>process_pids := (process_pids s)[pidx := pid_none]\<rparr>;
          s = (if zero then set_proc proc (\<lambda>_. zero_proc) s else s)
      in set_proc proc (\<lambda>p. p\<lparr>p_state := UNUSED\<rparr>) s)"

definition shutdown_all_processes :: "kstate \<Rightarrow> kstate" where
  "shutdown_all_processes s =
     (let s = fold (\<lambda>i s. if p_state (proc_at s i) \<noteq> UNUSED then process_exit i False s else s) [0..<procs_max] s
      in s\<lparr>k_exited := True\<rparr>)"

section \<open>Pages of the current process, and programs\<close>

definition current_page :: "(proc \<Rightarrow> nat) \<Rightarrow> kstate \<Rightarrow> nat" where
  "current_page f s = (case current_proc s of None \<Rightarrow> 0 | Some c \<Rightarrow> f (proc_at s c))"

definition process_get_arg_page :: "kstate \<Rightarrow> nat" where
  "process_get_arg_page = current_page p_arg_page"

definition process_get_comm_page :: "kstate \<Rightarrow> nat" where
  "process_get_comm_page = current_page p_comm_page"

definition process_get_storage_page :: "kstate \<Rightarrow> nat" where
  "process_get_storage_page = current_page p_storage_page"

definition program_registry :: "string list" where
  "program_registry = [''shell'', ''uishell'', ''scratch'', ''spacedemo'', ''typedemo'', ''echo'', ''gfxscratch'', ''edit'']"

definition is_valid_program :: "string \<Rightarrow> bool" where
  "is_valid_program name \<longleftrightarrow> cstr name \<in> set program_registry"

definition kernel_spawn_process :: "kstate \<Rightarrow> string \<Rightarrow> string list \<Rightarrow> (kstate \<times> nat) kres" where
  "kernel_spawn_process s name argv =
     (if \<not> is_valid_program name then ret (s, pid_none)
      else kr_bind (process_create s name User_program_main (Some argv) False) (\<lambda>(s, i).
             ret (s, p_pid (proc_at s i))))"

end
