(* ===== verification/KernelIpc.thy ===== *)
theory KernelIpc
  imports KernelProcess
begin

text \<open>
  The system calls (\<open>ot/core/platform/platform-riscv.cpp\<close>, \<open>handle_syscall\<close>) with the
  synchronous messages between processes. A call that waits ends with a switch to another
  process, and what the code does behind the switch is done when the process is resumed:
  \<open>resume\<close> is that part of each call, told apart by \<open>p_cont\<close>.
\<close>

section \<open>Switching\<close>

definition get_current :: "kstate \<Rightarrow> nat" where
  "get_current s = (case current_proc s of Some c \<Rightarrow> c | None \<Rightarrow> 0)"

definition set_regs :: "nat \<Rightarrow> (trap_regs \<Rightarrow> trap_regs) \<Rightarrow> kstate \<Rightarrow> kstate" where
  "set_regs i f = set_proc i (\<lambda>p. p\<lparr>p_regs := f (p_regs p)\<rparr>)"

text \<open>The registers a sender sees when it goes on.\<close>

definition read_response :: "nat \<Rightarrow> kstate \<Rightarrow> kstate" where
  "read_response c s = set_regs c (\<lambda>f. let r = p_pending_response (proc_at s c) in
     f\<lparr>a0 := ir_error r, a1 := ir_value0 r, a2 := ir_value1 r, a4 := ir_value2 r\<rparr>) s"

text \<open>The message a receiver takes.\<close>

definition take_message :: "nat \<Rightarrow> kstate \<Rightarrow> kstate" where
  "take_message c s =
     set_proc c (\<lambda>p. p\<lparr>p_has_pending := False\<rparr>)
       (set_regs c (\<lambda>f. let m = p_pending_message (proc_at s c) in
          f\<lparr>a0 := of_nat (im_sender_pid m), a1 := im_method_and_flags m, a2 := im_arg0 m, a4 := im_arg1 m,
            a5 := im_arg2 m\<rparr>) s)"

text \<open>
  The process \<open>c\<close>, now the current one, goes on. The idle process was left in
  \<open>kernel_start\<close>, which then ends the kernel.
\<close>

definition resume :: "nat \<Rightarrow> kstate \<Rightarrow> kstate" where
  "resume c s =
     (let s1 = set_proc c (\<lambda>p. p\<lparr>p_cont := C_user\<rparr>) s
      in case p_cont (proc_at s c) of
        C_entry \<Rightarrow> s1 | C_user \<Rightarrow> s1
      | C_send \<Rightarrow> read_response c s1
      | C_recv \<Rightarrow> take_message c s1
      | C_idle \<Rightarrow> s\<lparr>k_exited := True\<rparr>)"

text \<open>The current process is left at \<open>k\<close>.\<close>

definition process_switch_to :: "nat \<Rightarrow> cont \<Rightarrow> kstate \<Rightarrow> kstate" where
  "process_switch_to target k s =
     resume target ((set_proc (get_current s) (\<lambda>p. p\<lparr>p_cont := k\<rparr>) s)\<lparr>current_proc := Some target\<rparr>)"

text \<open>When no other process can run, the code behind \<open>yield\<close> runs at once.\<close>

definition yield :: "cont \<Rightarrow> kstate \<Rightarrow> kstate kres" where
  "yield k s = (case (current_proc s, idle_proc s) of
       (Some c, Some idle) \<Rightarrow>
         (let next = process_next_runnable s c idle
          in if next = c then ret (resume c (set_proc c (\<lambda>p. p\<lparr>p_cont := k\<rparr>) s))
             else ret (process_switch_to next k s))
     | _ \<Rightarrow> panic)"

section \<open>Messages\<close>

definition ipc_flags :: "32 word \<Rightarrow> 32 word" where
  "ipc_flags mf = mf AND 0xff"

definition ipc_method :: "32 word \<Rightarrow> 32 word" where
  "ipc_method mf = mf AND NOT 0xff"

definition send_comm_data :: "32 word \<Rightarrow> bool" where
  "send_comm_data mf \<longleftrightarrow> ipc_flags mf AND 1 \<noteq> 0"

definition recv_comm_data :: "32 word \<Rightarrow> bool" where
  "recv_comm_data mf \<longleftrightarrow> ipc_flags mf AND 2 \<noteq> 0"

definition error_pid_not_found :: "32 word" where
  "error_pid_not_found = 2"

definition error_queue_full :: "32 word" where
  "error_queue_full = 5"

definition copy_comm :: "nat \<Rightarrow> nat \<Rightarrow> kstate \<Rightarrow> kstate" where
  "copy_comm dst src s =
     (let d = p_comm_page (proc_at s dst); e = p_comm_page (proc_at s src)
      in if e \<noteq> 0 \<and> d \<noteq> 0 then set_mem (copy_page d e (k_mem s)) s else s)"

text \<open>\<open>f\<close> are the registers at the trap; \<open>a0\<close> of the trap frame is 0 by now.\<close>

definition sys_ipc_send :: "kstate \<Rightarrow> nat \<Rightarrow> trap_regs \<Rightarrow> kstate kres" where
  "sys_ipc_send s c f =
     (let mf = a1 f;
          msg = \<lparr>im_sender_pid = p_pid (proc_at s c), im_method_and_flags = mf, im_arg0 = a2 f, im_arg1 = a4 f, im_arg2 = a5 f\<rparr>
      in case process_lookup_by_pid s (unat (a0 f)) of
        None \<Rightarrow> ret (set_regs c (\<lambda>f. f\<lparr>a0 := error_pid_not_found, a1 := 0, a2 := 0\<rparr>) s)
      | Some t \<Rightarrow>
         (case process_lookup_by_pidx s (int t) of None \<Rightarrow> fault
          | Some target \<Rightarrow>
             if p_blocked_sender (proc_at s target) \<noteq> None
             then (if length (p_queue (proc_at s target)) \<ge> procs_max
                   then ret (set_regs c (\<lambda>f. f\<lparr>a0 := error_queue_full, a1 := 0, a2 := 0\<rparr>) s)
                   else
                     let s = set_proc target (\<lambda>p. p\<lparr>p_queue := p_queue p @
                           [\<lparr>q_sender = c, q_message = msg, q_has_comm_data = send_comm_data mf\<rparr>]\<rparr>) s;
                         s = set_proc c (\<lambda>p. p\<lparr>p_state := IPC_SEND_WAIT\<rparr>) s
                     in yield C_send s)
             else
               let s = (if send_comm_data mf then copy_comm target c s else s);
                   s = set_proc target (\<lambda>p. p\<lparr>p_pending_message := msg, p_has_pending := True, p_blocked_sender := Some c\<rparr>) s
               in if p_state (proc_at s target) = IPC_RECV_WAIT
                  then ret (process_switch_to target C_send (set_proc target (\<lambda>p. p\<lparr>p_state := RUNNABLE\<rparr>) s))
                  else yield C_send (set_proc c (\<lambda>p. p\<lparr>p_state := IPC_SEND_WAIT\<rparr>) s)))"

definition sys_ipc_recv :: "kstate \<Rightarrow> nat \<Rightarrow> kstate kres" where
  "sys_ipc_recv s c =
     (if p_has_pending (proc_at s c) then ret (take_message c s)
      else yield C_recv (set_proc c (\<lambda>p. p\<lparr>p_state := IPC_RECV_WAIT\<rparr>) s))"

definition sys_ipc_reply :: "kstate \<Rightarrow> nat \<Rightarrow> trap_regs \<Rightarrow> kstate kres" where
  "sys_ipc_reply s c f = (case p_blocked_sender (proc_at s c) of
       None \<Rightarrow> ret s
     | Some sender \<Rightarrow>
        let s = set_proc sender (\<lambda>p. p\<lparr>p_pending_response :=
              \<lparr>ir_error = a0 f, ir_value0 = a1 f, ir_value1 = a2 f, ir_value2 = a4 f\<rparr>\<rparr>) s;
            s = (if recv_comm_data (im_method_and_flags (p_pending_message (proc_at s c)))
                 then copy_comm sender c s else s);
            s = set_proc c (\<lambda>p. p\<lparr>p_blocked_sender := None\<rparr>) s;
            s = activate_next c s;
            s = set_proc sender (\<lambda>p. p\<lparr>p_state := RUNNABLE\<rparr>) s
        in ret (process_switch_to sender C_user s))"

section \<open>The other system calls\<close>

definition ok_a0 :: "nat \<Rightarrow> 32 word \<Rightarrow> kstate \<Rightarrow> kstate kres" where
  "ok_a0 c v s = ret (set_regs c (\<lambda>f. f\<lparr>a0 := v\<rparr>) s)"

definition comm_reader :: "kstate \<Rightarrow> mpack_reader" where
  "comm_reader s = mr_new (load_bytes (process_get_comm_page s) page_size (k_mem s))"

definition view_equals :: "nat \<times> byte list \<Rightarrow> string \<Rightarrow> bool kres" where
  "view_equals v s =
     (if fst v \<noteq> length s then ret False
      else if take (length (snd v)) (bytes_of s) \<noteq> snd v then ret False
      else if length (snd v) < fst v then fault else ret True)"

text \<open>\<open>MsgString::deserialize\<close>: the status and the text; the view is empty until it is read.\<close>

definition msg_string_deserialize :: "mpack_reader \<Rightarrow> (nat \<times> (nat \<times> byte list)) kres" where
  "msg_string_deserialize r = kr_bind (of_run (enter_array r)) (\<lambda>(r, count).
     case count of None \<Rightarrow> ret (4, (0, []))
     | Some n \<Rightarrow>
        if n \<noteq> 2 then ret (5, (0, []))
        else kr_bind (of_run (read_string r)) (\<lambda>(r, ty).
          case ty of None \<Rightarrow> ret (2, (0, []))
          | Some v \<Rightarrow> kr_bind (view_equals v ''string'') (\<lambda>b.
              if \<not> b then ret (2, (0, []))
              else kr_bind (of_run (read_string r)) (\<lambda>(r, sv).
                case sv of None \<Rightarrow> ret (3, (0, []))
                | Some x \<Rightarrow> ret (if mr_error r then 3 else 0, x)))))"

definition view_chars :: "nat \<times> byte list \<Rightarrow> byte list kres" where
  "view_chars v = (if length (snd v) < fst v then fault else ret (snd v))"

definition sys_io_puts :: "kstate \<Rightarrow> nat \<Rightarrow> kstate kres" where
  "sys_io_puts s c =
     (if process_get_comm_page s = 0 then ok_a0 c 0 s
      else kr_bind (msg_string_deserialize (comm_reader s)) (\<lambda>(e, v).
        kr_bind (view_chars v) (\<lambda>bs.
          ret ((if e \<noteq> 0 then set_regs c (\<lambda>f. f\<lparr>a0 := 0\<rparr>) s else s)\<lparr>k_out := k_out s @ map ucast bs\<rparr>))))"

definition sys_proc_lookup :: "kstate \<Rightarrow> nat \<Rightarrow> kstate kres" where
  "sys_proc_lookup s c =
     (if process_get_comm_page s = 0 then ret s
      else kr_bind (of_run (read_string (comm_reader s))) (\<lambda>(r, v).
        kr_bind (view_chars (case v of None \<Rightarrow> (0, []) | Some x \<Rightarrow> x)) (\<lambda>bs.
          kr_bind (process_lookup s (map (\<lambda>b. char_of (unat b)) bs)) (\<lambda>pid. ok_a0 c (of_nat pid) s))))"

text \<open>The arguments of a spawn, up to 32, each cut to 127 characters.\<close>

fun spawn_args :: "nat \<Rightarrow> mpack_reader \<Rightarrow> (nat \<times> byte list) list kres" where
  "spawn_args 0 r = ret []"
| "spawn_args (Suc n) r = kr_bind (of_run (read_string r)) (\<lambda>(r, v).
     case v of None \<Rightarrow> ret [] | Some x \<Rightarrow> kr_bind (spawn_args n r) (\<lambda>xs. ret (x # xs)))"

definition clip_view :: "nat \<Rightarrow> nat \<times> byte list \<Rightarrow> string kres" where
  "clip_view n v =
     (if length (snd v) < min n (fst v) then fault
      else ret (cstr (map (\<lambda>b. char_of (unat b)) (take (min n (fst v)) (snd v)))))"

fun clip_views :: "(nat \<times> byte list) list \<Rightarrow> string list kres" where
  "clip_views [] = ret []"
| "clip_views (v # vs) = kr_bind (clip_view 127 v) (\<lambda>s. kr_bind (clip_views vs) (\<lambda>ss. ret (s # ss)))"

definition spawn_fail :: "nat \<Rightarrow> kstate \<Rightarrow> kstate kres" where
  "spawn_fail c s = ok_a0 c (of_nat pid_none) s"

definition sys_proc_spawn :: "kstate \<Rightarrow> nat \<Rightarrow> kstate kres" where
  "sys_proc_spawn s c =
     (if process_get_comm_page s = 0 then spawn_fail c s
      else kr_bind (of_run (enter_map (comm_reader s))) (\<lambda>(r, n).
        case n of None \<Rightarrow> spawn_fail c s
        | Some count \<Rightarrow> if count < 2 then spawn_fail c s else
          kr_bind (of_run (read_string r)) (\<lambda>(r, k1).
          case k1 of None \<Rightarrow> spawn_fail c s
          | Some key1 \<Rightarrow> kr_bind (view_equals key1 ''name'') (\<lambda>b1. if \<not> b1 then spawn_fail c s else
          kr_bind (of_run (read_string r)) (\<lambda>(r, nm).
          case nm of None \<Rightarrow> spawn_fail c s
          | Some name \<Rightarrow> kr_bind (clip_view 63 name) (\<lambda>name.
          kr_bind (of_run (read_string r)) (\<lambda>(r, k2).
          case k2 of None \<Rightarrow> spawn_fail c s
          | Some key2 \<Rightarrow> kr_bind (view_equals key2 ''args'') (\<lambda>b2. if \<not> b2 then spawn_fail c s else
          kr_bind (of_run (enter_array r)) (\<lambda>(r, ac).
          case ac of None \<Rightarrow> spawn_fail c s
          | Some array_count \<Rightarrow> kr_bind (spawn_args (min array_count 32) r) (\<lambda>views.
              kr_bind (clip_views views) (\<lambda>argv.
              kr_bind (kernel_spawn_process s name argv) (\<lambda>(s, pid). ok_a0 c (of_nat pid) s))))))))))))"

definition sys_get_sys_page :: "kstate \<Rightarrow> nat \<Rightarrow> 32 word \<Rightarrow> kstate kres" where
  "sys_get_sys_page s c which =
     ok_a0 c (of_nat (if which = 0 then process_get_arg_page s
       else if which = 1 then process_get_comm_page s
       else if which = 2 then process_get_storage_page s else 0)) s"

definition sys_exit :: "kstate \<Rightarrow> kstate kres" where
  "sys_exit s = (case current_proc s of None \<Rightarrow> ret s
     | Some c \<Rightarrow> yield C_user (set_proc c (\<lambda>p. p\<lparr>p_state := TERMINATED\<rparr>) s))"

definition handle_syscall :: "kstate \<Rightarrow> trap_regs \<Rightarrow> kstate kres" where
  "handle_syscall s0 f =
     (let c = get_current s0; s = set_regs c (\<lambda>_. f\<lparr>a0 := 0\<rparr>) s0; n = unat (a3 f) in
      if n = 2 then ok_a0 c 1 (s\<lparr>k_out := k_out s @ [a0 f AND 0xff]\<rparr>)
      else if n = 1 then yield C_user s
      else if n = 4 then sys_exit s
      else if n = 3 then (case k_in s of [] \<Rightarrow> ok_a0 c (- 1) s | x # xs \<Rightarrow> ok_a0 c x (s\<lparr>k_in := xs\<rparr>))
      else if n = 5 then
        kr_bind (process_alloc_mapped_pages s c (if a0 f > 0 then unat (a0 f) else 1)) (\<lambda>(s, a). ok_a0 c (of_nat a) s)
      else if n = 6 then sys_get_sys_page s c (a0 f)
      else if n = 7 then sys_io_puts s c
      else if n = 8 then sys_proc_lookup s c
      else if n = 9 then sys_ipc_send s c f
      else if n = 10 then sys_ipc_recv s c
      else if n = 11 then sys_ipc_reply s c f
      else if n = 12 then ret (shutdown_all_processes s)
      else if n = 13 then
        kr_bind (known_memory_lock (k_mem s) (sint (a0 f)) (unat (a1 f)) (int (p_pidx (proc_at s c)))) (\<lambda>(m, a).
          ok_a0 c (of_nat a) (set_mem m s))
      else if n = 14 then ok_a0 c (if process_lookup_by_pid s (unat (a0 f)) \<noteq> None then 1 else 0) s
      else if n = 15 then sys_proc_spawn s c
      else panic)"

text \<open>A process that traps for another reason in user mode is stopped.\<close>

definition handle_crash :: "kstate \<Rightarrow> kstate kres" where
  "handle_crash s = (case current_proc s of None \<Rightarrow> panic
     | Some c \<Rightarrow> yield C_user (set_proc c (\<lambda>p. p\<lparr>p_state := TERMINATED\<rparr>) s))"

section \<open>Starting\<close>

definition kernel_common :: "kstate \<Rightarrow> kstate kres" where
  "kernel_common s = kr_bind (process_create s ''idle'' Entry_null None True) (\<lambda>(s, i).
     ret (set_proc i (\<lambda>p. p\<lparr>p_cont := C_idle\<rparr>) (s\<lparr>idle_proc := Some i, current_proc := Some i\<rparr>)))"

text \<open>The processes the default kernel program creates; which ones is a matter of configuration.\<close>

fun create_all :: "(string \<times> entry_point \<times> string list option) list \<Rightarrow> kstate \<Rightarrow> kstate kres" where
  "create_all [] s = ret s"
| "create_all ((name, entry, args) # ps) s =
     kr_bind (process_create s name entry args False) (\<lambda>(s, _). create_all ps s)"

definition kernel_prog_default :: "bool \<Rightarrow> bool \<Rightarrow> bool \<Rightarrow> string option \<Rightarrow> kstate \<Rightarrow> kstate kres" where
  "kernel_prog_default graphics filesystem keyboard shell = create_all
     ((if graphics then [(''graphics'', Proc_graphics, None)] else []) @
      (if filesystem then [(''filesystem'', Proc_filesystem, None)] else []) @
      (if keyboard then [(''keyboard'', Proc_keyboard, None)] else []) @
      (case shell of None \<Rightarrow> [] | Some name \<Rightarrow> [(name, User_program_main, Some [name])]))"

definition kernel_start :: "bool \<Rightarrow> bool \<Rightarrow> bool \<Rightarrow> string option \<Rightarrow> kstate \<Rightarrow> kstate kres" where
  "kernel_start graphics filesystem keyboard shell s =
     kr_bind (kernel_common s) (\<lambda>s. kr_bind (kernel_prog_default graphics filesystem keyboard shell s) (yield C_idle))"

end
