(* ===== verification/KernelInv.thy ===== *)
theory KernelInv
  imports KernelIpc
begin

text \<open>
  The invariant of the kernel: the process table, the locks and queues of the messages, and
  the pages of the processes. Every system call and every crash keeps it, so it holds in
  every state the kernel reaches.
\<close>

section \<open>Results\<close>

lemma kr_bind_ret [simp]: "kr_bind (ret x) f = f x"
  by (simp add: ret_def)

lemma kr_bind_Ret: "kr_bind r f = Some (Ret y) \<longleftrightarrow> (\<exists>x. r = Some (Ret x) \<and> f x = Some (Ret y))"
  by (cases "(r, f)" rule: kr_bind.cases) auto

lemma ret_Ret [simp]: "ret x = Some (Ret y) \<longleftrightarrow> x = y"
  by (simp add: ret_def)

lemma panic_fault_Ret [simp]: "panic \<noteq> Some (Ret y)" "fault \<noteq> Some (Ret y)"
  by (simp_all add: panic_def fault_def)

section \<open>Access to the table\<close>

lemma proc_at_set [simp]:
  "proc_at (set_proc i f s) j = (if i = j \<and> j < length (procs s) then f (proc_at s j) else proc_at s j)"
  by (cases "i = j"; cases "j < length (procs s)") (simp_all add: proc_at_def set_proc_def list_update_beyond)

lemma set_proc_simps [simp]:
  "length (procs (set_proc i f s)) = length (procs s)"
  "current_proc (set_proc i f s) = current_proc s" "idle_proc (set_proc i f s) = idle_proc s"
  "proc_pid_counter (set_proc i f s) = proc_pid_counter s" "process_pids (set_proc i f s) = process_pids s"
  "k_mem (set_proc i f s) = k_mem s" "k_exited (set_proc i f s) = k_exited s"
  by (simp_all add: set_proc_def)

lemma set_mem_simps [simp]:
  "procs (set_mem m s) = procs s" "proc_at (set_mem m s) j = proc_at s j"
  "current_proc (set_mem m s) = current_proc s" "idle_proc (set_mem m s) = idle_proc s"
  "proc_pid_counter (set_mem m s) = proc_pid_counter s" "process_pids (set_mem m s) = process_pids s"
  "k_mem (set_mem m s) = m" "k_exited (set_mem m s) = k_exited s"
  by (simp_all add: set_mem_def proc_at_def)

lemma proc_at_update [simp]:
  "proc_at (s\<lparr>current_proc := x\<rparr>) j = proc_at s j" "proc_at (s\<lparr>idle_proc := x\<rparr>) j = proc_at s j"
  "proc_at (s\<lparr>k_out := o'\<rparr>) j = proc_at s j" "proc_at (s\<lparr>k_in := l\<rparr>) j = proc_at s j"
  "proc_at (s\<lparr>k_exited := b\<rparr>) j = proc_at s j" "proc_at (s\<lparr>proc_pid_counter := n\<rparr>) j = proc_at s j"
  "proc_at (s\<lparr>process_pids := l'\<rparr>) j = proc_at s j"
  by (simp_all add: proc_at_def)

section \<open>The invariant\<close>

definition used :: "kstate \<Rightarrow> nat \<Rightarrow> bool" where
  "used s i \<longleftrightarrow> p_state (proc_at s i) \<noteq> UNUSED"

definition identity_ok :: "kstate \<Rightarrow> bool" where
  "identity_ok s \<longleftrightarrow> length (procs s) = procs_max \<and> length (process_pids s) = procs_max \<and>
     proc_pid_counter s = Suc (card {i. i < procs_max \<and> used s i}) \<and>
     (\<forall>i<procs_max. used s i \<longrightarrow> p_pidx (proc_at s i) = i \<and> process_pids s ! i = p_pid (proc_at s i) \<and>
        0 < p_pid (proc_at s i) \<and> p_pid (proc_at s i) < proc_pid_counter s) \<and>
     (\<forall>i<procs_max. \<forall>j<procs_max. used s i \<and> used s j \<and> p_pid (proc_at s i) = p_pid (proc_at s j) \<longrightarrow> i = j)"

text \<open>
  The holder of a lock and the queued senders are processes, the messages carry their pids,
  and nobody waits for a lock that is free.
\<close>

definition names_sender :: "kstate \<Rightarrow> nat \<Rightarrow> ipc_message \<Rightarrow> bool" where
  "names_sender s b m \<longleftrightarrow> b < procs_max \<and> used s b \<and> im_sender_pid m = p_pid (proc_at s b)"

definition lock_ok :: "kstate \<Rightarrow> nat \<Rightarrow> bool" where
  "lock_ok s i \<longleftrightarrow> (let p = proc_at s i in
     (\<forall>b. p_blocked_sender p = Some b \<longrightarrow> names_sender s b (p_pending_message p)) \<and>
     (\<forall>q\<in>set (p_queue p). names_sender s (q_sender q) (q_message q)) \<and>
     (p_queue p \<noteq> [] \<longrightarrow> p_blocked_sender p \<noteq> None) \<and> length (p_queue p) \<le> procs_max \<and>
     (p_state p = UNUSED \<longrightarrow> p_blocked_sender p = None))"

definition locks_ok :: "kstate \<Rightarrow> bool" where
  "locks_ok s \<longleftrightarrow> (\<forall>i<procs_max. lock_ok s i)"

definition owns :: "memory \<Rightarrow> nat \<Rightarrow> nat \<Rightarrow> bool" where
  "owns m i a \<longleftrightarrow> (\<exists>k<length (m_infos m). pg_addr (m_infos m ! k) = a \<and> pg_pidx (m_infos m ! k) = int i)"

definition pages_ok :: "kstate \<Rightarrow> bool" where
  "pages_ok s \<longleftrightarrow> pool_inv (k_mem s) \<and>
     (\<forall>i<procs_max. 0 < i \<and> used s i \<longrightarrow>
        owns (k_mem s) i (p_comm_page (proc_at s i)) \<and> owns (k_mem s) i (p_storage_page (proc_at s i)) \<and>
        owns (k_mem s) i (p_user_stack (proc_at s i)) \<and>
        (p_arg_page (proc_at s i) \<noteq> 0 \<longrightarrow> owns (k_mem s) i (p_arg_page (proc_at s i))))"

text \<open>The current process is not the idle one, which is only resumed to end the kernel.\<close>

definition conts_ok :: "kstate \<Rightarrow> bool" where
  "conts_ok s \<longleftrightarrow> idle_proc s = Some 0 \<and> used s 0 \<and> p_cont (proc_at s 0) = C_idle \<and>
     (\<forall>i<procs_max. 0 < i \<longrightarrow> p_cont (proc_at s i) \<noteq> C_idle) \<and>
     (\<exists>c. current_proc s = Some c \<and> 0 < c \<and> c < procs_max)"

definition current_ok :: "kstate \<Rightarrow> bool" where
  "current_ok s \<longleftrightarrow> conts_ok s \<and> p_state (proc_at s (get_current s)) = RUNNABLE"

definition table_ok :: "kstate \<Rightarrow> bool" where
  "table_ok s \<longleftrightarrow> identity_ok s \<and> locks_ok s \<and> pages_ok s"

definition kernel_inv :: "kstate \<Rightarrow> bool" where
  "kernel_inv s \<longleftrightarrow> k_exited s \<or> (table_ok s \<and> current_ok s)"

section \<open>What the invariant looks at\<close>

text \<open>Registers, responses, the place to go on and the kind of waiting do not matter to \<open>table_ok\<close>.\<close>

definition same_core :: "proc \<Rightarrow> proc \<Rightarrow> bool" where
  "same_core p q \<longleftrightarrow> p_pidx q = p_pidx p \<and> p_pid q = p_pid p \<and> (p_state q = UNUSED \<longleftrightarrow> p_state p = UNUSED) \<and>
     p_arg_page q = p_arg_page p \<and> p_comm_page q = p_comm_page p \<and> p_user_stack q = p_user_stack p \<and>
     p_storage_page q = p_storage_page p \<and> p_pending_message q = p_pending_message p \<and>
     p_blocked_sender q = p_blocked_sender p \<and> p_queue q = p_queue p"

lemma same_core_refl [simp]: "same_core p p"
  by (simp add: same_core_def)

definition core_step :: "kstate \<Rightarrow> kstate \<Rightarrow> bool" where
  "core_step s s' \<longleftrightarrow> length (procs s') = length (procs s) \<and> process_pids s' = process_pids s \<and>
     proc_pid_counter s' = proc_pid_counter s \<and> k_mem s' = k_mem s \<and>
     (\<forall>i. same_core (proc_at s i) (proc_at s' i))"

lemma core_step_refl [simp]: "core_step s s"
  by (simp add: core_step_def)

lemma core_step_trans: "core_step s s' \<Longrightarrow> core_step s' s'' \<Longrightarrow> core_step s s''"
  by (simp add: core_step_def same_core_def)

lemma core_step_table:
  assumes "core_step s s'"
  shows "table_ok s' \<longleftrightarrow> table_ok s"
proof -
  have u: "used s' i \<longleftrightarrow> used s i" for i
    using assms by (simp add: core_step_def used_def same_core_def)
  show ?thesis
    using assms unfolding table_ok_def identity_ok_def locks_ok_def lock_ok_def pages_ok_def names_sender_def u Let_def
    by (simp add: core_step_def same_core_def)
qed

lemma core_step_set:
  "(\<And>p. same_core p (f p)) \<Longrightarrow> core_step s (set_proc i f s)"
  by (simp add: core_step_def)

lemma core_set_regs [simp]: "core_step s (set_regs i f s)"
  unfolding set_regs_def by (rule core_step_set) (simp add: same_core_def)

lemma core_resume: "core_step s (resume c s)"
proof -
  have 1: "core_step s (set_proc c (\<lambda>p. p\<lparr>p_cont := C_user\<rparr>) s)" for s
    by (rule core_step_set) (simp add: same_core_def)
  have 2: "core_step s (set_proc c (\<lambda>p. p\<lparr>p_has_pending := False\<rparr>) s)" for s
    by (rule core_step_set) (simp add: same_core_def)
  have 3: "core_step s (take_message c s)" for s
    unfolding take_message_def Let_def by (rule core_step_trans [OF core_set_regs 2])
  have 4: "core_step s (s\<lparr>k_exited := True\<rparr>)" by (simp add: core_step_def)
  show ?thesis
    unfolding resume_def Let_def
    by (cases "p_cont (proc_at s c)") (simp_all add: 1 4 core_step_trans [OF 1 3] core_step_trans [OF 1] read_response_def)
qed

lemma core_switch: "core_step s (process_switch_to t k s)"
proof -
  have 1: "core_step s (set_proc (get_current s) (\<lambda>p. p\<lparr>p_cont := k\<rparr>) s)"
    by (rule core_step_set) (simp add: same_core_def)
  have 2: "core_step s (s\<lparr>current_proc := Some t\<rparr>)" for s by (simp add: core_step_def)
  show ?thesis unfolding process_switch_to_def by (rule core_step_trans [OF core_step_trans [OF 1 2] core_resume])
qed

lemma core_yield:
  assumes "yield k s = Some (Ret s')"
  shows "core_step s s'"
proof -
  have 1: "core_step s (set_proc c (\<lambda>p. p\<lparr>p_cont := k\<rparr>) s)" for c s
    by (rule core_step_set) (simp add: same_core_def)
  show ?thesis using assms core_switch [of s _ k] core_step_trans [OF 1 core_resume]
    by (auto simp: yield_def Let_def split: option.splits if_splits)
qed

section \<open>Switching keeps a runnable process current\<close>

lemma proc_at_resume:
  "p_state (proc_at (resume c s) i) = p_state (proc_at s i)"
  "i \<noteq> c \<Longrightarrow> proc_at (resume c s) i = proc_at s i"
  "c < length (procs s) \<Longrightarrow> p_cont (proc_at s c) \<noteq> C_idle \<Longrightarrow> p_cont (proc_at (resume c s) c) = C_user"
  by (cases "p_cont (proc_at s c)"; simp add: resume_def Let_def read_response_def take_message_def set_regs_def)+

lemma resume_simps [simp]:
  "current_proc (resume c s) = current_proc s" "idle_proc (resume c s) = idle_proc s"
  by (cases "p_cont (proc_at s c)"; simp add: resume_def Let_def read_response_def take_message_def set_regs_def)+

lemma resume_idle: "p_cont (proc_at s c) = C_idle \<Longrightarrow> k_exited (resume c s)"
  by (simp add: resume_def)

lemma get_current_Some [simp]: "current_proc s = Some c \<Longrightarrow> get_current s = c"
  by (simp add: get_current_def)

lemma conts_ok_resume:
  assumes "conts_ok s" and "length (procs s) = procs_max" and "0 < c" and "c < procs_max"
  shows "conts_ok (resume c s)"
proof -
  have nc: "p_cont (proc_at s c) \<noteq> C_idle" using assms by (simp add: conts_ok_def)
  have c: "p_cont (proc_at (resume c s) i) = (if i = c then C_user else p_cont (proc_at s i))" for i
    using proc_at_resume(2) [of i c s] proc_at_resume(3) [of c s] nc assms(2,4) by simp
  show ?thesis using assms unfolding conts_ok_def used_def c proc_at_resume(1) by auto
qed

lemma conts_ok_leave:
  assumes "conts_ok s" and "length (procs s) = procs_max" and "k \<noteq> C_idle" and "current_proc s = Some c"
  shows "conts_ok (set_proc c (\<lambda>p. p\<lparr>p_cont := k\<rparr>) s)"
  using assms by (auto simp: conts_ok_def used_def)

lemma conts_ok_current: "conts_ok s \<Longrightarrow> 0 < t \<Longrightarrow> t < procs_max \<Longrightarrow> conts_ok (s\<lparr>current_proc := Some t\<rparr>)"
  by (simp add: conts_ok_def used_def)

lemma switch_current:
  assumes "conts_ok s" and "length (procs s) = procs_max" and "k \<noteq> C_idle"
    and "t < procs_max" and "p_state (proc_at s t) = RUNNABLE" and "t \<noteq> 0"
  shows "current_ok (process_switch_to t k s)"
proof -
  obtain c where c: "current_proc s = Some c" using assms(1) by (auto simp: conts_ok_def)
  define s1 where "s1 = (set_proc c (\<lambda>p. p\<lparr>p_cont := k\<rparr>) s)\<lparr>current_proc := Some t\<rparr>"
  have s1: "process_switch_to t k s = resume t s1" using c by (simp add: process_switch_to_def s1_def)
  have "conts_ok s1" unfolding s1_def
    by (rule conts_ok_current [OF conts_ok_leave [OF assms(1,2,3) c]]) (use assms in simp_all)
  then have "conts_ok (resume t s1)" using assms by (intro conts_ok_resume) (simp_all add: s1_def)
  moreover have "p_state (proc_at s1 t) = RUNNABLE" using assms(5) by (simp add: s1_def)
  ultimately show ?thesis using s1 by (simp add: current_ok_def proc_at_resume s1_def)
qed

lemma switch_idle:
  assumes "conts_ok s"
  shows "k_exited (process_switch_to 0 k s)"
proof -
  obtain c where "current_proc s = Some c" "0 < c" using assms by (auto simp: conts_ok_def)
  then show ?thesis using assms unfolding process_switch_to_def
    by (intro resume_idle) (simp add: conts_ok_def)
qed

lemma runnable_from_Some:
  "runnable_from s c i n = Some j \<Longrightarrow> j < procs_max \<and> p_state (proc_at s j) = RUNNABLE \<and> p_pidx (proc_at s j) > 0 \<and>
    (\<exists>k. i \<le> k \<and> k < i + n \<and> j = (c + k + 1) mod procs_max \<and>
      (\<forall>l. i \<le> l \<and> l < k \<longrightarrow> \<not> (p_state (proc_at s ((c + l + 1) mod procs_max)) = RUNNABLE \<and>
        p_pidx (proc_at s ((c + l + 1) mod procs_max)) > 0)))"
proof (induction s c i n rule: runnable_from.induct)
  case (2 s c i n)
  let ?j = "(c + i + 1) mod procs_max"
  show ?case
  proof (cases "p_state (proc_at s ?j) = RUNNABLE \<and> p_pidx (proc_at s ?j) > 0")
    case True
    then have "j = ?j" using 2(2) by (simp add: Let_def)
    moreover have "?j < procs_max" by (simp add: procs_max_def)
    ultimately show ?thesis using True by (intro conjI exI [of _ i]) auto
  next
    case False
    then have r: "runnable_from s c (i + 1) n = Some j" using 2(2) by (auto simp: Let_def)
    from "2.IH" [OF refl refl False this] obtain k where
      k: "j < procs_max \<and> p_state (proc_at s j) = RUNNABLE \<and> p_pidx (proc_at s j) > 0" "i + 1 \<le> k" "k < i + 1 + n"
        "j = (c + k + 1) mod procs_max"
        "\<forall>l. i + 1 \<le> l \<and> l < k \<longrightarrow> \<not> (p_state (proc_at s ((c + l + 1) mod procs_max)) = RUNNABLE \<and>
          p_pidx (proc_at s ((c + l + 1) mod procs_max)) > 0)" by blast
    have "\<not> (p_state (proc_at s ((c + l + 1) mod procs_max)) = RUNNABLE \<and> p_pidx (proc_at s ((c + l + 1) mod procs_max)) > 0)"
      if "i \<le> l \<and> l < k" for l
      using that k(5) False by (cases "l = i") auto
    with k(1-4) show ?thesis by (intro conjI exI [of _ k]) auto
  qed
qed simp

lemma all_from: "(\<forall>k. i \<le> k \<and> k < i + Suc n \<longrightarrow> P k) \<longleftrightarrow> P i \<and> (\<forall>k. i + 1 \<le> k \<and> k < i + 1 + n \<longrightarrow> P k)"
proof -
  have "i \<le> k \<and> k < i + Suc n \<longleftrightarrow> k = i \<or> i + 1 \<le> k \<and> k < i + 1 + n" for k by linarith
  then show ?thesis by (metis le_refl)
qed

lemma runnable_from_None:
  "runnable_from s c i n = None \<longleftrightarrow> (\<forall>k. i \<le> k \<and> k < i + n \<longrightarrow>
    \<not> (p_state (proc_at s ((c + k + 1) mod procs_max)) = RUNNABLE \<and> p_pidx (proc_at s ((c + k + 1) mod procs_max)) > 0))"
proof (induction s c i n rule: runnable_from.induct)
  case (2 s c i n)
  let ?P = "\<lambda>k. \<not> (p_state (proc_at s ((c + k + 1) mod procs_max)) = RUNNABLE \<and> p_pidx (proc_at s ((c + k + 1) mod procs_max)) > 0)"
  show ?case
  proof (cases "?P i")
    case True
    then have "runnable_from s c i (Suc n) = runnable_from s c (i + 1) n" by (auto simp: Let_def)
    with "2.IH" [OF refl refl True] True show ?thesis unfolding all_from [of i n ?P] by (simp only: simp_thms)
  next
    case False
    then have "runnable_from s c i (Suc n) \<noteq> None" by (simp add: Let_def)
    with False show ?thesis unfolding all_from [of i n ?P] by blast
  qed
qed auto

lemma next_runnable:
  assumes "identity_ok s"
  shows "process_next_runnable s c idle = idle \<or>
    (let j = process_next_runnable s c idle in j \<noteq> 0 \<and> j < procs_max \<and> p_state (proc_at s j) = RUNNABLE)"
proof (cases "runnable_from s (p_pidx (proc_at s c)) 0 procs_max")
  case None
  then show ?thesis by (simp add: process_next_runnable_def)
next
  case (Some j)
  from runnable_from_Some [OF this] have j: "j < procs_max" "p_state (proc_at s j) = RUNNABLE" "p_pidx (proc_at s j) > 0" by auto
  then have "p_pidx (proc_at s j) = j" using assms by (simp add: identity_ok_def used_def)
  with j Some show ?thesis by (simp add: process_next_runnable_def)
qed

lemma yield_ok:
  assumes t: "table_ok s" and c: "conts_ok s" and k: "k \<noteq> C_idle" and y: "yield k s = Some (Ret s')"
  shows "kernel_inv s'"
proof -
  have t': "table_ok s'" using t core_yield [OF y] core_step_table by blast
  have id: "identity_ok s" using t by (simp add: table_ok_def)
  then have len: "length (procs s) = procs_max" by (simp add: identity_ok_def)
  obtain c' where c': "current_proc s = Some c'" "idle_proc s = Some 0" "0 < c'" "c' < procs_max"
    using c by (auto simp: conts_ok_def)
  let ?n = "process_next_runnable s c' 0"
  note n = next_runnable [OF id, of c' 0]
  show ?thesis
  proof (cases "?n = 0")
    case True
    then have "s' = process_switch_to 0 k s" using y c' by (simp add: yield_def Let_def)
    with switch_idle [OF c, of k] show ?thesis by (simp add: kernel_inv_def)
  next
    case False
    with n have j: "?n < procs_max" "p_state (proc_at s ?n) = RUNNABLE" by (auto simp: Let_def)
    show ?thesis
    proof (cases "?n = c'")
      case True
      let ?s1 = "set_proc c' (\<lambda>p. p\<lparr>p_cont := k\<rparr>) s"
      have s': "s' = resume c' ?s1" using y c' True by (simp add: yield_def Let_def)
      have "conts_ok s'" unfolding s'
        by (rule conts_ok_resume [OF conts_ok_leave [OF c len k c'(1)]]) (use len c' in simp_all)
      moreover have "p_state (proc_at s' c') = RUNNABLE" using j True s' by (simp add: proc_at_resume)
      ultimately show ?thesis using t' s' c' by (simp add: kernel_inv_def current_ok_def)
    next
      case False
      then have "s' = process_switch_to ?n k s" using y c' by (simp add: yield_def Let_def)
      with switch_current [OF c len k j] \<open>?n \<noteq> 0\<close> t' show ?thesis by (simp add: kernel_inv_def)
    qed
  qed
qed

section \<open>Updates of one process\<close>

definition same_ident :: "proc \<Rightarrow> proc \<Rightarrow> bool" where
  "same_ident p q \<longleftrightarrow> p_pidx q = p_pidx p \<and> p_pid q = p_pid p \<and> (p_state q = UNUSED \<longleftrightarrow> p_state p = UNUSED) \<and>
     p_arg_page q = p_arg_page p \<and> p_comm_page q = p_comm_page p \<and> p_user_stack q = p_user_stack p \<and>
     p_storage_page q = p_storage_page p"

text \<open>The part of \<open>lock_ok\<close> that speaks of one process, given the others.\<close>

definition lock_of :: "kstate \<Rightarrow> proc \<Rightarrow> bool" where
  "lock_of s p \<longleftrightarrow>
     (\<forall>b. p_blocked_sender p = Some b \<longrightarrow> names_sender s b (p_pending_message p)) \<and>
     (\<forall>q\<in>set (p_queue p). names_sender s (q_sender q) (q_message q)) \<and>
     (p_queue p \<noteq> [] \<longrightarrow> p_blocked_sender p \<noteq> None) \<and> length (p_queue p) \<le> procs_max \<and>
     (p_state p = UNUSED \<longrightarrow> p_blocked_sender p = None)"

lemma lock_ok_of: "lock_ok s i \<longleftrightarrow> lock_of s (proc_at s i)"
  by (simp add: lock_ok_def lock_of_def Let_def)

lemma used_set: "same_ident (proc_at s t) (f (proc_at s t)) \<Longrightarrow> used (set_proc t f s) i \<longleftrightarrow> used s i"
  by (auto simp: used_def same_ident_def)

lemma names_sender_set:
  "same_ident (proc_at s t) (f (proc_at s t)) \<Longrightarrow> names_sender (set_proc t f s) b m \<longleftrightarrow> names_sender s b m"
  by (auto simp: names_sender_def used_set same_ident_def)

lemma table_update:
  assumes t: "table_ok s" and f: "same_ident (proc_at s t) (f (proc_at s t))"
    and l: "t < procs_max \<Longrightarrow> lock_of s (f (proc_at s t))"
  shows "table_ok (set_proc t f s)"
proof -
  note u = used_set [of s t f, OF f] and n = names_sender_set [of s t f, OF f]
  have len: "length (procs s) = procs_max" using t by (simp add: table_ok_def identity_ok_def)
  have id: "p_pidx (proc_at (set_proc t f s) i) = p_pidx (proc_at s i)" "p_pid (proc_at (set_proc t f s) i) = p_pid (proc_at s i)"
    "p_comm_page (proc_at (set_proc t f s) i) = p_comm_page (proc_at s i)"
    "p_storage_page (proc_at (set_proc t f s) i) = p_storage_page (proc_at s i)"
    "p_user_stack (proc_at (set_proc t f s) i) = p_user_stack (proc_at s i)"
    "p_arg_page (proc_at (set_proc t f s) i) = p_arg_page (proc_at s i)" for i
    using f by (auto simp: same_ident_def)
  have "identity_ok (set_proc t f s) = identity_ok s" "pages_ok (set_proc t f s) = pages_ok s"
    unfolding identity_ok_def pages_ok_def u id by simp_all
  then have "identity_ok (set_proc t f s)" "pages_ok (set_proc t f s)" using t by (simp_all add: table_ok_def)
  moreover have "lock_ok (set_proc t f s) i" if "i < procs_max" for i
  proof -
    have "lock_of s (proc_at (set_proc t f s) i)"
      using that t l len by (auto simp: table_ok_def locks_ok_def lock_ok_of)
    then show ?thesis unfolding lock_ok_of lock_of_def n .
  qed
  ultimately show ?thesis by (simp add: table_ok_def locks_ok_def)
qed

lemma table_locks: "table_ok s \<Longrightarrow> i < procs_max \<Longrightarrow> lock_of s (proc_at s i)"
  by (simp add: table_ok_def locks_ok_def lock_ok_of)

lemma table_len: "table_ok s \<Longrightarrow> length (procs s) = procs_max"
  by (simp add: table_ok_def identity_ok_def)

text \<open>Changes that leave the locks alone.\<close>

lemma table_update_core:
  assumes "table_ok s" and "\<And>p. same_core p (f p)"
  shows "table_ok (set_proc t f s)"
  using core_step_table [OF core_step_set [of f s t]] assms by blast

lemma table_state:
  assumes "table_ok s" and "used s t" and "st \<noteq> UNUSED"
  shows "table_ok (set_proc t (\<lambda>p. p\<lparr>p_state := st\<rparr>) s)"
proof (rule table_update [OF assms(1)])
  show "same_ident (proc_at s t) ((proc_at s t)\<lparr>p_state := st\<rparr>)"
    using assms(2,3) by (simp add: same_ident_def used_def)
  assume "t < procs_max"
  then show "lock_of s ((proc_at s t)\<lparr>p_state := st\<rparr>)"
    using table_locks [OF assms(1)] assms(3) by (simp add: lock_of_def)
qed

lemma conts_update:
  assumes "conts_ok s" and "\<And>p. p_cont (f p) = p_cont p" and "used (set_proc t f s) 0"
  shows "conts_ok (set_proc t f s)"
  using assms by (simp add: conts_ok_def)

lemma conts_state: "conts_ok s \<Longrightarrow> st \<noteq> UNUSED \<Longrightarrow> conts_ok (set_proc t (\<lambda>p. p\<lparr>p_state := st\<rparr>) s)"
  by (rule conts_update) (auto simp: conts_ok_def used_def)

section \<open>Changes of memory\<close>

lemma owns_kept:
  assumes "\<And>k. k < length (m_infos m) \<Longrightarrow> pg_pidx (m_infos m ! k) \<noteq> pidx_none \<Longrightarrow> page_kept m k m'" and "owns m i a" and "0 < i"
  shows "owns m' i a"
proof -
  obtain k where k: "k < length (m_infos m)" "pg_addr (m_infos m ! k) = a" "pg_pidx (m_infos m ! k) = int i"
    using assms(2) by (auto simp: owns_def)
  then have kept: "page_kept m k m'" using assms(1,3) by (simp add: pidx_none_def)
  then have ad: "map pg_addr (m_infos m') = map pg_addr (m_infos m)" by (simp add: page_kept_def)
  have "length (m_infos m') = length (m_infos m)" using ad by (rule map_eq_imp_length_eq)
  moreover have "pg_addr (m_infos m' ! k) = a" "pg_pidx (m_infos m' ! k) = int i"
    using k kept map_nth_eq [OF ad k(1)] by (simp_all add: page_kept_def)
  ultimately show ?thesis using k(1) by (auto simp: owns_def)
qed

lemma table_mem:
  assumes "table_ok s" and "pool_inv m" and "\<And>i a. 0 < i \<Longrightarrow> owns (k_mem s) i a \<Longrightarrow> owns m i a"
  shows "table_ok (set_mem m s)"
proof -
  have u: "used (set_mem m s) i \<longleftrightarrow> used s i" for i by (simp add: used_def)
  have "identity_ok (set_mem m s) = identity_ok s" "locks_ok (set_mem m s) = locks_ok s"
    unfolding identity_ok_def locks_ok_def lock_ok_def names_sender_def u by simp_all
  moreover have "pages_ok s" using assms(1) by (simp add: table_ok_def)
  then have "pages_ok (set_mem m s)" unfolding pages_ok_def u using assms(2,3) by simp
  ultimately show ?thesis using assms(1) by (simp add: table_ok_def)
qed

lemma pool_inv_ram [simp]: "pool_inv (m\<lparr>m_ram := r\<rparr>) \<longleftrightarrow> pool_inv m"
  by (simp add: pool_inv_def page_rep_def page_wf_def)

lemma owns_ram [simp]: "owns (m\<lparr>m_ram := r\<rparr>) i a \<longleftrightarrow> owns m i a"
  by (simp add: owns_def)

lemma table_ram:
  assumes "table_ok s"
  shows "table_ok (set_mem ((k_mem s)\<lparr>m_ram := r\<rparr>) s)"
  using assms by (intro table_mem) (simp_all add: table_ok_def pages_ok_def)

lemma conts_mem [simp]: "conts_ok (set_mem m s) \<longleftrightarrow> conts_ok s"
  by (simp add: conts_ok_def used_def)

lemma copy_comm_inv:
  assumes "table_ok s"
  shows "table_ok (copy_comm d e s)"
  using assms table_ram unfolding copy_comm_def copy_page_def Let_def by simp

lemma copy_comm_simps [simp]:
  "proc_at (copy_comm d e s) i = proc_at s i" "conts_ok (copy_comm d e s) \<longleftrightarrow> conts_ok s"
  "used (copy_comm d e s) i \<longleftrightarrow> used s i" "current_proc (copy_comm d e s) = current_proc s"
  "length (procs (copy_comm d e s)) = length (procs s)"
  by (simp_all add: copy_comm_def Let_def used_def)

section \<open>The message calls keep the invariant\<close>

lemma lookup_running:
  "process_lookup_by_pidx s i = Some t \<Longrightarrow> t < procs_max \<and> process_is_running (proc_at s t) \<and> used s t \<and> int t = i"
  by (auto simp: process_lookup_by_pidx_def process_is_running_def used_def split: if_splits)

text \<open>The current process may run.\<close>

lemma current_facts:
  assumes "current_ok s"
  obtains c where "current_proc s = Some c" "get_current s = c" "0 < c" "c < procs_max" "p_state (proc_at s c) = RUNNABLE"
    "used s c" "conts_ok s"
  using assms by (force simp: current_ok_def conts_ok_def used_def)

lemma kernel_inv_run: "table_ok s \<Longrightarrow> current_ok s \<Longrightarrow> kernel_inv s"
  by (simp add: kernel_inv_def)

lemma regs_keep:
  assumes "table_ok s" and "current_ok s"
  shows "table_ok (set_regs c f s)" "current_ok (set_regs c f s)"
proof -
  show "table_ok (set_regs c f s)" using core_step_table [OF core_set_regs] assms(1) by blast
  have "conts_ok (set_regs c f s)" using assms(2)
    unfolding set_regs_def by (intro conts_update) (auto simp: current_ok_def conts_ok_def used_def)
  then show "current_ok (set_regs c f s)"
    using assms(2) by (auto simp: current_ok_def set_regs_def get_current_def split: option.splits)
qed

lemma send_ok:
  assumes t: "table_ok s" and c: "current_ok s" and run: "sys_ipc_send s (get_current s) f = Some (Ret s')"
  shows "kernel_inv s'"
proof -
  obtain c where cur: "current_proc s = Some c" "get_current s = c" "0 < c" "c < procs_max"
    "p_state (proc_at s c) = RUNNABLE" "used s c" "conts_ok s" using current_facts [OF c] .
  let ?msg = "\<lparr>im_sender_pid = p_pid (proc_at s c), im_method_and_flags = a1 f, im_arg0 = a2 f, im_arg1 = a4 f, im_arg2 = a5 f\<rparr>"
  have ns: "names_sender s c ?msg" using cur by (simp add: names_sender_def)
  have wait: "kernel_inv s2" if "table_ok s1" "conts_ok s1" "used s1 c"
      "yield C_send (set_proc c (\<lambda>p. p\<lparr>p_state := IPC_SEND_WAIT\<rparr>) s1) = Some (Ret s2)" for s1 s2
    using that by (intro yield_ok [OF table_state [of s1] conts_state]) simp_all
  show ?thesis
  proof (cases "process_lookup_by_pid s (unat (a0 f))")
    case None
    with run cur kernel_inv_run regs_keep [OF t c] show ?thesis by (simp add: sys_ipc_send_def Let_def) metis
  next
    case (Some i)
    then obtain v where v: "process_lookup_by_pidx s (int i) = Some v"
      using run by (auto simp: sys_ipc_send_def Let_def split: option.splits)
    note vr = lookup_running [OF v]
    then have vl: "lock_of s (proc_at s v)" using table_locks [OF t] by simp
    show ?thesis
    proof (cases "p_blocked_sender (proc_at s v)")
      case blocked: (Some b)
      show ?thesis
      proof (cases "length (p_queue (proc_at s v)) \<ge> procs_max")
        case True
        with run Some v cur blocked kernel_inv_run regs_keep [OF t c] show ?thesis
          by (simp add: sys_ipc_send_def Let_def) metis
      next
        case False
        define s1 where "s1 = set_proc v (\<lambda>p. p\<lparr>p_queue := p_queue p @
          [\<lparr>q_sender = c, q_message = ?msg, q_has_comm_data = send_comm_data (a1 f)\<rparr>]\<rparr>) s"
        have "table_ok s1" unfolding s1_def
          by (rule table_update [OF t]) (use vl ns blocked False vr in \<open>auto simp: same_ident_def lock_of_def used_def\<close>)
        moreover have "conts_ok s1" unfolding s1_def
          using cur(7) by (intro conts_update) (auto simp: used_def conts_ok_def)
        moreover have "used s1 c" using cur(6) by (simp add: s1_def used_def)
        ultimately show ?thesis using wait [of s1 s'] run Some v cur blocked False
          by (simp add: sys_ipc_send_def Let_def s1_def)
      qed
    next
      case None
      define s1 where "s1 = (if send_comm_data (a1 f) then copy_comm v c s else s)"
      define s2 where "s2 = set_proc v (\<lambda>p. p\<lparr>p_pending_message := ?msg, p_has_pending := True, p_blocked_sender := Some c\<rparr>) s1"
      have s1: "table_ok s1" "conts_ok s1" "proc_at s1 i = proc_at s i" "used s1 i = used s i" "length (procs s1) = procs_max" for i
        using t cur(7) copy_comm_inv [OF t] table_len [OF t] by (simp_all add: s1_def)
      have n1: "names_sender s1 b m = names_sender s b m" for b m by (simp add: names_sender_def s1)
      have t2: "table_ok s2" unfolding s2_def
        by (rule table_update [OF s1(1)]) (use vl ns vr None in \<open>auto simp: same_ident_def lock_of_def used_def n1 s1\<close>)
      have c2: "conts_ok s2" unfolding s2_def
        using s1(2) by (intro conts_update) (auto simp: used_def conts_ok_def)
      have u2: "used s2 i = used s i" for i using s1 by (simp add: s2_def used_def)
      show ?thesis
      proof (cases "p_state (proc_at s2 v) = IPC_RECV_WAIT")
        case True
        define s3 where "s3 = set_proc v (\<lambda>p. p\<lparr>p_state := RUNNABLE\<rparr>) s2"
        have s': "s' = process_switch_to v C_send s3"
          using run Some v cur None True by (simp add: sys_ipc_send_def Let_def s3_def s2_def s1_def)
        have t3: "table_ok s3" unfolding s3_def using t2 u2 [of v] vr by (intro table_state) blast+
        have c3: "conts_ok s3" unfolding s3_def using c2 by (intro conts_state) simp_all
        have vp: "p_state (proc_at s3 v) = RUNNABLE" using vr table_len [OF t2] by (simp add: s3_def)
        show ?thesis
        proof (cases "v = 0")
          case True
          then show ?thesis using s' switch_idle [OF c3] by (simp add: kernel_inv_def)
        next
          case False
          have "current_ok s'" unfolding s'
            by (rule switch_current [OF c3 table_len [OF t3] _ _ vp False]) (use vr in simp_all)
          moreover have "table_ok s'" using t3 core_step_table [OF core_switch] s' by blast
          ultimately show ?thesis by (simp add: kernel_inv_def)
        qed
      next
        case False
        then have "yield C_send (set_proc c (\<lambda>p. p\<lparr>p_state := IPC_SEND_WAIT\<rparr>) s2) = Some (Ret s')"
          using run Some v cur None by (simp add: sys_ipc_send_def Let_def s2_def s1_def)
        with wait [OF t2 c2] u2 cur(6) show ?thesis by simp
      qed
    qed
  qed
qed

lemma recv_ok:
  assumes t: "table_ok s" and c: "current_ok s" and run: "sys_ipc_recv s (get_current s) = Some (Ret s')"
  shows "kernel_inv s'"
proof -
  obtain c where cur: "current_proc s = Some c" "get_current s = c" "0 < c" "c < procs_max"
    "p_state (proc_at s c) = RUNNABLE" "used s c" "conts_ok s" using current_facts [OF c] .
  show ?thesis
  proof (cases "p_has_pending (proc_at s c)")
    case True
    then have s': "s' = take_message c s" using run cur by (simp add: sys_ipc_recv_def)
    have "core_step s (set_proc c (\<lambda>p. p\<lparr>p_has_pending := False\<rparr>) s)" for s
      by (rule core_step_set) (simp add: same_core_def)
    then have "table_ok s'" using core_step_table [OF core_step_trans [OF core_set_regs]] t
      unfolding s' take_message_def Let_def by blast
    moreover have "current_ok s'" using cur unfolding s' take_message_def set_regs_def Let_def
      by (auto simp: current_ok_def conts_ok_def used_def)
    ultimately show ?thesis by (rule kernel_inv_run)
  next
    case False
    then have "yield C_recv (set_proc c (\<lambda>p. p\<lparr>p_state := IPC_RECV_WAIT\<rparr>) s) = Some (Ret s')"
      using run cur by (simp add: sys_ipc_recv_def)
    then show ?thesis using t cur by (intro yield_ok [OF table_state conts_state]) simp_all
  qed
qed

lemma table_wake:
  assumes "table_ok s" and "b < procs_max" and "used s b"
  shows "table_ok (set_proc b (\<lambda>p. p\<lparr>p_state := RUNNABLE\<rparr>) s)"
  using assms by (intro table_state) simp_all

lemma activate_ok:
  assumes t: "table_ok (set_proc i (\<lambda>p. p\<lparr>p_queue := []\<rparr>) s)" and l: "length (procs s) = procs_max"
    and q: "\<forall>q\<in>set (p_queue (proc_at s i)). names_sender s (q_sender q) (q_message q)"
    and len: "length (p_queue (proc_at s i)) \<le> procs_max" and u: "used s i" and i: "i < procs_max"
  shows "table_ok (activate_next i s)"
proof (cases "p_queue (proc_at s i)")
  case Nil
  have "set_proc i (\<lambda>p. p\<lparr>p_queue := []\<rparr>) s = s"
  proof -
    have "(procs s ! i)\<lparr>p_queue := []\<rparr> = procs s ! i" using Nil by (simp add: proc_at_def)
    then show ?thesis by (simp add: set_proc_def)
  qed
  with t Nil show ?thesis by (simp add: activate_next_def)
next
  case (Cons r qs)
  let ?f = "\<lambda>p. p\<lparr>p_queue := qs, p_pending_message := q_message r, p_has_pending := True, p_blocked_sender := Some (q_sender r)\<rparr>"
  let ?e = "set_proc i (\<lambda>p. p\<lparr>p_queue := []\<rparr>) s"
  have same: "same_ident (proc_at ?e i) (?f (proc_at ?e i))" by (simp add: same_ident_def)
  have n: "names_sender ?e b m = names_sender s b m" for b m
    by (rule names_sender_set) (simp add: same_ident_def)
  have "table_ok (set_proc i ?f ?e)"
    by (rule table_update [where t = i and f = ?f, OF t same])
      (use q len u i Cons table_len [OF t] in \<open>auto simp: lock_of_def n used_def l\<close>)
  moreover have eq: "set_proc i ?f ?e = set_proc i ?f s" using i l by (simp add: set_proc_def)
  ultimately have t1: "table_ok (set_proc i ?f s)" by simp
  obtain m where m: "activate_next i s = set_mem m (set_proc i ?f s)" "m = k_mem s \<or> (\<exists>r. m = (k_mem s)\<lparr>m_ram := r\<rparr>)"
  proof -
    let ?c = "q_has_comm_data r \<and> p_comm_page (proc_at s (q_sender r)) \<noteq> 0 \<and> p_comm_page (proc_at s i) \<noteq> 0"
    let ?m = "copy_page (p_comm_page (proc_at s i)) (p_comm_page (proc_at s (q_sender r))) (k_mem s)"
    have "activate_next i s = set_mem (if ?c then ?m else k_mem s) (set_proc i ?f s)"
      using Cons i l by (auto simp: activate_next_def Let_def set_proc_def set_mem_def proc_at_def nth_list_update)
    moreover have "\<exists>r. ?m = (k_mem s)\<lparr>m_ram := r\<rparr>" by (auto simp: copy_page_def)
    ultimately show thesis using that by auto
  qed
  from m(2) show ?thesis
  proof
    assume "m = k_mem s"
    then have "activate_next i s = set_proc i ?f s" unfolding m(1) by (simp add: set_mem_def set_proc_def)
    with t1 show ?thesis by simp
  next
    assume "\<exists>r. m = (k_mem s)\<lparr>m_ram := r\<rparr>"
    with table_ram [OF t1] m(1) show ?thesis by auto
  qed
qed

lemma activate_simps [simp]:
  "current_proc (activate_next i s) = current_proc s" "idle_proc (activate_next i s) = idle_proc s"
  "p_state (proc_at (activate_next i s) j) = p_state (proc_at s j)"
  "p_cont (proc_at (activate_next i s) j) = p_cont (proc_at s j)"
  "length (procs (activate_next i s)) = length (procs s)"
  by (auto simp: activate_next_def Let_def split: list.split)

lemma reply_ok:
  assumes t: "table_ok s" and c: "current_ok s" and run: "sys_ipc_reply s (get_current s) f = Some (Ret s')"
  shows "kernel_inv s'"
proof -
  obtain c where cur: "current_proc s = Some c" "get_current s = c" "0 < c" "c < procs_max"
    "p_state (proc_at s c) = RUNNABLE" "used s c" "conts_ok s" using current_facts [OF c] .
  show ?thesis
  proof (cases "p_blocked_sender (proc_at s c)")
    case None
    then show ?thesis using run cur t c by (simp add: sys_ipc_reply_def kernel_inv_def)
  next
    case (Some b)
    have lc: "lock_of s (proc_at s c)" by (rule table_locks [OF t cur(4)])
    then have b: "b < procs_max" "used s b" using Some by (simp_all add: lock_of_def names_sender_def)
    define s1 where "s1 = set_proc b (\<lambda>p. p\<lparr>p_pending_response :=
      \<lparr>ir_error = a0 f, ir_value0 = a1 f, ir_value1 = a2 f, ir_value2 = a4 f\<rparr>\<rparr>) s"
    define s2 where "s2 = (if recv_comm_data (im_method_and_flags (p_pending_message (proc_at s1 c))) then copy_comm b c s1 else s1)"
    define s3 where "s3 = set_proc c (\<lambda>p. p\<lparr>p_blocked_sender := None\<rparr>) s2"
    define s4 where "s4 = activate_next c s3"
    define s5 where "s5 = set_proc b (\<lambda>p. p\<lparr>p_state := RUNNABLE\<rparr>) s4"
    have s': "s' = process_switch_to b C_user s5"
      using run unfolding sys_ipc_reply_def cur(2) Some Let_def option.case s1_def s2_def s3_def s4_def s5_def
      by (simp only: ret_Ret)
    have t1: "table_ok s1" unfolding s1_def by (rule table_update_core [OF t]) (simp add: same_core_def)
    have c1: "conts_ok s1" unfolding s1_def using cur(7) by (intro conts_update) (auto simp: used_def conts_ok_def)
    have t2: "table_ok s2" "conts_ok s2" using copy_comm_inv [OF t1] t1 c1 by (simp_all add: s2_def)
    have len: "length (procs s2) = procs_max" by (rule table_len [OF t2(1)])
    have p2: "p_queue (proc_at s2 i) = p_queue (proc_at s i)" "p_state (proc_at s2 i) = p_state (proc_at s i)"
        "p_pid (proc_at s2 i) = p_pid (proc_at s i)" for i by (simp_all add: s2_def s1_def)
    have u3: "used s3 i = used s i" for i by (simp add: used_def s3_def p2)
    have n3: "names_sender s3 i m = names_sender s i m" for i m
      by (simp add: names_sender_def u3) (simp add: s3_def p2)
    have "set_proc c (\<lambda>p. p\<lparr>p_queue := []\<rparr>) s3 = set_proc c (\<lambda>p. p\<lparr>p_blocked_sender := None, p_queue := []\<rparr>) s2"
      using len cur(4) by (simp add: s3_def set_proc_def)
    moreover have "table_ok (set_proc c (\<lambda>p. p\<lparr>p_blocked_sender := None, p_queue := []\<rparr>) s2)"
      by (rule table_update [OF t2(1)]) (simp_all add: same_ident_def lock_of_def)
    ultimately have "table_ok (set_proc c (\<lambda>p. p\<lparr>p_queue := []\<rparr>) s3)" by simp
    moreover have "p_queue (proc_at s3 c) = p_queue (proc_at s c)" using len cur(4) by (simp add: s3_def p2)
    ultimately have t4: "table_ok s4" unfolding s4_def
      using lc n3 u3 cur len by (intro activate_ok) (simp_all add: lock_of_def s3_def)
    have u4: "used s4 i = used s i" for i by (simp add: used_def s4_def s3_def p2)
    have c3: "conts_ok s3" unfolding s3_def using t2(2) by (intro conts_update) (auto simp: used_def conts_ok_def)
    have c4: "conts_ok s4" using c3 by (simp add: conts_ok_def s4_def used_def)
    have t5: "table_ok s5" unfolding s5_def using t4 b u4 by (intro table_wake) simp_all
    have c5: "conts_ok s5" unfolding s5_def using c4 by (intro conts_state) simp_all
    show ?thesis
    proof (cases "b = 0")
      case True
      then show ?thesis using s' switch_idle [OF c5] by (simp add: kernel_inv_def)
    next
      case False
      have "p_state (proc_at s5 b) = RUNNABLE" using b table_len [OF t4] by (simp add: s5_def)
      then have "current_ok s'" unfolding s' using c5 table_len [OF t5] b False by (intro switch_current) simp_all
      moreover have "table_ok s'" using t5 core_step_table [OF core_switch] s' by blast
      ultimately show ?thesis by (simp add: kernel_inv_def)
    qed
  qed
qed

section \<open>Allocation and creation\<close>

lemma page_allocate_owns:
  assumes inv: "pool_inv m" and run: "page_allocate m (int i) n = Some (Ret (m', a))"
  shows "pool_inv m'" "a \<noteq> 0 \<Longrightarrow> owns m' i a" "0 < j \<Longrightarrow> owns m j b \<Longrightarrow> owns m' j b"
proof -
  show "pool_inv m'" by (rule page_allocate_inv [OF inv run])
  obtain xs where xs: "page_rep m xs" using inv by (auto simp: pool_inv_def)
  show "owns m' j b" if "0 < j" "owns m j b"
    using page_allocate_kept [OF xs _ _ run] that by (intro owns_kept [of m m']) auto
  assume a: "a \<noteq> 0"
  have n: "0 < n" using run by (auto simp: page_allocate_def split: if_splits)
  show "owns m' i a"
  proof (cases "first_run n [] [] xs")
    case None
    with page_allocate_none [OF xs n None] run a show ?thesis by simp
  next
    case (Some t)
    then obtain d r ps where t: "first_run n [] [] xs = Some (d, r, ps)" by (cases t) auto
    from page_allocate_run [OF xs n t, of "int i"] run
    have al: "allocated m (int i) r m'" and aa: "a = pg_addr (m_infos m ! hd r)" by auto
    have sp: "xs = d @ r @ ps" "length r = n" using first_run_split [OF t] n by simp_all
    then have hr: "hd r \<in> set r" "hd r \<in> set xs" using n by (cases r; simp)+
    have "seg (m_infos m) (m_free m) xs None" using xs by (simp add: page_rep_def)
    then have k: "hd r < length (m_infos m)" using seg_bound hr(2) by blast
    have ad: "map pg_addr (m_infos m') = map pg_addr (m_infos m)" using al by (simp add: allocated_def same_frame_def)
    then have "length (m_infos m') = length (m_infos m)" by (rule map_eq_imp_length_eq)
    moreover have "pg_addr (m_infos m' ! hd r) = a" using map_nth_eq [OF ad k] aa by simp
    moreover have "pg_pidx (m_infos m' ! hd r) = int i" using al k hr(1) by (simp add: allocated_def)
    ultimately show ?thesis using k by (auto simp: owns_def)
  qed
qed

lemma find_unused_Some: "find_unused ps i = Some j \<Longrightarrow> i \<le> j \<and> j < i + length ps \<and> p_state (ps ! (j - i)) = UNUSED"
proof (induction ps i rule: find_unused.induct)
  case (2 p ps i)
  show ?case
  proof (cases "p_state p = UNUSED")
    case True
    with 2(2) show ?thesis by simp
  next
    case False
    with 2 have "i + 1 \<le> j \<and> j < i + 1 + length ps \<and> p_state (ps ! (j - (i + 1))) = UNUSED" by simp
    moreover from this have "j - i = Suc (j - (i + 1))" by linarith
    ultimately show ?thesis by simp
  qed
qed simp

lemma find_unused_None: "find_unused ps i = None \<longleftrightarrow> (\<forall>p\<in>set ps. p_state p \<noteq> UNUSED)"
  by (induction ps i rule: find_unused.induct) auto

definition add_proc :: "kstate \<Rightarrow> nat \<Rightarrow> proc \<Rightarrow> memory \<Rightarrow> kstate" where
  "add_proc s i p m = s\<lparr>procs := (procs s)[i := p], proc_pid_counter := proc_pid_counter s + 1,
     process_pids := (process_pids s)[i := proc_pid_counter s], k_mem := m\<rparr>"

lemma counter_small:
  assumes "identity_ok s"
  shows "proc_pid_counter s \<le> 17"
proof -
  have "card {i. i < procs_max \<and> used s i} \<le> card {..<procs_max}" by (intro card_mono) auto
  then show ?thesis using assms by (simp add: identity_ok_def procs_max_def)
qed

lemma add_proc_ok:
  assumes t: "table_ok s" and i: "i < procs_max" "\<not> used s i"
    and p: "p_state p = RUNNABLE" "p_pidx p = i" "p_pid p = proc_pid_counter s" "p_blocked_sender p = None" "p_queue p = []"
    and m: "pool_inv m" "\<And>j b. 0 < j \<Longrightarrow> owns (k_mem s) j b \<Longrightarrow> owns m j b"
    and o: "0 < i \<Longrightarrow> owns m i (p_comm_page p) \<and> owns m i (p_storage_page p) \<and> owns m i (p_user_stack p) \<and>
      (p_arg_page p \<noteq> 0 \<longrightarrow> owns m i (p_arg_page p))"
  shows "table_ok (add_proc s i p m)"
proof -
  let ?s = "add_proc s i p m"
  have len: "length (procs s) = procs_max" "length (process_pids s) = procs_max"
    using t by (simp_all add: table_ok_def identity_ok_def)
  have at: "proc_at ?s j = (if j = i then p else proc_at s j)" for j
    using i(1) len by (cases "j = i") (auto simp: add_proc_def proc_at_def)
  have u: "used ?s j \<longleftrightarrow> j = i \<or> used s j" for j using p(1) by (auto simp: used_def at)
  have pids: "process_pids ?s ! j = (if j = i then proc_pid_counter s else process_pids s ! j)" if "j < procs_max" for j
    using len i(1) by (auto simp: add_proc_def nth_list_update)
  have id: "\<forall>j<procs_max. used s j \<longrightarrow> p_pidx (proc_at s j) = j \<and> process_pids s ! j = p_pid (proc_at s j) \<and>
      0 < p_pid (proc_at s j) \<and> p_pid (proc_at s j) < proc_pid_counter s"
    and inj: "\<forall>a<procs_max. \<forall>b<procs_max. used s a \<and> used s b \<and> p_pid (proc_at s a) = p_pid (proc_at s b) \<longrightarrow> a = b"
    and cnt: "proc_pid_counter s = Suc (card {j. j < procs_max \<and> used s j})"
    using t unfolding table_ok_def identity_ok_def by blast+
  have "{j. j < procs_max \<and> used ?s j} = insert i {j. j < procs_max \<and> used s j}" using i(1) u by auto
  then have "card {j. j < procs_max \<and> used ?s j} = Suc (card {j. j < procs_max \<and> used s j})" using i(2) by simp
  then have cnt': "proc_pid_counter ?s = Suc (card {j. j < procs_max \<and> used ?s j})"
    using cnt by (simp add: add_proc_def)
  have ctr: "proc_pid_counter ?s = Suc (proc_pid_counter s)" by (simp add: add_proc_def)
  have "0 < proc_pid_counter s" using cnt by simp
  then have id': "p_pidx (proc_at ?s j) = j \<and> process_pids ?s ! j = p_pid (proc_at ?s j) \<and>
      0 < p_pid (proc_at ?s j) \<and> p_pid (proc_at ?s j) < proc_pid_counter ?s" if "j < procs_max" "used ?s j" for j
  proof (cases "j = i")
    case True
    then show ?thesis using p that pids [of i] \<open>0 < proc_pid_counter s\<close> by (simp add: at ctr)
  next
    case False
    then show ?thesis using id that pids [of j] u by (auto simp: at ctr intro: less_SucI)
  qed
  have ne: "proc_pid_counter s \<noteq> p_pid (proc_at s j)" if "j < procs_max" "used s j" for j
    using id that by (metis less_irrefl)
  then have inj': "a = b" if "a < procs_max" "b < procs_max" "used ?s a" "used ?s b" "p_pid (proc_at ?s a) = p_pid (proc_at ?s b)" for a b
  proof (cases "a = i"; cases "b = i")
    assume "a = i" "b \<noteq> i"
    with that ne [of b] p(3) show ?thesis by (simp add: at u)
  next
    assume "a \<noteq> i" "b = i"
    with that ne [of a] p(3) show ?thesis by (simp add: at u)
  next
    assume "a \<noteq> i" "b \<noteq> i"
    with that have "used s a" "used s b" "p_pid (proc_at s a) = p_pid (proc_at s b)" by (simp_all add: at u)
    with inj that(1,2) show ?thesis by blast
  qed simp
  have "identity_ok ?s"
    unfolding identity_ok_def
  proof (intro conjI allI impI)
    show "length (procs ?s) = procs_max" "length (process_pids ?s) = procs_max" using len by (simp_all add: add_proc_def)
  qed (use cnt' id' inj' in blast)+
  moreover have "lock_ok ?s j" if j: "j < procs_max" for j
  proof (cases "j = i")
    case True
    then show ?thesis using p by (simp add: lock_ok_def at)
  next
    case False
    have "names_sender s b x \<Longrightarrow> names_sender ?s b x" for b x
      using i(2) by (auto simp: names_sender_def at u)
    with table_locks [OF t j] False show ?thesis by (auto simp: lock_ok_of lock_of_def at)
  qed
  then have "locks_ok ?s" by (simp add: locks_ok_def)
  moreover have "k_mem ?s = m" by (simp add: add_proc_def)
  then have "pages_ok ?s"
    using t m o by (auto simp: pages_ok_def table_ok_def at u)
  ultimately show ?thesis by (simp add: table_ok_def)
qed

lemma alloc_page_run:
  "alloc_page_or_panic s i = Some (Ret (s', a)) \<longleftrightarrow>
    (\<exists>m'. page_allocate (k_mem s) (int (p_pidx (proc_at s i))) 1 = Some (Ret (m', a)) \<and> a \<noteq> 0 \<and> s' = set_mem m' s)"
  by (auto simp: alloc_page_or_panic_def process_alloc_mapped_pages_def kr_bind_Ret split: if_splits)

lemma add_proc_forms:
  assumes "i < length (procs s)"
  shows "set_proc i f (add_proc s i p m) = add_proc s i (f p) m"
    and "set_mem m' (add_proc s i p m) = add_proc s i p m'"
    and "k_mem (add_proc s i p m) = m" and "proc_at (add_proc s i p m) i = p"
    and "length (procs (add_proc s i p m)) = length (procs s)"
  using assms by (simp_all add: add_proc_def set_proc_def set_mem_def proc_at_def)

lemma alloc_added:
  assumes "i < length (procs s)" and "p_pidx p = i"
  shows "alloc_page_or_panic (add_proc s i p m) i = Some (Ret (s', a)) \<longleftrightarrow>
    (\<exists>m'. page_allocate m (int i) 1 = Some (Ret (m', a)) \<and> a \<noteq> 0 \<and> s' = add_proc s i p m')"
  unfolding alloc_page_run using add_proc_forms [OF assms(1)] assms(2) by auto

lemma write_added:
  assumes "i < length (procs s)"
  shows "write_page a w (add_proc s i p m) = add_proc s i p (store_bytes a (mw_bytes (w (mw_init page_size))) m)"
  unfolding write_page_def add_proc_forms [OF assms] ..

lemma add_proc_start:
  assumes "i < length (procs s)" and "proc_pid_counter s + 1 < size_mod" and "p_pid p = proc_pid_counter s"
  shows "(let s = set_proc i (\<lambda>_. p) s; s = s\<lparr>proc_pid_counter := sz (proc_pid_counter s + 1)\<rparr>
     in s\<lparr>process_pids := (process_pids s)[i := p_pid (proc_at s i)]\<rparr>) = add_proc s i p (k_mem s)"
  using assms by (simp add: Let_def add_proc_def set_proc_def proc_at_def)

text \<open>What a creation that succeeds has done.\<close>

definition created :: "kstate \<Rightarrow> nat \<Rightarrow> kstate \<Rightarrow> bool" where
  "created s i s' \<longleftrightarrow> i < procs_max \<and> \<not> used s i \<and> find_unused (procs s) 0 = Some i \<and> (\<exists>p m. s' = add_proc s i p m \<and> p_cont p = C_entry \<and>
     p_state p = RUNNABLE \<and> p_pid p = proc_pid_counter s \<and> p_blocked_sender p = None \<and> p_queue p = [] \<and> \<not> p_has_pending p)"

lemma pool_ram_owns:
  "pool_inv (store_bytes a bs m) = pool_inv m" "owns (store_bytes a bs m) j b = owns m j b"
  "pool_inv (memset_zero a n m) = pool_inv m" "owns (memset_zero a n m) j b = owns m j b"
  "pool_inv (memory_increment_process_count m) = pool_inv m" "owns (memory_increment_process_count m) j b = owns m j b"
  by (simp_all add: store_bytes_def memset_zero_def memory_increment_process_count_def pool_inv_def page_rep_def page_wf_def owns_def)

text \<open>The pages got so far: the pool is intact and every page that was owned still is.\<close>

definition mem_grown :: "memory \<Rightarrow> memory \<Rightarrow> bool" where
  "mem_grown m m' \<longleftrightarrow> pool_inv m' \<and> (\<forall>j b. 0 < j \<longrightarrow> owns m j b \<longrightarrow> owns m' j b)"

lemma mem_grown_alloc:
  assumes "mem_grown m m1" and "page_allocate m1 (int i) n = Some (Ret (m2, a))"
  shows "mem_grown m m2" "a \<noteq> 0 \<Longrightarrow> owns m2 i a" "0 < j \<Longrightarrow> owns m1 j b \<Longrightarrow> owns m2 j b"
  using assms page_allocate_owns [OF _ assms(2)] by (auto simp: mem_grown_def)

lemma mem_grown_frame:
  "mem_grown m (store_bytes a bs m1) = mem_grown m m1" "mem_grown m (memset_zero a n m1) = mem_grown m m1"
  "mem_grown m (memory_increment_process_count m1) = mem_grown m m1"
  by (simp_all add: mem_grown_def pool_ram_owns)

lemma pool_initialized: "pool_inv m \<Longrightarrow> m_initialized m"
  by (auto simp: pool_inv_def page_rep_def page_wf_def)

text \<open>The process before its pages, and the part of the creation that gets them.\<close>

definition fresh_proc :: "kstate \<Rightarrow> nat \<Rightarrow> string \<Rightarrow> bool \<Rightarrow> proc" where
  "fresh_proc s i name km = zero_proc\<lparr>p_name := take 32 (cstr name), p_state := RUNNABLE, p_pidx := i,
     p_pid := proc_pid_counter s, p_kernel_mode := km\<rparr>"

lemma create_impl_Some:
  assumes t: "table_ok s" and j: "find_unused (procs s) 0 = Some i"
  shows "process_create_impl s name e args km =
     (let s = add_proc s i (fresh_proc s i name km) (k_mem s); s = set_proc i (\<lambda>p. p\<lparr>p_user_pc := e\<rparr>) s
        in kr_bind (alloc_page_or_panic s i) (\<lambda>(s, comm).
           let s = set_proc i (\<lambda>p. p\<lparr>p_comm_page := comm\<rparr>) (write_page comm mw_nil s)
           in kr_bind (alloc_page_or_panic s i) (\<lambda>(s, storage).
              let s = set_mem (memset_zero storage page_size (k_mem s)) s;
                  s = set_proc i (\<lambda>p. p\<lparr>p_storage_page := storage\<rparr>) s
              in kr_bind (alloc_page_or_panic s i) (\<lambda>(s, ustack).
                 let s = set_proc i (\<lambda>p. p\<lparr>p_user_stack := ustack\<rparr>) s
                 in kr_bind (case args of None \<Rightarrow> ret s
                      | Some argv \<Rightarrow> kr_bind (alloc_page_or_panic s i) (\<lambda>(s, arg).
                          ret (set_proc i (\<lambda>p. p\<lparr>p_arg_page := arg\<rparr>)
                            (write_page arg (\<lambda>w. mw_stringarray (mw_cstr (mw_map w 1) (Some ''args'')) argv) s))))
                    (\<lambda>s. ret (set_mem (memory_increment_process_count (k_mem s)) s, Some i))))))"
proof -
  have inv: "pool_inv (k_mem s)" and id: "identity_ok s" using t by (simp_all add: table_ok_def pages_ok_def)
  have "memory_init (k_mem s) = Ret (k_mem s)" using pool_initialized [OF inv] by (simp add: memory_init_def)
  moreover have "set_mem (k_mem s) s = s" by (simp add: set_mem_def)
  ultimately have init: "kr_bind (Some (memory_init (k_mem s))) f = f (k_mem s)" "set_mem (k_mem s) s = s" for f :: "_ \<Rightarrow> (kstate \<times> nat option) kres"
    by simp_all
  have il: "i < length (procs s)" using find_unused_Some [OF j] by simp
  have small: "proc_pid_counter s + 1 < size_mod" using counter_small [OF id] by (simp add: size_mod_def)
  have start: "(let s = set_proc i (\<lambda>_. fresh_proc s i name km) s; s = s\<lparr>proc_pid_counter := sz (proc_pid_counter s + 1)\<rparr>
     in s\<lparr>process_pids := (process_pids s)[i := p_pid (proc_at s i)]\<rparr>) = add_proc s i (fresh_proc s i name km) (k_mem s)"
    by (rule add_proc_start [OF il small]) (simp add: fresh_proc_def)
  show ?thesis
    using start unfolding process_create_impl_def init Let_def j option.case fresh_proc_def by (simp only:)
qed

lemma create_ok:
  assumes t: "table_ok s" and run: "process_create_impl s name e args km = Some (Ret (s', r))"
  shows "table_ok s' \<and> (case r of None \<Rightarrow> s' = s \<and> (\<forall>i<procs_max. used s i) | Some i \<Rightarrow> created s i s')"
proof -
  have inv: "pool_inv (k_mem s)" using t by (simp add: table_ok_def pages_ok_def)
  have id: "identity_ok s" using t by (simp add: table_ok_def)
  then have len: "length (procs s) = procs_max" "length (process_pids s) = procs_max" by (simp_all add: identity_ok_def)
  show ?thesis
  proof (cases "find_unused (procs s) 0")
    case None
    have "memory_init (k_mem s) = Ret (k_mem s)" "set_mem (k_mem s) s = s"
      using pool_initialized [OF inv] by (simp_all add: memory_init_def set_mem_def)
    then have "s' = s" "r = None" using run None by (simp_all add: process_create_impl_def Let_def)
    moreover have "used s i" if "i < procs_max" for i
      using None that len nth_mem [of i "procs s"] by (auto simp: find_unused_None used_def proc_at_def)
    ultimately show ?thesis using t by simp
  next
    case (Some i)
    from find_unused_Some [OF Some] have i: "i < procs_max" "\<not> used s i" using len by (simp_all add: used_def proc_at_def)
    let ?p0 = "fresh_proc s i name km"
    have il: "i < length (procs s)" using i(1) len by simp
    note forms = add_proc_forms [OF il]
    have p0_pidx: "p_pidx ?p0 = i" by (simp add: fresh_proc_def)
    note run' = run [unfolded create_impl_Some [OF t Some]]
    let ?p1 = "?p0\<lparr>p_user_pc := e\<rparr>"
    have g0: "mem_grown (k_mem s) (k_mem s)" using inv by (simp add: mem_grown_def)
    obtain comm m1 storage m2 ustack m3 where
      a1: "page_allocate (k_mem s) (int i) 1 = Some (Ret (m1, comm))" "comm \<noteq> 0" and
      a2: "page_allocate (store_bytes comm (mw_bytes (mw_nil (mw_init page_size))) m1) (int i) 1 = Some (Ret (m2, storage))" "storage \<noteq> 0" and
      a3: "page_allocate (memset_zero storage page_size m2) (int i) 1 = Some (Ret (m3, ustack))" "ustack \<noteq> 0" and
      rest: "kr_bind (case args of None \<Rightarrow> ret (add_proc s i (?p1\<lparr>p_comm_page := comm, p_storage_page := storage, p_user_stack := ustack\<rparr>) m3)
        | Some argv \<Rightarrow> kr_bind (alloc_page_or_panic (add_proc s i (?p1\<lparr>p_comm_page := comm, p_storage_page := storage, p_user_stack := ustack\<rparr>) m3) i) (\<lambda>(s, arg).
            ret (set_proc i (\<lambda>p. p\<lparr>p_arg_page := arg\<rparr>)
              (write_page arg (\<lambda>w. mw_stringarray (mw_cstr (mw_map w 1) (Some ''args'')) argv) s))))
          (\<lambda>s. ret (set_mem (memory_increment_process_count (k_mem s)) s, Some i)) = Some (Ret (s', r))"
      using run' by (auto simp: Let_def kr_bind_Ret alloc_added [OF il] forms(1-3) write_added [OF il] p0_pidx simp del: One_nat_def cong del: option.case_cong_weak)
    let ?p = "?p1\<lparr>p_comm_page := comm, p_storage_page := storage, p_user_stack := ustack\<rparr>"
    note g1 = mem_grown_alloc [OF g0 a1(1)]
    have g1': "mem_grown (k_mem s) (store_bytes comm (mw_bytes (mw_nil (mw_init page_size))) m1)" using g1(1) by (simp add: mem_grown_frame)
    note g2 = mem_grown_alloc [OF g1' a2(1)]
    have g2': "mem_grown (k_mem s) (memset_zero storage page_size m2)" using g2(1) by (simp add: mem_grown_frame)
    note g3 = mem_grown_alloc [OF g2' a3(1)]
    have o3: "owns m3 i comm \<and> owns m3 i storage \<and> owns m3 i ustack" if "0 < i"
      using g1(2) a1(2) g2(2,3) a2(2) g3(2,3) a3(2) that by (simp add: pool_ram_owns)
    have fin: "table_ok (add_proc s i q m) \<and> created s i (add_proc s i q m)"
      if "mem_grown (k_mem s) m" "q = ?p\<lparr>p_arg_page := arg\<rparr>" "0 < i \<Longrightarrow> owns m i comm \<and> owns m i storage \<and> owns m i ustack \<and> (arg \<noteq> 0 \<longrightarrow> owns m i arg)"
      for q m arg
      using that i Some
      by (intro conjI add_proc_ok [OF t i]) (auto simp: created_def mem_grown_def fresh_proc_def zero_proc_def)
    show ?thesis
    proof (cases args)
      case None
      then have s': "s' = add_proc s i ?p (memory_increment_process_count m3)" "r = Some i"
        using rest by (simp_all add: forms(1-3))
      have "?p = ?p\<lparr>p_arg_page := 0\<rparr>" by (simp add: fresh_proc_def zero_proc_def)
      from fin [OF _ this] s' g3(1) o3 show ?thesis by (simp add: mem_grown_frame pool_ram_owns)
    next
      case (Some argv)
      then obtain m4 arg bs where a4: "page_allocate m3 (int i) 1 = Some (Ret (m4, arg))" "arg \<noteq> 0"
        and s': "s' = add_proc s i (?p\<lparr>p_arg_page := arg\<rparr>) (memory_increment_process_count (store_bytes arg bs m4))" "r = Some i"
        using rest by (auto simp: kr_bind_Ret alloc_added [OF il] forms(1-3) write_added [OF il] p0_pidx simp del: One_nat_def cong del: option.case_cong_weak)
      note g4 = mem_grown_alloc [OF g3(1) a4(1)]
      from fin [OF _ refl, of "memory_increment_process_count (store_bytes arg bs m4)" arg] s' g4 a4(2) o3
      show ?thesis by (simp add: mem_grown_frame pool_ram_owns)
    qed
  qed
qed

section \<open>Every step keeps the invariant\<close>

text \<open>Effects on the current process: an operation that returns to it.\<close>

definition runs_on :: "kstate \<Rightarrow> kstate \<Rightarrow> bool" where
  "runs_on s s' \<longleftrightarrow> table_ok s' \<and> current_ok s'"

lemma current_ok_frame:
  assumes "current_ok s" and "current_proc s' = current_proc s" and "idle_proc s' = idle_proc s"
    and "\<And>i. used s i \<Longrightarrow> p_state (proc_at s' i) = p_state (proc_at s i)"
    and "\<And>i. p_cont (proc_at s' i) = p_cont (proc_at s i) \<or> p_cont (proc_at s' i) = C_entry \<and> \<not> used s i"
  shows "current_ok s'"
proof -
  obtain c where cur: "current_proc s = Some c" "get_current s = c" "0 < c" "c < procs_max"
    "p_state (proc_at s c) = RUNNABLE" "used s c" "conts_ok s" using current_facts [OF assms(1)] .
  have "used s 0" using cur(7) by (simp add: conts_ok_def)
  then have "used s' 0" "p_cont (proc_at s' 0) = C_idle"
    using assms(4,5) [of 0] cur(7) by (auto simp: used_def conts_ok_def)
  moreover have "p_cont (proc_at s' i) \<noteq> C_idle" if "0 < i" "i < procs_max" for i
    using assms(5) [of i] cur(7) that by (auto simp: conts_ok_def)
  ultimately have "conts_ok s'" using cur assms(2,3) by (simp add: conts_ok_def)
  moreover have "get_current s' = c" using cur(1) assms(2) by simp
  ultimately show ?thesis using cur assms(4) [of c] by (simp add: current_ok_def)
qed

lemma mem_runs:
  assumes "table_ok s" and "current_ok s" and "pool_inv m" and "\<And>i a. 0 < i \<Longrightarrow> owns (k_mem s) i a \<Longrightarrow> owns m i a"
  shows "runs_on s (set_mem m s)"
  unfolding runs_on_def using table_mem [OF assms(1,3)] assms(4) current_ok_frame [OF assms(2)] by simp

lemma runs_regs: "runs_on s s' \<Longrightarrow> ok_a0 c v s' = Some (Ret s'') \<Longrightarrow> kernel_inv s''"
  using regs_keep [of s' c] unfolding ok_a0_def runs_on_def by (auto intro: kernel_inv_run)

lemma io_runs:
  assumes "table_ok s" and "current_ok s"
  shows "runs_on s (s\<lparr>k_out := x\<rparr>)" "runs_on s (s\<lparr>k_in := y\<rparr>)" "runs_on s s"
proof -
  have "core_step s (s\<lparr>k_out := x\<rparr>)" "core_step s (s\<lparr>k_in := y\<rparr>)" by (simp_all add: core_step_def)
  then show "runs_on s (s\<lparr>k_out := x\<rparr>)" "runs_on s (s\<lparr>k_in := y\<rparr>)" "runs_on s s"
    using assms core_step_table current_ok_frame [OF assms(2)] by (auto simp: runs_on_def)
qed

lemma locked_owns:
  assumes inv: "pool_inv m" and run: "known_memory_lock m km n p = Some (Ret (m', a))"
  shows "pool_inv m'" "0 < j \<Longrightarrow> owns m j b \<Longrightarrow> owns m' j b"
proof -
  show "pool_inv m'" using pool_step_inv [OF inv, of "Op_lock km n p" m'] run by (simp add: pool_step_def)
  obtain xs where xs: "page_rep m xs" using inv by (auto simp: pool_inv_def)
  show "owns m' j b" if "0 < j" "owns m j b"
  proof (rule owns_kept [OF _ that(2,1)])
    fix k
    assume "k < length (m_infos m)" "pg_pidx (m_infos m ! k) \<noteq> pidx_none"
    then show "page_kept m k m'" using pool_step_kept [OF inv, of "Op_lock km n p" k m'] run
      by (simp add: pool_step_def pool_safe_def)
  qed
qed

lemma created_runs:
  assumes "current_ok s" and "identity_ok s" and "created s i s'" and "table_ok s'"
  shows "runs_on s s'"
proof -
  obtain p m where *: "i < procs_max" "\<not> used s i" "s' = add_proc s i p m" "p_cont p = C_entry"
    using assms(3) by (auto simp: created_def)
  have l: "length (procs s) = procs_max" using assms(2) by (simp add: identity_ok_def)
  have at: "proc_at s' j = (if j = i then p else proc_at s j)" for j
    using * l by (cases "j = i") (auto simp: add_proc_def proc_at_def)
  have cp: "current_proc s' = current_proc s" "idle_proc s' = idle_proc s" using *(3) by (simp_all add: add_proc_def)
  have "current_ok s'" using *(2,4) by (intro current_ok_frame [OF assms(1) cp]) (auto simp: at)
  with assms(4) show ?thesis by (simp add: runs_on_def)
qed

lemma spawn_runs:
  assumes t: "table_ok s" and c: "current_ok s" and run: "kernel_spawn_process s name argv = Some (Ret (s', pid))"
  shows "runs_on s s'"
proof (cases "is_valid_program name")
  case False
  with run io_runs(3) [OF t c] show ?thesis by (simp add: kernel_spawn_process_def)
next
  case True
  then obtain i where "process_create_impl s name User_program_main (Some argv) False = Some (Ret (s', Some i))"
    using run by (auto simp: kernel_spawn_process_def process_create_def kr_bind_Ret split: option.splits)
  from create_ok [OF t this] have "table_ok s'" "created s i s'" by simp_all
  moreover have "identity_ok s" using t by (simp add: table_ok_def)
  ultimately show ?thesis using created_runs [OF c] by blast
qed

text \<open>The pattern of the decoding calls: the state is the old one until the last step.\<close>

definition post :: "('a \<Rightarrow> bool) \<Rightarrow> 'a kres \<Rightarrow> bool" where
  "post P r \<longleftrightarrow> (\<forall>x. r = Some (Ret x) \<longrightarrow> P x)"

named_theorems post_intros

lemma kpost_bind [post_intros]: "(\<And>x. r = Some (Ret x) \<Longrightarrow> post P (f x)) \<Longrightarrow> post P (kr_bind r f)"
  by (auto simp: post_def kr_bind_Ret)

lemma post_if [post_intros]: "(b \<Longrightarrow> post P x) \<Longrightarrow> (\<not> b \<Longrightarrow> post P y) \<Longrightarrow> post P (if b then x else y)"
  by simp

lemma post_prod [post_intros]: "(\<And>a b. p = (a, b) \<Longrightarrow> post P (f a b)) \<Longrightarrow> post P (case p of (a, b) \<Rightarrow> f a b)"
  by (cases p) simp

lemma post_option [post_intros]:
  "(x = None \<Longrightarrow> post P y) \<Longrightarrow> (\<And>v. x = Some v \<Longrightarrow> post P (f v)) \<Longrightarrow> post P (case x of None \<Rightarrow> y | Some v \<Rightarrow> f v)"
  by (cases x) simp_all

lemma post_ret: "P x \<Longrightarrow> post P (ret x)"
  by (simp add: post_def)

lemma safe_ok_a0: "runs_on s s' \<Longrightarrow> post kernel_inv (ok_a0 c v s')"
  unfolding post_def by (blast intro: runs_regs)

lemma sys_proc_spawn_ok:
  assumes t: "table_ok s" and c: "current_ok s"
  shows "post kernel_inv (sys_proc_spawn s k)"
proof -
  have f: "post kernel_inv (spawn_fail k s)"
    unfolding spawn_fail_def using safe_ok_a0 [OF io_runs(3) [OF t c]] .
  have sp: "post kernel_inv (ok_a0 k v s')" if "kernel_spawn_process s name argv = Some (Ret p)" "p = (s', pid)" for v s' name argv pid p
    using safe_ok_a0 [OF spawn_runs [OF t c, of name argv s' pid]] that by simp
  show ?thesis unfolding sys_proc_spawn_def by (intro post_intros f) (rule sp)
qed

lemma sys_io_puts_ok:
  assumes t: "table_ok s" and c: "current_ok s"
  shows "post kernel_inv (sys_io_puts s k)"
proof -
  have o: "post kernel_inv (ret (s1\<lparr>k_out := x\<rparr>))" if "runs_on s s1" for s1 x
    using io_runs(1) [of s1 x] that by (auto simp: runs_on_def post_def intro: kernel_inv_run)
  have r: "runs_on s (if b then set_regs k (\<lambda>f. f\<lparr>a0 := 0\<rparr>) s else s)" for b
    using regs_keep [OF t c] t c by (simp add: runs_on_def)
  show ?thesis unfolding sys_io_puts_def
    by (intro post_intros safe_ok_a0 [OF io_runs(3) [OF t c]] o [OF r])
qed

lemma sys_proc_lookup_ok:
  assumes t: "table_ok s" and c: "current_ok s"
  shows "post kernel_inv (sys_proc_lookup s k)"
proof -
  have "post kernel_inv (ret s)" using kernel_inv_run [OF t c] by (simp add: post_def)
  then show ?thesis unfolding sys_proc_lookup_def
    by (intro post_intros safe_ok_a0 [OF io_runs(3) [OF t c]])
qed

lemma current_terminates:
  assumes t: "table_ok s" and c: "current_ok s" and "current_proc s = Some k"
    and "yield C_user (set_proc k (\<lambda>p. p\<lparr>p_state := TERMINATED\<rparr>) s) = Some (Ret s')"
  shows "kernel_inv s'"
  using current_facts [OF c] assms
  by (intro yield_ok [OF table_state [OF t] conts_state _ assms(4)]) auto

text \<open>The steps of the machine: a trap of the current process, or a store of its program.\<close>

datatype event = Ev_syscall trap_regs | Ev_crash | Ev_store nat byte

definition kernel_step :: "kstate \<Rightarrow> event \<Rightarrow> kstate option" where
  "kernel_step s e =
     (if k_exited s then None
      else case e of
        Ev_syscall f \<Rightarrow> returned (handle_syscall s f)
      | Ev_crash \<Rightarrow> returned (handle_crash s)
      | Ev_store a b \<Rightarrow> Some (set_mem (store_bytes a [b] (k_mem s)) s))"

lemma handle_syscall_ok:
  assumes t0: "table_ok s0" and c0: "current_ok s0" and run: "handle_syscall s0 f = Some (Ret s')"
  shows "kernel_inv s'"
proof -
  define c where "c = get_current s0"
  define s where "s = set_regs c (\<lambda>_. f\<lparr>a0 := 0\<rparr>) s0"
  have t: "table_ok s" and cu: "current_ok s" using regs_keep [OF t0 c0] by (simp_all add: s_def)
  have c: "get_current s = c" "conts_ok s" "current_proc s = current_proc s0"
    using cu by (simp_all add: c_def s_def current_ok_def get_current_def set_regs_def)
  note r = runs_regs [OF io_runs(3) [OF t cu]]
  let ?n = "unat (a3 f)"
  have inv: "pool_inv (k_mem s)" using t by (simp add: table_ok_def pages_ok_def)
  obtain k where k: "current_proc s = Some k" "c = k" using current_facts [OF cu] c(1) by metis
  consider "?n = 2" | "?n = 1" | "?n = 4" | "?n = 3" | "?n = 5" | "?n = 6" | "?n = 7" | "?n = 8" | "?n = 9" | "?n = 10"
    | "?n = 11" | "?n = 12" | "?n = 13" | "?n = 14" | "?n = 15" | "\<not> (?n = 1 \<or> ?n = 2 \<or> ?n = 3 \<or> ?n = 4 \<or> ?n = 5 \<or> ?n = 6 \<or> ?n = 7 \<or> ?n = 8 \<or>
      ?n = 9 \<or> ?n = 10 \<or> ?n = 11 \<or> ?n = 12 \<or> ?n = 13 \<or> ?n = 14 \<or> ?n = 15)" by blast
  then show ?thesis
  proof cases
    case 1
    then show ?thesis using run runs_regs [OF io_runs(1) [OF t cu]]
      unfolding handle_syscall_def Let_def by (fold c_def, fold s_def) simp
  next
    case 2
    then have "yield C_user s = Some (Ret s')" using run unfolding handle_syscall_def Let_def by (fold c_def, fold s_def) simp
    then show ?thesis by (rule yield_ok [OF t c(2), rotated]) simp
  next
    case 3
    then have "sys_exit s = Some (Ret s')" using run unfolding handle_syscall_def Let_def by (fold c_def, fold s_def) simp
    then show ?thesis using current_terminates [OF t cu k(1)] k(1) by (simp add: sys_exit_def)
  next
    case 4
    then show ?thesis using run r runs_regs [OF io_runs(2) [OF t cu]]
      unfolding handle_syscall_def Let_def by (fold c_def, fold s_def) (auto split: list.splits)
  next
    case 5
    then obtain m n a where m: "page_allocate (k_mem s) (int (p_pidx (proc_at s c))) n = Some (Ret (m, a))"
      "ok_a0 c (of_nat a) (set_mem m s) = Some (Ret s')"
      using run unfolding handle_syscall_def Let_def
      by (fold c_def, fold s_def) (auto simp: kr_bind_Ret process_alloc_mapped_pages_def)
    from runs_regs [OF mem_runs [OF t cu] m(2)] page_allocate_owns [OF inv m(1)] show ?thesis by blast
  next
    case 6
    then show ?thesis using run r unfolding handle_syscall_def Let_def
      by (fold c_def, fold s_def) (simp add: sys_get_sys_page_def)
  next
    case 7
    then have "sys_io_puts s c = Some (Ret s')" using run unfolding handle_syscall_def Let_def
      by (fold c_def, fold s_def) simp
    then show ?thesis using sys_io_puts_ok [OF t cu] by (simp add: post_def)
  next
    case 8
    then have "sys_proc_lookup s c = Some (Ret s')" using run unfolding handle_syscall_def Let_def
      by (fold c_def, fold s_def) simp
    then show ?thesis using sys_proc_lookup_ok [OF t cu] by (simp add: post_def)
  next
    case 9
    then show ?thesis using run send_ok [OF t cu] c(1) unfolding handle_syscall_def Let_def
      by (fold c_def, fold s_def) simp
  next
    case 10
    then show ?thesis using run recv_ok [OF t cu] c(1) unfolding handle_syscall_def Let_def
      by (fold c_def, fold s_def) simp
  next
    case 11
    then show ?thesis using run reply_ok [OF t cu] c(1) unfolding handle_syscall_def Let_def
      by (fold c_def, fold s_def) simp
  next
    case 12
    then have "s' = shutdown_all_processes s" using run unfolding handle_syscall_def Let_def
      by (fold c_def, fold s_def) simp
    then show ?thesis by (simp add: kernel_inv_def shutdown_all_processes_def Let_def)
  next
    case 13
    then obtain m a where m: "known_memory_lock (k_mem s) (sint (a0 f)) (unat (a1 f)) (int (p_pidx (proc_at s c))) = Some (Ret (m, a))"
      "ok_a0 c (of_nat a) (set_mem m s) = Some (Ret s')"
      using run unfolding handle_syscall_def Let_def by (fold c_def, fold s_def) (auto simp: kr_bind_Ret)
    from runs_regs [OF mem_runs [OF t cu] m(2)] locked_owns [OF inv m(1)] show ?thesis by blast
  next
    case 14
    then show ?thesis using run r unfolding handle_syscall_def Let_def by (fold c_def, fold s_def) simp
  next
    case 15
    then have "sys_proc_spawn s c = Some (Ret s')" using run unfolding handle_syscall_def Let_def
      by (fold c_def, fold s_def) simp
    then show ?thesis using sys_proc_spawn_ok [OF t cu] by (simp add: post_def)
  next
    case 16
    then show ?thesis using run unfolding handle_syscall_def Let_def by (fold c_def, fold s_def) auto
  qed
qed

lemma kernel_step_inv:
  assumes inv: "kernel_inv s" and run: "kernel_step s e = Some s'"
  shows "kernel_inv s'"
proof -
  have t: "table_ok s" and c: "current_ok s" using inv run by (auto simp: kernel_inv_def kernel_step_def split: if_splits)
  show ?thesis
  proof (cases e)
    case (Ev_syscall f)
    with run handle_syscall_ok [OF t c] show ?thesis by (simp add: kernel_step_def returned_Some split: if_splits)
  next
    case Ev_crash
    then have "handle_crash s = Some (Ret s')" using run by (simp add: kernel_step_def returned_Some split: if_splits)
    with current_terminates [OF t c] show ?thesis by (auto simp: handle_crash_def split: option.splits)
  next
    case (Ev_store a b)
    then have "s' = set_mem ((k_mem s)\<lparr>m_ram := m_ram (store_bytes a [b] (k_mem s))\<rparr>) s"
      using run by (auto simp: kernel_step_def store_bytes_def split: if_splits)
    with table_ram [OF t] current_ok_frame [OF c, of s'] show ?thesis by (auto intro: kernel_inv_run)
  qed
qed

interpretation machine: step_inv kernel_step kernel_inv
  by unfold_locales (rule kernel_step_inv)

end
