(* ===== verification/KernelProps.thy ===== *)
theory KernelProps
  imports KernelInv
begin

text \<open>
  The properties of the kernel: booting establishes the invariant and every run keeps it; a
  process serves its callers in the order of their calls; a call and its reply; the choice of
  the scheduler; and the ways a caller is left behind.
\<close>

section \<open>The requests of a process, in order\<close>

declare option.case_cong_weak [cong del]

definition requests :: "kstate \<Rightarrow> nat \<Rightarrow> (nat \<times> ipc_message) list" where
  "requests s v = (case p_blocked_sender (proc_at s v) of None \<Rightarrow> []
     | Some b \<Rightarrow> (b, p_pending_message (proc_at s v)) # map (\<lambda>q. (q_sender q, q_message q)) (p_queue (proc_at s v)))"

definition message_of :: "kstate \<Rightarrow> nat \<Rightarrow> trap_regs \<Rightarrow> ipc_message" where
  "message_of s c f = \<lparr>im_sender_pid = p_pid (proc_at s c), im_method_and_flags = a1 f, im_arg0 = a2 f, im_arg1 = a4 f, im_arg2 = a5 f\<rparr>"

lemma requests_core: "core_step s s' \<Longrightarrow> requests s' v = requests s v"
  by (simp add: requests_def core_step_def same_core_def split: option.split)

lemma requests_frame: "proc_at s' v = proc_at s v \<Longrightarrow> requests s' v = requests s v"
  by (simp add: requests_def split: option.split)

lemma requests_keep:
  "(\<And>p. p_blocked_sender (f p) = p_blocked_sender p \<and> p_queue (f p) = p_queue p \<and> p_pending_message (f p) = p_pending_message p) \<Longrightarrow>
   requests (set_proc i f s) v = requests s v"
  by (simp add: requests_def split: option.split)

lemma free_queue:
  assumes "table_ok s" and "v < procs_max" and "p_blocked_sender (proc_at s v) = None"
  shows "p_queue (proc_at s v) = []"
  using table_locks [OF assms(1,2)] assms(3) by (auto simp: lock_of_def)

lemma lookup_pid_bound: "lookup_pid_from qs ps i pid = Some j \<Longrightarrow> j < i + length ps \<and> i \<le> j"
  by (induction qs ps i pid rule: lookup_pid_from.induct) (auto split: if_splits)

lemma lookup_by_pid_bound: "table_ok s \<Longrightarrow> process_lookup_by_pid s pid = Some v \<Longrightarrow> v < procs_max"
  using lookup_pid_bound [of "process_pids s" "procs s" 0 pid v] table_len [of s] by (simp add: process_lookup_by_pid_def)

text \<open>A request is accepted when the target exists and its queue has room.\<close>

definition accepts :: "kstate \<Rightarrow> trap_regs \<Rightarrow> nat \<Rightarrow> bool" where
  "accepts s f v \<longleftrightarrow> process_lookup_by_pid s (unat (a0 f)) = Some v \<and> length (requests s v) \<le> procs_max"

lemma send_requests:
  assumes t: "table_ok s" and c: "c < procs_max" and run: "sys_ipc_send s c f = Some (Ret s')"
  shows "requests s' w = requests s w @ (if accepts s f w then [(c, message_of s c f)] else [])"
proof (cases "process_lookup_by_pid s (unat (a0 f))")
  case None
  then have "s' = set_regs c (\<lambda>f. f\<lparr>a0 := error_pid_not_found, a1 := 0, a2 := 0\<rparr>) s"
    using run by (simp add: sys_ipc_send_def Let_def)
  with None show ?thesis by (simp add: accepts_def requests_core [OF core_set_regs])
next
  case (Some i)
  then obtain v where v: "process_lookup_by_pidx s (int i) = Some v"
    using run by (auto simp: sys_ipc_send_def Let_def split: option.splits)
  note vr = lookup_running [OF v]
  have vi: "v = i" "v < procs_max" using vr by auto
  have len: "length (procs s) = procs_max" by (rule table_len [OF t])
  show ?thesis
  proof (cases "p_blocked_sender (proc_at s v)")
    case blocked: (Some b)
    show ?thesis
    proof (cases "length (p_queue (proc_at s v)) \<ge> procs_max")
      case True
      then have "s' = set_regs c (\<lambda>f. f\<lparr>a0 := error_queue_full, a1 := 0, a2 := 0\<rparr>) s"
        using run Some v blocked by (simp add: sys_ipc_send_def Let_def)
      moreover have "\<not> accepts s f w" using True Some vi blocked by (auto simp: accepts_def requests_def)
      ultimately show ?thesis by (simp add: requests_core [OF core_set_regs])
    next
      case False
      define s1 where "s1 = set_proc v (\<lambda>p. p\<lparr>p_queue := p_queue p @
        [\<lparr>q_sender = c, q_message = message_of s c f, q_has_comm_data = send_comm_data (a1 f)\<rparr>]\<rparr>) s"
      have y: "yield C_send (set_proc c (\<lambda>p. p\<lparr>p_state := IPC_SEND_WAIT\<rparr>) s1) = Some (Ret s')"
        using run Some v blocked False by (simp add: sys_ipc_send_def Let_def s1_def message_of_def)
      have "requests s' w = requests s1 w"
        unfolding requests_core [OF core_yield [OF y]] by (rule requests_keep) simp
      moreover have "requests s1 w = requests s w @ (if w = v then [(c, message_of s c f)] else [])"
        using blocked vi len by (simp add: s1_def requests_def)
      moreover have "accepts s f w \<longleftrightarrow> w = v" using False Some vi blocked by (auto simp: accepts_def requests_def)
      ultimately show ?thesis by simp
    qed
  next
    case None
    define s1 where "s1 = (if send_comm_data (a1 f) then copy_comm v c s else s)"
    define s2 where "s2 = set_proc v (\<lambda>p. p\<lparr>p_pending_message := message_of s c f, p_has_pending := True, p_blocked_sender := Some c\<rparr>) s1"
    have s1: "proc_at s1 i = proc_at s i" "length (procs s1) = procs_max" for i using len by (simp_all add: s1_def)
    have r2: "requests s2 w = requests s w @ (if w = v then [(c, message_of s c f)] else [])"
      using None free_queue [OF t vi(2) None] vi s1 by (simp add: s2_def requests_def)
    have "accepts s f w \<longleftrightarrow> w = v" using Some vi None by (auto simp: accepts_def requests_def)
    moreover have "requests s' w = requests s2 w"
    proof (cases "p_state (proc_at s2 v) = IPC_RECV_WAIT")
      case True
      then have "s' = process_switch_to v C_send (set_proc v (\<lambda>p. p\<lparr>p_state := RUNNABLE\<rparr>) s2)"
        using run Some v None by (simp add: sys_ipc_send_def Let_def s2_def s1_def message_of_def)
      then show ?thesis by (simp add: requests_core [OF core_switch] requests_keep)
    next
      case False
      then have "yield C_send (set_proc c (\<lambda>p. p\<lparr>p_state := IPC_SEND_WAIT\<rparr>) s2) = Some (Ret s')"
        using run Some v None by (simp add: sys_ipc_send_def Let_def s2_def s1_def message_of_def)
      from requests_core [OF core_yield [OF this]] show ?thesis by (simp add: requests_keep)
    qed
    ultimately show ?thesis using r2 by simp
  qed
qed

lemma activate_others: "w \<noteq> i \<Longrightarrow> proc_at (activate_next i s) w = proc_at s w"
  by (auto simp: activate_next_def Let_def split: list.split)

lemma activate_requests:
  assumes "length (procs s) = procs_max" and "i < procs_max" and "p_blocked_sender (proc_at s i) = None"
  shows "requests (activate_next i s) w =
    (if w = i then map (\<lambda>q. (q_sender q, q_message q)) (p_queue (proc_at s i)) else requests s w)"
proof (cases "w = i")
  case False
  then show ?thesis using requests_frame [OF activate_others] by simp
next
  case True
  have "p_blocked_sender (proc_at (activate_next i s) i) = Some (q_sender r) \<and>
      p_pending_message (proc_at (activate_next i s) i) = q_message r \<and> p_queue (proc_at (activate_next i s) i) = qs"
    if "p_queue (proc_at s i) = r # qs" for r qs
    using that assms by (simp add: activate_next_def Let_def)
  moreover have "activate_next i s = s" if "p_queue (proc_at s i) = []" using that by (simp add: activate_next_def)
  ultimately show ?thesis using True assms(3) by (cases "p_queue (proc_at s i)") (simp_all add: requests_def)
qed

lemma reply_requests:
  assumes t: "table_ok s" and c: "c < procs_max" and run: "sys_ipc_reply s c f = Some (Ret s')"
  shows "requests s' w = (if w = c then tl (requests s c) else requests s w)"
proof (cases "p_blocked_sender (proc_at s c)")
  case None
  with run show ?thesis by (simp add: sys_ipc_reply_def requests_def)
next
  case (Some b)
  define s1 where "s1 = set_proc b (\<lambda>p. p\<lparr>p_pending_response :=
    \<lparr>ir_error = a0 f, ir_value0 = a1 f, ir_value1 = a2 f, ir_value2 = a4 f\<rparr>\<rparr>) s"
  define s2 where "s2 = (if recv_comm_data (im_method_and_flags (p_pending_message (proc_at s1 c))) then copy_comm b c s1 else s1)"
  define s3 where "s3 = set_proc c (\<lambda>p. p\<lparr>p_blocked_sender := None\<rparr>) s2"
  have s': "s' = process_switch_to b C_user (set_proc b (\<lambda>p. p\<lparr>p_state := RUNNABLE\<rparr>) (activate_next c s3))"
    using run unfolding sys_ipc_reply_def Some Let_def option.case s1_def s2_def s3_def by (simp only: ret_Ret)
  have len: "length (procs s2) = procs_max" using table_len [OF t] by (simp add: s2_def s1_def)
  have p2: "p_queue (proc_at s2 i) = p_queue (proc_at s i)" "requests s2 i = requests s i" for i
    by (simp_all add: s2_def s1_def requests_def)
  have "requests s' w = requests (activate_next c s3) w"
    unfolding s' requests_core [OF core_switch] by (rule requests_keep) simp
  also have "\<dots> = (if w = c then map (\<lambda>q. (q_sender q, q_message q)) (p_queue (proc_at s3 c)) else requests s3 w)"
    using len c by (intro activate_requests) (simp_all add: s3_def)
  also have "\<dots> = (if w = c then tl (requests s c) else requests s w)"
    using len c Some p2 by (simp add: s3_def requests_def)
  finally show ?thesis .
qed

lemma recv_requests:
  assumes "sys_ipc_recv s c = Some (Ret s')"
  shows "requests s' w = requests s w"
proof (cases "p_has_pending (proc_at s c)")
  case True
  then have "s' = take_message c s" using assms by (simp add: sys_ipc_recv_def)
  then show ?thesis by (simp add: take_message_def requests_keep set_regs_def)
next
  case False
  then have "yield C_recv (set_proc c (\<lambda>p. p\<lparr>p_state := IPC_RECV_WAIT\<rparr>) s) = Some (Ret s')"
    using assms by (simp add: sys_ipc_recv_def)
  from requests_core [OF core_yield [OF this]] show ?thesis by (simp add: requests_keep)
qed

section \<open>Calls that return to the caller at once\<close>

text \<open>
  All calls but the three of the messages and those that end a process change, in the table,
  only registers, and fill slots that were free.
\<close>

definition quiet :: "kstate \<Rightarrow> kstate \<Rightarrow> bool" where
  "quiet s s' \<longleftrightarrow> current_proc s' = current_proc s \<and>
     (\<forall>i. (\<exists>r. proc_at s' i = (proc_at s i)\<lparr>p_regs := r\<rparr>) \<or>
       \<not> used s i \<and> i < procs_max \<and> p_blocked_sender (proc_at s' i) = None \<and> p_queue (proc_at s' i) = [])"

lemma quiet_refl [simp]: "quiet s s"
proof -
  have "p = p\<lparr>p_regs := p_regs p\<rparr>" for p :: proc by simp
  then show ?thesis unfolding quiet_def by blast
qed

lemma quiet_regs:
  assumes "quiet s s'"
  shows "quiet s (set_regs c f s')"
proof -
  have "\<exists>r. proc_at (set_regs c f s') i = (proc_at s i)\<lparr>p_regs := r\<rparr>" if "\<exists>r. proc_at s' i = (proc_at s i)\<lparr>p_regs := r\<rparr>" for i
    using that by (auto simp: set_regs_def)
  moreover have "p_blocked_sender (proc_at (set_regs c f s') i) = p_blocked_sender (proc_at s' i)"
    "p_queue (proc_at (set_regs c f s') i) = p_queue (proc_at s' i)" "current_proc (set_regs c f s') = current_proc s'" for i
    by (simp_all add: set_regs_def)
  ultimately show ?thesis using assms unfolding quiet_def by metis
qed

lemma quiet_procs:
  "procs s' = procs s1 \<Longrightarrow> current_proc s' = current_proc s1 \<Longrightarrow> quiet s s1 \<Longrightarrow> quiet s s'"
  by (simp add: quiet_def proc_at_def)

lemma quiet_ok_a0: "quiet s s' \<Longrightarrow> post (quiet s) (ok_a0 c v s')"
  unfolding ok_a0_def by (intro post_ret quiet_regs)

lemma quiet_spawn:
  assumes t: "table_ok s" and run: "kernel_spawn_process s name argv = Some (Ret (s', pid))"
  shows "quiet s s'"
proof (cases "is_valid_program name")
  case False
  with run show ?thesis by (simp add: kernel_spawn_process_def)
next
  case True
  then obtain i where "process_create_impl s name User_program_main (Some argv) False = Some (Ret (s', Some i))"
    using run by (auto simp: kernel_spawn_process_def process_create_def kr_bind_Ret split: option.splits)
  from create_ok [OF t this] obtain p m where *: "i < procs_max" "\<not> used s i" "s' = add_proc s i p m"
      "p_blocked_sender p = None" "p_queue p = []" by (auto simp: created_def)
  have at: "proc_at s' j = (if j = i then p else proc_at s j)" for j
    using * table_len [OF t] by (cases "j = i") (auto simp: add_proc_def proc_at_def)
  have "current_proc s' = current_proc s" using *(3) by (simp add: add_proc_def)
  then show ?thesis using * quiet_refl [of s] unfolding quiet_def at by auto
qed

lemma quiet_after_regs:
  assumes "quiet (set_regs c g s) s'"
  shows "quiet s s'"
proof -
  have "used (set_regs c g s) i = used s i" "(proc_at (set_regs c g s) i)\<lparr>p_regs := r\<rparr> = (proc_at s i)\<lparr>p_regs := r\<rparr>"
    "current_proc (set_regs c g s) = current_proc s" for i r
    by (simp_all add: set_regs_def used_def)
  with assms show ?thesis unfolding quiet_def by simp
qed

lemma kpost_mono: "post P r \<Longrightarrow> (\<And>x. P x \<Longrightarrow> Q x) \<Longrightarrow> post Q r"
  by (auto simp: post_def)

lemma quiet_spawn_call: "table_ok s \<Longrightarrow> post (quiet s) (sys_proc_spawn s k)"
  unfolding sys_proc_spawn_def spawn_fail_def
  by (intro post_intros quiet_ok_a0) (simp_all, auto dest: quiet_spawn)

lemma quiet_out: "quiet s s1 \<Longrightarrow> quiet s (s1\<lparr>k_out := x\<rparr>)" "quiet s s1 \<Longrightarrow> quiet s (s1\<lparr>k_in := y\<rparr>)"
  "quiet s s1 \<Longrightarrow> quiet s (set_mem m s1)"
  by (rule quiet_procs [of _ s1]; simp)+

lemma quiet_io_puts: "post (quiet s) (sys_io_puts s k)"
  unfolding sys_io_puts_def
  by (intro post_intros quiet_ok_a0 post_ret quiet_out quiet_refl) (simp add: quiet_regs)

lemma quiet_lookup: "post (quiet s) (sys_proc_lookup s k)"
  unfolding sys_proc_lookup_def by (intro post_intros quiet_ok_a0 post_ret) simp_all

text \<open>The calls 2, 3, 5, 6, 7, 8, 13, 14 and 15.\<close>

lemma quiet_calls:
  assumes t: "table_ok s" and n: "unat (a3 f) \<notin> {1, 4, 9, 10, 11, 12}"
  shows "post (quiet s) (handle_syscall s f)"
proof -
  define c where "c = get_current s"
  define s1 where "s1 = set_regs c (\<lambda>_. f\<lparr>a0 := 0\<rparr>) s"
  have t1: "table_ok s1" using core_step_table [OF core_set_regs] t unfolding s1_def by blast
  let ?n = "unat (a3 f)"
  note sys = handle_syscall_def [of s f, unfolded Let_def, folded c_def, folded s1_def]
  note q = quiet_ok_a0 [OF quiet_refl, of s1] quiet_ok_a0 [OF quiet_out(1) [OF quiet_refl]]
    quiet_ok_a0 [OF quiet_out(2) [OF quiet_refl]]
  have m: "post (quiet s1) (kr_bind r (\<lambda>(m, a). ok_a0 c (of_nat a) (set_mem m s1)))" for r
    by (intro post_intros quiet_ok_a0 quiet_out quiet_refl)
  consider "?n = 2" | "?n = 3" | "?n = 5" | "?n = 6" | "?n = 7" | "?n = 8" | "?n = 13" | "?n = 14" | "?n = 15"
    | "\<not> (?n = 1 \<or> ?n = 2 \<or> ?n = 3 \<or> ?n = 4 \<or> ?n = 5 \<or> ?n = 6 \<or> ?n = 7 \<or> ?n = 8 \<or>
      ?n = 9 \<or> ?n = 10 \<or> ?n = 11 \<or> ?n = 12 \<or> ?n = 13 \<or> ?n = 14 \<or> ?n = 15)" using n by blast
  then have "post (quiet s1) (handle_syscall s f)"
  proof cases
    case 1
    with q(2) show ?thesis unfolding sys by simp
  next
    case 2
    with q show ?thesis unfolding sys by (simp split: list.split)
  next
    case 3
    have "kr_bind (process_alloc_mapped_pages s1 c k) (\<lambda>(s, a). ok_a0 c (of_nat a) s) =
        kr_bind (page_allocate (k_mem s1) (int (p_pidx (proc_at s1 c))) k) (\<lambda>(m, a). ok_a0 c (of_nat a) (set_mem m s1))" for k
      unfolding process_alloc_mapped_pages_def
      by (cases "page_allocate (k_mem s1) (int (p_pidx (proc_at s1 c))) k" rule: returned.cases) (auto simp: ret_def)
    with 3 m show ?thesis unfolding sys by simp
  next
    case 4
    with q(1) show ?thesis unfolding sys sys_get_sys_page_def by simp
  next
    case 5
    with quiet_io_puts show ?thesis unfolding sys by simp
  next
    case 6
    with quiet_lookup show ?thesis unfolding sys by simp
  next
    case 7
    with m show ?thesis unfolding sys by simp
  next
    case 8
    with q(1) show ?thesis unfolding sys by simp
  next
    case 9
    with quiet_spawn_call [OF t1] show ?thesis unfolding sys by simp
  next
    case 10
    then have "handle_syscall s f = panic" unfolding sys by (simp only: de_Morgan_disj if_False)
    then show ?thesis by (simp add: post_def)
  qed
  then show ?thesis by (rule kpost_mono) (simp add: s1_def quiet_after_regs)
qed

lemma quiet_requests:
  assumes t: "table_ok s" and q: "quiet s s'" and w: "w < procs_max"
  shows "requests s' w = requests s w"
proof -
  have "(\<exists>r. proc_at s' w = (proc_at s w)\<lparr>p_regs := r\<rparr>) \<or> \<not> used s w \<and> w < procs_max \<and>
      p_blocked_sender (proc_at s' w) = None \<and> p_queue (proc_at s' w) = []"
    using q unfolding quiet_def by (elim conjE) (rule spec)
  then show ?thesis
  proof (elim disjE exE conjE)
    fix r
    assume "proc_at s' w = (proc_at s w)\<lparr>p_regs := r\<rparr>"
    then show ?thesis by (simp add: requests_def)
  next
    assume "\<not> used s w" "p_blocked_sender (proc_at s' w) = None"
    then show ?thesis using table_locks [OF t w] by (simp add: requests_def lock_of_def used_def)
  qed
qed

section \<open>What one step can do to the others\<close>

text \<open>
  A list of requests is left alone, loses its head to the process itself, or gets a request
  of the current process at its end; another process changes its kind of waiting only when it
  waited for a message, or when its request was the one being answered.
\<close>

definition effect :: "kstate \<Rightarrow> nat \<Rightarrow> kstate \<Rightarrow> bool" where
  "effect s c s' \<longleftrightarrow>
     (\<forall>w<procs_max. requests s' w = requests s w \<or> w = c \<and> requests s' w = tl (requests s w) \<or>
        (\<exists>m. requests s' w = requests s w @ [(c, m)])) \<and>
     (\<forall>i<procs_max. i \<noteq> c \<longrightarrow> used s i \<longrightarrow> p_state (proc_at s' i) = p_state (proc_at s i) \<or>
        p_state (proc_at s i) = IPC_RECV_WAIT \<or> (\<exists>m rest. requests s c = (i, m) # rest))"

lemma switch_state [simp]: "p_state (proc_at (process_switch_to t k s) i) = p_state (proc_at s i)"
  by (simp add: process_switch_to_def proc_at_resume)

lemma yield_state: "yield k s = Some (Ret s') \<Longrightarrow> p_state (proc_at s' i) = p_state (proc_at s i)"
  by (auto simp: yield_def Let_def proc_at_resume split: option.splits if_splits)

lemma yield_effect:
  assumes "yield k (set_proc c (\<lambda>p. p\<lparr>p_state := st\<rparr>) s) = Some (Ret s')"
  shows "effect s c s'"
  unfolding effect_def
proof (intro conjI allI impI disjI1)
  show "requests s' w = requests s w" for w
    unfolding requests_core [OF core_yield [OF assms]] by (rule requests_keep) simp
  fix i
  assume "i \<noteq> c"
  then show "p_state (proc_at s' i) = p_state (proc_at s i)" using yield_state [OF assms] by simp
qed

lemma quiet_effect:
  assumes t: "table_ok s" and q: "quiet s s'"
  shows "effect s c s'"
  unfolding effect_def
proof (intro conjI allI impI disjI1)
  show "requests s' w = requests s w" if "w < procs_max" for w by (rule quiet_requests [OF t q that])
  fix i
  assume u: "used s i"
  have "(\<exists>r. proc_at s' i = (proc_at s i)\<lparr>p_regs := r\<rparr>) \<or> \<not> used s i \<and> i < procs_max \<and>
      p_blocked_sender (proc_at s' i) = None \<and> p_queue (proc_at s' i) = []"
    using q unfolding quiet_def by (elim conjE) (rule spec)
  with u show "p_state (proc_at s' i) = p_state (proc_at s i)" by auto
qed

lemma send_state:
  assumes run: "sys_ipc_send s c f = Some (Ret s')" and i: "i \<noteq> c"
  shows "p_state (proc_at s' i) = p_state (proc_at s i) \<or> p_state (proc_at s i) = IPC_RECV_WAIT"
proof -
  have y: "p_state (proc_at s2 i) = p_state (proc_at s1 i)" if "yield C_send (set_proc c (\<lambda>p. p\<lparr>p_state := IPC_SEND_WAIT\<rparr>) s1) = Some (Ret s2)" for s1 s2
    using yield_state [OF that] i by simp
  show ?thesis
    using run i by (auto simp: sys_ipc_send_def Let_def set_regs_def dest!: y split: option.splits if_splits)
qed

lemma reply_state:
  assumes run: "sys_ipc_reply s c f = Some (Ret s')" and i: "i \<noteq> c"
  shows "p_state (proc_at s' i) = p_state (proc_at s i) \<or> (\<exists>m rest. requests s c = (i, m) # rest)"
proof (cases "p_blocked_sender (proc_at s c)")
  case None
  with run show ?thesis by (simp add: sys_ipc_reply_def)
next
  case (Some b)
  then show ?thesis
    using run by (cases "i = b") (auto simp: sys_ipc_reply_def Let_def requests_def split: if_splits)
qed

lemma recv_effect:
  assumes run: "sys_ipc_recv s c = Some (Ret s')"
  shows "effect s c s'"
proof (cases "p_has_pending (proc_at s c)")
  case True
  then have s': "s' = take_message c s" using run by (simp add: sys_ipc_recv_def)
  have "p_state (proc_at s' i) = p_state (proc_at s i)" for i unfolding s' by (simp add: take_message_def set_regs_def)
  with recv_requests [OF run] show ?thesis by (simp add: effect_def)
next
  case False
  with run yield_effect show ?thesis by (simp add: sys_ipc_recv_def)
qed

lemma effect_regs:
  assumes "effect (set_regs c g s) c s'"
  shows "effect s c s'"
proof -
  have "requests (set_regs c g s) w = requests s w" for w by (rule requests_core [OF core_set_regs])
  moreover have "used (set_regs c g s) i = used s i" "p_state (proc_at (set_regs c g s) i) = p_state (proc_at s i)" for i
    by (simp_all add: set_regs_def used_def)
  ultimately show ?thesis using assms by (simp add: effect_def)
qed

lemma syscall_effect:
  assumes t0: "table_ok s0" and c0: "current_ok s0" and run: "handle_syscall s0 f = Some (Ret s')" and live: "\<not> k_exited s'"
  shows "effect s0 (get_current s0) s'"
proof -
  define c where "c = get_current s0"
  define s where "s = set_regs c (\<lambda>_. f\<lparr>a0 := 0\<rparr>) s0"
  have t: "table_ok s" and cu: "current_ok s" using regs_keep [OF t0 c0] by (simp_all add: s_def)
  have cur: "current_proc s0 = Some c" "c < procs_max" using current_facts [OF c0] by (metis c_def)+
  have cs: "current_proc s = Some c" using cur by (simp add: s_def set_regs_def)
  let ?n = "unat (a3 f)"
  note sys = handle_syscall_def [of s0 f, unfolded Let_def, folded c_def, folded s_def]
  have lift: "effect s c s' \<Longrightarrow> effect s0 c s'" unfolding s_def by (rule effect_regs)
  consider "?n = 1" | "?n = 4" | "?n = 9" | "?n = 10" | "?n = 11" | "?n = 12" | "?n \<notin> {1, 4, 9, 10, 11, 12}" by auto
  then have "effect s0 c s'"
  proof cases
    case 1
    then have y: "yield C_user s = Some (Ret s')" using run unfolding sys by simp
    have "effect s c s'" unfolding effect_def using requests_core [OF core_yield [OF y]] yield_state [OF y] by simp
    then show ?thesis by (rule lift)
  next
    case 2
    then have "sys_exit s = Some (Ret s')" using run unfolding sys by simp
    then show ?thesis using cs by (intro lift yield_effect [of C_user c TERMINATED]) (simp add: sys_exit_def)
  next
    case 3
    then have r: "sys_ipc_send s c f = Some (Ret s')" using run unfolding sys by simp
    have "effect s c s'" unfolding effect_def
      using send_requests [OF t cur(2) r] send_state [OF r] by auto
    then show ?thesis by (rule lift)
  next
    case 4
    then have "sys_ipc_recv s c = Some (Ret s')" using run unfolding sys by simp
    then show ?thesis by (intro lift recv_effect)
  next
    case 5
    then have r: "sys_ipc_reply s c f = Some (Ret s')" using run unfolding sys by simp
    have "effect s c s'" unfolding effect_def
      using reply_requests [OF t cur(2) r] reply_state [OF r] by auto
    then show ?thesis by (rule lift)
  next
    case 6
    then have "s' = shutdown_all_processes s" using run unfolding sys by simp
    with live show ?thesis by (simp add: shutdown_all_processes_def Let_def)
  next
    case 7
    from quiet_calls [OF t0 this] run have "quiet s0 s'" by (simp add: post_def)
    then show ?thesis by (rule quiet_effect [OF t0])
  qed
  then show ?thesis by (simp add: c_def)
qed

lemma step_effect:
  assumes inv: "kernel_inv s" and run: "kernel_step s e = Some s'" and live: "\<not> k_exited s'"
  shows "effect s (get_current s) s'"
proof -
  have t: "table_ok s" and c: "current_ok s" using inv run by (auto simp: kernel_inv_def kernel_step_def split: if_splits)
  obtain k where k: "current_proc s = Some k" "get_current s = k" using current_facts [OF c] by metis
  show ?thesis
  proof (cases e)
    case (Ev_syscall f)
    with run syscall_effect [OF t c _ live] show ?thesis by (simp add: kernel_step_def returned_Some split: if_splits)
  next
    case Ev_crash
    then have "handle_crash s = Some (Ret s')" using run by (simp add: kernel_step_def returned_Some split: if_splits)
    then show ?thesis unfolding k(2) using k(1) by (intro yield_effect [of C_user k TERMINATED]) (simp add: handle_crash_def)
  next
    case (Ev_store a b)
    then have "s' = set_mem (store_bytes a [b] (k_mem s)) s" using run by (simp add: kernel_step_def split: if_splits)
    then have "proc_at s' i = proc_at s i" for i by simp
    then show ?thesis using requests_frame [of s' _ s] by (simp add: effect_def)
  qed
qed

section \<open>Creation succeeds while there is room\<close>

definition free_pages :: "memory \<Rightarrow> nat \<Rightarrow> bool" where
  "free_pages m n \<longleftrightarrow> (\<exists>xs. page_rep m xs \<and> n \<le> length xs)"

lemma free_pages_mono: "free_pages m n \<Longrightarrow> k \<le> n \<Longrightarrow> free_pages m k"
  unfolding free_pages_def using le_trans by blast

lemma alloc_one:
  assumes "free_pages m (Suc n)"
  shows "\<exists>m' a. page_allocate m p 1 = Some (Ret (m', a)) \<and> a \<noteq> 0 \<and> free_pages m' n"
proof -
  obtain xs where xs: "page_rep m xs" "Suc n \<le> length xs" using assms by (auto simp: free_pages_def)
  then obtain x ys where x: "xs = x # ys" "n \<le> length ys" by (cases xs) auto
  then have "first_run 1 [] [] xs = Some ([], [x], ys)" by simp
  from page_allocate_run [OF xs(1) _ this, of p] obtain m' where
    m': "page_allocate m p 1 = Some (Ret (m', pg_addr (m_infos m ! x)))" "page_rep m' ys" by auto
  have "page_wf m" "seg (m_infos m) (m_free m) xs None" using xs(1) by (simp_all add: page_rep_def)
  then have "pg_addr (m_infos m ! x) \<noteq> 0" using x(1) by (simp add: page_wf_def)
  with m' x(2) show ?thesis by (auto simp: free_pages_def)
qed

lemma free_pages_frame [simp]:
  "free_pages (store_bytes a bs m) n = free_pages m n" "free_pages (memset_zero a k m) n = free_pages m n"
  "free_pages (memory_increment_process_count m) n = free_pages m n"
  by (simp_all add: free_pages_def store_bytes_def memset_zero_def memory_increment_process_count_def page_rep_def page_wf_def)

lemma create_total:
  assumes t: "table_ok s" and slot: "i < procs_max" "\<not> used s i" and pages: "free_pages (k_mem s) (n + 4)"
  shows "\<exists>s' j. process_create_impl s name e args km = Some (Ret (s', Some j)) \<and> free_pages (k_mem s') n"
proof -
  have len: "length (procs s) = procs_max" using table_len [OF t] .
  have "\<not> (\<forall>p\<in>set (procs s). p_state p \<noteq> UNUSED)"
    using slot len nth_mem [of i "procs s"] by (auto simp: used_def proc_at_def)
  then obtain j where j: "find_unused (procs s) 0 = Some j" using find_unused_None by blast
  have jl: "j < length (procs s)" using find_unused_Some [OF j] by simp
  let ?p0 = "fresh_proc s j name km"
  have px: "p_pidx ?p0 = j" by (simp add: fresh_proc_def)
  note forms = add_proc_forms(1-3) [OF jl] write_added [OF jl]
  have alloc: "\<exists>m' a. alloc_page_or_panic (add_proc s j p m) j = Some (Ret (add_proc s j p m', a)) \<and> free_pages m' k"
    if "p_pidx p = j" "free_pages m (Suc k)" for p m k
    using alloc_one [OF that(2), of "int j"] alloc_added [OF jl that(1)] by metis
  have pages': "free_pages (k_mem s) (Suc (Suc (Suc (Suc n))))" using pages by (simp add: eval_nat_numeral)
  obtain m1 comm where a1: "alloc_page_or_panic (add_proc s j (?p0\<lparr>p_user_pc := e\<rparr>) (k_mem s)) j =
      Some (Ret (add_proc s j (?p0\<lparr>p_user_pc := e\<rparr>) m1, comm))" "free_pages m1 (Suc (Suc (Suc n)))"
    using alloc [of "?p0\<lparr>p_user_pc := e\<rparr>", OF _ pages'] px by auto
  let ?p2 = "?p0\<lparr>p_user_pc := e, p_comm_page := comm\<rparr>" and ?m1 = "store_bytes comm (mw_bytes (mw_nil (mw_init page_size))) m1"
  obtain m2 storage where a2: "alloc_page_or_panic (add_proc s j ?p2 ?m1) j = Some (Ret (add_proc s j ?p2 m2, storage))"
      "free_pages m2 (Suc (Suc n))"
    using alloc [of ?p2 ?m1 "Suc (Suc n)"] px a1(2) by auto
  let ?p3 = "?p2\<lparr>p_storage_page := storage\<rparr>" and ?m2 = "memset_zero storage page_size m2"
  obtain m3 ustack where a3: "alloc_page_or_panic (add_proc s j ?p3 ?m2) j = Some (Ret (add_proc s j ?p3 m3, ustack))"
      "free_pages m3 (Suc n)"
    using alloc [of ?p3 ?m2 "Suc n"] px a2(2) by auto
  let ?p4 = "?p3\<lparr>p_user_stack := ustack\<rparr>"
  obtain m4 arg where a4: "alloc_page_or_panic (add_proc s j ?p4 m3) j = Some (Ret (add_proc s j ?p4 m4, arg))" "free_pages m4 n"
    using alloc [of ?p4 m3 n] px a3(2) by auto
  have run: "process_create_impl s name e args km =
     kr_bind (case args of None \<Rightarrow> ret (add_proc s j ?p4 m3)
                      | Some argv \<Rightarrow> kr_bind (alloc_page_or_panic (add_proc s j ?p4 m3) j) (\<lambda>(s, arg).
                          ret (set_proc j (\<lambda>p. p\<lparr>p_arg_page := arg\<rparr>)
                            (write_page arg (\<lambda>w. mw_stringarray (mw_cstr (mw_map w 1) (Some ''args'')) argv) s))))
                    (\<lambda>s. ret (set_mem (memory_increment_process_count (k_mem s)) s, Some j))"
    unfolding create_impl_Some [OF t j] Let_def
    by (simp add: forms a1(1) a2(1) a3(1))
  show ?thesis
  proof (cases args)
    case None
    then show ?thesis using run free_pages_mono [OF a3(2)] by (simp add: forms)
  next
    case (Some argv)
    then show ?thesis using run a4 by (simp add: forms)
  qed
qed

section \<open>Booting\<close>

definition boot_kernel :: "kstate \<Rightarrow> bool" where
  "boot_kernel s \<longleftrightarrow> procs s = replicate procs_max zero_proc \<and> current_proc s = None \<and> idle_proc s = None \<and>
     process_pids s = replicate procs_max pid_none \<and> proc_pid_counter s = 1 \<and> boot_state (k_mem s) \<and> \<not> k_exited s"

lemma empty_table:
  assumes "procs s = replicate procs_max zero_proc" and "process_pids s = replicate procs_max pid_none"
    and "proc_pid_counter s = 1" and "pool_inv (k_mem s)"
  shows "table_ok s"
proof -
  have at: "i < procs_max \<Longrightarrow> proc_at s i = zero_proc" for i using assms(1) by (simp add: proc_at_def)
  then have u: "i < procs_max \<Longrightarrow> \<not> used s i" for i by (simp add: used_def zero_proc_def)
  then have "{i. i < procs_max \<and> used s i} = {}" by auto
  then have c: "card {i. i < procs_max \<and> used s i} = 0" by (simp only: card.empty)
  have "identity_ok s" unfolding identity_ok_def c using assms u by simp
  moreover have "locks_ok s" by (simp add: locks_ok_def lock_ok_def at) (simp add: zero_proc_def)
  moreover have "pages_ok s" using assms(4) u by (simp add: pages_ok_def)
  ultimately show ?thesis by (simp add: table_ok_def)
qed

lemma create_impl_init:
  assumes "memory_init (k_mem s) = Ret m" and "m_initialized m"
  shows "process_create_impl s name e args km = process_create_impl (set_mem m s) name e args km"
  using assms by (simp add: process_create_impl_def memory_init_def set_mem_def)

text \<open>The state between \<open>kernel_common\<close> and the first switch.\<close>

definition starting :: "kstate \<Rightarrow> bool" where
  "starting s \<longleftrightarrow> table_ok s \<and> current_proc s = Some 0 \<and> idle_proc s = Some 0 \<and> used s 0 \<and>
     p_cont (proc_at s 0) = C_idle \<and> (\<forall>i<procs_max. 0 < i \<longrightarrow> p_cont (proc_at s i) \<noteq> C_idle)"

lemma memory_init_pool:
  assumes "boot_state m"
  shows "\<exists>m'. memory_init m = Ret m' \<and> pool_inv m' \<and> m_initialized m' \<and> free_pages m' (boot_pages m - boot_reserved m)"
proof -
  from memory_init_rep [OF assms] obtain m' where m': "memory_init m = Ret m'" "page_rep m' [boot_reserved m..<boot_pages m]"
    "m_known m' = replicate known_memory_count \<lparr>kn_addr = 0, kn_pages = 0, kn_holder = pidx_none\<rparr>" by blast
  then have p: "pool_inv m'" by (auto simp: pool_inv_def)
  have "boot_pages m - boot_reserved m \<le> length [boot_reserved m..<boot_pages m]" by simp
  with m'(2) have "free_pages m' (boot_pages m - boot_reserved m)" unfolding free_pages_def by blast
  with m' p pool_initialized [OF p] show ?thesis by blast
qed

lemma created_frame:
  assumes "created s i s'" and "table_ok s"
  shows "\<exists>p. p_cont p = C_entry \<and> p_state p = RUNNABLE \<and> p_blocked_sender p = None \<and> \<not> p_has_pending p \<and> i < procs_max \<and> \<not> used s i \<and>
    (\<forall>j. proc_at s' j = (if j = i then p else proc_at s j)) \<and> current_proc s' = current_proc s \<and> idle_proc s' = idle_proc s"
proof -
  obtain p m where *: "i < procs_max" "\<not> used s i" "s' = add_proc s i p m" "p_cont p = C_entry" "p_state p = RUNNABLE"
      "p_blocked_sender p = None" "\<not> p_has_pending p"
    using assms(1) by (auto simp: created_def)
  have "proc_at s' j = (if j = i then p else proc_at s j)" for j
    using * table_len [OF assms(2)] by (cases "j = i") (auto simp: add_proc_def proc_at_def)
  moreover have "current_proc s' = current_proc s" "idle_proc s' = idle_proc s" using *(3) by (simp_all add: add_proc_def)
  ultimately show ?thesis using * by blast
qed

lemma kernel_common_starting:
  assumes b: "boot_kernel s" and run: "kernel_common s = Some (Ret s')"
  shows "starting s'"
proof -
  have bs: "procs s = replicate procs_max zero_proc" "process_pids s = replicate procs_max pid_none" "proc_pid_counter s = 1"
    "boot_state (k_mem s)" using b by (simp_all add: boot_kernel_def)
  obtain m where m: "memory_init (k_mem s) = Ret m" "pool_inv m" "m_initialized m"
    using memory_init_pool [OF bs(4)] by blast
  let ?s = "set_mem m s"
  have t: "table_ok ?s" by (rule empty_table) (use bs m in simp_all)
  obtain s1 i where c: "process_create_impl ?s ''idle'' Entry_null None True = Some (Ret (s1, Some i))"
    and s': "s' = set_proc i (\<lambda>p. p\<lparr>p_cont := C_idle\<rparr>) (s1\<lparr>idle_proc := Some i, current_proc := Some i\<rparr>)"
    using run create_impl_init [OF m(1,3)]
    by (auto simp: kernel_common_def process_create_def kr_bind_Ret split: option.splits)
  from create_ok [OF t c] have t1: "table_ok s1" and cr: "created ?s i s1" by simp_all
  have "find_unused (procs s) 0 = Some 0" by (simp add: bs(1) procs_max_def zero_proc_def eval_nat_numeral)
  with cr have i0: "i = 0" by (simp add: created_def)
  obtain p where p: "p_cont p = C_entry" "p_state p = RUNNABLE"
      "\<And>j. proc_at s1 j = (if j = 0 then p else proc_at s j)"
    using created_frame [OF cr t] i0 by auto
  have at: "i < procs_max \<Longrightarrow> proc_at s i = zero_proc" for i using bs(1) by (simp add: proc_at_def)
  have len: "length (procs s1) = procs_max" by (rule table_len [OF t1])
  have "core_step s1 s'" unfolding s' by (simp add: core_step_def same_core_def)
  then have "table_ok s'" using t1 core_step_table by blast
  moreover have "proc_at s' j = (if j = 0 then p\<lparr>p_cont := C_idle\<rparr> else proc_at s j)" for j
    using p(3) len i0 by (simp add: s' procs_max_def)
  moreover have "current_proc s' = Some 0" "idle_proc s' = Some 0" unfolding s' i0 by simp_all
  moreover have "i < procs_max \<Longrightarrow> p_cont (proc_at s i) = C_entry" for i using at by (simp add: zero_proc_def)
  ultimately show ?thesis using p(2) by (simp add: starting_def used_def)
qed

lemma starting_created:
  assumes s: "starting s" and run: "process_create s name e args km = Some (Ret (s', i))"
  shows "starting s'"
proof -
  have t: "table_ok s" using s by (simp add: starting_def)
  have c: "process_create_impl s name e args km = Some (Ret (s', Some i))"
    using run by (auto simp: process_create_def kr_bind_Ret split: option.splits)
  from create_ok [OF t c] have t': "table_ok s'" and cr: "created s i s'" by simp_all
  from created_frame [OF cr t] obtain p where p: "p_cont p = C_entry" "p_state p = RUNNABLE" "i < procs_max" "\<not> used s i"
      "\<And>j. proc_at s' j = (if j = i then p else proc_at s j)" "current_proc s' = current_proc s" "idle_proc s' = idle_proc s"
    by auto
  have "0 < i" using p(4) s by (cases i) (auto simp: starting_def)
  then show ?thesis using s t' p by (simp add: starting_def used_def)
qed

lemma starting_all: "starting s \<Longrightarrow> create_all ps s = Some (Ret s') \<Longrightarrow> starting s'"
  by (induction ps s rule: create_all.induct) (auto simp: kr_bind_Ret dest: starting_created)

lemma starting_yield:
  assumes s: "starting s" and y: "yield C_idle s = Some (Ret s')"
  shows "kernel_inv s'"
proof -
  have t: "table_ok s" and cu: "current_proc s = Some 0" "idle_proc s = Some 0" and u: "used s 0"
    and c0: "p_cont (proc_at s 0) = C_idle" and cs: "\<And>i. i < procs_max \<Longrightarrow> 0 < i \<Longrightarrow> p_cont (proc_at s i) \<noteq> C_idle"
    using s by (auto simp: starting_def)
  have t': "table_ok s'" using t core_yield [OF y] core_step_table by blast
  have id: "identity_ok s" using t by (simp add: table_ok_def)
  have len: "length (procs s) = procs_max" by (rule table_len [OF t])
  let ?n = "process_next_runnable s 0 0"
  let ?s1 = "set_proc 0 (\<lambda>p. p\<lparr>p_cont := C_idle\<rparr>) s"
  show ?thesis
  proof (cases "?n = 0")
    case True
    then have s': "s' = resume 0 ?s1" using y cu by (simp add: yield_def Let_def)
    have "p_cont (proc_at ?s1 0) = C_idle" using len by (simp add: procs_max_def)
    from resume_idle [OF this] show ?thesis by (simp add: s' kernel_inv_def)
  next
    case False
    with next_runnable [OF id, of 0 0] have j: "?n < procs_max" "p_state (proc_at s ?n) = RUNNABLE" "0 < ?n"
      by (auto simp: Let_def)
    let ?s2 = "?s1\<lparr>current_proc := Some ?n\<rparr>"
    have s': "s' = resume ?n ?s2" using y cu False by (simp add: yield_def Let_def process_switch_to_def)
    have "conts_ok ?s2" using cu u cs j len by (simp add: conts_ok_def used_def procs_max_def)
    then have "conts_ok s'" unfolding s' by (rule conts_ok_resume) (use len j in simp_all)
    moreover have "p_state (proc_at s' ?n) = RUNNABLE" using j by (simp add: s' proc_at_resume)
    ultimately show ?thesis using t' by (simp add: s' kernel_inv_def current_ok_def)
  qed
qed

lemma kernel_start_inv:
  assumes b: "boot_kernel s" and run: "kernel_start g fs kb sh s = Some (Ret s')"
  shows "kernel_inv s'"
proof -
  obtain s1 s2 where r: "kernel_common s = Some (Ret s1)" "kernel_prog_default g fs kb sh s1 = Some (Ret s2)"
      "yield C_idle s2 = Some (Ret s')"
    using run by (auto simp: kernel_start_def kr_bind_Ret)
  from starting_all [OF kernel_common_starting [OF b r(1)] r(2) [unfolded kernel_prog_default_def]]
  show ?thesis by (rule starting_yield) (rule r(3))
qed

section \<open>Booting succeeds\<close>

text \<open>The table after some creations: the first \<open>n\<close> slots are taken and can run.\<close>

definition filled :: "kstate \<Rightarrow> nat \<Rightarrow> bool" where
  "filled s n \<longleftrightarrow> starting s \<and> 0 < n \<and> n \<le> procs_max \<and> \<not> k_exited s \<and>
     (\<forall>i<procs_max. p_state (proc_at s i) = (if i < n then RUNNABLE else UNUSED) \<and>
        \<not> p_has_pending (proc_at s i) \<and> p_blocked_sender (proc_at s i) = None)"

lemma find_unused_at:
  "n < length ps \<Longrightarrow> \<forall>i<n. p_state (ps ! i) \<noteq> UNUSED \<Longrightarrow> p_state (ps ! n) = UNUSED \<Longrightarrow> find_unused ps i = Some (i + n)"
proof (induction ps i arbitrary: n rule: find_unused.induct)
  case (2 p ps i)
  show ?case
  proof (cases n)
    case (Suc k)
    have "p_state p \<noteq> UNUSED" "\<forall>i<k. p_state (ps ! i) \<noteq> UNUSED" using 2(3) Suc by auto
    with 2 Suc show ?thesis by simp
  qed (use 2 in simp)
qed simp

lemma create_frame:
  assumes "created s i s'"
  shows "k_exited s' = k_exited s"
  using assms by (auto simp: created_def add_proc_def)

lemma process_create_total:
  assumes t: "table_ok s" and slot: "i < procs_max" "\<not> used s i" and pages: "free_pages (k_mem s) (n + 4)"
  shows "\<exists>s' j. process_create s name e args km = Some (Ret (s', j)) \<and> created s j s' \<and> table_ok s' \<and> free_pages (k_mem s') n"
proof -
  obtain s' j where c: "process_create_impl s name e args km = Some (Ret (s', Some j))" "free_pages (k_mem s') n"
    using create_total [OF t slot pages] by blast
  from create_ok [OF t c(1)] c show ?thesis by (simp add: process_create_def)
qed

lemma filled_create:
  assumes f: "filled s n" and n: "n < procs_max" and pages: "free_pages (k_mem s) (k + 4)"
  shows "\<exists>s' j. process_create s name e args km = Some (Ret (s', j)) \<and> filled s' (Suc n) \<and> free_pages (k_mem s') k"
proof -
  have s: "starting s" using f by (simp add: filled_def)
  then have t: "table_ok s" by (simp add: starting_def)
  have u: "\<not> used s n" using f n by (simp add: filled_def used_def)
  obtain s' j where c: "process_create s name e args km = Some (Ret (s', j))" "created s j s'" "free_pages (k_mem s') k"
    using process_create_total [OF t n u pages] by blast
  have "find_unused (procs s) 0 = Some (0 + n)"
    by (rule find_unused_at) (use f n table_len [OF t] in \<open>auto simp: filled_def proc_at_def\<close>)
  with c(2) have j: "j = n" by (simp add: created_def)
  from created_frame [OF c(2) t] obtain p where p: "p_state p = RUNNABLE" "\<not> p_has_pending p" "p_blocked_sender p = None"
    "\<And>j. proc_at s' j = (if j = n then p else proc_at s j)" using j by auto
  have "filled s' (Suc n)"
    using f n p starting_created [OF s c(1)] create_frame [OF c(2)] by (auto simp: filled_def)
  with c show ?thesis by blast
qed

lemma filled_all:
  "filled s n \<Longrightarrow> n + length ps \<le> procs_max \<Longrightarrow> free_pages (k_mem s) (4 * length ps) \<Longrightarrow>
    \<exists>s'. create_all ps s = Some (Ret s') \<and> filled s' (n + length ps)"
proof (induction ps s arbitrary: n rule: create_all.induct)
  case (2 name e args ps s)
  obtain s' j where c: "process_create s name e args False = Some (Ret (s', j))" "filled s' (Suc n)"
      "free_pages (k_mem s') (4 * length ps)"
    using filled_create [OF 2(2), of "4 * length ps" name e args False] 2(3,4) by (auto simp: add.commute)
  with "2.IH" [of s' "Suc n"] 2(3) show ?case by auto
qed simp

lemma resume_no_pending: "\<not> p_has_pending (proc_at s i) \<Longrightarrow> \<not> p_has_pending (proc_at (resume c s) i)"
  by (cases "p_cont (proc_at s c)") (simp_all add: resume_def Let_def read_response_def take_message_def set_regs_def)

lemma filled_yield:
  assumes f: "filled s n" and n: "1 < n"
  shows "\<exists>s'. yield C_idle s = Some (Ret s') \<and> current_proc s' = Some 1 \<and> \<not> k_exited s' \<and>
    (\<forall>i<procs_max. \<not> p_has_pending (proc_at s' i))"
proof -
  have s: "starting s" using f by (simp add: filled_def)
  have id: "identity_ok s" and cu: "current_proc s = Some 0" "idle_proc s = Some 0"
    using s by (simp_all add: starting_def table_ok_def)
  have one: "p_state (proc_at s 1) = RUNNABLE" "p_state (proc_at s 0) = RUNNABLE" using f n by (simp_all add: filled_def procs_max_def)
  then have px: "p_pidx (proc_at s 1) = 1" "p_pidx (proc_at s 0) = 0" using id by (simp_all add: identity_ok_def used_def procs_max_def)
  have "runnable_from s 0 0 (Suc k) = Some 1" for k using one px by (simp add: procs_max_def)
  from this [of 15] have "runnable_from s 0 0 procs_max = Some 1" by (simp add: procs_max_def)
  then have n: "process_next_runnable s 0 0 = 1" using px one by (simp add: process_next_runnable_def)
  let ?s = "(set_proc 0 (\<lambda>p. p\<lparr>p_cont := C_idle\<rparr>) s)\<lparr>current_proc := Some 1\<rparr>"
  have "p_cont (proc_at ?s 1) \<noteq> C_idle" using s by (simp add: starting_def procs_max_def)
  moreover have "\<not> k_exited ?s" using f by (simp add: filled_def)
  ultimately have "\<not> k_exited (resume 1 ?s)"
    by (cases "p_cont (proc_at ?s 1)") (simp_all add: resume_def Let_def read_response_def take_message_def set_regs_def)
  moreover have "\<forall>i<procs_max. \<not> p_has_pending (proc_at (resume 1 ?s) i)"
    using f by (intro allI impI resume_no_pending) (simp add: filled_def)
  ultimately show ?thesis using n cu by (simp add: yield_def Let_def process_switch_to_def)
qed

lemma kernel_common_total:
  assumes b: "boot_kernel s" and pages: "free_pages m (n + 4)" and m: "memory_init (k_mem s) = Ret m" "pool_inv m" "m_initialized m"
  shows "\<exists>s'. kernel_common s = Some (Ret s') \<and> filled s' 1 \<and> free_pages (k_mem s') n"
proof -
  have bs: "procs s = replicate procs_max zero_proc" "process_pids s = replicate procs_max pid_none" "proc_pid_counter s = 1"
    using b by (simp_all add: boot_kernel_def)
  let ?s = "set_mem m s"
  have t: "table_ok ?s" by (rule empty_table) (use bs m in simp_all)
  have at: "i < procs_max \<Longrightarrow> proc_at s i = zero_proc" for i using bs(1) by (simp add: proc_at_def)
  have p0: "0 < procs_max" by (simp add: procs_max_def)
  have u: "\<not> used ?s 0" using at [OF p0] by (simp add: used_def zero_proc_def)
  obtain s1 i where c: "process_create ?s ''idle'' Entry_null None True = Some (Ret (s1, i))" "created ?s i s1" "free_pages (k_mem s1) n"
    using process_create_total [OF t p0 u, of n "''idle''" Entry_null None True] pages by auto
  let ?s2 = "set_proc i (\<lambda>p. p\<lparr>p_cont := C_idle\<rparr>) (s1\<lparr>idle_proc := Some i, current_proc := Some i\<rparr>)"
  have run: "kernel_common s = Some (Ret ?s2)"
    using c(1) by (simp add: kernel_common_def process_create_def create_impl_init [OF m(1,3)])
  have "find_unused (procs ?s) 0 = Some 0" by (simp add: bs(1) procs_max_def zero_proc_def eval_nat_numeral)
  with c(2) have i: "i = 0" by (simp add: created_def)
  from created_frame [OF c(2) t] obtain p where p: "p_state p = RUNNABLE" "\<not> p_has_pending p" "p_blocked_sender p = None"
    "\<And>j. proc_at s1 j = (if j = 0 then p else proc_at s j)" using i by auto
  have "p_state (proc_at ?s2 j) = (if j < 1 then RUNNABLE else UNUSED) \<and> \<not> p_has_pending (proc_at ?s2 j) \<and>
      p_blocked_sender (proc_at ?s2 j) = None" if "j < procs_max" for j
    using that p at by (simp add: zero_proc_def)
  moreover have "\<not> k_exited ?s2" using b create_frame [OF c(2)] by (simp add: boot_kernel_def)
  ultimately have "filled ?s2 1" using kernel_common_starting [OF b run] by (simp add: filled_def procs_max_def)
  with run c(3) show ?thesis by simp
qed

text \<open>The programs of a configuration.\<close>

definition program_count :: "bool \<Rightarrow> bool \<Rightarrow> bool \<Rightarrow> string option \<Rightarrow> nat" where
  "program_count g fs kb sh = of_bool g + of_bool fs + of_bool kb + (if sh = None then 0 else 1)"

lemma kernel_start_total:
  assumes b: "boot_kernel s" and n: "0 < program_count g fs kb sh"
    and pages: "boot_reserved (k_mem s) + 4 * program_count g fs kb sh + 4 \<le> boot_pages (k_mem s)"
  shows "\<exists>s'. kernel_start g fs kb sh s = Some (Ret s') \<and> current_proc s' = Some 1 \<and> \<not> k_exited s' \<and>
    (\<forall>i\<le>program_count g fs kb sh. p_state (proc_at s' i) = RUNNABLE \<and> \<not> p_has_pending (proc_at s' i) \<and>
      p_blocked_sender (proc_at s' i) = None) \<and>
    (\<forall>i<procs_max. program_count g fs kb sh < i \<longrightarrow> p_state (proc_at s' i) = UNUSED)"
proof -
  let ?n = "program_count g fs kb sh"
  obtain ps where ps: "\<And>s. kernel_prog_default g fs kb sh s = create_all ps s" "length ps = ?n" "?n \<le> 4"
    unfolding kernel_prog_default_def program_count_def by (cases sh) auto
  have "boot_state (k_mem s)" using b by (simp add: boot_kernel_def)
  from memory_init_pool [OF this] obtain m where m: "memory_init (k_mem s) = Ret m" "pool_inv m" "m_initialized m"
    "free_pages m (boot_pages (k_mem s) - boot_reserved (k_mem s))" by blast
  have "free_pages m (4 * ?n + 4)" by (rule free_pages_mono [OF m(4)]) (use pages in linarith)
  from kernel_common_total [OF b this m(1-3)] obtain s1 where s1: "kernel_common s = Some (Ret s1)" "filled s1 1"
    "free_pages (k_mem s1) (4 * ?n)" by blast
  with filled_all [OF s1(2), of ps] ps(2,3) obtain s2 where s2: "create_all ps s1 = Some (Ret s2)" "filled s2 (1 + ?n)"
    by (auto simp: procs_max_def)
  obtain s' where s': "yield C_idle s2 = Some (Ret s')" "current_proc s' = Some 1 \<and> \<not> k_exited s'"
      "\<forall>i<procs_max. \<not> p_has_pending (proc_at s' i)"
    using filled_yield [OF s2(2)] n by auto
  moreover have "p_state (proc_at s' i) = RUNNABLE \<and> \<not> p_has_pending (proc_at s' i) \<and> p_blocked_sender (proc_at s' i) = None"
    if "i \<le> ?n" for i
  proof -
    have i: "i < procs_max" using that ps(3) by (simp add: procs_max_def)
    have "same_core (proc_at s2 i) (proc_at s' i)" using core_yield [OF s'(1)] by (simp add: core_step_def)
    then show ?thesis
      using that i s2(2) s'(3) yield_state [OF s'(1)] by (simp add: filled_def same_core_def)
  qed
  moreover have "p_state (proc_at s' i) = UNUSED" if "i < procs_max" "?n < i" for i
    using that s2(2) yield_state [OF s'(1)] by (simp add: filled_def)
  ultimately show ?thesis using s1 s2 ps by (auto simp: kernel_start_def)
qed

section \<open>The kernel from the start\<close>

text \<open>A machine with 64 pages, as it is before the kernel runs.\<close>

definition boot64 :: kstate where
  "boot64 = \<lparr>procs = replicate procs_max zero_proc, current_proc = None, idle_proc = None, proc_pid_counter = 1,
     process_pids = replicate procs_max pid_none, k_mem = tiny_memory\<lparr>m_end := 266240\<rparr>, k_out = [], k_in = [], k_exited = False\<rparr>"

lemma boot64: "boot_kernel boot64" "boot_pages (k_mem boot64) = 64" "boot_reserved (k_mem boot64) \<le> 2"
  by (simp_all add: boot_kernel_def boot64_def boot_state_def boot_pages_def boot_reserved_def tiny_memory_def
      page_size_def page_info_size_def size_mod_def)



text \<open>C1. Kernel safety: whatever the processes do after the start (any system calls with any
  arguments, crashes, stores to memory), every state the kernel reaches satisfies the invariant: the
  current process is a runnable one, pids are unique and match the table, lock holders and queued
  senders are live processes, queues are bounded, and every process owns its pages.\<close>

theorem kernel_run_inv:
  assumes "boot_kernel s" and "kernel_start g fs kb sh s = Some (Ret s1)" and "run_steps kernel_step s1 evs = Some s2"
  shows "kernel_inv s2"
  using machine.run_keeps [OF kernel_start_inv [OF assms(1,2)] assms(3)] .

theorem kernel_run_inv_witness:
  "\<exists>s1 s2. kernel_start False False False (Some ''tcl'') boot64 = Some (Ret s1) \<and>
    run_steps kernel_step s1 [Ev_store 8192 7, Ev_store 8193 9] = Some s2 \<and> kernel_inv s2"
proof -
  obtain s1 where s1: "kernel_start False False False (Some ''tcl'') boot64 = Some (Ret s1)" "\<not> k_exited s1"
    using kernel_start_total [OF boot64(1), of False False False "Some ''tcl''"] boot64(2,3) by (auto simp: program_count_def)
  then obtain s2 where s2: "run_steps kernel_step s1 [Ev_store 8192 7, Ev_store 8193 9] = Some s2"
    by (simp add: kernel_step_def)
  with kernel_run_inv [OF boot64(1) s1(1) s2] s1 show ?thesis by blast
qed

section \<open>No two processes share a page\<close>

definition own_pages :: "kstate \<Rightarrow> nat \<Rightarrow> nat set" where
  "own_pages s i = {p_comm_page (proc_at s i), p_storage_page (proc_at s i), p_user_stack (proc_at s i)} \<union>
     (if p_arg_page (proc_at s i) = 0 then {} else {p_arg_page (proc_at s i)})"

lemma owns_unique:
  assumes "pool_inv m" and "owns m i a" and "owns m j a"
  shows "i = j"
proof -
  have wf: "page_wf m" using assms(1) by (auto simp: pool_inv_def page_rep_def)
  obtain k l where kl: "k < length (m_infos m)" "pg_addr (m_infos m ! k) = a" "pg_pidx (m_infos m ! k) = int i"
      "l < length (m_infos m)" "pg_addr (m_infos m ! l) = a" "pg_pidx (m_infos m ! l) = int j"
    using assms(2,3) by (auto simp: owns_def)
  then have "m_base m + k * page_size = m_base m + l * page_size" using wf by (metis page_wf_def)
  then have "k = l" by (simp add: page_size_def)
  with kl show ?thesis by simp
qed

lemma inv_pages:
  assumes "kernel_inv s" and "\<not> k_exited s" and "0 < i" and "i < procs_max" and "used s i" and "a \<in> own_pages s i"
  shows "owns (k_mem s) i a"
proof -
  have "pages_ok s" using assms(1,2) by (simp add: kernel_inv_def table_ok_def)
  then show ?thesis using assms(3-6) by (auto simp: pages_ok_def own_pages_def split: if_splits)
qed

lemma pages_disjoint:
  assumes inv: "kernel_inv s" and "\<not> k_exited s" and "0 < i" "i < procs_max" "used s i"
    and "0 < j" "j < procs_max" "used s j" and "i \<noteq> j"
  shows "own_pages s i \<inter> own_pages s j = {}"
proof (rule ccontr)
  assume "own_pages s i \<inter> own_pages s j \<noteq> {}"
  then obtain a where "a \<in> own_pages s i" "a \<in> own_pages s j" by blast
  then have "owns (k_mem s) i a" "owns (k_mem s) j a" using inv_pages assms by blast+
  moreover have "pool_inv (k_mem s)" using assms(1,2) by (simp add: kernel_inv_def table_ok_def pages_ok_def)
  ultimately show False using owns_unique assms(9) by blast
qed




section \<open>Requests are answered in order\<close>

lemma run_alive:
  assumes "run_steps kernel_step s evs = Some s'" and "\<not> k_exited s'"
  shows "\<not> k_exited s"
  using assms by (cases evs) (auto simp: kernel_step_def)

text \<open>What a step adds to the requests of \<open>w\<close>, and how many of them it answers.\<close>

definition arrived :: "kstate \<Rightarrow> event \<Rightarrow> nat \<Rightarrow> (nat \<times> ipc_message) list" where
  "arrived s e w = (case e of
       Ev_syscall f \<Rightarrow> if unat (a3 f) = 9 \<and> accepts s f w then [(get_current s, message_of s (get_current s) f)] else []
     | _ \<Rightarrow> [])"

definition answered :: "kstate \<Rightarrow> event \<Rightarrow> nat \<Rightarrow> nat" where
  "answered s e w = (case e of
       Ev_syscall f \<Rightarrow> if unat (a3 f) = 11 \<and> get_current s = w \<and> requests s w \<noteq> [] then 1 else 0
     | _ \<Rightarrow> 0)"

lemma syscall_requests:
  assumes t0: "table_ok s0" and c0: "current_ok s0" and run: "handle_syscall s0 f = Some (Ret s')" and live: "\<not> k_exited s'"
    and w: "w < procs_max"
  shows "requests s' w = drop (answered s0 (Ev_syscall f) w) (requests s0 w) @ arrived s0 (Ev_syscall f) w"
proof -
  define c where "c = get_current s0"
  define s where "s = set_regs c (\<lambda>_. f\<lparr>a0 := 0\<rparr>) s0"
  have t: "table_ok s" and cu: "current_ok s" using regs_keep [OF t0 c0] by (simp_all add: s_def)
  have cur: "current_proc s0 = Some c" "c < procs_max" using current_facts [OF c0] by (metis c_def)+
  let ?n = "unat (a3 f)"
  note sys = handle_syscall_def [of s0 f, unfolded Let_def, folded c_def, folded s_def]
  have req: "requests s i = requests s0 i" for i unfolding s_def by (rule requests_core [OF core_set_regs])
  have acc: "accepts s f i = accepts s0 f i" "message_of s c f = message_of s0 c f" for i
  proof -
    have "lookup_pid_from qs (map (\<lambda>p. p\<lparr>p_regs := g p\<rparr>) ps) k pid = lookup_pid_from qs ps k pid" for qs ps k pid g
      by (induction qs ps k pid rule: lookup_pid_from.induct) auto
    then have "lookup_pid_from qs (ps[c := (ps ! c)\<lparr>p_regs := r\<rparr>]) k pid = lookup_pid_from qs ps k pid" for qs ps k pid r
      by (induction qs ps k pid arbitrary: c rule: lookup_pid_from.induct) (auto simp: nth_Cons split: nat.split)
    then have "process_lookup_by_pid s pid = process_lookup_by_pid s0 pid" for pid
      by (simp add: process_lookup_by_pid_def s_def set_regs_def set_proc_def)
    then show "accepts s f i = accepts s0 f i" by (simp add: accepts_def req)
    show "message_of s c f = message_of s0 c f" by (simp add: message_of_def s_def set_regs_def)
  qed
  have still: "requests s' w = requests s0 w \<Longrightarrow> ?n \<noteq> 9 \<Longrightarrow> ?n \<noteq> 11 \<Longrightarrow> ?thesis"
    by (simp add: answered_def arrived_def)
  consider "?n = 1" | "?n = 4" | "?n = 9" | "?n = 10" | "?n = 11" | "?n = 12" | "?n \<notin> {1, 4, 9, 10, 11, 12}" by auto
  then show ?thesis
  proof cases
    case 1
    then have "yield C_user s = Some (Ret s')" using run unfolding sys by simp
    from requests_core [OF core_yield [OF this]] 1 show ?thesis by (intro still) (simp_all add: req)
  next
    case 2
    have "current_proc s = Some c" using cur by (simp add: s_def set_regs_def)
    then have "yield C_user (set_proc c (\<lambda>p. p\<lparr>p_state := TERMINATED\<rparr>) s) = Some (Ret s')"
      using 2 run unfolding sys by (simp add: sys_exit_def)
    from requests_core [OF core_yield [OF this]] 2 show ?thesis by (intro still) (simp_all add: requests_keep req)
  next
    case 3
    then have "sys_ipc_send s c f = Some (Ret s')" using run unfolding sys by simp
    from send_requests [OF t cur(2) this, of w] 3 show ?thesis
      by (simp add: req acc answered_def arrived_def c_def [symmetric])
  next
    case 4
    then have "sys_ipc_recv s c = Some (Ret s')" using run unfolding sys by simp
    from recv_requests [OF this] 4 show ?thesis by (intro still) (simp_all add: req)
  next
    case 5
    then have "sys_ipc_reply s c f = Some (Ret s')" using run unfolding sys by simp
    from reply_requests [OF t cur(2) this, of w] 5 show ?thesis
      by (simp add: req answered_def arrived_def c_def drop_Suc)
  next
    case 6
    then have "s' = shutdown_all_processes s" using run unfolding sys by simp
    with live show ?thesis by (simp add: shutdown_all_processes_def Let_def)
  next
    case 7
    from quiet_calls [OF t0 this] run have "quiet s0 s'" by (simp add: post_def)
    from quiet_requests [OF t0 this w] 7 show ?thesis by (intro still) simp_all
  qed
qed

lemma step_requests:
  assumes inv: "kernel_inv s" and run: "kernel_step s e = Some s'" and live: "\<not> k_exited s'" and w: "w < procs_max"
  shows "requests s' w = drop (answered s e w) (requests s w) @ arrived s e w"
proof -
  have t: "table_ok s" and c: "current_ok s" using inv run by (auto simp: kernel_inv_def kernel_step_def split: if_splits)
  obtain k where k: "current_proc s = Some k" "get_current s = k" using current_facts [OF c] by metis
  show ?thesis
  proof (cases e)
    case (Ev_syscall f)
    with run syscall_requests [OF t c _ live w] show ?thesis by (simp add: kernel_step_def returned_Some split: if_splits)
  next
    case Ev_crash
    then have "yield C_user (set_proc k (\<lambda>p. p\<lparr>p_state := TERMINATED\<rparr>) s) = Some (Ret s')"
      using run k by (simp add: kernel_step_def returned_Some handle_crash_def split: if_splits)
    from requests_core [OF core_yield [OF this]] Ev_crash show ?thesis
      by (simp add: requests_keep answered_def arrived_def)
  next
    case (Ev_store a b)
    then have "s' = set_mem (store_bytes a [b] (k_mem s)) s" using run by (simp add: kernel_step_def split: if_splits)
    then have "proc_at s' i = proc_at s i" for i by simp
    then show ?thesis using requests_frame [of s' w s] Ev_store by (simp add: answered_def arrived_def)
  qed
qed

text \<open>The same over a run.\<close>

fun arrivals :: "kstate \<Rightarrow> event list \<Rightarrow> nat \<Rightarrow> (nat \<times> ipc_message) list" where
  "arrivals s [] w = []"
| "arrivals s (e # es) w = arrived s e w @ (case kernel_step s e of None \<Rightarrow> [] | Some t \<Rightarrow> arrivals t es w)"

fun answers :: "kstate \<Rightarrow> event list \<Rightarrow> nat \<Rightarrow> nat" where
  "answers s [] w = 0"
| "answers s (e # es) w = answered s e w + (case kernel_step s e of None \<Rightarrow> 0 | Some t \<Rightarrow> answers t es w)"

lemma run_requests:
  assumes "kernel_inv s" and "run_steps kernel_step s evs = Some s'" and "\<not> k_exited s'" and w: "w < procs_max"
  shows "requests s' w = drop (answers s evs w) (requests s w @ arrivals s evs w)"
  using assms(1-3)
proof (induction evs arbitrary: s)
  case (Cons e evs)
  then obtain t where t: "kernel_step s e = Some t" "run_steps kernel_step t evs = Some s'" by (auto split: option.splits)
  have inv: "kernel_inv t" by (rule kernel_step_inv [OF Cons.prems(1) t(1)])
  have "answered s e w \<le> length (requests s w)"
    by (cases "requests s w") (auto simp: answered_def split: event.split)
  with Cons.IH [OF inv t(2) Cons.prems(3)] step_requests [OF Cons.prems(1) t(1) run_alive [OF t(2) Cons.prems(3)] w] t(1)
  show ?case by (simp add: add.commute)
qed simp

text \<open>C2. First come, first served: over any run of the kernel the requests that wait at a
  process are the ones that waited before and the accepted new ones, in the order of the calls,
  without as many from the front as the process has answered.\<close>

theorem requests_fifo:
  assumes "boot_kernel s0" and "kernel_start g fs kb sh s0 = Some (Ret s)" and "run_steps kernel_step s evs = Some s'"
    and "\<not> k_exited s'" and "w < procs_max"
  shows "requests s' w = drop (answers s evs w) (requests s w @ arrivals s evs w)"
  using run_requests [OF kernel_start_inv [OF assms(1,2)] assms(3-5)] .

text \<open>A process the scheduler may choose.\<close>

definition can_run :: "kstate \<Rightarrow> nat \<Rightarrow> bool" where
  "can_run s i \<longleftrightarrow> 0 < i \<and> p_state (proc_at s i) = RUNNABLE"

section \<open>A call and its reply\<close>

lemma lookup_pid_at:
  "v < length qs \<Longrightarrow> v < length ps \<Longrightarrow> qs ! v = pid \<Longrightarrow> p_state (ps ! v) \<noteq> UNUSED \<Longrightarrow>
   \<forall>k<v. \<not> (qs ! k = pid \<and> p_state (ps ! k) \<noteq> UNUSED) \<Longrightarrow> lookup_pid_from qs ps i pid = Some (i + v)"
proof (induction qs ps i pid arbitrary: v rule: lookup_pid_from.induct)
  case (1 q qs p ps i pid)
  show ?case
  proof (cases v)
    case (Suc k)
    have "\<not> (q = pid \<and> p_state p \<noteq> UNUSED)" "\<forall>k'<k. \<not> (qs ! k' = pid \<and> p_state (ps ! k') \<noteq> UNUSED)"
      using 1(6) Suc by force+
    with 1 Suc show ?thesis by simp
  qed (use 1 in simp)
qed simp_all

lemma lookup_own_pid:
  assumes id: "identity_ok s" and v: "v < procs_max" "used s v"
  shows "process_lookup_by_pid s (p_pid (proc_at s v)) = Some v"
proof -
  have "lookup_pid_from (process_pids s) (procs s) 0 (p_pid (proc_at s v)) = Some (0 + v)"
  proof (rule lookup_pid_at)
    show "v < length (process_pids s)" "v < length (procs s)" "process_pids s ! v = p_pid (proc_at s v)"
      using id v by (simp_all add: identity_ok_def)
    show "p_state (procs s ! v) \<noteq> UNUSED" using v(2) by (simp add: used_def proc_at_def)
    show "\<forall>k<v. \<not> (process_pids s ! k = p_pid (proc_at s v) \<and> p_state (procs s ! k) \<noteq> UNUSED)"
    proof (intro allI impI notI)
      fix k
      assume k: "k < v" "process_pids s ! k = p_pid (proc_at s v) \<and> p_state (procs s ! k) \<noteq> UNUSED"
      then have u: "used s k" "k < procs_max" using v(1) by (simp_all add: used_def proc_at_def)
      then have "p_pid (proc_at s k) = p_pid (proc_at s v)" using id k(2) unfolding identity_ok_def by metis
      then have "k = v" using id u v unfolding identity_ok_def by blast
      with k(1) show False by simp
    qed
  qed
  then show ?thesis by (simp add: process_lookup_by_pid_def)
qed

lemma pid_word:
  assumes id: "identity_ok s" and v: "v < procs_max" "used s v"
  shows "unat (of_nat (p_pid (proc_at s v)) :: 32 word) = p_pid (proc_at s v)"
proof -
  have "p_pid (proc_at s v) < proc_pid_counter s" using id v unfolding identity_ok_def by blast
  also have "\<dots> < 2 ^ 32" using counter_small [OF id] by simp
  finally show ?thesis by (simp add: unat_of_nat take_bit_nat_eq_self)
qed

text \<open>The contents of the communication page of a process.\<close>

definition comm_bytes :: "kstate \<Rightarrow> nat \<Rightarrow> byte list" where
  "comm_bytes s i = load_bytes (p_comm_page (proc_at s i)) page_size (k_mem s)"

lemma load_copy_page: "load_bytes d page_size (copy_page d e m) = load_bytes e page_size m"
  unfolding load_bytes_def copy_page_def
  by (rule nth_equalityI) simp_all

lemma comm_copied:
  assumes "p_comm_page (proc_at s d) \<noteq> 0" and "p_comm_page (proc_at s e) \<noteq> 0"
  shows "comm_bytes (copy_comm d e s) d = comm_bytes s e"
  using assms by (simp add: comm_bytes_def copy_comm_def Let_def load_copy_page)

lemma resume_parts:
  "length (procs (resume c s)) = length (procs s)"
  "p_cont (proc_at s c) = C_send \<Longrightarrow> resume c s = read_response c (set_proc c (\<lambda>p. p\<lparr>p_cont := C_user\<rparr>) s)"
  "p_cont (proc_at s c) = C_recv \<Longrightarrow> resume c s = take_message c (set_proc c (\<lambda>p. p\<lparr>p_cont := C_user\<rparr>) s)"
  by (cases "p_cont (proc_at s c)"; simp add: resume_def Let_def read_response_def take_message_def set_regs_def)+

text \<open>The registers of a server that has got the call \<open>f\<close>, and of a client that got the reply \<open>g\<close>.\<close>

definition call_regs :: "nat \<Rightarrow> trap_regs \<Rightarrow> trap_regs \<Rightarrow> trap_regs" where
  "call_regs pid f r = r\<lparr>a0 := of_nat pid, a1 := a1 f, a2 := a2 f, a4 := a4 f, a5 := a5 f\<rparr>"

definition reply_regs :: "trap_regs \<Rightarrow> trap_regs \<Rightarrow> trap_regs" where
  "reply_regs g r = r\<lparr>a0 := a0 g, a1 := a1 g, a2 := a2 g, a4 := a4 g\<rparr>"

lemma send_direct:
  assumes len: "length (procs s) = procs_max" and c: "current_proc s = Some c" "c < procs_max"
    and look: "process_lookup_by_pid s (unat (a0 f)) = Some v" and v: "v < procs_max" "v \<noteq> c"
    and w: "p_state (proc_at s v) = IPC_RECV_WAIT" "p_cont (proc_at s v) = C_recv" "p_blocked_sender (proc_at s v) = None"
    and pg: "p_comm_page (proc_at s v) \<noteq> 0" "p_comm_page (proc_at s c) \<noteq> 0" and alive: "\<not> k_exited s"
  shows "\<exists>s1. sys_ipc_send s c f = Some (Ret s1) \<and> current_proc s1 = Some v \<and> \<not> k_exited s1 \<and>
    proc_at s1 c = (proc_at s c)\<lparr>p_cont := C_send\<rparr> \<and>
    proc_at s1 v = (proc_at s v)\<lparr>p_state := RUNNABLE, p_cont := C_user, p_pending_message := message_of s c f,
      p_has_pending := False, p_blocked_sender := Some c, p_regs := call_regs (p_pid (proc_at s c)) f (p_regs (proc_at s v))\<rparr> \<and>
    (\<forall>i. i \<noteq> c \<longrightarrow> i \<noteq> v \<longrightarrow> proc_at s1 i = proc_at s i) \<and>
    (send_comm_data (a1 f) \<longrightarrow> comm_bytes s1 v = comm_bytes s c)"
proof -
  define s2 where "s2 = (if send_comm_data (a1 f) then copy_comm v c s else s)"
  have s2: "proc_at s2 i = proc_at s i" "length (procs s2) = procs_max" "current_proc s2 = Some c" "k_exited s2 = k_exited s" for i
    using len c by (simp_all add: s2_def copy_comm_def Let_def)
  have m2: "send_comm_data (a1 f) \<Longrightarrow> comm_bytes s2 v = comm_bytes s c"
    using comm_copied [OF pg] by (simp add: s2_def)
  define s3 where "s3 = set_proc v (\<lambda>p. p\<lparr>p_state := RUNNABLE\<rparr>)
    (set_proc v (\<lambda>p. p\<lparr>p_pending_message := message_of s c f, p_has_pending := True, p_blocked_sender := Some c\<rparr>) s2)"
  have "process_lookup_by_pidx s (int v) = Some v" using v w by (simp add: process_lookup_by_pidx_def process_is_running_def)
  then have run: "sys_ipc_send s c f = Some (Ret (process_switch_to v C_send s3))"
    using look w v s2 by (simp add: sys_ipc_send_def Let_def s2_def [symmetric] s3_def message_of_def ret_def)
  let ?s4 = "(set_proc c (\<lambda>p. p\<lparr>p_cont := C_send\<rparr>) s3)\<lparr>current_proc := Some v\<rparr>"
  have r: "process_switch_to v C_send s3 = take_message v (set_proc v (\<lambda>p. p\<lparr>p_cont := C_user\<rparr>) ?s4)"
    using w v s2 by (simp add: process_switch_to_def s3_def resume_parts)
  show ?thesis
  proof (intro exI conjI)
    show "sys_ipc_send s c f = Some (Ret (process_switch_to v C_send s3))" by (rule run)
    show "proc_at (process_switch_to v C_send s3) v = (proc_at s v)\<lparr>p_state := RUNNABLE, p_cont := C_user,
        p_pending_message := message_of s c f, p_has_pending := False, p_blocked_sender := Some c,
        p_regs := call_regs (p_pid (proc_at s c)) f (p_regs (proc_at s v))\<rparr>"
      unfolding r using v s2 by (simp add: s3_def take_message_def set_regs_def message_of_def call_regs_def)
    show "send_comm_data (a1 f) \<longrightarrow> comm_bytes (process_switch_to v C_send s3) v = comm_bytes s c"
      unfolding r using v m2 by (simp add: s3_def take_message_def set_regs_def comm_bytes_def)
  qed (unfold r, use v c s2 alive in \<open>simp_all add: s3_def take_message_def set_regs_def\<close>)
qed

lemma reply_direct:
  assumes len: "length (procs s) = procs_max" and v: "current_proc s = Some v" "v < procs_max"
    and b: "p_blocked_sender (proc_at s v) = Some c" "p_queue (proc_at s v) = []" and c: "c < procs_max" "v \<noteq> c"
    and cont: "p_cont (proc_at s c) = C_send"
    and pg: "p_comm_page (proc_at s v) \<noteq> 0" "p_comm_page (proc_at s c) \<noteq> 0" and alive: "\<not> k_exited s"
  shows "\<exists>s2. sys_ipc_reply s v g = Some (Ret s2) \<and> current_proc s2 = Some c \<and> \<not> k_exited s2 \<and>
    p_state (proc_at s2 c) = RUNNABLE \<and> p_regs (proc_at s2 c) = reply_regs g (p_regs (proc_at s c)) \<and>
    p_blocked_sender (proc_at s2 v) = None \<and>
    (recv_comm_data (im_method_and_flags (p_pending_message (proc_at s v))) \<longrightarrow> comm_bytes s2 c = comm_bytes s v)"
proof -
  let ?r = "\<lparr>ir_error = a0 g, ir_value0 = a1 g, ir_value1 = a2 g, ir_value2 = a4 g\<rparr>"
  let ?recv = "recv_comm_data (im_method_and_flags (p_pending_message (proc_at s v)))"
  define s1 where "s1 = set_proc c (\<lambda>p. p\<lparr>p_pending_response := ?r\<rparr>) s"
  have s1: "proc_at s1 v = proc_at s v" "length (procs s1) = procs_max" "p_comm_page (proc_at s1 c) = p_comm_page (proc_at s c)"
    "comm_bytes s1 i = comm_bytes s i" for i
    using c len by (simp_all add: s1_def comm_bytes_def)
  define s2 where "s2 = (if ?recv then copy_comm c v s1 else s1)"
  have s2: "proc_at s2 i = proc_at s1 i" "length (procs s2) = procs_max" "current_proc s2 = Some v" "k_exited s2 = k_exited s" for i
    using s1 v by (simp_all add: s2_def s1_def copy_comm_def Let_def)
  have m2: "?recv \<Longrightarrow> comm_bytes s2 c = comm_bytes s v"
    using comm_copied [of s1 c v] pg s1 by (simp add: s2_def)
  define s3 where "s3 = set_proc v (\<lambda>p. p\<lparr>p_blocked_sender := None\<rparr>) s2"
  have "activate_next v s3 = s3" using b v s1 s2 by (simp add: activate_next_def s3_def)
  then have run: "sys_ipc_reply s v g = Some (Ret (process_switch_to c C_user (set_proc c (\<lambda>p. p\<lparr>p_state := RUNNABLE\<rparr>) s3)))"
    using b s1(1) unfolding sys_ipc_reply_def Let_def s1_def s2_def s3_def by (simp add: ret_def)
  let ?s4 = "(set_proc v (\<lambda>p. p\<lparr>p_cont := C_user\<rparr>) (set_proc c (\<lambda>p. p\<lparr>p_state := RUNNABLE\<rparr>) s3))\<lparr>current_proc := Some c\<rparr>"
  have at: "proc_at ?s4 c = (proc_at s c)\<lparr>p_pending_response := ?r, p_state := RUNNABLE\<rparr>"
    using c v len s2 by (simp add: s3_def s1_def)
  have r: "process_switch_to c C_user (set_proc c (\<lambda>p. p\<lparr>p_state := RUNNABLE\<rparr>) s3) =
      read_response c (set_proc c (\<lambda>p. p\<lparr>p_cont := C_user\<rparr>) ?s4)"
    using at cont s2 by (simp add: process_switch_to_def s3_def resume_parts)
  have at': "proc_at (set_proc c (\<lambda>p. p\<lparr>p_cont := C_user\<rparr>) ?s4) c = (proc_at ?s4 c)\<lparr>p_cont := C_user\<rparr>"
    using c s2 by (simp add: s3_def)
  show ?thesis
    unfolding run r
    by (intro exI conjI, rule refl)
      (use c v s2 alive m2 b s1 in \<open>simp_all add: read_response_def set_regs_def s3_def reply_regs_def comm_bytes_def s1_def\<close>)
qed

lemma owns_nonzero: "pool_inv m \<Longrightarrow> owns m i a \<Longrightarrow> a \<noteq> 0"
  by (auto simp: pool_inv_def page_rep_def page_wf_def owns_def)

lemma comm_nonzero:
  assumes "table_ok s" and "0 < i" and "i < procs_max" and "used s i"
  shows "p_comm_page (proc_at s i) \<noteq> 0"
  using assms owns_nonzero [of "k_mem s" i] by (simp add: table_ok_def pages_ok_def)

lemma send_step:
  assumes inv: "kernel_inv s" and alive: "\<not> k_exited s" and c: "get_current s = c"
    and v: "0 < v" "v < procs_max" "v \<noteq> c"
    and w: "p_state (proc_at s v) = IPC_RECV_WAIT" "p_cont (proc_at s v) = C_recv" "p_blocked_sender (proc_at s v) = None"
    and f: "unat (a3 f) = 9" "a0 f = of_nat (p_pid (proc_at s v))"
  shows "\<exists>s1. kernel_step s (Ev_syscall f) = Some s1 \<and> current_proc s1 = Some v \<and> \<not> k_exited s1 \<and>
     proc_at s1 c = (proc_at s c)\<lparr>p_regs := f\<lparr>a0 := 0\<rparr>, p_cont := C_send\<rparr> \<and>
     proc_at s1 v = (proc_at s v)\<lparr>p_state := RUNNABLE, p_cont := C_user, p_pending_message := message_of s c f,
       p_has_pending := False, p_blocked_sender := Some c, p_regs := call_regs (p_pid (proc_at s c)) f (p_regs (proc_at s v))\<rparr> \<and>
     (\<forall>i. i \<noteq> c \<longrightarrow> i \<noteq> v \<longrightarrow> proc_at s1 i = proc_at s i) \<and>
     (send_comm_data (a1 f) \<longrightarrow> comm_bytes s1 v = comm_bytes s c)"
proof -
  have t: "table_ok s" and cu: "current_ok s" using inv alive by (simp_all add: kernel_inv_def)
  have cur: "current_proc s = Some c" "0 < c" "c < procs_max" "used s c" using current_facts [OF cu] c by metis+
  have uv: "used s v" using w by (simp add: used_def)
  have id: "identity_ok s" using t by (simp add: table_ok_def)
  have len: "length (procs s) = procs_max" by (rule table_len [OF t])
  define s0 where "s0 = set_regs c (\<lambda>_. f\<lparr>a0 := 0\<rparr>) s"
  have t0: "table_ok s0" unfolding s0_def using regs_keep(1) [OF t cu] .
  have id0: "identity_ok s0" using t0 by (simp add: table_ok_def)
  have s0: "length (procs s0) = procs_max" "current_proc s0 = Some c" "proc_at s0 v = proc_at s v"
      "p_pid (proc_at s0 c) = p_pid (proc_at s c)" "proc_at s0 c = (proc_at s c)\<lparr>p_regs := f\<lparr>a0 := 0\<rparr>\<rparr>" "\<not> k_exited s0" "used s0 v" "used s0 c"
      "comm_bytes s0 i = comm_bytes s i" "message_of s0 c f = message_of s c f" "j \<noteq> c \<Longrightarrow> proc_at s0 j = proc_at s j" for i j
    using len cur v alive uv by (simp_all add: s0_def set_regs_def used_def comm_bytes_def message_of_def)
  have look: "process_lookup_by_pid s0 (unat (a0 f)) = Some v"
    using lookup_own_pid [OF id0 v(2) s0(7)] pid_word [OF id0 v(2) s0(7)] f(2) s0(3) by simp
  have pg: "p_comm_page (proc_at s0 v) \<noteq> 0" "p_comm_page (proc_at s0 c) \<noteq> 0"
    by (rule comm_nonzero [OF t0 v(1,2) s0(7)], rule comm_nonzero [OF t0 cur(2,3) s0(8)])
  obtain s1 where s1: "sys_ipc_send s0 c f = Some (Ret s1)" "current_proc s1 = Some v" "\<not> k_exited s1"
      "proc_at s1 c = (proc_at s0 c)\<lparr>p_cont := C_send\<rparr>"
      "proc_at s1 v = (proc_at s v)\<lparr>p_state := RUNNABLE, p_cont := C_user, p_pending_message := message_of s c f,
        p_has_pending := False, p_blocked_sender := Some c, p_regs := call_regs (p_pid (proc_at s c)) f (p_regs (proc_at s v))\<rparr>"
      "send_comm_data (a1 f) \<Longrightarrow> comm_bytes s1 v = comm_bytes s c" "\<And>i. i \<noteq> c \<Longrightarrow> i \<noteq> v \<Longrightarrow> proc_at s1 i = proc_at s i"
    using send_direct [OF s0(1,2) cur(3) look v(2,3) _ _ _ pg s0(6)] w s0 by auto
  have step1: "kernel_step s (Ev_syscall f) = Some s1"
    using alive f(1) s1(1) unfolding kernel_step_def handle_syscall_def Let_def c s0_def by simp
  show ?thesis
    by (intro exI [of _ s1] conjI step1 s1(2,3)) (use s1 s0 in simp_all)
qed

lemma round_trip:
  assumes inv: "kernel_inv s" and alive: "\<not> k_exited s" and c: "get_current s = c"
    and v: "0 < v" "v < procs_max" "v \<noteq> c"
    and w: "p_state (proc_at s v) = IPC_RECV_WAIT" "p_cont (proc_at s v) = C_recv" "p_blocked_sender (proc_at s v) = None"
    and f: "unat (a3 f) = 9" "a0 f = of_nat (p_pid (proc_at s v))" and g: "unat (a3 g) = 11"
  shows "\<exists>s1 s2. kernel_step s (Ev_syscall f) = Some s1 \<and> current_proc s1 = Some v \<and>
     p_regs (proc_at s1 v) = call_regs (p_pid (proc_at s c)) f (p_regs (proc_at s v)) \<and>
     (send_comm_data (a1 f) \<longrightarrow> comm_bytes s1 v = comm_bytes s c) \<and>
     kernel_step s1 (Ev_syscall g) = Some s2 \<and> current_proc s2 = Some c \<and>
     p_regs (proc_at s2 c) = reply_regs g (f\<lparr>a0 := 0\<rparr>) \<and>
     (recv_comm_data (a1 f) \<longrightarrow> comm_bytes s2 c = comm_bytes s1 v)"
proof -
  have t: "table_ok s" and cu: "current_ok s" using inv alive by (simp_all add: kernel_inv_def)
  have cur: "0 < c" "c < procs_max" "used s c" using current_facts [OF cu] c by metis+
  obtain s1 where s1: "kernel_step s (Ev_syscall f) = Some s1" "current_proc s1 = Some v" "\<not> k_exited s1"
      "proc_at s1 c = (proc_at s c)\<lparr>p_regs := f\<lparr>a0 := 0\<rparr>, p_cont := C_send\<rparr>"
      "proc_at s1 v = (proc_at s v)\<lparr>p_state := RUNNABLE, p_cont := C_user, p_pending_message := message_of s c f,
        p_has_pending := False, p_blocked_sender := Some c, p_regs := call_regs (p_pid (proc_at s c)) f (p_regs (proc_at s v))\<rparr>"
      "send_comm_data (a1 f) \<Longrightarrow> comm_bytes s1 v = comm_bytes s c"
    using send_step [OF inv alive c v w f] by blast
  have inv1: "kernel_inv s1" by (rule kernel_step_inv [OF inv s1(1)])
  then have t1: "table_ok s1" and cu1: "current_ok s1" using s1(3) by (simp_all add: kernel_inv_def)
  define s1' where "s1' = set_regs v (\<lambda>_. g\<lparr>a0 := 0\<rparr>) s1"
  have t1': "table_ok s1'" unfolding s1'_def using regs_keep(1) [OF t1 cu1] .
  have len1: "length (procs s1) = procs_max" by (rule table_len [OF t1])
  have q: "p_queue (proc_at s v) = []" using free_queue [OF t v(2) w(3)] .
  have s1': "length (procs s1') = procs_max" "current_proc s1' = Some v" "p_blocked_sender (proc_at s1' v) = Some c"
      "p_queue (proc_at s1' v) = []" "proc_at s1' c = (proc_at s c)\<lparr>p_regs := f\<lparr>a0 := 0\<rparr>, p_cont := C_send\<rparr>" "\<not> k_exited s1'"
      "im_method_and_flags (p_pending_message (proc_at s1' v)) = a1 f" "comm_bytes s1' i = comm_bytes s1 i"
      "used s1' v" "used s1' c" for i
    using len1 s1 v q cur(3) by (simp_all add: s1'_def set_regs_def message_of_def comm_bytes_def used_def)
  have pg1: "p_comm_page (proc_at s1' v) \<noteq> 0" "p_comm_page (proc_at s1' c) \<noteq> 0"
    by (rule comm_nonzero [OF t1' v(1,2) s1'(9)], rule comm_nonzero [OF t1' cur(1,2) s1'(10)])
  obtain s2 where s2: "sys_ipc_reply s1' v g = Some (Ret s2)" "current_proc s2 = Some c" "\<not> k_exited s2"
      "p_regs (proc_at s2 c) = reply_regs g (f\<lparr>a0 := 0\<rparr>)" "recv_comm_data (a1 f) \<Longrightarrow> comm_bytes s2 c = comm_bytes s1 v"
    using reply_direct [OF s1'(1,2) v(2) s1'(3,4) cur(2) v(3) _ pg1 s1'(6)] s1' by auto
  have "kernel_step s1 (Ev_syscall g) = Some s2"
    using s1(2,3) g s2(1) unfolding kernel_step_def handle_syscall_def Let_def s1'_def by simp
  with s1 s2 show ?thesis by auto
qed

text \<open>C3. A call and its reply: when the server waits for a message, the call of a client switches to
  the server at once, with the pid of the client and the arguments in its registers and, if asked for, the
  contents of the client's communication page in its own; the reply of the server switches back to
  the client with the error and the values of the reply and, if asked for, the server's page.\<close>

theorem ipc_round_trip:
  assumes "kernel_inv s" and "\<not> k_exited s" and "get_current s = c"
    and "0 < v" "v < procs_max" "v \<noteq> c"
    and "p_state (proc_at s v) = IPC_RECV_WAIT" "p_cont (proc_at s v) = C_recv" "p_blocked_sender (proc_at s v) = None"
    and "unat (a3 f) = 9" "a0 f = of_nat (p_pid (proc_at s v))" and "unat (a3 g) = 11"
  shows "\<exists>s1 s2. kernel_step s (Ev_syscall f) = Some s1 \<and> current_proc s1 = Some v \<and>
     p_regs (proc_at s1 v) = call_regs (p_pid (proc_at s c)) f (p_regs (proc_at s v)) \<and>
     (send_comm_data (a1 f) \<longrightarrow> comm_bytes s1 v = comm_bytes s c) \<and>
     kernel_step s1 (Ev_syscall g) = Some s2 \<and> current_proc s2 = Some c \<and>
     p_regs (proc_at s2 c) = reply_regs g (f\<lparr>a0 := 0\<rparr>) \<and>
     (recv_comm_data (a1 f) \<longrightarrow> comm_bytes s2 c = comm_bytes s1 v)"
  by (rule round_trip) (use assms in simp_all)

lemma recv_step:
  assumes inv: "kernel_inv s" and alive: "\<not> k_exited s" and c: "current_proc s = Some 1"
    and two: "p_state (proc_at s 2) = RUNNABLE" and one: "\<not> p_has_pending (proc_at s 1)" "p_blocked_sender (proc_at s 1) = None"
    and f: "unat (a3 f) = 10"
  shows "\<exists>s'. kernel_step s (Ev_syscall f) = Some s' \<and> \<not> k_exited s' \<and> current_proc s' = Some 2 \<and>
    p_state (proc_at s' 1) = IPC_RECV_WAIT \<and> p_cont (proc_at s' 1) = C_recv \<and> p_blocked_sender (proc_at s' 1) = None \<and>
    (\<forall>i. i \<noteq> 1 \<longrightarrow> p_state (proc_at s' i) = p_state (proc_at s i))"
proof -
  have t: "table_ok s" and cu: "current_ok s" using inv alive by (simp_all add: kernel_inv_def)
  have len: "length (procs s) = procs_max" by (rule table_len [OF t])
  have i: "(1::nat) < procs_max" "(2::nat) < procs_max" by (simp_all add: procs_max_def)
  have idle: "idle_proc s = Some 0" "p_cont (proc_at s 2) \<noteq> C_idle" using cu i by (simp_all add: current_ok_def conts_ok_def)
  have px: "p_pidx (proc_at s 1) = 1" "p_pidx (proc_at s 2) = 2"
  proof -
    have u: "used s 1" "used s 2" using cu c two by (simp_all add: current_ok_def used_def)
    have "\<And>i. i < procs_max \<Longrightarrow> used s i \<Longrightarrow> p_pidx (proc_at s i) = i" using t unfolding table_ok_def identity_ok_def by blast
    with u i show "p_pidx (proc_at s 1) = 1" "p_pidx (proc_at s 2) = 2" by simp_all
  qed
  define s1 where "s1 = set_proc 1 (\<lambda>p. p\<lparr>p_state := IPC_RECV_WAIT\<rparr>) (set_regs 1 (\<lambda>_. f\<lparr>a0 := 0\<rparr>) s)"
  have s1: "proc_at s1 1 = (proc_at s 1)\<lparr>p_state := IPC_RECV_WAIT, p_regs := f\<lparr>a0 := 0\<rparr>\<rparr>" "proc_at s1 2 = proc_at s 2"
      "length (procs s1) = procs_max" "current_proc s1 = Some 1" "idle_proc s1 = Some 0" "\<not> k_exited s1"
    using len i c idle alive by (simp_all add: s1_def set_regs_def)
  have two': "(1 + 0 + 1) mod procs_max = 2" by (simp add: procs_max_def)
  have "runnable_from s1 1 0 (Suc k) = Some 2" for k
    unfolding runnable_from.simps Let_def two' using s1 px two by simp
  from this [of 15] have "runnable_from s1 1 0 procs_max = Some 2" by (simp add: procs_max_def)
  then have n: "process_next_runnable s1 1 0 = 2" using s1 px by (simp add: process_next_runnable_def)
  have run: "kernel_step s (Ev_syscall f) = Some (process_switch_to 2 C_recv s1)"
  proof -
    have y: "yield C_recv s1 = Some (Ret (process_switch_to 2 C_recv s1))" using n s1 by (simp add: yield_def ret_def)
    have r: "sys_ipc_recv (set_regs 1 (\<lambda>_. f\<lparr>a0 := 0\<rparr>) s) 1 = yield C_recv s1"
      using one by (simp add: sys_ipc_recv_def s1_def set_regs_def)
    have g: "get_current s = 1" using c by simp
    show ?thesis using alive f unfolding kernel_step_def handle_syscall_def Let_def g
      by (simp add: r [unfolded One_nat_def] y)
  qed
  have one': "p_cont (proc_at (process_switch_to 2 C_recv s1) 1) = C_recv"
    using proc_at_resume(2) [of 1 2] s1 i by (simp add: process_switch_to_def)
  have "p_blocked_sender (proc_at (process_switch_to 2 C_recv s1) 1) = None"
    using core_switch [of s1 2 C_recv] s1 one by (simp add: core_step_def same_core_def)
  moreover have "\<not> k_exited (process_switch_to 2 C_recv s1)"
    using s1 idle(2) by (cases "p_cont (proc_at s 2)")
      (simp_all add: process_switch_to_def resume_def Let_def read_response_def take_message_def set_regs_def)
  moreover have "current_proc (process_switch_to 2 C_recv s1) = Some 2" by (simp add: process_switch_to_def)
  moreover have "p_state (proc_at (process_switch_to 2 C_recv s1) i) = p_state (proc_at s i)" if "i \<noteq> 1" for i
    using that by (simp add: s1_def set_regs_def)
  ultimately show ?thesis using run one' s1 i by simp
qed

text \<open>The first program waits for messages and the second one is running.\<close>

lemma boot_recv:
  "\<exists>s1 s2. kernel_start True True False None boot64 = Some (Ret s1) \<and>
     run_steps kernel_step s1 [Ev_syscall (zero_regs\<lparr>a3 := 10\<rparr>)] = Some s2 \<and> kernel_inv s2 \<and> \<not> k_exited s2 \<and>
     current_proc s2 = Some 2 \<and> p_state (proc_at s2 1) = IPC_RECV_WAIT \<and> p_cont (proc_at s2 1) = C_recv \<and>
     p_blocked_sender (proc_at s2 1) = None \<and> (\<forall>i<procs_max. can_run s2 i \<longrightarrow> i = 2)"
proof -
  obtain s1 where s1: "kernel_start True True False None boot64 = Some (Ret s1)" "current_proc s1 = Some 1" "\<not> k_exited s1"
      "\<forall>i\<le>program_count True True False None. p_state (proc_at s1 i) = RUNNABLE \<and> \<not> p_has_pending (proc_at s1 i) \<and>
        p_blocked_sender (proc_at s1 i) = None"
      "\<forall>i<procs_max. program_count True True False None < i \<longrightarrow> p_state (proc_at s1 i) = UNUSED"
    using kernel_start_total [OF boot64(1), of True True False None] boot64(2,3) by (auto simp: program_count_def)
  have p: "p_state (proc_at s1 2) = RUNNABLE" "\<not> p_has_pending (proc_at s1 1)" "p_blocked_sender (proc_at s1 1) = None"
    using s1(4) by (simp_all add: program_count_def)
  have inv: "kernel_inv s1" by (rule kernel_start_inv [OF boot64(1) s1(1)])
  obtain s2 where s2: "kernel_step s1 (Ev_syscall (zero_regs\<lparr>a3 := 10\<rparr>)) = Some s2" "\<not> k_exited s2" "current_proc s2 = Some 2"
    "p_state (proc_at s2 1) = IPC_RECV_WAIT" "p_cont (proc_at s2 1) = C_recv" "p_blocked_sender (proc_at s2 1) = None"
    "\<And>i. i \<noteq> 1 \<Longrightarrow> p_state (proc_at s2 i) = p_state (proc_at s1 i)"
    using recv_step [OF inv s1(3,2) p, of "zero_regs\<lparr>a3 := 10\<rparr>"] by auto
  moreover have "i = 2" if "i < procs_max" "can_run s2 i" for i
  proof (rule ccontr)
    assume "i \<noteq> 2"
    then have "i = 1 \<or> 2 < i" using that(2) by (auto simp: can_run_def)
    with that s2(4,7) s1(5) show False by (auto simp: can_run_def program_count_def)
  qed
  ultimately show ?thesis using kernel_step_inv [OF inv s2(1)] s1 by auto
qed

theorem ipc_round_trip_witness:
  "\<exists>s s1 s2 :: kstate. \<exists>f g. kernel_step s (Ev_syscall f) = Some s1 \<and> current_proc s1 = Some 1 \<and>
     kernel_step s1 (Ev_syscall g) = Some s2 \<and> current_proc s2 = Some 2 \<and>
     (a0 (p_regs (proc_at s2 2)), a1 (p_regs (proc_at s2 2)), a2 (p_regs (proc_at s2 2))) = (0, 21, 42)"
proof -
  obtain s where s: "kernel_inv s" "\<not> k_exited s" "current_proc s = Some 2" "p_state (proc_at s 1) = IPC_RECV_WAIT"
      "p_cont (proc_at s 1) = C_recv" "p_blocked_sender (proc_at s 1) = None" using boot_recv by blast
  let ?f = "zero_regs\<lparr>a0 := of_nat (p_pid (proc_at s 1)), a1 := 3, a3 := 9\<rparr>"
  let ?g = "zero_regs\<lparr>a1 := 21, a2 := 42, a3 := 11\<rparr>"
  have "\<exists>s1 s2. kernel_step s (Ev_syscall ?f) = Some s1 \<and> current_proc s1 = Some 1 \<and>
     p_regs (proc_at s1 1) = call_regs (p_pid (proc_at s 2)) ?f (p_regs (proc_at s 1)) \<and>
     (send_comm_data (a1 ?f) \<longrightarrow> comm_bytes s1 1 = comm_bytes s 2) \<and>
     kernel_step s1 (Ev_syscall ?g) = Some s2 \<and> current_proc s2 = Some 2 \<and>
     p_regs (proc_at s2 2) = reply_regs ?g (?f\<lparr>a0 := 0\<rparr>) \<and>
     (recv_comm_data (a1 ?f) \<longrightarrow> comm_bytes s2 2 = comm_bytes s1 1)"
    by (rule ipc_round_trip) (use s in \<open>simp_all add: procs_max_def\<close>)
  then obtain s1 s2 where "kernel_step s (Ev_syscall ?f) = Some s1" "current_proc s1 = Some 1"
      "kernel_step s1 (Ev_syscall ?g) = Some s2" "current_proc s2 = Some 2" "p_regs (proc_at s2 2) = reply_regs ?g (?f\<lparr>a0 := 0\<rparr>)"
    by blast
  then show ?thesis by (intro exI [of _ s] exI [of _ s1] exI [of _ s2] exI [of _ ?f] exI [of _ ?g]) (simp add: reply_regs_def zero_regs_def)
qed

theorem requests_fifo_witness:
  "\<exists>s1 s2 f. let evs = [Ev_syscall (zero_regs\<lparr>a3 := 10\<rparr>), Ev_syscall f] in unat (a3 f) = 9 \<and>
     kernel_start True True False None boot64 = Some (Ret s1) \<and> run_steps kernel_step s1 evs = Some s2 \<and>
     requests s2 1 = drop (answers s1 evs 1) (requests s1 1 @ arrivals s1 evs 1)"
proof -
  obtain s1 s where s: "kernel_start True True False None boot64 = Some (Ret s1)"
      "run_steps kernel_step s1 [Ev_syscall (zero_regs\<lparr>a3 := 10\<rparr>)] = Some s" "kernel_inv s" "\<not> k_exited s" "current_proc s = Some 2"
      "p_state (proc_at s 1) = IPC_RECV_WAIT" "p_cont (proc_at s 1) = C_recv" "p_blocked_sender (proc_at s 1) = None"
    using boot_recv by blast
  let ?f = "zero_regs\<lparr>a0 := of_nat (p_pid (proc_at s 1)), a3 := 9\<rparr>"
  let ?evs = "[Ev_syscall (zero_regs\<lparr>a3 := 10\<rparr>), Ev_syscall ?f]"
  obtain s2 s3 where s2: "kernel_step s (Ev_syscall ?f) = Some s2" "kernel_step s2 (Ev_syscall (zero_regs\<lparr>a3 := 11\<rparr>)) = Some s3"
    using round_trip [OF s(3,4) get_current_Some [OF s(5)] _ _ _ s(6-8), of ?f "zero_regs\<lparr>a3 := 11\<rparr>"] by (auto simp: procs_max_def)
  then have "\<not> k_exited s2" by (auto simp: kernel_step_def)
  moreover have run: "run_steps kernel_step s1 ?evs = Some s2" using s(2) s2(1)
    by (cases "kernel_step s1 (Ev_syscall (zero_regs\<lparr>a3 := 10\<rparr>))") simp_all
  moreover have "1 < procs_max" by (simp add: procs_max_def)
  ultimately have "requests s2 1 = drop (answers s1 ?evs 1) (requests s1 1 @ arrivals s1 ?evs 1)"
    by (intro requests_fifo [OF boot64(1) s(1)])
  with run s(1) show ?thesis unfolding Let_def by (intro exI [of _ s1] exI [of _ s2] exI [of _ ?f]) simp
qed

section \<open>Round robin\<close>

text \<open>The processes behind \<open>c\<close> in the circular order of the table.\<close>

definition behind :: "nat \<Rightarrow> nat \<Rightarrow> nat" where
  "behind c k = (c + k + 1) mod procs_max"

lemma behind_less [simp]: "behind c k < procs_max"
  by (simp add: behind_def procs_max_def)

lemma behind_if: "c < procs_max \<Longrightarrow> k < procs_max \<Longrightarrow>
    behind c k = (if c + k + 1 < procs_max then c + k + 1 else c + k + 1 - procs_max)"
  by (simp add: behind_def procs_max_def mod_if)

lemma can_run_pidx:
  assumes "identity_ok s" and "i < procs_max"
  shows "p_state (proc_at s i) = RUNNABLE \<and> 0 < p_pidx (proc_at s i) \<longleftrightarrow> can_run s i"
  using assms by (auto simp: identity_ok_def can_run_def used_def)

lemma next_runnable_found:
  assumes id: "identity_ok s" and c: "c < procs_max" "used s c" and one: "p_state (proc_at s 1) \<noteq> TERMINATED"
    and k: "k < procs_max" "can_run s (behind c k)" "\<forall>l<k. \<not> can_run s (behind c l)"
  shows "process_next_runnable s c idle = behind c k"
proof -
  have px: "p_pidx (proc_at s c) = c" using id c by (simp add: identity_ok_def)
  note cr = can_run_pidx [OF id behind_less, unfolded behind_def]
  have "runnable_from s c 0 procs_max \<noteq> None"
    unfolding runnable_from_None cr using k(1,2) by (auto simp: behind_def)
  then obtain j where j: "runnable_from s c 0 procs_max = Some j" by blast
  from runnable_from_Some [OF this] obtain k' where k': "k' < procs_max" "j = behind c k'" "can_run s (behind c k')"
      "\<forall>l<k'. \<not> can_run s (behind c l)"
    unfolding cr behind_def using cr by auto
  have "k' = k" using k k' by (meson linorder_neqE_nat)
  with j k' px one show ?thesis by (simp add: process_next_runnable_def)
qed

lemma next_runnable_idle:
  assumes id: "identity_ok s" and c: "c < procs_max" "used s c"
    and none: "p_state (proc_at s 1) = TERMINATED \<or> (\<forall>i<procs_max. \<not> can_run s i)"
  shows "process_next_runnable s c idle = idle"
proof (cases "p_state (proc_at s 1) = TERMINATED")
  case False
  have px: "p_pidx (proc_at s c) = c" using id c by (simp add: identity_ok_def)
  note cr = can_run_pidx [OF id behind_less, unfolded behind_def]
  have "runnable_from s c 0 procs_max = None" unfolding runnable_from_None cr using none False by (simp add: procs_max_def)
  then show ?thesis using px by (simp add: process_next_runnable_def)
qed (simp add: process_next_runnable_def Let_def)

text \<open>C21. Round robin: when the current process \<open>c\<close> gives up the processor, the first process behind it
  in the circular order of the table that can run is chosen; the idle process only when there is none, or when
  the first program has ended.\<close>

theorem scheduler_round_robin:
  assumes "kernel_inv s" and "\<not> k_exited s" and "current_proc s = Some c" and "p_state (proc_at s 1) \<noteq> TERMINATED"
    and "k < procs_max" and "can_run s (behind c k)" and "\<forall>l<k. \<not> can_run s (behind c l)"
  shows "\<exists>s'. kernel_step s (Ev_syscall (zero_regs\<lparr>a3 := 1\<rparr>)) = Some s' \<and> current_proc s' = Some (behind c k)"
proof -
  have t: "table_ok s" and cu: "current_ok s" using assms(1,2) by (simp_all add: kernel_inv_def)
  have c: "c < procs_max" "used s c" "get_current s = c" using current_facts [OF cu] assms(3) by (metis option.inject)+
  have idle: "idle_proc s = Some 0" using cu by (simp add: current_ok_def conts_ok_def)
  define s0 where "s0 = set_regs c (\<lambda>_. (zero_regs\<lparr>a3 := 1\<rparr>)\<lparr>a0 := 0\<rparr>) s"
  have id: "identity_ok s0" using regs_keep(1) [OF t cu] by (simp add: s0_def table_ok_def)
  have s0: "p_state (proc_at s0 i) = p_state (proc_at s i)" "can_run s0 i = can_run s i" "used s0 i = used s i"
    "current_proc s0 = Some c" "idle_proc s0 = Some 0" for i
    using assms(3) idle by (simp_all add: s0_def set_regs_def can_run_def used_def)
  have n: "process_next_runnable s0 c 0 = behind c k"
    by (rule next_runnable_found [OF id c(1)]) (use assms c s0 in simp_all)
  obtain s' where s': "yield C_user s0 = Some (Ret s')" "current_proc s' = Some (behind c k)"
    using n s0 by (cases "behind c k = c") (auto simp: yield_def Let_def process_switch_to_def)
  have "unat (a3 (zero_regs\<lparr>a3 := 1\<rparr>)) = 1" by simp
  then have "kernel_step s (Ev_syscall (zero_regs\<lparr>a3 := 1\<rparr>)) = returned (yield C_user s0)"
    using assms(2) unfolding kernel_step_def handle_syscall_def Let_def c(3) s0_def by simp
  with s' show ?thesis by simp
qed

theorem scheduler_round_robin_witness:
  "\<exists>s s'. current_proc s = Some 1 \<and> kernel_step s (Ev_syscall (zero_regs\<lparr>a3 := 1\<rparr>)) = Some s' \<and> current_proc s' = Some 2"
proof -
  obtain s where s: "kernel_start True True False None boot64 = Some (Ret s)" "current_proc s = Some 1" "\<not> k_exited s"
      "\<forall>i\<le>program_count True True False None. p_state (proc_at s i) = RUNNABLE"
    using kernel_start_total [OF boot64(1), of True True False None] boot64(2,3) by (auto simp: program_count_def)
  have p: "p_state (proc_at s 2) = RUNNABLE" "p_state (proc_at s 1) = RUNNABLE" using s(4) by (simp_all add: program_count_def)
  have b: "behind 1 0 = 2" "0 < procs_max" by (simp_all add: behind_def procs_max_def)
  have "\<exists>s'. kernel_step s (Ev_syscall (zero_regs\<lparr>a3 := 1\<rparr>)) = Some s' \<and> current_proc s' = Some (behind 1 0)"
    by (rule scheduler_round_robin [OF kernel_start_inv [OF boot64(1) s(1)] s(3,2)]) (use p b in \<open>simp_all add: can_run_def\<close>)
  with s(2) b show ?thesis by auto
qed

section \<open>Callers left behind\<close>

text \<open>The registers of a caller that goes on, from the response in its record.\<close>

definition response_regs :: "ipc_response \<Rightarrow> trap_regs \<Rightarrow> trap_regs" where
  "response_regs r f = f\<lparr>a0 := ir_error r, a1 := ir_value0 r, a2 := ir_value1 r, a4 := ir_value2 r\<rparr>"

lemma yield_resumes_caller:
  assumes inv: "kernel_inv s" and alive: "\<not> k_exited s" and v: "current_proc s = Some v" "v \<noteq> c"
    and c: "0 < c" "c < procs_max" "p_state (proc_at s c) = RUNNABLE" "p_cont (proc_at s c) = C_send"
    and only: "\<forall>i<procs_max. can_run s i \<longrightarrow> i = c \<or> i = v" and one: "p_state (proc_at s 1) \<noteq> TERMINATED"
    and f: "unat (a3 f) = 1"
  shows "\<exists>s'. kernel_step s (Ev_syscall f) = Some s' \<and> current_proc s' = Some c \<and>
    p_regs (proc_at s' c) = response_regs (p_pending_response (proc_at s c)) (p_regs (proc_at s c)) \<and>
    (\<forall>w. requests s' w = requests s w)"
proof -
  have t: "table_ok s" and cu: "current_ok s" using inv alive by (simp_all add: kernel_inv_def)
  have vf: "v < procs_max" "used s v" "get_current s = v" using current_facts [OF cu] v(1) by (metis option.inject)+
  have idle: "idle_proc s = Some 0" using cu by (simp add: current_ok_def conts_ok_def)
  have len: "length (procs s) = procs_max" by (rule table_len [OF t])
  define s0 where "s0 = set_regs v (\<lambda>_. f\<lparr>a0 := 0\<rparr>) s"
  have id: "identity_ok s0" using regs_keep(1) [OF t cu] by (simp add: s0_def table_ok_def)
  have s0: "p_state (proc_at s0 i) = p_state (proc_at s i)" "can_run s0 i = can_run s i" "used s0 i = used s i"
    "current_proc s0 = Some v" "idle_proc s0 = Some 0" "proc_at s0 c = proc_at s c" "length (procs s0) = procs_max" for i
    using v idle len by (simp_all add: s0_def set_regs_def can_run_def used_def)
  define k where "k = (if v < c then c - v - 1 else c + procs_max - v - 1)"
  have k: "k < procs_max" using vf(1) c(2) v(2) by (auto simp: k_def)
  have b: "behind v k = c" unfolding behind_if [OF vf(1) k] using vf(1) c(2) v(2) by (auto simp: k_def)
  have "behind v l \<noteq> v" "behind v l \<noteq> c" if "l < k" for l
    unfolding behind_if [OF vf(1) less_trans [OF that k]] using that vf(1) k c(2) v(2) by (auto simp: k_def split: if_splits)
  then have "\<forall>l<k. \<not> can_run s0 (behind v l)" using only s0(2) behind_less by blast
  then have n: "process_next_runnable s0 v 0 = c"
    using next_runnable_found [OF id vf(1) _ _ k, of 0] vf s0 one c b by (simp add: can_run_def)
  have y: "yield C_user s0 = Some (Ret (process_switch_to c C_user s0))"
    using n s0 v(2) by (simp add: yield_def Let_def ret_def)
  let ?s4 = "(set_proc v (\<lambda>p. p\<lparr>p_cont := C_user\<rparr>) s0)\<lparr>current_proc := Some c\<rparr>"
  have r: "process_switch_to c C_user s0 = read_response c (set_proc c (\<lambda>p. p\<lparr>p_cont := C_user\<rparr>) ?s4)"
    using c v s0 by (simp add: process_switch_to_def resume_parts)
  have "kernel_step s (Ev_syscall f) = returned (yield C_user s0)"
    using alive f unfolding kernel_step_def handle_syscall_def Let_def vf(3) s0_def by simp
  moreover have "requests (process_switch_to c C_user s0) w = requests s w" for w
    unfolding requests_core [OF core_switch] s0_def by (rule requests_core [OF core_set_regs])
  moreover have "p_regs (proc_at (process_switch_to c C_user s0) c) = response_regs (p_pending_response (proc_at s c)) (p_regs (proc_at s c))"
    unfolding r using c v s0 by (simp add: read_response_def set_regs_def response_regs_def Let_def)
  moreover have "current_proc (process_switch_to c C_user s0) = Some c" by (simp add: process_switch_to_def)
  ultimately show ?thesis using y by simp
qed

text \<open>C39. A call can return before it is answered: the sender that switches to a waiting server stays
  runnable, so when the server gives up the processor before its reply and no third process can run, the
  caller goes on with the response of an earlier call, and its request is still waiting.\<close>

theorem ipc_stale_response:
  assumes "kernel_inv s" and "\<not> k_exited s" and "get_current s = c"
    and "0 < v" "v < procs_max" "v \<noteq> c"
    and "p_state (proc_at s v) = IPC_RECV_WAIT" "p_cont (proc_at s v) = C_recv" "p_blocked_sender (proc_at s v) = None"
    and "unat (a3 f) = 9" "a0 f = of_nat (p_pid (proc_at s v))" and "unat (a3 g) = 1"
    and "\<forall>i<procs_max. can_run s i \<longrightarrow> i = c" and "p_state (proc_at s 1) \<noteq> TERMINATED"
  shows "\<exists>s1 s2. kernel_step s (Ev_syscall f) = Some s1 \<and> kernel_step s1 (Ev_syscall g) = Some s2 \<and>
     current_proc s2 = Some c \<and> p_regs (proc_at s2 c) = response_regs (p_pending_response (proc_at s c)) (f\<lparr>a0 := 0\<rparr>) \<and>
     requests s2 v = [(c, message_of s c f)]"
proof -
  have t: "table_ok s" and cu: "current_ok s" using assms(1,2) by (simp_all add: kernel_inv_def)
  have cur: "0 < c" "c < procs_max" "p_state (proc_at s c) = RUNNABLE" using current_facts [OF cu] assms(3) by metis+
  obtain s1 where s1: "kernel_step s (Ev_syscall f) = Some s1" "current_proc s1 = Some v" "\<not> k_exited s1"
      "proc_at s1 c = (proc_at s c)\<lparr>p_regs := f\<lparr>a0 := 0\<rparr>, p_cont := C_send\<rparr>"
      "proc_at s1 v = (proc_at s v)\<lparr>p_state := RUNNABLE, p_cont := C_user, p_pending_message := message_of s c f,
        p_has_pending := False, p_blocked_sender := Some c, p_regs := call_regs (p_pid (proc_at s c)) f (p_regs (proc_at s v))\<rparr>"
      "\<And>i. i \<noteq> c \<Longrightarrow> i \<noteq> v \<Longrightarrow> proc_at s1 i = proc_at s i"
    using send_step [OF assms(1-11)] by blast
  have q: "requests s1 v = [(c, message_of s c f)]" using s1(5) free_queue [OF t assms(5,9)] by (simp add: requests_def)
  have only: "\<forall>i<procs_max. can_run s1 i \<longrightarrow> i = c \<or> i = v"
    using assms(13) s1(6) by (metis can_run_def)
  have st: "p_state (proc_at s1 c) = p_state (proc_at s c)" "p_state (proc_at s1 v) = RUNNABLE"
    unfolding s1(4,5) by simp_all
  have "p_state (proc_at s1 i) = (if i = v then RUNNABLE else p_state (proc_at s i))" for i
    using st s1(6) by metis
  then have one: "p_state (proc_at s1 1) \<noteq> TERMINATED" using assms(14) by simp
  from yield_resumes_caller [OF kernel_step_inv [OF assms(1) s1(1)] s1(3,2) assms(6) cur(1,2) _ _ only one assms(12)] s1 q cur(3)
  show ?thesis by auto
qed

theorem ipc_stale_response_witness:
  "\<exists>s f g s1 s2. requests s 1 = [] \<and> kernel_step s (Ev_syscall f) = Some s1 \<and> kernel_step s1 (Ev_syscall g) = Some s2 \<and>
     current_proc s2 = Some 2 \<and> requests s2 1 = [(2, message_of s 2 f)]"
proof -
  obtain s where s: "kernel_inv s" "\<not> k_exited s" "current_proc s = Some 2" "p_state (proc_at s 1) = IPC_RECV_WAIT"
      "p_cont (proc_at s 1) = C_recv" "p_blocked_sender (proc_at s 1) = None" "\<forall>i<procs_max. can_run s i \<longrightarrow> i = 2"
    using boot_recv by blast
  let ?f = "zero_regs\<lparr>a0 := of_nat (p_pid (proc_at s 1)), a3 := 9\<rparr>" and ?g = "zero_regs\<lparr>a3 := 1\<rparr>"
  have "\<exists>s1 s2. kernel_step s (Ev_syscall ?f) = Some s1 \<and> kernel_step s1 (Ev_syscall ?g) = Some s2 \<and>
     current_proc s2 = Some 2 \<and> p_regs (proc_at s2 2) = response_regs (p_pending_response (proc_at s 2)) (?f\<lparr>a0 := 0\<rparr>) \<and>
     requests s2 1 = [(2, message_of s 2 ?f)]"
    by (rule ipc_stale_response [OF s(1,2)]) (use s in \<open>simp_all add: procs_max_def\<close>)
  moreover have "requests s 1 = []" using s(6) by (simp add: requests_def)
  ultimately show ?thesis by blast
qed

section \<open>Callers of a server that has ended\<close>

text \<open>The process \<open>i\<close> waits for an answer of \<open>v\<close>, which has ended and is itself no longer a caller.\<close>

definition stranded :: "nat \<Rightarrow> nat \<Rightarrow> kstate \<Rightarrow> bool" where
  "stranded v i s \<longleftrightarrow> i < procs_max \<and> v < procs_max \<and> p_state (proc_at s v) = TERMINATED \<and> p_state (proc_at s i) = IPC_SEND_WAIT \<and>
     (\<forall>w<procs_max. w \<noteq> v \<longrightarrow> i \<notin> fst ` set (requests s w)) \<and> (\<forall>w<procs_max. v \<notin> fst ` set (requests s w))"

lemma stranded_step:
  assumes inv: "kernel_inv s" and st: "stranded v i s" and run: "kernel_step s e = Some s'" and live: "\<not> k_exited s'"
  shows "stranded v i s'"
proof -
  have cu: "current_ok s" using inv run by (auto simp: kernel_inv_def kernel_step_def split: if_splits)
  define c where "c = get_current s"
  have c: "c < procs_max" "p_state (proc_at s c) = RUNNABLE" using current_facts [OF cu] c_def by metis+
  have ne: "c \<noteq> v" "c \<noteq> i" using c(2) st by (auto simp: stranded_def)
  have eff: "effect s c s'" using step_effect [OF inv run live] by (simp add: c_def)
  have sub: "fst ` set (requests s' w) \<subseteq> insert c (fst ` set (requests s w))" if "w < procs_max" for w
  proof -
    have "requests s' w = requests s w \<or> requests s' w = tl (requests s w) \<or> (\<exists>m. requests s' w = requests s w @ [(c, m)])"
      using eff that unfolding effect_def by blast
    moreover have "set (tl (requests s w)) \<subseteq> set (requests s w)" by (cases "requests s w") auto
    ultimately show ?thesis by auto
  qed
  have keep: "p_state (proc_at s' j) = p_state (proc_at s j)"
    if "j \<in> {v, i}" for j
  proof -
    have j: "j < procs_max" "j \<noteq> c" "used s j" "p_state (proc_at s j) \<noteq> IPC_RECV_WAIT" "j \<notin> fst ` set (requests s c)"
      using that st ne c(1) by (auto simp: stranded_def used_def)
    have "requests s c \<noteq> (j, m) # rest" for m rest using j(5) by auto
    with eff j show ?thesis unfolding effect_def by blast
  qed
  have "i \<notin> fst ` set (requests s' w)" if "w < procs_max" "w \<noteq> v" for w
    using sub [OF that(1)] ne(2) st that unfolding stranded_def by blast
  moreover have "v \<notin> fst ` set (requests s' w)" if "w < procs_max" for w
    using sub [OF that] ne(1) st that unfolding stranded_def by blast
  ultimately show ?thesis using st keep by (simp add: stranded_def)
qed

interpretation strand: step_inv kernel_step "\<lambda>s. k_exited s \<or> kernel_inv s \<and> stranded v i s" for v i
proof (unfold_locales, elim disjE conjE)
  fix s x s'
  assume "k_exited s" "kernel_step s x = Some s'"
  then show "k_exited s' \<or> kernel_inv s' \<and> stranded v i s'" by (simp add: kernel_step_def)
next
  fix s x s'
  assume "kernel_step s x = Some s'" "kernel_inv s" "stranded v i s"
  with kernel_step_inv stranded_step show "k_exited s' \<or> kernel_inv s' \<and> stranded v i s'" by blast
qed

lemma crash_strands:
  assumes inv: "kernel_inv s" and v: "current_proc s = Some v" and run: "kernel_step s Ev_crash = Some s1"
    and i: "i < procs_max" "p_state (proc_at s i) = IPC_SEND_WAIT"
    and only: "\<forall>w<procs_max. w \<noteq> v \<longrightarrow> i \<notin> fst ` set (requests s w)" "\<forall>w<procs_max. v \<notin> fst ` set (requests s w)"
  shows "stranded v i s1"
proof -
  have t: "table_ok s" and cu: "current_ok s" using inv run by (auto simp: kernel_inv_def kernel_step_def split: if_splits)
  have c: "v < procs_max" "p_state (proc_at s v) = RUNNABLE" using current_facts [OF cu] v by (metis option.inject)+
  have y: "yield C_user (set_proc v (\<lambda>p. p\<lparr>p_state := TERMINATED\<rparr>) s) = Some (Ret s1)"
    using run v by (simp add: kernel_step_def returned_Some handle_crash_def split: if_splits)
  have "requests s1 w = requests s w" for w unfolding requests_core [OF core_yield [OF y]] by (rule requests_keep) simp
  moreover have "p_state (proc_at s1 v) = TERMINATED" using yield_state [OF y] c table_len [OF t] by simp
  moreover have "p_state (proc_at s1 i) = IPC_SEND_WAIT" using yield_state [OF y] i c(2) by auto
  ultimately show ?thesis using c i only by (simp add: stranded_def)
qed

text \<open>C40. A server that crashes takes its callers with it: a process that waits for the answer of a server
  when the server crashes never runs again, whatever the other processes do.\<close>

theorem crash_leaves_callers_waiting:
  assumes "kernel_inv s" and "current_proc s = Some v" and "kernel_step s Ev_crash = Some s1"
    and "i < procs_max" "p_state (proc_at s i) = IPC_SEND_WAIT"
    and "\<forall>w<procs_max. w \<noteq> v \<longrightarrow> i \<notin> fst ` set (requests s w)" and "\<forall>w<procs_max. v \<notin> fst ` set (requests s w)"
    and "run_steps kernel_step s1 evs = Some s2" and "\<not> k_exited s2"
  shows "p_state (proc_at s2 i) = IPC_SEND_WAIT \<and> process_lookup_by_pid s2 (p_pid (proc_at s2 v)) = Some v"
proof -
  have "stranded v i s1" by (rule crash_strands [OF assms(1-7)])
  with strand.run_keeps [of s1 v i evs s2] kernel_step_inv [OF assms(1,3)] assms(8,9)
  have s2: "stranded v i s2" "identity_ok s2" by (auto simp: kernel_inv_def table_ok_def)
  then show ?thesis using lookup_own_pid [OF s2(2), of v] by (simp add: stranded_def used_def)
qed

lemma yields_to:
  assumes "current_proc s = Some c" and "idle_proc s = Some 0" and "process_next_runnable s c 0 = j" and "j \<noteq> c"
    and "p_cont (proc_at s j) \<noteq> C_idle" and "\<not> k_exited s"
  shows "\<exists>s'. yield k s = Some (Ret s') \<and> current_proc s' = Some j \<and> \<not> k_exited s'"
proof -
  have "yield k s = Some (Ret (process_switch_to j k s))" using assms by (simp add: yield_def Let_def ret_def)
  moreover have "\<not> k_exited (process_switch_to j k s)"
    using assms by (cases "p_cont (proc_at s j)")
      (simp_all add: process_switch_to_def resume_def Let_def read_response_def take_message_def set_regs_def)
  ultimately show ?thesis by (simp add: process_switch_to_def)
qed

lemma next_after:
  assumes id: "identity_ok s" and c: "c < procs_max" "used s c" and j: "c + 1 < procs_max" "p_state (proc_at s (c + 1)) = RUNNABLE"
    and one: "p_state (proc_at s 1) \<noteq> TERMINATED"
  shows "process_next_runnable s c 0 = c + 1"
proof -
  have b: "behind c 0 = c + 1" using j by (simp add: behind_def)
  show ?thesis using next_runnable_found [OF id c one, of 0 0] j by (simp add: b can_run_def procs_max_def)
qed

lemma conts_idle: "conts_ok s \<Longrightarrow> 0 < j \<Longrightarrow> j < procs_max \<Longrightarrow> p_cont (proc_at s j) \<noteq> C_idle"
  by (simp add: conts_ok_def)

lemma send_busy_step:
  assumes inv: "kernel_inv s" and alive: "\<not> k_exited s" and c: "current_proc s = Some 1"
    and two: "p_state (proc_at s 2) = RUNNABLE" "p_blocked_sender (proc_at s 2) = None"
    and f: "unat (a3 f) = 9" "a0 f = of_nat (p_pid (proc_at s 2))"
  shows "\<exists>s'. kernel_step s (Ev_syscall f) = Some s' \<and> \<not> k_exited s' \<and> current_proc s' = Some 2 \<and>
    p_state (proc_at s' 1) = IPC_SEND_WAIT \<and> (\<forall>i. i \<noteq> 1 \<longrightarrow> p_state (proc_at s' i) = p_state (proc_at s i))"
proof -
  have t: "table_ok s" and cu: "current_ok s" using inv alive by (simp_all add: kernel_inv_def)
  have i: "(1::nat) < procs_max" "(2::nat) < procs_max" by (simp_all add: procs_max_def)
  have cur: "0 < (1::nat)" "get_current s = 1" "p_state (proc_at s 1) = RUNNABLE" "idle_proc s = Some 0" "conts_ok s"
    using cu c by (simp_all add: current_ok_def conts_ok_def)
  define s0 where "s0 = set_regs 1 (\<lambda>_. f\<lparr>a0 := 0\<rparr>) s"
  have t0: "table_ok s0" and cu0: "current_ok s0" unfolding s0_def using regs_keep [OF t cu] by auto
  have id0: "identity_ok s0" using t0 by (simp add: table_ok_def)
  have len: "length (procs s0) = procs_max" by (rule table_len [OF t0])
  have s0: "p_state (proc_at s0 i) = p_state (proc_at s i)" "p_pid (proc_at s0 i) = p_pid (proc_at s i)"
      "p_blocked_sender (proc_at s0 i) = p_blocked_sender (proc_at s i)" "current_proc s0 = Some 1" "idle_proc s0 = Some 0"
      "\<not> k_exited s0" for i
    using c cur alive by (simp_all add: s0_def set_regs_def)
  have u: "used s0 2" "used s0 1" using two s0 cur by (simp_all add: used_def)
  have look: "process_lookup_by_pid s0 (unat (a0 f)) = Some 2"
    using lookup_own_pid [OF id0 i(2) u(1)] pid_word [OF id0 i(2) u(1)] f(2) s0(2) by simp
  have lookx: "process_lookup_by_pidx s0 (int 2) = Some 2"
    using two s0 by (simp add: process_lookup_by_pidx_def process_is_running_def procs_max_def)
  define s1 where "s1 = (if send_comm_data (a1 f) then copy_comm 2 1 s0 else s0)"
  define s2 where "s2 = set_proc 1 (\<lambda>p. p\<lparr>p_state := IPC_SEND_WAIT\<rparr>)
    (set_proc 2 (\<lambda>p. p\<lparr>p_pending_message := message_of s0 1 f, p_has_pending := True, p_blocked_sender := Some 1\<rparr>) s1)"
  have s1: "proc_at s1 i = proc_at s0 i" "length (procs s1) = procs_max" "current_proc s1 = Some 1" "idle_proc s1 = Some 0"
      "\<not> k_exited s1" "process_pids s1 = process_pids s0" "proc_pid_counter s1 = proc_pid_counter s0" for i
    using len s0 by (simp_all add: s1_def copy_comm_def Let_def)
  have run: "sys_ipc_send s0 1 f = yield C_send s2"
    using look lookx two s0 by (cases "send_comm_data (a1 f)") (simp_all add: sys_ipc_send_def Let_def s1_def s2_def message_of_def)
  have us: "used s2 j = used s0 j" "p_pidx (proc_at s2 j) = p_pidx (proc_at s0 j)" "p_pid (proc_at s2 j) = p_pid (proc_at s0 j)"
      "p_state (proc_at s2 j) = (if j = 1 then IPC_SEND_WAIT else p_state (proc_at s j))" "p_cont (proc_at s2 j) = p_cont (proc_at s0 j)" for j
    using s1 u i s0 by (auto simp: s2_def used_def)
  have l2: "length (procs s2) = length (procs s0)" "process_pids s2 = process_pids s0" "proc_pid_counter s2 = proc_pid_counter s0"
    using s1 len by (simp_all add: s2_def)
  have "identity_ok s2 = identity_ok s0" unfolding identity_ok_def us(1-3) l2 by (rule refl)
  with id0 have n: "process_next_runnable s2 1 0 = 2"
    using next_after [of s2 1] i u us two by (simp add: numeral_2_eq_2)
  have "p_cont (proc_at s2 2) \<noteq> C_idle" using conts_idle [of s0 2] cu0 us i by (simp add: current_ok_def)
  moreover have "current_proc s2 = Some 1" "idle_proc s2 = Some 0" "\<not> k_exited s2" using s1 by (simp_all add: s2_def)
  ultimately obtain s' where s': "yield C_send s2 = Some (Ret s')" "current_proc s' = Some 2" "\<not> k_exited s'"
    using yields_to [OF _ _ n] by auto
  have "kernel_step s (Ev_syscall f) = Some s'"
    using alive f(1) s'(1) run unfolding kernel_step_def handle_syscall_def Let_def cur(2) s0_def by simp
  with s' yield_state [OF s'(1)] us(4) show ?thesis by simp
qed

lemma crash_step:
  assumes inv: "kernel_inv s" and alive: "\<not> k_exited s" and c: "current_proc s = Some 2"
    and three: "p_state (proc_at s 3) = RUNNABLE" and one: "p_state (proc_at s 1) \<noteq> TERMINATED"
  shows "\<exists>s'. kernel_step s Ev_crash = Some s' \<and> \<not> k_exited s'"
proof -
  have t: "table_ok s" and cu: "current_ok s" using inv alive by (simp_all add: kernel_inv_def)
  have i: "(2::nat) < procs_max" "(3::nat) < procs_max" by (simp_all add: procs_max_def)
  define s1 where "s1 = set_proc 2 (\<lambda>p. p\<lparr>p_state := TERMINATED\<rparr>) s"
  have len: "length (procs s) = procs_max" by (rule table_len [OF t])
  have u: "used s 2" using cu c by (simp add: current_ok_def used_def)
  have "identity_ok s1" using table_state [OF t u, of TERMINATED] by (simp add: s1_def table_ok_def)
  then have n: "process_next_runnable s1 2 0 = 3"
    using next_after [of s1 2] i len three one by (simp add: s1_def used_def)
  have "p_cont (proc_at s1 3) \<noteq> C_idle" using conts_idle [of s 3] cu i by (simp add: s1_def current_ok_def)
  moreover have "idle_proc s1 = Some 0" "current_proc s1 = Some 2" "\<not> k_exited s1"
    using cu c alive by (simp_all add: s1_def current_ok_def conts_ok_def)
  ultimately obtain s' where "yield C_user s1 = Some (Ret s')" "\<not> k_exited s'" using yields_to [OF _ _ n] by auto
  then show ?thesis using alive c by (simp add: kernel_step_def handle_crash_def s1_def)
qed

theorem crash_leaves_callers_waiting_witness:
  "\<exists>s s1 s2. current_proc s = Some 2 \<and> kernel_step s Ev_crash = Some s1 \<and>
     run_steps kernel_step s1 [Ev_store 8192 1] = Some s2 \<and> p_state (proc_at s2 1) = IPC_SEND_WAIT"
proof -
  obtain s0 where s0: "kernel_start True True True None boot64 = Some (Ret s0)" "current_proc s0 = Some 1" "\<not> k_exited s0"
      "\<forall>i\<le>program_count True True True None. p_state (proc_at s0 i) = RUNNABLE \<and> \<not> p_has_pending (proc_at s0 i) \<and>
        p_blocked_sender (proc_at s0 i) = None"
      "\<forall>i<procs_max. program_count True True True None < i \<longrightarrow> p_state (proc_at s0 i) = UNUSED"
    using kernel_start_total [OF boot64(1), of True True True None] boot64(2,3) by (auto simp: program_count_def)
  have inv0: "kernel_inv s0" by (rule kernel_start_inv [OF boot64(1) s0(1)])
  have t0: "table_ok s0" using inv0 s0(3) by (simp add: kernel_inv_def)
  have none: "requests s0 w = []" if "w < procs_max" for w
  proof (cases "w \<le> 3")
    case True
    then show ?thesis using s0(4) by (simp add: program_count_def requests_def)
  next
    case False
    then show ?thesis using s0(5) table_locks [OF t0 that] that by (simp add: program_count_def requests_def lock_of_def)
  qed
  have p: "p_state (proc_at s0 2) = RUNNABLE" "p_blocked_sender (proc_at s0 2) = None" "p_state (proc_at s0 3) = RUNNABLE"
    using s0(4) by (simp_all add: program_count_def)
  let ?f = "zero_regs\<lparr>a0 := of_nat (p_pid (proc_at s0 2)), a3 := 9\<rparr>"
  obtain s where s: "kernel_step s0 (Ev_syscall ?f) = Some s" "\<not> k_exited s" "current_proc s = Some 2"
      "p_state (proc_at s 1) = IPC_SEND_WAIT" "\<And>i. i \<noteq> 1 \<Longrightarrow> p_state (proc_at s i) = p_state (proc_at s0 i)"
    using send_busy_step [OF inv0 s0(3,2) p(1,2), of ?f] by auto
  have inv: "kernel_inv s" by (rule kernel_step_inv [OF inv0 s(1)])
  have id0: "identity_ok s0" using t0 by (simp add: table_ok_def)
  have two: "(2::nat) < procs_max" "(1::nat) < procs_max" "used s0 2" using p by (simp_all add: procs_max_def used_def)
  have look: "process_lookup_by_pid s0 (unat (a0 ?f)) = Some 2"
    using lookup_own_pid [OF id0 two(1,3)] pid_word [OF id0 two(1,3)] by simp
  have acc: "accepts s0 ?f w \<Longrightarrow> w = 2" for w using look by (simp add: accepts_def)
  have g: "get_current s0 = 1" using s0(2) by simp
  have req: "requests s w = [] \<or> w = 2 \<and> fst ` set (requests s w) = {1}" if "w < procs_max" for w
    using step_requests [OF inv0 s(1,2) that] none [OF that] acc [of w] by (auto simp: arrived_def g)
  obtain s1 where s1: "kernel_step s Ev_crash = Some s1" "\<not> k_exited s1"
    using crash_step [OF inv s(2,3)] s(4,5) p(3) by auto
  then obtain s2 where s2: "run_steps kernel_step s1 [Ev_store 8192 1] = Some s2" "\<not> k_exited s2"
    by (simp add: kernel_step_def)
  have "p_state (proc_at s2 1) = IPC_SEND_WAIT \<and> process_lookup_by_pid s2 (p_pid (proc_at s2 2)) = Some 2"
  proof (rule crash_leaves_callers_waiting [OF inv s(3) s1(1) two(2) s(4) _ _ s2])
    have "1 \<notin> fst ` set (requests s w)" if "w < procs_max" "w \<noteq> 2" for w using req [OF that(1)] that(2) by simp
    then show "\<forall>w<procs_max. w \<noteq> 2 \<longrightarrow> 1 \<notin> fst ` set (requests s w)" by blast
    have "2 \<notin> fst ` set (requests s w)" if "w < procs_max" for w using req [OF that]
    proof (elim disjE conjE)
      assume "fst ` set (requests s w) = {1}"
      then show ?thesis by simp
    qed simp
    then show "\<forall>w<procs_max. 2 \<notin> fst ` set (requests s w)" by blast
  qed
  with s(3) s1 s2 show ?thesis by blast
qed

end
