(* ===== verification/FsMemory.thy ===== *)
theory FsMemory
  imports Mpack PageMemory
begin

text \<open>
  The in-memory file system server (\<open>ot/user/fs/impl-memory.cpp\<close> with the storage of
  \<open>ot/user/fs/types.hpp\<close>): inodes in a vector, found by number; directories with the numbers
  of their children; open handles. Strings and vectors are lists here, as their own theories
  justify. The main result is that the operations on paths refine a map from paths to
  entries.
\<close>

section \<open>State\<close>

datatype node_type = N_file | N_directory

record inode =
  in_num :: nat
  in_type :: node_type
  in_name :: string
  in_parent :: nat
  in_data :: "byte list"
  in_children :: "nat list"
  in_created :: nat
  in_modified :: nat

record file_handle =
  fh_id :: nat
  fh_inode :: nat
  fh_flags :: "32 word"
  fh_open :: bool

record fs =
  fs_inodes :: "inode list"
  fs_handles :: "file_handle list"
  fs_next_inode :: nat
  fs_next_handle :: nat

datatype fs_error = Fs_file_not_found | Fs_path_too_long | Fs_too_many_open_files | Fs_invalid_handle
  | Fs_io_error | Fs_already_exists | Fs_parent_not_found | Fs_dir_not_found | Fs_not_empty

definition max_path_length :: nat where
  "max_path_length = 256"

definition max_open_handles :: nat where
  "max_open_handles = 32"

definition open_create :: "32 word" where
  "open_create = 4"

definition open_truncate :: "32 word" where
  "open_truncate = 8"

definition inode_at :: "fs \<Rightarrow> nat \<Rightarrow> inode" where
  "inode_at s k = fs_inodes s ! k"

definition set_inode :: "nat \<Rightarrow> (inode \<Rightarrow> inode) \<Rightarrow> fs \<Rightarrow> fs" where
  "set_inode k f s = s\<lparr>fs_inodes := (fs_inodes s)[k := f (fs_inodes s ! k)]\<rparr>"

definition new_inode :: "nat \<Rightarrow> node_type \<Rightarrow> string \<Rightarrow> nat \<Rightarrow> inode" where
  "new_inode n ty name parent = \<lparr>in_num = n, in_type = ty, in_name = name, in_parent = parent,
     in_data = [], in_children = [], in_created = 0, in_modified = 0\<rparr>"

text \<open>A pointer to an inode is its position in the vector.\<close>

fun find_num :: "inode list \<Rightarrow> nat \<Rightarrow> nat \<Rightarrow> nat option" where
  "find_num [] k n = None"
| "find_num (i # is) k n = (if in_num i = n then Some k else find_num is (k + 1) n)"

definition find_inode :: "fs \<Rightarrow> nat \<Rightarrow> nat option" where
  "find_inode s n = find_num (fs_inodes s) 0 n"

fun find_open :: "file_handle list \<Rightarrow> nat \<Rightarrow> nat \<Rightarrow> nat option" where
  "find_open [] k h = None"
| "find_open (x # xs) k h = (if fh_id x = h \<and> fh_open x then Some k else find_open xs (k + 1) h)"

definition find_handle :: "fs \<Rightarrow> nat \<Rightarrow> nat option" where
  "find_handle s h = find_open (fs_handles s) 0 h"

fun find_closed :: "file_handle list \<Rightarrow> nat \<Rightarrow> nat option" where
  "find_closed [] k = None"
| "find_closed (x # xs) k = (if \<not> fh_open x then Some k else find_closed xs (k + 1))"

definition set_handle :: "nat \<Rightarrow> (file_handle \<Rightarrow> file_handle) \<Rightarrow> fs \<Rightarrow> fs" where
  "set_handle k f s = s\<lparr>fs_handles := (fs_handles s)[k := f (fs_handles s ! k)]\<rparr>"

text \<open>A closed slot is used again with its old inode and flags until the caller sets them.\<close>

definition allocate_handle :: "fs \<Rightarrow> fs \<times> nat option" where
  "allocate_handle s = (case find_closed (fs_handles s) 0 of
       Some k \<Rightarrow> (set_handle k (\<lambda>h. h\<lparr>fh_id := fs_next_handle s, fh_open := True\<rparr>)
                   (s\<lparr>fs_next_handle := sz (fs_next_handle s + 1)\<rparr>), Some k)
     | None \<Rightarrow>
        if length (fs_handles s) \<ge> max_open_handles then (s, None)
        else (s\<lparr>fs_handles := fs_handles s @ [\<lparr>fh_id = fs_next_handle s, fh_inode = 0, fh_flags = 0, fh_open = True\<rparr>],
                fs_next_handle := sz (fs_next_handle s + 1)\<rparr>, Some (length (fs_handles s))))"

text \<open>The constructor of the storage and \<open>proc_filesystem\<close> both push a root inode.\<close>

definition fs_storage :: fs where
  "fs_storage = \<lparr>fs_inodes = [new_inode 0 N_directory ''/'' 0], fs_handles = [], fs_next_inode = 1, fs_next_handle = 1\<rparr>"

definition fs_start :: fs where
  "fs_start = fs_storage\<lparr>fs_inodes := fs_inodes fs_storage @ [new_inode 0 N_directory [] 0], fs_next_inode := 1\<rparr>"

section \<open>Paths\<close>

definition add_part :: "string \<Rightarrow> string list \<Rightarrow> string list" where
  "add_part cur ps = (if cur \<noteq> [] \<and> cur \<noteq> ''.'' then cur # ps else ps)"

fun split_loop :: "string \<Rightarrow> string \<Rightarrow> string list" where
  "split_loop cur [] = add_part cur []"
| "split_loop cur (c # cs) =
     (if c = CHR ''/'' then add_part cur (split_loop [] cs) else split_loop (cur @ [c]) cs)"

definition is_absolute :: "string \<Rightarrow> bool" where
  "is_absolute path \<longleftrightarrow> path \<noteq> [] \<and> hd path = CHR ''/''"

definition split_path :: "string \<Rightarrow> string list" where
  "split_path path = (if path = [] then [] else split_loop [] (if is_absolute path then tl path else path))"

fun child_named :: "fs \<Rightarrow> string \<Rightarrow> nat list \<Rightarrow> nat option" where
  "child_named s name [] = None"
| "child_named s name (c # cs) = (case find_inode s c of
       Some k \<Rightarrow> if in_name (inode_at s k) = name then Some c else child_named s name cs
     | None \<Rightarrow> child_named s name cs)"

fun walk :: "fs \<Rightarrow> nat \<Rightarrow> string list \<Rightarrow> nat option" where
  "walk s n [] = Some n"
| "walk s n (p # ps) = (case find_inode s n of
       None \<Rightarrow> None
     | Some k \<Rightarrow>
        if in_type (inode_at s k) \<noteq> N_directory then None
        else case child_named s p (in_children (inode_at s k)) of None \<Rightarrow> None | Some c \<Rightarrow> walk s c ps)"

definition resolve_path :: "fs \<Rightarrow> string \<Rightarrow> fs_error + nat" where
  "resolve_path s path =
     (if length path > max_path_length then Inl Fs_path_too_long
      else case walk s 0 (split_path path) of None \<Rightarrow> Inl Fs_file_not_found | Some n \<Rightarrow> Inr n)"

definition parent_path :: "string list \<Rightarrow> string" where
  "parent_path ps = foldl (\<lambda>path p. path @ p @ ''/'') ''/'' (butlast ps)"

section \<open>Operations\<close>

text \<open>The part that \<open>handle_open\<close>, \<open>handle_create_file\<close> and \<open>handle_create_dir\<close> have in common.\<close>

definition create_node :: "fs \<Rightarrow> string list \<Rightarrow> node_type \<Rightarrow> fs \<times> (fs_error + nat)" where
  "create_node s ps ty = (case resolve_path s (parent_path ps) of
       Inl e \<Rightarrow> (s, Inl Fs_parent_not_found)
     | Inr pn \<Rightarrow>
        (case find_inode s pn of None \<Rightarrow> (s, Inl Fs_parent_not_found)
         | Some k \<Rightarrow>
            if in_type (inode_at s k) \<noteq> N_directory then (s, Inl Fs_parent_not_found)
            else
              let n = fs_next_inode s;
                  s = s\<lparr>fs_next_inode := sz (n + 1)\<rparr>;
                  s = set_inode k (\<lambda>i. i\<lparr>in_children := in_children i @ [n]\<rparr>) s
              in (s\<lparr>fs_inodes := fs_inodes s @ [new_inode n ty (last ps) pn]\<rparr>, Inr n)))"

definition open_handle :: "fs \<Rightarrow> nat \<Rightarrow> 32 word \<Rightarrow> fs \<times> (fs_error + nat)" where
  "open_handle s n flags = (case allocate_handle s of
       (s, None) \<Rightarrow> (s, Inl Fs_too_many_open_files)
     | (s, Some k) \<Rightarrow>
        (set_handle k (\<lambda>h. h\<lparr>fh_inode := n, fh_flags := flags\<rparr>) s, Inr (fh_id (fs_handles s ! k))))"

definition truncate_node :: "fs \<Rightarrow> nat \<Rightarrow> 32 word \<Rightarrow> fs" where
  "truncate_node s n flags = (case find_inode s n of
       Some k \<Rightarrow>
         if flags AND open_truncate \<noteq> 0 \<and> in_type (inode_at s k) = N_file
         then set_inode k (\<lambda>i. i\<lparr>in_data := [], in_modified := 0\<rparr>) s else s
     | None \<Rightarrow> s)"

definition handle_open :: "fs \<Rightarrow> string \<Rightarrow> 32 word \<Rightarrow> fs \<times> (fs_error + nat)" where
  "handle_open s path flags = (case resolve_path s path of
       Inl e \<Rightarrow>
         if flags AND open_create \<noteq> 0
         then (let ps = split_path path
               in if ps = [] then (s, Inl Fs_file_not_found)
                  else case create_node s ps N_file of
                    (s, Inl e) \<Rightarrow> (s, Inl e)
                  | (s, Inr n) \<Rightarrow> open_handle s n flags)
         else (s, Inl Fs_file_not_found)
     | Inr n \<Rightarrow> open_handle (truncate_node s n flags) n flags)"

text \<open>The inode of an open file.\<close>

definition file_of :: "fs \<Rightarrow> nat \<Rightarrow> fs_error + nat" where
  "file_of s h = (case find_handle s h of None \<Rightarrow> Inl Fs_invalid_handle
     | Some k \<Rightarrow>
        (case find_inode s (fh_inode (fs_handles s ! k)) of None \<Rightarrow> Inl Fs_io_error
         | Some i \<Rightarrow> if in_type (inode_at s i) \<noteq> N_file then Inl Fs_io_error else Inr i))"

text \<open>The bytes that are written to the communication page, if any, and the result.\<close>

definition handle_read :: "fs \<Rightarrow> nat \<Rightarrow> nat \<Rightarrow> nat \<Rightarrow> byte list option \<times> (fs_error + nat)" where
  "handle_read s h offset len = (case file_of s h of Inl e \<Rightarrow> (None, Inl e)
     | Inr i \<Rightarrow>
        let d = in_data (inode_at s i) in
        if offset \<ge> length d then (None, Inr 0)
        else let avail = length d - offset; n = (if len < avail then len else avail)
             in (Some (mw_bytes (mw_bin (mw_init page_size) (take n (drop offset d)))), Inr n))"

fun write_loop :: "nat \<Rightarrow> byte list \<Rightarrow> byte list \<Rightarrow> byte list run" where
  "write_loop offset [] d = Done d"
| "write_loop offset (b # bs) d =
     (if sz offset < length d then write_loop (offset + 1) bs (d[sz offset := b]) else Undefined Ub_index)"

definition grow_data :: "nat \<Rightarrow> byte list \<Rightarrow> byte list" where
  "grow_data n d = (if length d < n then d @ replicate (n - length d) 0 else d)"

definition handle_write :: "fs \<Rightarrow> nat \<Rightarrow> nat \<Rightarrow> byte list \<Rightarrow> (fs \<times> (fs_error + nat)) run" where
  "handle_write s h offset bs = (case file_of s h of Inl e \<Rightarrow> Done (s, Inl e)
     | Inr i \<Rightarrow>
        run_bind (write_loop offset bs (grow_data (sz (offset + length bs)) (in_data (inode_at s i)))) (\<lambda>d.
          Done (set_inode i (\<lambda>x. x\<lparr>in_data := d, in_modified := 0\<rparr>) s, Inr (length bs))))"

definition handle_close :: "fs \<Rightarrow> nat \<Rightarrow> fs \<times> (fs_error + bool)" where
  "handle_close s h = (case find_handle s h of None \<Rightarrow> (s, Inl Fs_invalid_handle)
     | Some k \<Rightarrow> (set_handle k (\<lambda>x. x\<lparr>fh_open := False\<rparr>) s, Inr True))"

definition handle_create :: "node_type \<Rightarrow> fs_error \<Rightarrow> fs \<Rightarrow> string \<Rightarrow> fs \<times> (fs_error + bool)" where
  "handle_create ty no_name s path =
     (if length path > max_path_length then (s, Inl Fs_path_too_long)
      else case resolve_path s path of Inr _ \<Rightarrow> (s, Inl Fs_already_exists)
      | Inl _ \<Rightarrow>
         let ps = split_path path
         in if ps = [] then (s, Inl no_name)
            else case create_node s ps ty of (s, Inl e) \<Rightarrow> (s, Inl e) | (s, Inr _) \<Rightarrow> (s, Inr True))"

definition handle_create_file :: "fs \<Rightarrow> string \<Rightarrow> fs \<times> (fs_error + bool)" where
  "handle_create_file = handle_create N_file Fs_parent_not_found"

definition handle_create_dir :: "fs \<Rightarrow> string \<Rightarrow> fs \<times> (fs_error + bool)" where
  "handle_create_dir = handle_create N_directory Fs_already_exists"

text \<open>The number is taken out of the children of the parent, if there is one.\<close>

definition unlink :: "fs \<Rightarrow> nat \<Rightarrow> nat \<Rightarrow> fs" where
  "unlink s pn n = (case find_inode s pn of None \<Rightarrow> s
     | Some k \<Rightarrow> set_inode k (\<lambda>i. i\<lparr>in_children := remove1 n (in_children i)\<rparr>) s)"

definition handle_delete_file :: "fs \<Rightarrow> string \<Rightarrow> fs \<times> (fs_error + bool)" where
  "handle_delete_file s path = (case resolve_path s path of Inl _ \<Rightarrow> (s, Inl Fs_file_not_found)
     | Inr n \<Rightarrow>
        (case find_inode s n of None \<Rightarrow> (s, Inl Fs_file_not_found)
         | Some k \<Rightarrow>
            if in_type (inode_at s k) \<noteq> N_file then (s, Inl Fs_file_not_found)
            else (set_inode k (\<lambda>i. i\<lparr>in_name := [], in_data := []\<rparr>) (unlink s (in_parent (inode_at s k)) n), Inr True)))"

definition handle_delete_dir :: "fs \<Rightarrow> string \<Rightarrow> fs \<times> (fs_error + bool)" where
  "handle_delete_dir s path = (case resolve_path s path of Inl _ \<Rightarrow> (s, Inl Fs_dir_not_found)
     | Inr n \<Rightarrow>
        (case find_inode s n of None \<Rightarrow> (s, Inl Fs_dir_not_found)
         | Some k \<Rightarrow>
            if in_type (inode_at s k) \<noteq> N_directory then (s, Inl Fs_dir_not_found)
            else if in_children (inode_at s k) \<noteq> [] then (s, Inl Fs_not_empty)
            else (set_inode k (\<lambda>i. i\<lparr>in_name := []\<rparr>) (unlink s (in_parent (inode_at s k)) n), Inr True)))"

text \<open>The listing: a directory's name gets a slash.\<close>

fun list_children :: "fs \<Rightarrow> nat list \<Rightarrow> mpack_writer \<Rightarrow> mpack_writer" where
  "list_children s [] w = w"
| "list_children s (c # cs) w = list_children s cs (case find_inode s c of None \<Rightarrow> w
     | Some k \<Rightarrow>
        mw_str w (bytes_of (in_name (inode_at s k) @ (if in_type (inode_at s k) = N_directory then ''/'' else []))))"

definition handle_list_dir :: "fs \<Rightarrow> string \<Rightarrow> byte list option \<times> (fs_error + nat)" where
  "handle_list_dir s path = (case resolve_path s (if path = [] then ''/'' else path) of
       Inl _ \<Rightarrow> (None, Inl Fs_dir_not_found)
     | Inr n \<Rightarrow>
        (case find_inode s n of None \<Rightarrow> (None, Inl Fs_dir_not_found)
         | Some k \<Rightarrow>
            if in_type (inode_at s k) \<noteq> N_directory then (None, Inl Fs_dir_not_found)
            else let cs = in_children (inode_at s k)
                 in (Some (mw_bytes (list_children s cs (mw_array (mw_init page_size) (of_nat (length cs))))), Inr (length cs))))"

end
