(* ===== verification/FsProps.thy ===== *)
theory FsProps
  imports FsMemory
begin

text \<open>
  The properties of the in-memory file system: the tree the inodes form, the map from paths to
  entries it stands for, and the refinement of that map by every operation on paths; what is
  written is read back; and the inputs that break it.
\<close>

section \<open>Inodes by number\<close>

lemma find_num_Some:
  "find_num is k n = Some j \<Longrightarrow> k \<le> j \<and> j < k + length is \<and> in_num (is ! (j - k)) = n \<and> (\<forall>l<j - k. in_num (is ! l) \<noteq> n)"
proof (induction "is" k n rule: find_num.induct)
  case (2 i "is" k n)
  show ?case
  proof (cases "in_num i = n")
    case False
    then have r: "find_num is (k + 1) n = Some j" using 2(2) by simp
    note IH = "2.IH" [OF False r]
    then have "j - k = Suc (j - (k + 1))" by linarith
    moreover have "in_num ((i # is) ! l) \<noteq> n" if "l < j - k" for l
      using that IH False by (cases l) auto
    ultimately show ?thesis using IH by simp
  qed (use 2 in simp)
qed simp

lemma find_num_None: "find_num is k n = None \<longleftrightarrow> (\<forall>i\<in>set is. in_num i \<noteq> n)"
  by (induction "is" k n rule: find_num.induct) auto

lemma find_num_append:
  "find_num (is @ js) k n = (case find_num is k n of Some j \<Rightarrow> Some j | None \<Rightarrow> find_num js (k + length is) n)"
  by (induction "is" k n rule: find_num.induct) (auto split: option.split)

lemma find_num_update:
  "in_num i' = in_num (is ! j) \<Longrightarrow> find_num (is[j := i']) k n = find_num is k n"
  by (induction "is" k n arbitrary: j rule: find_num.induct) (auto split: nat.split)

text \<open>The inode with a number.\<close>

definition node :: "fs \<Rightarrow> nat \<Rightarrow> inode option" where
  "node s n = map_option (inode_at s) (find_inode s n)"

lemma find_inode_Some:
  "find_inode s n = Some k \<Longrightarrow> k < length (fs_inodes s) \<and> in_num (inode_at s k) = n"
  using find_num_Some [of "fs_inodes s" 0 n k] by (simp add: find_inode_def inode_at_def)

lemma node_num: "node s n = Some i \<Longrightarrow> in_num i = n"
  using find_inode_Some by (auto simp: node_def)

lemma node_set_inode:
  assumes k: "find_inode s n = Some k" and f: "\<And>i. in_num (f i) = in_num i"
  shows "node (set_inode k f s) m = (if m = n then map_option f (node s m) else node s m)"
proof -
  have kk: "k < length (fs_inodes s)" "in_num (fs_inodes s ! k) = n" using find_inode_Some [OF k] by (auto simp: inode_at_def)
  have find: "find_inode (set_inode k f s) m = find_inode s m" for m
    unfolding find_inode_def set_inode_def by (simp add: find_num_update f)
  show ?thesis
  proof (cases "find_inode s m")
    case None
    then have "m \<noteq> n" using k by auto
    with None show ?thesis by (simp add: node_def find)
  next
    case (Some j)
    have jk: "j = k \<longleftrightarrow> m = n" using k Some find_inode_Some [OF Some] find_inode_Some [OF k] by (metis option.inject)
    have "inode_at (set_inode k f s) j = (if j = k then f (inode_at s j) else inode_at s j)"
      using kk(1) by (simp add: inode_at_def set_inode_def)
    then show ?thesis using Some jk by (cases "m = n") (simp_all add: node_def find)
  qed
qed

lemma node_append:
  "node (s\<lparr>fs_inodes := fs_inodes s @ [i]\<rparr>) m =
    (case node s m of Some x \<Rightarrow> Some x | None \<Rightarrow> if in_num i = m then Some i else None)"
proof (cases "find_inode s m")
  case None
  then show ?thesis by (simp add: node_def find_inode_def find_num_append inode_at_def)
next
  case (Some k)
  then show ?thesis using find_inode_Some [OF Some]
    by (simp add: node_def find_inode_def find_num_append inode_at_def nth_append)
qed

lemma node_frame [simp]:
  "node (s\<lparr>fs_next_inode := x\<rparr>) m = node s m" "node (s\<lparr>fs_handles := hs\<rparr>) m = node s m"
  "node (s\<lparr>fs_next_handle := x\<rparr>) m = node s m" "node (set_handle k g s) m = node s m"
proof -
  have "inode_at (s\<lparr>fs_next_inode := x\<rparr>) = inode_at s" "inode_at (s\<lparr>fs_handles := hs\<rparr>) = inode_at s"
    "inode_at (s\<lparr>fs_next_handle := x\<rparr>) = inode_at s" "inode_at (set_handle k g s) = inode_at s"
    by (simp_all add: inode_at_def set_handle_def fun_eq_iff)
  then show "node (s\<lparr>fs_next_inode := x\<rparr>) m = node s m" "node (s\<lparr>fs_handles := hs\<rparr>) m = node s m"
    "node (s\<lparr>fs_next_handle := x\<rparr>) m = node s m" "node (set_handle k g s) m = node s m"
    by (simp_all add: node_def find_inode_def set_handle_def)
qed

section \<open>Walking\<close>

text \<open>The two searches, on inodes by number.\<close>

lemma child_named_Cons:
  "child_named s p (c # cs) = (case node s c of
     Some i \<Rightarrow> if in_name i = p then Some c else child_named s p cs | None \<Rightarrow> child_named s p cs)"
  by (simp add: node_def split: option.split)

lemma walk_Cons:
  "walk s n (p # ps) = (case node s n of None \<Rightarrow> None
     | Some d \<Rightarrow> if in_type d \<noteq> N_directory then None
        else (case child_named s p (in_children d) of None \<Rightarrow> None | Some c \<Rightarrow> walk s c ps))"
  by (simp add: node_def split: option.split)

declare child_named.simps(2) [simp del] walk.simps(2) [simp del]

lemma walk_append: "walk s n (ps @ qs) = (case walk s n ps of None \<Rightarrow> None | Some m \<Rightarrow> walk s m qs)"
  by (induction ps arbitrary: n) (auto simp: walk_Cons split: option.splits)

lemma child_named_cong:
  "(\<And>c. c \<in> set cs \<Longrightarrow> map_option in_name (node s' c) = map_option in_name (node s c)) \<Longrightarrow>
   child_named s' p cs = child_named s p cs"
proof (induction cs)
  case (Cons c cs)
  have "child_named s' p cs = child_named s p cs" by (rule Cons.IH) (rule Cons.prems, simp)
  moreover have "map_option in_name (node s' c) = map_option in_name (node s c)" by (rule Cons.prems) simp
  ultimately show ?case by (cases "node s c"; cases "node s' c") (simp_all add: child_named_Cons)
qed simp

lemma child_named_in: "child_named s p cs = Some c \<Longrightarrow> c \<in> set cs \<and> (\<exists>i. node s c = Some i \<and> in_name i = p)"
  by (induction cs) (auto simp: child_named_Cons split: option.splits if_splits)

section \<open>The tree\<close>

text \<open>
  The root is a directory; numbers are below the next one to give; the children of a node are
  inodes with it as their parent and a greater number, and their names differ; files have none.
\<close>

definition name_of :: "fs \<Rightarrow> nat \<Rightarrow> string" where
  "name_of s c = (case node s c of Some i \<Rightarrow> in_name i | None \<Rightarrow> [])"

definition node_ok :: "fs \<Rightarrow> nat \<Rightarrow> inode \<Rightarrow> bool" where
  "node_ok s n d \<longleftrightarrow> distinct (in_children d) \<and> (in_type d = N_file \<longrightarrow> in_children d = []) \<and>
     (\<forall>c\<in>set (in_children d). n < c \<and> (\<exists>i. node s c = Some i \<and> in_parent i = n))"

definition tree_ok :: "fs \<Rightarrow> bool" where
  "tree_ok s \<longleftrightarrow> (\<exists>r. node s 0 = Some r \<and> in_type r = N_directory) \<and> 0 < fs_next_inode s \<and>
     (\<forall>n d. node s n = Some d \<longrightarrow> n < fs_next_inode s \<and> node_ok s n d)"

definition names_ok :: "fs \<Rightarrow> bool" where
  "names_ok s \<longleftrightarrow> (\<forall>n d. node s n = Some d \<longrightarrow> inj_on (name_of s) (set (in_children d)))"

definition fs_inv :: "fs \<Rightarrow> bool" where
  "fs_inv s \<longleftrightarrow> tree_ok s \<and> names_ok s"

lemma tree_node: "tree_ok s \<Longrightarrow> node s n = Some d \<Longrightarrow> node_ok s n d"
  by (simp add: tree_ok_def)

lemma tree_child:
  assumes "tree_ok s" and "node s n = Some d" and "c \<in> set (in_children d)"
  shows "n < c" "\<exists>i. node s c = Some i \<and> in_parent i = n"
  using tree_node [OF assms(1,2)] assms(3) by (auto simp: node_ok_def)

lemma walk_node:
  assumes t: "tree_ok s"
  shows "node s n = Some d \<Longrightarrow> walk s n ps = Some m \<Longrightarrow> \<exists>i. node s m = Some i"
proof (induction ps arbitrary: n d)
  case (Cons p ps)
  then obtain c where c: "child_named s p (in_children d) = Some c" "walk s c ps = Some m"
    by (auto simp: walk_Cons split: option.splits if_splits)
  with child_named_in [OF c(1)] Cons.IH show ?case by blast
qed simp

lemma walk_ge:
  assumes t: "tree_ok s"
  shows "walk s n ps = Some m \<Longrightarrow> n \<le> m \<and> (ps \<noteq> [] \<longrightarrow> n < m)"
proof (induction ps arbitrary: n)
  case (Cons p ps)
  then obtain d c where c: "node s n = Some d" "child_named s p (in_children d) = Some c" "walk s c ps = Some m"
    by (auto simp: walk_Cons split: option.splits if_splits)
  with child_named_in [OF c(2)] tree_child(1) [OF t c(1)] Cons.IH [OF c(3)] show ?case by force
qed simp

lemma walk_snoc:
  "walk s n (ps @ [p]) = Some c \<longleftrightarrow>
    (\<exists>m d. walk s n ps = Some m \<and> node s m = Some d \<and> in_type d = N_directory \<and> child_named s p (in_children d) = Some c)"
  by (auto simp: walk_append walk_Cons split: option.splits if_splits)

text \<open>Every inode has at most one path.\<close>

lemma walk_inj:
  assumes t: "tree_ok s"
  shows "walk s 0 ps = Some m \<Longrightarrow> walk s 0 qs = Some m \<Longrightarrow> ps = qs"
proof (induction ps arbitrary: m qs rule: rev_induct)
  case Nil
  then show ?case using walk_ge [OF t, of 0 qs m] by auto
next
  case (snoc p ps)
  then obtain k d where k: "walk s 0 ps = Some k" "node s k = Some d" "child_named s p (in_children d) = Some m"
    unfolding walk_snoc by blast
  have "qs \<noteq> []" using snoc.prems walk_ge [OF t, of 0 "ps @ [p]" m] by auto
  then obtain q rs where qs: "qs = rs @ [q]" by (cases qs rule: rev_cases) auto
  obtain l e where l: "walk s 0 rs = Some l" "node s l = Some e" "child_named s q (in_children e) = Some m"
    using snoc.prems(2) unfolding qs walk_snoc by blast
  from child_named_in [OF k(3)] child_named_in [OF l(3)] tree_child(2) [OF t k(2)] tree_child(2) [OF t l(2)]
  have "k = l" "p = q" by fastforce+
  with snoc.IH [OF k(1)] l(1) qs show ?case by simp
qed

section \<open>A new node\<close>

text \<open>\<open>N\<close> is a new child of \<open>pn\<close> with a name that no child of \<open>pn\<close> had.\<close>

definition added :: "fs \<Rightarrow> nat \<Rightarrow> nat \<Rightarrow> node_type \<Rightarrow> string \<Rightarrow> fs \<Rightarrow> bool" where
  "added s pn N ty x s' \<longleftrightarrow> pn < N \<and> node s N = None \<and> (\<exists>d. node s pn = Some d \<and> in_type d = N_directory \<and>
     (\<forall>m. node s' m = (if m = pn then Some (d\<lparr>in_children := in_children d @ [N]\<rparr>)
       else if m = N then Some (new_inode N ty x pn) else node s m)))"

lemma child_named_append:
  "child_named s p (cs @ ds) = (case child_named s p cs of Some c \<Rightarrow> Some c | None \<Rightarrow> child_named s p ds)"
  by (induction cs) (auto simp: child_named_Cons split: option.splits)

lemma added_walk:
  assumes t: "tree_ok s" and a: "added s pn N ty x s'" and d: "node s pn = Some d" and nx: "child_named s x (in_children d) = None"
  shows "node s n = Some e \<Longrightarrow> walk s' n ps = (case walk s n ps of Some m \<Rightarrow> Some m
     | None \<Rightarrow> if \<exists>qs. ps = qs @ [x] \<and> walk s n qs = Some pn then Some N else None)"
proof (induction ps arbitrary: n e)
  case (Cons p ps)
  have nodes: "node s' m = (if m = pn then Some (d\<lparr>in_children := in_children d @ [N]\<rparr>)
       else if m = N then Some (new_inode N ty x pn) else node s m)" for m using a d by (auto simp: added_def)
  have pN: "pn \<noteq> N" "node s N = None" "in_type d = N_directory" using a d by (auto simp: added_def)
  have nN: "n \<noteq> N" using Cons.prems pN(2) by auto
  have names: "child_named s' q (in_children g) = child_named s q (in_children g)" if g: "node s m = Some g" for q m g
  proof (rule child_named_cong)
    fix c assume c: "c \<in> set (in_children g)"
    obtain i where "node s c = Some i" using tree_child(2) [OF t g c] by blast
    then show "map_option in_name (node s' c) = map_option in_name (node s c)" using nodes [of c] pN(2) d by auto
  qed
  let ?old = "child_named s p (in_children e)"
  show ?case
  proof (cases ?old)
    case (Some c)
    obtain i where i: "node s c = Some i" using child_named_in [OF Some] by blast
    have "child_named s' p (in_children e @ [N]) = Some c" using names [OF Cons.prems] Some by (simp add: child_named_append)
    then have "walk s' n (p # ps) = (if in_type e \<noteq> N_directory then None else walk s' c ps)"
      using nodes [of n] Cons.prems d nN names [OF Cons.prems] Some pN(3) by (auto simp: walk_Cons)
    moreover have w: "walk s n (p # ps') = (if in_type e \<noteq> N_directory then None else walk s c ps')" for ps'
      using Cons.prems Some by (simp add: walk_Cons)
    moreover have "(\<exists>qs. p # ps = qs @ [x] \<and> walk s n qs = Some pn) \<longleftrightarrow>
        in_type e = N_directory \<and> (\<exists>qs. ps = qs @ [x] \<and> walk s c qs = Some pn)"
    proof -
      have "p # ps \<noteq> [x] \<or> n \<noteq> pn" using Some nx d Cons.prems by auto
      then show ?thesis using w by (auto simp: Cons_eq_append_conv split: if_splits)
    qed
    ultimately show ?thesis using Cons.IH [OF i]
      by (cases "in_type e = N_directory"; cases "\<exists>qs. ps = qs @ [x] \<and> walk s c qs = Some pn") (simp_all only: simp_thms if_True if_False split: option.split)
  next
    case None
    then have none: "walk s n (p # qs) = None" for qs using Cons.prems by (simp add: walk_Cons)
    then have ex: "(\<exists>qs. p # ps = qs @ [x] \<and> walk s n qs = Some pn) \<longleftrightarrow> n = pn \<and> p = x \<and> ps = []"
      by (auto simp: Cons_eq_append_conv)
    show ?thesis
    proof (cases "n = pn")
      case False
      then have "node s' n = Some e" using nodes [of n] Cons.prems nN by simp
      then have "walk s' n (p # ps) = None" using None names [OF Cons.prems] by (simp add: walk_Cons)
      then show ?thesis using none ex False by simp
    next
      case True
      then have e: "e = d" using d Cons.prems by simp
      have "child_named s' p (in_children d @ [N]) = (if p = x then Some N else None)"
        using None names [OF d] nodes [of N] pN(1) unfolding e by (simp add: child_named_append child_named_Cons new_inode_def)
      moreover have "walk s' N ps = (if ps = [] then Some N else None)"
        using nodes [of N] pN(1) by (cases ps) (simp_all add: walk_Cons new_inode_def)
      ultimately have "walk s' n (p # ps) = (if p = x \<and> ps = [] then Some N else None)"
        using nodes [of pn] True pN(3) by (simp add: walk_Cons)
      then show ?thesis using none ex True by simp
    qed
  qed
qed simp

lemma added_tree:
  assumes t: "tree_ok s" and a: "added s pn N ty x s'" and N: "N < fs_next_inode s'" "fs_next_inode s \<le> fs_next_inode s'"
  shows "tree_ok s'"
proof -
  obtain d where d: "node s pn = Some d" "in_type d = N_directory"
    and nodes: "\<And>m. node s' m = (if m = pn then Some (d\<lparr>in_children := in_children d @ [N]\<rparr>)
       else if m = N then Some (new_inode N ty x pn) else node s m)" and pN: "pn < N" "node s N = None"
    using a by (auto simp: added_def)
  have ne: "m \<noteq> N" if "node s m = Some e" for m e using that pN(2) by auto
  have kept: "\<exists>i'. node s' m = Some i' \<and> in_parent i' = in_parent i" if "node s m = Some i" for m i
    using nodes [of m] that d(1) ne [OF that] by auto
  have old: "n < c \<and> (\<exists>i. node s' c = Some i \<and> in_parent i = n)" if "node s n = Some e" "c \<in> set (in_children e)" for n e c
    using tree_child [OF t that] kept by blast
  have Nn: "N \<notin> set (in_children d)" using tree_child(2) [OF t d(1)] pN(2) by fastforce
  have "node_ok s' n e" "n < fs_next_inode s'" if e: "node s' n = Some e" for n e
  proof -
    consider "n = pn" "e = d\<lparr>in_children := in_children d @ [N]\<rparr>" | "n = N" "e = new_inode N ty x pn" | "n \<noteq> pn" "node s n = Some e"
      using e nodes [of n] by (metis option.inject)
    then show "node_ok s' n e"
    proof cases
      case 1
      have "node s' N = Some (new_inode N ty x pn)" using nodes [of N] pN(1) by simp
      then have "pn < N \<and> (\<exists>i. node s' N = Some i \<and> in_parent i = pn)" using pN(1) by (simp add: new_inode_def)
      moreover have "distinct (in_children d)" using tree_node [OF t d(1)] by (simp add: node_ok_def)
      ultimately have "node_ok s' pn (d\<lparr>in_children := in_children d @ [N]\<rparr>)"
        unfolding node_ok_def using old [OF d(1)] Nn d(2) by simp
      with 1 show ?thesis by simp
    next
      case 2
      then show ?thesis by (simp add: node_ok_def new_inode_def)
    next
      case 3
      then show ?thesis using tree_node [OF t 3(2)] old [OF 3(2)] by (simp add: node_ok_def)
    qed
    have "g < fs_next_inode s'" if "node s g = Some h" for g h using t that N(2) unfolding tree_ok_def by (metis less_le_trans)
    then show "n < fs_next_inode s'" using e nodes [of n] d(1) N(1) by (metis option.distinct(1))
  qed
  moreover obtain r where r: "node s 0 = Some r" "in_type r = N_directory" using t by (auto simp: tree_ok_def)
  moreover have "\<exists>r. node s' 0 = Some r \<and> in_type r = N_directory" using nodes [of 0] r d ne [OF r(1)] by auto
  ultimately show ?thesis using t N by (simp add: tree_ok_def)
qed

lemma child_named_name_of:
  "child_named s x cs = None \<Longrightarrow> c \<in> set cs \<Longrightarrow> node s c = Some i \<Longrightarrow> name_of s c \<noteq> x"
  by (induction cs) (auto simp: child_named_Cons name_of_def split: option.splits if_splits)

lemma added_names:
  assumes t: "tree_ok s" and a: "added s pn N ty x s'" and d: "node s pn = Some d" and nx: "child_named s x (in_children d) = None"
    and names: "names_ok s"
  shows "names_ok s'"
  unfolding names_ok_def
proof (intro allI impI)
  fix n e
  assume e: "node s' n = Some e"
  have nodes: "node s' m = (if m = pn then Some (d\<lparr>in_children := in_children d @ [N]\<rparr>)
       else if m = N then Some (new_inode N ty x pn) else node s m)" for m using a d by (auto simp: added_def)
  have pN: "pn < N" "node s N = None" using a by (auto simp: added_def)
  have same: "name_of s' c = name_of s c" if g: "node s m = Some g" "c \<in> set (in_children g)" for m g c
  proof -
    obtain i where "node s c = Some i" using tree_child(2) [OF t g] by blast
    then show ?thesis using nodes [of c] pN(2) d by (auto simp: name_of_def)
  qed
  have inj: "inj_on (name_of s') (set (in_children g))" if "node s m = Some g" for m g
    using names that same [OF that] unfolding names_ok_def by (metis inj_on_cong)
  consider "n = pn" "e = d\<lparr>in_children := in_children d @ [N]\<rparr>" | "e = new_inode N ty x pn" | "node s n = Some e"
    using e nodes [of n] by (metis option.inject)
  then show "inj_on (name_of s') (set (in_children e))"
  proof cases
    case 1
    have "name_of s' N = x" using nodes [of N] pN(1) by (simp add: name_of_def new_inode_def)
    moreover have "name_of s' c \<noteq> x" if "c \<in> set (in_children d)" for c
      using same [OF d that] tree_child(2) [OF t d that] child_named_name_of [OF nx that] by auto
    ultimately have "name_of s' N \<notin> name_of s' ` set (in_children d)" by (metis imageE)
    then have "inj_on (name_of s') (insert N (set (in_children d)))" using inj [OF d] by (simp add: inj_on_insert) blast
    with 1 show ?thesis by simp
  next
    case 2
    then show ?thesis by (simp add: new_inode_def)
  next
    case 3
    then show ?thesis by (rule inj)
  qed
qed

section \<open>A node taken away\<close>

lemma child_named_iff:
  "inj_on (name_of s) (set cs) \<Longrightarrow> \<forall>c\<in>set cs. node s c \<noteq> None \<Longrightarrow>
    child_named s p cs = Some c \<longleftrightarrow> c \<in> set cs \<and> name_of s c = p"
proof (induction cs)
  case (Cons a cs)
  obtain i where i: "node s a = Some i" using Cons.prems(2) by auto
  then have n: "name_of s a = in_name i" by (simp add: name_of_def)
  have IH: "child_named s p cs = Some c \<longleftrightarrow> c \<in> set cs \<and> name_of s c = p" using Cons by (simp add: inj_on_def)
  show ?case
  proof (cases "in_name i = p")
    case True
    then have "c \<in> set (a # cs) \<Longrightarrow> name_of s c = p \<Longrightarrow> c = a" using Cons.prems(1) n by (metis inj_onD list.set_intros(1))
    then show ?thesis using True i n by (auto simp: child_named_Cons)
  next
    case False
    then show ?thesis using i n IH by (auto simp: child_named_Cons)
  qed
qed simp

lemma tree_named:
  assumes "tree_ok s" and "names_ok s" and "node s n = Some d"
  shows "child_named s p (in_children d) = Some c \<longleftrightarrow> c \<in> set (in_children d) \<and> name_of s c = p"
proof (rule child_named_iff)
  show "inj_on (name_of s) (set (in_children d))" using assms(2,3) by (auto simp: names_ok_def)
  show "\<forall>c\<in>set (in_children d). node s c \<noteq> None" using tree_child(2) [OF assms(1,3)] by auto
qed

definition removed :: "fs \<Rightarrow> nat \<Rightarrow> nat \<Rightarrow> fs \<Rightarrow> bool" where
  "removed s pn n s' \<longleftrightarrow> pn \<noteq> n \<and> (\<exists>d i i'. node s pn = Some d \<and> n \<in> set (in_children d) \<and> node s n = Some i \<and> in_children i = [] \<and>
     in_type i' = in_type i \<and> in_parent i' = in_parent i \<and> in_children i' = [] \<and>
     (\<forall>m. node s' m = (if m = pn then Some (d\<lparr>in_children := remove1 n (in_children d)\<rparr>) else if m = n then Some i' else node s m)) \<and>
     fs_next_inode s' = fs_next_inode s)"

lemma removed_next: "removed s pn n s' \<Longrightarrow> fs_next_inode s' = fs_next_inode s"
  unfolding removed_def by blast

lemma removed_inv:
  assumes t: "tree_ok s" and names: "names_ok s" and r: "removed s pn n s'"
  shows "tree_ok s' \<and> names_ok s'"
proof -
  obtain d i i' where d: "node s pn = Some d" "n \<in> set (in_children d)" "node s n = Some i" "in_children i = []"
      "in_type i' = in_type i" "in_parent i' = in_parent i" "in_children i' = []" and ne: "pn \<noteq> n"
    and nodes: "\<And>m. node s' m = (if m = pn then Some (d\<lparr>in_children := remove1 n (in_children d)\<rparr>) else if m = n then Some i' else node s m)"
    and nx: "fs_next_inode s' = fs_next_inode s"
    using r by (auto simp: removed_def)
  let ?d = "d\<lparr>in_children := remove1 n (in_children d)\<rparr>"
  have dist: "distinct (in_children d)" using tree_node [OF t d(1)] by (simp add: node_ok_def)
  have kept: "\<exists>x'. node s' m = Some x' \<and> in_parent x' = in_parent x \<and> in_type x' = in_type x" if "node s m = Some x" for m x
    using nodes [of m] that d by auto
  have name: "name_of s' m = name_of s m" if "m \<noteq> n" for m using nodes [of m] that d(1) by (simp add: name_of_def)
  have kids: "n \<notin> set (in_children e)" if "node s m = Some e" "m \<noteq> pn" for m e
    using tree_child(2) [OF t that(1), of n] tree_child(2) [OF t d(1,2)] that(2) by auto
  have old: "m < c \<and> (\<exists>x. node s' c = Some x \<and> in_parent x = m)" if "node s m = Some e" "c \<in> set (in_children e)" for m e c
    using tree_child [OF t that] kept by blast
  have inj: "inj_on (name_of s') (set (in_children e))" if "node s m = Some e" "m \<noteq> pn" for m e
  proof -
    have "inj_on (name_of s) (set (in_children e))" using names that(1) by (auto simp: names_ok_def)
    then show ?thesis using name kids [OF that] by (metis inj_on_cong)
  qed
  have injd: "inj_on (name_of s') (set (in_children d) - {n})"
  proof -
    have "inj_on (name_of s) (set (in_children d) - {n})" using names d(1) by (auto simp: names_ok_def intro: inj_on_subset)
    then show ?thesis using name by (metis (no_types) Diff_iff inj_on_cong singletonI)
  qed
  have all: "node_ok s' m e \<and> m < fs_next_inode s' \<and> inj_on (name_of s') (set (in_children e))" if e: "node s' m = Some e" for m e
  proof -
    consider "m = pn" "e = ?d" | "m = n" "m \<noteq> pn" "e = i'" | "m \<noteq> pn" "m \<noteq> n" "node s m = Some e"
      using e nodes [of m] by (metis option.inject)
    then show ?thesis
    proof cases
      case 1
      have "node_ok s' pn ?d" unfolding node_ok_def using tree_node [OF t d(1)] dist old [OF d(1)] by (simp add: node_ok_def)
      moreover have "inj_on (name_of s') (set (in_children ?d))" using injd dist by simp
      ultimately show ?thesis using 1 t d(1) nx by (simp add: tree_ok_def)
    next
      case 2
      then show ?thesis using t d nx by (simp add: tree_ok_def node_ok_def)
    next
      case 3
      have "node_ok s' m e" using tree_node [OF t 3(3)] old [OF 3(3)] by (simp add: node_ok_def)
      then show ?thesis using inj [OF 3(3,1)] t 3(3) nx by (simp add: tree_ok_def)
    qed
  qed
  obtain r where "node s 0 = Some r" "in_type r = N_directory" using t by (auto simp: tree_ok_def)
  from kept [OF this(1)] this(2) have "\<exists>r. node s' 0 = Some r \<and> in_type r = N_directory" by auto
  with all t nx show ?thesis by (simp add: tree_ok_def names_ok_def)
qed

lemma removed_walk:
  assumes t: "tree_ok s" and names: "names_ok s" and r: "removed s pn n s'"
  shows "node s k = Some e \<Longrightarrow> k \<noteq> n \<Longrightarrow> walk s' k ps = (if walk s k ps = Some n then None else walk s k ps)"
proof (induction ps arbitrary: k e)
  case (Cons p ps)
  obtain d i i' where d: "node s pn = Some d" "n \<in> set (in_children d)" "node s n = Some i" "in_children i = []" and ne: "pn \<noteq> n"
    and nodes: "\<And>m. node s' m = (if m = pn then Some (d\<lparr>in_children := remove1 n (in_children d)\<rparr>) else if m = n then Some i' else node s m)"
    using r by (auto simp: removed_def)
  have inv: "tree_ok s'" "names_ok s'" using removed_inv [OF t names r] by auto
  define e' where "e' = (if k = pn then d\<lparr>in_children := remove1 n (in_children d)\<rparr> else e)"
  have dist: "distinct (in_children d)" using tree_node [OF t d(1)] by (simp add: node_ok_def)
  have e': "node s' k = Some e'" "in_type e' = in_type e" "set (in_children e') = set (in_children e) - {n}"
  proof -
    show "node s' k = Some e'" "in_type e' = in_type e" using nodes [of k] Cons.prems d(1) by (auto simp: e'_def)
    have "n \<notin> set (in_children e)" if "k \<noteq> pn"
      using tree_child(2) [OF t Cons.prems(1), of n] tree_child(2) [OF t d(1,2)] that by auto
    then show "set (in_children e') = set (in_children e) - {n}" using dist Cons.prems(1) d(1) by (auto simp: e'_def)
  qed
  have name: "name_of s' m = name_of s m" if "m \<noteq> n" for m using nodes [of m] that d(1) by (simp add: name_of_def)
  have c': "child_named s' p (in_children e') = Some c \<longleftrightarrow> child_named s p (in_children e) = Some c \<and> c \<noteq> n" for c
    unfolding tree_named [OF inv e'(1)] tree_named [OF t names Cons.prems(1)] e'(3) using name by auto
  show ?case
  proof (cases "child_named s p (in_children e)")
    case None
    then have "child_named s' p (in_children e') = None" using c' by (cases "child_named s' p (in_children e')") auto
    with None show ?thesis using e' Cons.prems by (simp add: walk_Cons)
  next
    case (Some c)
    show ?thesis
    proof (cases "c = n")
      case True
      then have "child_named s' p (in_children e') = None" using c' Some by (metis not_None_eq option.inject)
      moreover have "walk s n ps = (if ps = [] then Some n else None)" using d(3,4) by (cases ps) (simp_all add: walk_Cons)
      ultimately show ?thesis using Some True e' Cons.prems by (simp add: walk_Cons)
    next
      case False
      obtain x where "node s c = Some x" using child_named_in [OF Some] by blast
      from Cons.IH [OF this False] show ?thesis using c' [of c] Some False e' Cons.prems by (simp add: walk_Cons)
    qed
  qed
qed simp

section \<open>Contents\<close>

text \<open>The same tree with other contents; the name of the root does not matter.\<close>

definition same_tree :: "fs \<Rightarrow> fs \<Rightarrow> bool" where
  "same_tree s s' \<longleftrightarrow> (\<forall>m. map_option (\<lambda>i. (in_type i, in_children i, in_parent i)) (node s' m) =
       map_option (\<lambda>i. (in_type i, in_children i, in_parent i)) (node s m) \<and>
     (0 < m \<longrightarrow> name_of s' m = name_of s m)) \<and> fs_next_inode s' = fs_next_inode s"

lemma same_tree_node:
  assumes "same_tree s s'"
  shows "node s m = Some i \<Longrightarrow> \<exists>i'. node s' m = Some i' \<and> in_type i' = in_type i \<and> in_children i' = in_children i \<and> in_parent i' = in_parent i"
    and "node s' m = Some i' \<Longrightarrow> \<exists>i. node s m = Some i \<and> in_type i' = in_type i \<and> in_children i' = in_children i \<and> in_parent i' = in_parent i"
proof -
  have "map_option (\<lambda>i. (in_type i, in_children i, in_parent i)) (node s' m) =
       map_option (\<lambda>i. (in_type i, in_children i, in_parent i)) (node s m)" using assms by (simp add: same_tree_def)
  then show "node s m = Some i \<Longrightarrow> \<exists>i'. node s' m = Some i' \<and> in_type i' = in_type i \<and> in_children i' = in_children i \<and> in_parent i' = in_parent i"
    and "node s' m = Some i' \<Longrightarrow> \<exists>i. node s m = Some i \<and> in_type i' = in_type i \<and> in_children i' = in_children i \<and> in_parent i' = in_parent i"
    by (cases "node s m"; cases "node s' m"; simp)+
qed

lemma same_tree_inv:
  assumes st: "same_tree s s'"
  shows "tree_ok s \<Longrightarrow> tree_ok s'" and "tree_ok s \<Longrightarrow> names_ok s \<Longrightarrow> names_ok s'"
proof -
  assume t: "tree_ok s"
  have nx: "fs_next_inode s' = fs_next_inode s" using st by (simp add: same_tree_def)
  have "node_ok s' m e \<and> m < fs_next_inode s'" if e: "node s' m = Some e" for m e
  proof -
    obtain x where x: "node s m = Some x" "in_type e = in_type x" "in_children e = in_children x"
      using same_tree_node(2) [OF st e] by blast
    have "m < c \<and> (\<exists>i. node s' c = Some i \<and> in_parent i = m)" if "c \<in> set (in_children x)" for c
      using tree_child [OF t x(1) that] same_tree_node(1) [OF st] by metis
    then show ?thesis using tree_node [OF t x(1)] x t nx by (simp add: node_ok_def tree_ok_def)
  qed
  moreover obtain r where r: "node s 0 = Some r" "in_type r = N_directory" using t by (auto simp: tree_ok_def)
  moreover have "\<exists>r. node s' 0 = Some r \<and> in_type r = N_directory" using same_tree_node(1) [OF st r(1)] r(2) by auto
  ultimately show "tree_ok s'" using t nx by (simp add: tree_ok_def)
  assume n: "names_ok s"
  show "names_ok s'" unfolding names_ok_def
  proof (intro allI impI)
    fix m e
    assume "node s' m = Some e"
    then obtain x where x: "node s m = Some x" "in_children e = in_children x" using same_tree_node(2) [OF st] by blast
    have "name_of s' c = name_of s c" if "c \<in> set (in_children x)" for c
      using tree_child(1) [OF t x(1) that] st by (simp add: same_tree_def)
    then show "inj_on (name_of s') (set (in_children e))" using n x unfolding names_ok_def by (metis inj_on_cong)
  qed
qed

lemma same_tree_walk:
  assumes st: "same_tree s s'" and t: "tree_ok s"
  shows "walk s' n ps = walk s n ps"
proof (induction ps arbitrary: n)
  case (Cons p ps)
  show ?case
  proof (cases "node s n")
    case None
    then have "node s' n = None" using same_tree_node(2) [OF st] by (metis not_None_eq)
    with None show ?thesis by (simp add: walk_Cons)
  next
    case (Some d)
    then obtain e where e: "node s' n = Some e" "in_type e = in_type d" "in_children e = in_children d"
      using same_tree_node(1) [OF st] by blast
    have "child_named s' p (in_children d) = child_named s p (in_children d)"
    proof (rule child_named_cong)
      fix c assume c: "c \<in> set (in_children d)"
      obtain i where i: "node s c = Some i" using tree_child(2) [OF t Some c] by blast
      then obtain i' where "node s' c = Some i'" using same_tree_node(1) [OF st] by blast
      moreover have "name_of s' c = name_of s c" using tree_child(1) [OF t Some c] st by (simp add: same_tree_def)
      ultimately show "map_option in_name (node s' c) = map_option in_name (node s c)" using i by (simp add: name_of_def)
    qed
    then show ?thesis using Cons.IH Some e by (simp add: walk_Cons split: option.split)
  qed
qed simp

section \<open>The parts of a path\<close>

definition part_ok :: "string \<Rightarrow> bool" where
  "part_ok p \<longleftrightarrow> p \<noteq> [] \<and> p \<noteq> ''.'' \<and> CHR ''/'' \<notin> set p"

lemma split_loop_parts: "CHR ''/'' \<notin> set cur \<Longrightarrow> p \<in> set (split_loop cur cs) \<Longrightarrow> part_ok p"
  by (induction cur cs rule: split_loop.induct) (auto simp: add_part_def part_ok_def split: if_splits)

lemma split_path_parts: "p \<in> set (split_path path) \<Longrightarrow> part_ok p"
  by (auto simp: split_path_def dest: split_loop_parts [rotated] split: if_splits)

lemma split_loop_part:
  "CHR ''/'' \<notin> set p \<Longrightarrow> split_loop cur (p @ CHR ''/'' # cs) = add_part (cur @ p) (split_loop [] cs)"
  by (induction p arbitrary: cur) auto

lemma split_loop_concat: "list_all part_ok ps \<Longrightarrow> split_loop [] (concat (map (\<lambda>p. p @ ''/'') ps)) = ps"
  by (induction ps) (auto simp: part_ok_def split_loop_part add_part_def)

lemma parent_path_concat: "parent_path ps = ''/'' @ concat (map (\<lambda>p. p @ ''/'') (butlast ps))"
proof -
  have "foldl (\<lambda>path p. path @ p @ ''/'') a qs = a @ concat (map (\<lambda>p. p @ ''/'') qs)" for a and qs :: "string list"
    by (induction qs arbitrary: a) simp_all
  then show ?thesis by (simp add: parent_path_def)
qed

lemma split_parent_path: "list_all part_ok ps \<Longrightarrow> split_path (parent_path ps) = butlast ps"
  by (simp add: parent_path_concat split_path_def is_absolute_def split_loop_concat list_all_iff in_set_butlastD)

lemma split_loop_length: "sum_list (map (\<lambda>p. length p + 1) (split_loop cur cs)) \<le> length cur + length cs + 1"
proof (induction cur cs rule: split_loop.induct)
  case (2 cur c cs)
  then show ?case by (cases "c = CHR ''/''") (auto simp: add_part_def)
qed (simp add: add_part_def)

text \<open>The path of the parent is not longer than the path.\<close>

lemma parent_path_length:
  assumes ne: "split_path path \<noteq> []"
  shows "length (parent_path (split_path path)) \<le> length path"
proof -
  let ?ps = "split_path path"
  have "part_ok (last ?ps)" by (rule split_path_parts [OF last_in_set [OF ne]])
  then have last: "1 \<le> length (last ?ps)" by (cases "last ?ps") (auto simp: part_ok_def)
  have "sum_list (map (\<lambda>p. length p + 1) ?ps) \<le> length path + 1"
    using split_loop_length [of "[]" path] split_loop_length [of "[]" "tl path"]
    by (auto simp: split_path_def split: if_splits)
  moreover have "sum_list (map (\<lambda>p. length p + 1) ?ps) =
      sum_list (map (\<lambda>p. length p + 1) (butlast ?ps)) + (length (last ?ps) + 1)"
    using ne by (subst append_butlast_last_id [symmetric]) (simp_all del: append_butlast_last_id)
  moreover have "length (parent_path ?ps) = 1 + sum_list (map (\<lambda>p. length p + 1) (butlast ?ps))"
    by (simp add: parent_path_concat length_concat comp_def)
  ultimately show ?thesis using last by linarith
qed

section \<open>The map of paths\<close>

text \<open>What the file system stands for: the entry at the end of each path.\<close>

datatype entry = E_dir | E_file "byte list"

definition entry_of :: "inode \<Rightarrow> entry" where
  "entry_of i = (if in_type i = N_directory then E_dir else E_file (in_data i))"

definition fs_abs :: "fs \<Rightarrow> string list \<Rightarrow> entry option" where
  "fs_abs s ps = (case walk s 0 ps of None \<Rightarrow> None | Some n \<Rightarrow> map_option entry_of (node s n))"

lemma entry_of_name [simp]: "entry_of (i\<lparr>in_name := x\<rparr>) = entry_of i"
  by (simp add: entry_of_def)

lemma tree_root: "tree_ok s \<Longrightarrow> \<exists>r. node s 0 = Some r \<and> in_type r = N_directory"
  by (simp add: tree_ok_def)

lemma fs_abs_root: "tree_ok s \<Longrightarrow> fs_abs s [] = Some E_dir"
  using tree_root by (fastforce simp: fs_abs_def entry_of_def)

lemma fs_abs_None:
  assumes "tree_ok s"
  shows "fs_abs s ps = None \<longleftrightarrow> walk s 0 ps = None"
proof -
  obtain r where "node s 0 = Some r" using tree_root [OF assms] by blast
  then have "\<exists>i. node s 0 = Some r \<and> node s n = Some i" if "walk s 0 ps = Some n" for n
    using walk_node [OF assms _ that] by blast
  then show ?thesis by (cases "walk s 0 ps") (auto simp: fs_abs_def)
qed

lemma fs_abs_dir: "fs_abs s ps = Some E_dir \<longleftrightarrow> (\<exists>n d. walk s 0 ps = Some n \<and> node s n = Some d \<and> in_type d = N_directory)"
  by (auto simp: fs_abs_def entry_of_def split: option.split if_splits)

lemma fs_abs_file: "fs_abs s ps = Some (E_file b) \<longleftrightarrow>
    (\<exists>n d. walk s 0 ps = Some n \<and> node s n = Some d \<and> in_type d \<noteq> N_directory \<and> in_data d = b)"
  by (auto simp: fs_abs_def entry_of_def split: option.split if_splits)

lemma node_find: "node s n = Some i \<Longrightarrow> \<exists>k. find_inode s n = Some k \<and> inode_at s k = i"
  by (auto simp: node_def)

lemma resolve_path_walk:
  "length path \<le> max_path_length \<Longrightarrow>
    resolve_path s path = (case walk s 0 (split_path path) of None \<Rightarrow> Inl Fs_file_not_found | Some n \<Rightarrow> Inr n)"
  by (simp add: resolve_path_def)

section \<open>The operations on paths\<close>

lemma create_node_added:
  assumes ps: "list_all part_ok ps" "length (parent_path ps) \<le> max_path_length" and inv: "tree_ok s"
    and nx: "fs_next_inode s + 1 < size_mod"
    and pn: "walk s 0 (butlast ps) = Some pn" "node s pn = Some d" "in_type d = N_directory"
  shows "\<exists>s'. create_node s ps ty = (s', Inr (fs_next_inode s)) \<and> added s pn (fs_next_inode s) ty (last ps) s' \<and>
    fs_next_inode s' = fs_next_inode s + 1 \<and> fs_handles s' = fs_handles s \<and> fs_next_handle s' = fs_next_handle s"
proof -
  let ?N = "fs_next_inode s"
  obtain k where k: "find_inode s pn = Some k" "inode_at s k = d" using node_find [OF pn(2)] by blast
  define s1 where "s1 = set_inode k (\<lambda>i. i\<lparr>in_children := in_children i @ [?N]\<rparr>) (s\<lparr>fs_next_inode := ?N + 1\<rparr>)"
  define s' where "s' = s1\<lparr>fs_inodes := fs_inodes s1 @ [new_inode ?N ty (last ps) pn]\<rparr>"
  have "create_node s ps ty = (s', Inr ?N)"
    using k pn nx by (simp add: create_node_def resolve_path_walk [OF ps(2)] split_parent_path [OF ps(1)] Let_def s'_def s1_def sz_def)
  moreover have "added s pn ?N ty (last ps) s'"
  proof -
    have lt: "n < ?N" if "node s n = Some i" for n i using inv that by (simp add: tree_ok_def)
    have kN: "find_inode (s\<lparr>fs_next_inode := ?N + 1\<rparr>) pn = Some k" using k(1) by (simp add: find_inode_def)
    have none: "node s ?N = None" using lt [of ?N] by (metis nat_neq_iff not_None_eq)
    have "node s1 m = (if m = pn then Some (d\<lparr>in_children := in_children d @ [?N]\<rparr>) else node s m)" for m
      unfolding s1_def by (subst node_set_inode [OF kN]) (simp_all add: pn(2))
    then have "node s' m = (if m = pn then Some (d\<lparr>in_children := in_children d @ [?N]\<rparr>)
        else if m = ?N then Some (new_inode ?N ty (last ps) pn) else node s m)" for m
      unfolding s'_def node_append using none lt [OF pn(2)] by (auto simp: new_inode_def split: option.split)
    then show ?thesis using none lt [OF pn(2)] pn(2,3) by (auto simp: added_def)
  qed
  ultimately show ?thesis by (simp add: s'_def s1_def set_inode_def)
qed

lemma create_node_refused:
  assumes ps: "list_all part_ok ps" "length (parent_path ps) \<le> max_path_length" and inv: "tree_ok s"
    and no: "fs_abs s (butlast ps) \<noteq> Some E_dir"
  shows "create_node s ps ty = (s, Inl Fs_parent_not_found)"
  using no by (auto simp: create_node_def resolve_path_walk [OF ps(2)] split_parent_path [OF ps(1)] fs_abs_dir node_def split: option.split)

text \<open>The new node in the map.\<close>

lemma added_abs:
  assumes t: "tree_ok s" and a: "added s pn N ty (last ps) s'" and N: "N < fs_next_inode s'" "fs_next_inode s \<le> fs_next_inode s'"
    and pn: "walk s 0 (butlast ps) = Some pn" "node s pn = Some d" "in_type d = N_directory" and ne: "ps \<noteq> []" and free: "walk s 0 ps = None"
  shows "fs_abs s' = (fs_abs s)(ps \<mapsto> (if ty = N_file then E_file [] else E_dir))" and "child_named s (last ps) (in_children d) = None"
proof -
  have ps: "ps = butlast ps @ [last ps]" using ne by simp
  show nx: "child_named s (last ps) (in_children d) = None"
    using free pn by (subst (asm) ps) (simp add: walk_append walk_Cons split: option.splits)
  obtain r where r: "node s 0 = Some r" using tree_root [OF t] by blast
  have nodes: "node s' m = (if m = pn then Some (d\<lparr>in_children := in_children d @ [N]\<rparr>)
       else if m = N then Some (new_inode N ty (last ps) pn) else node s m)" for m using a pn(2) by (auto simp: added_def)
  have pN: "pn < N" "node s N = None" using a by (auto simp: added_def)
  note w = added_walk [OF t a pn(2) nx r]
  show "fs_abs s' = (fs_abs s)(ps \<mapsto> (if ty = N_file then E_file [] else E_dir))"
  proof
    fix qs
    show "fs_abs s' qs = ((fs_abs s)(ps \<mapsto> (if ty = N_file then E_file [] else E_dir))) qs"
    proof (cases "walk s 0 qs")
      case (Some m)
      obtain i where i: "node s m = Some i" using walk_node [OF t r Some] by blast
      then have "map_option entry_of (node s' m) = map_option entry_of (node s m)"
        using nodes [of m] pN pn(2) by (auto simp: entry_of_def)
      then show ?thesis using Some free by (auto simp: fs_abs_def w)
    next
      case None
      have at: "(\<exists>rs. qs = rs @ [last ps] \<and> walk s 0 rs = Some pn) \<longleftrightarrow> qs = ps"
      proof
        assume "\<exists>rs. qs = rs @ [last ps] \<and> walk s 0 rs = Some pn"
        then obtain rs where "qs = rs @ [last ps]" "rs = butlast ps" using walk_inj [OF t _ pn(1)] by blast
        then show "qs = ps" using ps by simp
      next
        assume "qs = ps"
        then show "\<exists>rs. qs = rs @ [last ps] \<and> walk s 0 rs = Some pn" using ps pn(1) by blast
      qed
      have "node s' N = Some (new_inode N ty (last ps) pn)" using nodes [of N] pN(1) by simp
      then show ?thesis using None at by (cases ty) (auto simp: fs_abs_def w entry_of_def new_inode_def)
    qed
  qed
qed

lemma added_walk_new:
  assumes t: "tree_ok s" and a: "added s pn N ty (last ps) s'" and N: "N < fs_next_inode s'" "fs_next_inode s \<le> fs_next_inode s'"
    and pn: "walk s 0 (butlast ps) = Some pn" "node s pn = Some d" "in_type d = N_directory" and ne: "ps \<noteq> []" and free: "walk s 0 ps = None"
  shows "walk s' 0 ps = Some N"
proof -
  obtain r where r: "node s 0 = Some r" using tree_root [OF t] by blast
  have "ps = butlast ps @ [last ps]" using ne by simp
  then have "\<exists>qs. ps = qs @ [last ps] \<and> walk s 0 qs = Some pn" using pn(1) by blast
  then show ?thesis using added_walk [OF t a pn(2) added_abs(2) [OF t a N pn ne free] r, of ps] free by simp
qed

text \<open>A deletion; \<open>f\<close> is what is done to the inode itself. The root cannot be a child.\<close>

lemma unlink_removed:
  assumes inv: "tree_ok s" and w: "walk s 0 ps = Some n" "ps \<noteq> []" and i: "node s n = Some i" "in_children i = []"
    and f: "\<And>x. in_num (f x) = in_num x \<and> in_type (f x) = in_type x \<and> in_parent (f x) = in_parent x \<and> in_children (f x) = in_children x"
    and k: "find_inode s n = Some k"
  shows "\<exists>pn. removed s pn n (set_inode k f (unlink s (in_parent i) n))"
proof -
  obtain m d where m: "walk s 0 (butlast ps) = Some m" "node s m = Some d" "child_named s (last ps) (in_children d) = Some n"
    using w(1) walk_snoc [of s 0 "butlast ps" "last ps" n] unfolding append_butlast_last_id [OF w(2)] by blast
  have c: "n \<in> set (in_children d)" using child_named_in [OF m(3)] by blast
  have par: "in_parent i = m" "m \<noteq> n" using tree_child [OF inv m(2) c] i(1) by auto
  obtain kp where kp: "find_inode s m = Some kp" "inode_at s kp = d" using node_find [OF m(2)] by blast
  let ?u = "set_inode kp (\<lambda>x. x\<lparr>in_children := remove1 n (in_children x)\<rparr>) s"
  have u: "unlink s (in_parent i) n = ?u" using kp(1) par(1) by (simp add: unlink_def)
  have ku: "find_inode ?u n = Some k" using k by (simp add: find_inode_def set_inode_def find_num_update)
  have "node (set_inode k f ?u) x = (if x = m then Some (d\<lparr>in_children := remove1 n (in_children d)\<rparr>)
      else if x = n then Some (f i) else node s x)" for x
    using node_set_inode [OF kp(1), of "\<lambda>x. x\<lparr>in_children := remove1 n (in_children x)\<rparr>" x]
      node_set_inode [OF ku, of f x] f m(2) i(1) par(2) by auto
  moreover have "fs_next_inode (set_inode k f ?u) = fs_next_inode s" by (simp add: set_inode_def)
  ultimately have "removed s m n (set_inode k f ?u)"
    unfolding removed_def using par(2) m(2) c i f [of i] by (intro conjI exI [of _ d] exI [of _ i] exI [of _ "f i"]) simp_all
  then show ?thesis using u by auto
qed

lemma removed_abs:
  assumes t: "tree_ok s" and names: "names_ok s" and r: "removed s pn n s'" and w: "walk s 0 ps = Some n" "ps \<noteq> []"
  shows "fs_abs s' = (fs_abs s)(ps := None)"
proof
  fix qs
  obtain e where e: "node s 0 = Some e" using tree_root [OF t] by blast
  have n: "0 \<noteq> n" using walk_ge [OF t w(1)] w(2) by auto
  have at: "walk s 0 qs = Some n \<longleftrightarrow> qs = ps" using walk_inj [OF t _ w(1)] w(1) by blast
  have walk: "walk s' 0 qs = (if qs = ps then None else walk s 0 qs)" using removed_walk [OF t names r e n] at by simp
  show "fs_abs s' qs = ((fs_abs s)(ps := None)) qs"
  proof (cases "qs = ps")
    case False
    have "map_option entry_of (node s' m) = map_option entry_of (node s m)" if "walk s 0 qs = Some m" for m
    proof -
      have "m \<noteq> n" using that at False by auto
      then show ?thesis using r by (auto simp: removed_def entry_of_def)
    qed
    then show ?thesis using False walk by (auto simp: fs_abs_def split: option.split)
  next
    case True
    then show ?thesis using walk by (simp add: fs_abs_def)
  qed
qed

text \<open>A directory without children is one below which the map has nothing.\<close>

lemma no_children:
  assumes t: "tree_ok s" and w: "walk s 0 ps = Some n" "node s n = Some d" "in_type d = N_directory"
  shows "in_children d = [] \<longleftrightarrow> (\<forall>p. fs_abs s (ps @ [p]) = None)"
proof
  assume "in_children d = []"
  then have "walk s 0 (ps @ [p]) = None" for p using w by (simp add: walk_append walk_Cons)
  then show "\<forall>p. fs_abs s (ps @ [p]) = None" by (simp add: fs_abs_def)
next
  assume none: "\<forall>p. fs_abs s (ps @ [p]) = None"
  show "in_children d = []"
  proof (cases "in_children d")
    case (Cons c cs)
    then obtain i where i: "node s c = Some i" using tree_child(2) [OF t w(2), of c] by auto
    then have "walk s 0 (ps @ [in_name i]) = Some c" using w Cons by (simp add: walk_append walk_Cons child_named_Cons)
    then have "fs_abs s (ps @ [in_name i]) \<noteq> None" using i by (simp add: fs_abs_def)
    then show ?thesis using none by simp
  qed
qed

section \<open>The specification: a map from paths to entries\<close>

datatype fs_op = Op_create string | Op_mkdir string | Op_delete string | Op_rmdir string

type_synonym fs_map = "string list \<Rightarrow> entry option"

definition spec_create :: "entry \<Rightarrow> string list \<Rightarrow> fs_map \<Rightarrow> fs_map \<times> (fs_error + bool)" where
  "spec_create e ps m =
     (if m ps \<noteq> None then (m, Inl Fs_already_exists)
      else if m (butlast ps) \<noteq> Some E_dir then (m, Inl Fs_parent_not_found)
      else (m(ps \<mapsto> e), Inr True))"

definition spec_delete :: "string list \<Rightarrow> fs_map \<Rightarrow> fs_map \<times> (fs_error + bool)" where
  "spec_delete ps m = (case m ps of Some (E_file b) \<Rightarrow> (m(ps := None), Inr True) | _ \<Rightarrow> (m, Inl Fs_file_not_found))"

text \<open>The root can be removed when it is empty, and stays.\<close>

definition spec_rmdir :: "string list \<Rightarrow> fs_map \<Rightarrow> fs_map \<times> (fs_error + bool)" where
  "spec_rmdir ps m =
     (if m ps \<noteq> Some E_dir then (m, Inl Fs_dir_not_found)
      else if \<exists>p. m (ps @ [p]) \<noteq> None then (m, Inl Fs_not_empty)
      else (if ps = [] then m else m(ps := None), Inr True))"

fun spec_op :: "fs_op \<Rightarrow> fs_map \<Rightarrow> fs_map \<times> (fs_error + bool)" where
  "spec_op (Op_create path) m = spec_create (E_file []) (split_path path) m"
| "spec_op (Op_mkdir path) m = spec_create E_dir (split_path path) m"
| "spec_op (Op_delete path) m = spec_delete (split_path path) m"
| "spec_op (Op_rmdir path) m = spec_rmdir (split_path path) m"

fun fs_step :: "fs_op \<Rightarrow> fs \<Rightarrow> fs \<times> (fs_error + bool)" where
  "fs_step (Op_create path) s = handle_create_file s path"
| "fs_step (Op_mkdir path) s = handle_create_dir s path"
| "fs_step (Op_delete path) s = handle_delete_file s path"
| "fs_step (Op_rmdir path) s = handle_delete_dir s path"

fun op_path :: "fs_op \<Rightarrow> string" where
  "op_path (Op_create path) = path"
| "op_path (Op_mkdir path) = path"
| "op_path (Op_delete path) = path"
| "op_path (Op_rmdir path) = path"

definition refines :: "(fs \<times> (fs_error + bool)) \<Rightarrow> fs \<Rightarrow> (fs_map \<times> (fs_error + bool)) \<Rightarrow> bool" where
  "refines r s a \<longleftrightarrow> fs_inv (fst r) \<and> fs_next_inode (fst r) \<le> fs_next_inode s + 1 \<and> (fs_abs (fst r), snd r) = a"

lemma create_refines:
  assumes inv: "fs_inv s" and len: "length path \<le> max_path_length" and nx: "fs_next_inode s + 1 < size_mod"
  shows "refines (handle_create ty no_name s path) s
    (spec_create (if ty = N_file then E_file [] else E_dir) (split_path path) (fs_abs s))"
proof -
  let ?ps = "split_path path"
  have t: "tree_ok s" "names_ok s" using inv by (simp_all add: fs_inv_def)
  have parts: "list_all part_ok ?ps" using split_path_parts by (simp add: list_all_iff)
  have res: "resolve_path s path = (case walk s 0 ?ps of None \<Rightarrow> Inl Fs_file_not_found | Some n \<Rightarrow> Inr n)"
    by (rule resolve_path_walk [OF len])
  show ?thesis
  proof (cases "walk s 0 ?ps")
    case (Some n)
    then have "fs_abs s ?ps \<noteq> None" using fs_abs_None [OF t(1)] by simp
    then show ?thesis using Some res len inv by (simp add: refines_def handle_create_def spec_create_def)
  next
    case None
    then have ne: "?ps \<noteq> []" by auto
    have plen: "length (parent_path ?ps) \<le> max_path_length" using parent_path_length [OF ne] len by linarith
    have none: "fs_abs s ?ps = None" using None fs_abs_None [OF t(1)] by simp
    show ?thesis
    proof (cases "fs_abs s (butlast ?ps) = Some E_dir")
      case False
      then show ?thesis using create_node_refused [OF parts plen t(1) False] None res len ne none inv
        by (simp add: refines_def handle_create_def spec_create_def Let_def)
    next
      case True
      then obtain pn d where pn: "walk s 0 (butlast ?ps) = Some pn" "node s pn = Some d" "in_type d = N_directory"
        unfolding fs_abs_dir by blast
      obtain s' where s': "create_node s ?ps ty = (s', Inr (fs_next_inode s))"
          "added s pn (fs_next_inode s) ty (last ?ps) s'" "fs_next_inode s' = fs_next_inode s + 1"
        using create_node_added [OF parts plen t(1) nx pn] by blast
      have n1: "fs_next_inode s < fs_next_inode s'" "fs_next_inode s \<le> fs_next_inode s'" using s'(3) by simp_all
      note a = added_abs [OF t(1) s'(2) n1 pn ne None]
      have "fs_inv s'" using added_tree [OF t(1) s'(2) n1] added_names [OF t(1) s'(2) pn(2) a(2) t(2)] by (simp add: fs_inv_def)
      then show ?thesis using s' a(1) None res len ne none True
        by (simp add: refines_def handle_create_def spec_create_def Let_def)
    qed
  qed
qed

lemma delete_refines:
  assumes inv: "fs_inv s" and len: "length path \<le> max_path_length"
  shows "refines (handle_delete_file s path) s (spec_delete (split_path path) (fs_abs s))"
proof -
  let ?ps = "split_path path"
  have t: "tree_ok s" "names_ok s" using inv by (simp_all add: fs_inv_def)
  note res = resolve_path_walk [OF len, of s]
  obtain r where r: "node s 0 = Some r" "in_type r = N_directory" using tree_root [OF t(1)] by blast
  show ?thesis
  proof (cases "walk s 0 ?ps")
    case None
    then show ?thesis using res inv by (simp add: refines_def handle_delete_file_def spec_delete_def fs_abs_def)
  next
    case (Some n)
    obtain i where i: "node s n = Some i" using walk_node [OF t(1) r(1) Some] by blast
    obtain k where k: "find_inode s n = Some k" "inode_at s k = i" using node_find [OF i] by blast
    show ?thesis
    proof (cases "in_type i = N_file")
      case False
      then have "fs_abs s ?ps = Some E_dir" using Some i by (cases "in_type i") (simp_all add: fs_abs_def entry_of_def)
      then show ?thesis using False Some res k inv by (simp add: refines_def handle_delete_file_def spec_delete_def)
    next
      case True
      have here: "fs_abs s ?ps = Some (E_file (in_data i))" using Some i True by (simp add: fs_abs_def entry_of_def)
      have ne: "?ps \<noteq> []" using Some i r True by auto
      have nc: "in_children i = []" using tree_node [OF t(1) i] True by (simp add: node_ok_def)
      let ?f = "\<lambda>i. i\<lparr>in_name := [], in_data := []\<rparr>"
      obtain pn where rm: "removed s pn n (set_inode k ?f (unlink s (in_parent i) n))"
        using unlink_removed [OF t(1) Some ne i nc, of ?f k] k(1) by auto
      have "fs_next_inode (set_inode k ?f (unlink s (in_parent i) n)) = fs_next_inode s" by (rule removed_next [OF rm])
      then show ?thesis using removed_inv [OF t rm] removed_abs [OF t rm Some ne] Some res k True here
        by (simp add: refines_def handle_delete_file_def spec_delete_def fs_inv_def)
    qed
  qed
qed

text \<open>The root is nobody's child.\<close>

lemma unlink_root:
  assumes t: "tree_ok s"
  shows "unlink s pn 0 = s"
proof (cases "find_inode s pn")
  case (Some k)
  then have d: "node s pn = Some (fs_inodes s ! k)" by (simp add: node_def inode_at_def)
  have "0 \<notin> set (in_children (fs_inodes s ! k))" using tree_child(1) [OF t d] by blast
  then have "(fs_inodes s)[k := (fs_inodes s ! k)\<lparr>in_children := remove1 0 (in_children (fs_inodes s ! k))\<rparr>] = fs_inodes s"
    by (simp add: remove1_idem)
  then show ?thesis using Some by (simp add: unlink_def set_inode_def)
qed (simp add: unlink_def)

text \<open>A change of the name of the root, which no path mentions.\<close>

lemma root_renamed:
  assumes t: "tree_ok s" and k: "find_inode s 0 = Some k" "inode_at s k = r"
  shows "same_tree s (set_inode k (\<lambda>i. i\<lparr>in_name := x\<rparr>) s)" and "fs_abs (set_inode k (\<lambda>i. i\<lparr>in_name := x\<rparr>) s) = fs_abs s"
proof -
  let ?s = "set_inode k (\<lambda>i. i\<lparr>in_name := x\<rparr>) s"
  have n: "node ?s m = (if m = 0 then map_option (\<lambda>i. i\<lparr>in_name := x\<rparr>) (node s m) else node s m)" for m
    by (rule node_set_inode [OF k(1)]) simp
  have "fs_next_inode ?s = fs_next_inode s" by (simp add: set_inode_def)
  then show st: "same_tree s ?s" by (simp add: same_tree_def n name_of_def option.map_comp comp_def)
  show "fs_abs ?s = fs_abs s"
    by (rule ext) (simp add: fs_abs_def same_tree_walk [OF st t] n option.map_comp comp_def split: option.split)
qed

lemma rmdir_refines:
  assumes inv: "fs_inv s" and len: "length path \<le> max_path_length"
  shows "refines (handle_delete_dir s path) s (spec_rmdir (split_path path) (fs_abs s))"
proof -
  let ?ps = "split_path path"
  have t: "tree_ok s" "names_ok s" using inv by (simp_all add: fs_inv_def)
  note res = resolve_path_walk [OF len, of s]
  obtain r where r: "node s 0 = Some r" "in_type r = N_directory" using tree_root [OF t(1)] by blast
  show ?thesis
  proof (cases "fs_abs s ?ps = Some E_dir")
    case False
    then have "\<not> (\<exists>n d. walk s 0 ?ps = Some n \<and> node s n = Some d \<and> in_type d = N_directory)" by (simp add: fs_abs_dir)
    then have "handle_delete_dir s path = (s, Inl Fs_dir_not_found)"
      using res by (auto simp: handle_delete_dir_def node_def split: option.split)
    then show ?thesis using False inv by (simp add: refines_def spec_rmdir_def)
  next
    case True
    then obtain n i where i: "walk s 0 ?ps = Some n" "node s n = Some i" "in_type i = N_directory" unfolding fs_abs_dir by blast
    obtain k where k: "find_inode s n = Some k" "inode_at s k = i" using node_find [OF i(2)] by blast
    note empty = no_children [OF t(1) i]
    let ?f = "\<lambda>i. i\<lparr>in_name := []\<rparr>"
    show ?thesis
    proof (cases "in_children i = []")
      case False
      then have "\<exists>p. fs_abs s (?ps @ [p]) \<noteq> None" using empty by simp
      then show ?thesis using False True i k res inv by (simp add: refines_def handle_delete_dir_def spec_rmdir_def)
    next
      case nc: True
      then have none: "\<not> (\<exists>p. fs_abs s (?ps @ [p]) \<noteq> None)" using empty by simp
      have step: "handle_delete_dir s path = (set_inode k ?f (unlink s (in_parent i) n), Inr True)"
        using nc i k res by (simp add: handle_delete_dir_def)
      show ?thesis
      proof (cases "?ps = []")
        case False
        obtain pn where rm: "removed s pn n (set_inode k ?f (unlink s (in_parent i) n))"
          using unlink_removed [OF t(1) i(1) False i(2) nc, of ?f k] k(1) by auto
        have "fs_next_inode (set_inode k ?f (unlink s (in_parent i) n)) = fs_next_inode s" by (rule removed_next [OF rm])
        then show ?thesis using removed_inv [OF t rm] removed_abs [OF t rm i(1) False] True none False
          unfolding refines_def step by (simp add: spec_rmdir_def fs_inv_def)
      next
        case root: True
        then have n: "n = 0" using i(1) by simp
        note same = root_renamed [OF t(1), of k i "[]"]
        have k0: "find_inode s 0 = Some k" using k(1) n by simp
        have "fs_inv (set_inode k ?f s)" using same_tree_inv [OF same(1) [OF k0 k(2)]] t by (simp add: fs_inv_def)
        moreover have "fs_next_inode (set_inode k ?f s) = fs_next_inode s" by (simp add: set_inode_def)
        ultimately show ?thesis using same(2) [OF k0 k(2)] True none root n
          unfolding refines_def step by (simp add: spec_rmdir_def unlink_root [OF t(1)])
      qed
    qed
  qed
qed

theorem fs_step_refines:
  assumes "fs_inv s" and "length (op_path op) \<le> max_path_length" and "fs_next_inode s + 1 < size_mod"
  shows "refines (fs_step op s) s (spec_op op (fs_abs s))"
  using create_refines [of s _ N_file] create_refines [of s _ N_directory] delete_refines rmdir_refines assms
  by (cases op) (simp_all add: handle_create_file_def handle_create_dir_def)

text \<open>Sequences of operations, with their results.\<close>

fun fs_run :: "fs_op list \<Rightarrow> fs \<Rightarrow> fs \<times> (fs_error + bool) list" where
  "fs_run [] s = (s, [])"
| "fs_run (op # ops) s = (let (s, r) = fs_step op s; (s, rs) = fs_run ops s in (s, r # rs))"

fun spec_run :: "fs_op list \<Rightarrow> fs_map \<Rightarrow> fs_map \<times> (fs_error + bool) list" where
  "spec_run [] m = (m, [])"
| "spec_run (op # ops) m = (let (m, r) = spec_op op m; (m, rs) = spec_run ops m in (m, r # rs))"

lemma fs_run_simulates:
  "fs_inv s \<Longrightarrow> \<forall>op\<in>set ops. length (op_path op) \<le> max_path_length \<Longrightarrow> fs_next_inode s + length ops < size_mod \<Longrightarrow>
    fs_inv (fst (fs_run ops s)) \<and> (fs_abs (fst (fs_run ops s)), snd (fs_run ops s)) = spec_run ops (fs_abs s)"
proof (induction ops arbitrary: s)
  case (Cons op ops)
  obtain s1 r where s1: "fs_step op s = (s1, r)" by force
  have "refines (fs_step op s) s (spec_op op (fs_abs s))" using Cons.prems by (intro fs_step_refines) auto
  then have r: "fs_inv s1" "fs_next_inode s1 \<le> fs_next_inode s + 1" "spec_op op (fs_abs s) = (fs_abs s1, r)"
    by (auto simp: refines_def s1)
  with Cons.IH [OF r(1)] Cons.prems
  have IH: "fs_inv (fst (fs_run ops s1))" "spec_run ops (fs_abs s1) = (fs_abs (fst (fs_run ops s1)), snd (fs_run ops s1))" by simp_all
  obtain s2 rs where s2: "fs_run ops s1 = (s2, rs)" by force
  show ?case using IH r(3) by (simp add: s1 s2)
qed simp

text \<open>At the start: two root inodes, of which the search finds the first.\<close>

lemma node_start: "node fs_start n = (if n = 0 then Some (new_inode 0 N_directory ''/'' 0) else None)"
  by (simp add: node_def find_inode_def inode_at_def fs_start_def fs_storage_def new_inode_def)

lemma fs_start_inv: "fs_inv fs_start"
proof -
  have "fs_next_inode fs_start = 1" by (simp add: fs_start_def)
  then show ?thesis by (simp add: fs_inv_def tree_ok_def names_ok_def node_ok_def node_start new_inode_def)
qed

definition spec_start :: fs_map where
  "spec_start = [[] \<mapsto> E_dir]"

lemma fs_abs_start: "fs_abs fs_start = spec_start"
proof
  fix ps show "fs_abs fs_start ps = spec_start ps"
    by (cases ps) (simp_all add: fs_abs_def spec_start_def node_start entry_of_def new_inode_def walk_Cons)
qed



end
