(* ===== verification/FsFiles.thy ===== *)
theory FsFiles
  imports FsProps
begin

text \<open>
  Open files of the in-memory file system: handles and what opening, writing and closing do to
  the map from paths to entries.
\<close>

section \<open>Handles\<close>

lemma find_open_Some:
  "find_open hs k h = Some j \<Longrightarrow> k \<le> j \<and> j < k + length hs \<and> fh_id (hs ! (j - k)) = h \<and> fh_open (hs ! (j - k))"
proof (induction hs k h rule: find_open.induct)
  case (2 x xs k h)
  show ?case
  proof (cases "fh_id x = h \<and> fh_open x")
    case False
    then have "find_open xs (k + 1) h = Some j" using 2(2) by (simp split: if_splits)
    note IH = "2.IH" [OF False this]
    then have "j - k = Suc (j - (k + 1))" by linarith
    with IH show ?thesis by simp
  qed (use 2 in auto)
qed simp

lemma find_open_first:
  "j < length hs \<Longrightarrow> fh_id (hs ! j) = h \<Longrightarrow> fh_open (hs ! j) \<Longrightarrow> \<forall>l<j. \<not> (fh_id (hs ! l) = h \<and> fh_open (hs ! l)) \<Longrightarrow>
    find_open hs k h = Some (k + j)"
proof (induction hs k h arbitrary: j rule: find_open.induct)
  case (2 x xs k h)
  show ?case
  proof (cases j)
    case (Suc l)
    have "\<not> (fh_id x = h \<and> fh_open x)" using 2(5) Suc by fastforce
    moreover have "find_open xs (k + 1) h = Some (k + 1 + l)"
    proof (rule "2.IH" [OF calculation])
      show "\<forall>i<l. \<not> (fh_id (xs ! i) = h \<and> fh_open (xs ! i))" using 2(5) Suc by fastforce
    qed (use 2 Suc in auto)
    ultimately show ?thesis using Suc by simp
  qed (use 2 in simp)
qed simp

lemma find_closed_Some: "find_closed hs k = Some j \<Longrightarrow> k \<le> j \<and> j < k + length hs \<and> \<not> fh_open (hs ! (j - k))"
proof (induction hs k rule: find_closed.induct)
  case (2 x xs k)
  show ?case
  proof (cases "fh_open x")
    case True
    then have "find_closed xs (k + 1) = Some j" using 2(2) by simp
    note IH = "2.IH" [OF _ this]
    then have "j - k = Suc (j - (k + 1))" using True by linarith
    with IH True show ?thesis by simp
  qed (use 2 in auto)
qed simp

text \<open>The ids of open handles have been given out.\<close>

definition handles_ok :: "fs \<Rightarrow> bool" where
  "handles_ok s \<longleftrightarrow> (\<forall>h\<in>set (fs_handles s). fh_open h \<longrightarrow> fh_id h < fs_next_handle s)"

definition handle_free :: "fs \<Rightarrow> bool" where
  "handle_free s \<longleftrightarrow> length (fs_handles s) < max_open_handles \<or> (\<exists>h\<in>set (fs_handles s). \<not> fh_open h)"

lemma find_closed_None: "find_closed hs k = None \<longleftrightarrow> (\<forall>h\<in>set hs. fh_open h)"
  by (induction hs k rule: find_closed.induct) auto

text \<open>The id a handle is given is new, and leads to the inode.\<close>

lemma open_handle_new:
  assumes ok: "handles_ok s" and free: "handle_free s" and nx: "fs_next_handle s + 1 < size_mod"
  shows "\<exists>hs k. open_handle s n flags = (s\<lparr>fs_handles := hs, fs_next_handle := fs_next_handle s + 1\<rparr>, Inr (fs_next_handle s)) \<and>
    find_open hs 0 (fs_next_handle s) = Some k \<and> fh_inode (hs ! k) = n \<and>
    (\<forall>h\<in>set hs. fh_open h \<longrightarrow> fh_id h < fs_next_handle s + 1)"
proof -
  let ?H = "fs_next_handle s"
  have old: "fh_id (fs_handles s ! l) \<noteq> ?H" if "l < length (fs_handles s)" "fh_open (fs_handles s ! l)" for l
    using ok that by (auto simp: handles_ok_def)
  have lt: "fh_id h < ?H + 1" if "h \<in> set (fs_handles s)" "fh_open h" for h using ok that by (fastforce simp: handles_ok_def)
  show ?thesis
  proof (cases "find_closed (fs_handles s) 0")
    case (Some k)
    from find_closed_Some [OF Some] have k: "k < length (fs_handles s)" "\<not> fh_open (fs_handles s ! k)" by simp_all
    let ?h = "(fs_handles s ! k)\<lparr>fh_id := ?H, fh_open := True, fh_inode := n, fh_flags := flags\<rparr>"
    let ?hs = "(fs_handles s)[k := ?h]"
    have "open_handle s n flags = (s\<lparr>fs_handles := ?hs, fs_next_handle := ?H + 1\<rparr>, Inr ?H)"
      using Some k nx by (simp add: open_handle_def allocate_handle_def set_handle_def sz_def)
    moreover have "find_open ?hs 0 ?H = Some (0 + k)"
      using k old by (intro find_open_first) auto
    moreover have "\<forall>h\<in>set ?hs. fh_open h \<longrightarrow> fh_id h < ?H + 1" using lt by (auto dest!: set_update_subset_insert [THEN subsetD])
    ultimately show ?thesis using k by (intro exI [of _ ?hs] exI [of _ k]) simp
  next
    case None
    then have len: "length (fs_handles s) < max_open_handles" using free by (auto simp: handle_free_def find_closed_None)
    let ?h = "\<lparr>fh_id = ?H, fh_inode = n, fh_flags = flags, fh_open = True\<rparr>"
    let ?hs = "fs_handles s @ [?h]"
    have "open_handle s n flags = (s\<lparr>fs_handles := ?hs, fs_next_handle := ?H + 1\<rparr>, Inr ?H)"
      using None len nx by (simp add: open_handle_def allocate_handle_def set_handle_def sz_def)
    moreover have "find_open ?hs 0 ?H = Some (0 + length (fs_handles s))"
      using old by (intro find_open_first) (auto simp: nth_append)
    moreover have "\<forall>h\<in>set ?hs. fh_open h \<longrightarrow> fh_id h < ?H + 1" using lt by auto
    ultimately show ?thesis by (intro exI [of _ ?hs] exI [of _ "length (fs_handles s)"]) simp
  qed
qed

lemma open_handle_full:
  assumes "\<not> handle_free s"
  shows "open_handle s n flags = (s, Inl Fs_too_many_open_files)"
proof -
  have "find_closed (fs_handles s) 0 = None" using assms by (auto simp: handle_free_def find_closed_None)
  then show ?thesis using assms by (auto simp: open_handle_def allocate_handle_def handle_free_def)
qed

section \<open>Contents\<close>

text \<open>A change of the contents of one inode, seen through the map.\<close>

lemma set_data_tree:
  assumes t: "tree_ok s" and k: "find_inode s n = Some k"
    and f: "\<And>i. in_num (f i) = in_num i \<and> in_type (f i) = in_type i \<and> in_name (f i) = in_name i \<and> in_parent (f i) = in_parent i \<and> in_children (f i) = in_children i"
  shows "same_tree s (set_inode k f s)"
    and "fs_abs (set_inode k f s) = (\<lambda>ps. if walk s 0 ps = Some n then Some (entry_of (f (inode_at s k))) else fs_abs s ps)"
proof -
  have nd: "node (set_inode k f s) m = (if m = n then map_option f (node s m) else node s m)" for m
    by (rule node_set_inode [OF k]) (simp add: f)
  have n: "node s n = Some (inode_at s k)" using k by (simp add: node_def)
  have "fs_next_inode (set_inode k f s) = fs_next_inode s" by (simp add: set_inode_def)
  then show st: "same_tree s (set_inode k f s)"
    by (auto simp: same_tree_def nd name_of_def option.map_comp comp_def f split: option.split)
  show "fs_abs (set_inode k f s) = (\<lambda>ps. if walk s 0 ps = Some n then Some (entry_of (f (inode_at s k))) else fs_abs s ps)"
    by (rule ext) (auto simp: fs_abs_def same_tree_walk [OF st t] nd n split: option.split)
qed

definition overwrite :: "nat \<Rightarrow> byte list \<Rightarrow> byte list \<Rightarrow> byte list" where
  "overwrite off bs d = (let d = grow_data (off + length bs) d in take off d @ bs @ drop (off + length bs) d)"

lemma write_loop_overwrites:
  "off + length bs \<le> length d \<Longrightarrow> length d < size_mod \<Longrightarrow> write_loop off bs d = Done (take off d @ bs @ drop (off + length bs) d)"
proof (induction bs arbitrary: off d)
  case (Cons b bs)
  have "sz off = off" using Cons.prems by (simp add: sz_def)
  moreover have "take (off + 1) (d[off := b]) = take off d @ [b]" using Cons.prems by (simp add: take_Suc_conv_app_nth)
  moreover have "drop (off + 1 + length bs) (d[off := b]) = drop (off + 1 + length bs) d" by simp
  ultimately show ?case using Cons.IH [of "off + 1" "d[off := b]"] Cons.prems by simp
qed simp

lemma length_overwrite: "length (overwrite off bs d) = max (length d) (off + length bs)"
  by (simp add: overwrite_def grow_data_def Let_def)

text \<open>A write to an open file.\<close>

lemma handle_write_overwrites:
  assumes f: "file_of s h = Inr i" and off: "off + length bs < size_mod" and d: "length (in_data (inode_at s i)) < size_mod"
  shows "handle_write s h off bs =
    Done (set_inode i (\<lambda>x. x\<lparr>in_data := overwrite off bs (in_data (inode_at s i)), in_modified := 0\<rparr>) s, Inr (length bs))"
proof -
  let ?d = "grow_data (off + length bs) (in_data (inode_at s i))"
  have "sz (off + length bs) = off + length bs" using off by (simp add: sz_def)
  moreover have "write_loop off bs ?d = Done (take off ?d @ bs @ drop (off + length bs) ?d)"
    using off d by (intro write_loop_overwrites) (simp_all add: grow_data_def)
  ultimately show ?thesis using f by (simp add: handle_write_def overwrite_def Let_def)
qed

lemma file_of_inode: "file_of s h = Inr i \<Longrightarrow> \<exists>k. find_handle s h = Some k \<and>
    find_inode s (fh_inode (fs_handles s ! k)) = Some i \<and> in_type (inode_at s i) = N_file"
  by (auto simp: file_of_def split: option.splits if_splits)

lemma file_of_set_data:
  assumes f: "file_of s h = Inr i" and g: "\<And>x. in_num (g x) = in_num x \<and> in_type (g x) = in_type x"
  shows "file_of (set_inode i g s) h = Inr i" and "inode_at (set_inode i g s) i = g (inode_at s i)"
proof -
  obtain k where k: "find_handle s h = Some k" "find_inode s (fh_inode (fs_handles s ! k)) = Some i" "in_type (inode_at s i) = N_file"
    using file_of_inode [OF f] by blast
  have i: "i < length (fs_inodes s)" using find_inode_Some [OF k(2)] by simp
  then show at: "inode_at (set_inode i g s) i = g (inode_at s i)" by (simp add: inode_at_def set_inode_def)
  have "find_inode (set_inode i g s) n = find_inode s n" for n by (simp add: find_inode_def set_inode_def find_num_update g)
  moreover have "find_handle (set_inode i g s) h = Some k" "fs_handles (set_inode i g s) = fs_handles s"
    using k(1) by (simp_all add: find_handle_def set_inode_def)
  ultimately show "file_of (set_inode i g s) h = Inr i" using k at g by (simp add: file_of_def)
qed

end
