(* ===== verification/FileClient.thy ===== *)
theory FileClient
  imports FsFiles MpackPrint KernelIpc
begin

text \<open>
  A program's files: the client stubs and the request dispatch of the file system service
  (\<open>ot/user/gen/filesystem-client.cpp\<close>, \<open>ot/user/gen/filesystem-server.cpp\<close>) and the class
  \<open>ou::File\<close> on top of them (\<open>ot/core/platform/ipc-file.cpp\<close>). Requests and answers carry
  their data in MessagePack on the communication pages. The main result is that what is written
  to a path is what is read from it, whatever its length.
\<close>

section \<open>The service\<close>

datatype ipc_error = Err_fs fs_error | Err_method_not_known | Err_pid_not_found

definition m_open :: "32 word" where "m_open = 0x1900"
definition m_read :: "32 word" where "m_read = 0x1a00"
definition m_write :: "32 word" where "m_write = 0x1b00"
definition m_close :: "32 word" where "m_close = 0x1c00"
definition m_create_file :: "32 word" where "m_create_file = 0x1d00"
definition m_create_dir :: "32 word" where "m_create_dir = 0x1e00"
definition m_delete_file :: "32 word" where "m_delete_file = 0x1f00"
definition m_delete_dir :: "32 word" where "m_delete_dir = 0x2000"
definition m_list_dir :: "32 word" where "m_list_dir = 0x2100"

text \<open>
  A view into the request, when all of its bytes are there; a failed read leaves the view empty.
\<close>

fun view_bytes :: "mpack_reader \<times> (nat \<times> byte list) option \<Rightarrow> byte list run" where
  "view_bytes (r, None) = Done []"
| "view_bytes (r, Some (len, bs)) = (if length bs < len then Undefined Ub_view else Done bs)"

definition request_path :: "byte list \<Rightarrow> string run" where
  "request_path page = run_bind (run_bind (read_string (mr_new page)) view_bytes) (\<lambda>bs. Done (map char_of_byte bs))"

definition request_data :: "byte list \<Rightarrow> byte list run" where
  "request_data page = run_bind (read_bin (mr_new page)) view_bytes"

text \<open>Bytes written from the start of a page.\<close>

definition put_page :: "byte list \<Rightarrow> byte list \<Rightarrow> byte list" where
  "put_page bs page = bs @ drop (length bs) page"

definition put_answer :: "byte list option \<Rightarrow> byte list \<Rightarrow> byte list" where
  "put_answer a page = (case a of None \<Rightarrow> page | Some bs \<Rightarrow> put_page bs page)"

definition value_of :: "fs_error + nat \<Rightarrow> ipc_error + nat" where
  "value_of r = (case r of Inl e \<Rightarrow> Inl (Err_fs e) | Inr v \<Rightarrow> Inr v)"

definition no_value :: "fs_error + bool \<Rightarrow> ipc_error + nat" where
  "no_value r = (case r of Inl e \<Rightarrow> Inl (Err_fs e) | Inr _ \<Rightarrow> Inr 0)"

text \<open>
  \<open>process_request\<close> of the running server: its state, its communication page and the answer.
  The three arguments are those of the message.
\<close>

definition process_request ::
  "32 word \<Rightarrow> nat \<Rightarrow> nat \<Rightarrow> nat \<Rightarrow> fs \<times> byte list \<Rightarrow> ((fs \<times> byte list) \<times> (ipc_error + nat)) run" where
  "process_request mf arg0 arg1 arg2 sp = (let s = fst sp; page = snd sp; m = ipc_method mf in
     if m = m_open
     then run_bind (request_path page) (\<lambda>path. let (s, r) = handle_open s path (of_nat arg0) in Done ((s, page), value_of r))
     else if m = m_read
     then (let (out, r) = handle_read s arg0 arg1 arg2 in Done ((s, put_answer out page), value_of r))
     else if m = m_write
     then run_bind (request_data page) (\<lambda>bs. run_bind (handle_write s arg0 arg1 bs) (\<lambda>(s, r). Done ((s, page), value_of r)))
     else if m = m_close
     then (let (s, r) = handle_close s arg0 in Done ((s, page), no_value r))
     else if m = m_create_file
     then run_bind (request_path page) (\<lambda>path. let (s, r) = handle_create_file s path in Done ((s, page), no_value r))
     else if m = m_create_dir
     then run_bind (request_path page) (\<lambda>path. let (s, r) = handle_create_dir s path in Done ((s, page), no_value r))
     else if m = m_delete_file
     then run_bind (request_path page) (\<lambda>path. let (s, r) = handle_delete_file s path in Done ((s, page), no_value r))
     else if m = m_delete_dir
     then run_bind (request_path page) (\<lambda>path. let (s, r) = handle_delete_dir s path in Done ((s, page), no_value r))
     else if m = m_list_dir
     then run_bind (request_path page) (\<lambda>path. let (out, r) = handle_list_dir s path in Done ((s, put_answer out page), value_of r))
     else Done ((s, page), Inl Err_method_not_known))"

section \<open>The client\<close>

text \<open>
  One call through the kernel: the client's page is copied to the server with the first flag,
  and the server's page back with the second, whatever the answer.
\<close>

record link =
  l_fs :: fs
  l_server_page :: "byte list"
  l_client_page :: "byte list"

type_synonym 'a linked = "(link \<times> 'a) run"

definition ipc_call :: "32 word \<Rightarrow> 32 word \<Rightarrow> nat \<Rightarrow> nat \<Rightarrow> nat \<Rightarrow> link \<Rightarrow> (ipc_error + nat) linked" where
  "ipc_call m flags arg0 arg1 arg2 l = (let mf = m OR flags in
     run_bind (process_request mf arg0 arg1 arg2 (l_fs l, if send_comm_data mf then l_client_page l else l_server_page l))
       (\<lambda>((s, page), r). Done (\<lparr>l_fs = s, l_server_page = page,
          l_client_page = (if recv_comm_data mf then page else l_client_page l)\<rparr>, r)))"

definition write_request :: "(mpack_writer \<Rightarrow> mpack_writer) \<Rightarrow> link \<Rightarrow> link" where
  "write_request f l = l\<lparr>l_client_page := put_page (mw_bytes (f (mw_init page_size))) (l_client_page l)\<rparr>"

definition write_path :: "string \<Rightarrow> link \<Rightarrow> link" where
  "write_path path = write_request (\<lambda>w. mw_cstr w (Some path))"

definition client_open :: "string \<Rightarrow> nat \<Rightarrow> link \<Rightarrow> (ipc_error + nat) linked" where
  "client_open path flags l = ipc_call m_open 1 flags 0 0 (write_path path l)"

definition client_read :: "nat \<Rightarrow> nat \<Rightarrow> nat \<Rightarrow> link \<Rightarrow> (ipc_error + nat) linked" where
  "client_read h offset len l = ipc_call m_read 2 h offset len l"

definition client_write :: "nat \<Rightarrow> nat \<Rightarrow> byte list \<Rightarrow> link \<Rightarrow> (ipc_error + nat) linked" where
  "client_write h offset bs l = ipc_call m_write 1 h offset 0 (write_request (\<lambda>w. mw_bin w bs) l)"

definition client_close :: "nat \<Rightarrow> link \<Rightarrow> (ipc_error + nat) linked" where
  "client_close h l = ipc_call m_close 0 h 0 0 l"

definition client_create_file :: "string \<Rightarrow> link \<Rightarrow> (ipc_error + nat) linked" where
  "client_create_file path l = ipc_call m_create_file 1 0 0 0 (write_path path l)"

definition client_create_dir :: "string \<Rightarrow> link \<Rightarrow> (ipc_error + nat) linked" where
  "client_create_dir path l = ipc_call m_create_dir 1 0 0 0 (write_path path l)"

definition client_delete_file :: "string \<Rightarrow> link \<Rightarrow> (ipc_error + nat) linked" where
  "client_delete_file path l = ipc_call m_delete_file 1 0 0 0 (write_path path l)"

definition client_delete_dir :: "string \<Rightarrow> link \<Rightarrow> (ipc_error + nat) linked" where
  "client_delete_dir path l = ipc_call m_delete_dir 1 0 0 0 (write_path path l)"

definition client_list_dir :: "string \<Rightarrow> link \<Rightarrow> (ipc_error + nat) linked" where
  "client_list_dir path l = ipc_call m_list_dir 3 0 0 0 (write_path path l)"

section \<open>Files\<close>

datatype file_mode = M_read | M_write | M_append

record ou_file =
  f_path :: string
  f_mode :: file_mode
  f_opened :: bool
  f_handle :: nat
  f_write_offset :: nat

definition file_new :: "string \<Rightarrow> file_mode \<Rightarrow> ou_file" where
  "file_new path mode = \<lparr>f_path = path, f_mode = mode, f_opened = False, f_handle = 0, f_write_offset = 0\<rparr>"

fun open_flags :: "file_mode \<Rightarrow> nat" where
  "open_flags M_read = 1"
| "open_flags M_write = 14"
| "open_flags M_append = 6"

text \<open>\<open>found\<close>: the name service knows a file system server. \<open>None\<close> is success.\<close>

definition file_open :: "bool \<Rightarrow> ou_file \<Rightarrow> link \<Rightarrow> (ou_file \<times> ipc_error option) linked" where
  "file_open found f l =
     (if \<not> found then Done (l, f, Some Err_pid_not_found)
      else run_bind (client_open (f_path f) (open_flags (f_mode f)) l) (\<lambda>(l, r). case r of
         Inl e \<Rightarrow> Done (l, f, Some e)
       | Inr h \<Rightarrow> Done (l, f\<lparr>f_handle := h, f_opened := True\<rparr>, None)))"

definition file_delete :: "ou_file \<Rightarrow> link \<Rightarrow> unit linked" where
  "file_delete f l = (if f_opened f then run_bind (client_close (f_handle f) l) (\<lambda>(l, _). Done (l, ())) else Done (l, ()))"

text \<open>The data of an answer in the client's page; \<open>None\<close> when it cannot be read.\<close>

definition answer_data :: "link \<Rightarrow> byte list option run" where
  "answer_data l = run_bind (read_bin (mr_new (l_client_page l))) (\<lambda>(r, v). case v of
       None \<Rightarrow> Done None
     | Some (len, bs) \<Rightarrow> if length bs < len then Undefined Ub_view else Done (Some bs))"

definition file_getc :: "ou_file \<Rightarrow> link \<Rightarrow> (ipc_error + byte) linked" where
  "file_getc f l =
     (if \<not> f_opened f then Done (l, Inl (Err_fs Fs_invalid_handle))
      else run_bind (client_read (f_handle f) 0 1 l) (\<lambda>(l, r). case r of
         Inl e \<Rightarrow> Done (l, Inl e)
       | Inr n \<Rightarrow>
          if n = 0 then Done (l, Inl (Err_fs Fs_io_error))
          else run_bind (answer_data l) (\<lambda>d. case d of
             None \<Rightarrow> Done (l, Inl (Err_fs Fs_io_error))
           | Some [] \<Rightarrow> Done (l, Inl (Err_fs Fs_io_error))
           | Some (b # _) \<Rightarrow> Done (l, Inr b))))"

definition file_write :: "ou_file \<Rightarrow> byte list \<Rightarrow> link \<Rightarrow> (ou_file \<times> ipc_error option) linked" where
  "file_write f bs l =
     (if \<not> f_opened f then Done (l, f, Some (Err_fs Fs_invalid_handle))
      else run_bind (client_write (f_handle f) (f_write_offset f) bs l) (\<lambda>(l, r). case r of
         Inl e \<Rightarrow> Done (l, f, Some e)
       | Inr n \<Rightarrow> Done (l, f\<lparr>f_write_offset := sz (f_write_offset f + n)\<rparr>, None)))"

definition chunk_size :: nat where
  "chunk_size = 4000"

text \<open>The loop of \<open>read_all\<close>, with the data so far, within some number of chunks.\<close>

fun read_loop :: "nat \<Rightarrow> nat \<Rightarrow> nat \<Rightarrow> byte list \<Rightarrow> link \<Rightarrow> (byte list \<times> ipc_error option) linked" where
  "read_loop 0 h offset out l = NoFuel"
| "read_loop (Suc fuel) h offset out l =
     run_bind (client_read h offset chunk_size l) (\<lambda>(l, r). case r of
         Inl e \<Rightarrow> Done (l, out, Some e)
       | Inr n \<Rightarrow>
          if n = 0 then Done (l, out, None)
          else run_bind (answer_data l) (\<lambda>d. case d of
             None \<Rightarrow> Done (l, out, Some (Err_fs Fs_io_error))
           | Some bs \<Rightarrow>
              if n < chunk_size then Done (l, out @ bs, None)
              else read_loop fuel h (sz (offset + n)) (out @ bs) l))"

definition file_read_all :: "nat \<Rightarrow> ou_file \<Rightarrow> link \<Rightarrow> (byte list \<times> ipc_error option) linked" where
  "file_read_all fuel f l =
     (if \<not> f_opened f then Done (l, [], Some (Err_fs Fs_invalid_handle)) else read_loop fuel (f_handle f) 0 [] l)"

function write_chunks :: "nat \<Rightarrow> byte list \<Rightarrow> nat \<Rightarrow> link \<Rightarrow> ipc_error option linked" where
  "write_chunks h bs offset l =
     (if offset < length bs
      then let remaining = length bs - offset; n = (if remaining < chunk_size then remaining else chunk_size)
           in run_bind (client_write h offset (take n (drop offset bs)) l) (\<lambda>(l, r). case r of
               Inl e \<Rightarrow> Done (l, Some e)
             | Inr k \<Rightarrow> if k \<noteq> n then Done (l, Some (Err_fs Fs_io_error)) else write_chunks h bs (offset + n) l)
      else Done (l, None))"
  by pat_completeness auto

termination
  by (relation "measure (\<lambda>(h, bs, offset, l). length bs - offset)") (auto simp: chunk_size_def split: if_splits)

declare write_chunks.simps [simp del]

definition file_write_all :: "ou_file \<Rightarrow> byte list \<Rightarrow> link \<Rightarrow> ipc_error option linked" where
  "file_write_all f bs l =
     (if \<not> f_opened f then Done (l, Some (Err_fs Fs_invalid_handle)) else write_chunks (f_handle f) bs 0 l)"

end
