(* ===== verification/FileProps.thy ===== *)
theory FileProps
  imports FileClient
begin

text \<open>
  The properties of files behind the file system service: saving a file and loading it, through
  the client stubs, the message encoding and the server, and what goes wrong with appending,
  reading single characters and writing more than a page.
\<close>

section \<open>Data on a page\<close>

definition enc_bin :: "byte list \<Rightarrow> byte list" where
  "enc_bin s = wbin (of_nat (length s)) @ s"

lemma length_wbin: "length (wbin n) \<le> 5"
  by (simp add: wbin_def)

lemma length_wstr: "length (wstr n) \<le> 5"
  by (simp add: wstr_def)

lemma mw_bin_init:
  assumes "length bs + 5 \<le> page_size"
  shows "mw_bytes (mw_bin (mw_init page_size) bs) = enc_bin bs"
proof -
  let ?h = "pack_blob MT_BIN (of_nat (length bs))"
  have t: "wtoken ?h = wbin (of_nat (length bs))" "wtoken (pack_chunk bs) = bs"
    by (simp_all add: wtoken_def pack_blob_def pack_chunk_def blank_token_def)
  have room: "length (wbin (of_nat (length bs))) + length bs \<le> page_size"
    using length_wbin [of "of_nat (length bs)"] assms by linarith
  have "mw_token (mw_init page_size) ?h = (mw_init page_size)\<lparr>mw_bytes := wbin (of_nat (length bs))\<rparr>"
    using room mw_token_fits [of "mw_init page_size" ?h] by (simp add: t mw_init_def)
  moreover have "mw_token ((mw_init page_size)\<lparr>mw_bytes := wbin (of_nat (length bs))\<rparr>) (pack_chunk bs) =
      (mw_init page_size)\<lparr>mw_bytes := enc_bin bs\<rparr>"
    using room mw_token_fits [of "(mw_init page_size)\<lparr>mw_bytes := wbin (of_nat (length bs))\<rparr>" "pack_chunk bs"]
    by (simp add: t enc_bin_def mw_init_def)
  ultimately show ?thesis by (simp add: mw_bin_def mw_init_def)
qed

lemma mw_path_init:
  assumes "length path + 5 \<le> page_size" and "nul \<notin> set path"
  shows "mw_bytes (mw_cstr (mw_init page_size) (Some path)) = enc_str (bytes_of path)"
proof -
  have "length (enc_str (bytes_of path)) \<le> page_size"
    using length_wstr [of "of_nat (length path)"] assms(1) by (simp add: enc_str_def)
  then show ?thesis using assms(2) mw_str_fits [of "mw_init page_size" "bytes_of path"] by (simp add: mw_cstr_def mw_init_def)
qed

lemma read_bin_back:
  "s \<noteq> [] \<Longrightarrow> length s < 2 ^ 32 \<Longrightarrow> read_bin (mr_new (enc_bin s @ rest)) = Done (mr_new rest, Some (length s, s))"
  unfolding read_bin_def enc_bin_def by (rule read_blob_back) (simp_all add: decode_bin is_blob_def)

lemma path_bytes: "map char_of_byte (bytes_of path) = path"
  by (simp add: bytes_of_def char_of_byte_of comp_def map_idI)

lemma request_path_back:
  assumes "path \<noteq> []" "nul \<notin> set path" "length path \<le> max_path_length"
  shows "request_path (l_client_page (write_path path l)) = Done path"
proof -
  have "mw_bytes (mw_cstr (mw_init page_size) (Some path)) = enc_str (bytes_of path)"
    using assms by (intro mw_path_init) (simp_all add: page_size_def max_path_length_def)
  moreover have "bytes_of path \<noteq> []" using assms(1) by (simp add: bytes_of_def)
  ultimately show ?thesis using assms
    by (simp add: request_path_def write_path_def write_request_def put_page_def read_string_back path_bytes max_path_length_def)
qed

lemma request_data_back:
  assumes "bs \<noteq> []" "length bs \<le> chunk_size"
  shows "request_data (l_client_page (write_request (\<lambda>w. mw_bin w bs) l)) = Done bs"
proof -
  have "mw_bytes (mw_bin (mw_init page_size) bs) = enc_bin bs"
    using assms by (intro mw_bin_init) (simp add: page_size_def chunk_size_def)
  then show ?thesis using assms by (simp add: request_data_def write_request_def put_page_def read_bin_back chunk_size_def)
qed

section \<open>An open file\<close>

text \<open>The handle \<open>h\<close> is open on the file at the path \<open>ps\<close>, which holds \<open>d\<close>.\<close>

definition file_at :: "fs \<Rightarrow> nat \<Rightarrow> nat \<Rightarrow> string list \<Rightarrow> byte list \<Rightarrow> bool" where
  "file_at s h i ps d \<longleftrightarrow> file_of s h = Inr i \<and> in_data (inode_at s i) = d \<and>
     (\<exists>n. walk s 0 ps = Some n \<and> find_inode s n = Some i)"

definition put_data :: "nat \<Rightarrow> byte list \<Rightarrow> fs \<Rightarrow> fs" where
  "put_data i d s = set_inode i (\<lambda>x. x\<lparr>in_data := d, in_modified := 0\<rparr>) s"

lemma put_data_twice: "i < length (fs_inodes s) \<Longrightarrow> put_data i e (put_data i d s) = put_data i e s"
  by (simp add: put_data_def set_inode_def)

lemma file_at_find: "file_at s h i ps d \<Longrightarrow> i < length (fs_inodes s) \<and> in_type (inode_at s i) = N_file"
  using file_of_inode find_inode_Some unfolding file_at_def by blast

lemma put_data_at:
  assumes inv: "fs_inv s" and f: "file_at s h i ps d"
  shows "fs_inv (put_data i e s)" and "file_at (put_data i e s) h i ps e" and "fs_abs (put_data i e s) = (fs_abs s)(ps \<mapsto> E_file e)"
proof -
  let ?g = "\<lambda>x. x\<lparr>in_data := e, in_modified := 0\<rparr>"
  have t: "tree_ok s" "names_ok s" using inv by (simp_all add: fs_inv_def)
  obtain n where n: "file_of s h = Inr i" "walk s 0 ps = Some n" "find_inode s n = Some i" using f by (auto simp: file_at_def)
  have ty: "in_type (inode_at s i) = N_file" using file_at_find [OF f] by blast
  note tree = set_data_tree [OF t(1) n(3), of ?g, simplified, folded put_data_def]
  show "fs_inv (put_data i e s)" using same_tree_inv [OF tree(1)] t by (simp add: fs_inv_def)
  have at: "walk s 0 qs = Some n \<longleftrightarrow> qs = ps" for qs using walk_inj [OF t(1) _ n(2)] n(2) by blast
  show "fs_abs (put_data i e s) = (fs_abs s)(ps \<mapsto> E_file e)"
    unfolding tree(2) at by (rule ext) (simp add: entry_of_def ty)
  have "find_inode (put_data i e s) n = Some i" using n(3) by (simp add: find_inode_def put_data_def set_inode_def find_num_update)
  moreover have "walk (put_data i e s) 0 ps = Some n" using same_tree_walk [OF tree(1) t(1)] n(2) by simp
  ultimately show "file_at (put_data i e s) h i ps e"
    using file_of_set_data [OF n(1), of ?g, simplified, folded put_data_def] by (simp add: file_at_def)
qed

section \<open>Calls\<close>

lemmas method_defs = m_open_def m_read_def m_write_def m_close_def m_create_file_def m_create_dir_def
  m_delete_file_def m_delete_dir_def m_list_dir_def

lemma call_flags [simp]:
  "ipc_method (m_open OR 1) = m_open" "send_comm_data (m_open OR 1)" "\<not> recv_comm_data (m_open OR 1)"
  "ipc_method (m_read OR 2) = m_read" "\<not> send_comm_data (m_read OR 2)" "recv_comm_data (m_read OR 2)"
  "ipc_method (m_write OR 1) = m_write" "send_comm_data (m_write OR 1)" "\<not> recv_comm_data (m_write OR 1)"
  "ipc_method (m_close OR 0) = m_close" "\<not> send_comm_data (m_close OR 0)" "\<not> recv_comm_data (m_close OR 0)"
  by (simp_all add: method_defs ipc_method_def send_comm_data_def recv_comm_data_def ipc_flags_def)

lemma method_distinct [simp]:
  "m_read \<noteq> m_open" "m_write \<noteq> m_open" "m_write \<noteq> m_read" "m_close \<noteq> m_open" "m_close \<noteq> m_read" "m_close \<noteq> m_write"
  by (simp_all add: method_defs)

lemma client_write_at:
  assumes f: "file_at (l_fs l) h i ps d" and bs: "bs \<noteq> []" "length bs \<le> chunk_size"
    and len: "offset + length bs < size_mod" "length d < size_mod"
  shows "\<exists>l'. client_write h offset bs l = Done (l', Inr (length bs)) \<and> l_fs l' = put_data i (overwrite offset bs d) (l_fs l)"
proof -
  have "file_of (l_fs l) h = Inr i" "in_data (inode_at (l_fs l) i) = d" using f by (simp_all add: file_at_def)
  then have w: "handle_write (l_fs l) h offset bs = Done (put_data i (overwrite offset bs d) (l_fs l), Inr (length bs))"
    using handle_write_overwrites [of "l_fs l" h i offset bs] len by (simp add: put_data_def)
  have "l_fs (write_request (\<lambda>w. mw_bin w bs) l) = l_fs l" by (simp add: write_request_def)
  then show ?thesis using w request_data_back [OF bs, of l]
    by (simp add: client_write_def ipc_call_def process_request_def Let_def value_of_def)
qed

lemma client_read_at:
  assumes f: "file_at (l_fs l) h i ps d" and len: "n \<le> chunk_size" "0 < n"
  shows "\<exists>l'. client_read h offset n l = Done (l', Inr (length (take n (drop offset d)))) \<and> l_fs l' = l_fs l \<and>
    (offset < length d \<longrightarrow> answer_data l' = Done (Some (take n (drop offset d))))"
proof (cases "offset < length d")
  case False
  then show ?thesis using f
    by (simp add: client_read_def ipc_call_def process_request_def Let_def value_of_def handle_read_def file_at_def)
next
  case True
  let ?bs = "take n (drop offset d)"
  have bs: "?bs \<noteq> []" "length ?bs \<le> chunk_size" using True len by auto
  let ?m = "if n < length d - offset then n else length d - offset"
  have cut: "take ?m (drop offset d) = ?bs" "?m = length ?bs" by auto
  have enc: "mw_bytes (mw_bin (mw_init page_size) ?bs) = enc_bin ?bs"
    using bs by (intro mw_bin_init) (simp add: page_size_def chunk_size_def)
  have r: "handle_read (l_fs l) h offset n = (Some (enc_bin ?bs), Inr (length ?bs))"
  proof -
    have "handle_read (l_fs l) h offset n = (Some (mw_bytes (mw_bin (mw_init page_size) (take ?m (drop offset d)))), Inr ?m)"
      using f True by (simp add: handle_read_def file_at_def Let_def split del: if_split)
    then show ?thesis unfolding cut(1) enc unfolding cut(2) .
  qed
  have "read_bin (mr_new (put_page (enc_bin ?bs) page)) = Done (mr_new (drop (length (enc_bin ?bs)) page), Some (length ?bs, ?bs))" for page
    unfolding put_page_def using bs by (intro read_bin_back) (simp_all add: chunk_size_def)
  then show ?thesis using r True
    by (simp add: client_read_def ipc_call_def process_request_def Let_def value_of_def put_answer_def answer_data_def)
qed

section \<open>The loops of a file\<close>

lemma overwrite_append:
  "overwrite off (xs @ ys) d = overwrite (off + length xs) ys (overwrite off xs d)"
proof (rule nth_equalityI)
  show "length (overwrite off (xs @ ys) d) = length (overwrite (off + length xs) ys (overwrite off xs d))"
    by (simp add: length_overwrite)
next
  fix j
  assume "j < length (overwrite off (xs @ ys) d)"
  then show "overwrite off (xs @ ys) d ! j = overwrite (off + length xs) ys (overwrite off xs d) ! j"
    by (auto simp: overwrite_def grow_data_def Let_def nth_append length_overwrite)
qed

lemma write_chunks_at:
  "file_at (l_fs l) h i ps d \<Longrightarrow> fs_inv (l_fs l) \<Longrightarrow> length bs < size_mod \<Longrightarrow> length d < size_mod \<Longrightarrow> offset < length bs \<Longrightarrow>
   \<exists>l'. write_chunks h bs offset l = Done (l', None) \<and> l_fs l' = put_data i (overwrite offset (drop offset bs) d) (l_fs l)"
proof (induction "length bs - offset" arbitrary: offset d l rule: less_induct)
  case less
  let ?n = "if length bs - offset < chunk_size then length bs - offset else chunk_size"
  let ?c = "take ?n (drop offset bs)"
  have n: "?n \<le> length bs - offset" "0 < ?n" using less.prems by (auto simp: chunk_size_def)
  have c: "?c \<noteq> []" "length ?c = ?n" "?n \<le> chunk_size" using n less.prems by auto
  have len: "offset + length ?c < size_mod" using c(2) n less.prems by simp
  obtain l1 where l1: "client_write h offset ?c l = Done (l1, Inr ?n)" "l_fs l1 = put_data i (overwrite offset ?c d) (l_fs l)"
    using client_write_at [OF less.prems(1) c(1) _ len less.prems(4)] c(2,3) by auto
  have step: "write_chunks h bs offset l = write_chunks h bs (offset + ?n) l1"
    using less.prems(5) l1(1) by (subst write_chunks.simps) (simp add: Let_def split del: if_split)
  show ?case
  proof (cases "offset + ?n < length bs")
    case False
    then have "drop offset bs = ?c" by simp
    moreover have "write_chunks h bs (offset + ?n) l1 = Done (l1, None)" using False by (subst write_chunks.simps) simp
    ultimately show ?thesis using step l1(2) by metis
  next
    case True
    let ?d = "overwrite offset ?c d"
    note at = put_data_at [OF less.prems(2,1), of ?d]
    have "length ?d < size_mod" using less.prems(4) len by (simp add: length_overwrite split del: if_split)
    moreover have "file_at (l_fs l1) h i ps ?d" "fs_inv (l_fs l1)" using at(1,2) by (simp_all add: l1(2))
    moreover have "length bs - (offset + ?n) < length bs - offset" using n True by linarith
    ultimately obtain l2 where l2: "write_chunks h bs (offset + ?n) l1 = Done (l2, None)"
        "l_fs l2 = put_data i (overwrite (offset + ?n) (drop (offset + ?n) bs) ?d) (l_fs l1)"
      using less.hyps [of "offset + ?n" l1 ?d] less.prems(3) True by blast
    have "drop offset bs = ?c @ drop ?n (drop offset bs)" by (rule append_take_drop_id [symmetric])
    then have "drop offset bs = ?c @ drop (offset + ?n) bs" by (simp only: drop_drop add.commute)
    then have "overwrite (offset + ?n) (drop (offset + ?n) bs) ?d = overwrite offset (drop offset bs) d"
      using overwrite_append [of offset ?c "drop (offset + ?n) bs" d] by (simp only: c(2))
    moreover have "i < length (fs_inodes (l_fs l))" using file_at_find [OF less.prems(1)] by blast
    ultimately show ?thesis using step l2 by (simp add: l1(2) put_data_twice split del: if_split)
  qed
qed

lemma read_loop_at:
  "file_at (l_fs l) h i ps d \<Longrightarrow> length d < size_mod \<Longrightarrow> offset \<le> length d \<Longrightarrow> (length d - offset) div chunk_size < fuel \<Longrightarrow>
   \<exists>l'. read_loop fuel h offset out l = Done (l', out @ drop offset d, None) \<and> l_fs l' = l_fs l"
proof (induction fuel arbitrary: offset out l)
  case (Suc fuel)
  let ?c = "take chunk_size (drop offset d)"
  obtain l1 where l1: "client_read h offset chunk_size l = Done (l1, Inr (length ?c))" "l_fs l1 = l_fs l"
      "offset < length d \<Longrightarrow> answer_data l1 = Done (Some ?c)"
    using client_read_at [OF Suc.prems(1), of chunk_size offset] by (auto simp: chunk_size_def)
  show ?case
  proof (cases "offset < length d")
    case False
    then show ?thesis using l1 by simp
  next
    case True
    then have ne: "0 < length ?c" by (simp add: chunk_size_def)
    show ?thesis
    proof (cases "length d - offset < chunk_size")
      case short: True
      then have "?c = drop offset d" by simp
      then show ?thesis using l1 True short by simp
    next
      case False
      then have c: "length ?c = chunk_size" by simp
      have "(length d - offset) div chunk_size = Suc ((length d - offset - chunk_size) div chunk_size)"
        using False by (intro le_div_geq) (simp_all add: chunk_size_def)
      then have "(length d - (offset + chunk_size)) div chunk_size < fuel" using Suc.prems(4) by simp
      moreover have "offset + chunk_size \<le> length d" using False True by linarith
      moreover have "file_at (l_fs l1) h i ps d" using Suc.prems(1) l1(2) by simp
      ultimately obtain l2 where "read_loop fuel h (offset + chunk_size) (out @ ?c) l1 =
          Done (l2, (out @ ?c) @ drop (offset + chunk_size) d, None)" "l_fs l2 = l_fs l1"
        using Suc.IH [of l1 "offset + chunk_size" "out @ ?c"] Suc.prems(2) by blast
      moreover have "sz (offset + chunk_size) = offset + chunk_size" using False True Suc.prems(2) by (intro sz_small) linarith
      moreover have "?c @ drop (offset + chunk_size) d = drop offset d"
        using append_take_drop_id [of chunk_size "drop offset d"] by (simp only: drop_drop add.commute)
      ultimately show ?thesis using l1 True c by (simp add: chunk_size_def)
    qed
  qed
qed simp

section \<open>Opening\<close>

lemma walk_nodes:
  assumes "\<And>m. node s' m = node s m"
  shows "walk s' n ps = walk s n ps"
proof (induction ps arbitrary: n)
  case (Cons p ps)
  have "child_named s' p cs = child_named s p cs" for cs by (rule child_named_cong) (simp add: assms)
  then show ?case by (simp add: walk_Cons assms Cons.IH split: option.split)
qed simp

lemma fs_abs_nodes:
  assumes "\<And>m. node s' m = node s m"
  shows "fs_abs s' = fs_abs s"
proof
  fix ps
  have "walk s' 0 ps = walk s 0 ps" by (rule walk_nodes [OF assms])
  then show "fs_abs s' ps = fs_abs s ps" by (simp add: fs_abs_def assms split: option.split)
qed

lemma fs_inv_nodes: "(\<And>m. node s' m = node s m) \<Longrightarrow> fs_next_inode s' = fs_next_inode s \<Longrightarrow> fs_inv s' = fs_inv s"
  by (simp add: fs_inv_def tree_ok_def names_ok_def node_ok_def name_of_def [abs_def])

text \<open>What the handles need so that one more can be opened.\<close>

definition can_open :: "fs \<Rightarrow> bool" where
  "can_open s \<longleftrightarrow> handles_ok s \<and> handle_free s \<and> fs_next_handle s + 1 < size_mod"

lemma open_handle_at:
  assumes inv: "fs_inv s" and co: "can_open s" and w: "walk s 0 ps = Some n" "node s n = Some x" "in_type x = N_file"
  shows "\<exists>s' i. open_handle s n flags = (s', Inr (fs_next_handle s)) \<and> fs_inv s' \<and> handles_ok s' \<and>
    fs_abs s' = fs_abs s \<and> file_at s' (fs_next_handle s) i ps (in_data x) \<and>
    fs_next_inode s' = fs_next_inode s \<and> fs_next_handle s' = fs_next_handle s + 1"
proof -
  obtain hs k where o: "open_handle s n flags = (s\<lparr>fs_handles := hs, fs_next_handle := fs_next_handle s + 1\<rparr>, Inr (fs_next_handle s))"
      "find_open hs 0 (fs_next_handle s) = Some k" "fh_inode (hs ! k) = n" "\<forall>h\<in>set hs. fh_open h \<longrightarrow> fh_id h < fs_next_handle s + 1"
    using open_handle_new [of s n flags] co unfolding can_open_def by blast
  obtain i where i: "find_inode s n = Some i" "inode_at s i = x" using node_find [OF w(2)] by blast
  let ?s = "s\<lparr>fs_handles := hs, fs_next_handle := fs_next_handle s + 1\<rparr>"
  have nodes: "node ?s m = node s m" for m by simp
  have at: "inode_at ?s i = x" "find_inode ?s n = Some i" using i by (simp_all add: inode_at_def find_inode_def)
  have "file_at ?s (fs_next_handle s) i ps (in_data x)"
    using at o w walk_nodes [OF nodes] by (simp add: file_at_def file_of_def find_handle_def)
  moreover have "fs_inv ?s" using fs_inv_nodes [OF nodes] inv by simp
  moreover have "handles_ok ?s" using o(4) by (simp add: handles_ok_def)
  ultimately show ?thesis using o(1) fs_abs_nodes [OF nodes] by auto
qed

text \<open>Opening for writing, on a path that is not a directory and below one that is.\<close>

lemma handle_open_write:
  assumes inv: "fs_inv s" and co: "can_open s" and nx: "fs_next_inode s + 1 < size_mod"
    and len: "length path \<le> max_path_length"
    and dir: "fs_abs s (butlast (split_path path)) = Some E_dir" "fs_abs s (split_path path) \<noteq> Some E_dir"
  shows "\<exists>s' i. handle_open s path (of_nat (open_flags M_write)) = (s', Inr (fs_next_handle s)) \<and> fs_inv s' \<and> handles_ok s' \<and>
    fs_abs s' = (fs_abs s)(split_path path \<mapsto> E_file []) \<and> file_at s' (fs_next_handle s) i (split_path path) [] \<and>
    fs_next_inode s' \<le> fs_next_inode s + 1 \<and> fs_next_handle s' = fs_next_handle s + 1"
proof -
  let ?ps = "split_path path" and ?fl = "of_nat (open_flags M_write) :: 32 word"
  have t: "tree_ok s" "names_ok s" using inv by (simp_all add: fs_inv_def)
  have fl: "?fl AND open_create \<noteq> 0" "?fl AND open_truncate \<noteq> 0" by (simp_all add: open_create_def open_truncate_def)
  note res = resolve_path_walk [OF len, of s]
  have parts: "list_all part_ok ?ps" using split_path_parts by (simp add: list_all_iff)
  show ?thesis
  proof (cases "walk s 0 ?ps")
    case (Some n)
    obtain r where r: "node s 0 = Some r" using tree_root [OF t(1)] by blast
    obtain x where x: "node s n = Some x" using walk_node [OF t(1) r Some] by blast
    obtain k where k: "find_inode s n = Some k" "inode_at s k = x" using node_find [OF x] by blast
    have ty: "in_type x = N_file" using dir(2) Some x unfolding fs_abs_dir by (cases "in_type x") auto
    let ?g = "\<lambda>i. i\<lparr>in_data := [], in_modified := 0\<rparr>"
    let ?s = "set_inode k ?g s"
    note tree = set_data_tree [OF t(1) k(1), of ?g, simplified]
    have at: "walk s 0 qs = Some n \<longleftrightarrow> qs = ?ps" for qs using walk_inj [OF t(1) _ Some] Some by blast
    have a: "fs_abs ?s = (fs_abs s)(?ps \<mapsto> E_file [])"
      unfolding tree(2) at by (rule ext) (simp add: entry_of_def ty k(2))
    have i: "fs_inv ?s" using same_tree_inv [OF tree(1)] t by (simp add: fs_inv_def)
    have w: "walk ?s 0 ?ps = Some n" using same_tree_walk [OF tree(1) t(1)] Some by simp
    have nd: "node ?s n = Some (?g x)" using node_set_inode [OF k(1), of ?g n] x by simp
    have "handles_ok ?s = handles_ok s" "handle_free ?s = handle_free s" "fs_next_handle ?s = fs_next_handle s" "fs_next_inode ?s = fs_next_inode s"
      by (simp_all add: handles_ok_def handle_free_def set_inode_def)
    note same = this
    have c: "can_open ?s" using co by (simp add: can_open_def same)
    have "handle_open s path ?fl = open_handle ?s n ?fl"
      using res Some k ty fl by (simp add: handle_open_def truncate_node_def del: open_flags.simps)
    moreover obtain s' j where "open_handle ?s n ?fl = (s', Inr (fs_next_handle s))" "fs_inv s'" "handles_ok s'"
        "fs_abs s' = (fs_abs s)(?ps \<mapsto> E_file [])" "file_at s' (fs_next_handle s) j ?ps []"
        "fs_next_inode s' = fs_next_inode s" "fs_next_handle s' = fs_next_handle s + 1"
      using open_handle_at [OF i c w nd, of ?fl] ty unfolding a same by auto
    ultimately show ?thesis by (intro exI [of _ s'] exI [of _ j]) simp
  next
    case None
    then have ne: "?ps \<noteq> []" by auto
    have plen: "length (parent_path ?ps) \<le> max_path_length" using parent_path_length [OF ne] len by linarith
    obtain pn d where pn: "walk s 0 (butlast ?ps) = Some pn" "node s pn = Some d" "in_type d = N_directory"
      using dir(1) unfolding fs_abs_dir by blast
    obtain s1 where s1: "create_node s ?ps N_file = (s1, Inr (fs_next_inode s))" "added s pn (fs_next_inode s) N_file (last ?ps) s1"
        "fs_next_inode s1 = fs_next_inode s + 1" "fs_handles s1 = fs_handles s" "fs_next_handle s1 = fs_next_handle s"
      using create_node_added [OF parts plen t(1) nx pn] by blast
    have n1: "fs_next_inode s < fs_next_inode s1" "fs_next_inode s \<le> fs_next_inode s1" using s1(3) by simp_all
    note a = added_abs [OF t(1) s1(2) n1 pn ne None]
    have i: "fs_inv s1" using added_tree [OF t(1) s1(2) n1] added_names [OF t(1) s1(2) pn(2) a(2) t(2)] by (simp add: fs_inv_def)
    have c: "can_open s1" using co by (simp add: can_open_def handles_ok_def handle_free_def s1)
    have wn: "walk s1 0 ?ps = Some (fs_next_inode s)" by (rule added_walk_new [OF t(1) s1(2) n1 pn ne None])
    have nd: "node s1 (fs_next_inode s) = Some (new_inode (fs_next_inode s) N_file (last ?ps) pn)"
      using s1(2) by (auto simp: added_def)
    have "handle_open s path ?fl = open_handle s1 (fs_next_inode s) ?fl"
      using res None ne fl s1(1) by (simp add: handle_open_def Let_def del: open_flags.simps)
    moreover have "in_type (new_inode (fs_next_inode s) N_file (last ?ps) pn) = N_file" "in_data (new_inode (fs_next_inode s) N_file (last ?ps) pn) = []"
      by (simp_all add: new_inode_def)
    moreover obtain s' j where "open_handle s1 (fs_next_inode s) ?fl = (s', Inr (fs_next_handle s))" "fs_inv s'" "handles_ok s'"
        "fs_abs s' = (fs_abs s)(?ps \<mapsto> E_file [])" "file_at s' (fs_next_handle s) j ?ps []"
        "fs_next_inode s' = fs_next_inode s + 1" "fs_next_handle s' = fs_next_handle s + 1"
      using open_handle_at [OF i c wn nd, of ?fl] a(1) s1(3,5) by (auto simp: new_inode_def)
    ultimately show ?thesis by (intro exI [of _ s'] exI [of _ j]) simp
  qed
qed

text \<open>Opening an existing file for reading or appending.\<close>

lemma handle_open_kept:
  assumes inv: "fs_inv s" and co: "can_open s" and len: "length path \<le> max_path_length"
    and d: "fs_abs s (split_path path) = Some (E_file d)" and m: "m \<noteq> M_write"
  shows "\<exists>s' i. handle_open s path (of_nat (open_flags m)) = (s', Inr (fs_next_handle s)) \<and> fs_inv s' \<and> handles_ok s' \<and>
    fs_abs s' = fs_abs s \<and> file_at s' (fs_next_handle s) i (split_path path) d \<and>
    fs_next_inode s' = fs_next_inode s \<and> fs_next_handle s' = fs_next_handle s + 1"
proof -
  let ?fl = "of_nat (open_flags m) :: 32 word"
  obtain n x where x: "walk s 0 (split_path path) = Some n" "node s n = Some x" "in_type x \<noteq> N_directory" "in_data x = d"
    using d unfolding fs_abs_file by blast
  have ty: "in_type x = N_file" using x(3) by (cases "in_type x") auto
  have "?fl AND open_truncate = 0" using m by (cases m) (simp_all add: open_truncate_def)
  then have "truncate_node s n ?fl = s" by (simp add: truncate_node_def split: option.split del: open_flags.simps)
  then have "handle_open s path ?fl = open_handle s n ?fl"
    using resolve_path_walk [OF len, of s] x(1) by (simp add: handle_open_def del: open_flags.simps)
  then show ?thesis using open_handle_at [OF inv co x(1,2) ty, of ?fl] x(4) by (simp del: open_flags.simps)
qed

text \<open>Closing a handle.\<close>

lemma handle_close_at:
  assumes inv: "fs_inv s" and ok: "handles_ok s" and f: "file_at s h i ps d"
  shows "\<exists>s'. handle_close s h = (s', Inr True) \<and> fs_inv s' \<and> handles_ok s' \<and> handle_free s' \<and> fs_abs s' = fs_abs s \<and>
    fs_next_inode s' = fs_next_inode s \<and> fs_next_handle s' = fs_next_handle s"
proof -
  obtain k where k: "find_handle s h = Some k" using f by (auto simp: file_at_def file_of_def split: option.splits)
  then have kl: "k < length (fs_handles s)" using find_open_Some [of "fs_handles s" 0 h k] by (simp add: find_handle_def)
  let ?s = "set_handle k (\<lambda>x. x\<lparr>fh_open := False\<rparr>) s"
  have nodes: "node ?s m = node s m" for m by simp
  have nx: "fs_next_inode ?s = fs_next_inode s" "fs_next_handle ?s = fs_next_handle s" by (simp_all add: set_handle_def)
  have "handles_ok ?s" using ok kl
    by (auto simp: handles_ok_def set_handle_def dest!: set_update_subset_insert [THEN subsetD])
  moreover have "handle_free ?s"
  proof -
    have "(fs_handles s ! k)\<lparr>fh_open := False\<rparr> \<in> set (fs_handles ?s)" using kl by (simp add: set_handle_def set_update_memI)
    then show ?thesis unfolding handle_free_def by (intro disjI2 bexI [of _ "(fs_handles s ! k)\<lparr>fh_open := False\<rparr>"]) simp_all
  qed
  ultimately show ?thesis using k nx fs_inv_nodes [OF nodes] fs_abs_nodes [OF nodes] inv by (simp add: handle_close_def)
qed

section \<open>Saving and loading\<close>

text \<open>What a program does to save a text and to load it.\<close>

definition file_save :: "string \<Rightarrow> byte list \<Rightarrow> link \<Rightarrow> (ipc_error option \<times> ipc_error option) linked" where
  "file_save path bs l =
     run_bind (file_open True (file_new path M_write) l) (\<lambda>(l, f, e1).
     run_bind (file_write_all f bs l) (\<lambda>(l, e2).
     run_bind (file_delete f l) (\<lambda>(l, _). Done (l, e1, e2))))"

definition file_load :: "nat \<Rightarrow> string \<Rightarrow> link \<Rightarrow> (ipc_error option \<times> byte list \<times> ipc_error option) linked" where
  "file_load fuel path l =
     run_bind (file_open True (file_new path M_read) l) (\<lambda>(l, f, e1).
     run_bind (file_read_all fuel f l) (\<lambda>(l, bs, e2).
     run_bind (file_delete f l) (\<lambda>(l, _). Done (l, e1, bs, e2))))"

text \<open>The server can serve one more file: an intact tree, a free handle, numbers left.\<close>

definition server_ready :: "fs \<Rightarrow> bool" where
  "server_ready s \<longleftrightarrow> fs_inv s \<and> can_open s \<and> fs_next_inode s + 1 < size_mod"

definition path_ok :: "string \<Rightarrow> bool" where
  "path_ok path \<longleftrightarrow> path \<noteq> [] \<and> nul \<notin> set path \<and> length path \<le> max_path_length"

lemma client_open_of:
  assumes p: "path_ok path" and o: "handle_open (l_fs l) path (of_nat fl) = (s', Inr h)"
  shows "\<exists>l'. client_open path fl l = Done (l', Inr h) \<and> l_fs l' = s'"
proof -
  have "l_fs (write_path path l) = l_fs l" by (simp add: write_path_def write_request_def)
  then show ?thesis using o request_path_back [of path l] p
    by (simp add: client_open_def ipc_call_def process_request_def Let_def value_of_def path_ok_def)
qed

lemma file_delete_at:
  assumes inv: "fs_inv (l_fs l)" and ok: "handles_ok (l_fs l)" and f: "file_at (l_fs l) (f_handle f) i ps d" and o: "f_opened f"
  shows "\<exists>l'. file_delete f l = Done (l', ()) \<and> fs_inv (l_fs l') \<and> handles_ok (l_fs l') \<and> handle_free (l_fs l') \<and>
    fs_abs (l_fs l') = fs_abs (l_fs l) \<and> fs_next_inode (l_fs l') = fs_next_inode (l_fs l) \<and> fs_next_handle (l_fs l') = fs_next_handle (l_fs l)"
proof -
  obtain s' where "handle_close (l_fs l) (f_handle f) = (s', Inr True)" "fs_inv s' \<and> handles_ok s' \<and> handle_free s' \<and> fs_abs s' = fs_abs (l_fs l) \<and>
    fs_next_inode s' = fs_next_inode (l_fs l) \<and> fs_next_handle s' = fs_next_handle (l_fs l)"
    using handle_close_at [OF inv ok f] by blast
  then show ?thesis using o
    by (simp add: file_delete_def client_close_def ipc_call_def process_request_def Let_def no_value_def call_flags [simplified])
qed

lemma file_save_run:
  assumes r: "server_ready (l_fs l)" and p: "path_ok path" and len: "length bs < size_mod"
    and dir: "fs_abs (l_fs l) (butlast (split_path path)) = Some E_dir" "fs_abs (l_fs l) (split_path path) \<noteq> Some E_dir"
  shows "\<exists>l'. file_save path bs l = Done (l', None, None) \<and> fs_abs (l_fs l') = (fs_abs (l_fs l))(split_path path \<mapsto> E_file bs) \<and>
    fs_inv (l_fs l') \<and> handles_ok (l_fs l') \<and> handle_free (l_fs l') \<and>
    fs_next_inode (l_fs l') \<le> fs_next_inode (l_fs l) + 1 \<and> fs_next_handle (l_fs l') = fs_next_handle (l_fs l) + 1"
proof -
  let ?s = "l_fs l" and ?ps = "split_path path" and ?h = "fs_next_handle (l_fs l)"
  have inv: "fs_inv ?s" "can_open ?s" "fs_next_inode ?s + 1 < size_mod" using r by (simp_all add: server_ready_def)
  have plen: "length path \<le> max_path_length" using p by (simp add: path_ok_def)
  obtain s1 i where s1: "handle_open ?s path (of_nat (open_flags M_write)) = (s1, Inr ?h)" "fs_inv s1" "handles_ok s1"
      "fs_abs s1 = (fs_abs ?s)(?ps \<mapsto> E_file [])" "file_at s1 ?h i ?ps []"
      "fs_next_inode s1 \<le> fs_next_inode ?s + 1" "fs_next_handle s1 = ?h + 1"
    using handle_open_write [OF inv plen dir] by blast
  obtain l1 where l1: "client_open path (open_flags M_write) l = Done (l1, Inr ?h)" "l_fs l1 = s1"
    using client_open_of [OF p s1(1)] by blast
  let ?f = "(file_new path M_write)\<lparr>f_handle := ?h, f_opened := True\<rparr>"
  have open1: "file_open True (file_new path M_write) l = Done (l1, ?f, None)"
    using l1(1) by (simp add: file_open_def file_new_def del: open_flags.simps)
  obtain l2 where l2: "file_write_all ?f bs l1 = Done (l2, None)" "file_at (l_fs l2) ?h i ?ps bs" "fs_inv (l_fs l2)" "handles_ok (l_fs l2)"
      "fs_abs (l_fs l2) = (fs_abs ?s)(?ps \<mapsto> E_file bs)" "fs_next_inode (l_fs l2) = fs_next_inode s1" "fs_next_handle (l_fs l2) = ?h + 1"
  proof (cases "bs = []")
    case True
    then have "file_write_all ?f bs l1 = Done (l1, None)" by (subst file_write_all_def) (simp add: write_chunks.simps)
    then show thesis using that [of l1] l1(2) s1 True by simp
  next
    case False
    have at: "file_at (l_fs l1) ?h i ?ps []" "fs_inv (l_fs l1)" using l1(2) s1 by simp_all
    obtain l2 where l2: "write_chunks ?h bs 0 l1 = Done (l2, None)" "l_fs l2 = put_data i (overwrite 0 (drop 0 bs) []) (l_fs l1)"
      using write_chunks_at [OF at len, of 0] False by (auto simp: size_mod_def)
    have "overwrite 0 (drop 0 bs) [] = bs" by (simp add: overwrite_def grow_data_def Let_def)
    then have put: "l_fs l2 = put_data i bs s1" using l2(2) l1(2) by simp
    have hs: "fs_handles (put_data i bs s1) = fs_handles s1" "fs_next_handle (put_data i bs s1) = fs_next_handle s1"
        "fs_next_inode (put_data i bs s1) = fs_next_inode s1"
      by (simp_all add: put_data_def set_inode_def)
    show thesis
    proof (rule that)
      show "file_write_all ?f bs l1 = Done (l2, None)" using l2(1) by (simp add: file_write_all_def)
      show "fs_abs (l_fs l2) = (fs_abs ?s)(?ps \<mapsto> E_file bs)" using put_data_at(3) [OF s1(2,5), of bs] s1(4) by (simp add: put)
    qed (use put_data_at [OF s1(2,5), of bs] s1 hs in \<open>simp_all add: put handles_ok_def\<close>)
  qed
  have fh: "f_handle ?f = ?h" "f_opened ?f" by simp_all
  obtain l3 where "file_delete ?f l2 = Done (l3, ())" "fs_inv (l_fs l3) \<and> handles_ok (l_fs l3) \<and> handle_free (l_fs l3) \<and>
      fs_abs (l_fs l3) = fs_abs (l_fs l2) \<and> fs_next_inode (l_fs l3) = fs_next_inode (l_fs l2) \<and> fs_next_handle (l_fs l3) = fs_next_handle (l_fs l2)"
    using file_delete_at [OF l2(3,4), of ?f i ?ps bs] l2(2) by auto
  then show ?thesis using open1 l2 s1(6) by (simp add: file_save_def)
qed

lemma file_load_run:
  assumes r: "fs_inv (l_fs l)" "can_open (l_fs l)" and p: "path_ok path" and d: "fs_abs (l_fs l) (split_path path) = Some (E_file d)"
    and len: "length d < size_mod" and fuel: "length d div chunk_size < fuel"
  shows "\<exists>l'. file_load fuel path l = Done (l', None, d, None) \<and> fs_abs (l_fs l') = fs_abs (l_fs l) \<and> fs_inv (l_fs l')"
proof -
  let ?s = "l_fs l" and ?ps = "split_path path" and ?h = "fs_next_handle (l_fs l)"
  have plen: "length path \<le> max_path_length" using p by (simp add: path_ok_def)
  obtain s1 i where s1: "handle_open ?s path (of_nat (open_flags M_read)) = (s1, Inr ?h)" "fs_inv s1" "handles_ok s1"
      "fs_abs s1 = fs_abs ?s" "file_at s1 ?h i ?ps d"
    using handle_open_kept [OF r plen d, of M_read] by blast
  obtain l1 where l1: "client_open path (open_flags M_read) l = Done (l1, Inr ?h)" "l_fs l1 = s1"
    using client_open_of [OF p s1(1)] by blast
  let ?f = "(file_new path M_read)\<lparr>f_handle := ?h, f_opened := True\<rparr>"
  have open1: "file_open True (file_new path M_read) l = Done (l1, ?f, None)"
    using l1(1) by (simp add: file_open_def file_new_def del: open_flags.simps)
  have at: "file_at (l_fs l1) ?h i ?ps d" using l1(2) s1 by simp
  obtain l2 where l2: "read_loop fuel ?h 0 [] l1 = Done (l2, d, None)" "l_fs l2 = s1"
    using read_loop_at [OF at len, of 0 fuel "[]"] fuel l1(2) by auto
  have read: "file_read_all fuel ?f l1 = Done (l2, d, None)" using l2(1) by (simp add: file_read_all_def)
  have inv2: "fs_inv (l_fs l2)" "handles_ok (l_fs l2)" "file_at (l_fs l2) (f_handle ?f) i ?ps d" using l2(2) s1 by simp_all
  obtain l3 where "file_delete ?f l2 = Done (l3, ())" "fs_inv (l_fs l3) \<and> fs_abs (l_fs l3) = fs_abs (l_fs l2)"
    using file_delete_at [OF inv2] by auto
  then show ?thesis using open1 read l2(2) s1(4) by (simp add: file_load_def)
qed

text \<open>C29. Saving a text of any length under a path (opening it in write mode, \<open>write_all\<close>, closing
  it), through the client stubs, the message encoding and the in-memory server, succeeds whenever
  the parent is a directory, the path is none and the server can open one more file; afterwards
  the file system is the one before with exactly that path holding exactly the text.\<close>

theorem file_save_stores:
  assumes "server_ready (l_fs l)" and "path_ok path" and "length bs < size_mod"
    and "fs_abs (l_fs l) (butlast (split_path path)) = Some E_dir" and "fs_abs (l_fs l) (split_path path) \<noteq> Some E_dir"
  shows "\<exists>l'. file_save path bs l = Done (l', None, None) \<and> fs_abs (l_fs l') = (fs_abs (l_fs l))(split_path path \<mapsto> E_file bs)"
  using file_save_run [OF assms] by blast

text \<open>C12. A text that was saved under a path is what \<open>read_all\<close> returns when the path is opened for
  reading afterwards, chunk by chunk, within one more round than it has full chunks.\<close>

theorem file_save_load:
  assumes "server_ready (l_fs l)" and "path_ok path" and "length bs < size_mod" and "fs_next_handle (l_fs l) + 2 < size_mod"
    and "fs_abs (l_fs l) (butlast (split_path path)) = Some E_dir" and "fs_abs (l_fs l) (split_path path) \<noteq> Some E_dir"
    and "length bs div chunk_size < fuel"
  shows "\<exists>l1 l2. file_save path bs l = Done (l1, None, None) \<and> file_load fuel path l1 = Done (l2, None, bs, None)"
proof -
  obtain l1 where l1: "file_save path bs l = Done (l1, None, None)" "fs_abs (l_fs l1) = (fs_abs (l_fs l))(split_path path \<mapsto> E_file bs)"
    "fs_inv (l_fs l1)" "handles_ok (l_fs l1)" "handle_free (l_fs l1)" "fs_next_handle (l_fs l1) = fs_next_handle (l_fs l) + 1"
    using file_save_run [OF assms(1,2,3,5,6)] by blast
  have "can_open (l_fs l1)" using l1 assms(4) by (simp add: can_open_def)
  then show ?thesis using file_load_run [OF l1(3) _ assms(2) _ assms(3,7)] l1 by auto
qed

definition link_start :: link where
  "link_start = \<lparr>l_fs = fs_start, l_server_page = replicate page_size 0, l_client_page = replicate page_size 0\<rparr>"

lemma server_ready_start: "server_ready fs_start"
  using fs_start_inv
  by (simp add: server_ready_def can_open_def handles_ok_def handle_free_def fs_start_def fs_storage_def max_open_handles_def size_mod_def)

theorem file_save_stores_witness:
  "\<exists>l'. file_save ''/a'' [1, 2] link_start = Done (l', None, None) \<and> fs_abs (l_fs l') = spec_start([''a''] \<mapsto> E_file [1, 2])"
proof -
  have p: "split_path ''/a'' = [''a'']" by (simp add: split_path_def is_absolute_def add_part_def)
  have "\<exists>l'. file_save ''/a'' [1, 2] link_start = Done (l', None, None) \<and>
      fs_abs (l_fs l') = (fs_abs (l_fs link_start))(split_path ''/a'' \<mapsto> E_file [1, 2])"
    by (rule file_save_stores)
      (simp_all add: link_start_def server_ready_start path_ok_def max_path_length_def size_mod_def nul_def p fs_abs_start spec_start_def)
  then show ?thesis by (simp add: p link_start_def fs_abs_start)
qed

theorem file_save_load_witness:
  "\<exists>l1 l2. file_save ''/a'' [1, 2] link_start = Done (l1, None, None) \<and> file_load 1 ''/a'' l1 = Done (l2, None, [1, 2], None)"
proof -
  have p: "split_path ''/a'' = [''a'']" by (simp add: split_path_def is_absolute_def add_part_def)
  have "fs_next_handle fs_start = 1" by (simp add: fs_start_def fs_storage_def)
  then show ?thesis
    by (intro file_save_load)
      (simp_all add: link_start_def server_ready_start path_ok_def max_path_length_def size_mod_def nul_def p fs_abs_start spec_start_def chunk_size_def)
qed

section \<open>What goes wrong\<close>

text \<open>A file opened for appending is written from its start.\<close>

lemma file_append_run:
  assumes r: "fs_inv (l_fs l)" "can_open (l_fs l)" and p: "path_ok path" and d: "fs_abs (l_fs l) (split_path path) = Some (E_file d)"
    and bs: "bs \<noteq> []" "length bs \<le> chunk_size" and len: "length d < size_mod"
  shows "\<exists>l1 f1 l2 f2. file_open True (file_new path M_append) l = Done (l1, f1, None) \<and> file_write f1 bs l1 = Done (l2, f2, None) \<and>
    fs_abs (l_fs l2) = (fs_abs (l_fs l))(split_path path \<mapsto> E_file (bs @ drop (length bs) d))"
proof -
  let ?s = "l_fs l" and ?ps = "split_path path" and ?h = "fs_next_handle (l_fs l)"
  have plen: "length path \<le> max_path_length" using p by (simp add: path_ok_def)
  obtain s1 i where s1: "handle_open ?s path (of_nat (open_flags M_append)) = (s1, Inr ?h)" "fs_inv s1" "handles_ok s1"
      "fs_abs s1 = fs_abs ?s" "file_at s1 ?h i ?ps d"
    using handle_open_kept [OF r plen d, of M_append] by blast
  obtain l1 where l1: "client_open path (open_flags M_append) l = Done (l1, Inr ?h)" "l_fs l1 = s1"
    using client_open_of [OF p s1(1)] by blast
  let ?f = "(file_new path M_append)\<lparr>f_handle := ?h, f_opened := True\<rparr>"
  have open1: "file_open True (file_new path M_append) l = Done (l1, ?f, None)"
    using l1(1) by (simp add: file_open_def file_new_def del: open_flags.simps)
  have at: "file_at (l_fs l1) ?h i ?ps d" "fs_inv (l_fs l1)" using l1(2) s1 by simp_all
  obtain l2 where l2: "client_write ?h 0 bs l1 = Done (l2, Inr (length bs))" "l_fs l2 = put_data i (overwrite 0 bs d) (l_fs l1)"
    using client_write_at [OF at(1) bs, of 0] bs len by (auto simp: size_mod_def chunk_size_def)
  have "overwrite 0 bs d = bs @ drop (length bs) d" by (simp add: overwrite_def grow_data_def Let_def)
  then have "fs_abs (l_fs l2) = (fs_abs ?s)(?ps \<mapsto> E_file (bs @ drop (length bs) d))"
    using put_data_at(3) [OF at(2,1)] l2(2) l1(2) s1(4) by simp
  moreover have "\<exists>f2. file_write ?f bs l1 = Done (l2, f2, None)" using l2(1) by (simp add: file_write_def file_new_def)
  ultimately show ?thesis using open1 by blast
qed

text \<open>A file that holds \<open>d\<close> and is opened for appending is overwritten by the first write: it
  then holds the written bytes followed by what is left of \<open>d\<close> behind them.\<close>

theorem file_append_overwrites:
  assumes "fs_inv (l_fs l)" and "can_open (l_fs l)" and "path_ok path" and "fs_abs (l_fs l) (split_path path) = Some (E_file d)"
    and "bs \<noteq> []" and "length bs \<le> chunk_size" and "length d < size_mod"
  shows "\<exists>l1 f1 l2 f2. file_open True (file_new path M_append) l = Done (l1, f1, None) \<and> file_write f1 bs l1 = Done (l2, f2, None) \<and>
    fs_abs (l_fs l2) = (fs_abs (l_fs l))(split_path path \<mapsto> E_file (bs @ drop (length bs) d))"
  by (rule file_append_run [OF assms])

theorem file_append_overwrites_witness:
  "\<exists>l0 l1 f1 l2 f2. file_save ''/a'' [1, 2] link_start = Done (l0, None, None) \<and>
    file_open True (file_new ''/a'' M_append) l0 = Done (l1, f1, None) \<and> file_write f1 [3] l1 = Done (l2, f2, None) \<and>
    fs_abs (l_fs l2) [''a''] = Some (E_file [3, 2])"
proof -
  have p: "split_path ''/a'' = [''a'']" by (simp add: split_path_def is_absolute_def add_part_def)
  have nh: "fs_next_handle fs_start = 1" by (simp add: fs_start_def fs_storage_def)
  have ok: "path_ok ''/a''" by (simp add: path_ok_def max_path_length_def nul_def)
  obtain l0 where l0: "file_save ''/a'' [1, 2] link_start = Done (l0, None, None)" "fs_abs (l_fs l0) = spec_start([''a''] \<mapsto> E_file [1, 2])"
      "fs_inv (l_fs l0)" "handles_ok (l_fs l0)" "handle_free (l_fs l0)" "fs_next_handle (l_fs l0) = 2"
    using file_save_run [of link_start "''/a''" "[1, 2]"] ok
    by (auto simp: link_start_def server_ready_start size_mod_def p fs_abs_start spec_start_def nh)
  have "can_open (l_fs l0)" using l0 by (simp add: can_open_def size_mod_def)
  from file_append_overwrites [OF l0(3) this ok, of "[1, 2]" "[3]"] l0(1,2)
  show ?thesis by (auto simp: p chunk_size_def size_mod_def)
qed

text \<open>\<open>getc\<close> does not advance: on an open file it always returns the first byte.\<close>

theorem file_getc_first:
  assumes "file_at (l_fs l) (f_handle f) i ps (b # d)" and "f_opened f"
  shows "\<exists>l'. file_getc f l = Done (l', Inr b) \<and> l_fs l' = l_fs l"
proof -
  obtain l' where "client_read (f_handle f) 0 1 l = Done (l', Inr 1)" "l_fs l' = l_fs l" "answer_data l' = Done (Some [b])"
    using client_read_at [OF assms(1), of 1 0] by (auto simp: chunk_size_def)
  then show ?thesis using assms(2) by (simp add: file_getc_def)
qed

definition demo_fs :: fs where
  "demo_fs = \<lparr>fs_inodes = [(new_inode 0 N_directory ''/'' 0)\<lparr>in_children := [1]\<rparr>, (new_inode 1 N_file ''a'' 0)\<lparr>in_data := [7, 8]\<rparr>],
     fs_handles = [\<lparr>fh_id = 1, fh_inode = 1, fh_flags = 1, fh_open = True\<rparr>], fs_next_inode = 2, fs_next_handle = 2\<rparr>"

theorem file_getc_first_witness:
  "\<exists>l1 l2. file_getc ((file_new ''/a'' M_read)\<lparr>f_handle := 1, f_opened := True\<rparr>) (link_start\<lparr>l_fs := demo_fs\<rparr>) = Done (l1, Inr 7) \<and>
    file_getc ((file_new ''/a'' M_read)\<lparr>f_handle := 1, f_opened := True\<rparr>) l1 = Done (l2, Inr 7)"
proof -
  let ?f = "(file_new ''/a'' M_read)\<lparr>f_handle := 1, f_opened := True\<rparr>"
  have "file_at demo_fs 1 1 [''a''] [7, 8]"
    by (simp add: file_at_def demo_fs_def new_inode_def file_of_def find_handle_def find_inode_def inode_at_def walk.simps(2) child_named.simps(2))
  then have at: "file_at (l_fs l) (f_handle ?f) 1 [''a''] (7 # [8])" if "l_fs l = demo_fs" for l using that by simp
  obtain l1 where l1: "file_getc ?f (link_start\<lparr>l_fs := demo_fs\<rparr>) = Done (l1, Inr 7)" "l_fs l1 = demo_fs"
    using file_getc_first [OF at, of "link_start\<lparr>l_fs := demo_fs\<rparr>"] by auto
  then show ?thesis using file_getc_first [OF at, of l1] by auto
qed

text \<open>A single write of more bytes than fit on a page behind the header makes the server read
  past its page: the header announces all of the bytes.\<close>

theorem file_write_past_page:
  assumes "page_size < length bs + 3" and "length bs < 2 ^ 32" and "length (l_client_page l) = page_size" and "f_opened f"
  shows "file_write f bs l = Undefined Ub_view"
proof -
  let ?h = "pack_blob MT_BIN (of_nat (length bs))" and ?n = "of_nat (length bs) :: 32 word"
  have t: "wtoken ?h = wbin ?n" "wtoken (pack_chunk bs) = bs"
    by (simp_all add: wtoken_def pack_blob_def pack_chunk_def blank_token_def)
  have n: "unat ?n = length bs" using assms(2) by (simp add: unat_of_nat)
  have w: "3 \<le> length (wbin ?n)" "length (wbin ?n) \<le> 5"
  proof -
    have "\<not> ?n < 0x100" using assms(1) n by (simp add: word_less_nat_alt page_size_def)
    then show "3 \<le> length (wbin ?n)" by (simp add: wbin_def)
  qed (rule length_wbin)
  have 1: "mw_token (mw_init page_size) ?h = (mw_init page_size)\<lparr>mw_bytes := wbin ?n\<rparr>"
    using w mw_token_fits [of "mw_init page_size" ?h] by (simp add: t mw_init_def page_size_def)
  let ?c = "take (page_size - length (wbin ?n)) bs"
  have less: "page_size - length (wbin ?n) < length bs" using w(1) assms(1) unfolding page_size_def by linarith
  then have "mw_bytes (mw_bin (mw_init page_size) bs) = wbin ?n @ ?c"
    by (simp add: mw_bin_def 1) (simp add: mw_init_def mw_token_def Let_def t mw_remaining_def)
  moreover have "length ?c < length bs" using less unfolding length_take by linarith
  moreover have "length (wbin ?n @ ?c) = page_size" using w assms(1) by (auto simp: page_size_def)
  ultimately have page: "l_client_page (write_request (\<lambda>w. mw_bin w bs) l) = wbin ?n @ ?c" and short: "length ?c < length bs"
    using assms(3) by (simp_all add: write_request_def put_page_def)
  have head: "read_as (\<lambda>t. if mt_type t = MT_BIN then Some (unat (mt_length t)) else None) (mr_new (wbin ?n @ ?c)) =
      Done (\<lparr>mr_buf = ?c, mr_pass = ?n, mr_error = False\<rparr>, Some (length bs))"
    using n by (simp add: read_as_def read_next_decode [OF decode_bin] is_blob_def)
  have "?n \<noteq> 0"
  proof
    assume "?n = 0"
    then have "length bs = 0" using n by (metis unat_0)
    then show False using assms(1) by (simp add: page_size_def)
  qed
  then have "\<exists>r. read_bin (mr_new (wbin ?n @ ?c)) = Done (r, Some (length bs, ?c))"
    unfolding read_bin_def read_blob_def head using n less by (simp add: read_as_def read_next_def blank_token_def Let_def)
  then have "request_data (wbin ?n @ ?c) = Undefined Ub_view"
    using short by (auto simp: request_data_def simp del: length_take)
  then show ?thesis using page assms(4)
    by (simp add: file_write_def client_write_def ipc_call_def process_request_def Let_def)
qed

theorem file_write_past_page_witness:
  "file_write ((file_new ''/a'' M_write)\<lparr>f_handle := 1, f_opened := True\<rparr>) (replicate 5000 0) link_start = Undefined Ub_view"
  by (rule file_write_past_page) (simp_all add: page_size_def link_start_def)

text \<open>Slashes at the front do not count as names, but they count for the length limit.\<close>

lemma split_path_slashes: "0 < n \<Longrightarrow> split_path (replicate n CHR ''/'' @ ''a'') = [''a'']"
proof -
  assume "0 < n"
  then obtain k where "n = Suc k" by (cases n) auto
  moreover have "split_loop [] (replicate k CHR ''/'' @ ''a'') = [''a'']" by (induction k) (simp_all add: add_part_def)
  ultimately show ?thesis by (simp add: split_path_def is_absolute_def)
qed

text \<open>Opening with the create flag turns every failure to resolve the path into a creation, also
  the one for a path that is too long: two such calls give one directory two files of one name.\<close>

theorem fs_open_duplicates:
  assumes "max_path_length < n"
  shows "\<not> names_ok (fst (handle_open (fst (handle_open fs_start (replicate n CHR ''/'' @ ''a'') open_create))
    (replicate n CHR ''/'' @ ''a'') open_create))"
proof -
  let ?p = "replicate n CHR ''/'' @ ''a''"
  have p: "split_path ?p = [''a'']" using assms by (intro split_path_slashes) (simp add: max_path_length_def)
  have res: "resolve_path s ?p = Inl Fs_path_too_long" for s using assms by (simp add: resolve_path_def)
  have par: "resolve_path s (parent_path [''a'']) = Inr 0" for s
    by (simp add: parent_path_def resolve_path_def max_path_length_def split_path_def is_absolute_def add_part_def)
  have fl: "open_create \<noteq> 0" by (simp add: open_create_def)
  note ev = handle_open_def res p fl Let_def create_node_def par find_inode_def inode_at_def new_inode_def set_inode_def
    open_handle_def allocate_handle_def set_handle_def max_open_handles_def sz_def size_mod_def
  define s1 where "s1 = fst (handle_open fs_start ?p open_create)"
  have s1: "fs_inodes s1 = [(new_inode 0 N_directory ''/'' 0)\<lparr>in_children := [1]\<rparr>, new_inode 0 N_directory [] 0, new_inode 1 N_file ''a'' 0]"
    "fs_next_inode s1 = 2" "fs_handles s1 = [\<lparr>fh_id = 1, fh_inode = 1, fh_flags = open_create, fh_open = True\<rparr>]" "fs_next_handle s1 = 2"
    unfolding s1_def by (simp_all add: ev fs_start_def fs_storage_def)
  define s2 where "s2 = fst (handle_open s1 ?p open_create)"
  have s2: "fs_inodes s2 = [(new_inode 0 N_directory ''/'' 0)\<lparr>in_children := [1, 2]\<rparr>, new_inode 0 N_directory [] 0,
      new_inode 1 N_file ''a'' 0, new_inode 2 N_file ''a'' 0]"
    unfolding s2_def by (simp add: ev s1)
  have "node s2 0 = Some ((new_inode 0 N_directory ''/'' 0)\<lparr>in_children := [1, 2]\<rparr>)" "name_of s2 1 = ''a''" "name_of s2 2 = ''a''"
    by (simp_all add: name_of_def node_def find_inode_def inode_at_def s2 new_inode_def)
  note root = this(1) and same = this(2,3)
  have "\<not> inj_on (name_of s2) (set (in_children ((new_inode 0 N_directory ''/'' 0)\<lparr>in_children := [1, 2]\<rparr>)))"
    using same by (simp add: inj_on_def)
  then have "\<not> names_ok s2" using root unfolding names_ok_def by blast
  then show ?thesis by (simp add: s2_def s1_def)
qed

theorem fs_open_duplicates_witness:
  "\<not> names_ok (fst (handle_open (fst (handle_open fs_start (replicate 300 CHR ''/'' @ ''a'') open_create))
    (replicate 300 CHR ''/'' @ ''a'') open_create))"
  by (rule fs_open_duplicates) (simp add: max_path_length_def)

text \<open>A write whose end does not fit in 32 bits is out of range.\<close>

lemma fs_write_wraps:
  assumes f: "file_of s h = Inr i" and d: "in_data (inode_at s i) = []" and off: "off < size_mod" "0 < off" "off + length bs = size_mod"
  shows "handle_write s h off bs = Undefined Ub_index"
proof -
  have "sz (off + length bs) = 0" using off by (simp add: sz_def)
  then show ?thesis using f d off by (cases bs) (simp_all add: handle_write_def grow_data_def)
qed

end
