(* ===== verification/Md5Props.thy ===== *)
theory Md5Props
  imports Md5
begin

text \<open>
  The properties of MD5: the table of steps is the transformation of RFC 1321; the context stands for
  the bytes given to it so far; the digest of any sequence of updates is that of their
  concatenation; the hexadecimal form can be read back.
\<close>

section \<open>The transformation of RFC 1321\<close>

text \<open>The constant \<open>i\<close> is the integer part of \<open>2 ^ 32 * abs (sin (i + 1))\<close>.\<close>

definition md5_K :: "word32 list" where
  "md5_K = [
   0xd76aa478, 0xe8c7b756, 0x242070db, 0xc1bdceee, 0xf57c0faf, 0x4787c62a, 0xa8304613, 0xfd469501,
   0x698098d8, 0x8b44f7af, 0xffff5bb1, 0x895cd7be, 0x6b901122, 0xfd987193, 0xa679438e, 0x49b40821,
   0xf61e2562, 0xc040b340, 0x265e5a51, 0xe9b6c7aa, 0xd62f105d, 0x02441453, 0xd8a1e681, 0xe7d3fbc8,
   0x21e1cde6, 0xc33707d6, 0xf4d50d87, 0x455a14ed, 0xa9e3e905, 0xfcefa3f8, 0x676f02d9, 0x8d2a4c8a,
   0xfffa3942, 0x8771f681, 0x6d9d6122, 0xfde5380c, 0xa4beea44, 0x4bdecfa9, 0xf6bb4b60, 0xbebfbc70,
   0x289b7ec6, 0xeaa127fa, 0xd4ef3085, 0x04881d05, 0xd9d4d039, 0xe6db99e5, 0x1fa27cf8, 0xc4ac5665,
   0xf4292244, 0x432aff97, 0xab9423a7, 0xfc93a039, 0x655b59c3, 0x8f0ccc92, 0xffeff47d, 0x85845dd1,
   0x6fa87e4f, 0xfe2ce6e0, 0xa3014314, 0x4e0811a1, 0xf7537e82, 0xbd3af235, 0x2ad7d2bb, 0xeb86d391]"

definition ref_f :: "nat \<Rightarrow> word32 \<Rightarrow> word32 \<Rightarrow> word32 \<Rightarrow> word32" where
  "ref_f i = (if i < 16 then md5_F else if i < 32 then md5_G else if i < 48 then md5_H else md5_I)"

definition ref_g :: "nat \<Rightarrow> nat" where
  "ref_g i = (if i < 16 then i else if i < 32 then (5 * i + 1) mod 16 else if i < 48 then (3 * i + 5) mod 16 else (7 * i) mod 16)"

definition ref_s :: "nat \<Rightarrow> nat" where
  "ref_s i = (if i < 16 then [7, 12, 17, 22] else if i < 32 then [5, 9, 14, 20] else if i < 48 then [4, 11, 16, 23]
     else [6, 10, 15, 21]) ! (i mod 4)"

definition ref_step :: "word32 list \<Rightarrow> nat \<Rightarrow> quad \<Rightarrow> quad" where
  "ref_step x i q = (case q of (a, b, c, d) \<Rightarrow>
     (d, b + word_rotl (ref_s i) (a + ref_f i b c d + md5_K ! i + x ! ref_g i), b, c))"

definition ref_compress :: "quad \<Rightarrow> byte list \<Rightarrow> quad" where
  "ref_compress st block = (case (st, fold (ref_step (block_words block)) [0..<64] st) of
     ((s0, s1, s2, s3), (a, b, c, d)) \<Rightarrow> (s0 + a, s1 + b, s2 + c, s3 + d))"

lemma rotl_word_rotl:
  assumes "0 < n" and "n < 32"
  shows "rotl x n = word_rotl n x"
proof (rule bit_word_eqI)
  fix k
  assume "k < LENGTH(32)"
  have "(k + 32 - n) mod 32 = (if n \<le> k then k - n else 32 + k - n)"
  proof (cases "n \<le> k")
    case True
    then have eq: "k + 32 - n = (k - n) + 32" by simp
    have "((k - n) + 32) mod 32 = k - n" using \<open>k < LENGTH(32)\<close> by simp
    then show ?thesis unfolding eq using True by simp
  qed (use assms \<open>k < LENGTH(32)\<close> in simp)
  then show "bit (rotl x n) k \<longleftrightarrow> bit (word_rotl n x) k"
    using assms \<open>k < LENGTH(32)\<close> bit_imp_le_length [of x "32 + k - n"] bit_imp_le_length [of x "32 - n + k"]
    by (auto simp: rotl_def bit_simps bit_word_rotl_iff)
qed

text \<open>The four variables in the order of the reference, by the role of the next step.\<close>

fun view :: "role \<Rightarrow> quad \<Rightarrow> quad" where
  "view R_abcd (a, b, c, d) = (a, b, c, d)"
| "view R_dabc (a, b, c, d) = (d, a, b, c)"
| "view R_cdab (a, b, c, d) = (c, d, a, b)"
| "view R_bcda (a, b, c, d) = (b, c, d, a)"

fun next_role :: "role \<Rightarrow> role" where
  "next_role R_abcd = R_dabc"
| "next_role R_dabc = R_cdab"
| "next_role R_cdab = R_bcda"
| "next_role R_bcda = R_abcd"

fun turn :: "word32 list \<Rightarrow> (word32 \<Rightarrow> word32 \<Rightarrow> word32 \<Rightarrow> word32) \<times> nat \<times> nat \<times> word32 \<Rightarrow> quad \<Rightarrow> quad" where
  "turn x (f, k, s, ac) (a, b, c, d) = (d, mix f a b c d (x ! k) s ac, b, c)"

lemma view_step: "view (next_role r) (apply_step x (f, r, k, s, ac) q) = turn x (f, k, s, ac) (view r q)"
  by (cases q; cases r) simp_all

definition strip :: "md5_step \<Rightarrow> (word32 \<Rightarrow> word32 \<Rightarrow> word32 \<Rightarrow> word32) \<times> nat \<times> nat \<times> word32" where
  "strip t = (case t of (f, r, k, s, ac) \<Rightarrow> (f, k, s, ac))"

fun roles_from :: "role \<Rightarrow> md5_step list \<Rightarrow> bool" where
  "roles_from r [] \<longleftrightarrow> r = R_abcd"
| "roles_from r ((f, r', k, s, ac) # ts) \<longleftrightarrow> r' = r \<and> roles_from (next_role r) ts"

lemma view_steps: "roles_from r ts \<Longrightarrow> fold (apply_step x) ts q = fold (turn x) (map strip ts) (view r q)"
proof (induction r ts arbitrary: q rule: roles_from.induct)
  case (1 r)
  then show ?case by (cases q) simp
next
  case (2 r f r' k s ac ts)
  then show ?case using view_step [of r x f k s ac q] by (simp add: strip_def)
qed

lemma md5_steps_roles: "roles_from R_abcd md5_steps"
  by (simp add: md5_steps_def)

lemma md5_steps_table: "map strip md5_steps = map (\<lambda>i. (ref_f i, ref_g i, ref_s i, md5_K ! i)) [0..<64]"
  by (simp add: md5_steps_def strip_def upt_rec ref_f_def ref_g_def ref_s_def md5_K_def)

lemma ref_s_range: "i < 64 \<Longrightarrow> 0 < ref_s i \<and> ref_s i < 32"
proof -
  have "i mod 4 = 0 \<or> i mod 4 = 1 \<or> i mod 4 = 2 \<or> i mod 4 = 3" by arith
  then show ?thesis by (auto simp: ref_s_def)
qed

lemma turn_ref: "i < 64 \<Longrightarrow> turn x (ref_f i, ref_g i, ref_s i, md5_K ! i) q = ref_step x i q"
  using ref_s_range [of i] by (cases q) (simp add: ref_step_def mix_def rotl_word_rotl algebra_simps)

lemma fold_turn_ref: "(\<And>i. i \<in> set is \<Longrightarrow> i < 64) \<Longrightarrow>
    fold (turn x) (map (\<lambda>i. (ref_f i, ref_g i, ref_s i, md5_K ! i)) is) q = fold (ref_step x) is q"
  by (induction "is" arbitrary: q) (simp_all add: turn_ref)

lemma md5_transform_compress: "md5_transform st block = ref_compress st block"
proof -
  have "view R_abcd st = st" by (cases st) simp
  then have "fold (apply_step (block_words block)) md5_steps st = fold (ref_step (block_words block)) [0..<64] st"
    using view_steps [OF md5_steps_roles, of "block_words block" st] fold_turn_ref [of "[0..<64]" "block_words block" st]
    by (simp add: md5_steps_table)
  then show ?thesis by (simp add: md5_transform_def ref_compress_def Let_def)
qed

text \<open>C13. The 64 steps that the source writes out, each on the variables in its own order, compute the
  transformation of RFC 1321: one step repeated with the round's function, index, shift and
  constant, on variables that change places.\<close>

theorem md5_transform_rfc: "md5_transform st block = ref_compress st block"
  by (rule md5_transform_compress)

section \<open>The digest in one shot\<close>

text \<open>The whole blocks of a message.\<close>

function md5_blocks :: "quad \<Rightarrow> byte list \<Rightarrow> quad" where
  "md5_blocks st m = (if length m < 64 then st else md5_blocks (ref_compress st (take 64 m)) (drop 64 m))"
  by pat_completeness auto

termination
  by (relation "measure (\<lambda>(st, m). length m)") auto

declare md5_blocks.simps [simp del]

definition le_bytes :: "nat \<Rightarrow> byte list" where
  "le_bytes n = map (\<lambda>i. of_nat (n div 256 ^ i)) [0..<8]"

definition md5_pad :: "byte list \<Rightarrow> byte list" where
  "md5_pad m = m @ 0x80 # replicate ((119 - length m mod 64) mod 64) 0 @ le_bytes (8 * length m)"

definition md5_digest :: "byte list \<Rightarrow> byte list" where
  "md5_digest m = state_bytes (md5_blocks (0x67452301, 0xefcdab89, 0x98badcfe, 0x10325476) (md5_pad m))"

lemma md5_blocks_short [simp]: "length m < 64 \<Longrightarrow> md5_blocks st m = st"
  by (simp add: md5_blocks.simps)

lemma md5_blocks_append: "64 dvd length m \<Longrightarrow> md5_blocks st (m @ xs) = md5_blocks (md5_blocks st m) xs"
proof (induction st m rule: md5_blocks.induct)
  case (1 st m)
  show ?case
  proof (cases "m = []")
    case False
    with "1.prems" have ge: "\<not> length m < 64" by (auto dest: dvd_imp_le)
    then have d: "64 dvd length (drop 64 m)" using "1.prems" by simp
    have "md5_blocks st (m @ xs) = md5_blocks (ref_compress st (take 64 m)) (drop 64 m @ xs)"
      using ge by (subst md5_blocks.simps) simp
    also have "\<dots> = md5_blocks (md5_blocks (ref_compress st (take 64 m)) (drop 64 m)) xs" using "1.IH" [OF ge d] .
    also have "\<dots> = md5_blocks (md5_blocks st m) xs" using ge by (subst (2) md5_blocks.simps) simp
    finally show ?thesis .
  qed simp
qed

lemma md5_blocks_one: "length m = 64 \<Longrightarrow> md5_blocks st m = ref_compress st m"
  by (simp add: md5_blocks.simps)

section \<open>The context\<close>

definition whole :: "byte list \<Rightarrow> nat" where
  "whole m = length m - length m mod 64"

text \<open>The context after the bytes \<open>m\<close>.\<close>

definition md5_rep :: "quad \<Rightarrow> md5_context \<Rightarrow> byte list \<Rightarrow> bool" where
  "md5_rep iv ctx m \<longleftrightarrow> mc_state ctx = md5_blocks iv (take (whole m) m) \<and>
     unat (mc_count0 ctx) = (8 * length m) mod 2 ^ 32 \<and> unat (mc_count1 ctx) = (8 * length m) div 2 ^ 32 mod 2 ^ 32 \<and>
     length (mc_buffer ctx) = 64 \<and> take (length m mod 64) (mc_buffer ctx) = drop (whole m) m"

lemma md5_index_rep:
  assumes "md5_rep iv ctx m"
  shows "md5_index ctx = length m mod 64"
proof -
  have m: "(0x3F :: word32) = mask 6" by (simp add: mask_eq_exp_minus_1)
  have "md5_index ctx = unat (mc_count0 ctx) div 8 mod 64"
    by (simp add: md5_index_def m flip: take_bit_eq_mask) (simp add: take_bit_eq_mod drop_bit_eq_div unat_div_distrib unat_mod_distrib)
  also have "\<dots> = (8 * length m) mod 2 ^ 32 div 8 mod 64" using assms by (simp add: md5_rep_def)
  also have "(8 * length m) mod 2 ^ 32 div 8 = length m mod 2 ^ 29"
    using mult_mod_right [of 8 "length m" "2 ^ 29"] by simp
  also have "length m mod 2 ^ 29 mod 64 = length m mod 64" by (simp add: mod_mod_cancel)
  finally show ?thesis .
qed

lemma add_wraps:
  fixes a b M :: nat
  assumes "a < M" and "b < M"
  shows "(a + b) mod M < b \<longleftrightarrow> M \<le> a + b"
proof (cases "M \<le> a + b")
  case True
  then have "(a + b) mod M = a + b - M" using assms by (simp add: le_mod_geq)
  with True assms show ?thesis by linarith
qed (use assms in simp)

lemma div_add_wraps:
  fixes x y M :: nat
  assumes "0 < M"
  shows "(x + y) div M = x div M + y div M + (if M \<le> x mod M + y mod M then 1 else 0)"
proof -
  have "x mod M < M" "y mod M < M" using assms by simp_all
  then have "(x mod M + y mod M) div M = (if M \<le> x mod M + y mod M then 1 else 0)"
  proof (cases "M \<le> x mod M + y mod M")
    case True
    then have "x mod M + y mod M - M < M" using \<open>x mod M < M\<close> \<open>y mod M < M\<close> by linarith
    then show ?thesis using True assms by (simp add: le_div_geq)
  qed simp
  then show ?thesis using div_add1_eq [of x y M] by simp
qed

lemma count_bits_rep:
  assumes c0: "unat (mc_count0 ctx) = (8 * n) mod 2 ^ 32" and c1: "unat (mc_count1 ctx) = (8 * n) div 2 ^ 32 mod 2 ^ 32"
  shows "unat (mc_count0 (count_bits k ctx)) = (8 * (n + k)) mod 2 ^ 32"
    and "unat (mc_count1 (count_bits k ctx)) = (8 * (n + k)) div 2 ^ 32 mod 2 ^ 32"
proof -
  let ?a = "(8 * n) mod 2 ^ 32" and ?b = "(k * 8) mod 2 ^ 32"
  have b: "unat (of_nat (k * 8) :: word32) = ?b" unfolding unat_of_nat by simp
  have "unat (mc_count0 (count_bits k ctx)) = (?a + ?b) mod 2 ^ 32"
    using c0 b by (simp add: count_bits_def Let_def unat_word_ariths)
  then show 0: "unat (mc_count0 (count_bits k ctx)) = (8 * (n + k)) mod 2 ^ 32"
    by (simp add: mod_add_eq algebra_simps)
  have carry: "mc_count0 ctx + of_nat (k * 8) < of_nat (k * 8) \<longleftrightarrow> 2 ^ 32 \<le> ?a + ?b"
  proof -
    have "unat (mc_count0 ctx + of_nat (k * 8)) = (?a + ?b) mod 2 ^ 32" using c0 b by (simp add: unat_word_ariths)
    moreover have "?a < 2 ^ 32" "?b < 2 ^ 32" by simp_all
    ultimately show ?thesis unfolding word_less_nat_alt b using add_wraps by simp
  qed
  have "(8 * (n + k)) div 2 ^ 32 = (8 * n) div 2 ^ 32 + k div 2 ^ 29 + (if 2 ^ 32 \<le> ?a + ?b then 1 else 0)"
  proof -
    have "(k * 8) div 2 ^ 32 = k div 2 ^ 29" by simp
    then show ?thesis using div_add_wraps [of "2 ^ 32" "8 * n" "k * 8"] by (simp add: add_mult_distrib2 mult.commute)
  qed
  then show "unat (mc_count1 (count_bits k ctx)) = (8 * (n + k)) div 2 ^ 32 mod 2 ^ 32"
    using c1 carry by (simp add: count_bits_def Let_def unat_word_ariths unat_of_nat mod_simps)
qed

text \<open>The loop over whole blocks.\<close>

lemma length_copy_to: "p + length bs \<le> length buf \<Longrightarrow> length (copy_to p bs buf) = length buf"
  by (simp add: copy_to_def)

lemma length_drop_whole: "length (drop (whole x) x) = length x mod 64"
proof -
  have "length x mod 64 \<le> length x" by simp
  then show ?thesis by (simp only: whole_def length_drop diff_diff_cancel)
qed

lemma whole_short: "length x < 64 \<Longrightarrow> whole x = 0"
  by (simp add: whole_def)

lemma whole_step: "64 \<le> length x \<Longrightarrow> whole x = 64 + whole (drop 64 x)"
proof -
  assume "64 \<le> length x"
  then obtain n where n: "length x = n + 64" using le_Suc_ex by (metis add.commute)
  have "n mod 64 \<le> n" by simp
  then show ?thesis unfolding whole_def length_drop n by simp
qed

lemma md5_blocks_step:
  "64 \<le> length x \<Longrightarrow> md5_blocks st (take (whole x) x) = md5_blocks (ref_compress st (take 64 x)) (take (whole (drop 64 x)) (drop 64 x))"
proof -
  assume x: "64 \<le> length x"
  let ?w = "whole (drop 64 x)"
  have "64 + ?w \<le> length x" using whole_step [OF x] by (metis diff_le_self whole_def)
  then have "\<not> length (take (64 + ?w) x) < 64" by simp
  moreover have "take 64 (take (64 + ?w) x) = take 64 x" "drop 64 (take (64 + ?w) x) = take ?w (drop 64 x)" by (simp_all add: drop_take)
  ultimately show ?thesis unfolding whole_step [OF x] by (subst md5_blocks.simps) simp
qed

lemma update_loop_blocks:
  "length input + 63 < size_mod \<Longrightarrow> i \<le> length input \<Longrightarrow> update_loop input i st =
    Done (md5_blocks st (take (whole (drop i input)) (drop i input)), i + whole (drop i input))"
proof (induction input i st rule: update_loop.induct)
  case (1 input i st)
  have sz: "sz (i + 63) = i + 63" using "1.prems" by (intro sz_small) linarith
  show ?case
  proof (cases "i + 63 < length input")
    case True
    let ?x = "drop i input"
    have x: "64 \<le> length ?x" "\<not> length input < i + 64" "i + 64 \<le> length input" using True by simp_all
    have d: "drop (i + 64) input = drop 64 ?x" by (simp add: add.commute)
    have "update_loop input i st = update_loop input (i + 64) (md5_transform st (take 64 ?x))"
      using True x(2) by (subst update_loop.simps) (simp add: sz)
    also have "\<dots> = Done (md5_blocks (md5_transform st (take 64 ?x)) (take (whole (drop 64 ?x)) (drop 64 ?x)), i + 64 + whole (drop 64 ?x))"
      using "1.IH" [OF _ x(2) "1.prems"(1) x(3)] True sz unfolding d by simp
    also have "\<dots> = Done (md5_blocks st (take (whole ?x) ?x), i + whole ?x)"
      using md5_blocks_step [OF x(1), of st] whole_step [OF x(1)] by (simp only: md5_transform_compress add.assoc)
    finally show ?thesis .
  next
    case False
    then have "length (drop i input) < 64" by simp
    then have "whole (drop i input) = 0" by (rule whole_short)
    then show ?thesis using False by (subst update_loop.simps) (simp add: sz)
  qed
qed

text \<open>An update of the context is the extension of the bytes it stands for.\<close>

lemma md5_update_rep:
  assumes r: "md5_rep iv ctx m" and len: "length xs + 63 < size_mod"
  shows "\<exists>ctx'. md5_update ctx xs = Done ctx' \<and> md5_rep iv ctx' (m @ xs)"
proof -
  let ?k = "length m mod 64" and ?ctx = "count_bits (length xs) ctx"
  have ix: "md5_index ctx = ?k" by (rule md5_index_rep [OF r])
  have buf: "length (mc_buffer ctx) = 64" "take ?k (mc_buffer ctx) = drop (whole m) m" "mc_state ctx = md5_blocks iv (take (whole m) m)"
    using r by (simp_all add: md5_rep_def)
  have frame: "mc_state ?ctx = mc_state ctx" "mc_buffer ?ctx = mc_buffer ctx" by (simp_all add: count_bits_def Let_def)
  have counts: "unat (mc_count0 ?ctx) = (8 * length (m @ xs)) mod 2 ^ 32" "unat (mc_count1 ?ctx) = (8 * length (m @ xs)) div 2 ^ 32 mod 2 ^ 32"
    using count_bits_rep [of ctx "length m" "length xs"] r by (simp_all add: md5_rep_def)
  have w: "whole m + ?k = length m" "64 dvd whole m" "?k < 64" by (simp_all add: whole_def dvd_minus_mod)
  show ?thesis
  proof (cases "64 - ?k \<le> length xs")
    case False
    then have lt: "?k + length xs < 64" by simp
    have l: "length (m @ xs) mod 64 = ?k + length xs" using lt w by (metis length_append mod_add_left_eq mod_less)
    then have wh: "whole (m @ xs) = whole m" using w by (simp add: whole_def)
    let ?c = "?ctx\<lparr>mc_buffer := copy_to ?k xs (mc_buffer ctx)\<rparr>"
    have "md5_update ctx xs = Done ?c" using False by (simp add: md5_update_def ix frame Let_def)
    moreover have "take (?k + length xs) (copy_to ?k xs (mc_buffer ctx)) = drop (whole m) m @ xs"
    proof -
      have "length (drop (whole m) m) = ?k" using w(1) by simp
      then show ?thesis using buf(1) lt by (simp add: copy_to_def buf(2) del: length_drop)
    qed
    moreover have "drop (whole m) (m @ xs) = drop (whole m) m @ xs" "take (whole m) (m @ xs) = take (whole m) m" using w(1) by simp_all
    moreover have "length (copy_to ?k xs (mc_buffer ctx)) = 64" using buf(1) lt by (simp add: copy_to_def)
    ultimately have "md5_rep iv ?c (m @ xs)" using counts buf(3) w(1) unfolding md5_rep_def wh l by (simp add: frame)
    then show ?thesis using \<open>md5_update ctx xs = Done ?c\<close> by blast
  next
    case True
    let ?p = "64 - ?k"
    let ?b = "copy_to ?k (take ?p xs) (mc_buffer ctx)" and ?rest = "drop ?p xs"
    let ?n = "whole ?rest"
    have block: "?b = drop (whole m) m @ take ?p xs" using buf(1,2) True w(3) by (simp add: copy_to_def)
    have bl: "length ?b = 64" using buf(1) True w(3) by (simp add: copy_to_def)
    have loop: "update_loop xs ?p (md5_transform (mc_state ctx) ?b) =
        Done (md5_blocks (md5_transform (mc_state ctx) ?b) (take ?n ?rest), ?p + ?n)"
      by (rule update_loop_blocks [OF len True])
    let ?c = "?ctx\<lparr>mc_state := md5_blocks (md5_transform (mc_state ctx) ?b) (take ?n ?rest), mc_buffer := copy_to 0 (drop (?p + ?n) xs) ?b\<rparr>"
    have run: "md5_update ctx xs = Done ?c" using True loop by (simp add: md5_update_def ix frame Let_def)
    have total: "m @ xs = (take (whole m) m @ ?b) @ ?rest" unfolding block by simp
    have tw: "length (take (whole m) m) = whole m" using w(1) by simp
    then have l64: "length (take (whole m) m @ ?b) = whole m + 64" using bl by (simp only: length_append)
    then have lens: "64 dvd length (take (whole m) m @ ?b)" "length (take (whole m) m @ ?b) = whole m + 64"
      using w(2) by (simp_all only: dvd_add_triv_right_iff)
    have mod: "length (m @ xs) mod 64 = length ?rest mod 64" 
    proof -
      have "length (m @ xs) = (whole m + 64) + length ?rest" by (subst total) (simp only: length_append [of _ ?rest] lens(2))
      moreover have "(whole m + 64) mod 64 = 0" using w(2) by simp
      ultimately show ?thesis by (metis mod_add_left_eq add_0)
    qed
    have wh: "whole (m @ xs) = length (take (whole m) m @ ?b) + ?n"
    proof -
      have "length (m @ xs) = length (take (whole m) m @ ?b) + length ?rest" by (subst total) (simp only: length_append)
      moreover have "length ?rest mod 64 \<le> length ?rest" by simp
      ultimately show ?thesis unfolding whole_def [of "m @ xs"] mod unfolding whole_def [of ?rest] by linarith
    qed
    have cut: "take (length A + n) (A @ R) = A @ take n R" "drop (length A + n) (A @ R) = drop n R" for A R :: "byte list" and n
      by simp_all
    have tk: "take (whole (m @ xs)) (m @ xs) = (take (whole m) m @ ?b) @ take ?n ?rest" unfolding wh by (subst total) (rule cut)
    have dr: "drop (whole (m @ xs)) (m @ xs) = drop ?n ?rest" unfolding wh by (subst total) (rule cut)
    have "md5_blocks (md5_transform (mc_state ctx) ?b) (take ?n ?rest) = md5_blocks iv (take (whole (m @ xs)) (m @ xs))"
    proof -
      have "64 dvd length (take (whole m) m)" using w(2) tw by simp
      then have "md5_blocks iv (take (whole m) m @ ?b) = ref_compress (mc_state ctx) ?b"
        using md5_blocks_one [OF bl] buf(3) by (simp add: md5_blocks_append)
      then show ?thesis unfolding tk md5_blocks_append [OF lens(1)] md5_transform_compress by simp
    qed
    moreover have "take (length (m @ xs) mod 64) (copy_to 0 (drop (?p + ?n) xs) ?b) = drop (whole (m @ xs)) (m @ xs)"
    proof -
      have X: "drop (?p + ?n) xs = drop ?n ?rest" by (simp add: add.commute)
      have "length (drop ?n ?rest) = length ?rest mod 64" by (rule length_drop_whole)
      then show ?thesis unfolding dr mod X copy_to_def by (metis append_eq_conv_conj append.left_neutral take_0)
    qed
    moreover have "length (copy_to 0 (drop (?p + ?n) xs) ?b) = 64"
    proof -
      have "drop (?p + ?n) xs = drop ?n ?rest" by (simp add: add.commute)
      then have "length (drop (?p + ?n) xs) = length ?rest mod 64" by (simp only: length_drop_whole)
      then have "length (drop (?p + ?n) xs) < 64" by (simp only: mod_less_divisor zero_less_numeral)
      then have "0 + length (drop (?p + ?n) xs) \<le> length ?b" unfolding bl by linarith
      from length_copy_to [OF this] show ?thesis unfolding bl .
    qed
    ultimately have "md5_rep iv ?c (m @ xs)" using counts by (simp add: md5_rep_def frame)
    then show ?thesis using run by blast
  qed
qed

section \<open>The digest\<close>

definition md5_iv :: quad where
  "md5_iv = (0x67452301, 0xefcdab89, 0x98badcfe, 0x10325476)"

lemma md5_init_rep: "length (mc_buffer ctx) = 64 \<Longrightarrow> md5_rep md5_iv (md5_init ctx) []"
  by (simp add: md5_rep_def md5_init_def md5_iv_def whole_def)

lemma byte_of_part:
  fixes w :: word32
  assumes w: "unat w = n mod 2 ^ 32" and k: "k \<le> 24"
  shows "(ucast (drop_bit k w) :: byte) = of_nat (n div 2 ^ k)"
proof -
  have "take_bit 8 (drop_bit k (take_bit 32 n)) = take_bit 8 (drop_bit k n)"
    using k by (intro bit_eqI) (auto simp: bit_simps)
  then have nat: "(n mod 2 ^ 32) div 2 ^ k mod 2 ^ 8 = n div 2 ^ k mod 2 ^ 8"
    by (simp only: take_bit_eq_mod drop_bit_eq_div)
  have "unat (ucast (drop_bit k w) :: byte) = unat (drop_bit k w) mod 2 ^ 8" by (simp add: unsigned_ucast_eq take_bit_eq_mod)
  also have "unat (drop_bit k w) = (n mod 2 ^ 32) div 2 ^ k" unfolding w [symmetric]
    using unsigned_less [of w, where ?'a = nat] by (subst unsigned_drop_bit_eq) (simp add: drop_bit_eq_div take_bit_nat_eq_self)
  also have "\<dots> mod 2 ^ 8 = unat (of_nat (n div 2 ^ k) :: byte)" unfolding nat unat_of_nat by simp
  finally show ?thesis by (simp only: word_unat_eq_iff)
qed

lemma count_bytes:
  assumes "unat c0 = n mod 2 ^ 32" and "unat c1 = n div 2 ^ 32 mod 2 ^ 32"
  shows "word_bytes c0 @ word_bytes c1 = le_bytes n"
proof -
  note part0 = byte_of_part [OF assms(1)] and part1 = byte_of_part [OF assms(2)]
  have "word_bytes c0 = map (\<lambda>i. of_nat (n div 256 ^ i)) [0..<4]"
    using part0 [of 0] part0 [of 8] part0 [of 16] part0 [of 24] by (simp add: word_bytes_def upt_rec)
  moreover have "word_bytes c1 = map (\<lambda>i. of_nat (n div 256 ^ i)) [4..<8]"
    using part1 [of 0] part1 [of 8] part1 [of 16] part1 [of 24] by (simp add: word_bytes_def upt_rec div_mult2_eq [symmetric])
  moreover have "[0..<8] = [0..<4] @ [4..<8]" by (simp add: upt_rec)
  ultimately show ?thesis by (simp only: le_bytes_def map_append)
qed

lemma md5_padding_take: "0 < n \<Longrightarrow> n \<le> 64 \<Longrightarrow> take n md5_padding = 0x80 # replicate (n - 1) 0"
  by (cases n) (simp_all add: md5_padding_def)

lemma md5_final_rep:
  assumes r: "md5_rep iv ctx m"
  shows "\<exists>ctx'. md5_final ctx = Done (ctx', state_bytes (md5_blocks iv (md5_pad m)))"
proof -
  let ?k = "length m mod 64"
  define n where "n = (if ?k < 56 then 56 - ?k else 120 - ?k)"
  have k: "?k < 64" by simp
  have n: "0 < n" "n \<le> 64" "n - 1 = (119 - ?k) mod 64"
  proof -
    have "?k < 56 \<and> n = 56 - ?k \<or> 56 \<le> ?k \<and> n = 120 - ?k" by (simp add: n_def)
    then show "0 < n" "n \<le> 64" using k by linarith+
    show "n - 1 = (119 - ?k) mod 64"
    proof (cases "?k < 56")
      case True
      then have "119 - ?k = (55 - ?k) + 64" by simp
      then have "(119 - ?k) mod 64 = (55 - ?k) mod 64" by (simp only: mod_add_self2)
      then show ?thesis using True by (simp add: n_def)
    next
      case False
      then show ?thesis using k by (simp add: n_def)
    qed
  qed
  have ix: "md5_index ctx = ?k" by (rule md5_index_rep [OF r])
  have bits: "word_bytes (mc_count0 ctx) @ word_bytes (mc_count1 ctx) = le_bytes (8 * length m)"
    using r by (intro count_bytes) (simp_all add: md5_rep_def)
  let ?pad = "take n md5_padding"
  have lp: "length ?pad = n" using n by (simp add: md5_padding_def)
  obtain c1 where c1: "md5_update ctx ?pad = Done c1" "md5_rep iv c1 (m @ ?pad)"
    using md5_update_rep [OF r, of ?pad] lp n by (auto simp: size_mod_def)
  obtain c2 where c2: "md5_update c1 (le_bytes (8 * length m)) = Done c2" "md5_rep iv c2 ((m @ ?pad) @ le_bytes (8 * length m))"
    using md5_update_rep [OF c1(2), of "le_bytes (8 * length m)"] by (auto simp: size_mod_def le_bytes_def)
  have padded: "(m @ ?pad) @ le_bytes (8 * length m) = md5_pad m"
    using n by (simp add: md5_padding_take md5_pad_def)
  have "(length m + n + 8) mod 64 = 0"
  proof -
    have "(length m + n + 8) mod 64 = (?k + (n + 8)) mod 64" by (simp add: mod_add_left_eq add.assoc)
    then show ?thesis using k by (simp add: n_def)
  qed
  then have "length (md5_pad m) mod 64 = 0" using lp by (simp add: le_bytes_def add.assoc flip: padded)
  then have "whole (md5_pad m) = length (md5_pad m)" by (simp add: whole_def)
  then have "mc_state c2 = md5_blocks iv (md5_pad m)" using c2(2) unfolding padded md5_rep_def by simp
  then have "md5_final ctx = Done (c2, state_bytes (md5_blocks iv (md5_pad m)))"
    using c1(1) c2(1) by (simp add: md5_final_def ix bits Let_def flip: n_def)
  then show ?thesis by blast
qed

fun md5_updates :: "md5_context \<Rightarrow> byte list list \<Rightarrow> md5_context run" where
  "md5_updates ctx [] = Done ctx"
| "md5_updates ctx (xs # xss) = run_bind (md5_update ctx xs) (\<lambda>ctx. md5_updates ctx xss)"

lemma md5_updates_rep:
  "md5_rep iv ctx m \<Longrightarrow> \<forall>xs\<in>set xss. length xs + 63 < size_mod \<Longrightarrow>
    \<exists>ctx'. md5_updates ctx xss = Done ctx' \<and> md5_rep iv ctx' (m @ concat xss)"
proof (induction xss arbitrary: ctx m)
  case (Cons xs xss)
  then obtain c where c: "md5_update ctx xs = Done c" "md5_rep iv c (m @ xs)" using md5_update_rep [of iv ctx m xs] by auto
  from Cons.IH [OF c(2)] Cons.prems(2) c(1) show ?case by auto
qed simp

text \<open>C14. However the input is cut into updates, each shorter than \<open>2 ^ 32 - 63\<close> bytes, and whatever the
  memory of the context held before, \<open>md5_init\<close>, the updates and \<open>md5_final\<close> give the digest of the
  concatenated input: padded to whole blocks with a one bit, zeros and the bit count, and folded
  through the transformation of RFC 1321.\<close>

theorem md5_stream_digest:
  assumes "length (mc_buffer ctx) = 64" and "\<forall>xs\<in>set xss. length xs + 63 < size_mod"
  shows "\<exists>ctx'. run_bind (md5_updates (md5_init ctx) xss) md5_final = Done (ctx', md5_digest (concat xss))"
proof -
  obtain c where c: "md5_updates (md5_init ctx) xss = Done c" "md5_rep md5_iv c (concat xss)"
    using md5_updates_rep [OF md5_init_rep [OF assms(1)] assms(2)] by auto
  from md5_final_rep [OF c(2)] c(1) show ?thesis by (simp add: md5_digest_def md5_iv_def)
qed

text \<open>The test vector of RFC 1321 for the text \<open>abc\<close>, in two updates.\<close>

definition demo_context :: md5_context where
  "demo_context = \<lparr>mc_state = (0, 0, 0, 0), mc_count0 = 0, mc_count1 = 0, mc_buffer = replicate 64 0xff\<rparr>"

lemma abc_padded: "md5_pad (bytes_of ''abc'') = [0x61, 0x62, 0x63, 0x80] @ replicate 52 0 @ [24, 0, 0, 0, 0, 0, 0, 0]"
  by (simp add: md5_pad_def le_bytes_def upt_rec bytes_of_def byte_of_def char_val_def)

lemma abc_words: "block_words (md5_pad (bytes_of ''abc'')) = [0x80636261, 0, 0, 0, 0, 0, 0, 0, 0, 0, 0, 0, 0, 0, 24, 0]"
  unfolding abc_padded by (simp add: block_words_def le_word_def upt_rec nth_append)

lemma abc_steps: "fold (apply_step [0x80636261, 0, 0, 0, 0, 0, 0, 0, 0, 0, 0, 0, 0, 0, 24, 0]) md5_steps md5_iv =
    (0x310ade8f, 0xc08226b3, 0xe484b9d8, 0x624d8cb2)"
  by (simp add: md5_iv_def md5_steps_def mix_def rotl_def md5_F_def md5_G_def md5_H_def md5_I_def)

lemma abc_digest: "md5_digest (bytes_of ''abc'') =
  [0x90, 0x01, 0x50, 0x98, 0x3c, 0xd2, 0x4f, 0xb0, 0xd6, 0x96, 0x3f, 0x7d, 0x28, 0xe1, 0x7f, 0x72]"
proof -
  have "length (md5_pad (bytes_of ''abc'')) = 64" by (simp add: abc_padded)
  then have "md5_blocks md5_iv (md5_pad (bytes_of ''abc'')) = md5_transform md5_iv (md5_pad (bytes_of ''abc''))"
    by (simp add: md5_blocks_one md5_transform_compress)
  also have "\<dots> = (0x98500190, 0xb04fd23c, 0x7d3f96d6, 0x727fe128)"
    unfolding md5_transform_def abc_words Let_def abc_steps by (simp add: md5_iv_def)
  finally show ?thesis by (simp add: md5_digest_def md5_iv_def state_bytes_def word_bytes_def)
qed

theorem md5_stream_digest_witness:
  "\<exists>ctx'. run_bind (md5_updates (md5_init demo_context) [bytes_of ''a'', bytes_of ''bc'']) md5_final =
    Done (ctx', [0x90, 0x01, 0x50, 0x98, 0x3c, 0xd2, 0x4f, 0xb0, 0xd6, 0x96, 0x3f, 0x7d, 0x28, 0xe1, 0x7f, 0x72])"
proof -
  have "concat [bytes_of ''a'', bytes_of ''bc''] = bytes_of ''abc''" by (simp add: bytes_of_def)
  then show ?thesis using md5_stream_digest [of demo_context "[bytes_of ''a'', bytes_of ''bc'']"]
    by (simp add: demo_context_def size_mod_def abc_digest)
qed

section \<open>The hexadecimal form\<close>

definition hex_val :: "char \<Rightarrow> byte" where
  "hex_val c = of_nat (if is_digit c then char_val c - 48 else char_val c - 87)"

fun from_hex :: "string \<Rightarrow> byte list" where
  "from_hex (a # b # cs) = (push_bit 4 (hex_val a) OR hex_val b) # from_hex cs"
| "from_hex _ = []"

lemma hex_val_char: "v < 16 \<Longrightarrow> hex_val (hex_char v) = v"
proof -
  assume v: "v < 16"
  define n where "n = unat v"
  have n: "n < 16" using v by (simp add: n_def word_less_nat_alt)
  have "list_all (\<lambda>k. hex_val (''0123456789abcdef'' ! k) = of_nat k) [0..<16]"
    by (simp add: upt_rec hex_val_def is_digit_def char_val_def)
  then have "hex_val (''0123456789abcdef'' ! n) = of_nat n" using n by (simp add: list_all_iff)
  then show ?thesis by (simp add: hex_char_def n_def)
qed

lemma low_nibble: "b AND 0x0F = (take_bit 4 b :: byte)"
  by (simp add: take_bit_eq_mask mask_eq_exp_minus_1)

lemma nibble_less: "take_bit 4 b < (16 :: byte)"
proof -
  have "unat (take_bit 4 b) = take_bit 4 (unat b)" by (rule unsigned_take_bit_eq)
  then show ?thesis using take_bit_nat_less_exp [of 4 "unat b"] by (simp add: word_less_nat_alt)
qed

lemma hex_halves: "push_bit 4 (take_bit 4 (drop_bit 4 b)) OR take_bit 4 b = (b :: byte)"
  by (rule bit_word_eqI) (auto simp: bit_simps)

lemma from_hex_digits:
  "from_hex (concat (map (\<lambda>b. [hex_char (take_bit 4 (drop_bit 4 b)), hex_char (take_bit 4 b)]) digest) @ [nul]) = digest"
  by (induction digest) (simp_all only: hex_val_char nibble_less hex_halves list.map concat.simps append.simps from_hex.simps)

text \<open>The hexadecimal text of a digest, two digits per byte and a terminator, reads back as the
  digest.\<close>

theorem md5_hex_roundtrip: "from_hex (md5_digest_to_hex digest) = digest"
  unfolding md5_digest_to_hex_def low_nibble by (rule from_hex_digits)

end
