(* ===== verification/Editor.thy ===== *)
theory Editor
  imports TclInterp FileClient
begin

text \<open>
  The text editor (\<open>ot/user/edit.cpp\<close>, \<open>ot/user/edit.hpp\<close>): its state, the tables of key
  bindings, motions, operators and actions, the editing operations, the commands it registers
  with the Tcl interpreter, the screen it prepares and its loop. Saving and loading go through the
  files of theory \<open>FileClient\<close>. Strings and vectors are lists here, as theories \<open>OuString\<close>
  and \<open>OuVector\<close> justify; coordinates are signed 32-bit numbers that are compared with sizes
  as unsigned ones.
\<close>

section \<open>Keys\<close>

datatype editor_mode = Normal_mode | Insert_mode | Command_mode
datatype editor_style = Simple_style | Vim_style
datatype operator = Op_none | Op_delete_to

datatype extended_key = Ext_none | Ext_enter | Ext_backspace | Ext_left | Ext_right | Ext_up | Ext_down
  | Ext_home | Ext_end | Ext_page_up | Ext_page_down | Ext_del | Ext_esc

record key =
  k_c :: char
  k_ext :: extended_key
  k_ctrl :: bool
  k_alt :: bool

definition key_char :: "char \<Rightarrow> key" where
  "key_char c = \<lparr>k_c = c, k_ext = Ext_none, k_ctrl = False, k_alt = False\<rparr>"

definition key_ctrl :: "char \<Rightarrow> key" where
  "key_ctrl c = \<lparr>k_c = c, k_ext = Ext_none, k_ctrl = True, k_alt = False\<rparr>"

definition key_alt :: "char \<Rightarrow> key" where
  "key_alt c = \<lparr>k_c = c, k_ext = Ext_none, k_ctrl = False, k_alt = True\<rparr>"

definition key_ext :: "extended_key \<Rightarrow> key" where
  "key_ext x = \<lparr>k_c = nul, k_ext = x, k_ctrl = False, k_alt = False\<rparr>"

datatype action = A_none
  | A_move_left | A_move_right | A_move_up | A_move_down | A_line_start | A_line_end | A_page_up | A_page_down
  | A_operator_delete
  | A_insert_mode | A_append | A_append_eol | A_open_below | A_command_mode | A_exit_to_normal
  | A_newline | A_delete_back | A_delete_under
  | A_command_execute | A_command_backspace | A_force_quit

text \<open>A binding; \<open>None\<close> is any mode.\<close>

type_synonym binding = "key \<times> editor_mode option \<times> action"

definition default_bindings :: "binding list" where
  "default_bindings =
    [(key_ctrl (CHR ''d''), None, A_page_down), (key_ctrl (CHR ''u''), None, A_page_up),
     (key_ext Ext_left, Some Normal_mode, A_move_left), (key_ext Ext_right, Some Normal_mode, A_move_right),
     (key_ext Ext_up, Some Normal_mode, A_move_up), (key_ext Ext_down, Some Normal_mode, A_move_down),
     (key_ext Ext_left, Some Insert_mode, A_move_left), (key_ext Ext_right, Some Insert_mode, A_move_right),
     (key_ext Ext_up, Some Insert_mode, A_move_up), (key_ext Ext_down, Some Insert_mode, A_move_down),
     (key_char (CHR ''h''), Some Normal_mode, A_move_left), (key_char (CHR ''j''), Some Normal_mode, A_move_down),
     (key_char (CHR ''k''), Some Normal_mode, A_move_up), (key_char (CHR ''l''), Some Normal_mode, A_move_right),
     (key_char (CHR ''0''), Some Normal_mode, A_line_start), (key_char (CHR ''$''), Some Normal_mode, A_line_end),
     (key_char (CHR ''d''), Some Normal_mode, A_operator_delete),
     (key_char (CHR ''i''), Some Normal_mode, A_insert_mode), (key_char (CHR ''a''), Some Normal_mode, A_append),
     (key_char (CHR ''A''), Some Normal_mode, A_append_eol), (key_char (CHR ''o''), Some Normal_mode, A_open_below),
     (key_char (CHR '';''), Some Normal_mode, A_command_mode),
     (key_char (CHR ''x''), Some Normal_mode, A_delete_under),
     (key_ext Ext_esc, Some Insert_mode, A_exit_to_normal), (key_ext Ext_enter, Some Insert_mode, A_newline),
     (key_ext Ext_backspace, Some Insert_mode, A_delete_back),
     (key_ext Ext_enter, Some Command_mode, A_command_execute),
     (key_ext Ext_backspace, Some Command_mode, A_command_backspace)]"

definition simple_bindings :: "binding list" where
  "simple_bindings =
    [(key_alt (CHR ''x''), None, A_command_mode),
     (key_ext Ext_left, Some Insert_mode, A_move_left), (key_ext Ext_right, Some Insert_mode, A_move_right),
     (key_ext Ext_up, Some Insert_mode, A_move_up), (key_ext Ext_down, Some Insert_mode, A_move_down),
     (key_ctrl (CHR ''a''), Some Insert_mode, A_line_start), (key_ctrl (CHR ''e''), Some Insert_mode, A_line_end),
     (key_ctrl (CHR ''d''), None, A_page_down), (key_ctrl (CHR ''u''), None, A_page_up),
     (key_ext Ext_enter, Some Insert_mode, A_newline), (key_ext Ext_backspace, Some Insert_mode, A_delete_back),
     (key_ext Ext_enter, Some Command_mode, A_command_execute),
     (key_ext Ext_backspace, Some Command_mode, A_command_backspace)]"

definition keys_match :: "key \<Rightarrow> key \<Rightarrow> bool" where
  "keys_match a b =
     (if k_ext a \<noteq> Ext_none \<or> k_ext b \<noteq> Ext_none
      then k_ext a = k_ext b \<and> k_ctrl a = k_ctrl b \<and> k_alt a = k_alt b
      else k_c a = k_c b \<and> k_ctrl a = k_ctrl b \<and> k_alt a = k_alt b)"

fun find_action :: "binding list \<Rightarrow> editor_mode \<Rightarrow> key \<Rightarrow> action" where
  "find_action [] mode key = A_none"
| "find_action ((k, m, act) # bs) mode key =
     (if m \<noteq> None \<and> m \<noteq> Some mode then find_action bs mode key
      else if keys_match k key then act else find_action bs mode key)"

definition lookup_action :: "editor_style \<Rightarrow> editor_mode \<Rightarrow> key \<Rightarrow> action" where
  "lookup_action style mode key =
     find_action (if style = Vim_style then default_bindings else simple_bindings) mode key"

definition is_motion :: "action \<Rightarrow> bool" where
  "is_motion act \<longleftrightarrow> act \<in> {A_move_left, A_move_right, A_move_up, A_move_down, A_line_start, A_line_end}"

definition is_empty_key :: "key \<Rightarrow> bool" where
  "is_empty_key k \<longleftrightarrow> k_c k = nul \<and> k_ext k = Ext_none \<and> \<not> k_ctrl k"

section \<open>State\<close>

record editor =
  ed_row_offset :: int
  ed_col_offset :: int
  ed_cx :: int
  ed_cy :: int
  ed_rx :: int
  ed_dirty :: int
  ed_lines :: "string list"
  ed_file_lines :: "string list"
  ed_render_lines :: "string list"
  ed_file_name :: string
  ed_status_line :: string
  ed_message_line :: string
  ed_last_message_time :: nat
  ed_command_line :: string
  ed_mode :: editor_mode
  ed_pending :: operator
  ed_style :: editor_style
  ed_running :: bool

definition editor_new :: editor where
  "editor_new = \<lparr>ed_row_offset = 0, ed_col_offset = 0, ed_cx = 0, ed_cy = 0, ed_rx = 0, ed_dirty = 0,
     ed_lines = [], ed_file_lines = [], ed_render_lines = [], ed_file_name = [], ed_status_line = [],
     ed_message_line = [], ed_last_message_time = 0, ed_command_line = [], ed_mode = Insert_mode,
     ed_pending = Op_none, ed_style = Simple_style, ed_running = True\<rparr>"

text \<open>The conversions between \<open>intptr_t\<close> and \<open>size_t\<close>.\<close>

definition to_size :: "int \<Rightarrow> nat" where
  "to_size x = nat (x mod int size_mod)"

definition of_size :: "nat \<Rightarrow> int" where
  "of_size n = (if n < 2 ^ 31 then int n else int n - int size_mod)"

text \<open>The number of lines, a line, and a change of a line.\<close>

definition n_lines :: "editor \<Rightarrow> nat" where
  "n_lines e = length (ed_file_lines e)"

definition line_at :: "editor \<Rightarrow> int \<Rightarrow> string run" where
  "line_at e y = (if to_size y < n_lines e then Done (ed_file_lines e ! to_size y) else Undefined Ub_index)"

definition set_line :: "int \<Rightarrow> string \<Rightarrow> editor \<Rightarrow> editor" where
  "set_line y x e = e\<lparr>ed_file_lines := (ed_file_lines e)[to_size y := x]\<rparr>"

definition insert_line :: "int \<Rightarrow> string \<Rightarrow> editor \<Rightarrow> editor" where
  "insert_line y x e = e\<lparr>ed_file_lines := take (to_size y) (ed_file_lines e) @ x # drop (to_size y) (ed_file_lines e)\<rparr>"

definition erase_line :: "int \<Rightarrow> editor \<Rightarrow> editor" where
  "erase_line y e = e\<lparr>ed_file_lines := take (to_size y) (ed_file_lines e) @ drop (to_size y + 1) (ed_file_lines e)\<rparr>"

definition txt_erase :: "nat \<Rightarrow> nat \<Rightarrow> string \<Rightarrow> string" where
  "txt_erase p n x = (if p \<ge> length x then x else take p x @ drop (p + span (length x) p n) x)"

definition touch :: "editor \<Rightarrow> editor" where
  "touch e = e\<lparr>ed_dirty := ed_dirty e + 1\<rparr>"

section \<open>Motions and operators\<close>

definition page_motion :: "int \<Rightarrow> int" where
  "page_motion ws_y = quot ws_y 2"

fun execute_motion :: "int \<Rightarrow> action \<Rightarrow> editor \<Rightarrow> editor run" where
  "execute_motion ws_y A_move_left e =
     (if ed_cx e \<noteq> 0 then Done (e\<lparr>ed_cx := ed_cx e - 1\<rparr>)
      else if ed_cy e > 0
      then (let e = e\<lparr>ed_cy := ed_cy e - 1\<rparr>
            in run_bind (line_at e (ed_cy e)) (\<lambda>x. Done (e\<lparr>ed_cx := of_size (length x)\<rparr>)))
      else Done e)"
| "execute_motion ws_y A_move_right e =
     (if to_size (ed_cy e) < n_lines e \<and> to_size (ed_cx e) < length (ed_file_lines e ! to_size (ed_cy e))
      then Done (e\<lparr>ed_cx := ed_cx e + 1\<rparr>)
      else if to_size (ed_cy e) < sz_sub (n_lines e) 1
      then Done (e\<lparr>ed_cy := ed_cy e + 1, ed_cx := 0\<rparr>)
      else Done e)"
| "execute_motion ws_y A_move_up e = Done (if ed_cy e > 0 then e\<lparr>ed_cy := ed_cy e - 1\<rparr> else e)"
| "execute_motion ws_y A_move_down e =
     Done (if to_size (ed_cy e) < sz_sub (n_lines e) 1 then e\<lparr>ed_cy := ed_cy e + 1\<rparr> else e)"
| "execute_motion ws_y A_line_start e = Done (e\<lparr>ed_cx := 0\<rparr>)"
| "execute_motion ws_y A_line_end e =
     Done (if to_size (ed_cy e) < n_lines e
           then e\<lparr>ed_cx := of_size (length (ed_file_lines e ! to_size (ed_cy e)))\<rparr> else e)"
| "execute_motion ws_y A_page_up e =
     (let y = ed_cy e - page_motion ws_y in Done (e\<lparr>ed_cy := (if y < 0 then 0 else y)\<rparr>))"
| "execute_motion ws_y A_page_down e =
     (let y = ed_cy e + page_motion ws_y
      in Done (e\<lparr>ed_cy := (if to_size y \<ge> n_lines e then of_size (sz_sub (n_lines e) 1) else y)\<rparr>))"
| "execute_motion ws_y _ e = Done e"

definition delete_line :: "int \<Rightarrow> editor \<Rightarrow> editor" where
  "delete_line y e =
     (if to_size y < n_lines e
      then let e = erase_line y e;
               e = (if ed_file_lines e = [] then e\<lparr>ed_file_lines := [[]]\<rparr> else e);
               e = (if to_size (ed_cy e) \<ge> n_lines e then e\<lparr>ed_cy := of_size (sz_sub (n_lines e) 1)\<rparr> else e)
           in touch (e\<lparr>ed_cx := 0\<rparr>)
      else e)"

definition apply_operator :: "operator \<Rightarrow> int \<Rightarrow> int \<Rightarrow> int \<Rightarrow> int \<Rightarrow> editor \<Rightarrow> editor" where
  "apply_operator op start_x start_y end_x end_y e =
     (if op = Op_delete_to \<and> start_y = end_y \<and> to_size start_y < n_lines e
      then let lo = (if start_x > end_x then end_x else start_x); hi = (if start_x > end_x then start_x else end_x);
               x = ed_file_lines e ! to_size start_y
           in touch ((set_line start_y (txt_erase (to_size lo) (to_size (hi - lo)) x) e)\<lparr>ed_cx := lo\<rparr>)
      else e)"

section \<open>Editing\<close>

definition insert_char :: "char \<Rightarrow> editor \<Rightarrow> editor run" where
  "insert_char c e =
     (let e = (if to_size (ed_cy e) = n_lines e then e\<lparr>ed_file_lines := ed_file_lines e @ [[]]\<rparr> else e)
      in run_bind (line_at e (ed_cy e)) (\<lambda>x.
           Done (touch ((set_line (ed_cy e) (take (to_size (ed_cx e)) x @ c # drop (to_size (ed_cx e)) x) e)
             \<lparr>ed_cx := ed_cx e + 1\<rparr>))))"

definition backspace :: "editor \<Rightarrow> editor run" where
  "backspace e =
     (if ed_cx e > 0 \<and> to_size (ed_cy e) < n_lines e
      then let x = ed_file_lines e ! to_size (ed_cy e)
           in Done (touch ((set_line (ed_cy e) (txt_erase (to_size (ed_cx e - 1)) 1 x) e)\<lparr>ed_cx := ed_cx e - 1\<rparr>))
      else if ed_cy e > 0
      then (let e = e\<lparr>ed_cy := ed_cy e - 1\<rparr>
            in run_bind (line_at e (ed_cy e)) (\<lambda>x.
               run_bind (line_at e (ed_cy e + 1)) (\<lambda>y.
                 Done (touch (erase_line (ed_cy e + 1) (set_line (ed_cy e) (x @ y) (e\<lparr>ed_cx := of_size (length x)\<rparr>)))))))
      else Done (touch e))"

definition insert_newline :: "editor \<Rightarrow> editor run" where
  "insert_newline e = run_bind (line_at e (ed_cy e)) (\<lambda>x.
     let p = to_size (ed_cx e);
         e = (if p < length x then insert_line (ed_cy e + 1) (drop p x) (set_line (ed_cy e) (take p x) e)
              else insert_line (ed_cy e + 1) [] e)
     in Done (e\<lparr>ed_cy := ed_cy e + 1, ed_cx := 0\<rparr>))"

definition message_set :: "nat \<Rightarrow> string \<Rightarrow> editor \<Rightarrow> editor" where
  "message_set now msg e = e\<lparr>ed_message_line := msg, ed_last_message_time := now\<rparr>"

definition message_timeout :: nat where
  "message_timeout = 3000"

text \<open>The difference is in 64-bit arithmetic.\<close>

definition message_clear :: "nat \<Rightarrow> editor \<Rightarrow> editor" where
  "message_clear now e =
     (if (int now - int (ed_last_message_time e)) mod 2 ^ 64 > int message_timeout then e\<lparr>ed_message_line := []\<rparr> else e)"

section \<open>Actions\<close>

text \<open>The actions that work on the editor alone.\<close>

fun editor_action :: "action \<Rightarrow> editor \<Rightarrow> editor run" where
  "editor_action A_operator_delete e = Done (e\<lparr>ed_pending := Op_delete_to\<rparr>)"
| "editor_action A_insert_mode e = Done (e\<lparr>ed_mode := Insert_mode\<rparr>)"
| "editor_action A_append e =
     (let e = (if to_size (ed_cy e) < n_lines e \<and> to_size (ed_cx e) < length (ed_file_lines e ! to_size (ed_cy e))
               then e\<lparr>ed_cx := ed_cx e + 1\<rparr> else e)
      in Done (e\<lparr>ed_mode := Insert_mode\<rparr>))"
| "editor_action A_append_eol e =
     (let e = (if to_size (ed_cy e) < n_lines e
               then e\<lparr>ed_cx := of_size (length (ed_file_lines e ! to_size (ed_cy e)))\<rparr> else e)
      in Done (e\<lparr>ed_mode := Insert_mode\<rparr>))"
| "editor_action A_open_below e =
     (let e = (if to_size (ed_cy e) < n_lines e then insert_line (ed_cy e + 1) [] e
               else e\<lparr>ed_file_lines := ed_file_lines e @ [[]]\<rparr>)
      in Done ((touch (e\<lparr>ed_cy := ed_cy e + 1, ed_cx := 0\<rparr>))\<lparr>ed_mode := Insert_mode\<rparr>))"
| "editor_action A_command_mode e = Done (e\<lparr>ed_mode := Command_mode, ed_command_line := []\<rparr>)"
| "editor_action A_exit_to_normal e = Done (e\<lparr>ed_mode := Normal_mode\<rparr>)"
| "editor_action A_newline e = insert_newline e"
| "editor_action A_delete_back e = backspace e"
| "editor_action A_delete_under e =
     (if to_size (ed_cy e) < n_lines e \<and> to_size (ed_cx e) < length (ed_file_lines e ! to_size (ed_cy e))
      then Done (touch (set_line (ed_cy e) (txt_erase (to_size (ed_cx e)) 1 (ed_file_lines e ! to_size (ed_cy e))) e))
      else Done e)"
| "editor_action A_command_backspace e =
     Done (if ed_command_line e = [] then e
           else e\<lparr>ed_command_line := txt_erase (length (ed_command_line e) - 1) 1 (ed_command_line e)\<rparr>)"
| "editor_action A_force_quit e = Done (e\<lparr>ed_running := False\<rparr>)"
| "editor_action _ e = Done e"

section \<open>Commands\<close>

text \<open>
  The commands work on the editor and, through its files, on the file system server: the state
  the private data of the commands stands for. \<open>now\<close> is the time of the platform and \<open>found\<close>
  whether the name service knows a file system server.
\<close>

record session =
  s_editor :: editor
  s_link :: link

record host =
  h_now :: nat
  h_found :: bool
  h_ws_x :: int
  h_ws_y :: int

type_synonym command_result = "(session \<times> string option \<times> status) run"

definition tcl_command_hard_quit :: "session \<Rightarrow> command_result" where
  "tcl_command_hard_quit s = Done (s\<lparr>s_editor := (s_editor s)\<lparr>ed_running := False\<rparr>\<rparr>, None, S_OK)"

definition tcl_command_quit :: "session \<Rightarrow> command_result" where
  "tcl_command_quit s =
     (if ed_dirty (s_editor s) > 0 then Done (s, Some ''file has changes, use q! to quit'', S_ERR)
      else tcl_command_hard_quit s)"

text \<open>The lines are written one by one, with a line feed after each but the last.\<close>

fun write_lines :: "ou_file \<Rightarrow> string list \<Rightarrow> link \<Rightarrow> (ou_file \<times> string option) linked" where
  "write_lines f [] l = Done (l, f, None)"
| "write_lines f (x # xs) l = run_bind (file_write f (bytes_of x) l) (\<lambda>(l, f, err).
     if err \<noteq> None then Done (l, f, Some ''failed to write line'')
     else if xs = [] then Done (l, f, None)
     else run_bind (file_write f (bytes_of [CHR 0x0A]) l) (\<lambda>(l, f, err).
       if err \<noteq> None then Done (l, f, Some ''failed to write newline'') else write_lines f xs l))"

definition tcl_command_write :: "host \<Rightarrow> session \<Rightarrow> command_result" where
  "tcl_command_write h s =
     (let e = s_editor s in
      if ed_file_name e = [] then Done (s, Some ''no filename'', S_ERR)
      else run_bind (file_open (h_found h) (file_new (cstr (ed_file_name e)) M_write) (s_link s)) (\<lambda>(l, f, err).
        if err \<noteq> None then Done (s\<lparr>s_link := l\<rparr>, Some ''failed to open file for writing'', S_ERR)
        else run_bind (write_lines f (ed_file_lines e) l) (\<lambda>(l, f, msg).
          run_bind (file_delete f l) (\<lambda>(l, _). case msg of
              Some m \<Rightarrow> Done (s\<lparr>s_link := l\<rparr>, Some m, S_ERR)
            | None \<Rightarrow> Done (\<lparr>s_editor = message_set (h_now h) ''file written'' (e\<lparr>ed_dirty := 0\<rparr>), s_link = l\<rparr>, None, S_OK)))))"

definition tcl_command_togglemode :: "host \<Rightarrow> session \<Rightarrow> command_result" where
  "tcl_command_togglemode h s =
     (let e = s_editor s
      in Done (s\<lparr>s_editor := (if ed_style e = Simple_style
           then message_set (h_now h) ''vim mode'' (e\<lparr>ed_style := Vim_style, ed_mode := Normal_mode\<rparr>)
           else message_set (h_now h) ''simple mode'' (e\<lparr>ed_style := Simple_style, ed_mode := Insert_mode\<rparr>))\<rparr>, None, S_OK))"

text \<open>The commands by number, as \<open>edit_run\<close> registers them; none looks at its arguments.\<close>

definition editor_commands :: "(string \<times> func \<times> string) list" where
  "editor_commands =
    [(''q'', F_ext 0, []), (''q!'', F_ext 1, []), (''quit'', F_ext 0, []), (''quit!'', F_ext 1, []),
     (''write'', F_ext 2, []), (''w'', F_ext 2, []), (''togglemode'', F_ext 3, [])]"

definition editor_command :: "host \<Rightarrow> nat \<Rightarrow> session \<Rightarrow> string list \<Rightarrow> command_result" where
  "editor_command h k s argv =
     (if k = 0 then tcl_command_quit s
      else if k = 1 then tcl_command_hard_quit s
      else if k = 2 then tcl_command_write h s
      else tcl_command_togglemode h s)"

definition edit_env :: "bool \<Rightarrow> host \<Rightarrow> session env" where
  "edit_env sgn_char h = \<lparr>env_signed = sgn_char, env_command = editor_command h\<rparr>"

section \<open>Key presses\<close>

text \<open>The interpreter, whose external state is the session, with some fuel for \<open>eval\<close>.\<close>

definition edit_of :: "session interp \<Rightarrow> editor" where
  "edit_of i = s_editor (i_ext i)"

definition put_edit :: "editor \<Rightarrow> session interp \<Rightarrow> session interp" where
  "put_edit e i = i\<lparr>i_ext := (i_ext i)\<lparr>s_editor := e\<rparr>\<rparr>"

definition on_edit :: "(editor \<Rightarrow> editor run) \<Rightarrow> session interp \<Rightarrow> session interp run" where
  "on_edit f i = run_bind (f (edit_of i)) (\<lambda>e. Done (put_edit e i))"

definition interpret_command :: "bool \<Rightarrow> nat \<Rightarrow> host \<Rightarrow> session interp \<Rightarrow> session interp run" where
  "interpret_command sgn_char fuel h i =
     (if ed_command_line (edit_of i) = [] then Done i
      else run_bind (eval (edit_env sgn_char h) fuel i (ed_command_line (edit_of i))) (\<lambda>(i, st).
        Done (if st \<noteq> S_OK then put_edit (message_set (h_now h) (i_result i) (edit_of i)) i else i)))"

definition execute_action :: "bool \<Rightarrow> nat \<Rightarrow> host \<Rightarrow> action \<Rightarrow> session interp \<Rightarrow> session interp run" where
  "execute_action sgn_char fuel h act i =
     (if act = A_command_execute
      then run_bind (interpret_command sgn_char fuel h i) (\<lambda>i. on_edit (\<lambda>e. Done (e\<lparr>ed_command_line := [],
             ed_mode := (if ed_style e = Simple_style then Insert_mode else Normal_mode)\<rparr>)) i)
      else on_edit (editor_action act) i)"

definition printable :: "char \<Rightarrow> bool" where
  "printable c \<longleftrightarrow> 32 \<le> char_val c \<and> char_val c \<le> 126"

text \<open>The column is cut to the end of its line.\<close>

definition correct_cx :: "editor \<Rightarrow> editor" where
  "correct_cx e =
     (if to_size (ed_cy e) < n_lines e \<and> ed_cx e > of_size (length (ed_file_lines e ! to_size (ed_cy e)))
      then e\<lparr>ed_cx := of_size (length (ed_file_lines e ! to_size (ed_cy e)))\<rparr> else e)"

definition pending_key :: "host \<Rightarrow> action \<Rightarrow> editor \<Rightarrow> editor run" where
  "pending_key h act e =
     (if is_motion act
      then run_bind (execute_motion (h_ws_y h) act e) (\<lambda>e'.
             Done ((apply_operator (ed_pending e) (ed_cx e) (ed_cy e) (ed_cx e') (ed_cy e') e')\<lparr>ed_pending := Op_none\<rparr>))
      else if act = A_operator_delete \<and> ed_pending e = Op_delete_to
      then Done ((delete_line (ed_cy e) e)\<lparr>ed_pending := Op_none\<rparr>)
      else Done (e\<lparr>ed_pending := Op_none\<rparr>))"

definition unbound_key :: "key \<Rightarrow> editor \<Rightarrow> editor run" where
  "unbound_key k e =
     (if ed_mode e = Insert_mode \<and> printable (k_c k) then insert_char (k_c k) e
      else if ed_mode e = Command_mode \<and> printable (k_c k)
      then Done (e\<lparr>ed_command_line := ed_command_line e @ [k_c k]\<rparr>)
      else Done e)"

definition process_key_press :: "bool \<Rightarrow> nat \<Rightarrow> host \<Rightarrow> key option \<Rightarrow> session interp \<Rightarrow> session interp run" where
  "process_key_press sgn_char fuel h res i = (case res of None \<Rightarrow> Done i
     | Some k \<Rightarrow>
        if is_empty_key k then Done i
        else
          let e = edit_of i; act = lookup_action (ed_style e) (ed_mode e) k
          in run_bind (if ed_pending e \<noteq> Op_none then on_edit (pending_key h act) i
                       else if act \<noteq> A_none
                       then (if is_motion act then on_edit (execute_motion (h_ws_y h) act) i
                             else execute_action sgn_char fuel h act i)
                       else on_edit (unbound_key k) i) (\<lambda>i.
               Done (put_edit (correct_cx (edit_of i)) i)))"

section \<open>The screen\<close>

definition tab_size :: int where
  "tab_size = 4"

text \<open>The loop of \<open>cx_to_rx\<close> over the first columns of the line of the cursor.\<close>

fun rx_loop :: "string \<Rightarrow> nat \<Rightarrow> int \<Rightarrow> int" where
  "rx_loop x 0 r = r"
| "rx_loop [] (Suc n) r = r"
| "rx_loop (c # cs) (Suc n) r = rx_loop cs n ((if c = CHR 0x09 then r + (tab_size - 1 - r mod tab_size) else r) + 1)"

definition cx_to_rx :: "editor \<Rightarrow> int \<Rightarrow> int run" where
  "cx_to_rx e cx =
     (if cx \<le> 0 then Done 0
      else run_bind (line_at e (ed_cy e)) (\<lambda>x.
        if cx \<le> int (length x) then Done (rx_loop x (nat cx) 0) else Undefined Ub_index))"

definition scroll :: "host \<Rightarrow> editor \<Rightarrow> editor run" where
  "scroll h e = run_bind (cx_to_rx e (ed_cx e)) (\<lambda>rx.
     let e = e\<lparr>ed_rx := rx\<rparr>;
         e = (if ed_cy e < ed_row_offset e then e\<lparr>ed_row_offset := ed_cy e\<rparr> else e);
         e = (if ed_cy e \<ge> ed_row_offset e + h_ws_y h then e\<lparr>ed_row_offset := ed_cy e - h_ws_y h + 1\<rparr> else e);
         e = (if rx < ed_col_offset e then e\<lparr>ed_col_offset := rx\<rparr> else e);
         e = (if rx \<ge> ed_col_offset e + h_ws_x h then e\<lparr>ed_col_offset := rx - h_ws_x h + 1\<rparr> else e)
     in Done e)"

definition generate_status_line :: "editor \<Rightarrow> editor" where
  "generate_status_line e = e\<lparr>ed_status_line :=
     (if ed_style e = Simple_style
      then (if ed_mode e = Command_mode then ''[commnd] '' else ''[simple] '')
      else if ed_mode e = Insert_mode then ''[insert] ''
      else if ed_mode e = Command_mode then ''[commnd] ''
      else if ed_pending e = Op_delete_to then ''[normal d] '' else ''[normal] '')
     @ ed_file_name e @ (if ed_dirty e > 0 then ''*'' else '' '') @ '' '' @
     dec_int (ed_cy e + 1) @ ''/'' @ dec_int (ed_cx e + 1) @ '' ''\<rparr>"

definition screen_reset_lines :: "editor \<Rightarrow> editor" where
  "screen_reset_lines e = e\<lparr>ed_lines := map (\<lambda>_. []) (ed_lines e)\<rparr>"

definition grow_lines :: "nat \<Rightarrow> string list \<Rightarrow> string list" where
  "grow_lines y xs = xs @ replicate (Suc y - length xs) []"

fun expand_tabs :: "string \<Rightarrow> string" where
  "expand_tabs [] = []"
| "expand_tabs (c # cs) = (if c = CHR 0x09 then replicate (nat tab_size) (CHR '' '') else [c]) @ expand_tabs cs"

definition screen_put_line :: "nat \<Rightarrow> string \<Rightarrow> nat \<Rightarrow> editor \<Rightarrow> editor" where
  "screen_put_line y x cutoff e = e\<lparr>
     ed_lines := (grow_lines y (ed_lines e))[y := (if cutoff \<noteq> 0 then take cutoff x else x)],
     ed_render_lines := (grow_lines y (ed_render_lines e))[y := expand_tabs x]\<rparr>"

definition screen_append_line :: "nat \<Rightarrow> string \<Rightarrow> editor \<Rightarrow> editor" where
  "screen_append_line y x e = e\<lparr>ed_lines := (grow_lines y (ed_lines e))[y := grow_lines y (ed_lines e) ! y @ x]\<rparr>"

text \<open>The part of a line in the window.\<close>

definition window_length :: "host \<Rightarrow> editor \<Rightarrow> string \<Rightarrow> int" where
  "window_length h e x =
     (let len = of_size (length x) - ed_col_offset e; len = (if len < 0 then 0 else len)
      in if len > h_ws_x h then h_ws_x h else len)"

definition draw_row :: "host \<Rightarrow> nat \<Rightarrow> editor \<Rightarrow> editor" where
  "draw_row h y e =
     (let row = int y + ed_row_offset e in
      if to_size row < n_lines e
      then let x = ed_file_lines e ! to_size row; len = to_size (window_length h e x);
               p = clamp (length x) (to_size (ed_col_offset e))
           in screen_put_line y (take (span (length x) p len) (drop p x)) len e
      else screen_put_line y ''~'' 0 e)"

definition draw_rows :: "host \<Rightarrow> editor \<Rightarrow> editor" where
  "draw_rows h e = fold (draw_row h) [0..<nat (h_ws_y h)] e"

section \<open>Running\<close>

text \<open>
  One turn of the loop of \<open>edit_run\<close>: nothing, when the frame is not to be processed; otherwise
  the screen is prepared and a key read.
\<close>

record frame_input =
  fi_active :: bool
  fi_host :: host
  fi_key :: "key option"

definition edit_frame :: "bool \<Rightarrow> nat \<Rightarrow> frame_input \<Rightarrow> session interp \<Rightarrow> session interp run" where
  "edit_frame sgn_char fuel fi i =
     (if \<not> fi_active fi then Done i
      else run_bind (on_edit (\<lambda>e. run_bind (scroll (fi_host fi) e) (\<lambda>e.
             Done (draw_rows (fi_host fi) (generate_status_line (screen_reset_lines (message_clear (h_now (fi_host fi)) e)))))) i)
           (process_key_press sgn_char fuel (fi_host fi) (fi_key fi)))"

fun edit_loop :: "bool \<Rightarrow> nat \<Rightarrow> frame_input list \<Rightarrow> session interp \<Rightarrow> session interp run" where
  "edit_loop sgn_char fuel [] i = Done i"
| "edit_loop sgn_char fuel (fi # fis) i =
     (if ed_running (edit_of i) then run_bind (edit_frame sgn_char fuel fi i) (edit_loop sgn_char fuel fis) else Done i)"

text \<open>The loop that cuts the contents of the file into lines.\<close>

fun split_content :: "string \<Rightarrow> string \<Rightarrow> string list \<times> string" where
  "split_content cur [] = ([], cur)"
| "split_content cur (c # cs) =
     (if c = CHR 0x0A then (let (xs, r) = split_content [] cs in (cur # xs, r)) else split_content (cur @ [c]) cs)"

definition content_lines :: "string \<Rightarrow> string list" where
  "content_lines s = (let (xs, r) = split_content [] s in if r \<noteq> [] \<or> s = [] then xs @ [r] else xs)"

text \<open>
  Loading the file \<open>path\<close>; \<open>fuel\<close> bounds the chunks that are read. The second component says
  whether the editor goes on.
\<close>

definition edit_load :: "nat \<Rightarrow> host \<Rightarrow> string \<Rightarrow> session \<Rightarrow> (session \<times> bool) run" where
  "edit_load fuel h path s =
     run_bind (file_open (h_found h) (file_new (cstr path) M_read) (s_link s)) (\<lambda>(l, f, err).
       let e = (s_editor s)\<lparr>ed_file_name := cstr path\<rparr> in
       if err = Some (Err_fs Fs_file_not_found)
       then Done (\<lparr>s_editor = message_set (h_now h) ''[New File]'' (e\<lparr>ed_file_lines := ed_file_lines e @ [[]]\<rparr>), s_link = l\<rparr>, True)
       else if err \<noteq> None then Done (\<lparr>s_editor = e, s_link = l\<rparr>, False)
       else run_bind (file_read_all fuel f l) (\<lambda>(l, bs, err).
         run_bind (file_delete f l) (\<lambda>(l, _).
           if err \<noteq> None then Done (\<lparr>s_editor = e, s_link = l\<rparr>, False)
           else Done (\<lparr>s_editor = e\<lparr>ed_file_lines := ed_file_lines e @ content_lines (map char_of_byte bs)\<rparr>, s_link = l\<rparr>, True))))"

text \<open>\<open>edit_run\<close> with an interpreter and a path; \<open>setup_ok\<close> is the answer of the backend.\<close>

definition edit_run :: "bool \<Rightarrow> nat \<Rightarrow> bool \<Rightarrow> host \<Rightarrow> string option \<Rightarrow> frame_input list \<Rightarrow> session interp \<Rightarrow> session interp run" where
  "edit_run sgn_char fuel setup_ok h path fis i =
     run_bind (register_core_commands (edit_env sgn_char h) (put_edit ((edit_of i)\<lparr>ed_running := True\<rparr>) i)) (\<lambda>i.
     run_bind (register_all (edit_env sgn_char h) editor_commands i) (\<lambda>i.
       if \<not> setup_ok then Done i
       else case path of None \<Rightarrow> edit_loop sgn_char fuel fis i
       | Some p \<Rightarrow> run_bind (edit_load fuel h p (i_ext i)) (\<lambda>(s, go).
           let i = i\<lparr>i_ext := s\<rparr> in if go then edit_loop sgn_char fuel fis i else Done i)))"

end
