(* ===== verification/EditorProps.thy ===== *)
theory EditorProps
  imports Editor TclProps FileProps
begin

text \<open>
  The properties of the text editor: no key and no frame takes the cursor or an access out of the
  text, typed text arrives at the cursor and is taken back by as many backspaces, the window
  follows the cursor and shows the text, and what the write command saves is what the editor
  loads.
\<close>

section \<open>Sizes\<close>

definition tsize :: "string list \<Rightarrow> nat" where
  "tsize xs = sum_list (map (\<lambda>x. length x + 1) xs)"

lemma tsize_simps [simp]: "tsize [] = 0" "tsize (x # xs) = length x + 1 + tsize xs" "tsize (xs @ ys) = tsize xs + tsize ys"
  by (simp_all add: tsize_def)

lemma tsize_update: "k < length xs \<Longrightarrow> tsize (xs[k := y]) + length (xs ! k) = tsize xs + length y"
  by (induction xs arbitrary: k) (auto split: nat.split)

lemma tsize_insert: "tsize (take k xs @ y # drop k xs) = tsize xs + length y + 1"
proof -
  have "tsize xs = tsize (take k xs) + tsize (drop k xs)" by (metis append_take_drop_id tsize_simps(3))
  then show ?thesis by simp
qed

lemma tsize_erase: "k < length xs \<Longrightarrow> tsize (take k xs @ drop (Suc k) xs) + length (xs ! k) + 1 = tsize xs"
  using arg_cong [OF id_take_nth_drop [of k xs], of tsize] by simp

lemma tsize_length: "length xs \<le> tsize xs"
  by (induction xs) auto

lemma tsize_line: "k < length xs \<Longrightarrow> length (xs ! k) < tsize xs"
proof (induction xs arbitrary: k)
  case (Cons x xs)
  then show ?case by (cases k) (auto simp: less_Suc_eq trans_less_add2)
qed simp

lemma to_size_int [simp]: "0 \<le> x \<Longrightarrow> x < 2 ^ 32 \<Longrightarrow> to_size x = nat x"
  by (simp add: to_size_def size_mod_def)

lemma of_size_int [simp]: "n < 2 ^ 31 \<Longrightarrow> of_size n = int n"
  by (simp add: of_size_def)

text \<open>A text that can grow by one character and stay below \<open>2 ^ 31\<close>.\<close>

definition text_size :: "editor \<Rightarrow> nat" where
  "text_size e = tsize (ed_file_lines e)"

definition row_ok :: "editor \<Rightarrow> bool" where
  "row_ok e \<longleftrightarrow> 0 \<le> ed_cy e \<and> ed_cy e < int (n_lines e) \<and> 0 \<le> ed_cx e"

definition cursor_ok :: "editor \<Rightarrow> bool" where
  "cursor_ok e \<longleftrightarrow> row_ok e \<and> ed_cx e \<le> int (length (ed_file_lines e ! nat (ed_cy e)))"

text \<open>A step that has a result, keeps the cursor in a row and adds at most one character.\<close>

definition small_step :: "editor \<Rightarrow> editor run \<Rightarrow> bool" where
  "small_step e r \<longleftrightarrow> (\<exists>e'. r = Done e' \<and> row_ok e' \<and> text_size e' \<le> text_size e + 1)"

lemma small_stepI: "r = Done e' \<Longrightarrow> row_ok e' \<Longrightarrow> text_size e' \<le> text_size e + 1 \<Longrightarrow> small_step e r"
  by (auto simp: small_step_def)

lemma n_lines_size: "n_lines e \<le> text_size e"
  by (simp add: n_lines_def text_size_def tsize_length)

text \<open>The cursor's row and column as list positions.\<close>

lemma cursor_facts:
  assumes "cursor_ok e" and "text_size e < 2 ^ 31"
  obtains y p where "ed_cy e = int y" "ed_cx e = int p" "y < n_lines e" "y < length (ed_file_lines e)"
    "p \<le> length (ed_file_lines e ! y)" "n_lines e < 2 ^ 31" "length (ed_file_lines e ! y) < 2 ^ 31"
    "p < 2 ^ 31" "y < 2 ^ 31"
proof -
  let ?y = "nat (ed_cy e)" and ?p = "nat (ed_cx e)"
  have y: "?y < length (ed_file_lines e)" using assms(1) by (auto simp: cursor_ok_def row_ok_def n_lines_def)
  have "length (ed_file_lines e ! ?y) < text_size e" unfolding text_size_def by (rule tsize_line [OF y])
  moreover have "?p \<le> length (ed_file_lines e ! ?y)" using assms(1) by (auto simp: cursor_ok_def row_ok_def)
  moreover have "n_lines e < 2 ^ 31" using n_lines_size [of e] assms(2) by linarith
  ultimately show thesis using assms y by (intro that [of ?y ?p]) (auto simp: cursor_ok_def row_ok_def n_lines_def)
qed

lemma line_short: "k < length (ed_file_lines e) \<Longrightarrow> text_size e < 2 ^ 31 \<Longrightarrow> length (ed_file_lines e ! k) < 2 ^ 31"
  using tsize_line [of k "ed_file_lines e"] by (simp add: text_size_def)

section \<open>No key leaves the text\<close>

lemma motion_small:
  assumes c: "cursor_ok e" and s: "text_size e < 2 ^ 31" and m: "is_motion act"
  shows "small_step e (execute_motion w act e)"
proof -
  obtain y p where f: "ed_cy e = int y" "ed_cx e = int p" "y < n_lines e" "y < length (ed_file_lines e)"
    "p \<le> length (ed_file_lines e ! y)" "n_lines e < 2 ^ 31" "length (ed_file_lines e ! y) < 2 ^ 31"
    "p < 2 ^ 31" "y < 2 ^ 31" using cursor_facts [OF c s] .
  have up: "length (ed_file_lines e ! (y - 1)) < 2 ^ 31" using f by (intro line_short [OF _ s]) simp
  note ev = row_ok_def n_lines_def text_size_def line_at_def Let_def f(1,2) small_step_def
  have one: "Suc 0 \<le> length (ed_file_lines e)" using f(4) by simp
  from m consider "act = A_move_left" | "act = A_move_right" | "act = A_move_up" | "act = A_move_down"
    | "act = A_line_start" | "act = A_line_end" by (auto simp: is_motion_def)
  then show ?thesis
  proof cases
    case 1
    then show ?thesis using f up by (cases y) (auto simp: ev)
  qed (use f one in \<open>auto simp: ev\<close>)
qed

lemma txt_erase_short: "length (txt_erase p n x) \<le> length x"
  by (auto simp: txt_erase_def)

lemma set_line_size:
  assumes "to_size y < length (ed_file_lines e)" and "length x \<le> length (ed_file_lines e ! to_size y) + k"
  shows "text_size (set_line y x e) \<le> text_size e + k"
  using tsize_update [OF assms(1), of x] assms(2) by (simp add: text_size_def set_line_def)

lemma action_small:
  assumes c: "cursor_ok e" and s: "text_size e < 2 ^ 31"
  shows "small_step e (editor_action act e)"
proof -
  obtain y p where f: "ed_cy e = int y" "ed_cx e = int p" "y < n_lines e" "y < length (ed_file_lines e)"
    "p \<le> length (ed_file_lines e ! y)" "n_lines e < 2 ^ 31" "length (ed_file_lines e ! y) < 2 ^ 31"
    "p < 2 ^ 31" "y < 2 ^ 31" using cursor_facts [OF c s] .
  note ev = row_ok_def n_lines_def text_size_def line_at_def Let_def f(1,2) small_step_def
  let ?xs = "ed_file_lines e"
  show ?thesis
  proof (cases act)
    case A_open_below
    then show ?thesis using f tsize_insert [of "Suc y" ?xs "[]"]
      by (auto simp: ev touch_def insert_line_def to_size_def size_mod_def nat_add_distrib)
  next
    case A_newline
    have "tsize (?xs[y := take p (?xs ! y)]) + length (drop p (?xs ! y)) = tsize ?xs"
      using tsize_update [OF f(4), of "take p (?xs ! y)"] f(5) by simp
    then show ?thesis using A_newline f tsize_insert [of "Suc y" ?xs "[]"]
        tsize_insert [of "Suc y" "?xs[y := take p (?xs ! y)]" "drop p (?xs ! y)"]
      by (auto simp: ev insert_newline_def insert_line_def set_line_def nat_add_distrib)
  next
    case A_delete_back
    have up: "length (?xs ! (y - 1)) < 2 ^ 31" using f by (intro line_short [OF _ s]) simp
    show ?thesis
    proof (cases p)
      case 0
      show ?thesis
      proof (cases y)
        case (Suc z)
        have "tsize (?xs[z := ?xs ! z @ ?xs ! Suc z]) = tsize ?xs + length (?xs ! Suc z)"
          using tsize_update [of z ?xs "?xs ! z @ ?xs ! Suc z"] f(4) Suc by simp
        moreover have "tsize (take (Suc z) (?xs[z := ?xs ! z @ ?xs ! Suc z]) @ drop (Suc (Suc z)) (?xs[z := ?xs ! z @ ?xs ! Suc z]))
            + length (?xs ! Suc z) + 1 = tsize (?xs[z := ?xs ! z @ ?xs ! Suc z])"
          using tsize_erase [of "Suc z" "?xs[z := ?xs ! z @ ?xs ! Suc z]"] f(4) Suc by simp
        ultimately show ?thesis using f A_delete_back 0 Suc up
          by (auto simp: ev backspace_def touch_def erase_line_def set_line_def nat_add_distrib)
      qed (use f A_delete_back 0 in \<open>auto simp: ev backspace_def touch_def\<close>)
    next
      case (Suc q)
      have "text_size (set_line (int y) (txt_erase q 1 (?xs ! y)) e) \<le> text_size e + 0"
        using f txt_erase_short [of q 1 "?xs ! y"] by (intro set_line_size) simp_all
      then show ?thesis using f A_delete_back Suc
        by (auto simp: ev backspace_def touch_def set_line_def)
    qed
  next
    case A_delete_under
    have "text_size (set_line (int y) (txt_erase p 1 (?xs ! y)) e) \<le> text_size e + 0"
      using f txt_erase_short [of p 1 "?xs ! y"] by (intro set_line_size) simp_all
    then show ?thesis using f A_delete_under
      by (auto simp: ev touch_def set_line_def)
  qed (use f in \<open>auto simp: ev\<close>)
qed


lemma insert_char_small:
  assumes c: "cursor_ok e" and s: "text_size e < 2 ^ 31"
  shows "small_step e (insert_char ch e)"
proof -
  obtain y p where f: "ed_cy e = int y" "ed_cx e = int p" "y < n_lines e" "y < length (ed_file_lines e)"
    "p \<le> length (ed_file_lines e ! y)" "n_lines e < 2 ^ 31" "length (ed_file_lines e ! y) < 2 ^ 31"
    "p < 2 ^ 31" "y < 2 ^ 31" using cursor_facts [OF c s] .
  let ?x = "take p (ed_file_lines e ! y) @ ch # drop p (ed_file_lines e ! y)"
  have "text_size (set_line (int y) ?x e) \<le> text_size e + 1"
    using f by (intro set_line_size) simp_all
  then show ?thesis using f
    by (auto simp: insert_char_def row_ok_def n_lines_def text_size_def line_at_def Let_def f(1,2) small_step_def touch_def set_line_def)
qed

lemma apply_operator_small:
  assumes "row_ok e'" and "0 \<le> sx"
  shows "row_ok (apply_operator op sx sy (ed_cx e') (ed_cy e') e') \<and>
    text_size (apply_operator op sx sy (ed_cx e') (ed_cy e') e') \<le> text_size e'"
proof (cases "op = Op_delete_to \<and> sy = ed_cy e' \<and> to_size sy < n_lines e'")
  case True
  then have t: "to_size (ed_cy e') < length (ed_file_lines e')" by (auto simp: n_lines_def)
  have "text_size (set_line (ed_cy e') (txt_erase p n (ed_file_lines e' ! to_size (ed_cy e'))) e') \<le> text_size e' + 0" for p n
    using t txt_erase_short [of p n "ed_file_lines e' ! to_size (ed_cy e')"] by (intro set_line_size) simp_all
  then show ?thesis using True assms
    by (simp add: apply_operator_def Let_def row_ok_def touch_def set_line_def n_lines_def text_size_def)
qed (use assms in \<open>auto simp: apply_operator_def\<close>)

lemma delete_line_small:
  assumes c: "cursor_ok e" and s: "text_size e < 2 ^ 31"
  shows "row_ok (delete_line (ed_cy e) e) \<and> text_size (delete_line (ed_cy e) e) \<le> text_size e"
proof -
  obtain y p where f: "ed_cy e = int y" "ed_cx e = int p" "y < n_lines e" "y < length (ed_file_lines e)"
    "p \<le> length (ed_file_lines e ! y)" "n_lines e < 2 ^ 31" "length (ed_file_lines e ! y) < 2 ^ 31"
    "p < 2 ^ 31" "y < 2 ^ 31" using cursor_facts [OF c s] .
  let ?xs = "take y (ed_file_lines e) @ drop (Suc y) (ed_file_lines e)"
  have size: "tsize ?xs + 1 \<le> text_size e" using tsize_erase [OF f(4)] by (simp add: text_size_def)
  have len: "length ?xs = length (ed_file_lines e) - 1" using f(4) by auto
  show ?thesis
  proof (cases "?xs = []")
    case True
    have "length (ed_file_lines e) - 1 = 0" using len unfolding True by simp
    then have "y = 0" "length (ed_file_lines e) = 1" using f(4) by auto
    then show ?thesis using f size by (auto simp: delete_line_def erase_line_def Let_def touch_def row_ok_def n_lines_def text_size_def)
  next
    case False
    then have "1 \<le> length ?xs" by (simp only: Suc_le_eq One_nat_def length_greater_0_conv simp_thms)
    then show ?thesis using f size False
      by (auto simp: delete_line_def erase_line_def Let_def touch_def row_ok_def n_lines_def text_size_def)
  qed
qed

lemma pending_small:
  assumes c: "cursor_ok e" and s: "text_size e < 2 ^ 31"
  shows "small_step e (pending_key h act e)"
proof -
  have r: "row_ok e" "0 \<le> ed_cx e" using c by (auto simp: cursor_ok_def row_ok_def)
  show ?thesis
  proof (cases "is_motion act")
    case True
    obtain e' where e': "execute_motion (h_ws_y h) act e = Done e'" "row_ok e'" "text_size e' \<le> text_size e + 1"
      using motion_small [OF c s True] by (auto simp: small_step_def)
    show ?thesis using True e' apply_operator_small [OF e'(2) r(2), of "ed_pending e" "ed_cy e"]
      by (auto simp: pending_key_def small_step_def row_ok_def n_lines_def text_size_def)
  next
    case False
    then show ?thesis using delete_line_small [OF c s] r(1)
      by (auto simp: pending_key_def small_step_def row_ok_def n_lines_def text_size_def)
  qed
qed

lemma unbound_small: "cursor_ok e \<Longrightarrow> text_size e < 2 ^ 31 \<Longrightarrow> small_step e (unbound_key k e)"
  using insert_char_small [of e "k_c k"]
  by (auto simp: unbound_key_def small_step_def cursor_ok_def row_ok_def n_lines_def text_size_def)

lemma correct_cx_ok:
  assumes r: "row_ok e" and s: "text_size e < 2 ^ 31"
  shows "cursor_ok (correct_cx e)" and "text_size (correct_cx e) = text_size e"
proof -
  have y: "to_size (ed_cy e) = nat (ed_cy e)" "nat (ed_cy e) < n_lines e"
    using r s n_lines_size [of e] by (auto simp: row_ok_def)
  then have "length (ed_file_lines e ! nat (ed_cy e)) < 2 ^ 31" using s by (intro line_short) (simp add: n_lines_def)
  then show "cursor_ok (correct_cx e)" "text_size (correct_cx e) = text_size e" using r y
    by (auto simp: correct_cx_def cursor_ok_def row_ok_def n_lines_def text_size_def)
qed

text \<open>The commands leave the text and the cursor alone, so a command line does.\<close>

definition same_text :: "editor \<Rightarrow> editor \<Rightarrow> bool" where
  "same_text e e' \<longleftrightarrow> ed_file_lines e' = ed_file_lines e \<and> ed_cy e' = ed_cy e \<and> ed_cx e' = ed_cx e"

lemma same_text_ok: "same_text e e' \<Longrightarrow> cursor_ok e' = cursor_ok e \<and> row_ok e' = row_ok e \<and> text_size e' = text_size e"
  by (simp add: same_text_def cursor_ok_def row_ok_def n_lines_def text_size_def)

lemma command_same_text:
  assumes "editor_command h k s argv = Done (s', r, st)"
  shows "same_text (s_editor s) (s_editor s')"
proof -
  have q: "same_text (s_editor s) (s_editor s')" if "tcl_command_hard_quit s = Done (s', r, st)" for s'
    using that by (auto simp: tcl_command_hard_quit_def same_text_def)
  have w: "same_text (s_editor s) (s_editor s')" if run: "tcl_command_write h s = Done (s', r, st)"
  proof (cases "ed_file_name (s_editor s) = []")
    case False
    obtain l1 f1 e1 where 1: "file_open (h_found h) (file_new (cstr (ed_file_name (s_editor s))) M_write) (s_link s) = Done (l1, f1, e1)"
      using run False by (auto simp: tcl_command_write_def Let_def run_bind_Done_iff)
    show ?thesis
    proof (cases e1)
      case None
      obtain l2 f2 m where 2: "write_lines f1 (ed_file_lines (s_editor s)) l1 = Done (l2, f2, m)"
        using run False by (auto simp: tcl_command_write_def Let_def run_bind_Done_iff 1 None)
      obtain l3 where "file_delete f2 l2 = Done (l3, ())"
        using run False by (auto simp: tcl_command_write_def Let_def run_bind_Done_iff 1 2 None)
      then show ?thesis using run False
        by (cases m) (auto simp: tcl_command_write_def Let_def 1 2 None same_text_def message_set_def)
    qed (use run False in \<open>auto simp: tcl_command_write_def Let_def 1 same_text_def\<close>)
  qed (use run in \<open>auto simp: tcl_command_write_def same_text_def\<close>)
  show ?thesis using assms q w
    by (auto simp: editor_command_def tcl_command_quit_def tcl_command_togglemode_def Let_def same_text_def message_set_def
        split: if_splits)
qed

interpretation edits: interp_rel "\<lambda>_. True" "\<lambda>i i'. same_text (edit_of i) (edit_of i')" "{Ub_index}" "edit_env sgn_char h"
  for sgn_char h
proof unfold_locales
  fix i i' j k :: "session interp" and a b c n v f pd d q argv e r st
  show "same_text (edit_of i) (edit_of i)" by (simp add: same_text_def)
  show "same_text (edit_of i) (edit_of j) \<Longrightarrow> same_text (edit_of j) (edit_of k) \<Longrightarrow> same_text (edit_of i) (edit_of k)"
    by (simp add: same_text_def)
  show "same_text (edit_of i) (edit_of (i\<lparr>i_result := a, i_out := b, i_mpack := c\<rparr>))"
    by (simp add: same_text_def edit_of_def)
  show "env_command (edit_env sgn_char h) q (i_ext i) argv = Done (e, r, st) \<Longrightarrow>
      same_text (edit_of i) (edit_of (i\<lparr>i_ext := e\<rparr>)) \<and> True"
    using command_same_text by (auto simp: edit_env_def edit_of_def)
  show "post {Ub_index} (\<lambda>i'. same_text (edit_of i) (edit_of i') \<and> True) (set_var i n v)"
    by (auto simp: set_var_def same_text_def edit_of_def split: option.split list.split)
  show "post {Ub_index} (\<lambda>i'. same_text (edit_of i) (edit_of i') \<and> True) (register_command (edit_env sgn_char h) i n f pd d)"
    by (auto simp: register_command_def same_text_def edit_of_def split: option.split)
  show "post {Ub_index} (\<lambda>i''. same_text (edit_of i) (edit_of i'') \<and> True) (drop_call_frame i')"
    if "same_text (edit_of (push_frame i)) (edit_of i')"
    using that by (auto simp: drop_call_frame_def same_text_def edit_of_def push_frame_def split: list.split)
qed simp_all

lemma edit_put [simp]: "edit_of (put_edit e i) = e"
  by (simp add: edit_of_def put_edit_def)

text \<open>A step of the interpreter with the editor inside.\<close>

definition key_step :: "session interp \<Rightarrow> session interp run \<Rightarrow> bool" where
  "key_step i r \<longleftrightarrow> post {Ub_index} (\<lambda>i'. row_ok (edit_of i') \<and> text_size (edit_of i') \<le> text_size (edit_of i) + 1) r"

lemma on_edit_step: "small_step (edit_of i) (f (edit_of i)) \<Longrightarrow> key_step i (on_edit f i)"
  by (auto simp: small_step_def key_step_def on_edit_def)

lemma execute_step:
  assumes c: "cursor_ok (edit_of i)" and s: "text_size (edit_of i) < 2 ^ 31"
  shows "key_step i (execute_action sgn_char fuel h act i)"
proof (cases "act = A_command_execute")
  case False
  then show ?thesis using on_edit_step [of i "editor_action act", OF action_small [OF c s]] by (simp add: execute_action_def)
next
  case True
  let ?env = "edit_env sgn_char h"
  let ?ok = "\<lambda>i'. same_text (edit_of i) (edit_of i')"
  have ev: "post {Ub_index} (\<lambda>(i', st). ?ok i') (eval ?env fuel i (ed_command_line (edit_of i)))"
    using edits.eval_keeps [of sgn_char h fuel i "ed_command_line (edit_of i)"]
      edits.eval_avoids [of Ub_index sgn_char h fuel i "ed_command_line (edit_of i)"]
    by (cases "eval ?env fuel i (ed_command_line (edit_of i))") auto
  have cmd: "post {Ub_index} ?ok (interpret_command sgn_char fuel h i)"
    unfolding interpret_command_def
    by (auto simp: same_text_def message_set_def split: prod.split intro!: post_bind [OF ev])
  have r: "row_ok (edit_of i)" using c by (simp add: cursor_ok_def)
  show ?thesis unfolding key_step_def execute_action_def if_P [OF True] on_edit_def run_bind.simps
  proof (rule post_bind [OF cmd])
    fix i'
    assume "?ok i'"
    then have "row_ok (edit_of i') \<and> text_size (edit_of i') \<le> text_size (edit_of i) + 1" using same_text_ok r by auto
    then show "post {Ub_index} (\<lambda>i'. row_ok (edit_of i') \<and> text_size (edit_of i') \<le> text_size (edit_of i) + 1)
        (Done (put_edit ((edit_of i')\<lparr>ed_command_line := [], ed_mode := (if ed_style (edit_of i') = Simple_style then Insert_mode else Normal_mode)\<rparr>) i'))"
      by (simp add: row_ok_def n_lines_def text_size_def)
  qed
qed

lemma key_press_keeps:
  assumes c: "cursor_ok (edit_of i)" and s: "text_size (edit_of i) + 1 < 2 ^ 31"
  shows "post {Ub_index} (\<lambda>i'. cursor_ok (edit_of i') \<and> text_size (edit_of i') \<le> text_size (edit_of i) + 1)
    (process_key_press sgn_char fuel h res i)"
proof (cases res)
  case None
  then show ?thesis using c by (simp add: process_key_press_def)
next
  case (Some k)
  have s': "text_size (edit_of i) < 2 ^ 31" using s by simp
  let ?act = "lookup_action (ed_style (edit_of i)) (ed_mode (edit_of i)) k"
  have step: "key_step i (if ed_pending (edit_of i) \<noteq> Op_none then on_edit (pending_key h ?act) i
       else if ?act \<noteq> A_none
       then (if is_motion ?act then on_edit (execute_motion (h_ws_y h) ?act) i else execute_action sgn_char fuel h ?act i)
       else on_edit (unbound_key k) i)"
    using on_edit_step [of i "pending_key h ?act", OF pending_small [OF c s']]
      on_edit_step [of i "execute_motion (h_ws_y h) ?act", OF motion_small [OF c s']]
      on_edit_step [of i "unbound_key k", OF unbound_small [OF c s']] execute_step [OF c s'] by (simp split del: if_split split: if_splits)
  show ?thesis
  proof (cases "is_empty_key k")
    case False
    show ?thesis unfolding process_key_press_def Some option.case if_not_P [OF False] Let_def
      by (rule post_bind [OF step [unfolded key_step_def]]) (use s correct_cx_ok in auto)
  qed (use Some c in \<open>simp add: process_key_press_def\<close>)
qed


section \<open>The window\<close>

lemma rx_loop_bounds: "0 \<le> r \<Longrightarrow> r \<le> rx_loop x n r \<and> rx_loop x n r \<le> r + 4 * int n"
proof (induction x n r rule: rx_loop.induct)
  case (3 c cs n r)
  let ?r = "(if c = CHR 0x09 then r + (tab_size - 1 - r mod tab_size) else r) + 1"
  have m: "0 \<le> r mod 4" "r mod 4 < 4" by simp_all
  then have "r \<le> ?r" "?r \<le> r + 4" unfolding tab_size_def by auto
  with "3.IH" "3.prems" show ?case unfolding rx_loop.simps by simp
qed simp_all

lemma cx_to_rx_at:
  assumes c: "cursor_ok e" and s: "text_size e < 2 ^ 31"
  shows "cx_to_rx e (ed_cx e) = Done (rx_loop (ed_file_lines e ! nat (ed_cy e)) (nat (ed_cx e)) 0)"
proof -
  obtain y p where f: "ed_cy e = int y" "ed_cx e = int p" "y < n_lines e" "y < length (ed_file_lines e)"
    "p \<le> length (ed_file_lines e ! y)" "n_lines e < 2 ^ 31" "length (ed_file_lines e ! y) < 2 ^ 31"
    "p < 2 ^ 31" "y < 2 ^ 31" using cursor_facts [OF c s] .
  have "rx_loop x 0 0 = 0" for x by simp
  then show ?thesis using f by (cases p) (auto simp: cx_to_rx_def line_at_def)
qed

text \<open>What scrolling establishes.\<close>

definition in_window :: "host \<Rightarrow> editor \<Rightarrow> bool" where
  "in_window h e \<longleftrightarrow> ed_row_offset e \<le> ed_cy e \<and> ed_cy e < ed_row_offset e + h_ws_y h \<and>
     ed_col_offset e \<le> ed_rx e \<and> ed_rx e < ed_col_offset e + h_ws_x h"

definition window_start :: "int \<Rightarrow> int \<Rightarrow> int \<Rightarrow> int" where
  "window_start p start w = (let q = min p start in if p \<ge> q + w then p - w + 1 else q)"

lemma scroll_eq:
  "scroll h e = run_bind (cx_to_rx e (ed_cx e)) (\<lambda>rx. Done (e\<lparr>ed_rx := rx,
     ed_row_offset := window_start (ed_cy e) (ed_row_offset e) (h_ws_y h),
     ed_col_offset := window_start rx (ed_col_offset e) (h_ws_x h)\<rparr>))"
proof -
  have rows: "(let e1 = (if ed_cy e < ed_row_offset e then e\<lparr>ed_row_offset := ed_cy e\<rparr> else e)
      in if ed_cy e1 \<ge> ed_row_offset e1 + h_ws_y h then e1\<lparr>ed_row_offset := ed_cy e1 - h_ws_y h + 1\<rparr> else e1) =
    e\<lparr>ed_row_offset := window_start (ed_cy e) (ed_row_offset e) (h_ws_y h)\<rparr>" for e
    by (cases e) (simp add: window_start_def Let_def min_def)
  have cols: "(let e1 = (if rx < ed_col_offset e then e\<lparr>ed_col_offset := rx\<rparr> else e)
      in if rx \<ge> ed_col_offset e1 + h_ws_x h then e1\<lparr>ed_col_offset := rx - h_ws_x h + 1\<rparr> else e1) =
    e\<lparr>ed_col_offset := window_start rx (ed_col_offset e) (h_ws_x h)\<rparr>" for rx e
    by (cases e) (simp add: window_start_def Let_def min_def)
  have split: "(let e = e\<lparr>ed_rx := rx\<rparr>; e = f1 e; e = f2 e; e = f3 e; e = f4 e in Done e) =
     Done (let e2 = (let e1 = f1 (e\<lparr>ed_rx := rx\<rparr>) in f2 e1) in let e3 = f3 e2 in f4 e3)"
    for e rx f1 f2 f3 f4 by (simp add: Let_def)
  show ?thesis unfolding scroll_def split rows cols by simp
qed

lemma scroll_at:
  assumes c: "cursor_ok e" and s: "text_size e < 2 ^ 31"
  shows "\<exists>e'. scroll h e = Done e' \<and> same_text e e' \<and>
    ed_rx e' = rx_loop (ed_file_lines e ! nat (ed_cy e)) (nat (ed_cx e)) 0 \<and>
    (0 < h_ws_x h \<and> 0 < h_ws_y h \<longrightarrow> in_window h e') \<and>
    (0 < h_ws_y h \<and> 0 \<le> ed_row_offset e \<longrightarrow> 0 \<le> ed_row_offset e') \<and>
    (0 < h_ws_x h \<and> 0 \<le> ed_col_offset e \<longrightarrow> 0 \<le> ed_col_offset e')"
proof -
  let ?rx = "rx_loop (ed_file_lines e ! nat (ed_cy e)) (nat (ed_cx e)) 0"
  have "0 \<le> ?rx" "0 \<le> ed_cy e" using rx_loop_bounds [of 0] c by (simp_all add: cursor_ok_def row_ok_def)
  note pos = this
  show ?thesis
    unfolding scroll_eq cx_to_rx_at [OF c s] run_bind.simps
    by (intro exI conjI, rule refl) (use pos in \<open>auto simp: same_text_def in_window_def window_start_def Let_def\<close>)
qed

text \<open>A drawn row.\<close>

definition visible_row :: "host \<Rightarrow> editor \<Rightarrow> nat \<Rightarrow> string" where
  "visible_row h e y =
     (if y + nat (ed_row_offset e) < n_lines e
      then take (nat (h_ws_x h)) (drop (nat (ed_col_offset e)) (ed_file_lines e ! (y + nat (ed_row_offset e))))
      else ''~'')"

lemma draw_row_at:
  assumes s: "text_size e < 2 ^ 31" and r: "0 \<le> ed_row_offset e" "int y + ed_row_offset e < 2 ^ 31"
    and c: "0 \<le> ed_col_offset e" "ed_col_offset e < 2 ^ 31" and w: "0 < h_ws_x h" "h_ws_x h < 2 ^ 31"
  shows "\<exists>k. draw_row h y e = screen_put_line y (visible_row h e y) k e \<and> (k \<noteq> 0 \<longrightarrow> length (visible_row h e y) \<le> k)"
proof -
  let ?row = "y + nat (ed_row_offset e)"
  have row: "to_size (int y + ed_row_offset e) = ?row" using r by (simp add: nat_add_distrib)
  show ?thesis
  proof (cases "?row < n_lines e")
    case False
    then show ?thesis using row by (auto simp: draw_row_def visible_row_def Let_def intro!: exI [of _ 0])
  next
    case True
    let ?x = "ed_file_lines e ! ?row" and ?col = "nat (ed_col_offset e)"
    have len: "length ?x < 2 ^ 31" using True s by (intro line_short) (simp_all add: n_lines_def)
    let ?len = "min (length ?x - ?col) (nat (h_ws_x h))"
    have wl: "to_size (window_length h e ?x) = ?len"
    proof -
      have "window_length h e ?x = int ?len" using len c w by (auto simp: window_length_def Let_def)
      moreover have "to_size (int ?len) = nat (int ?len)" using len by (intro to_size_int) auto
      ultimately show ?thesis by simp
    qed
    have col: "to_size (ed_col_offset e) = ?col" using c by simp
    have cl: "clamp (length ?x) ?col = min ?col (length ?x)" by (simp add: clamp_def min_def)
    have "min a b + min (b - a) c \<le> b" for a b c :: nat by (cases "a \<le> b") auto
    then have fits: "min ?col (length ?x) + ?len \<le> length ?x" .
    then have "min ?col (length ?x) + ?len < size_mod" using len unfolding size_mod_def
      by (intro order_le_less_trans [OF fits]) simp
    from sz_small [OF this] fits have "sz (min ?col (length ?x) + ?len) \<le> length ?x" by (simp only:)
    then have "span (length ?x) (min ?col (length ?x)) ?len = ?len" by (simp add: span_def)
    moreover have "take ?len (drop ?col ?x) = take (nat (h_ws_x h)) (drop ?col ?x)" by (simp add: min_def)
    moreover have "drop (min ?col (length ?x)) ?x = drop ?col ?x" by (simp add: min_def)
    ultimately have part: "take (span (length ?x) (clamp (length ?x) ?col) ?len) (drop (clamp (length ?x) ?col) ?x) = visible_row h e y"
      using True unfolding cl visible_row_def by simp
    have "draw_row h y e = screen_put_line y (visible_row h e y) ?len e"
      unfolding draw_row_def row Let_def if_P [OF True] wl col part ..
    moreover have "length (visible_row h e y) \<le> ?len" using True by (simp add: visible_row_def)
    ultimately show ?thesis by (intro exI [of _ ?len]) simp
  qed
qed

lemma grow_lines_nth: "z < length xs \<Longrightarrow> grow_lines y xs ! z = xs ! z" and grow_lines_length: "length (grow_lines y xs) = max (length xs) (Suc y)"
  by (auto simp: grow_lines_def nth_append)

lemma put_line_at:
  assumes "k \<noteq> 0 \<longrightarrow> length x \<le> k"
  shows "ed_lines (screen_put_line y x k e) ! y = x" "ed_render_lines (screen_put_line y x k e) ! y = expand_tabs x"
    and "z < y \<Longrightarrow> z < length (ed_lines e) \<Longrightarrow> ed_lines (screen_put_line y x k e) ! z = ed_lines e ! z"
    and "z < y \<Longrightarrow> z < length (ed_render_lines e) \<Longrightarrow> ed_render_lines (screen_put_line y x k e) ! z = ed_render_lines e ! z"
    and "y < length (ed_lines (screen_put_line y x k e))" "length (ed_lines e) \<le> length (ed_lines (screen_put_line y x k e))"
    and "y < length (ed_render_lines (screen_put_line y x k e))" "length (ed_render_lines e) \<le> length (ed_render_lines (screen_put_line y x k e))"
  using assms by (auto simp: screen_put_line_def grow_lines_nth grow_lines_length)

text \<open>What the screen rows do not depend on.\<close>

definition same_view :: "editor \<Rightarrow> editor \<Rightarrow> bool" where
  "same_view e e' \<longleftrightarrow> same_text e e' \<and> ed_row_offset e' = ed_row_offset e \<and> ed_col_offset e' = ed_col_offset e \<and> ed_rx e' = ed_rx e"

lemma same_view_visible: "same_view e e' \<Longrightarrow> visible_row h e' = visible_row h e"
  by (rule ext) (simp add: visible_row_def same_view_def same_text_def n_lines_def)

lemma draw_row_view: "same_view e (draw_row h y e)"
  by (simp add: draw_row_def screen_put_line_def same_view_def same_text_def Let_def)

lemma draw_rows_at:
  assumes s: "text_size e < 2 ^ 31" and r: "0 \<le> ed_row_offset e" "int n + ed_row_offset e < 2 ^ 31"
    and c: "0 \<le> ed_col_offset e" "ed_col_offset e < 2 ^ 31" and w: "0 < h_ws_x h" "h_ws_x h < 2 ^ 31"
  shows "same_view e (fold (draw_row h) [0..<n] e) \<and> n \<le> length (ed_lines (fold (draw_row h) [0..<n] e)) \<and>
    n \<le> length (ed_render_lines (fold (draw_row h) [0..<n] e)) \<and>
    (\<forall>y<n. ed_lines (fold (draw_row h) [0..<n] e) ! y = visible_row h e y \<and>
       ed_render_lines (fold (draw_row h) [0..<n] e) ! y = expand_tabs (visible_row h e y))"
  using r(2)
proof (induction n)
  case 0
  then show ?case by (simp add: same_view_def same_text_def)
next
  case (Suc n)
  let ?e = "fold (draw_row h) [0..<n] e"
  have IH: "same_view e ?e" "n \<le> length (ed_lines ?e)" "n \<le> length (ed_render_lines ?e)"
    "\<And>y. y < n \<Longrightarrow> ed_lines ?e ! y = visible_row h e y \<and> ed_render_lines ?e ! y = expand_tabs (visible_row h e y)"
    using Suc by auto
  have v: "text_size ?e < 2 ^ 31" "0 \<le> ed_row_offset ?e" "int n + ed_row_offset ?e < 2 ^ 31" "0 \<le> ed_col_offset ?e" "ed_col_offset ?e < 2 ^ 31"
    using IH(1) s r c Suc.prems by (simp_all add: same_view_def same_text_def text_size_def)
  obtain k where k: "draw_row h n ?e = screen_put_line n (visible_row h e n) k ?e" "k \<noteq> 0 \<longrightarrow> length (visible_row h e n) \<le> k"
    using draw_row_at [OF v w] same_view_visible [OF IH(1)] by auto
  have view: "same_view e (draw_row h n ?e)" using IH(1) draw_row_view [of ?e h n] by (simp add: same_view_def same_text_def)
  note put = put_line_at [OF k(2), where y = n and e = ?e]
  have "ed_lines (draw_row h n ?e) ! y = visible_row h e y \<and> ed_render_lines (draw_row h n ?e) ! y = expand_tabs (visible_row h e y)"
    if "y < Suc n" for y
  proof (cases "y = n")
    case True
    then show ?thesis using put(1,2) by (simp add: k(1))
  next
    case False
    then show ?thesis using that IH(2,3) put(3,4) [of y] IH(4) [of y] by (simp add: k(1))
  qed
  then show ?case using view put(5,7) by (simp add: k(1))
qed

section \<open>The loop\<close>

lemma draw_rows_view: "same_view e (draw_rows h e)"
proof -
  have "same_view e (fold (draw_row h) ys e)" for ys
  proof (induction ys arbitrary: e)
    case (Cons y ys)
    show ?case using Cons [of "draw_row h y e"] draw_row_view [of e h y] by (simp add: same_view_def same_text_def)
  qed (simp add: same_view_def same_text_def)
  then show ?thesis by (simp add: draw_rows_def)
qed

lemma frame_keeps:
  assumes c: "cursor_ok (edit_of i)" and s: "text_size (edit_of i) + 1 < 2 ^ 31"
  shows "post {Ub_index} (\<lambda>i'. cursor_ok (edit_of i') \<and> text_size (edit_of i') \<le> text_size (edit_of i) + 1)
    (edit_frame sgn_char fuel fi i)"
proof (cases "fi_active fi")
  case False
  then show ?thesis using c by (simp add: edit_frame_def)
next
  case True
  let ?h = "fi_host fi"
  have "text_size (edit_of i) < 2 ^ 31" using s by simp
  from scroll_at [OF c this, of ?h] obtain e1 where e1: "scroll ?h (edit_of i) = Done e1" "same_text (edit_of i) e1" by blast
  let ?e = "draw_rows ?h (generate_status_line (screen_reset_lines (message_clear (h_now ?h) e1)))"
  have "same_text e1 (generate_status_line (screen_reset_lines (message_clear (h_now ?h) e1)))"
    by (simp add: same_text_def generate_status_line_def screen_reset_lines_def message_clear_def)
  then have "same_text (edit_of i) ?e" using e1(2) draw_rows_view [of _ ?h] unfolding same_view_def same_text_def by metis
  then have "cursor_ok ?e" "text_size ?e = text_size (edit_of i)" using same_text_ok c by auto
  then show ?thesis using key_press_keeps [of "put_edit ?e i" sgn_char fuel ?h "fi_key fi"] s True
    by (simp add: edit_frame_def on_edit_def e1(1))
qed

lemma loop_keeps:
  "cursor_ok (edit_of i) \<Longrightarrow> text_size (edit_of i) + length fis < 2 ^ 31 \<Longrightarrow>
   post {Ub_index} (\<lambda>i'. cursor_ok (edit_of i') \<and> text_size (edit_of i') \<le> text_size (edit_of i) + length fis)
     (edit_loop sgn_char fuel fis i)"
proof (induction fis arbitrary: i)
  case (Cons fi fis)
  have "text_size (edit_of i) + 1 < 2 ^ 31" using Cons.prems(2) by simp
  note frame = frame_keeps [OF Cons.prems(1) this, of sgn_char fuel fi]
  show ?case
  proof (cases "ed_running (edit_of i)")
    case True
    show ?thesis unfolding edit_loop.simps if_P [OF True]
    proof (rule post_bind [OF frame])
      fix i'
      assume i': "cursor_ok (edit_of i') \<and> text_size (edit_of i') \<le> text_size (edit_of i) + 1"
      show "post {Ub_index} (\<lambda>i'. cursor_ok (edit_of i') \<and> text_size (edit_of i') \<le> text_size (edit_of i) + length (fi # fis))
          (edit_loop sgn_char fuel fis i')"
        by (rule post_mono [OF Cons.IH]) (use i' Cons.prems in auto)
    qed
  qed (use Cons.prems in simp)
qed simp


section \<open>Typing\<close>

text \<open>What drawing a frame leaves alone.\<close>

definition same_editing :: "editor \<Rightarrow> editor \<Rightarrow> bool" where
  "same_editing e e' \<longleftrightarrow> same_text e e' \<and> ed_mode e' = ed_mode e \<and> ed_style e' = ed_style e \<and> ed_pending e' = ed_pending e \<and>
     ed_running e' = ed_running e \<and> ed_command_line e' = ed_command_line e \<and> ed_file_name e' = ed_file_name e \<and> ed_dirty e' = ed_dirty e"

lemma same_editing_refl [simp]: "same_editing e e"
  by (simp add: same_editing_def same_text_def)

lemma same_editing_trans: "same_editing e e' \<Longrightarrow> same_editing e' e'' \<Longrightarrow> same_editing e e''"
  by (simp add: same_editing_def same_text_def)

lemma draw_rows_editing: "same_editing e (draw_rows h e)"
proof -
  have row: "same_editing e (draw_row h y e)" for y e
    by (simp add: draw_row_def screen_put_line_def same_editing_def same_text_def Let_def)
  have "same_editing e (fold (draw_row h) ys e)" for ys
    by (induction ys arbitrary: e) (use row same_editing_trans in \<open>auto, blast\<close>)
  then show ?thesis by (simp add: draw_rows_def)
qed

lemma scroll_editing: "scroll h e = Done e' \<Longrightarrow> same_editing e e'"
  by (auto simp: scroll_eq run_bind_Done_iff same_editing_def same_text_def)

definition frame_of :: "host \<Rightarrow> key \<Rightarrow> frame_input" where
  "frame_of h k = \<lparr>fi_active = True, fi_host = h, fi_key = Some k\<rparr>"

lemma frame_prepared:
  assumes c: "cursor_ok (edit_of i)" and s: "text_size (edit_of i) < 2 ^ 31"
  shows "\<exists>e. same_editing (edit_of i) e \<and>
    edit_frame sgn_char fuel (frame_of h k) i = process_key_press sgn_char fuel h (Some k) (put_edit e i)"
proof -
  obtain e1 where e1: "scroll h (edit_of i) = Done e1" using scroll_at [OF c s] by blast
  let ?e = "generate_status_line (screen_reset_lines (message_clear (h_now h) e1))"
  have "same_editing e1 ?e"
    by (simp add: same_editing_def same_text_def generate_status_line_def screen_reset_lines_def message_clear_def)
  then have "same_editing (edit_of i) (draw_rows h ?e)"
    using scroll_editing [OF e1] draw_rows_editing same_editing_trans by blast
  then show ?thesis by (intro exI [of _ "draw_rows h ?e"]) (simp add: edit_frame_def frame_of_def on_edit_def e1)
qed

lemma edit_loop_append: "edit_loop sgn_char fuel (xs @ ys) i = run_bind (edit_loop sgn_char fuel xs i) (edit_loop sgn_char fuel ys)"
proof (induction xs arbitrary: i)
  case (Cons x xs)
  have "edit_loop sgn_char fuel ys i = Done i" if "\<not> ed_running (edit_of i)" using that by (cases ys) auto
  then show ?case using Cons by (cases "edit_frame sgn_char fuel x i") auto
qed simp

text \<open>
  The specification: a text with a gap, the characters before the cursor and the ones after it.
\<close>

type_synonym gap = "string \<times> string"

definition lf :: char where
  "lf = CHR 0x0A"

definition gap_of :: "editor \<Rightarrow> gap" where
  "gap_of e = (let xs = ed_file_lines e; y = nat (ed_cy e); p = nat (ed_cx e) in
     (concat (map (\<lambda>x. x @ [lf]) (take y xs)) @ take p (xs ! y), drop p (xs ! y) @ concat (map (\<lambda>x. lf # x) (drop (Suc y) xs))))"

definition gap_key :: "key \<Rightarrow> gap \<Rightarrow> gap" where
  "gap_key k g = (let l = fst g; r = snd g in
     if k_ext k = Ext_none then (l @ [k_c k], r)
     else if k_ext k = Ext_enter then (l @ [lf], r)
     else if k_ext k = Ext_backspace then (butlast l, r)
     else if k_ext k = Ext_left then (if l = [] then (l, r) else (butlast l, last l # r))
     else if r = [] then (l, r) else (l @ [hd r], tl r))"

definition typing_key :: "key \<Rightarrow> bool" where
  "typing_key k \<longleftrightarrow> k = key_char (k_c k) \<and> printable (k_c k) \<or>
     k \<in> {key_ext Ext_enter, key_ext Ext_backspace, key_ext Ext_left, key_ext Ext_right}"

text \<open>The editor takes text: insert mode, no operator pending.\<close>

definition typing :: "editor \<Rightarrow> bool" where
  "typing e \<longleftrightarrow> ed_mode e = Insert_mode \<and> ed_pending e = Op_none \<and> ed_running e"

definition cursor_at :: "editor \<Rightarrow> string list \<Rightarrow> string \<Rightarrow> string \<Rightarrow> string list \<Rightarrow> bool" where
  "cursor_at e pre x y suf \<longleftrightarrow> ed_file_lines e = pre @ (x @ y) # suf \<and> ed_cy e = int (length pre) \<and> ed_cx e = int (length x)"

lemma gap_at: "cursor_at e pre x y suf \<Longrightarrow>
    gap_of e = (concat (map (\<lambda>x. x @ [lf]) pre) @ x, y @ concat (map (\<lambda>x. lf # x) suf))"
  by (simp add: cursor_at_def gap_of_def Let_def)

lemma cursor_split:
  assumes "cursor_ok e"
  obtains pre x y suf where "cursor_at e pre x y suf"
proof -
  let ?y = "nat (ed_cy e)" and ?p = "nat (ed_cx e)" and ?xs = "ed_file_lines e"
  have y: "?y < length ?xs" "?p \<le> length (?xs ! ?y)" "0 \<le> ed_cy e" "0 \<le> ed_cx e"
    using assms by (auto simp: cursor_ok_def row_ok_def n_lines_def)
  have "?xs = take ?y ?xs @ (take ?p (?xs ! ?y) @ drop ?p (?xs ! ?y)) # drop (Suc ?y) ?xs"
    using id_take_nth_drop [OF y(1)] by simp
  then show thesis using y by (intro that [of "take ?y ?xs" "take ?p (?xs ! ?y)" "drop ?p (?xs ! ?y)" "drop (Suc ?y) ?xs"])
      (simp add: cursor_at_def)
qed

lemma at_ok: "cursor_at e pre x y suf \<Longrightarrow> cursor_ok e"
  by (auto simp: cursor_at_def cursor_ok_def row_ok_def n_lines_def)

lemma at_sizes:
  assumes "cursor_at e pre x y suf" and "text_size e < 2 ^ 31"
  shows "length pre + length suf + 1 < 2 ^ 31" "length x + length y < 2 ^ 31" "length x < 2 ^ 31" "length pre < 2 ^ 31"
    "pre = pre' @ [z] \<Longrightarrow> length z + length x + length y < 2 ^ 31"
  using assms tsize_length [of pre] tsize_length [of suf] by (auto simp: cursor_at_def text_size_def)

text \<open>The lines around the cursor, as the code reaches them.\<close>

lemma at_code:
  assumes a: "cursor_at e pre x y suf" and s: "text_size e < 2 ^ 31"
  shows "to_size (ed_cy e) = length pre" "to_size (ed_cx e) = length x" "length pre < n_lines e"
    "ed_file_lines e ! length pre = x @ y" "line_at e (ed_cy e) = Done (x @ y)" "n_lines e = length pre + length suf + 1"
  using a at_sizes [OF a s] by (simp_all add: cursor_at_def n_lines_def line_at_def)

text \<open>What editing the text leaves alone.\<close>

definition edited :: "editor \<Rightarrow> editor \<Rightarrow> bool" where
  "edited e e' \<longleftrightarrow> ed_mode e' = ed_mode e \<and> ed_style e' = ed_style e \<and> ed_pending e' = ed_pending e \<and>
     ed_running e' = ed_running e \<and> ed_command_line e' = ed_command_line e \<and> ed_file_name e' = ed_file_name e"

text \<open>No line holds a line feed.\<close>

definition plain :: "editor \<Rightarrow> bool" where
  "plain e \<longleftrightarrow> list_all (\<lambda>x. lf \<notin> set x) (ed_file_lines e)"

lemma edited_trans: "edited e e' \<Longrightarrow> edited e' e'' \<Longrightarrow> edited e e''"
  by (simp add: edited_def)

lemma same_editing_edited: "same_editing e e' \<Longrightarrow> edited e e'"
  by (simp add: edited_def same_editing_def)

lemma insert_char_at:
  assumes a: "cursor_at e pre x y suf" and s: "text_size e < 2 ^ 31"
  shows "\<exists>e'. insert_char c e = Done e' \<and> cursor_at e' pre (x @ [c]) y suf \<and> edited e e'"
  using a at_code [OF a s]
  by (simp add: insert_char_def Let_def touch_def set_line_def cursor_at_def edited_def list_update_append)

lemma newline_at:
  assumes a: "cursor_at e pre x y suf" and s: "text_size e < 2 ^ 31"
  shows "\<exists>e'. insert_newline e = Done e' \<and> cursor_at e' (pre @ [x]) [] y suf \<and> edited e e'"
proof -
  have "to_size (ed_cy e + 1) = Suc (length pre)" using a at_sizes [OF a s] by (simp add: cursor_at_def nat_add_distrib)
  then show ?thesis using a at_code [OF a s]
    by (simp add: insert_newline_def Let_def insert_line_def set_line_def cursor_at_def edited_def list_update_append)
qed

lemma txt_erase_one: "txt_erase (length x) 1 (x @ c # y) = x @ y" if "length x + length y < 2 ^ 31"
  using that by (simp add: txt_erase_def span_def sz_def size_mod_def)

lemma backspace_at:
  assumes a: "cursor_at e pre x y suf" and s: "text_size e < 2 ^ 31"
  shows "\<exists>e'. backspace e = Done e' \<and> gap_of e' = (butlast (fst (gap_of e)), snd (gap_of e)) \<and> cursor_ok e' \<and>
    edited e e' \<and> (plain e \<longrightarrow> plain e')"
proof (cases x rule: rev_cases)
  case (snoc x' c)
  have "to_size (ed_cx e - 1) = length x'" using a snoc at_sizes [OF a s] by (simp add: cursor_at_def)
  moreover have "txt_erase (length x') 1 (x' @ c # y) = x' @ y" using at_sizes [OF a s] snoc by (intro txt_erase_one) simp
  ultimately obtain e' where e': "backspace e = Done e'" "cursor_at e' pre x' y suf"
      "edited e e'"
    using a at_code [OF a s] snoc
    by (auto simp: backspace_def touch_def set_line_def cursor_at_def edited_def list_update_append)
  moreover have "plain e \<longrightarrow> plain e'" using a e'(2) snoc by (simp add: plain_def cursor_at_def)
  ultimately show ?thesis using gap_at [OF a] gap_at [OF e'(2)] at_ok [OF e'(2)] snoc by (simp add: butlast_append)
next
  case Nil
  show ?thesis
  proof (cases pre rule: rev_cases)
    case Nil
    then show ?thesis using a \<open>x = []\<close> gap_at [OF a] at_ok [OF a]
      by (simp add: backspace_def cursor_at_def touch_def edited_def plain_def cursor_ok_def row_ok_def n_lines_def gap_of_def)
  next
    case (snoc pre' z)
    have z: "length z < 2 ^ 31" using at_sizes(5) [OF a s snoc] by simp
    have k: "to_size (int (length pre')) = length pre'" "to_size (int (length pre') + 1) = Suc (length pre')" "to_size (1 + int (length pre')) = Suc (length pre')"
      using snoc at_sizes [OF a s] by (simp_all add: nat_add_distrib)
    then obtain e' where e': "backspace e = Done e'" "cursor_at e' pre' z y suf"
        "edited e e'"
      using a at_code [OF a s] Nil snoc z
      by (auto simp: backspace_def touch_def set_line_def erase_line_def line_at_def n_lines_def cursor_at_def edited_def nth_append list_update_append Let_def)
    moreover have "plain e \<longrightarrow> plain e'" using a e'(2) snoc Nil by (simp add: plain_def cursor_at_def)
    ultimately show ?thesis using gap_at [OF a] gap_at [OF e'(2)] at_ok [OF e'(2)] snoc Nil by (simp add: butlast_append)
  qed
qed


lemma left_at:
  assumes a: "cursor_at e pre x y suf" and s: "text_size e < 2 ^ 31"
  shows "\<exists>e'. execute_motion w A_move_left e = Done e' \<and> gap_of e' = gap_key (key_ext Ext_left) (gap_of e) \<and>
    cursor_ok e' \<and> edited e e' \<and> ed_file_lines e' = ed_file_lines e"
proof (cases x rule: rev_cases)
  case (snoc x' c)
  let ?e = "e\<lparr>ed_cx := ed_cx e - 1\<rparr>"
  have "cursor_at ?e pre x' (c # y) suf" using a snoc by (simp add: cursor_at_def)
  then show ?thesis using a snoc gap_at [OF a] gap_at [of ?e pre x' "c # y" suf] at_ok [of ?e pre x' "c # y" suf]
    by (simp add: cursor_at_def gap_key_def key_ext_def edited_def Let_def butlast_append)
next
  case Nil
  show ?thesis
  proof (cases pre rule: rev_cases)
    case Nil
    then show ?thesis using a \<open>x = []\<close> gap_at [OF a] at_ok [OF a]
      by (simp add: cursor_at_def edited_def gap_key_def key_ext_def)
  next
    case (snoc pre' z)
    have k: "to_size (int (length pre')) = length pre'" "length z < 2 ^ 31" using snoc at_sizes [OF a s] by simp_all
    let ?e = "e\<lparr>ed_cy := int (length pre'), ed_cx := int (length z)\<rparr>"
    have "cursor_at ?e pre' z [] ((x @ y) # suf)" using a snoc Nil by (simp add: cursor_at_def)
    then show ?thesis using a snoc Nil k gap_at [OF a] gap_at [of ?e pre' z "[]" "(x @ y) # suf"] at_ok [of ?e pre' z "[]" "(x @ y) # suf"]
      by (simp add: cursor_at_def line_at_def n_lines_def gap_key_def key_ext_def edited_def Let_def butlast_append nth_append)
  qed
qed

lemma right_at:
  assumes a: "cursor_at e pre x y suf" and s: "text_size e < 2 ^ 31"
  shows "\<exists>e'. execute_motion w A_move_right e = Done e' \<and> gap_of e' = gap_key (key_ext Ext_right) (gap_of e) \<and>
    cursor_ok e' \<and> edited e e' \<and> ed_file_lines e' = ed_file_lines e"
proof (cases y)
  case (Cons c y')
  let ?e = "e\<lparr>ed_cx := ed_cx e + 1\<rparr>"
  have "cursor_at ?e pre (x @ [c]) y' suf" using a Cons by (simp add: cursor_at_def)
  then show ?thesis using at_code [OF a s] Cons gap_at [OF a] gap_at [of ?e pre "x @ [c]" y' suf] at_ok [of ?e pre "x @ [c]" y' suf]
    by (simp add: gap_key_def key_ext_def edited_def Let_def)
next
  case Nil
  show ?thesis
  proof (cases suf)
    case Nil
    then show ?thesis using \<open>y = []\<close> at_code [OF a s] gap_at [OF a] at_ok [OF a]
      by (simp add: edited_def gap_key_def key_ext_def)
  next
    case (Cons z suf')
    let ?e = "e\<lparr>ed_cy := ed_cy e + 1, ed_cx := 0\<rparr>"
    have "cursor_at ?e (pre @ [x]) [] z suf'" using a Cons Nil by (simp add: cursor_at_def)
    then show ?thesis using Cons Nil at_code [OF a s] gap_at [OF a] gap_at [of ?e "pre @ [x]" "[]" z suf'] at_ok [of ?e "pre @ [x]" "[]" z suf']
      by (simp add: gap_key_def key_ext_def edited_def Let_def)
  qed
qed

text \<open>The actions of the keys.\<close>

lemmas key_defs = key_char_def key_ctrl_def key_alt_def key_ext_def keys_match_def

lemma typing_actions:
  "lookup_action style Insert_mode (key_char c) = A_none"
  "lookup_action style Insert_mode (key_ext Ext_enter) = A_newline"
  "lookup_action style Insert_mode (key_ext Ext_backspace) = A_delete_back"
  "lookup_action style Insert_mode (key_ext Ext_left) = A_move_left"
  "lookup_action style Insert_mode (key_ext Ext_right) = A_move_right"
  by (simp_all add: lookup_action_def default_bindings_def simple_bindings_def key_defs)

lemma correct_at: "cursor_ok e \<Longrightarrow> text_size e < 2 ^ 31 \<Longrightarrow> correct_cx e = e"
  by (erule (1) cursor_facts) (simp add: correct_cx_def)

lemma process_plain:
  assumes "ed_pending (edit_of i) = Op_none" and "\<not> is_empty_key k"
    and "(if act \<noteq> A_none then (if is_motion act then execute_motion (h_ws_y h) act (edit_of i)
          else editor_action act (edit_of i)) else unbound_key k (edit_of i)) = Done e"
    and "act = lookup_action (ed_style (edit_of i)) (ed_mode (edit_of i)) k" and "act \<noteq> A_command_execute"
    and "cursor_ok e" and "text_size e < 2 ^ 31"
  shows "process_key_press sgn_char fuel h (Some k) i = Done (put_edit e i)"
  using assms correct_at [OF assms(6,7)]
  by (auto simp: process_key_press_def on_edit_def execute_action_def Let_def put_edit_def edit_of_def split: if_splits)

lemma typed_key:
  assumes k: "typing_key k" and c: "cursor_ok (edit_of i)" and s: "text_size (edit_of i) + 1 < 2 ^ 31" and t: "typing (edit_of i)"
  shows "\<exists>e. process_key_press sgn_char fuel h (Some k) i = Done (put_edit e i) \<and>
    gap_of e = gap_key k (gap_of (edit_of i)) \<and> cursor_ok e \<and> edited (edit_of i) e \<and> (plain (edit_of i) \<longrightarrow> plain e) \<and> text_size e \<le> text_size (edit_of i) + 1"
proof -
  have s': "text_size (edit_of i) < 2 ^ 31" using s by simp
  obtain pre x y suf where a: "cursor_at (edit_of i) pre x y suf" using cursor_split [OF c] .
  let ?act = "lookup_action (ed_style (edit_of i)) (ed_mode (edit_of i)) k"
  have m: "ed_mode (edit_of i) = Insert_mode" "ed_pending (edit_of i) = Op_none" using t by (simp_all add: typing_def)
  have "\<exists>e. (if ?act \<noteq> A_none then (if is_motion ?act then execute_motion (h_ws_y h) ?act (edit_of i)
          else editor_action ?act (edit_of i)) else unbound_key k (edit_of i)) = Done e \<and> gap_of e = gap_key k (gap_of (edit_of i)) \<and>
          cursor_ok e \<and> edited (edit_of i) e \<and> (plain (edit_of i) \<longrightarrow> plain e) \<and> ?act \<noteq> A_command_execute \<and> \<not> is_empty_key k"
  proof -
    from k consider "k = key_char (k_c k)" "printable (k_c k)" | "k = key_ext Ext_enter" | "k = key_ext Ext_backspace"
      | "k = key_ext Ext_left" | "k = key_ext Ext_right" unfolding typing_key_def by blast
    then show ?thesis
    proof cases
      case 1
      obtain e where e: "insert_char (k_c k) (edit_of i) = Done e" "cursor_at e pre (x @ [k_c k]) y suf" "edited (edit_of i) e"
        using insert_char_at [OF a s'] by blast
      have act: "?act = A_none" using typing_actions(1) 1(1) m(1) by metis
      have "k_ext k = Ext_none" using 1(1) by (metis key_char_def key.select_convs(2))
      moreover have "k_c k \<noteq> nul" using 1(2) by (auto simp: printable_def nul_def char_val_def)
      moreover have "k_c k \<noteq> lf" using 1(2) by (auto simp: printable_def lf_def char_val_def)
      then have "plain (edit_of i) \<longrightarrow> plain e" using a e(2) by (simp add: plain_def cursor_at_def)
      ultimately show ?thesis using e 1(2) m gap_at [OF a] gap_at [OF e(2)] at_ok [OF e(2)] unfolding act
        by (simp add: unbound_key_def gap_key_def Let_def is_empty_key_def)
    next
      case 2
      obtain e where e: "insert_newline (edit_of i) = Done e" "cursor_at e (pre @ [x]) [] y suf" "edited (edit_of i) e"
        using newline_at [OF a s'] by blast
      moreover have "plain (edit_of i) \<longrightarrow> plain e" using a e(2) by (simp add: plain_def cursor_at_def)
      ultimately show ?thesis using 2 m typing_actions gap_at [OF a] gap_at [OF e(2)] at_ok [OF e(2)]
        by (simp add: gap_key_def Let_def is_empty_key_def key_ext_def is_motion_def)
    next
      case 3
      then show ?thesis using backspace_at [OF a s'] m typing_actions
        by (simp add: gap_key_def Let_def is_empty_key_def key_ext_def is_motion_def)
    next
      case 4
      then show ?thesis using left_at [OF a s', of "h_ws_y h"] m typing_actions
        by (auto simp add: is_empty_key_def key_ext_def is_motion_def plain_def)
    next
      case 5
      then show ?thesis using right_at [OF a s', of "h_ws_y h"] m typing_actions
        by (auto simp add: is_empty_key_def key_ext_def is_motion_def plain_def)
    qed
  qed
  then obtain e where e: "(if ?act \<noteq> A_none then (if is_motion ?act then execute_motion (h_ws_y h) ?act (edit_of i)
          else editor_action ?act (edit_of i)) else unbound_key k (edit_of i)) = Done e" "gap_of e = gap_key k (gap_of (edit_of i))"
          "cursor_ok e" "edited (edit_of i) e \<and> (plain (edit_of i) \<longrightarrow> plain e)" "?act \<noteq> A_command_execute" "\<not> is_empty_key k" by blast
  have "small_step (edit_of i) (if ?act \<noteq> A_none then (if is_motion ?act then execute_motion (h_ws_y h) ?act (edit_of i)
          else editor_action ?act (edit_of i)) else unbound_key k (edit_of i))"
    using motion_small [OF c s'] action_small [OF c s'] unbound_small [OF c s'] by simp
  then have size: "text_size e \<le> text_size (edit_of i) + 1" unfolding e(1) by (simp add: small_step_def)
  then have "process_key_press sgn_char fuel h (Some k) i = Done (put_edit e i)"
    using s by (intro process_plain [OF m(2) e(6,1) refl e(5,3)]) simp
  then show ?thesis using e size by blast
qed

lemma gap_same: "same_text e e' \<Longrightarrow> gap_of e' = gap_of e"
  by (simp add: gap_of_def same_text_def)

lemma typed_keys:
  "list_all typing_key ks \<Longrightarrow> cursor_ok (edit_of i) \<Longrightarrow> text_size (edit_of i) + length ks < 2 ^ 31 \<Longrightarrow> typing (edit_of i) \<Longrightarrow>
   \<exists>e. edit_loop sgn_char fuel (map (frame_of h) ks) i = Done (put_edit e i) \<and>
     gap_of e = fold gap_key ks (gap_of (edit_of i)) \<and> cursor_ok e \<and> edited (edit_of i) e \<and> (plain (edit_of i) \<longrightarrow> plain e) \<and> text_size e \<le> text_size (edit_of i) + length ks"
proof (induction ks arbitrary: i)
  case Nil
  have "put_edit (edit_of i) i = i" by (simp add: put_edit_def edit_of_def)
  then show ?case using Nil by (intro exI [of _ "edit_of i"]) (simp add: edited_def)
next
  case (Cons k ks)
  have run: "ed_running (edit_of i)" using Cons.prems(4) by (simp add: typing_def)
  have "text_size (edit_of i) < 2 ^ 31" using Cons.prems(3) by simp
  from frame_prepared [OF Cons.prems(2) this, of sgn_char fuel h k] obtain e1 where
    e1: "same_editing (edit_of i) e1" "edit_frame sgn_char fuel (frame_of h k) i = process_key_press sgn_char fuel h (Some k) (put_edit e1 i)"
    by blast
  have t1: "same_text (edit_of i) e1" using e1(1) by (simp add: same_editing_def)
  have "cursor_ok e1" "text_size e1 = text_size (edit_of i)" using same_text_ok [OF t1] Cons.prems(2) by simp_all
  moreover have "typing e1" using e1(1) Cons.prems(4) by (simp add: typing_def same_editing_def)
  ultimately obtain e2 where e2: "process_key_press sgn_char fuel h (Some k) (put_edit e1 i) = Done (put_edit e2 (put_edit e1 i))"
      "gap_of e2 = gap_key k (gap_of e1)" "cursor_ok e2" "edited e1 e2" "plain e1 \<longrightarrow> plain e2" "text_size e2 \<le> text_size (edit_of i) + 1"
    using typed_key [of k "put_edit e1 i" sgn_char fuel h] Cons.prems by auto
  have pp: "put_edit e (put_edit e' j) = put_edit e j" for e e' j by (simp add: put_edit_def)
  have ed: "edited (edit_of i) e2" using e2(4) same_editing_edited [OF e1(1)] edited_trans by blast
  have "typing e2" using ed Cons.prems(4) by (simp add: typing_def edited_def)
  then obtain e3 where "edit_loop sgn_char fuel (map (frame_of h) ks) (put_edit e2 i) = Done (put_edit e3 i)"
      "gap_of e3 = fold gap_key ks (gap_of e2)" "cursor_ok e3" "edited e2 e3" "plain e2 \<longrightarrow> plain e3" "text_size e3 \<le> text_size e2 + length ks"
    using Cons.IH [of "put_edit e2 i"] Cons.prems(1,3) e2(3,6) by (auto simp: pp)
  moreover have "plain e1 = plain (edit_of i)" using t1 by (simp add: plain_def same_text_def)
  ultimately show ?case using run e1(2) e2(1,2,5,6) ed edited_trans gap_same [OF t1] by (intro exI [of _ e3]) (auto simp: pp)
qed


section \<open>Undoing by backspaces\<close>

lemma key_ext_simps [simp]: "k_ext (key_ext x) = x" "k_ext (key_char c) = Ext_none" "k_c (key_char c) = c"
  by (simp_all add: key_ext_def key_char_def)

text \<open>The keys that add a character to the text.\<close>

definition inserting_key :: "key \<Rightarrow> bool" where
  "inserting_key k \<longleftrightarrow> k = key_char (k_c k) \<and> printable (k_c k) \<or> k = key_ext Ext_enter"

lemma inserting_typing: "inserting_key k \<Longrightarrow> typing_key k"
  by (auto simp: inserting_key_def typing_key_def)

lemma inserted_length: "list_all inserting_key ks \<Longrightarrow> \<exists>w. length w = length ks \<and> fold gap_key ks (l, r) = (l @ w, r)"
proof (induction ks arbitrary: l)
  case (Cons k ks)
  obtain c where c: "gap_key k (l, r) = (l @ [c], r)"
  proof (cases "k = key_ext Ext_enter")
    case False
    then have "k = key_char (k_c k)" using Cons.prems by (auto simp: inserting_key_def)
    then have "k_ext k = Ext_none" using key_ext_simps(2) by metis
    then show thesis using that by (simp add: gap_key_def)
  qed (use that in \<open>simp add: gap_key_def\<close>)
  obtain w where "length w = length ks" "fold gap_key ks (l @ [c], r) = ((l @ [c]) @ w, r)" using Cons by fastforce
  then show ?case by (intro exI [of _ "c # w"]) (simp add: c)
qed simp

lemma erased: "length w = n \<Longrightarrow> fold gap_key (replicate n (key_ext Ext_backspace)) (l @ w, r) = (l, r)"
proof (induction n arbitrary: w)
  case (Suc n)
  then obtain w' c where "w = w' @ [c]" by (cases w rule: rev_cases) auto
  then show ?case using Suc by (simp add: gap_key_def butlast_append)
qed simp

lemma erased_keys:
  assumes "list_all inserting_key ks"
  shows "fold gap_key (ks @ replicate (length ks) (key_ext Ext_backspace)) g = g"
proof -
  obtain w where "length w = length ks" "fold gap_key ks (fst g, snd g) = (fst g @ w, snd g)"
    using inserted_length [OF assms] by blast
  then show ?thesis using erased [of w "length ks" "fst g" "snd g"] by simp
qed

section \<open>The text with a gap determines the lines\<close>

fun join_lines :: "string list \<Rightarrow> string" where
  "join_lines [] = []"
| "join_lines [x] = x"
| "join_lines (x # y # zs) = x @ lf # join_lines (y # zs)"

lemma join_Cons: "join_lines (y # suf) = y @ concat (map (\<lambda>x. lf # x) suf)"
  by (induction "y # suf" arbitrary: y suf rule: join_lines.induct) auto

lemma join_append: "zs \<noteq> [] \<Longrightarrow> join_lines (pre @ zs) = concat (map (\<lambda>x. x @ [lf]) pre) @ join_lines zs"
proof (induction pre)
  case (Cons x pre)
  obtain y ys where "pre @ zs = y # ys" using Cons.prems by (cases "pre @ zs") auto
  then have "join_lines ((x # pre) @ zs) = x @ lf # join_lines (pre @ zs)" by simp
  then show ?case using Cons by simp
qed simp

lemma gap_join:
  assumes "cursor_at e pre x y suf"
  shows "fst (gap_of e) = join_lines (pre @ [x])" "snd (gap_of e) = join_lines (y # suf)"
    "fst (gap_of e) @ snd (gap_of e) = join_lines (ed_file_lines e)"
proof -
  show f: "fst (gap_of e) = join_lines (pre @ [x])" using gap_at [OF assms] join_append [of "[x]" pre] by simp
  show s: "snd (gap_of e) = join_lines (y # suf)" using gap_at [OF assms] by (simp add: join_Cons)
  have "ed_file_lines e = pre @ (x @ y) # suf" using assms by (simp add: cursor_at_def)
  then show "fst (gap_of e) @ snd (gap_of e) = join_lines (ed_file_lines e)"
    using join_append [of "[x]" pre] join_append [of "(x @ y) # suf" pre] by (simp add: f s join_Cons)
qed

text \<open>Cutting the joined lines gives them back.\<close>

lemma split_content_line: "lf \<notin> set x \<Longrightarrow> split_content cur (x @ s) = split_content (cur @ x) s"
  by (induction x arbitrary: cur) (auto simp: lf_def)

lemma split_join:
  "zs \<noteq> [] \<Longrightarrow> list_all (\<lambda>x. lf \<notin> set x) zs \<Longrightarrow> split_content [] (join_lines zs) = (butlast zs, last zs)"
proof (induction zs rule: join_lines.induct)
  case (2 x)
  then show ?case using split_content_line [of x "[]" "[]"] by simp
next
  case (3 x y zs)
  then have "split_content [] (x @ lf # join_lines (y # zs)) = split_content x (lf # join_lines (y # zs))"
    using split_content_line [of x "[]"] by simp
  then show ?case using 3 by (simp add: lf_def)
qed simp

lemma content_join:
  assumes "list_all (\<lambda>x. lf \<notin> set x) zs" and "last zs \<noteq> [] \<or> length zs = 1" and "zs \<noteq> []"
  shows "content_lines (join_lines zs) = zs"
proof (cases "last zs = []")
  case False
  then show ?thesis using split_join [OF assms(3,1)] assms(3) by (simp add: content_lines_def)
next
  case True
  then have "zs = [[]]" using assms(2,3) by (cases zs) auto
  then show ?thesis by (simp add: content_lines_def)
qed

lemma join_inj:
  assumes "list_all (\<lambda>x. lf \<notin> set x) xs" "list_all (\<lambda>x. lf \<notin> set x) ys" "xs \<noteq> []" "ys \<noteq> []" "join_lines xs = join_lines ys"
  shows "xs = ys"
proof -
  have "(butlast xs, last xs) = (butlast ys, last ys)"
    using split_join [OF assms(3,1)] split_join [OF assms(4,2)] assms(5) by simp
  then show ?thesis using assms(3,4) by (metis append_butlast_last_id prod.inject)
qed

lemma gap_inj:
  assumes c: "cursor_ok e" "cursor_ok e'" and p: "plain e" "plain e'" and g: "gap_of e' = gap_of e"
  shows "same_text e e'"
proof -
  obtain pre x y suf where a: "cursor_at e pre x y suf" using cursor_split [OF c(1)] .
  obtain pre' x' y' suf' where b: "cursor_at e' pre' x' y' suf'" using cursor_split [OF c(2)] .
  have free: "list_all (\<lambda>x. lf \<notin> set x) (pre @ [x])" "list_all (\<lambda>x. lf \<notin> set x) (pre' @ [x'])"
    "list_all (\<lambda>x. lf \<notin> set x) (y # suf)" "list_all (\<lambda>x. lf \<notin> set x) (y' # suf')"
    using a b p by (auto simp: plain_def cursor_at_def)
  have "pre @ [x] = pre' @ [x']" using join_inj [OF free(1,2)] gap_join(1) [OF a] gap_join(1) [OF b] g by simp
  moreover have "y # suf = y' # suf'" using join_inj [OF free(3,4)] gap_join(2) [OF a] gap_join(2) [OF b] g by simp
  ultimately show ?thesis using a b by (simp add: same_text_def cursor_at_def)
qed

section \<open>Tabs\<close>

lemma rx_loop_plain: "CHR 0x09 \<notin> set x \<Longrightarrow> rx_loop (x @ s) (length x + n) r = rx_loop s n (r + int (length x))"
  by (induction x arbitrary: r) (auto simp: algebra_simps)

lemma expand_tabs_plain: "CHR 0x09 \<notin> set x \<Longrightarrow> expand_tabs (x @ s) = x @ expand_tabs s"
  by (induction x) auto

section \<open>Properties\<close>

text \<open>A session with an empty text, before any server was called.\<close>

definition demo_session :: "editor \<Rightarrow> session interp" where
  "demo_session e = interp_with \<lparr>s_editor = e, s_link = link_start\<rparr>"

definition demo_host :: host where
  "demo_host = \<lparr>h_now = 0, h_found = True, h_ws_x = 10, h_ws_y = 5\<rparr>"

lemma edit_demo [simp]: "edit_of (demo_session e) = e"
  by (simp add: edit_of_def demo_session_def interp_with_def)

definition demo_editor :: "string list \<Rightarrow> editor" where
  "demo_editor xs = editor_new\<lparr>ed_file_lines := xs\<rparr>"

lemma demo_editor_ok: "xs \<noteq> [] \<Longrightarrow> cursor_ok (demo_editor xs) \<and> text_size (demo_editor xs) = tsize xs \<and> typing (demo_editor xs)"
  by (simp add: demo_editor_def editor_new_def cursor_ok_def row_ok_def n_lines_def text_size_def typing_def)



text \<open>C7. In insert mode the editor is a text with a gap at the cursor: printable characters, Enter,
  Backspace and the arrows left and right, in any order, do to the lines and the cursor what they
  do to the characters before and after the gap, across line ends as within lines.\<close>

theorem editor_refines_gap:
  assumes "list_all typing_key ks" and "cursor_ok (edit_of i)" and "text_size (edit_of i) + length ks < 2 ^ 31" and "typing (edit_of i)"
  shows "\<exists>e. edit_loop sgn_char fuel (map (frame_of h) ks) i = Done (put_edit e i) \<and> gap_of e = fold gap_key ks (gap_of (edit_of i))"
  using typed_keys [OF assms] by blast

theorem editor_refines_gap_witness:
  "\<exists>e. edit_loop True 0 (map (frame_of demo_host) [key_char CHR ''x'', key_ext Ext_enter, key_ext Ext_left]) (demo_session (demo_editor [''ab''])) =
     Done (put_edit e (demo_session (demo_editor [''ab'']))) \<and> gap_of e = (''x'', lf # ''ab'')"
proof -
  have "list_all typing_key [key_char CHR ''x'', key_ext Ext_enter, key_ext Ext_left]"
    by (simp add: typing_key_def printable_def char_val_def)
  from editor_refines_gap [OF this, of "demo_session (demo_editor [''ab''])" True 0 demo_host]
  show ?thesis by (simp add: demo_editor_ok gap_key_def gap_of_def) (simp add: demo_editor_def editor_new_def)
qed

text \<open>Typing any characters and line ends and pressing Backspace as many times restores the lines
  and the cursor.\<close>

theorem editor_type_erase:
  assumes "list_all inserting_key ks" and "cursor_ok (edit_of i)" and "plain (edit_of i)"
    and "text_size (edit_of i) + 2 * length ks < 2 ^ 31" and "typing (edit_of i)"
  shows "\<exists>e. edit_loop sgn_char fuel (map (frame_of h) (ks @ replicate (length ks) (key_ext Ext_backspace))) i = Done (put_edit e i) \<and>
    ed_file_lines e = ed_file_lines (edit_of i) \<and> ed_cx e = ed_cx (edit_of i) \<and> ed_cy e = ed_cy (edit_of i)"
proof -
  let ?ks = "ks @ replicate (length ks) (key_ext Ext_backspace)"
  have "list_all typing_key ?ks"
    using assms(1) inserting_typing by (auto simp: list_all_iff typing_key_def)
  then obtain e where e: "edit_loop sgn_char fuel (map (frame_of h) ?ks) i = Done (put_edit e i)"
      "gap_of e = gap_of (edit_of i)" "cursor_ok e" "plain e"
    using typed_keys [of ?ks i sgn_char fuel h] assms erased_keys [OF assms(1)] by auto
  then show ?thesis using gap_inj [OF assms(2) e(3) assms(3) e(4,2)] by (auto simp: same_text_def)
qed

theorem editor_type_erase_witness:
  "\<exists>e. edit_loop True 0 (map (frame_of demo_host) ([key_char CHR ''x'', key_ext Ext_enter] @ replicate 2 (key_ext Ext_backspace)))
     (demo_session (demo_editor [''ab''])) = Done (put_edit e (demo_session (demo_editor [''ab'']))) \<and> ed_file_lines e = [''ab'']"
proof -
  let ?ks = "[key_char CHR ''x'', key_ext Ext_enter]" and ?i = "demo_session (demo_editor [''ab''])"
  have k: "list_all inserting_key ?ks" "length ?ks = 2"
    by (simp_all add: inserting_key_def printable_def char_val_def)
  have "plain (edit_of ?i)" "ed_file_lines (edit_of ?i) = [''ab'']" by (simp_all add: plain_def demo_editor_def lf_def)
  moreover have "cursor_ok (edit_of ?i)" "typing (edit_of ?i)" "text_size (edit_of ?i) + 2 * length ?ks < 2 ^ 31"
    by (simp_all add: demo_editor_ok)
  ultimately show ?thesis
    using editor_type_erase [OF k(1), of ?i True 0 demo_host] unfolding k(2) by metis
qed



text \<open>With a tab before the cursor, the column the cursor is drawn at is the column its character is
  rendered at only when the tab starts at a multiple of four: the cursor counts to the next tab
  stop, the rendering puts four blanks.\<close>

theorem editor_tab_column:
  assumes "cursor_ok e" and "text_size e < 2 ^ 31" and "ed_file_lines e ! nat (ed_cy e) = x @ CHR 0x09 # y"
    and "CHR 0x09 \<notin> set x" and "ed_cx e = int (length x) + 1"
  shows "\<exists>e'. scroll h e = Done e' \<and>
    (ed_rx e' = int (length (expand_tabs (take (length x + 1) (ed_file_lines e ! nat (ed_cy e))))) \<longleftrightarrow> 4 dvd length x)"
proof -
  obtain e' where e': "scroll h e = Done e'" "ed_rx e' = rx_loop (ed_file_lines e ! nat (ed_cy e)) (nat (ed_cx e)) 0"
    using scroll_at [OF assms(1,2)] by blast
  have "nat (ed_cx e) = length x + 1" using assms(5) by simp
  then have rx: "ed_rx e' = int (length x) + 4 - int (length x) mod 4"
    using e'(2) rx_loop_plain [OF assms(4), of "CHR 0x09 # y" 1 0] by (simp add: assms(3) tab_size_def)
  have wide: "int (length (expand_tabs (take (length x + 1) (x @ CHR 0x09 # y)))) = int (length x) + 4"
    using expand_tabs_plain [OF assms(4), of "[CHR 0x09]"] by (simp add: tab_size_def)
  have "int (length x) mod 4 = 0 \<longleftrightarrow> 4 dvd length x" by presburger
  then show ?thesis using e'(1) rx wide unfolding assms(3) by (intro exI [of _ e']) simp
qed

theorem editor_tab_column_witness:
  "\<exists>e'. scroll demo_host ((demo_editor [''a'' @ [CHR 0x09]])\<lparr>ed_cx := 2\<rparr>) = Done e' \<and>
    ed_rx e' \<noteq> int (length (expand_tabs (''a'' @ [CHR 0x09])))"
proof -
  let ?e = "(demo_editor [''a'' @ [CHR 0x09]])\<lparr>ed_cx := 2\<rparr>"
  have "cursor_ok ?e" "text_size ?e < 2 ^ 31" "ed_file_lines ?e ! nat (ed_cy ?e) = ''a'' @ CHR 0x09 # []" "ed_cx ?e = int (length ''a'') + 1"
    by (simp_all add: demo_editor_def editor_new_def cursor_ok_def row_ok_def n_lines_def text_size_def)
  from editor_tab_column [OF this(1-3) _ this(4), of demo_host] show ?thesis
    by (auto simp: demo_editor_def editor_new_def)
qed

lemma page_actions:
  "lookup_action style mode (key_ctrl CHR ''d'') = A_page_down" "lookup_action style mode (key_ctrl CHR ''u'') = A_page_up"
  by (cases style; cases mode; simp add: lookup_action_def default_bindings_def simple_bindings_def key_defs)+

text \<open>The page keys do nothing: they are bound to motions that the check for motions does not
  list, so the motion is never executed.\<close>

theorem editor_page_keys:
  assumes "k = key_ctrl CHR ''d'' \<or> k = key_ctrl CHR ''u''" and "ed_pending (edit_of i) = Op_none"
    and "cursor_ok (edit_of i)" and "text_size (edit_of i) < 2 ^ 31"
  shows "process_key_press sgn_char fuel h (Some k) i = Done i"
proof -
  let ?act = "lookup_action (ed_style (edit_of i)) (ed_mode (edit_of i)) k"
  have act: "?act = A_page_down \<or> ?act = A_page_up"
    using assms(1) page_actions by metis
  have k: "\<not> is_empty_key k" using assms(1) by (auto simp: is_empty_key_def key_ctrl_def)
  have "(if ?act \<noteq> A_none then (if is_motion ?act then execute_motion (h_ws_y h) ?act (edit_of i)
      else editor_action ?act (edit_of i)) else unbound_key k (edit_of i)) = Done (edit_of i)" "?act \<noteq> A_command_execute"
    using act by (elim disjE; simp add: is_motion_def)+
  from process_plain [OF assms(2) k this(1) refl this(2) assms(3,4)]
  have "process_key_press sgn_char fuel h (Some k) i = Done (put_edit (edit_of i) i)" .
  then show ?thesis by (simp add: put_edit_def edit_of_def)
qed

theorem editor_page_keys_witness:
  "process_key_press True 0 demo_host (Some (key_ctrl CHR ''d'')) (demo_session (demo_editor (replicate 100 []))) =
     Done (demo_session (demo_editor (replicate 100 [])))"
proof (rule editor_page_keys)
  have "tsize (replicate n []) = n" for n by (induction n) simp_all
  then show "text_size (edit_of (demo_session (demo_editor (replicate 100 [])))) < 2 ^ 31" by (simp add: demo_editor_ok)
  show "ed_pending (edit_of (demo_session (demo_editor (replicate 100 [])))) = Op_none" by (simp add: demo_editor_def editor_new_def)
  show "cursor_ok (edit_of (demo_session (demo_editor (replicate 100 []))))" using demo_editor_ok [of "replicate 100 []"] by simp
qed simp

text \<open>Line ends that are typed do not count as changes, so the text can be left without a warning.\<close>

lemma newline_not_dirty: "insert_newline e = Done e' \<Longrightarrow> ed_dirty e' = ed_dirty e"
  by (auto simp: insert_newline_def run_bind_Done_iff Let_def insert_line_def set_line_def split: if_splits)

text \<open>Without a line, the motions to the right and down take the cursor out of the text.\<close>

lemma empty_motions:
  assumes "ed_file_lines e = []" and "ed_cy e = 0"
  shows "execute_motion w A_move_right e = Done (e\<lparr>ed_cy := 1, ed_cx := 0\<rparr>)" and "execute_motion w A_move_down e = Done (e\<lparr>ed_cy := 1\<rparr>)"
  using assms by (simp_all add: n_lines_def sz_sub_def size_mod_def to_size_def)

end
