(* ===== verification/EditorSave.thy ===== *)
theory EditorSave
  imports EditorProps
begin

text \<open>
  The editor together with the interpreter, the files and the file system server: the write command
  typed at the keyboard, from the key tables down to the tree of the file system, and loading a
  file back into the editor.
\<close>

section \<open>The command line\<close>

text \<open>A one-letter command line is one word.\<close>

lemma eval_letter:
  assumes c: "c \<notin> set ''{}[$#;'' \<union> {CHR 0x5C, CHR 0x22, CHR '' '', CHR 0x0A, CHR 0x0D, CHR 0x09}"
  shows "eval env (Suc n) i [c] = dispatch (run_command (eval env n) n env) env (i\<lparr>i_result := []\<rparr>) [[c]]"
proof -
  let ?p = "parser_new [c]"
  define q where "q = ?p\<lparr>p_cursor := 1, p_end := 1, p_in_string := True, p_token := TK_ESC\<rparr>"
  define r where "r = q\<lparr>p_token := TK_EOL\<rparr>"
  have 1: "next_token (tok_fuel ?p) ?p = Some (q, TK_ESC)"
    using c by (simp add: next_token_def tok_fuel_def rest_len_def parser_new_def eval_nat_numeral tok_start.simps tok_loop.simps tok_step_def
        tok_simps is_blank_def q_def)
  have 2: "next_token (tok_fuel q) q = Some (r, TK_EOL)"
    by (simp add: next_token_def tok_fuel_def rest_len_def parser_new_def eval_nat_numeral tok_start.simps tok_simps q_def r_def)
  have tk: "token_text q = Some [c]" "p_token ?p = TK_EOL"
    by (simp_all add: token_text_def token_body_def view_substr_def q_def parser_new_def clamp_def span_def sz_def size_mod_def sz_sub_def)
  have last: "p_token r = TK_EOL" "p_cursor r = length (p_body r)" by (simp_all add: r_def q_def parser_new_def)
  have fuel: "script_fuel [c] = Suc (Suc (Suc 3))" by (simp add: script_fuel_def)
  have w: "eval_loop ev call env (Suc k) ?p j [] = eval_loop ev call env k q j ([] @ [[c]])" for ev call k j
    by (rule eval_loop_word [OF 1 _ tk(1)]) (simp_all add: tk)
  have "eval_loop ev call env (Suc (Suc k)) q j [[c]] = dispatch call env j [[c]]" for ev call k j
    by (rule eval_loop_last [OF 2 last]) simp
  then have "eval_loop ev call env (script_fuel [c]) ?p j [] = dispatch call env j [[c]]" for ev call j
    unfolding fuel w append_Nil .
  then show ?thesis by (simp add: eval.simps(2))
qed

section \<open>Writing the lines\<close>

lemma rtoken_no_chunk: "rtoken b bs = R_ok tok rest \<Longrightarrow> mt_type tok \<noteq> MT_CHUNK"
  by (auto simp: rtoken_def Let_def rblob_def rvalue_def small_def blank_token_def split: if_splits list.splits option.splits)

text \<open>The data of an empty request cannot be read, which leaves the view of the data empty.\<close>

lemma request_no_data:
  assumes "2 < length (l_client_page l)"
  shows "request_data (l_client_page (write_request (\<lambda>w. mw_bin w []) l)) = Done []"
proof -
  have "mw_bytes (mw_bin (mw_init page_size) []) = wbin 0"
    using mw_bin_init [of "[]"] by (simp add: page_size_def enc_bin_def)
  moreover have wb: "length (wbin 0) = 2" by (simp add: wbin_def w1_def)
  ultimately have page: "l_client_page (write_request (\<lambda>w. mw_bin w []) l) = wbin 0 @ drop 2 (l_client_page l)"
    by (simp add: write_request_def put_page_def wb)
  obtain b bs where rest: "drop 2 (l_client_page l) = b # bs" using assms by (cases "drop 2 (l_client_page l)") auto
  have head: "read_as (\<lambda>t. if mt_type t = MT_BIN then Some (unat (mt_length t)) else None) (mr_new (wbin 0 @ b # bs)) =
      Done (\<lparr>mr_buf = b # bs, mr_pass = 0, mr_error = False\<rparr>, Some 0)"
    by (simp add: read_as_def read_next_decode [OF decode_bin] is_blob_def)
  have "\<exists>r. read_bin (mr_new (wbin 0 @ b # bs)) = Done (r, None)"
    unfolding read_bin_def read_blob_def head
    by (cases "rtoken b bs") (auto simp: read_as_def read_next_def mr_fail_def dest: rtoken_no_chunk)
  then show ?thesis by (auto simp: request_data_def page rest)
qed

lemma put_page_length: "length (put_page bs page) = max (length bs) (length page)"
  by (simp add: put_page_def max_def)

lemma client_write_page: "client_write h off bs l = Done (l', r) \<Longrightarrow> length (l_client_page l) \<le> length (l_client_page l')"
  by (auto simp: client_write_def ipc_call_def Let_def run_bind_Done_iff write_request_def put_page_length call_flags [simplified])

lemma client_open_page: "client_open path fl l = Done (l', r) \<Longrightarrow> length (l_client_page l) \<le> length (l_client_page l')"
  by (auto simp: client_open_def ipc_call_def Let_def run_bind_Done_iff write_path_def write_request_def put_page_length call_flags [simplified])

text \<open>One write at the end of a file, of any text that fits.\<close>

lemma client_append:
  assumes f: "file_at (l_fs l) h i ps d" and bs: "length bs \<le> chunk_size" and len: "length d + length bs < size_mod"
    and page: "2 < length (l_client_page l)"
  shows "\<exists>l'. client_write h (length d) bs l = Done (l', Inr (length bs)) \<and> l_fs l' = put_data i (d @ bs) (l_fs l) \<and> 2 < length (l_client_page l')"
proof -
  have over: "overwrite (length d) bs d = d @ bs" by (simp add: overwrite_def grow_data_def Let_def)
  have "\<exists>l'. client_write h (length d) bs l = Done (l', Inr (length bs)) \<and> l_fs l' = put_data i (d @ bs) (l_fs l)"
  proof (cases "bs = []")
    case False
    then show ?thesis using client_write_at [OF f False bs len] len over by simp
  next
    case True
    have "file_of (l_fs l) h = Inr i" "in_data (inode_at (l_fs l) i) = d" using f by (simp_all add: file_at_def)
    then have w: "handle_write (l_fs l) h (length d) [] = Done (put_data i d (l_fs l), Inr 0)"
      using len by (simp add: handle_write_def grow_data_def put_data_def)
    have "l_fs (write_request (\<lambda>w. mw_bin w []) l) = l_fs l" by (simp add: write_request_def)
    then show ?thesis using w request_no_data [OF page] True
      by (simp add: client_write_def ipc_call_def process_request_def Let_def value_of_def)
  qed
  then show ?thesis using client_write_page page by fastforce
qed

lemma file_append_at:
  assumes f: "file_at (l_fs l) (f_handle f) i ps d" "f_opened f" "f_write_offset f = length d" and inv: "fs_inv (l_fs l)"
    and bs: "length bs \<le> chunk_size" "length d + length bs < size_mod" and page: "2 < length (l_client_page l)"
  shows "\<exists>f' l'. file_write f bs l = Done (l', f', None) \<and> f_handle f' = f_handle f \<and> f_opened f' \<and> f_write_offset f' = length (d @ bs) \<and>
    l_fs l' = put_data i (d @ bs) (l_fs l) \<and> file_at (l_fs l') (f_handle f) i ps (d @ bs) \<and> fs_inv (l_fs l') \<and> 2 < length (l_client_page l')"
proof -
  obtain l' where l': "client_write (f_handle f) (length d) bs l = Done (l', Inr (length bs))" "l_fs l' = put_data i (d @ bs) (l_fs l)"
      "2 < length (l_client_page l')" using client_append [OF f(1) bs page] by blast
  then show ?thesis using f(2,3) bs(2) put_data_at [OF inv f(1), of "d @ bs"] by (simp add: file_write_def)
qed

lemma bytes_of_append: "bytes_of (x @ y) = bytes_of x @ bytes_of y" and bytes_of_Nil: "bytes_of [] = []"
  by (simp_all add: bytes_of_def)

lemma write_lines_at:
  "file_at (l_fs l) (f_handle f) i ps d \<Longrightarrow> f_opened f \<Longrightarrow> f_write_offset f = length d \<Longrightarrow> fs_inv (l_fs l) \<Longrightarrow>
   2 < length (l_client_page l) \<Longrightarrow> xs \<noteq> [] \<Longrightarrow> \<forall>x\<in>set xs. length x \<le> chunk_size \<Longrightarrow> length d + length (join_lines xs) < size_mod \<Longrightarrow>
   \<exists>f' l'. write_lines f xs l = Done (l', f', None) \<and> f_handle f' = f_handle f \<and> f_opened f' \<and>
     l_fs l' = put_data i (d @ bytes_of (join_lines xs)) (l_fs l)"
proof (induction xs arbitrary: f d l rule: join_lines.induct)
  case (2 x)
  have "length (bytes_of x) \<le> chunk_size" "length d + length (bytes_of x) < size_mod" using 2 by (simp_all add: bytes_of_def)
  from file_append_at [OF 2(1-4) this 2(5)] show ?case by auto
next
  case (3 x y zs)
  have b: "length (bytes_of x) \<le> chunk_size" "length d + length (bytes_of x) < size_mod" using "3.prems" by (simp_all add: bytes_of_def)
  obtain f1 l1 where 1: "file_write f (bytes_of x) l = Done (l1, f1, None)" "f_handle f1 = f_handle f" "f_opened f1"
      "f_write_offset f1 = length (d @ bytes_of x)" "l_fs l1 = put_data i (d @ bytes_of x) (l_fs l)"
      "file_at (l_fs l1) (f_handle f) i ps (d @ bytes_of x)" "fs_inv (l_fs l1)" "2 < length (l_client_page l1)"
    using file_append_at [OF "3.prems"(1-4) b "3.prems"(5)] by blast
  have nl: "length (bytes_of [lf]) \<le> chunk_size" "length (d @ bytes_of x) + length (bytes_of [lf]) < size_mod"
    using "3.prems" by (simp_all add: bytes_of_def chunk_size_def)
  have "file_at (l_fs l1) (f_handle f1) i ps (d @ bytes_of x)" using 1(2,6) by simp
  from file_append_at [OF this 1(3,4,7) nl 1(8)] obtain f2 l2 where
    2: "file_write f1 (bytes_of [lf]) l1 = Done (l2, f2, None)" "f_handle f2 = f_handle f" "f_opened f2"
      "f_write_offset f2 = length ((d @ bytes_of x) @ bytes_of [lf])" "l_fs l2 = put_data i ((d @ bytes_of x) @ bytes_of [lf]) (l_fs l1)"
      "file_at (l_fs l2) (f_handle f) i ps ((d @ bytes_of x) @ bytes_of [lf])" "fs_inv (l_fs l2)" "2 < length (l_client_page l2)"
    using 1(2) by metis
  have at: "file_at (l_fs l2) (f_handle f2) i ps ((d @ bytes_of x) @ bytes_of [lf])" using 2(2,6) by simp
  have "\<forall>x\<in>set (y # zs). length x \<le> chunk_size"
    "length ((d @ bytes_of x) @ bytes_of [lf]) + length (join_lines (y # zs)) < size_mod"
    using "3.prems"(7,8) by (simp_all add: bytes_of_def)
  from "3.IH" [OF at 2(3,4,7,8) _ this] obtain f3 l3 where
    3: "write_lines f2 (y # zs) l2 = Done (l3, f3, None)" "f_handle f3 = f_handle f2" "f_opened f3"
      "l_fs l3 = put_data i (((d @ bytes_of x) @ bytes_of [lf]) @ bytes_of (join_lines (y # zs))) (l_fs l2)" by blast
  have "i < length (fs_inodes (l_fs l))" "i < length (fs_inodes (l_fs l1))"
    using file_at_find [OF "3.prems"(1)] file_at_find [OF 1(6)] by blast+
  then have "l_fs l3 = put_data i (d @ bytes_of (join_lines (x # y # zs))) (l_fs l)"
    using 3(4) 1(5) 2(5) bytes_of_append [of x "lf # join_lines (y # zs)"] bytes_of_append [of "[lf]" "join_lines (y # zs)"]
    by (simp add: put_data_twice)
  moreover have "write_lines f (x # y # zs) l = write_lines f2 (y # zs) l2"
    using 1(1) 2(1) by (simp add: lf_def)
  ultimately show ?case using 3 2(2) by simp
qed simp

text \<open>Opening a path for writing, through the client.\<close>

lemma file_open_write:
  assumes r: "server_ready (l_fs l)" and p: "path_ok path"
    and dir: "fs_abs (l_fs l) (butlast (split_path path)) = Some E_dir" "fs_abs (l_fs l) (split_path path) \<noteq> Some E_dir"
    and page: "2 < length (l_client_page l)"
  shows "\<exists>l' f i. file_open True (file_new path M_write) l = Done (l', f, None) \<and> f_opened f \<and> f_write_offset f = 0 \<and>
    file_at (l_fs l') (f_handle f) i (split_path path) [] \<and> fs_inv (l_fs l') \<and> handles_ok (l_fs l') \<and>
    fs_abs (l_fs l') = (fs_abs (l_fs l))(split_path path \<mapsto> E_file []) \<and> 2 < length (l_client_page l') \<and>
    fs_next_inode (l_fs l') \<le> fs_next_inode (l_fs l) + 1 \<and> fs_next_handle (l_fs l') = fs_next_handle (l_fs l) + 1"
proof -
  have inv: "fs_inv (l_fs l)" "can_open (l_fs l)" "fs_next_inode (l_fs l) + 1 < size_mod" using r by (simp_all add: server_ready_def)
  have plen: "length path \<le> max_path_length" using p by (simp add: path_ok_def)
  obtain s1 i where s1: "handle_open (l_fs l) path (of_nat (open_flags M_write)) = (s1, Inr (fs_next_handle (l_fs l)))" "fs_inv s1" "handles_ok s1"
      "fs_abs s1 = (fs_abs (l_fs l))(split_path path \<mapsto> E_file [])" "file_at s1 (fs_next_handle (l_fs l)) i (split_path path) []"
      "fs_next_inode s1 \<le> fs_next_inode (l_fs l) + 1" "fs_next_handle s1 = fs_next_handle (l_fs l) + 1"
    using handle_open_write [OF inv plen dir] by blast
  obtain l1 where l1: "client_open path (open_flags M_write) l = Done (l1, Inr (fs_next_handle (l_fs l)))" "l_fs l1 = s1"
    using client_open_of [OF p s1(1)] by blast
  have page1: "2 < length (l_client_page l1)" using client_open_page [OF l1(1)] page by simp
  let ?f = "(file_new path M_write)\<lparr>f_handle := fs_next_handle (l_fs l), f_opened := True\<rparr>"
  have o: "file_open True (file_new path M_write) l = Done (l1, ?f, None)"
    using l1(1) by (simp add: file_open_def file_new_def del: open_flags.simps)
  have f: "f_opened ?f" "f_write_offset ?f = 0" "f_handle ?f = fs_next_handle (l_fs l)" by (simp_all add: file_new_def)
  have at: "file_at (l_fs l1) (f_handle ?f) i (split_path path) []" unfolding f(3) l1(2) by (rule s1(5))
  show ?thesis using o f(1,2) at s1(2,3,4,6,7) page1 unfolding l1(2) [symmetric] by blast
qed

text \<open>The path holds the text afterwards, and the server can go on.\<close>

definition saved :: "link \<Rightarrow> string \<Rightarrow> string \<Rightarrow> link \<Rightarrow> bool" where
  "saved l path t l' \<longleftrightarrow> fs_abs (l_fs l') = (fs_abs (l_fs l))(split_path path \<mapsto> E_file (bytes_of t)) \<and>
     fs_inv (l_fs l') \<and> handles_ok (l_fs l') \<and> handle_free (l_fs l') \<and> fs_next_handle (l_fs l') = fs_next_handle (l_fs l) + 1"

text \<open>The write command, on a text whose lines fit into one request each.\<close>

lemma command_write_at:
  assumes r: "server_ready (l_fs (s_link s))" and p: "path_ok path"
    and dir: "fs_abs (l_fs (s_link s)) (butlast (split_path path)) = Some E_dir" "fs_abs (l_fs (s_link s)) (split_path path) \<noteq> Some E_dir"
    and page: "2 < length (l_client_page (s_link s))" and name: "ed_file_name (s_editor s) = path"
    and xs: "ed_file_lines (s_editor s) \<noteq> []" "\<forall>x\<in>set (ed_file_lines (s_editor s)). length x \<le> chunk_size"
    and len: "length (join_lines (ed_file_lines (s_editor s))) < size_mod" and found: "h_found h"
  shows "\<exists>l'. tcl_command_write h s =
      Done (\<lparr>s_editor = message_set (h_now h) ''file written'' ((s_editor s)\<lparr>ed_dirty := 0\<rparr>), s_link = l'\<rparr>, None, S_OK) \<and>
    saved (s_link s) path (join_lines (ed_file_lines (s_editor s))) l'"
proof -
  let ?l = "s_link s" and ?xs = "ed_file_lines (s_editor s)" and ?ps = "split_path path"
  have path: "cstr path = path" "path \<noteq> []" using p by (simp_all add: path_ok_def)
  obtain l1 f i where 1: "file_open True (file_new path M_write) ?l = Done (l1, f, None)" "f_opened f" "f_write_offset f = 0"
      "file_at (l_fs l1) (f_handle f) i ?ps []" "fs_inv (l_fs l1)" "handles_ok (l_fs l1)"
      "fs_abs (l_fs l1) = (fs_abs (l_fs ?l))(?ps \<mapsto> E_file [])" "2 < length (l_client_page l1)"
      "fs_next_handle (l_fs l1) = fs_next_handle (l_fs ?l) + 1"
    using file_open_write [OF r p dir page] by blast
  have "f_write_offset f = length []" "length [] + length (join_lines ?xs) < size_mod" using 1(3) len by simp_all
  from write_lines_at [OF 1(4,2) this(1) 1(5,8) xs this(2)] obtain f' l2 where
    2: "write_lines f ?xs l1 = Done (l2, f', None)" "f_handle f' = f_handle f" "f_opened f'"
      "l_fs l2 = put_data i (bytes_of (join_lines ?xs)) (l_fs l1)" by auto
  note put = put_data_at [OF 1(5,4), of "bytes_of (join_lines ?xs)"]
  have at: "fs_inv (l_fs l2)" "file_at (l_fs l2) (f_handle f') i ?ps (bytes_of (join_lines ?xs))" "handles_ok (l_fs l2)"
    using put 2(2,4) 1(6) by (simp_all add: handles_ok_def put_data_def set_inode_def)
  obtain l3 where 3: "file_delete f' l2 = Done (l3, ())" "fs_abs (l_fs l3) = fs_abs (l_fs l2)" "fs_inv (l_fs l3)"
      "handles_ok (l_fs l3)" "handle_free (l_fs l3)" "fs_next_handle (l_fs l3) = fs_next_handle (l_fs l2)"
    using file_delete_at [OF at(1,3,2) 2(3)] by blast
  have "fs_next_handle (l_fs l2) = fs_next_handle (l_fs ?l) + 1" using 1(9) 2(4) by (simp add: put_data_def set_inode_def)
  moreover have "fs_abs (l_fs l2) = (fs_abs (l_fs ?l))(?ps \<mapsto> E_file (bytes_of (join_lines ?xs)))"
    using put(3) 1(7) 2(4) by simp
  ultimately have "saved ?l path (join_lines ?xs) l3" using 3 by (simp add: saved_def)
  then show ?thesis using 1(1) 2(1) 3(1) name path found by (simp add: tcl_command_write_def Let_def)
qed

section \<open>Loading\<close>

lemma edit_load_at:
  assumes r: "fs_inv (l_fs (s_link s))" "can_open (l_fs (s_link s))" and p: "path_ok path"
    and d: "fs_abs (l_fs (s_link s)) (split_path path) = Some (E_file d)" and len: "length d < size_mod" "length d div chunk_size < fuel"
    and found: "h_found h"
  shows "\<exists>l'. edit_load fuel h path s = Done (\<lparr>s_editor = (s_editor s)\<lparr>ed_file_name := path,
      ed_file_lines := ed_file_lines (s_editor s) @ content_lines (map char_of_byte d)\<rparr>, s_link = l'\<rparr>, True) \<and>
    fs_abs (l_fs l') = fs_abs (l_fs (s_link s))"
proof -
  have path: "cstr path = path" using p by (simp add: path_ok_def)
  obtain l' where l': "file_load fuel path (s_link s) = Done (l', None, d, None)" "fs_abs (l_fs l') = fs_abs (l_fs (s_link s))"
    using file_load_run [OF r p d len] by blast
  then obtain l1 f l2 where "file_open True (file_new path M_read) (s_link s) = Done (l1, f, None)"
      "file_read_all fuel f l1 = Done (l2, d, None)" "file_delete f l2 = Done (l', ())"
    by (auto simp: file_load_def run_bind_Done_iff)
  then show ?thesis using l'(2) path found by (simp add: edit_load_def Let_def)
qed

lemma file_open_missing:
  assumes p: "path_ok path" and t: "tree_ok (l_fs l)" and none: "fs_abs (l_fs l) (split_path path) = None"
  shows "\<exists>l' f. file_open True (file_new path M_read) l = Done (l', f, Some (Err_fs Fs_file_not_found)) \<and> l_fs l' = l_fs l \<and>
    length (l_client_page l) \<le> length (l_client_page l')"
proof -
  have len: "length path \<le> max_path_length" using p by (simp add: path_ok_def)
  obtain r where r: "node (l_fs l) 0 = Some r" using tree_root [OF t] by blast
  have "walk (l_fs l) 0 (split_path path) = None"
  proof (cases "walk (l_fs l) 0 (split_path path)")
    case (Some n)
    then show ?thesis using walk_node [OF t r Some] none by (auto simp: fs_abs_def)
  qed simp
  then have o: "handle_open (l_fs l) path (of_nat (open_flags M_read)) = (l_fs l, Inl Fs_file_not_found)"
    using resolve_path_walk [OF len, of "l_fs l"] by (simp add: handle_open_def open_create_def)
  have "l_fs (write_path path l) = l_fs l" by (simp add: write_path_def write_request_def)
  then have "\<exists>l'. client_open path (open_flags M_read) l = Done (l', Inl (Err_fs Fs_file_not_found)) \<and> l_fs l' = l_fs l"
    using o request_path_back [of path l] p
    by (simp add: client_open_def ipc_call_def process_request_def Let_def value_of_def path_ok_def)
  then show ?thesis using client_open_page by (fastforce simp: file_open_def file_new_def)
qed

lemma edit_load_missing:
  assumes p: "path_ok path" and t: "tree_ok (l_fs (s_link s))" and none: "fs_abs (l_fs (s_link s)) (split_path path) = None" and found: "h_found h"
  shows "\<exists>l'. edit_load fuel h path s = Done (\<lparr>s_editor = message_set (h_now h) ''[New File]'' ((s_editor s)\<lparr>ed_file_name := path,
      ed_file_lines := ed_file_lines (s_editor s) @ [[]]\<rparr>), s_link = l'\<rparr>, True) \<and> l_fs l' = l_fs (s_link s) \<and>
    length (l_client_page (s_link s)) \<le> length (l_client_page l')"
proof -
  have path: "cstr path = path" using p by (simp add: path_ok_def)
  from file_open_missing [OF p t none] show ?thesis using path found by (auto simp: edit_load_def Let_def)
qed

section \<open>The write command from the keyboard\<close>

lemma char_w: "CHR ''w'' \<notin> set ''{}[$#;'' \<union> {CHR 0x5C, CHR 0x22, CHR '' '', CHR 0x0A, CHR 0x0D, CHR 0x09}"
  by simp

text \<open>Before the next key the frame is drawn; the key then acts on an editor with the same text.\<close>

lemma loop_key:
  assumes c: "cursor_ok (edit_of i)" and s: "text_size (edit_of i) < 2 ^ 31" and run: "ed_running (edit_of i)"
  shows "\<exists>e. same_editing (edit_of i) e \<and> cursor_ok e \<and> text_size e = text_size (edit_of i) \<and>
    edit_loop sgn_char fuel (map (frame_of h) (k # ks)) i =
      run_bind (process_key_press sgn_char fuel h (Some k) (put_edit e i)) (edit_loop sgn_char fuel (map (frame_of h) ks))"
proof -
  obtain e where e: "same_editing (edit_of i) e"
      "edit_frame sgn_char fuel (frame_of h k) i = process_key_press sgn_char fuel h (Some k) (put_edit e i)"
    using frame_prepared [OF c s] by blast
  have "same_text (edit_of i) e" using e(1) by (simp add: same_editing_def)
  from same_text_ok [OF this] show ?thesis using e c run by (intro exI [of _ e]) simp
qed

lemma put_put [simp]: "put_edit e (put_edit e' j) = put_edit e j"
  by (simp add: put_edit_def)

lemma command_actions:
  "lookup_action style Command_mode (key_char CHR ''w'') = A_none"
  "lookup_action style Command_mode (key_ext Ext_enter) = A_command_execute"
  by (simp_all add: lookup_action_def default_bindings_def simple_bindings_def key_defs)

lemma write_by_keys:
  assumes c: "cursor_ok (edit_of i)" and s: "text_size (edit_of i) < 2 ^ 31" and run: "ed_running (edit_of i)" and p: "ed_pending (edit_of i) = Op_none"
    and k0: "lookup_action (ed_style (edit_of i)) (ed_mode (edit_of i)) k0 = A_command_mode" "\<not> is_empty_key k0"
    and cmd: "get_command (edit_env sgn_char h) i ''w'' = Some c" "c_func c = F_ext 2"
    and w: "\<And>e. same_text (edit_of i) e \<Longrightarrow> ed_file_name e = ed_file_name (edit_of i) \<Longrightarrow>
      \<exists>l'. tcl_command_write h \<lparr>s_editor = e, s_link = s_link (i_ext i)\<rparr> =
        Done (\<lparr>s_editor = message_set (h_now h) ''file written'' (e\<lparr>ed_dirty := 0\<rparr>), s_link = l'\<rparr>, None, S_OK) \<and> P l'"
  shows "\<exists>i'. edit_loop sgn_char (Suc n) (map (frame_of h) [k0, key_char CHR ''w'', key_ext Ext_enter]) i = Done i' \<and>
    P (s_link (i_ext i')) \<and> ed_dirty (edit_of i') = 0 \<and> same_text (edit_of i) (edit_of i')"
proof -
  let ?go = "edit_loop sgn_char (Suc n)" and ?key = "process_key_press sgn_char (Suc n) h"
  obtain e0 where e0: "same_editing (edit_of i) e0" "cursor_ok e0" "text_size e0 = text_size (edit_of i)"
      "?go (map (frame_of h) [k0, key_char CHR ''w'', key_ext Ext_enter]) i =
        run_bind (?key (Some k0) (put_edit e0 i)) (?go (map (frame_of h) [key_char CHR ''w'', key_ext Ext_enter]))"
    using loop_key [OF c s run] by blast
  let ?e1 = "e0\<lparr>ed_mode := Command_mode, ed_command_line := []\<rparr>"
  have ok1: "cursor_ok ?e1" "text_size ?e1 < 2 ^ 31" "ed_running ?e1"
    using e0 s run by (simp_all add: cursor_ok_def row_ok_def n_lines_def text_size_def same_editing_def)
  have "?key (Some k0) (put_edit e0 i) = Done (put_edit ?e1 (put_edit e0 i))"
    by (rule process_plain [OF _ k0(2) _ refl _ ok1(1,2)])
      (use e0(1) p k0(1) in \<open>simp_all add: same_editing_def is_motion_def\<close>)
  then have 1: "?key (Some k0) (put_edit e0 i) = Done (put_edit ?e1 i)" by simp
  obtain e2 where e2: "same_editing ?e1 e2" "cursor_ok e2" "text_size e2 = text_size ?e1"
      "?go (map (frame_of h) [key_char CHR ''w'', key_ext Ext_enter]) (put_edit ?e1 i) =
        run_bind (?key (Some (key_char CHR ''w'')) (put_edit e2 (put_edit ?e1 i))) (?go (map (frame_of h) [key_ext Ext_enter]))"
    using loop_key [of "put_edit ?e1 i" sgn_char "Suc n" h "key_char CHR ''w''" "[key_ext Ext_enter]"] ok1 by auto
  let ?e3 = "e2\<lparr>ed_command_line := ''w''\<rparr>"
  have ok3: "cursor_ok ?e3" "text_size ?e3 < 2 ^ 31" "ed_running ?e3"
    using e2 ok1 by (simp_all add: cursor_ok_def row_ok_def n_lines_def text_size_def same_editing_def)
  have "?key (Some (key_char CHR ''w'')) (put_edit e2 i) = Done (put_edit ?e3 (put_edit e2 i))"
    by (rule process_plain [OF _ _ _ refl _ ok3(1,2)])
      (use e2(1) e0(1) p command_actions(1) in \<open>simp_all add: same_editing_def is_empty_key_def key_char_def nul_def unbound_key_def printable_def char_val_def\<close>)
  then have 2: "?key (Some (key_char CHR ''w'')) (put_edit e2 i) = Done (put_edit ?e3 i)" by simp
  obtain e4 where e4: "same_editing ?e3 e4" "cursor_ok e4" "text_size e4 = text_size ?e3"
      "?go (map (frame_of h) [key_ext Ext_enter]) (put_edit ?e3 i) =
        run_bind (?key (Some (key_ext Ext_enter)) (put_edit e4 (put_edit ?e3 i))) (?go [])"
    using loop_key [of "put_edit ?e3 i" sgn_char "Suc n" h "key_ext Ext_enter" "[]"] ok3 by auto
  have same: "same_text (edit_of i) e4" "ed_file_name e4 = ed_file_name (edit_of i)" "ed_command_line e4 = ''w''"
      "ed_mode e4 = Command_mode" "ed_pending e4 = Op_none"
    using e4(1) e2(1) e0(1) p by (simp_all add: same_editing_def same_text_def)
  obtain l' where l': "tcl_command_write h \<lparr>s_editor = e4, s_link = s_link (i_ext i)\<rparr> =
        Done (\<lparr>s_editor = message_set (h_now h) ''file written'' (e4\<lparr>ed_dirty := 0\<rparr>), s_link = l'\<rparr>, None, S_OK)" "P l'"
    using w [OF same(1,2)] by blast
  let ?i4 = "put_edit e4 i"
  let ?s = "\<lparr>s_editor = message_set (h_now h) ''file written'' (e4\<lparr>ed_dirty := 0\<rparr>), s_link = l'\<rparr>"
  have get: "get_command (edit_env sgn_char h) (?i4\<lparr>i_result := []\<rparr>) ''w'' = Some c"
    using cmd(1) by (simp add: get_command_def put_edit_def)
  have ext: "env_command (edit_env sgn_char h) 2 (i_ext (?i4\<lparr>i_result := []\<rparr>)) [''w''] = Done (?s, None, S_OK)"
    using l'(1) by (simp add: edit_env_def editor_command_def put_edit_def) (metis session.surjective session.update_convs(1) old.unit.exhaust)
  have ev: "eval (edit_env sgn_char h) (Suc n) ?i4 ''w'' = Done (?i4\<lparr>i_result := [], i_ext := ?s\<rparr>, S_OK)"
    unfolding eval_letter [OF char_w] using get cmd(2) ext by (simp add: dispatch_def run_command_def call_ext_def)
  let ?e5 = "(message_set (h_now h) ''file written'' (e4\<lparr>ed_dirty := 0\<rparr>))\<lparr>ed_command_line := [],
      ed_mode := (if ed_style e4 = Simple_style then Insert_mode else Normal_mode)\<rparr>"
  have ok5: "cursor_ok ?e5" "text_size ?e5 < 2 ^ 31"
    using e4(2,3) ok3(2) by (simp_all add: message_set_def cursor_ok_def row_ok_def n_lines_def text_size_def)
  have "?key (Some (key_ext Ext_enter)) ?i4 = Done (put_edit (correct_cx ?e5) (?i4\<lparr>i_result := [], i_ext := ?s\<rparr>))"
    using same command_actions(2) [of "ed_style e4"] ev
    by (simp add: process_key_press_def is_empty_key_def key_ext_def execute_action_def interpret_command_def on_edit_def Let_def
        is_motion_def edit_of_def put_edit_def message_set_def)
  then have 3: "?key (Some (key_ext Ext_enter)) ?i4 = Done (put_edit ?e5 (?i4\<lparr>i_result := [], i_ext := ?s\<rparr>))"
    unfolding correct_at [OF ok5] .
  let ?i5 = "put_edit ?e5 (?i4\<lparr>i_result := [], i_ext := ?s\<rparr>)"
  show ?thesis
  proof (intro exI conjI)
    show "?go (map (frame_of h) [k0, key_char CHR ''w'', key_ext Ext_enter]) i = Done ?i5" using e0(4) e2(4) e4(4) 1 2 3 by simp
    show "P (s_link (i_ext ?i5))" using l'(2) by (simp add: put_edit_def)
    show "ed_dirty (edit_of ?i5) = 0" unfolding edit_put by (simp add: message_set_def)
    show "same_text (edit_of i) (edit_of ?i5)" unfolding edit_put using same(1) by (simp add: message_set_def same_text_def)
  qed
qed

section \<open>A whole session\<close>

text \<open>The commands are registered on a new interpreter.\<close>

lemma editor_registered:
  "\<exists>i i'. register_core_commands env (interp_with s) = Done i \<and> register_all env editor_commands i = Done i' \<and> i_ext i' = s \<and>
     (\<exists>c. get_command env i' ''w'' = Some c \<and> c_func c = F_ext 2)"
proof -
  have "distinct (map fst (core_commands @ editor_commands))" "length core_commands + length editor_commands \<le> hm_limit"
    by (simp_all add: core_commands_def editor_commands_def hm_limit_def)
  from extension_registered [OF this, of env s] show ?thesis
    by (fastforce simp: editor_commands_def cmd_of_def)
qed

text \<open>The characters that the keys stand for.\<close>

definition typed_text :: "key list \<Rightarrow> string" where
  "typed_text ks = map (\<lambda>k. if k_ext k = Ext_enter then lf else k_c k) ks"

lemma typed_gap: "list_all inserting_key ks \<Longrightarrow> fold gap_key ks (l, r) = (l @ typed_text ks, r)"
proof (induction ks arbitrary: l)
  case (Cons k ks)
  have "gap_key k (l, r) = (l @ typed_text [k], r)"
  proof (cases "k = key_ext Ext_enter")
    case False
    then have "k = key_char (k_c k)" using Cons.prems by (auto simp: inserting_key_def)
    then have "k_ext k = Ext_none" using key_ext_simps(2) by metis
    then show ?thesis by (simp add: gap_key_def typed_text_def)
  qed (simp add: gap_key_def typed_text_def)
  then show ?case using Cons by (simp add: typed_text_def)
qed (simp add: typed_text_def)

lemma join_line_length: "x \<in> set xs \<Longrightarrow> length x \<le> length (join_lines xs)"
  by (induction xs rule: join_lines.induct) auto

definition session_start :: "link \<Rightarrow> session interp" where
  "session_start l = interp_with \<lparr>s_editor = editor_new, s_link = l\<rparr>"

lemma session_saves:
  assumes r: "server_ready (l_fs l)" and p: "path_ok path"
    and dir: "fs_abs (l_fs l) (butlast (split_path path)) = Some E_dir" "fs_abs (l_fs l) (split_path path) = None"
    and page: "2 < length (l_client_page l)" and ks: "list_all inserting_key ks" "length ks \<le> chunk_size" and found: "h_found h"
  shows "\<exists>i'. edit_run sgn_char (Suc n) True h (Some path)
      (map (frame_of h) (ks @ [key_alt CHR ''x'', key_char CHR ''w'', key_ext Ext_enter])) (session_start l) = Done i' \<and>
    saved l path (typed_text ks) (s_link (i_ext i')) \<and> ed_dirty (edit_of i') = 0"
proof -
  let ?env = "edit_env sgn_char h" and ?s0 = "\<lparr>s_editor = editor_new, s_link = l\<rparr>"
  have start: "put_edit ((edit_of (session_start l))\<lparr>ed_running := True\<rparr>) (session_start l) = interp_with ?s0"
    by (simp add: put_edit_def edit_of_def session_start_def interp_with_def editor_new_def)
  obtain i1 i2 c where reg: "register_core_commands ?env (interp_with ?s0) = Done i1" "register_all ?env editor_commands i1 = Done i2"
      "i_ext i2 = ?s0" "get_command ?env i2 ''w'' = Some c" "c_func c = F_ext 2"
    using editor_registered [of ?env ?s0] by (elim exE conjE)
  have t: "tree_ok (l_fs (s_link ?s0))" using r by (simp add: server_ready_def fs_inv_def)
  define e where "e = message_set (h_now h) ''[New File]'' (editor_new\<lparr>ed_file_name := path, ed_file_lines := [[]]\<rparr>)"
  obtain l1 where load: "edit_load (Suc n) h path ?s0 = Done (\<lparr>s_editor = e, s_link = l1\<rparr>, True)" "l_fs l1 = l_fs l"
      "2 < length (l_client_page l1)"
    using edit_load_missing [OF p t _ found, of "Suc n"] dir(2) page by (auto simp: e_def editor_new_def)
  let ?i3 = "i2\<lparr>i_ext := \<lparr>s_editor = e, s_link = l1\<rparr>\<rparr>"
  have e: "edit_of ?i3 = e" "cursor_ok e" "text_size e = 1" "typing e" "gap_of e = ([], [])" "plain e" "ed_file_name e = path" "ed_style e = Simple_style"
    by (simp_all add: e_def edit_of_def message_set_def editor_new_def cursor_ok_def row_ok_def n_lines_def text_size_def typing_def gap_of_def plain_def)
  have "list_all typing_key ks" using ks(1) inserting_typing by (auto simp: list_all_iff)
  then obtain e4 where e4: "edit_loop sgn_char (Suc n) (map (frame_of h) ks) ?i3 = Done (put_edit e4 ?i3)"
      "gap_of e4 = (typed_text ks, [])" "cursor_ok e4" "edited e e4" "text_size e4 \<le> 1 + length ks"
    using typed_keys [of ks ?i3 sgn_char "Suc n" h] e ks(2) typed_gap [OF ks(1), of "[]" "[]"] by (auto simp: chunk_size_def)
  let ?i4 = "put_edit e4 ?i3"
  obtain pre x y suf where at: "cursor_at e4 pre x y suf" using cursor_split [OF e4(3)] .
  have join: "join_lines (ed_file_lines e4) = typed_text ks" using gap_join(3) [OF at] e4(2) by simp
  have ne: "ed_file_lines e4 \<noteq> []" using at by (simp add: cursor_at_def)
  have tl: "length (typed_text ks) = length ks" by (simp add: typed_text_def)
  have ed: "ed_mode e4 = Insert_mode" "ed_pending e4 = Op_none" "ed_running e4" "ed_style e4 = Simple_style" "ed_file_name e4 = path"
    using e4(4) e by (simp_all add: edited_def typing_def)
  define P where "P = saved l path (typed_text ks)"
  have w: "\<exists>l'. tcl_command_write h \<lparr>s_editor = e', s_link = s_link (i_ext ?i4)\<rparr> =
        Done (\<lparr>s_editor = message_set (h_now h) ''file written'' (e'\<lparr>ed_dirty := 0\<rparr>), s_link = l'\<rparr>, None, S_OK) \<and> P l'"
    if "same_text (edit_of ?i4) e'" "ed_file_name e' = ed_file_name (edit_of ?i4)" for e'
  proof -
    have lk: "s_link (i_ext ?i4) = l1" by (simp add: put_edit_def)
    have xs: "ed_file_lines e' = ed_file_lines e4" using that(1) by (simp add: same_text_def)
    have "\<forall>x\<in>set (ed_file_lines e4). length x \<le> chunk_size" using join_line_length [of _ "ed_file_lines e4"] join tl ks(2) by fastforce
    moreover have "length (join_lines (ed_file_lines e4)) < size_mod" using join tl ks(2) by (simp add: chunk_size_def size_mod_def)
    ultimately show ?thesis
      using command_write_at [of "\<lparr>s_editor = e', s_link = l1\<rparr>" path h] r p dir load(2,3) that(2) ed(5) ne found
      by (simp add: lk xs join P_def saved_def)
  qed
  have k0: "lookup_action (ed_style (edit_of ?i4)) (ed_mode (edit_of ?i4)) (key_alt CHR ''x'') = A_command_mode" "\<not> is_empty_key (key_alt CHR ''x'')"
    using ed by (simp_all add: lookup_action_def simple_bindings_def key_defs is_empty_key_def nul_def)
  have cmd: "get_command ?env ?i4 ''w'' = Some c" using reg(4) by (simp add: get_command_def put_edit_def)
  have "cursor_ok (edit_of ?i4)" "text_size (edit_of ?i4) < 2 ^ 31" "ed_running (edit_of ?i4)" "ed_pending (edit_of ?i4) = Op_none"
    using e4(3,5) ed ks(2) by (simp_all add: chunk_size_def)
  from write_by_keys [OF this k0 cmd reg(5) w, of n] obtain i5 where
    i5: "edit_loop sgn_char (Suc n) (map (frame_of h) [key_alt CHR ''x'', key_char CHR ''w'', key_ext Ext_enter]) ?i4 = Done i5"
      "P (s_link (i_ext i5))" "ed_dirty (edit_of i5) = 0" by blast
  have "edit_run sgn_char (Suc n) True h (Some path) (map (frame_of h) (ks @ [key_alt CHR ''x'', key_char CHR ''w'', key_ext Ext_enter])) (session_start l) =
      edit_loop sgn_char (Suc n) (map (frame_of h) (ks @ [key_alt CHR ''x'', key_char CHR ''w'', key_ext Ext_enter])) ?i3"
    using reg(1-3) load(1) by (simp add: edit_run_def start Let_def del: map_append)
  also have "\<dots> = Done i5" unfolding map_append edit_loop_append e4(1) run_bind.simps by (rule i5(1))
  finally show ?thesis using i5(2,3) by (auto simp: P_def)
qed

text \<open>The lines that a text is cut into, put together again.\<close>

lemma split_content_join:
  "split_content cur s = (xs, r) \<Longrightarrow> join_lines (xs @ [r]) = cur @ s"
proof (induction cur s arbitrary: xs r rule: split_content.induct)
  case (2 cur c cs)
  show ?case
  proof (cases "c = CHR 0x0A")
    case True
    obtain ys q where y: "split_content [] cs = (ys, q)" by (cases "split_content [] cs")
    have "xs = cur # ys" "r = q" using "2.prems" True y by simp_all
    moreover obtain z zs where "ys @ [q] = z # zs" by (cases ys) auto
    ultimately show ?thesis using "2.IH"(1) [OF True y] True by (simp add: lf_def)
  qed (use 2 in simp)
qed simp

lemma content_text:
  assumes "s = [] \<or> last s \<noteq> lf"
  shows "join_lines (content_lines s) = s"
proof -
  obtain xs r where x: "split_content [] s = (xs, r)" by (cases "split_content [] s")
  have j: "join_lines (xs @ [r]) = s" using split_content_join [OF x] by simp
  show ?thesis
  proof (cases "r \<noteq> [] \<or> s = []")
    case True
    then show ?thesis using x j by (simp add: content_lines_def)
  next
    case False
    then have "xs \<noteq> []" using j by auto
    have "join_lines (xs @ [[]]) = join_lines xs @ [lf]" if "xs \<noteq> []" for xs
      using that by (induction xs rule: join_lines.induct) (auto split: list.splits)
    then have "last s = lf" using j False \<open>xs \<noteq> []\<close> by (metis last_snoc)
    then show ?thesis using assms False by simp
  qed
qed

section \<open>Properties\<close>





text \<open>An empty last line does not come back.\<close>

lemma trailing_line_lost:
  assumes "list_all (\<lambda>x. lf \<notin> set x) xs" and "xs \<noteq> []" and "xs \<noteq> [[]]"
  shows "content_lines (join_lines (xs @ [[]])) = xs"
proof -
  have "join_lines (xs @ [[]]) \<noteq> []" using assms(2) by (induction xs rule: join_lines.induct) (auto split: list.splits)
  then show ?thesis using split_join [of "xs @ [[]]"] assms(1) by (simp add: content_lines_def)
qed

end
