(* ===== verification/Virtio.thy ===== *)
theory Virtio
  imports Prelude
begin

text \<open>
  VirtIO devices (\<open>user/virtio/virtio.hpp\<close>): the registers of a device, its initialisation,
  and a virtqueue with its descriptors, its available ring and its used ring. The indexes
  of the rings are 16 bits wide and run freely, so that they wrap around; a position in a
  ring is the index modulo the size of the queue. What a device answers when a register is
  read is a parameter: a function of the register writes so far.
\<close>

section \<open>Device registers\<close>

definition mmio_magic_value :: nat where "mmio_magic_value = 0x000"
definition mmio_version :: nat where "mmio_version = 0x004"
definition mmio_device_id :: nat where "mmio_device_id = 0x008"
definition mmio_driver_features :: nat where "mmio_driver_features = 0x020"
definition mmio_guest_page_size :: nat where "mmio_guest_page_size = 0x028"
definition mmio_queue_sel :: nat where "mmio_queue_sel = 0x030"
definition mmio_queue_num_max :: nat where "mmio_queue_num_max = 0x034"
definition mmio_queue_num :: nat where "mmio_queue_num = 0x038"
definition mmio_queue_align :: nat where "mmio_queue_align = 0x03c"
definition mmio_queue_pfn :: nat where "mmio_queue_pfn = 0x040"
definition mmio_queue_ready :: nat where "mmio_queue_ready = 0x044"
definition mmio_queue_notify :: nat where "mmio_queue_notify = 0x050"
definition mmio_status :: nat where "mmio_status = 0x070"
definition mmio_queue_desc_low :: nat where "mmio_queue_desc_low = 0x080"
definition mmio_queue_desc_high :: nat where "mmio_queue_desc_high = 0x084"
definition mmio_queue_driver_low :: nat where "mmio_queue_driver_low = 0x090"
definition mmio_queue_driver_high :: nat where "mmio_queue_driver_high = 0x094"
definition mmio_queue_device_low :: nat where "mmio_queue_device_low = 0x0a0"
definition mmio_queue_device_high :: nat where "mmio_queue_device_high = 0x0a4"

definition magic_expected :: "32 word" where "magic_expected = 0x74726976"
definition version_expected :: "32 word" where "version_expected = 1"

definition status_acknowledge :: "32 word" where "status_acknowledge = 1"
definition status_driver :: "32 word" where "status_driver = 2"
definition status_driver_ok :: "32 word" where "status_driver_ok = 4"
definition status_features_ok :: "32 word" where "status_features_ok = 8"

definition mmio_base :: nat where "mmio_base = 0x10001000"
definition mmio_size :: nat where "mmio_size = 0x1000"
definition mmio_count :: nat where "mmio_count = 8"

text \<open>
  A register write is the address of the register and the value; the most recent write
  comes first. A bus answers a read at an address, given the writes so far.
\<close>

type_synonym reg_log = "(nat \<times> 32 word) list"
type_synonym bus = "reg_log \<Rightarrow> nat \<Rightarrow> 32 word"

definition read_reg :: "bus \<Rightarrow> nat \<Rightarrow> nat \<Rightarrow> reg_log \<Rightarrow> 32 word" where
  "read_reg bus base off l = bus l (base + off div 4 * 4)"

definition write_reg :: "nat \<Rightarrow> nat \<Rightarrow> 32 word \<Rightarrow> reg_log \<Rightarrow> reg_log" where
  "write_reg base off v l = (base + off div 4 * 4, v) # l"

definition dev_is_valid :: "bus \<Rightarrow> nat \<Rightarrow> reg_log \<Rightarrow> bool" where
  "dev_is_valid bus base l \<longleftrightarrow> read_reg bus base mmio_magic_value l = 0x74726976"

definition dev_init :: "bus \<Rightarrow> nat \<Rightarrow> reg_log \<Rightarrow> reg_log \<times> bool" where
  "dev_init bus base l =
     (let l = write_reg base mmio_status 0 l;
          l = write_reg base mmio_status status_acknowledge l;
          l = write_reg base mmio_status (status_acknowledge OR status_driver) l;
          l = write_reg base mmio_driver_features 0 l;
          l = write_reg base mmio_status (status_acknowledge OR status_driver OR status_features_ok) l
      in (l, read_reg bus base mmio_status l AND status_features_ok \<noteq> 0))"

definition set_driver_ok :: "nat \<Rightarrow> reg_log \<Rightarrow> reg_log" where
  "set_driver_ok base = write_reg base mmio_status
     (status_acknowledge OR status_driver OR status_features_ok OR status_driver_ok)"

datatype virtio_error = Virtio_setup_fail | Virtio_device_not_found

text \<open>The loop of \<open>scan_for_device\<close> from slot \<open>i\<close>.\<close>

function scan_slots :: "bus \<Rightarrow> 32 word \<Rightarrow> reg_log \<Rightarrow> nat \<Rightarrow> virtio_error + nat" where
  "scan_slots bus dev_id l i =
     (if i < mmio_count then
        (let addr = mmio_base + i * mmio_size; did = read_reg bus addr mmio_device_id l in
         if dev_is_valid bus addr l \<and> did = dev_id then Inr addr
         else scan_slots bus dev_id l (i + 1))
      else Inl Virtio_device_not_found)"
  by pat_completeness auto
termination by (relation "measure (\<lambda>(_, _, _, i). mmio_count - i)") auto

declare scan_slots.simps [simp del]

definition scan_for_device :: "bus \<Rightarrow> 32 word \<Rightarrow> reg_log \<Rightarrow> virtio_error + nat" where
  "scan_for_device bus dev_id l =
     (if read_reg bus mmio_base mmio_magic_value l \<noteq> magic_expected then Inl Virtio_setup_fail
      else if read_reg bus mmio_base mmio_version l \<noteq> version_expected then Inl Virtio_setup_fail
      else scan_slots bus dev_id l 0)"

section \<open>The virtqueue\<close>

definition queue_size_max :: nat where "queue_size_max = 8"

definition desc_f_next :: "16 word" where "desc_f_next = 1"
definition desc_f_write :: "16 word" where "desc_f_write = 2"

record virtq_desc =
  d_addr :: nat
  d_len :: "32 word"
  d_flags :: "16 word"
  d_next :: "16 word"

record virtq_avail =
  a_flags :: "16 word"
  a_idx :: "16 word"
  a_ring :: "16 word list"
  a_used_event :: "16 word"

record virtq_used =
  u_flags :: "16 word"
  u_idx :: "16 word"
  u_ring :: "(32 word \<times> 32 word) list"
  u_avail_event :: "16 word"

record virtqueue =
  vq_desc_addr :: "32 word"
  vq_avail_addr :: "32 word"
  vq_used_addr :: "32 word"
  vq_desc :: "virtq_desc list"
  vq_avail :: virtq_avail
  vq_used :: virtq_used
  vq_last_used :: "16 word"
  vq_size :: "16 word"

definition zero_desc :: virtq_desc where
  "zero_desc = \<lparr>d_addr = 0, d_len = 0, d_flags = 0, d_next = 0\<rparr>"

definition vq_page_size :: "32 word" where "vq_page_size = 4096"

text \<open>\<open>sizeof\<close> of a descriptor is 16, of the available ring 22, of the used ring 70.\<close>

definition virtq_init :: "32 word \<Rightarrow> 16 word \<Rightarrow> virtqueue" where
  "virtq_init mem qsize =
     (let avail = mem + 16 * ucast qsize;
          used_addr = avail + 22 + 2 * ucast qsize;
          used_addr = (used_addr + vq_page_size - 1) AND NOT (vq_page_size - 1)
      in \<lparr>vq_desc_addr = mem, vq_avail_addr = avail, vq_used_addr = used_addr,
          vq_desc = replicate (unat qsize) zero_desc,
          vq_avail = \<lparr>a_flags = 0, a_idx = 0, a_ring = replicate queue_size_max 0, a_used_event = 0\<rparr>,
          vq_used = \<lparr>u_flags = 0, u_idx = 0, u_ring = replicate queue_size_max (0, 0), u_avail_event = 0\<rparr>,
          vq_last_used = 0, vq_size = qsize\<rparr>)"

definition vq_add_buf :: "16 word \<Rightarrow> nat \<Rightarrow> 32 word \<Rightarrow> 16 word \<Rightarrow> virtqueue \<Rightarrow> virtqueue run" where
  "vq_add_buf i buf n flags q =
     (if unat i < length (vq_desc q)
      then Done (q\<lparr>vq_desc := (vq_desc q)[unat i := \<lparr>d_addr = buf, d_len = n, d_flags = flags, d_next = 0\<rparr>]\<rparr>)
      else Undefined Ub_index)"

definition vq_submit :: "16 word \<Rightarrow> virtqueue \<Rightarrow> virtqueue run" where
  "vq_submit i q =
     (if vq_size q = 0 then Undefined Ub_division
      else let idx = a_idx (vq_avail q) mod vq_size q; r = a_ring (vq_avail q) in
        if unat idx < length r
        then Done (q\<lparr>vq_avail := (vq_avail q)\<lparr>a_ring := r[unat idx := i], a_idx := a_idx (vq_avail q) + 1\<rparr>\<rparr>)
        else Undefined Ub_index)"

definition vq_has_used :: "virtqueue \<Rightarrow> bool" where
  "vq_has_used q \<longleftrightarrow> vq_last_used q \<noteq> u_idx (vq_used q)"

definition vq_get_used :: "virtqueue \<Rightarrow> (virtqueue \<times> 32 word) run" where
  "vq_get_used q =
     (if \<not> vq_has_used q then Done (q, 0xFFFFFFFF)
      else if vq_size q = 0 then Undefined Ub_division
      else let idx = vq_last_used q mod vq_size q; r = u_ring (vq_used q) in
        if unat idx < length r then Done (q\<lparr>vq_last_used := vq_last_used q + 1\<rparr>, fst (r ! unat idx))
        else Undefined Ub_index)"

section \<open>Chains of descriptors\<close>

text \<open>The builder of \<open>VirtQueueChain\<close>; \<open>prev_idx\<close> is a signed 16-bit integer, -1 at first.\<close>

record vq_chain =
  vc_start :: "16 word"
  vc_current :: "16 word"
  vc_prev :: "16 word"

definition chain_new :: "16 word \<Rightarrow> vq_chain" where
  "chain_new start = \<lparr>vc_start = start, vc_current = start, vc_prev = - 1\<rparr>"

definition chain_link :: "vq_chain \<Rightarrow> virtqueue \<Rightarrow> virtqueue run" where
  "chain_link c q =
     (if 0 \<le> sint (vc_prev c) then
        (let i = unat (vc_prev c) in
         if i < length (vq_desc q)
         then Done (q\<lparr>vq_desc := (vq_desc q)[i := (vq_desc q ! i)
                \<lparr>d_flags := d_flags (vq_desc q ! i) OR desc_f_next, d_next := vc_current c\<rparr>]\<rparr>)
         else Undefined Ub_index)
      else Done q)"

definition chain_add :: "nat \<Rightarrow> 32 word \<Rightarrow> 16 word \<Rightarrow> vq_chain \<times> virtqueue \<Rightarrow> (vq_chain \<times> virtqueue) run" where
  "chain_add buf n flags cq = (case cq of (c, q) \<Rightarrow>
     run_bind (chain_link c q) (\<lambda>q.
     run_bind (vq_add_buf (vc_current c) buf n flags q) (\<lambda>q.
     Done (c\<lparr>vc_prev := vc_current c, vc_current := vc_current c + 1\<rparr>, q))))"

definition chain_out :: "nat \<Rightarrow> 32 word \<Rightarrow> vq_chain \<times> virtqueue \<Rightarrow> (vq_chain \<times> virtqueue) run" where
  "chain_out buf n = chain_add buf n 0"

definition chain_in :: "nat \<Rightarrow> 32 word \<Rightarrow> vq_chain \<times> virtqueue \<Rightarrow> (vq_chain \<times> virtqueue) run" where
  "chain_in buf n = chain_add buf n desc_f_write"

definition chain_out_or_in :: "bool \<Rightarrow> nat \<Rightarrow> 32 word \<Rightarrow> vq_chain \<times> virtqueue \<Rightarrow> (vq_chain \<times> virtqueue) run" where
  "chain_out_or_in is_out buf n = (if is_out then chain_out buf n else chain_in buf n)"

definition chain_submit :: "vq_chain \<times> virtqueue \<Rightarrow> virtqueue run" where
  "chain_submit cq = (case cq of (c, q) \<Rightarrow> vq_submit (vc_start c) q)"

section \<open>Setting up a queue\<close>

definition setup_queue :: "bus \<Rightarrow> nat \<Rightarrow> 32 word \<Rightarrow> 32 word \<Rightarrow> 16 word \<Rightarrow> reg_log \<Rightarrow> reg_log \<times> virtqueue" where
  "setup_queue bus base idx mem qsize l =
     (let q = virtq_init mem qsize;
          l = write_reg base mmio_queue_sel idx l;
          l = write_reg base mmio_queue_num (ucast qsize) l
      in if read_reg bus base mmio_version l = 1 then
           (let l = write_reg base mmio_guest_page_size vq_page_size l;
                l = write_reg base mmio_queue_align vq_page_size l;
                l = write_reg base mmio_queue_pfn (mem div vq_page_size) l
            in (l, q))
         else
           (let l = write_reg base mmio_queue_desc_low (vq_desc_addr q) l;
                l = write_reg base mmio_queue_desc_high 0 l;
                l = write_reg base mmio_queue_driver_low (vq_avail_addr q) l;
                l = write_reg base mmio_queue_driver_high 0 l;
                l = write_reg base mmio_queue_device_low (vq_used_addr q) l;
                l = write_reg base mmio_queue_device_high 0 l;
                l = write_reg base mmio_queue_ready 1 l
            in (l, q)))"

section \<open>Slices of a ring\<close>

text \<open>The \<open>n\<close> entries of a ring from index \<open>s\<close> on.\<close>

definition ring_slice :: "'a list \<Rightarrow> nat \<Rightarrow> nat \<Rightarrow> 'a list" where
  "ring_slice r s n = map (\<lambda>i. r ! ((s + i) mod length r)) [0..<n]"

lemma ring_slice_0 [simp]: "ring_slice r s 0 = []"
  by (simp add: ring_slice_def)

lemma length_ring_slice [simp]: "length (ring_slice r s n) = n"
  by (simp add: ring_slice_def)

lemma ring_slice_mod: "ring_slice r (s mod length r) n = ring_slice r s n"
  by (simp add: ring_slice_def mod_add_left_eq)

lemma ring_slice_cong: "s mod length r = t mod length r \<Longrightarrow> ring_slice r s n = ring_slice r t n"
  by (metis ring_slice_mod)

lemma ring_slice_Suc: "ring_slice r s (Suc n) = r ! (s mod length r) # ring_slice r (Suc s) n"
  unfolding ring_slice_def
  by (subst upt_conv_Cons) (auto simp: map_Suc_upt [symmetric] simp del: upt_Suc map_Suc_upt)

lemma ring_slice_tl: "tl (ring_slice r s n) = ring_slice r (Suc s) (n - 1)"
  by (cases n) (auto simp: ring_slice_Suc)

text \<open>An entry written behind a slice that does not fill the ring extends it.\<close>

lemma ring_slice_push:
  assumes "n < length r"
  shows "ring_slice (r[(s + n) mod length r := x]) s (Suc n) = ring_slice r s n @ [x]"
proof -
  have ne: "(s + i) mod length r \<noteq> (s + n) mod length r" if "i < n" for i
  proof
    assume "(s + i) mod length r = (s + n) mod length r"
    then have "length r dvd (s + n) - (s + i)"
      using that by (subst mod_eq_dvd_iff_nat [symmetric]) simp_all
    then have "length r dvd n - i" by simp
    then show False using that assms by (auto dest: dvd_imp_le)
  qed
  have "r \<noteq> []" using assms by auto
  then have "(s + i) mod length r < length r" for i by simp
  then show ?thesis using ne [THEN not_sym] by (simp add: ring_slice_def)
qed

text \<open>A 16-bit index as a position in a ring of eight entries: the size divides \<open>2 ^ 16\<close>, so
  the position does not jump when the index wraps around.\<close>

lemma ring_pos [simp]: "unat ((w :: 16 word) mod 8) = unat w mod 8"
  by (simp add: unat_mod)

lemma ring_pos_Suc: "unat ((w :: 16 word) + 1) mod 8 = Suc (unat w) mod 8"
proof -
  have "unat (w + 1) = (unat w + 1) mod 2 ^ 16" by (simp add: unat_word_ariths)
  then show ?thesis by (simp add: mod_mod_cancel)
qed

lemma ring_pos_diff: "(unat (a :: 16 word) + unat (b - a)) mod 8 = unat b mod 8"
proof -
  have "unat b = (unat a + unat (b - a)) mod 2 ^ 16"
    using unat_word_ariths(1) [of a "b - a"] by simp
  then show ?thesis by (simp add: mod_mod_cancel)
qed

lemma ring_slice_idx_Suc:
  "length r = 8 \<Longrightarrow> ring_slice r (unat ((w :: 16 word) + 1)) n = ring_slice r (Suc (unat w)) n"
  by (rule ring_slice_cong) (simp add: ring_pos_Suc)

text \<open>The layout of a queue on a page-aligned address: the used ring starts with the next page.\<close>

lemma word_page_down: "unat ((w :: 32 word) AND NOT (vq_page_size - 1)) = unat w div 4096 * 4096"
proof -
  have m: "vq_page_size - 1 = mask 12" by (simp add: vq_page_size_def mask_eq_exp_minus_1)
  have "w AND NOT (mask 12) = push_bit 12 (drop_bit 12 w)"
    by (rule bit_eqI) (auto simp: bit_simps)
  moreover have "push_bit 12 (drop_bit 12 w) + take_bit 12 w = w" by (rule bits_ident)
  ultimately have "w AND NOT (vq_page_size - 1) = w - take_bit 12 w"
    unfolding m by (metis add_diff_cancel_right')
  moreover have "unat (take_bit 12 w) = unat w mod 4096"
    by (simp add: take_bit_eq_mod unat_mod)
  moreover have "take_bit 12 w \<le> w" by (simp add: word_le_nat_alt take_bit_eq_mod unat_mod)
  ultimately show ?thesis by (simp add: unat_sub minus_mod_eq_div_mult)
qed

lemma virtq_used_next_page:
  assumes "unat mem mod 4096 = 0" and "unat mem + 8192 \<le> 2 ^ 32"
  shows "unat (vq_used_addr (virtq_init mem 8)) = unat mem + 4096"
proof -
  have "vq_used_addr (virtq_init mem 8) = (mem + 4261) AND NOT (vq_page_size - 1)"
    by (simp add: virtq_init_def Let_def vq_page_size_def add.commute [of mem] add.assoc)
  moreover have "unat (mem + 4261) = unat mem + 4261"
    using assms by (subst unat_word_ariths) simp
  moreover have "(4096 * k + 4261) div 4096 * 4096 = 4096 * k + (4096 :: nat)" for k
    by simp
  moreover obtain k where "unat mem = 4096 * k" using assms(1) by (metis mult_div_mod_eq add_0_right)
  ultimately show ?thesis by (simp only: word_page_down)
qed

end
