(* ===== verification/Keyboard.thy ===== *)
theory Keyboard
  imports Virtio
begin

text \<open>
  The keyboard: key codes to characters (\<open>lib/keyboard-utils.cpp\<close>), the VirtIO back end with
  its event buffers and modifier keys (\<open>user/keyboard/backend-virtio.cpp\<close>), and the server
  that polls it (\<open>user/keyboard/impl.cpp\<close>, \<open>user/gen/keyboard-server.cpp\<close>). The input
  device is a parameter; \<open>input_device\<close> states what the VirtIO specification requires of it.
\<close>

section \<open>Key codes\<close>

text \<open>The codes of \<open>backend.hpp\<close> that have a character, each with the plain and the shifted one.\<close>

definition key_ranges :: "(nat \<times> string \<times> string) list" where
  "key_ranges =
    [(2, ''123456789'', ''!@#$%^&*(''), (11, ''0'', '')''),
     (16, ''qwertyuiop'', ''QWERTYUIOP''),
     (30, ''asdfghjkl'', ''ASDFGHJKL''),
     (44, ''zxcvbnm'', ''ZXCVBNM''),
     (51, '','', ''<''), (52, ''.'', ''>''), (53, ''/'', ''?''),
     (39, '';'', '':''), (40, [CHR 0x27], [CHR 0x22]),
     (26, ''['', ''{''), (27, '']'', ''}''), (43, [CHR 0x5C], ''|''),
     (12, ''-'', ''_''), (13, ''='', ''+''), (41, [CHR 0x60], ''~''),
     (57, '' '', '' ''), (28, [CHR 0x0A], [CHR 0x0A]), (15, [CHR 0x09], [CHR 0x09])]"

fun key_lookup :: "(nat \<times> string \<times> string) list \<Rightarrow> nat \<Rightarrow> bool \<Rightarrow> char" where
  "key_lookup [] code shift = CHR 0x00"
| "key_lookup ((k, plain, shifted) # rs) code shift =
     (if k \<le> code \<and> code < k + length plain
      then (if shift then shifted else plain) ! (code - k)
      else key_lookup rs code shift)"

definition scancode_to_ascii :: "16 word \<Rightarrow> bool \<Rightarrow> char" where
  "scancode_to_ascii code shift = key_lookup key_ranges (unat code) shift"

section \<open>The back end\<close>

definition key_flag_pressed :: "8 word" where "key_flag_pressed = 0x01"
definition key_flag_shift :: "8 word" where "key_flag_shift = 0x02"
definition key_flag_ctrl :: "8 word" where "key_flag_ctrl = 0x04"
definition key_flag_alt :: "8 word" where "key_flag_alt = 0x08"

definition key_leftshift :: "16 word" where "key_leftshift = 42"
definition key_rightshift :: "16 word" where "key_rightshift = 54"
definition key_leftctrl :: "16 word" where "key_leftctrl = 29"
definition key_rightctrl :: "16 word" where "key_rightctrl = 97"
definition key_leftalt :: "16 word" where "key_leftalt = 56"
definition key_rightalt :: "16 word" where "key_rightalt = 100"

record key_event =
  ke_code :: "16 word"
  ke_flags :: "8 word"

record input_event =
  ie_type :: "16 word"
  ie_code :: "16 word"
  ie_value :: "32 word"

definition zero_event :: input_event where
  "zero_event = \<lparr>ie_type = 0, ie_code = 0, ie_value = 0\<rparr>"

definition ev_key :: "16 word" where "ev_key = 1"
definition event_buffers :: nat where "event_buffers = 8"
definition event_size :: nat where "event_size = 8"
definition virtio_id_input :: "32 word" where "virtio_id_input = 18"

record modifiers =
  m_shift :: bool
  m_ctrl :: bool
  m_alt :: bool

text \<open>
  \<open>kb_seen\<close> belongs to the device: the index in the available ring up to which it has
  taken buffers.
\<close>

record keyboard =
  kb_base :: nat
  kb_queue :: virtqueue
  kb_page :: nat
  kb_bufs :: "input_event list"
  kb_mods :: modifiers
  kb_regs :: reg_log
  kb_seen :: "16 word"

definition buf_addr :: "keyboard \<Rightarrow> nat \<Rightarrow> nat" where
  "buf_addr k i = kb_page k + i * event_size"

definition post_buffer :: "nat \<Rightarrow> keyboard \<Rightarrow> keyboard run" where
  "post_buffer i k =
     (if i < length (kb_bufs k) then
        (let k = k\<lparr>kb_bufs := (kb_bufs k)[i := zero_event]\<rparr> in
         run_bind (chain_in (buf_addr k i) (of_nat event_size) (chain_new (of_nat i), kb_queue k)) (\<lambda>cq.
         run_bind (chain_submit cq) (\<lambda>q. Done (k\<lparr>kb_queue := q\<rparr>))))
      else Undefined Ub_index)"

definition notify_queue :: "keyboard \<Rightarrow> keyboard" where
  "notify_queue k = k\<lparr>kb_regs := write_reg (kb_base k) mmio_queue_notify 0 (kb_regs k)\<rparr>"

fun post_from :: "nat \<Rightarrow> nat \<Rightarrow> keyboard \<Rightarrow> keyboard run" where
  "post_from i 0 k = Done k"
| "post_from i (Suc n) k = run_bind (post_buffer i k) (post_from (Suc i) n)"

definition post_buffers :: "keyboard \<Rightarrow> keyboard run" where
  "post_buffers k = run_bind (post_from 0 event_buffers k) (\<lambda>k. Done (notify_queue k))"

text \<open>\<open>qmem\<close> and \<open>emem\<close> are the pages that the kernel hands out, 0 when it has none; the
  events are cells of the second page.\<close>

definition keyboard_init :: "bus \<Rightarrow> nat \<Rightarrow> 32 word \<Rightarrow> 32 word \<Rightarrow> reg_log \<Rightarrow> keyboard option run" where
  "keyboard_init bus base qmem emem l =
     (if \<not> dev_is_valid bus base l \<or> read_reg bus base mmio_device_id l \<noteq> virtio_id_input then Done None
      else case dev_init bus base l of (l, ok) \<Rightarrow>
        if \<not> ok then Done None
        else if unat (read_reg bus base mmio_queue_num_max l) < queue_size_max then Done None
        else if qmem = 0 then Done None
        else case setup_queue bus base 0 qmem (of_nat queue_size_max) l of (l, q) \<Rightarrow>
          let l = set_driver_ok base l in
          if emem = 0 then Done None
          else run_bind (post_buffers \<lparr>kb_base = base, kb_queue = q, kb_page = unat emem,
                 kb_bufs = replicate (4096 div event_size) zero_event,
                 kb_mods = \<lparr>m_shift = False, m_ctrl = False, m_alt = False\<rparr>,
                 kb_regs = l, kb_seen = 0\<rparr>) (\<lambda>k. Done (Some k)))"

definition is_modifier :: "16 word \<Rightarrow> bool" where
  "is_modifier c \<longleftrightarrow> c = key_leftshift \<or> c = key_rightshift \<or> c = key_leftctrl \<or> c = key_rightctrl
     \<or> c = key_leftalt \<or> c = key_rightalt"

definition process_raw_event :: "input_event \<Rightarrow> modifiers \<Rightarrow> key_event \<Rightarrow> modifiers \<times> key_event" where
  "process_raw_event ev m out =
     (let c = ie_code ev; pressed = (ie_value ev = 1) in
      if c = key_leftshift \<or> c = key_rightshift then (m\<lparr>m_shift := pressed\<rparr>, out)
      else if c = key_leftctrl \<or> c = key_rightctrl then (m\<lparr>m_ctrl := pressed\<rparr>, out)
      else if c = key_leftalt \<or> c = key_rightalt then (m\<lparr>m_alt := pressed\<rparr>, out)
      else let f = 0;
               f = (if pressed then f OR key_flag_pressed else f);
               f = (if m_shift m then f OR key_flag_shift else f);
               f = (if m_ctrl m then f OR key_flag_ctrl else f);
               f = (if m_alt m then f OR key_flag_alt else f)
           in (m, \<lparr>ke_code = c, ke_flags = f\<rparr>))"

text \<open>The result is the event that is filled in and whether there is one.\<close>

definition poll_key :: "key_event \<Rightarrow> keyboard \<Rightarrow> (keyboard \<times> key_event \<times> bool) run" where
  "poll_key out k =
     (if \<not> vq_has_used (kb_queue k) then Done (k, out, False)
      else run_bind (vq_get_used (kb_queue k)) (\<lambda>(q, d).
        let k = k\<lparr>kb_queue := q\<rparr>; i = unat d in
        if \<not> i < event_buffers then Done (k, out, False)
        else let ev = kb_bufs k ! i;
                 (m, out, has_event) =
                   (if ie_type ev = ev_key
                    then (case process_raw_event ev (kb_mods k) out of (m, out) \<Rightarrow> (m, out, \<not> is_modifier (ie_code ev)))
                    else (kb_mods k, out, False))
             in run_bind (post_buffer i (k\<lparr>kb_mods := m\<rparr>)) (\<lambda>k.
                Done (notify_queue k, out, has_event))))"

section \<open>The server\<close>

datatype key_error = Kbd_not_initialized | Kbd_method_not_known

definition m_poll_key :: "32 word" where "m_poll_key = 0x2200"

text \<open>\<open>out\<close> is the uninitialised event on the stack of \<open>handle_poll_key\<close>.\<close>

definition handle_poll_key :: "key_event \<Rightarrow> keyboard option \<Rightarrow> (keyboard option \<times> (key_error + nat \<times> nat \<times> nat)) run" where
  "handle_poll_key out b = (case b of
      None \<Rightarrow> Done (None, Inl Kbd_not_initialized)
    | Some k \<Rightarrow> run_bind (poll_key out k) (\<lambda>(k, ev, has).
        Done (Some k, if has then Inr (1, unat (ke_code ev), unat (ke_flags ev)) else Inr (0, 0, 0))))"

definition keyboard_request ::
  "32 word \<Rightarrow> key_event \<Rightarrow> keyboard option \<Rightarrow> (keyboard option \<times> (key_error + nat \<times> nat \<times> nat)) run" where
  "keyboard_request meth out b =
     (if meth = m_poll_key then handle_poll_key out b else Done (b, Inl Kbd_method_not_known))"

end
