(* ===== verification/KeyboardProps.thy ===== *)
theory KeyboardProps
  imports Keyboard
begin

text \<open>
  The keyboard driver against an abstract queue: whatever the device and the driver do in
  turns, the polls report the key events of the device in their order, each with the
  modifier keys held at that point, and the eight buffers are never lost.
\<close>

section \<open>The device\<close>

text \<open>
  What the VirtIO specification requires of the input device: when a buffer is available it
  writes the event to the address of the buffer, puts the buffer into the used ring with
  the number of bytes written, and advances both indexes; without one it leaves everything
  as it is. Nothing is required for a descriptor that is not a buffer for an event.
\<close>

definition taken_desc :: "keyboard \<Rightarrow> 16 word" where
  "taken_desc k = (let a = vq_avail (kb_queue k) in a_ring a ! unat (kb_seen k mod vq_size (kb_queue k)))"

definition delivered :: "input_event \<Rightarrow> nat \<Rightarrow> 32 word \<Rightarrow> keyboard \<Rightarrow> keyboard" where
  "delivered ev j n k =
     (let q = kb_queue k; u = vq_used q
      in k\<lparr>kb_bufs := (kb_bufs k)[j := ev],
           kb_queue := q\<lparr>vq_used := u\<lparr>u_ring := (u_ring u)[unat (u_idx u mod vq_size q) := (ucast (taken_desc k), n)],
                                        u_idx := u_idx u + 1\<rparr>\<rparr>,
           kb_seen := kb_seen k + 1\<rparr>)"

definition event_desc :: "keyboard \<Rightarrow> nat \<Rightarrow> virtq_desc" where
  "event_desc k j = \<lparr>d_addr = buf_addr k j, d_len = of_nat event_size, d_flags = desc_f_write, d_next = 0\<rparr>"

definition input_device :: "(input_event \<Rightarrow> keyboard \<Rightarrow> keyboard) \<Rightarrow> bool" where
  "input_device dev \<longleftrightarrow>
     (\<forall>ev k. kb_seen k = a_idx (vq_avail (kb_queue k)) \<longrightarrow> dev ev k = k) \<and>
     (\<forall>ev k j. kb_seen k \<noteq> a_idx (vq_avail (kb_queue k)) \<longrightarrow> j < length (kb_bufs k) \<longrightarrow>
        vq_desc (kb_queue k) ! unat (taken_desc k) = event_desc k j \<longrightarrow> (\<exists>n. dev ev k = delivered ev j n k))"

section \<open>Runs and their abstraction\<close>

datatype key_act = A_poll | A_event input_event

definition no_event :: key_event where
  "no_event = \<lparr>ke_code = 0, ke_flags = 0\<rparr>"

fun keyboard_run ::
  "(input_event \<Rightarrow> keyboard \<Rightarrow> keyboard) \<Rightarrow> key_act list \<Rightarrow> keyboard \<Rightarrow> (keyboard \<times> key_event option list) run" where
  "keyboard_run dev [] k = Done (k, [])"
| "keyboard_run dev (A_event ev # as) k = keyboard_run dev as (dev ev k)"
| "keyboard_run dev (A_poll # as) k =
     run_bind (poll_key no_event k) (\<lambda>(k, e, has).
     run_bind (keyboard_run dev as k) (\<lambda>(k, es).
     Done (k, (if has then Some e else None) # es)))"

text \<open>The abstract keyboard: the events not yet polled, at most eight, and the modifiers.\<close>

definition mods_after :: "modifiers \<Rightarrow> input_event \<Rightarrow> modifiers" where
  "mods_after m ev =
     (if ie_type ev = 1 then
        (let d = (ie_value ev = 1) in
         if ie_code ev \<in> {42, 54} then m\<lparr>m_shift := d\<rparr>
         else if ie_code ev \<in> {29, 97} then m\<lparr>m_ctrl := d\<rparr>
         else if ie_code ev \<in> {56, 100} then m\<lparr>m_alt := d\<rparr>
         else m)
      else m)"

definition key_report :: "modifiers \<Rightarrow> input_event \<Rightarrow> key_event option" where
  "key_report m ev =
     (if ie_type ev = 1 \<and> ie_code ev \<notin> {42, 54, 29, 97, 56, 100}
      then Some \<lparr>ke_code = ie_code ev,
                 ke_flags = of_bool (ie_value ev = 1) + 2 * of_bool (m_shift m) + 4 * of_bool (m_ctrl m) + 8 * of_bool (m_alt m)\<rparr>
      else None)"

fun key_spec :: "key_act list \<Rightarrow> input_event list \<Rightarrow> modifiers \<Rightarrow> key_event option list" where
  "key_spec [] evs m = []"
| "key_spec (A_event ev # as) evs m = key_spec as (if length evs < 8 then evs @ [ev] else evs) m"
| "key_spec (A_poll # as) [] m = None # key_spec as [] m"
| "key_spec (A_poll # as) (ev # evs) m = key_report m ev # key_spec as evs (mods_after m ev)"

section \<open>The invariant of the queue\<close>

definition used_ids :: "keyboard \<Rightarrow> nat list" where
  "used_ids k = (let q = kb_queue k; u = vq_used q in
     map (\<lambda>e. unat (fst e)) (ring_slice (u_ring u) (unat (vq_last_used q)) (unat (u_idx u - vq_last_used q))))"

definition avail_ids :: "keyboard \<Rightarrow> nat list" where
  "avail_ids k = (let a = vq_avail (kb_queue k) in
     map unat (ring_slice (a_ring a) (unat (kb_seen k)) (unat (a_idx a - kb_seen k))))"

definition kb_shape :: "keyboard \<Rightarrow> bool" where
  "kb_shape k \<longleftrightarrow> vq_size (kb_queue k) = 8 \<and> length (vq_desc (kb_queue k)) = 8
     \<and> length (a_ring (vq_avail (kb_queue k))) = 8 \<and> length (u_ring (vq_used (kb_queue k))) = 8
     \<and> length (kb_bufs k) = 512"

text \<open>\<open>S\<close> is the set of buffers in one of the two rings, \<open>evs\<close> the events in the used ones.\<close>

definition kb_inv :: "nat set \<Rightarrow> input_event list \<Rightarrow> keyboard \<Rightarrow> bool" where
  "kb_inv S evs k \<longleftrightarrow> kb_shape k \<and> S \<subseteq> {0..<8}
     \<and> distinct (used_ids k @ avail_ids k) \<and> set (used_ids k @ avail_ids k) = S
     \<and> (\<forall>i\<in>S. vq_desc (kb_queue k) ! i = event_desc k i)
     \<and> map (\<lambda>i. kb_bufs k ! i) (used_ids k) = evs"

lemma kb_inv_lengths:
  assumes "kb_inv S evs k"
  shows "length (used_ids k) = length evs" "length (used_ids k) + length (avail_ids k) = card S" "card S \<le> 8"
    "finite S"
proof -
  show "length (used_ids k) = length evs" using assms by (auto simp: kb_inv_def)
  show "length (used_ids k) + length (avail_ids k) = card S"
    using assms unfolding kb_inv_def by (metis distinct_card length_append)
  have s: "S \<subseteq> {0..<8}" using assms by (simp add: kb_inv_def)
  then show "finite S" by (rule finite_subset) simp
  show "card S \<le> 8" using card_mono [OF _ s] by simp
qed

lemma length_ids:
  "length (used_ids k) = unat (u_idx (vq_used (kb_queue k)) - vq_last_used (kb_queue k))"
  "length (avail_ids k) = unat (a_idx (vq_avail (kb_queue k)) - kb_seen k)"
  by (simp_all add: used_ids_def avail_ids_def Let_def)

lemma idx_diff_Suc: "unat (a - b) < 8 \<Longrightarrow> unat ((a :: 16 word) + 1 - b) = Suc (unat (a - b))"
proof -
  assume l: "unat (a - b) < 8"
  have "a + 1 - b = (a - b) + 1" by simp
  moreover have "unat ((a - b) + 1) = unat (a - b) + 1" using l by (subst unat_word_ariths) simp
  ultimately show ?thesis by (simp only: Suc_eq_plus1)
qed

lemma idx_diff_pred: "0 < unat (a - b) \<Longrightarrow> unat ((a :: 16 word) - (b + 1)) = unat (a - b) - 1"
proof -
  assume l: "0 < unat (a - b)"
  then have "1 \<le> a - b" by (simp add: word_le_nat_alt)
  then have "unat ((a - b) - 1) = unat (a - b) - unat (1 :: 16 word)" by (rule unat_sub)
  moreover have "a - (b + 1) = (a - b) - 1" by simp
  ultimately show ?thesis by (simp only: unat_1)
qed

section \<open>Posting a buffer\<close>

lemma post_buffer_eq:
  assumes "kb_shape k" and "i < 8"
  defines "q \<equiv> kb_queue k"
  defines "k' \<equiv> k\<lparr>kb_bufs := (kb_bufs k)[i := zero_event],
     kb_queue := q\<lparr>vq_desc := (vq_desc q)[i := event_desc k i],
                   vq_avail := (vq_avail q)\<lparr>a_ring := (a_ring (vq_avail q))[unat (a_idx (vq_avail q)) mod 8 := of_nat i],
                                            a_idx := a_idx (vq_avail q) + 1\<rparr>\<rparr>\<rparr>"
  shows "post_buffer i k = Done k'"
proof -
  have "unat (of_nat i :: 16 word) = i" using assms(2) by (simp add: unat_of_nat)
  moreover have "sint (- 1 :: 16 word) = - 1" by simp
  ultimately show ?thesis using assms(1,2)
    unfolding k'_def q_def
    by (simp add: post_buffer_def kb_shape_def chain_in_def chain_add_def chain_new_def chain_link_def
        vq_add_buf_def chain_submit_def vq_submit_def event_desc_def buf_addr_def Let_def)
qed

lemma post_buffer_inv:
  assumes inv: "kb_inv S evs k" and i: "i < 8" "i \<notin> S"
  shows "\<exists>k'. post_buffer i k = Done k' \<and> kb_inv (insert i S) evs k' \<and> kb_mods k' = kb_mods k"
proof -
  define q where "q = kb_queue k"
  define k' where "k' = k\<lparr>kb_bufs := (kb_bufs k)[i := zero_event],
     kb_queue := q\<lparr>vq_desc := (vq_desc q)[i := event_desc k i],
                   vq_avail := (vq_avail q)\<lparr>a_ring := (a_ring (vq_avail q))[unat (a_idx (vq_avail q)) mod 8 := of_nat i],
                                            a_idx := a_idx (vq_avail q) + 1\<rparr>\<rparr>\<rparr>"
  have sh: "kb_shape k" and S: "S \<subseteq> {0..<8}" using inv by (auto simp: kb_inv_def)
  have post: "post_buffer i k = Done k'"
    unfolding k'_def q_def by (rule post_buffer_eq [OF sh i(1)])
  have "insert i S \<subseteq> {0..<8}" using S i by auto
  then have "card (insert i S) \<le> card {0..<8::nat}" by (rule card_mono [rotated]) simp
  then have c: "card S < 8" using kb_inv_lengths(4) [OF inv] i by simp
  have n: "unat (a_idx (vq_avail q) - kb_seen k) < 8"
    using kb_inv_lengths [OF inv] c by (simp add: length_ids q_def)
  have u: "used_ids k' = used_ids k" by (simp add: used_ids_def k'_def q_def Let_def)
  have len: "length (a_ring (vq_avail q)) = 8" using sh by (simp add: kb_shape_def q_def)
  have a: "avail_ids k' = avail_ids k @ [i]"
  proof -
    have p: "unat (a_idx (vq_avail q)) mod 8 = (unat (kb_seen k) + unat (a_idx (vq_avail q) - kb_seen k)) mod 8"
      by (simp add: ring_pos_diff)
    have "ring_slice ((a_ring (vq_avail q))[unat (a_idx (vq_avail q)) mod 8 := of_nat i]) (unat (kb_seen k))
        (Suc (unat (a_idx (vq_avail q) - kb_seen k)))
      = ring_slice (a_ring (vq_avail q)) (unat (kb_seen k)) (unat (a_idx (vq_avail q) - kb_seen k)) @ [of_nat i]"
      unfolding p using n by (subst len [symmetric], intro ring_slice_push) (simp add: len)
    moreover have "unat (of_nat i :: 16 word) = i" using i by (simp add: unat_of_nat)
    moreover have "avail_ids k' = map unat (ring_slice ((a_ring (vq_avail q))[unat (a_idx (vq_avail q)) mod 8 := of_nat i])
        (unat (kb_seen k)) (unat (a_idx (vq_avail q) + 1 - kb_seen k)))"
      by (simp add: avail_ids_def k'_def Let_def)
    ultimately show ?thesis
      by (simp only: idx_diff_Suc [OF n] map_append list.map) (simp add: avail_ids_def q_def Let_def)
  qed
  have "map (\<lambda>j. kb_bufs k' ! j) (used_ids k') = evs"
  proof -
    have "kb_bufs k' ! j = kb_bufs k ! j" if "j \<in> set (used_ids k)" for j
    proof -
      have "j \<noteq> i" using that inv i by (auto simp: kb_inv_def)
      then show ?thesis by (simp add: k'_def)
    qed
    then show ?thesis using inv by (auto simp: u kb_inv_def cong: map_cong)
  qed
  moreover have "\<forall>j\<in>insert i S. vq_desc (kb_queue k') ! j = event_desc k' j"
    using inv i by (auto simp: kb_inv_def k'_def q_def kb_shape_def event_desc_def buf_addr_def nth_list_update)
  moreover have "kb_shape k'" using sh by (simp add: kb_shape_def k'_def q_def)
  moreover have "distinct (used_ids k' @ avail_ids k')" "set (used_ids k' @ avail_ids k') = insert i S"
    using inv i by (auto simp: u a kb_inv_def)
  ultimately have "kb_inv (insert i S) evs k'" using S i by (simp add: kb_inv_def)
  then show ?thesis using post by (auto simp: k'_def)
qed

lemma post_from_inv:
  "kb_inv S evs k \<Longrightarrow> i + n \<le> 8 \<Longrightarrow> {i..<i + n} \<inter> S = {} \<Longrightarrow>
   \<exists>k'. post_from i n k = Done k' \<and> kb_inv (S \<union> {i..<i + n}) evs k' \<and> kb_mods k' = kb_mods k"
proof (induction n arbitrary: i S k)
  case (Suc n)
  have "i \<in> {i..<i + Suc n}" by simp
  then have i: "i < 8" "i \<notin> S" using Suc.prems by (simp, blast)
  obtain k1 where k1: "post_buffer i k = Done k1" "kb_inv (insert i S) evs k1" "kb_mods k1 = kb_mods k"
    using post_buffer_inv [OF Suc.prems(1) i] by blast
  have "{Suc i..<Suc i + n} \<subseteq> {i..<i + Suc n}" by auto
  then have "{Suc i..<Suc i + n} \<inter> S = {}" using Suc.prems(3) by blast
  then have "{Suc i..<Suc i + n} \<inter> insert i S = {}" by simp
  then obtain k' where k': "post_from (Suc i) n k1 = Done k'"
      "kb_inv (insert i S \<union> {Suc i..<Suc i + n}) evs k'" "kb_mods k' = kb_mods k1"
    using Suc.IH [OF k1(2), of "Suc i"] Suc.prems by auto
  moreover have "insert i S \<union> {Suc i..<Suc i + n} = S \<union> {i..<i + Suc n}" by auto
  ultimately show ?case using k1 by simp
qed simp

section \<open>Taking a used buffer\<close>

lemma notify_inv [simp]: "kb_inv S evs (notify_queue k) = kb_inv S evs k" "kb_mods (notify_queue k) = kb_mods k"
  by (simp_all add: notify_queue_def kb_inv_def kb_shape_def used_ids_def avail_ids_def event_desc_def buf_addr_def)

lemma mods_inv [simp]: "kb_inv S evs (k\<lparr>kb_mods := m\<rparr>) = kb_inv S evs k"
  by (simp add: kb_inv_def kb_shape_def used_ids_def avail_ids_def event_desc_def buf_addr_def)

lemma has_used_iff: "kb_inv S evs k \<Longrightarrow> vq_has_used (kb_queue k) \<longleftrightarrow> evs \<noteq> []"
proof -
  assume "kb_inv S evs k"
  then have "length evs = unat (u_idx (vq_used (kb_queue k)) - vq_last_used (kb_queue k))"
    using kb_inv_lengths(1) length_ids(1) by metis
  then have "evs = [] \<longleftrightarrow> u_idx (vq_used (kb_queue k)) - vq_last_used (kb_queue k) = 0"
    by (metis length_0_conv unat_eq_zero)
  then show ?thesis by (auto simp: vq_has_used_def)
qed

lemma get_used_inv:
  assumes inv: "kb_inv {0..<8} (ev # evs) k"
  shows "\<exists>q d. vq_get_used (kb_queue k) = Done (q, d) \<and> unat d < 8 \<and> kb_bufs k ! unat d = ev
     \<and> kb_inv ({0..<8} - {unat d}) evs (k\<lparr>kb_queue := q\<rparr>)"
proof -
  define q where "q = kb_queue k"
  define u where "u = vq_used q"
  define s where "s = vq_last_used q"
  define d where "d = fst (u_ring u ! (unat s mod 8))"
  define k' where "k' = k\<lparr>kb_queue := q\<lparr>vq_last_used := s + 1\<rparr>\<rparr>"
  have sh: "kb_shape k" using inv by (simp add: kb_inv_def)
  then have len: "length (u_ring u) = 8" "vq_size q = 8" by (simp_all add: kb_shape_def q_def u_def)
  have "vq_has_used q" using has_used_iff [OF inv] by (simp add: q_def)
  then have get: "vq_get_used (kb_queue k) = Done (q\<lparr>vq_last_used := s + 1\<rparr>, d)"
    using len by (simp add: vq_get_used_def q_def [symmetric] u_def [symmetric] s_def [symmetric] d_def Let_def)
  have n: "unat (u_idx u - s) = Suc (length evs)"
    using kb_inv_lengths(1) [OF inv] by (simp add: length_ids q_def u_def s_def)
  have us: "used_ids k = unat d # map (\<lambda>e. unat (fst e)) (ring_slice (u_ring u) (Suc (unat s)) (length evs))"
    using n len by (simp add: used_ids_def Let_def q_def [symmetric] u_def [symmetric] s_def [symmetric] ring_slice_Suc d_def)
  have us': "used_ids k' = map (\<lambda>e. unat (fst e)) (ring_slice (u_ring u) (Suc (unat s)) (length evs))"
    using n len idx_diff_pred [of "u_idx u" s]
    by (simp add: used_ids_def Let_def k'_def u_def [symmetric] ring_slice_idx_Suc)
  have split: "used_ids k = unat d # used_ids k'" by (simp add: us us')
  have av: "avail_ids k' = avail_ids k" by (simp add: avail_ids_def k'_def q_def Let_def)
  have "unat d \<in> {0..<8}" using inv by (auto simp: kb_inv_def split)
  moreover have "kb_inv ({0..<8} - {unat d}) evs k'"
  proof -
    have "distinct (used_ids k' @ avail_ids k')" using inv by (simp add: kb_inv_def split av)
    moreover have "set (used_ids k' @ avail_ids k') = {0..<8} - {unat d}"
    proof -
      have "distinct (unat d # used_ids k' @ avail_ids k')" "insert (unat d) (set (used_ids k' @ avail_ids k')) = {0..<8}"
        using inv by (simp_all add: kb_inv_def split av)
      then show ?thesis by (metis Diff_insert_absorb distinct.simps(2))
    qed
    moreover have "map (\<lambda>i. kb_bufs k' ! i) (used_ids k') = evs"
      using inv by (simp add: kb_inv_def split) (simp add: k'_def)
    moreover have "\<forall>i\<in>{0..<8} - {unat d}. vq_desc (kb_queue k') ! i = event_desc k' i"
      using inv by (simp add: kb_inv_def k'_def q_def event_desc_def buf_addr_def)
    moreover have "kb_shape k'" using sh by (simp add: kb_shape_def k'_def q_def)
    ultimately show ?thesis by (auto simp: kb_inv_def)
  qed
  moreover have "kb_bufs k ! unat d = ev" using inv by (simp add: kb_inv_def split)
  ultimately show ?thesis using get by (auto simp: k'_def)
qed

lemma process_raw_event_spec:
  "process_raw_event ev m out = (m', e) \<Longrightarrow> ie_type ev = ev_key \<Longrightarrow>
   m' = mods_after m ev \<and> (if \<not> is_modifier (ie_code ev) then Some e else None) = key_report m ev"
  by (auto simp: process_raw_event_def mods_after_def key_report_def is_modifier_def ev_key_def Let_def
      key_leftshift_def key_rightshift_def key_leftctrl_def key_rightctrl_def key_leftalt_def key_rightalt_def
      key_flag_pressed_def key_flag_shift_def key_flag_ctrl_def key_flag_alt_def split: if_splits)

lemma poll_key_empty: "kb_inv S [] k \<Longrightarrow> poll_key out k = Done (k, out, False)"
  using has_used_iff [of S "[]" k] by (simp add: poll_key_def)

lemma poll_key_event:
  assumes inv: "kb_inv {0..<8} (ev # evs) k"
  shows "\<exists>k' e has. poll_key out k = Done (k', e, has) \<and> kb_inv {0..<8} evs k'
     \<and> kb_mods k' = mods_after (kb_mods k) ev \<and> (if has then Some e else None) = key_report (kb_mods k) ev"
proof -
  obtain q d where g: "vq_get_used (kb_queue k) = Done (q, d)" "unat d < 8" "kb_bufs k ! unat d = ev"
      "kb_inv ({0..<8} - {unat d}) evs (k\<lparr>kb_queue := q\<rparr>)"
    using get_used_inv [OF inv] by blast
  have h: "vq_has_used (kb_queue k)" using has_used_iff [OF inv] by simp
  define r where "r = (if ie_type ev = ev_key
     then (case process_raw_event ev (kb_mods k) out of (m, out) \<Rightarrow> (m, out, \<not> is_modifier (ie_code ev)))
     else (kb_mods k, out, False))"
  obtain m e has where r: "r = (m, e, has)" by (cases r) auto
  have spec: "m = mods_after (kb_mods k) ev" "(if has then Some e else None) = key_report (kb_mods k) ev"
    using r process_raw_event_spec [of ev "kb_mods k" out]
    by (auto simp: r_def mods_after_def key_report_def ev_key_def split: if_splits prod.splits)
  have ins: "insert (unat d) ({0..<8} - {unat d}) = {0..<8}" using g(2) by auto
  obtain k' where k': "post_buffer (unat d) (k\<lparr>kb_queue := q, kb_mods := m\<rparr>) = Done k'"
      "kb_inv {0..<8} evs k'" "kb_mods k' = m"
    using post_buffer_inv [of "{0..<8} - {unat d}" evs "k\<lparr>kb_queue := q, kb_mods := m\<rparr>" "unat d"] g(2,4)
    unfolding ins using mods_inv [of "{0..<8} - {unat d}" evs m "k\<lparr>kb_queue := q\<rparr>"] by auto
  have "poll_key out k = Done (notify_queue k', e, has)"
    using h g(1-3) k'(1) r
    by (cases "ie_type ev = ev_key") (auto simp: poll_key_def event_buffers_def Let_def r_def split: prod.splits)
  then show ?thesis using k' spec by auto
qed

section \<open>The device puts an event\<close>

lemma delivered_inv:
  assumes inv: "kb_inv {0..<8} evs k" and av: "kb_seen k \<noteq> a_idx (vq_avail (kb_queue k))"
  shows "\<exists>j < length (kb_bufs k). vq_desc (kb_queue k) ! unat (taken_desc k) = event_desc k j
     \<and> (\<forall>n. kb_inv {0..<8} (evs @ [ev]) (delivered ev j n k))" 
proof -
  define q where "q = kb_queue k"
  define u where "u = vq_used q"
  define a where "a = vq_avail q"
  define j where "j = unat (taken_desc k)"
  have sh: "kb_shape k" using inv by (simp add: kb_inv_def)
  then have len: "length (u_ring u) = 8" "length (a_ring a) = 8" "vq_size q = 8"
    by (simp_all add: kb_shape_def q_def u_def a_def)
  obtain m where m: "unat (a_idx a - kb_seen k) = Suc m"
    using av by (cases "unat (a_idx a - kb_seen k)") (auto simp: a_def q_def unat_eq_0)
  have t: "taken_desc k = a_ring a ! (unat (kb_seen k) mod 8)"
    using len by (simp add: taken_desc_def Let_def q_def [symmetric] a_def [symmetric])
  have avs: "avail_ids k = j # map unat (ring_slice (a_ring a) (Suc (unat (kb_seen k))) m)"
    using m len by (simp add: avail_ids_def Let_def q_def [symmetric] a_def [symmetric] ring_slice_Suc j_def t)
  have j: "j < 8" using inv by (auto simp: kb_inv_def avs)
  have nu: "unat (u_idx u - vq_last_used q) < 8"
    using kb_inv_lengths(2) [OF inv] by (simp add: length_ids(1) avs q_def [symmetric] u_def [symmetric])
  have "kb_inv {0..<8} (evs @ [ev]) (delivered ev j n k)" for n
  proof -
    define k' where "k' = delivered ev j n k"
    have k': "k' = k\<lparr>kb_bufs := (kb_bufs k)[j := ev],
        kb_queue := q\<lparr>vq_used := u\<lparr>u_ring := (u_ring u)[unat (u_idx u) mod 8 := (ucast (taken_desc k), n)],
                                  u_idx := u_idx u + 1\<rparr>\<rparr>, kb_seen := kb_seen k + 1\<rparr>"
      using len by (simp add: k'_def delivered_def Let_def q_def [symmetric] u_def [symmetric])
    have av': "avail_ids k' = map unat (ring_slice (a_ring a) (Suc (unat (kb_seen k))) m)"
      using m len idx_diff_pred [of "a_idx a" "kb_seen k"]
      by (simp add: avail_ids_def Let_def k' a_def [symmetric] ring_slice_idx_Suc)
    have p: "unat (u_idx u) mod 8 = (unat (vq_last_used q) + unat (u_idx u - vq_last_used q)) mod 8"
      by (simp add: ring_pos_diff)
    have "ring_slice ((u_ring u)[unat (u_idx u) mod 8 := (ucast (taken_desc k), n)]) (unat (vq_last_used q))
        (Suc (unat (u_idx u - vq_last_used q)))
      = ring_slice (u_ring u) (unat (vq_last_used q)) (unat (u_idx u - vq_last_used q)) @ [(ucast (taken_desc k), n)]"
      unfolding p using nu by (subst len(1) [symmetric], intro ring_slice_push) (simp add: len)
    moreover have "unat (ucast (taken_desc k) :: 32 word) = j" using unsigned_less [where 'a = nat, of "taken_desc k"] by (simp add: j_def unsigned_ucast_eq take_bit_eq_mod)
    moreover have "used_ids k' = map (\<lambda>e. unat (fst e)) (ring_slice ((u_ring u)[unat (u_idx u) mod 8 := (ucast (taken_desc k), n)])
        (unat (vq_last_used q)) (unat (u_idx u + 1 - vq_last_used q)))"
      by (simp add: used_ids_def k' Let_def)
    ultimately have us': "used_ids k' = used_ids k @ [j]"
      by (simp only: idx_diff_Suc [OF nu] map_append list.map fst_conv) (simp add: used_ids_def q_def u_def Let_def)
    have notin: "j \<notin> set (used_ids k)" using inv by (auto simp: kb_inv_def avs)
    have "kb_bufs k' ! j = ev" using j sh by (simp add: k' kb_shape_def)
    moreover have "map (\<lambda>i. kb_bufs k' ! i) (used_ids k) = evs"
    proof -
      have "map (\<lambda>i. kb_bufs k' ! i) (used_ids k) = map (\<lambda>i. kb_bufs k ! i) (used_ids k)"
      proof (rule map_cong [OF refl])
        fix x assume "x \<in> set (used_ids k)"
        then have "x \<noteq> j" using notin by blast
        then show "kb_bufs k' ! x = kb_bufs k ! x" by (simp add: k')
      qed
      then show ?thesis using inv by (simp only: kb_inv_def)
    qed
    ultimately have "map (\<lambda>i. kb_bufs k' ! i) (used_ids k') = evs @ [ev]" by (simp add: us')
    moreover have "distinct (used_ids k' @ avail_ids k')" "set (used_ids k' @ avail_ids k') = {0..<8}"
      using inv unfolding kb_inv_def us' av' avs by auto
    moreover have "\<forall>i\<in>{0..<8}. vq_desc (kb_queue k') ! i = event_desc k' i"
      using inv by (simp add: kb_inv_def k' q_def event_desc_def buf_addr_def)
    moreover have "kb_shape k'" using sh by (simp add: kb_shape_def k' q_def u_def)
    ultimately show ?thesis by (simp add: kb_inv_def k'_def [symmetric])
  qed
  moreover have "vq_desc (kb_queue k) ! j = event_desc k j" using inv j by (simp add: kb_inv_def)
  moreover have "j < length (kb_bufs k)" using j sh by (simp add: kb_shape_def)
  ultimately show ?thesis by (auto simp: j_def)
qed

lemma device_inv:
  assumes dev: "input_device dev" and inv: "kb_inv {0..<8} evs k"
  shows "kb_inv {0..<8} (if length evs < 8 then evs @ [ev] else evs) (dev ev k) \<and> kb_mods (dev ev k) = kb_mods k"
proof (cases "kb_seen k = a_idx (vq_avail (kb_queue k))")
  case True
  then have "length evs = 8" using kb_inv_lengths [OF inv] length_ids(2) [of k] by simp
  moreover have "dev ev k = k" using dev True by (simp add: input_device_def)
  ultimately show ?thesis using inv by simp
next
  case False
  then have "0 < length (avail_ids k)" by (auto simp: length_ids unat_gt_0)
  then have "length evs < 8" using kb_inv_lengths(1,2) [OF inv] card_atLeastLessThan [of 0 8] by linarith
  moreover obtain j n where "dev ev k = delivered ev j n k" "kb_inv {0..<8} (evs @ [ev]) (delivered ev j n k)"
    using delivered_inv [OF inv False] dev False unfolding input_device_def by metis
  ultimately show ?thesis by (simp add: delivered_def Let_def)
qed

lemma keyboard_run_spec:
  assumes "input_device dev"
  shows "kb_inv {0..<8} evs k \<Longrightarrow> \<exists>k'. keyboard_run dev acts k = Done (k', key_spec acts evs (kb_mods k))"
proof (induction acts arbitrary: evs k)
  case (Cons act acts)
  show ?case
  proof (cases act)
    case A_poll
    show ?thesis
    proof (cases evs)
      case Nil
      then show ?thesis using Cons A_poll poll_key_empty [of "{0..<8}" k] by fastforce
    next
      case (Cons ev evs')
      obtain k1 e has where k1: "poll_key no_event k = Done (k1, e, has)" "kb_inv {0..<8} evs' k1"
          "kb_mods k1 = mods_after (kb_mods k) ev" "(if has then Some e else None) = key_report (kb_mods k) ev"
        using poll_key_event Cons.prems [unfolded Cons] by blast
      then show ?thesis using Cons.IH [OF k1(2)] by (auto simp: A_poll Cons)
    qed
  next
    case (A_event ev)
    have d: "kb_inv {0..<8} (if length evs < 8 then evs @ [ev] else evs) (dev ev k)" "kb_mods (dev ev k) = kb_mods k"
      using device_inv [OF assms Cons.prems, of ev] by blast+
    show ?thesis using Cons.IH [OF d(1)] by (simp add: d(2) A_event)
  qed
qed simp

section \<open>From the start of the driver\<close>

definition no_modifiers :: modifiers where
  "no_modifiers = \<lparr>m_shift = False, m_ctrl = False, m_alt = False\<rparr>"

lemma setup_queue_snd: "setup_queue bus base i mem n l = (l', q) \<Longrightarrow> q = virtq_init mem n"
  by (auto simp: setup_queue_def Let_def split: if_splits)

lemma fresh_queue_inv:
  "kb_inv {} [] \<lparr>kb_base = base, kb_queue = virtq_init qmem 8, kb_page = page,
     kb_bufs = replicate 512 zero_event, kb_mods = m, kb_regs = l, kb_seen = 0\<rparr>"
  by (simp add: kb_inv_def kb_shape_def used_ids_def avail_ids_def virtq_init_def queue_size_max_def Let_def)

lemma keyboard_init_inv:
  assumes "keyboard_init bus base qmem emem l = Done (Some k)"
  shows "kb_inv {0..<8} [] k" and "kb_mods k = no_modifiers"
proof -
  obtain l' where k: "post_buffers \<lparr>kb_base = base, kb_queue = virtq_init qmem 8, kb_page = unat emem,
      kb_bufs = replicate 512 zero_event, kb_mods = no_modifiers, kb_regs = l', kb_seen = 0\<rparr> = Done k"
    using assms
    by (auto dest!: setup_queue_snd simp: keyboard_init_def queue_size_max_def event_size_def no_modifiers_def Let_def run_bind_Done_iff
        split: if_splits prod.splits)
  obtain k1 where k1: "post_from 0 8 \<lparr>kb_base = base, kb_queue = virtq_init qmem 8, kb_page = unat emem,
      kb_bufs = replicate 512 zero_event, kb_mods = no_modifiers, kb_regs = l', kb_seen = 0\<rparr> = Done k1"
      "kb_inv ({} \<union> {0..<0 + 8}) [] k1" "kb_mods k1 = no_modifiers"
    using post_from_inv [OF fresh_queue_inv, of 0 8] by fastforce
  show "kb_inv {0..<8} [] k" "kb_mods k = no_modifiers"
    using k k1 by (auto simp: post_buffers_def event_buffers_def)
qed


text \<open>A device: it recovers the buffer from the address in the descriptor.\<close>

definition sample_input :: "input_event \<Rightarrow> keyboard \<Rightarrow> keyboard" where
  "sample_input ev k =
     (if kb_seen k = a_idx (vq_avail (kb_queue k)) then k
      else delivered ev ((d_addr (vq_desc (kb_queue k) ! unat (taken_desc k)) - kb_page k) div 8) 8 k)"

lemma sample_input_device: "input_device sample_input"
  by (auto simp: input_device_def sample_input_def event_desc_def buf_addr_def event_size_def)

definition sample_bus :: bus where
  "sample_bus l a =
     (if a = mmio_base then 0x74726976 else if a = mmio_base + 4 then 1 else if a = mmio_base + 8 then 18
      else if a = mmio_base + 0x34 then 64 else if a = mmio_base + 0x70 then 11 else 0)"

lemmas kbd_eval = keyboard_init_def dev_is_valid_def read_reg_def sample_bus_def mmio_base_def mmio_magic_value_def
  mmio_device_id_def virtio_id_input_def dev_init_def status_features_ok_def mmio_status_def mmio_queue_num_max_def
  queue_size_max_def Let_def

lemma sample_keyboard_starts:
  "\<exists>k. keyboard_init sample_bus mmio_base 0x80000000 0x80002000 [] = Done (Some k)"
proof -
  have "\<exists>k. post_buffers \<lparr>kb_base = mmio_base, kb_queue = virtq_init 0x80000000 8, kb_page = 0x80002000,
      kb_bufs = replicate 512 zero_event, kb_mods = no_modifiers, kb_regs = l', kb_seen = 0\<rparr> = Done k" for l'
    using post_from_inv [OF fresh_queue_inv [of mmio_base "0x80000000" "0x80002000" no_modifiers l'], of 0 8]
    by (auto simp: post_buffers_def event_buffers_def)
  then show ?thesis
    by (auto dest!: setup_queue_snd simp: kbd_eval event_size_def no_modifiers_def run_bind_Done_iff split: prod.splits)
qed


end
