(* ===== verification/Disk.thy ===== *)
theory Disk
  imports Virtio FileClient
begin

text \<open>
  The block device behind the interface \<open>Disk\<close> (\<open>user/fs/virtio-disk.cpp\<close>,
  \<open>user/virtio/virtio-blk.hpp\<close>), the layer that FatFs calls (\<open>user/fs/fatfs-diskio.cpp\<close>), and
  the file system server that keeps one file in the first sector
  (\<open>user/fs/impl-onefile.cpp\<close>). The device is a parameter that acts while the driver waits.
\<close>

section \<open>The block device driver\<close>

datatype disk_error = Disk_out_of_bounds | Disk_device_error

definition sector_size :: nat where "sector_size = 512"
definition virtio_id_block :: "32 word" where "virtio_id_block = 2"
definition blk_type_read :: "32 word" where "blk_type_read = 0"
definition blk_type_write :: "32 word" where "blk_type_write = 1"

record blk_request =
  br_type :: "32 word"
  br_sector :: "64 word"
  br_data :: "byte list"
  br_status :: byte

text \<open>
  The last two fields belong to the device: the index in the available ring up to which it
  has taken requests, and the sectors it stores.
\<close>

record vdisk =
  vd_base :: nat
  vd_queue :: virtqueue
  vd_page :: nat
  vd_request :: blk_request
  vd_capacity :: "64 word"
  vd_regs :: reg_log
  vd_seen :: "16 word"
  vd_store :: "64 word \<Rightarrow> byte list"

text \<open>\<open>sizeof\<close> of the header of a request is 16; the data and the status follow.\<close>

definition header_addr :: "vdisk \<Rightarrow> nat" where "header_addr d = vd_page d"
definition data_addr :: "vdisk \<Rightarrow> nat" where "data_addr d = vd_page d + 16"
definition status_addr :: "vdisk \<Rightarrow> nat" where "status_addr d = vd_page d + 16 + sector_size"

text \<open>\<open>qmem\<close> and \<open>page\<close> are the pages that the kernel hands out for the queue and the request.\<close>

definition disk_create :: "bus \<Rightarrow> 32 word \<Rightarrow> nat \<Rightarrow> (64 word \<Rightarrow> byte list) \<Rightarrow> reg_log \<Rightarrow> virtio_error + vdisk" where
  "disk_create bus qmem page store l =
     (case scan_for_device bus virtio_id_block l of
        Inl e \<Rightarrow> Inl e
      | Inr base \<Rightarrow> (case dev_init bus base l of (l, ok) \<Rightarrow>
          if \<not> ok then Inl Virtio_setup_fail
          else case setup_queue bus base 0 qmem (of_nat queue_size_max) l of (l, q) \<Rightarrow>
            let l = set_driver_ok base l in
            Inr \<lparr>vd_base = base, vd_queue = q, vd_page = page,
                 vd_request = \<lparr>br_type = 0, br_sector = 0, br_data = replicate sector_size 0, br_status = 0\<rparr>,
                 vd_capacity = ucast (read_reg bus base 0x100 l), vd_regs = l,
                 vd_seen = 0, vd_store = store\<rparr>))"

text \<open>
  The driver polls the used ring; between two polls the device may act. The first number
  counts the polls, the second is the fuel.
\<close>

fun wait_used :: "(nat \<Rightarrow> vdisk \<Rightarrow> vdisk) \<Rightarrow> nat \<Rightarrow> nat \<Rightarrow> vdisk \<Rightarrow> vdisk run" where
  "wait_used dev t 0 d = NoFuel"
| "wait_used dev t (Suc n) d =
     (if vq_has_used (vd_queue d) then Done d else wait_used dev (Suc t) n (dev t d))"

definition build_request :: "64 word \<Rightarrow> bool \<Rightarrow> vdisk \<Rightarrow> vdisk run" where
  "build_request sector is_write d =
     (let d = d\<lparr>vd_request := (vd_request d)\<lparr>br_sector := sector,
                  br_type := (if is_write then blk_type_write else blk_type_read)\<rparr>\<rparr> in
      run_bind (chain_out (header_addr d) 16 (chain_new 0, vd_queue d)) (\<lambda>cq.
      run_bind (chain_out_or_in is_write (data_addr d) (of_nat sector_size) cq) (\<lambda>cq.
      run_bind (chain_in (status_addr d) 1 cq) (\<lambda>cq.
      run_bind (chain_submit cq) (\<lambda>q.
      Done (d\<lparr>vd_queue := q, vd_regs := write_reg (vd_base d) mmio_queue_notify 0 (vd_regs d)\<rparr>))))))"

definition do_sector_request ::
  "(nat \<Rightarrow> vdisk \<Rightarrow> vdisk) \<Rightarrow> nat \<Rightarrow> 64 word \<Rightarrow> bool \<Rightarrow> vdisk \<Rightarrow> (vdisk \<times> disk_error option) run" where
  "do_sector_request dev fuel sector is_write d =
     run_bind (build_request sector is_write d) (\<lambda>d.
     run_bind (wait_used dev 0 fuel d) (\<lambda>d.
     run_bind (vq_get_used (vd_queue d)) (\<lambda>(q, _).
     let d = d\<lparr>vd_queue := q\<rparr> in
     Done (d, if br_status (vd_request d) = 0 then None else Some Disk_device_error))))"

definition read_sector ::
  "(nat \<Rightarrow> vdisk \<Rightarrow> vdisk) \<Rightarrow> nat \<Rightarrow> 64 word \<Rightarrow> vdisk \<Rightarrow> (vdisk \<times> (disk_error + byte list)) run" where
  "read_sector dev fuel sector d =
     (if vd_capacity d \<le> sector then Done (d, Inl Disk_out_of_bounds)
      else run_bind (do_sector_request dev fuel sector False d) (\<lambda>(d, err).
        Done (d, case err of Some e \<Rightarrow> Inl e | None \<Rightarrow> Inr (br_data (vd_request d)))))"

definition write_sector ::
  "(nat \<Rightarrow> vdisk \<Rightarrow> vdisk) \<Rightarrow> nat \<Rightarrow> 64 word \<Rightarrow> byte list \<Rightarrow> vdisk \<Rightarrow> (vdisk \<times> disk_error option) run" where
  "write_sector dev fuel sector buf d =
     (if vd_capacity d \<le> sector then Done (d, Some Disk_out_of_bounds)
      else do_sector_request dev fuel sector True
             (d\<lparr>vd_request := (vd_request d)\<lparr>br_data := take sector_size buf\<rparr>\<rparr>))"

section \<open>The interface\<close>

text \<open>
  The virtual functions of the class \<open>Disk\<close> on a state, as the clients call them.
\<close>

record 'd disk_ops =
  dk_read :: "64 word \<Rightarrow> 'd \<Rightarrow> ('d \<times> (disk_error + byte list)) run"
  dk_write :: "64 word \<Rightarrow> byte list \<Rightarrow> 'd \<Rightarrow> ('d \<times> disk_error option) run"
  dk_count :: "'d \<Rightarrow> 64 word"

definition virtio_disk_ops :: "(nat \<Rightarrow> vdisk \<Rightarrow> vdisk) \<Rightarrow> nat \<Rightarrow> vdisk disk_ops" where
  "virtio_disk_ops dev fuel =
     \<lparr>dk_read = read_sector dev fuel, dk_write = write_sector dev fuel, dk_count = vd_capacity\<rparr>"

section \<open>The layer below FatFs\<close>

datatype disk_status = Sta_ready | Sta_noinit
datatype disk_result = Res_ok | Res_error | Res_parerr

record 'd fat_disk =
  fd_disk :: "'d option"
  fd_initialized :: bool

definition fatfs_set_disk :: "'d option \<Rightarrow> 'd fat_disk" where
  "fatfs_set_disk d = \<lparr>fd_disk = d, fd_initialized = False\<rparr>"

definition disk_initialize :: "nat \<Rightarrow> 'd fat_disk \<Rightarrow> 'd fat_disk \<times> disk_status" where
  "disk_initialize pdrv g =
     (if pdrv \<noteq> 0 then (g, Sta_noinit)
      else if fd_disk g = None then (g, Sta_noinit)
      else (g\<lparr>fd_initialized := True\<rparr>, Sta_ready))"

definition get_disk_status :: "nat \<Rightarrow> 'd fat_disk \<Rightarrow> disk_status" where
  "get_disk_status pdrv g =
     (if pdrv \<noteq> 0 then Sta_noinit
      else if fd_disk g = None \<or> \<not> fd_initialized g then Sta_noinit
      else Sta_ready)"

text \<open>
  The loops of \<open>disk_read\<close> and \<open>disk_write\<close> from sector \<open>s + i\<close>, with \<open>n\<close> sectors left. A
  sector number is 32 bits wide in FatFs; the sum is passed on as 64 bits.
\<close>

fun read_sectors :: "'d disk_ops \<Rightarrow> 32 word \<Rightarrow> nat \<Rightarrow> 'd \<Rightarrow> ('d \<times> byte list \<times> disk_result) run" where
  "read_sectors ops s 0 d = Done (d, [], Res_ok)"
| "read_sectors ops s (Suc n) d =
     run_bind (dk_read ops (ucast s) d) (\<lambda>(d, r). case r of
         Inl _ \<Rightarrow> Done (d, [], Res_error)
       | Inr bs \<Rightarrow> run_bind (read_sectors ops (s + 1) n d) (\<lambda>(d, rest, res). Done (d, bs @ rest, res)))"

fun write_sectors :: "'d disk_ops \<Rightarrow> 32 word \<Rightarrow> nat \<Rightarrow> byte list \<Rightarrow> 'd \<Rightarrow> ('d \<times> disk_result) run" where
  "write_sectors ops s 0 buf d = Done (d, Res_ok)"
| "write_sectors ops s (Suc n) buf d =
     run_bind (dk_write ops (ucast s) (take sector_size buf) d) (\<lambda>(d, err).
       if err \<noteq> None then Done (d, Res_error)
       else write_sectors ops (s + 1) n (drop sector_size buf) d)"

definition disk_read :: "'d disk_ops \<Rightarrow> nat \<Rightarrow> 32 word \<Rightarrow> nat \<Rightarrow> 'd fat_disk \<Rightarrow> ('d fat_disk \<times> byte list \<times> disk_result) run" where
  "disk_read ops pdrv s n g = (case fd_disk g of
      None \<Rightarrow> Done (g, [], Res_parerr)
    | Some d \<Rightarrow> if pdrv \<noteq> 0 then Done (g, [], Res_parerr)
        else run_bind (read_sectors ops s n d) (\<lambda>(d, bs, res). Done (g\<lparr>fd_disk := Some d\<rparr>, bs, res)))"

definition disk_write :: "'d disk_ops \<Rightarrow> nat \<Rightarrow> byte list \<Rightarrow> 32 word \<Rightarrow> nat \<Rightarrow> 'd fat_disk \<Rightarrow> ('d fat_disk \<times> disk_result) run" where
  "disk_write ops pdrv buf s n g = (case fd_disk g of
      None \<Rightarrow> Done (g, Res_parerr)
    | Some d \<Rightarrow> if pdrv \<noteq> 0 then Done (g, Res_parerr)
        else run_bind (write_sectors ops s n buf d) (\<lambda>(d, res). Done (g\<lparr>fd_disk := Some d\<rparr>, res)))"

datatype disk_cmd = Ctrl_sync | Get_sector_count | Get_sector_size | Get_block_size | Ctrl_other

text \<open>The answer goes to the buffer of the caller: 32 bits for the counts, 16 for the size.\<close>

definition disk_ioctl :: "'d disk_ops \<Rightarrow> nat \<Rightarrow> disk_cmd \<Rightarrow> 'd fat_disk \<Rightarrow> disk_result \<times> 32 word option" where
  "disk_ioctl ops pdrv cmd g = (case fd_disk g of
      None \<Rightarrow> (Res_parerr, None)
    | Some d \<Rightarrow> if pdrv \<noteq> 0 then (Res_parerr, None)
        else (case cmd of
            Ctrl_sync \<Rightarrow> (Res_ok, None)
          | Get_sector_count \<Rightarrow> (Res_ok, Some (ucast (dk_count ops d)))
          | Get_sector_size \<Rightarrow> (Res_ok, Some (of_nat sector_size))
          | Get_block_size \<Rightarrow> (Res_ok, Some 1)
          | Ctrl_other \<Rightarrow> (Res_parerr, None)))"

section \<open>The server of one file\<close>

datatype one_error = One_fs fs_error | One_disk disk_error | One_not_implemented

text \<open>\<open>of_name\<close> is the buffer of 128 characters up to its terminator.\<close>

record 'd one_file =
  of_disk :: 'd
  of_open :: bool
  of_handle :: nat
  of_name :: "byte list"

definition one_start :: "'d \<Rightarrow> 'd one_file" where
  "one_start d = \<lparr>of_disk = d, of_open = False, of_handle = 1, of_name = []\<rparr>"

definition one_open :: "byte list \<Rightarrow> 'd one_file \<Rightarrow> 'd one_file \<times> (one_error + nat)" where
  "one_open path s =
     (let n = (if length path < 127 then length path else 127)
      in (s\<lparr>of_open := True, of_name := takeWhile (\<lambda>b. b \<noteq> 0) (take n path)\<rparr>, Inr (of_handle s)))"

text \<open>
  The data starts behind the name and a blank; a sector is the name, a blank and as much of
  the data as fits, filled up with zeros.
\<close>

definition data_start :: "byte list \<Rightarrow> nat" where
  "data_start name = (if 0 < length name \<and> length name < sector_size - 1 then length name + 1 else 0)"

definition sector_image :: "byte list \<Rightarrow> byte list \<Rightarrow> byte list" where
  "sector_image name bs =
     (let front = (if 0 < length name \<and> length name < sector_size - 1 then name @ [0x20] else []);
          remaining = sector_size - length front;
          k = (if length bs < remaining then length bs else remaining);
          sec = front @ take k bs
      in sec @ replicate (sector_size - length sec) 0)"

text \<open>The number of bytes read, and the bytes on the communication page.\<close>

definition one_read :: "'d disk_ops \<Rightarrow> nat \<Rightarrow> nat \<Rightarrow> 'd one_file \<Rightarrow> ('d one_file \<times> (one_error + nat \<times> byte list)) run" where
  "one_read ops offset len s =
     (if offset \<noteq> 0 then Done (s, Inl (One_fs Fs_io_error))
      else run_bind (dk_read ops 0 (of_disk s)) (\<lambda>(d, r).
        let s = s\<lparr>of_disk := d\<rparr> in
        case r of Inl e \<Rightarrow> Done (s, Inl (One_disk e))
        | Inr sec \<Rightarrow>
            let content = takeWhile (\<lambda>b. b \<noteq> 0) (drop (data_start (of_name s)) sec);
                k = (if len < length content then len else length content)
            in Done (s, Inr (k, take k content))))"

definition one_write :: "'d disk_ops \<Rightarrow> nat \<Rightarrow> byte list \<Rightarrow> 'd one_file \<Rightarrow> ('d one_file \<times> (one_error + nat)) run" where
  "one_write ops offset bs s =
     (if \<not> of_open s then Done (s, Inl (One_fs Fs_invalid_handle))
      else if offset \<noteq> 0 then Done (s, Inl (One_fs Fs_io_error))
      else run_bind (dk_write ops 0 (sector_image (of_name s) bs) (of_disk s)) (\<lambda>(d, err).
             Done (s\<lparr>of_disk := d\<rparr>, case err of Some e \<Rightarrow> Inl (One_disk e) | None \<Rightarrow> Inr (length bs))))"

definition one_close :: "'d one_file \<Rightarrow> 'd one_file \<times> (one_error + bool)" where
  "one_close s = (s\<lparr>of_open := False\<rparr>, Inr True)"

definition one_create_file :: "'d one_file \<Rightarrow> 'd one_file \<times> (one_error + bool)" where
  "one_create_file s = (s, Inr True)"

definition one_delete_file :: "'d one_file \<Rightarrow> 'd one_file \<times> (one_error + bool)" where
  "one_delete_file s = (s, Inl (One_fs Fs_io_error))"

definition one_create_dir :: "'d one_file \<Rightarrow> 'd one_file \<times> (one_error + bool)" where
  "one_create_dir s = (s, Inl One_not_implemented)"

definition one_delete_dir :: "'d one_file \<Rightarrow> 'd one_file \<times> (one_error + bool)" where
  "one_delete_dir s = (s, Inl One_not_implemented)"

end
