(* ===== verification/DiskProps.thy ===== *)
theory DiskProps
  imports Disk
begin

text \<open>
  The disk as an array of sectors: the contract of the interface as a locale, discharged by
  the VirtIO driver on a device that follows the protocol, and what the layer below FatFs and
  the server of one file make of it.
\<close>

section \<open>The contract of a disk\<close>

lemma unat_widen [simp]: "unat (ucast (s :: 32 word) :: 64 word) = unat s"
  using unsigned_less [where 'a = nat, of s] by (simp add: unsigned_ucast_eq take_bit_eq_mod)

text \<open>
  \<open>ok\<close> says in which states the disk works; \<open>sectors\<close> is what it stores. A sector number
  below the count is read and written in full; any other is refused and changes nothing.
\<close>

lemma length_sector_image [simp]: "length (sector_image name bs) = sector_size"
  by (auto simp: sector_image_def Let_def sector_size_def)

lemma takeWhile_padded: "0 \<notin> set bs \<Longrightarrow> takeWhile (\<lambda>b. b \<noteq> 0) (bs @ replicate k (0 :: byte)) = bs"
  by (induction bs) (auto simp: takeWhile_replicate)

lemma sector_image_data:
  assumes "length name + 1 + length bs \<le> sector_size" "0 \<notin> set bs"
  shows "takeWhile (\<lambda>b. b \<noteq> 0) (drop (data_start name) (sector_image name bs)) = bs"
  using assms by (auto simp: sector_image_def data_start_def Let_def takeWhile_padded)

locale sector_disk =
  fixes ops :: "'d disk_ops" and ok :: "'d \<Rightarrow> bool" and sectors :: "'d \<Rightarrow> 64 word \<Rightarrow> byte list"
  assumes sector_length: "ok d \<Longrightarrow> length (sectors d s) = sector_size"
    and reads: "ok d \<Longrightarrow> s < dk_count ops d \<Longrightarrow>
      \<exists>d'. dk_read ops s d = Done (d', Inr (sectors d s)) \<and> ok d' \<and> sectors d' = sectors d \<and> dk_count ops d' = dk_count ops d"
    and writes: "ok d \<Longrightarrow> s < dk_count ops d \<Longrightarrow> length bs = sector_size \<Longrightarrow>
      \<exists>d'. dk_write ops s bs d = Done (d', None) \<and> ok d' \<and> sectors d' = (sectors d)(s := bs) \<and> dk_count ops d' = dk_count ops d"
    and read_refused: "ok d \<Longrightarrow> dk_count ops d \<le> s \<Longrightarrow> dk_read ops s d = Done (d, Inl Disk_out_of_bounds)"
    and write_refused: "ok d \<Longrightarrow> dk_count ops d \<le> s \<Longrightarrow> dk_write ops s bs d = Done (d, Some Disk_out_of_bounds)"
begin

text \<open>Several sectors, as FatFs asks for them.\<close>

definition run_of :: "'d \<Rightarrow> 32 word \<Rightarrow> nat \<Rightarrow> byte list" where
  "run_of d s n = concat (map (\<lambda>i. sectors d (ucast (s + of_nat i))) [0..<n])"

lemma run_of_Suc: "run_of d s (Suc n) = sectors d (ucast s) @ run_of d (s + 1) n"
  unfolding run_of_def by (subst upt_conv_Cons)
    (auto simp: map_Suc_upt [symmetric] o_def algebra_simps simp del: upt_Suc map_Suc_upt)

lemma ucast_less_count:
  assumes "unat s + Suc n \<le> unat (dk_count ops d)" and "unat s + Suc n < 2 ^ 32"
  shows "(ucast (s :: 32 word) :: 64 word) < dk_count ops d" "unat (s + 1) + n \<le> unat (dk_count ops d)"
    "unat (s + 1) + n < 2 ^ 32"
proof -
  show "(ucast (s :: 32 word) :: 64 word) < dk_count ops d"
    using assms(1) by (simp add: word_less_nat_alt)
  have "unat (s + 1) = unat s + 1" using assms(2) by (subst unat_word_ariths) simp
  then show "unat (s + 1) + n \<le> unat (dk_count ops d)" "unat (s + 1) + n < 2 ^ 32" using assms by simp_all
qed

lemma read_sectors_ok:
  "ok d \<Longrightarrow> unat s + n \<le> unat (dk_count ops d) \<Longrightarrow> unat s + n < 2 ^ 32 \<Longrightarrow>
   \<exists>d'. read_sectors ops s n d = Done (d', run_of d s n, Res_ok) \<and> ok d' \<and> sectors d' = sectors d
     \<and> dk_count ops d' = dk_count ops d"
proof (induction n arbitrary: s d)
  case 0
  then show ?case by (simp add: run_of_def)
next
  case (Suc n)
  note b = ucast_less_count [OF Suc.prems(2,3)]
  obtain d1 where 1: "dk_read ops (ucast s) d = Done (d1, Inr (sectors d (ucast s)))" "ok d1" "sectors d1 = sectors d"
      "dk_count ops d1 = dk_count ops d"
    using reads [OF Suc.prems(1) b(1)] by blast
  have "run_of d1 = run_of d" by (simp add: run_of_def 1(3) fun_eq_iff)
  then show ?case using Suc.IH [OF 1(2), of "s + 1"] b 1 by (auto simp: run_of_Suc)
qed

lemma write_sectors_ok:
  "ok d \<Longrightarrow> unat s + n \<le> unat (dk_count ops d) \<Longrightarrow> unat s + n < 2 ^ 32 \<Longrightarrow> length buf = n * sector_size \<Longrightarrow>
   \<exists>d'. write_sectors ops s n buf d = Done (d', Res_ok) \<and> ok d' \<and> run_of d' s n = buf
     \<and> dk_count ops d' = dk_count ops d
     \<and> (\<forall>t. (\<forall>i<n. t \<noteq> ucast (s + of_nat i)) \<longrightarrow> sectors d' t = sectors d t)"
proof (induction n arbitrary: s d buf)
  case 0
  then show ?case by (simp add: run_of_def)
next
  case (Suc n)
  note b = ucast_less_count [OF Suc.prems(2,3)]
  have l: "length (take sector_size buf) = sector_size" "length (drop sector_size buf) = n * sector_size"
    using Suc.prems(4) by simp_all
  obtain d1 where 1: "dk_write ops (ucast s) (take sector_size buf) d = Done (d1, None)" "ok d1"
      "sectors d1 = (sectors d)(ucast s := take sector_size buf)" "dk_count ops d1 = dk_count ops d"
    using writes [OF Suc.prems(1) b(1) l(1)] by blast
  obtain d2 where 2: "write_sectors ops (s + 1) n (drop sector_size buf) d1 = Done (d2, Res_ok)" "ok d2"
      "run_of d2 (s + 1) n = drop sector_size buf" "dk_count ops d2 = dk_count ops d1"
      "\<And>t. (\<forall>i<n. t \<noteq> ucast (s + 1 + of_nat i)) \<Longrightarrow> sectors d2 t = sectors d1 t"
    using Suc.IH [OF 1(2), of "s + 1" "drop sector_size buf"] b 1(4) l(2) by auto
  have ne: "(ucast s :: 64 word) \<noteq> ucast (s + 1 + of_nat i)" if "i < n" for i
  proof -
    have "unat (s + of_nat (Suc i)) = unat s + Suc i"
      using that Suc.prems(3) by (subst unat_word_ariths) (simp add: unat_of_nat del: of_nat_Suc)
    then have "unat s \<noteq> unat (s + 1 + of_nat i)" by (simp add: add.assoc)
    then show ?thesis by (metis unat_widen)
  qed
  then have "sectors d2 (ucast s) = take sector_size buf" using 2(5) 1(3) by simp
  then have "run_of d2 s (Suc n) = buf" by (simp add: run_of_Suc 2(3))
  moreover have "sectors d2 t = sectors d t" if "\<forall>i<Suc n. t \<noteq> ucast (s + of_nat i)" for t
  proof -
    have "t \<noteq> ucast s" using that [rule_format, of 0] by simp
    moreover have "\<forall>i<n. t \<noteq> ucast (s + 1 + of_nat i)" using that [rule_format, of "Suc i" for i]
      by (simp add: add.assoc)
    ultimately show ?thesis using 2(5) 1(3) by simp
  qed
  ultimately show ?case using 1 2 by auto
qed

text \<open>The server of one file keeps a text that fits into the sector behind its name.\<close>

lemma one_file_keeps:
  assumes s: "ok (of_disk s)" "0 < dk_count ops (of_disk s)" "of_open s"
    and bs: "length (of_name s) + 1 + length bs \<le> sector_size" "0 \<notin> set bs"
  shows "\<exists>s' s''. one_write ops 0 bs s = Done (s', Inr (length bs))
     \<and> (length bs \<le> len \<longrightarrow> one_read ops 0 len s' = Done (s'', Inr (length bs, bs)))
     \<and> (\<forall>t. t \<noteq> 0 \<longrightarrow> sectors (of_disk s') t = sectors (of_disk s) t)"
proof -
  define sec where "sec = sector_image (of_name s) bs"
  have len: "length sec = sector_size" by (simp add: sec_def)
  obtain d1 where d1: "dk_write ops 0 sec (of_disk s) = Done (d1, None)" "ok d1"
      "sectors d1 = (sectors (of_disk s))(0 := sec)" "dk_count ops d1 = dk_count ops (of_disk s)"
    using writes [OF s(1,2) len] by blast
  obtain d2 where d2: "dk_read ops 0 d1 = Done (d2, Inr sec)"
    using reads [OF d1(2), of 0] s(2) d1(3,4) by auto
  have "one_write ops 0 bs s = Done (s\<lparr>of_disk := d1\<rparr>, Inr (length bs))"
    using s(3) d1(1) by (simp add: one_write_def sec_def)
  moreover have "one_read ops 0 len (s\<lparr>of_disk := d1\<rparr>) = Done (s\<lparr>of_disk := d2\<rparr>, Inr (length bs, bs))"
    if "length bs \<le> len"
    using that d2 sector_image_data [OF bs] by (simp add: one_read_def sec_def Let_def)
  ultimately show ?thesis using d1(3) by auto
qed

end

section \<open>The device\<close>

text \<open>
  What the VirtIO specification requires of a block device: a request that it takes from the
  available ring is a chain of a header, the data and the status; it carries out a read or a
  write of a sector below the capacity and writes status 0, any other request gets another
  status; then the chain goes into the used ring. Nothing is required for other chains. It
  may take its time, but not for ever: \<open>bound\<close> is the longest time in polls of the driver.
\<close>

definition taken_head :: "vdisk \<Rightarrow> nat" where
  "taken_head d = (let a = vq_avail (vd_queue d) in unat (a_ring a ! unat (vd_seen d mod vq_size (vd_queue d))))"

definition request_chain :: "bool \<Rightarrow> vdisk \<Rightarrow> bool" where
  "request_chain is_write d \<longleftrightarrow>
     (let ds = vq_desc (vd_queue d); i = taken_head d; j = unat (d_next (ds ! i)); l = unat (d_next (ds ! j)) in
      d_addr (ds ! i) = header_addr d \<and> d_len (ds ! i) = 16 \<and> d_flags (ds ! i) = desc_f_next \<and>
      d_addr (ds ! j) = data_addr d \<and> d_len (ds ! j) = 512 \<and>
      d_flags (ds ! j) = (if is_write then desc_f_next else desc_f_write OR desc_f_next) \<and>
      d_addr (ds ! l) = status_addr d \<and> d_len (ds ! l) = 1 \<and> d_flags (ds ! l) = desc_f_write)"

definition served :: "32 word \<Rightarrow> byte \<Rightarrow> vdisk \<Rightarrow> vdisk" where
  "served n bad d =
     (let r = vd_request d; q = vd_queue d; u = vq_used q; s = br_sector r;
          r' = (if s < vd_capacity d \<and> br_type r = 0 then r\<lparr>br_data := vd_store d s, br_status := 0\<rparr>
                else if s < vd_capacity d \<and> br_type r = 1 then r\<lparr>br_status := 0\<rparr>
                else r\<lparr>br_status := bad\<rparr>)
      in d\<lparr>vd_request := r',
           vd_store := (if s < vd_capacity d \<and> br_type r = 1 then (vd_store d)(s := br_data r) else vd_store d),
           vd_queue := q\<lparr>vq_used := u\<lparr>u_ring := (u_ring u)[unat (u_idx u mod vq_size q) := (of_nat (taken_head d), n)],
                                        u_idx := u_idx u + 1\<rparr>\<rparr>,
           vd_seen := vd_seen d + 1\<rparr>)"

definition block_device :: "nat \<Rightarrow> (nat \<Rightarrow> vdisk \<Rightarrow> vdisk) \<Rightarrow> bool" where
  "block_device bound dev \<longleftrightarrow>
     (\<forall>d w. vd_seen d \<noteq> a_idx (vq_avail (vd_queue d)) \<longrightarrow> request_chain w d \<longrightarrow> (br_type (vd_request d) = 1 \<longleftrightarrow> w) \<longrightarrow>
       (\<exists>t \<le> bound. (\<forall>i<t. dev i d = d) \<and> (\<exists>n bad. bad \<noteq> 0 \<and> dev t d = served n bad d)))"

section \<open>The driver keeps its queue\<close>

text \<open>Between two requests both sides have seen all entries of both rings.\<close>

definition disk_inv :: "vdisk \<Rightarrow> bool" where
  "disk_inv d \<longleftrightarrow> (let q = vd_queue d in
     vq_size q = 8 \<and> length (vq_desc q) = 8 \<and> length (a_ring (vq_avail q)) = 8 \<and> length (u_ring (vq_used q)) = 8
     \<and> vq_last_used q = u_idx (vq_used q) \<and> vd_seen d = a_idx (vq_avail q)
     \<and> length (br_data (vd_request d)) = sector_size \<and> (\<forall>s. length (vd_store d s) = sector_size))"

definition chain_descs :: "bool \<Rightarrow> vdisk \<Rightarrow> virtq_desc list" where
  "chain_descs w d =
     [\<lparr>d_addr = header_addr d, d_len = 16, d_flags = desc_f_next, d_next = 1\<rparr>,
      \<lparr>d_addr = data_addr d, d_len = 512, d_flags = (if w then 0 else desc_f_write) OR desc_f_next, d_next = 2\<rparr>,
      \<lparr>d_addr = status_addr d, d_len = 1, d_flags = desc_f_write, d_next = 0\<rparr>]"

lemma build_request_eq:
  assumes inv: "disk_inv d"
  defines "q \<equiv> vd_queue d"
  shows "build_request s w d = Done (d\<lparr>
     vd_request := (vd_request d)\<lparr>br_sector := s, br_type := (if w then 1 else 0)\<rparr>,
     vd_queue := q\<lparr>vq_desc := chain_descs w d @ drop 3 (vq_desc q),
                   vq_avail := (vq_avail q)\<lparr>a_ring := (a_ring (vq_avail q))[unat (vd_seen d) mod 8 := 0],
                                            a_idx := vd_seen d + 1\<rparr>\<rparr>,
     vd_regs := write_reg (vd_base d) mmio_queue_notify 0 (vd_regs d)\<rparr>)"
proof -
  have len: "length (vq_desc q) = 8" "vq_size q = 8" "length (a_ring (vq_avail q)) = 8" "a_idx (vq_avail q) = vd_seen d"
    using inv by (simp_all add: disk_inv_def q_def Let_def)
  obtain a b c rest where ds: "vq_desc q = a # b # c # rest"
    using len(1) by (auto simp: length_Suc_conv numeral_eq_Suc)
  have neg: "sint (- 1 :: 16 word) = - 1" by simp
  show ?thesis
    using len neg ds
    by (cases w) (simp_all add: build_request_def chain_out_def chain_in_def chain_out_or_in_def chain_add_def chain_new_def
        chain_link_def vq_add_buf_def chain_submit_def vq_submit_def Let_def q_def [symmetric] chain_descs_def
        blk_type_read_def blk_type_write_def header_addr_def data_addr_def status_addr_def sector_size_def)
qed

lemma wait_used_until:
  "\<forall>i. s \<le> i \<and> i < s + k \<longrightarrow> dev i d = d \<Longrightarrow> \<not> vq_has_used (vd_queue d) \<Longrightarrow>
   vq_has_used (vd_queue (dev (s + k) d)) \<Longrightarrow> k + 2 \<le> fuel \<Longrightarrow> wait_used dev s fuel d = Done (dev (s + k) d)"
proof (induction k arbitrary: s fuel)
  case 0
  then have "fuel = Suc (Suc (fuel - 2))" by simp
  then obtain f where "fuel = Suc (Suc f)" ..
  then show ?case using 0 by simp
next
  case (Suc k)
  have "fuel = Suc (fuel - 1)" "k + 2 \<le> fuel - 1" using Suc.prems(4) by simp_all
  then obtain f where f: "fuel = Suc f" "k + 2 \<le> f" by blast
  have "dev s d = d" using Suc.prems(1) by simp
  moreover have "wait_used dev (Suc s) f d = Done (dev (Suc s + k) d)"
    using Suc.prems f(2) by (intro Suc.IH) auto
  ultimately show ?case using Suc.prems(2) f(1) by simp
qed

text \<open>The effect of a request on the disk as an array.\<close>

lemma sector_request:
  assumes inv: "disk_inv d" and dev: "block_device bound dev" and fuel: "bound + 2 \<le> fuel" and s: "s < vd_capacity d"
  shows "\<exists>d'. do_sector_request dev fuel s w d = Done (d', None) \<and> disk_inv d' \<and> vd_capacity d' = vd_capacity d
     \<and> vd_store d' = (if w then (vd_store d)(s := br_data (vd_request d)) else vd_store d)
     \<and> (\<not> w \<longrightarrow> br_data (vd_request d') = vd_store d s)"
proof -
  define q where "q = vd_queue d"
  define q1 where "q1 = q\<lparr>vq_desc := chain_descs w d @ drop 3 (vq_desc q),
     vq_avail := (vq_avail q)\<lparr>a_ring := (a_ring (vq_avail q))[unat (vd_seen d) mod 8 := 0], a_idx := vd_seen d + 1\<rparr>\<rparr>"
  define d1 where "d1 = d\<lparr>vd_request := (vd_request d)\<lparr>br_sector := s, br_type := (if w then 1 else 0)\<rparr>,
     vd_queue := q1, vd_regs := write_reg (vd_base d) mmio_queue_notify 0 (vd_regs d)\<rparr>"
  have build: "build_request s w d = Done d1"
    unfolding d1_def q1_def q_def by (rule build_request_eq [OF inv])
  have len: "length (vq_desc q) = 8" "vq_size q = 8" "length (a_ring (vq_avail q)) = 8"
      "length (u_ring (vq_used q)) = 8" "vq_last_used q = u_idx (vq_used q)"
    using inv by (simp_all add: disk_inv_def q_def Let_def)
  have head: "taken_head d1 = 0" using len by (simp add: taken_head_def d1_def q1_def)
  have chain: "request_chain w d1"
    unfolding request_chain_def Let_def head
    by (simp add: d1_def q1_def chain_descs_def header_addr_def data_addr_def status_addr_def)
  have pend: "vd_seen d1 \<noteq> a_idx (vq_avail (vd_queue d1))" by (simp add: d1_def q1_def)
  have type: "br_type (vd_request d1) = 1 \<longleftrightarrow> w" by (simp add: d1_def)
  obtain t n bad where t: "t \<le> bound" "\<forall>i<t. dev i d1 = d1" "dev t d1 = served n bad d1"
    using dev [unfolded block_device_def, rule_format, OF pend chain type] by blast
  have cap: "s < vd_capacity d1" "br_sector (vd_request d1) = s" using s by (simp_all add: d1_def)
  have unused: "\<not> vq_has_used (vd_queue d1)" using len by (simp add: vq_has_used_def d1_def q1_def)
  have used: "vq_has_used (vd_queue (served n bad d1))"
    using len by (simp add: vq_has_used_def served_def Let_def d1_def q1_def)
  have wait: "wait_used dev 0 fuel d1 = Done (served n bad d1)"
    using wait_used_until [of 0 t dev d1 fuel] t unused used fuel by simp
  define d2 where "d2 = served n bad d1"
  have q2: "vq_size (vd_queue d2) = 8" "length (u_ring (vq_used (vd_queue d2))) = 8"
    using len by (simp_all add: d2_def served_def Let_def d1_def q1_def)
  obtain i where get: "vq_get_used (vd_queue d2) = Done ((vd_queue d2)\<lparr>vq_last_used := vq_last_used (vd_queue d2) + 1\<rparr>, i)"
    using used q2 by (simp add: vq_get_used_def d2_def [symmetric] Let_def)
  define d3 where "d3 = d2\<lparr>vd_queue := (vd_queue d2)\<lparr>vq_last_used := vq_last_used (vd_queue d2) + 1\<rparr>\<rparr>"
  have st: "br_status (vd_request d2) = 0" "vd_store d2 = (if w then (vd_store d)(s := br_data (vd_request d)) else vd_store d)"
      "\<not> w \<longrightarrow> br_data (vd_request d2) = vd_store d s" "w \<longrightarrow> br_data (vd_request d2) = br_data (vd_request d)"
      "vd_capacity d2 = vd_capacity d"
    using s by (auto simp: d2_def served_def Let_def d1_def)
  have "do_sector_request dev fuel s w d = Done (d3, None)"
    using build wait get st(1) by (simp add: do_sector_request_def d2_def [symmetric] d3_def)
  moreover have "disk_inv d3"
    using inv len st(2,3,4) by (auto simp: disk_inv_def Let_def d3_def d2_def served_def d1_def q1_def chain_descs_def q_def)
  ultimately show ?thesis using st by (auto simp: d3_def)
qed

section \<open>The driver as a disk\<close>

text \<open>
  The interpretation quantifies over the device, its delay and the fuel of the waiting loop:
  they are part of the state, and a state works when they fit.
\<close>

type_synonym disk_world = "(nat \<Rightarrow> vdisk \<Rightarrow> vdisk) \<times> nat \<times> vdisk"

definition world_ops :: "disk_world disk_ops" where
  "world_ops =
     \<lparr>dk_read = (\<lambda>s (dev, fuel, d). run_bind (dk_read (virtio_disk_ops dev fuel) s d) (\<lambda>(d, r). Done ((dev, fuel, d), r))),
      dk_write = (\<lambda>s bs (dev, fuel, d). run_bind (dk_write (virtio_disk_ops dev fuel) s bs d) (\<lambda>(d, r). Done ((dev, fuel, d), r))),
      dk_count = (\<lambda>(dev, fuel, d). dk_count (virtio_disk_ops dev fuel) d)\<rparr>"

definition world_ok :: "disk_world \<Rightarrow> bool" where
  "world_ok = (\<lambda>(dev, fuel, d). disk_inv d \<and> (\<exists>bound. block_device bound dev \<and> bound + 2 \<le> fuel))"

definition world_sectors :: "disk_world \<Rightarrow> 64 word \<Rightarrow> byte list" where
  "world_sectors = (\<lambda>(dev, fuel, d). vd_store d)"

lemmas world_defs = world_ops_def world_ok_def world_sectors_def virtio_disk_ops_def

interpretation virtio_disk: sector_disk world_ops world_ok world_sectors
proof
  fix w :: disk_world and s :: "64 word" and bs :: "byte list"
  obtain dev fuel d where w: "w = (dev, fuel, d)" by (cases w) auto
  assume ok: "world_ok w"
  then obtain bound where inv: "disk_inv d" and dev: "block_device bound dev" and fuel: "bound + 2 \<le> fuel"
    by (auto simp: world_defs w)
  show "length (world_sectors w s) = sector_size" using inv by (simp add: world_defs w disk_inv_def Let_def)
  show "\<exists>w'. dk_read world_ops s w = Done (w', Inr (world_sectors w s)) \<and> world_ok w' \<and> world_sectors w' = world_sectors w
      \<and> dk_count world_ops w' = dk_count world_ops w" if s: "s < dk_count world_ops w"
  proof -
    have "s < vd_capacity d" using s by (simp add: world_defs w)
    then obtain d' where d': "do_sector_request dev fuel s False d = Done (d', None)" "disk_inv d'"
        "vd_capacity d' = vd_capacity d" "vd_store d' = vd_store d" "br_data (vd_request d') = vd_store d s"
      using sector_request [OF inv dev fuel, of s False] by auto
    have "world_ok (dev, fuel, d')" using d'(2) dev fuel by (auto simp: world_ok_def)
    then show ?thesis using d' s
      by (intro exI [of _ "(dev, fuel, d')"]) (simp add: world_ops_def world_sectors_def virtio_disk_ops_def w read_sector_def)
  qed
  show "\<exists>w'. dk_write world_ops s bs w = Done (w', None) \<and> world_ok w' \<and> world_sectors w' = (world_sectors w)(s := bs)
      \<and> dk_count world_ops w' = dk_count world_ops w" if s: "s < dk_count world_ops w" and l: "length bs = sector_size"
  proof -
    define d0 where "d0 = d\<lparr>vd_request := (vd_request d)\<lparr>br_data := bs\<rparr>\<rparr>"
    have "disk_inv d0" "s < vd_capacity d0" "vd_store d0 = vd_store d" "br_data (vd_request d0) = bs"
      using inv l s by (simp_all add: d0_def disk_inv_def Let_def world_defs w)
    then obtain d' where d': "do_sector_request dev fuel s True d0 = Done (d', None)" "disk_inv d'"
        "vd_capacity d' = vd_capacity d0" "vd_store d' = (vd_store d)(s := bs)"
      using sector_request [OF _ dev fuel, of d0 s True] by auto
    have "world_ok (dev, fuel, d')" using d'(2) dev fuel by (auto simp: world_ok_def)
    then show ?thesis using d' s l
      by (intro exI [of _ "(dev, fuel, d')"])
        (simp add: world_ops_def world_sectors_def virtio_disk_ops_def w write_sector_def d0_def [symmetric], simp add: d0_def)
  qed
  show "dk_read world_ops s w = Done (w, Inl Disk_out_of_bounds)" if "dk_count world_ops w \<le> s"
    using that by (simp add: world_defs w read_sector_def)
  show "dk_write world_ops s bs w = Done (w, Some Disk_out_of_bounds)" if "dk_count world_ops w \<le> s"
    using that by (simp add: world_defs w write_sector_def)
qed

lemma read_tail:
  "run_bind (run_bind m (\<lambda>(d, r). Done (w d, r))) (\<lambda>(d, rest, res). Done (d, x @ rest, res))
   = run_bind (run_bind m (\<lambda>(d, rest, res). Done (d, x @ rest, res))) (\<lambda>(d, r). Done (w d, r))"
  by (cases m) (auto split: prod.splits)

text \<open>The loops over the interpreted state are those over the driver.\<close>

lemma read_sectors_world:
  "read_sectors world_ops s n (dev, fuel, d) =
   run_bind (read_sectors (virtio_disk_ops dev fuel) s n d) (\<lambda>(d, r). Done ((dev, fuel, d), r))"
proof (induction n arbitrary: s d)
  case (Suc n)
  show ?case
    by (cases "dk_read (virtio_disk_ops dev fuel) (ucast s) d")
      (auto simp: world_ops_def Suc.IH [unfolded world_ops_def] read_tail split: sum.split prod.split run.split)
qed simp

lemma write_sectors_world:
  "write_sectors world_ops s n buf (dev, fuel, d) =
   run_bind (write_sectors (virtio_disk_ops dev fuel) s n buf d) (\<lambda>(d, r). Done ((dev, fuel, d), r))"
proof (induction n arbitrary: s buf d)
  case (Suc n)
  show ?case
    by (cases "dk_write (virtio_disk_ops dev fuel) (ucast s) (take sector_size buf) d")
      (auto simp: world_ops_def Suc.IH [unfolded world_ops_def] split: prod.split run.split)
qed simp

lemma disk_create_ok:
  assumes "disk_create bus qmem page store l = Inr d" and "\<forall>s. length (store s) = sector_size"
  shows "disk_inv d" "vd_store d = store" "unat (vd_capacity d) < 2 ^ 32"
proof -
  obtain base l1 where q: "vd_queue d = virtq_init qmem 8" "vd_seen d = 0" "vd_store d = store"
      "length (br_data (vd_request d)) = sector_size" "vd_capacity d = ucast (read_reg bus base 0x100 l1)"
    using assms(1) by (auto simp: disk_create_def queue_size_max_def setup_queue_def Let_def split: sum.splits prod.splits if_splits)
  show "disk_inv d" using q assms(2) by (simp add: disk_inv_def virtq_init_def Let_def queue_size_max_def)
  show "vd_store d = store" by (rule q)
  show "unat (vd_capacity d) < 2 ^ 32"
    using unsigned_less [where 'a = nat, of "read_reg bus base 0x100 l1"] by (simp add: q(5))
qed

text \<open>C18. What FatFs writes to the disk is what it reads back: on a block device that follows the VirtIO
  protocol, after the driver has set it up, writing any number of sectors within the capacity and reading
  them again both succeed and return the bytes written, and no other sector changes.\<close>

theorem disk_roundtrip:
  assumes "disk_create bus qmem page store l = Inr d" and "block_device bound dev" and "bound + 2 \<le> fuel"
    and "\<forall>s. length (store s) = sector_size"
    and "unat s + n \<le> unat (vd_capacity d)" and "length buf = n * sector_size"
  shows "\<exists>d' g. disk_write (virtio_disk_ops dev fuel) 0 buf s n (fatfs_set_disk (Some d))
           = Done (fatfs_set_disk (Some d'), Res_ok)
     \<and> disk_read (virtio_disk_ops dev fuel) 0 s n (fatfs_set_disk (Some d')) = Done (g, buf, Res_ok)
     \<and> (\<forall>t. (\<forall>i<n. t \<noteq> ucast (s + of_nat i)) \<longrightarrow> vd_store d' t = store t)"
proof -
  note d = disk_create_ok [OF assms(1,4)]
  have ok: "world_ok (dev, fuel, d)" using d(1) assms(2,3) by (auto simp: world_ok_def)
  have cnt: "dk_count world_ops (dev, fuel, d) = vd_capacity d" by (simp add: world_defs)
  have lim: "unat s + n < 2 ^ 32" using assms(5) d(3) by simp
  obtain w' where w': "write_sectors world_ops s n buf (dev, fuel, d) = Done (w', Res_ok)" "world_ok w'"
      "virtio_disk.run_of w' s n = buf" "dk_count world_ops w' = vd_capacity d"
      "\<forall>t. (\<forall>i<n. t \<noteq> ucast (s + of_nat i)) \<longrightarrow> world_sectors w' t = vd_store d t"
    using virtio_disk.write_sectors_ok [OF ok, of s n buf] assms(5,6) lim by (auto simp: cnt world_sectors_def)
  then obtain d' where d': "w' = (dev, fuel, d')" "write_sectors (virtio_disk_ops dev fuel) s n buf d = Done (d', Res_ok)"
    by (auto simp: write_sectors_world run_bind_Done_iff)
  obtain w'' where "read_sectors world_ops s n w' = Done (w'', buf, Res_ok)"
    using virtio_disk.read_sectors_ok [OF w'(2), of s n] assms(5) lim w'(3,4) by auto
  then obtain d'' where "read_sectors (virtio_disk_ops dev fuel) s n d' = Done (d'', buf, Res_ok)"
    by (auto simp: d'(1) read_sectors_world run_bind_Done_iff)
  then show ?thesis using d' w'(5) d(2)
    by (auto simp: disk_write_def disk_read_def fatfs_set_disk_def world_sectors_def)
qed

text \<open>A device that answers at the third poll, and a bus on which it is found.\<close>

definition sample_block :: "nat \<Rightarrow> vdisk \<Rightarrow> vdisk" where
  "sample_block t d = (if t = 2 then served 1 1 d else d)"

lemma sample_block_device: "block_device 2 sample_block"
proof -
  have "sample_block i d = d" if "i < 2" for i d using that by (simp add: sample_block_def)
  moreover have "\<exists>n bad. bad \<noteq> 0 \<and> sample_block 2 d = served n bad d" for d
    by (intro exI [of _ 1]) (simp add: sample_block_def)
  ultimately show ?thesis unfolding block_device_def by blast
qed

definition block_bus :: bus where
  "block_bus l a =
     (if a = mmio_base then 0x74726976 else if a = mmio_base + 4 then 1 else if a = mmio_base + 8 then 2
      else if a = mmio_base + 0x70 then 11 else if a = mmio_base + 0x100 then 64 else 0)"

definition zero_sectors :: "64 word \<Rightarrow> byte list" where
  "zero_sectors s = replicate sector_size 0"

lemma sample_disk_created:
  "\<exists>d. disk_create block_bus 0x80000000 0x80002000 zero_sectors [] = Inr d \<and> vd_capacity d = 64"
  by (simp add: disk_create_def scan_for_device_def scan_slots.simps [of _ _ _ 0] read_reg_def block_bus_def mmio_base_def
      mmio_magic_value_def mmio_version_def magic_expected_def version_expected_def mmio_count_def mmio_device_id_def
      mmio_size_def dev_is_valid_def virtio_id_block_def dev_init_def status_features_ok_def mmio_status_def Let_def
      split: prod.splits)

theorem disk_roundtrip_witness:
  "\<exists>d d' g. disk_create block_bus 0x80000000 0x80002000 zero_sectors [] = Inr d \<and>
     disk_write (virtio_disk_ops sample_block 4) 0 (replicate 1024 7) 5 2 (fatfs_set_disk (Some d))
       = Done (fatfs_set_disk (Some d'), Res_ok) \<and>
     disk_read (virtio_disk_ops sample_block 4) 0 5 2 (fatfs_set_disk (Some d')) = Done (g, replicate 1024 7, Res_ok)"
proof -
  obtain d where d: "disk_create block_bus 0x80000000 0x80002000 zero_sectors [] = Inr d" "vd_capacity d = 64"
    using sample_disk_created by blast
  show ?thesis
    using disk_roundtrip [OF d(1) sample_block_device, of 4 5 2 "replicate 1024 7"] d
    by (auto simp: zero_sectors_def sector_size_def)
qed

section \<open>The server of one file\<close>

text \<open>A text is read back under the name it was written with.\<close>

theorem one_file_roundtrip:
  assumes "disk_create bus qmem page store l = Inr d" and "block_device bound dev" and "bound + 2 \<le> fuel"
    and "\<forall>s. length (store s) = sector_size" and "0 < vd_capacity d"
    and "length path < 128" "0 \<notin> set path" and "length path + 1 + length bs \<le> sector_size" "0 \<notin> set bs"
  shows "\<exists>s' s''. one_write world_ops 0 bs (fst (one_open path (one_start (dev, fuel, d)))) = Done (s', Inr (length bs))
     \<and> one_read world_ops 0 sector_size s' = Done (s'', Inr (length bs, bs))"
proof -
  define s where "s = fst (one_open path (one_start (dev, fuel, d)))"
  have "takeWhile (\<lambda>b. b \<noteq> 0) path = path" using assms(7) by (auto simp: takeWhile_eq_all_conv)
  then have s: "of_name s = path" "of_open s" "of_disk s = (dev, fuel, d)"
    using assms(6) by (auto simp: s_def one_open_def one_start_def Let_def)
  have "world_ok (of_disk s)" using assms(2,3) disk_create_ok(1) [OF assms(1,4)] by (auto simp: world_ok_def s)
  moreover have "0 < dk_count world_ops (of_disk s)" using assms(5) by (simp add: world_defs s)
  ultimately show ?thesis
    using virtio_disk.one_file_keeps [of s bs sector_size] assms(8,9) s(1,2)
    unfolding s_def [symmetric] by auto
qed

text \<open>Under a name of another length the same sector is cut elsewhere; a text that does not fit
  is cut although its whole length is reported.\<close>

lemma one_file_other_name:
  "takeWhile (\<lambda>b. b \<noteq> 0) (drop (data_start [97, 98, 99]) (sector_image [97] [1, 2, 3])) = [3]"
  by (simp add: data_start_def sector_image_def sector_size_def Let_def takeWhile_replicate)

lemma one_file_cut:
  "dk_write ops 0 (sector_image (of_name s) bs) (of_disk s) = Done (d, None) \<Longrightarrow> of_open s \<Longrightarrow>
   one_write ops 0 bs s = Done (s\<lparr>of_disk := d\<rparr>, Inr (length bs)) \<and>
   sector_image (of_name s) bs = sector_image (of_name s) (take sector_size bs)"
  by (auto simp: one_write_def sector_image_def sector_size_def Let_def min_def)

end
