(* ===== verification/Canvas.thy ===== *)
theory Canvas
  imports Prelude
begin

text \<open>
  Drawing to a frame buffer (\<open>lib/app-framework.hpp\<close>, \<open>lib/app-framework.cpp\<close>,
  \<open>lib/font-blit16.hpp\<close>). A canvas is the memory behind the frame buffer pointer with the
  width and height the framework was given; the memory may be longer than the canvas.
  Coordinates are integers. The outline font library is a parameter; gradients, which use
  floating point, are left out.
\<close>

section \<open>Pixels\<close>

record canvas =
  cv_px :: "32 word list"
  cv_w :: int
  cv_h :: int

text \<open>The store \<open>fb_[i] = color\<close>.\<close>

definition store_px :: "int \<Rightarrow> 32 word \<Rightarrow> canvas \<Rightarrow> canvas run" where
  "store_px i color c =
     (if 0 \<le> i \<and> i < int (length (cv_px c)) then Done (c\<lparr>cv_px := (cv_px c)[nat i := color]\<rparr>)
      else Undefined Ub_index)"

definition load_px :: "int \<Rightarrow> canvas \<Rightarrow> 32 word run" where
  "load_px i c = (if 0 \<le> i \<and> i < int (length (cv_px c)) then Done (cv_px c ! nat i) else Undefined Ub_index)"

text \<open>A counting loop over a list of values.\<close>

fun for_each :: "'a list \<Rightarrow> ('a \<Rightarrow> 's \<Rightarrow> 's run) \<Rightarrow> 's \<Rightarrow> 's run" where
  "for_each [] f s = Done s"
| "for_each (x # xs) f s = run_bind (f x s) (for_each xs f)"

text \<open>The values of \<open>for (int i = a; i < b; i++)\<close>.\<close>

abbreviation upto_ex :: "int \<Rightarrow> int \<Rightarrow> int list" where
  "upto_ex a b \<equiv> [a..b - 1]"

definition cv_clear :: "32 word \<Rightarrow> canvas \<Rightarrow> canvas run" where
  "cv_clear color c = for_each (upto_ex 0 (cv_w c * cv_h c)) (\<lambda>i. store_px i color) c"

definition put_pixel :: "int \<Rightarrow> int \<Rightarrow> 32 word \<Rightarrow> canvas \<Rightarrow> canvas run" where
  "put_pixel x y color c =
     (if 0 \<le> x \<and> x < cv_w c \<and> 0 \<le> y \<and> y < cv_h c then store_px (y * cv_w c + x) color c else Done c)"

definition get_pixel :: "int \<Rightarrow> int \<Rightarrow> canvas \<Rightarrow> 32 word run" where
  "get_pixel x y c =
     (if 0 \<le> x \<and> x < cv_w c \<and> 0 \<le> y \<and> y < cv_h c then load_px (y * cv_w c + x) c else Done 0)"

definition fill_rect :: "int \<Rightarrow> int \<Rightarrow> int \<Rightarrow> int \<Rightarrow> 32 word \<Rightarrow> canvas \<Rightarrow> canvas run" where
  "fill_rect x y w h color =
     for_each (upto_ex 0 h) (\<lambda>dy. for_each (upto_ex 0 w) (\<lambda>dx. put_pixel (x + dx) (y + dy) color))"

definition draw_hline :: "int \<Rightarrow> int \<Rightarrow> int \<Rightarrow> 32 word \<Rightarrow> canvas \<Rightarrow> canvas run" where
  "draw_hline x y len color = for_each (upto_ex 0 len) (\<lambda>i. put_pixel (x + i) y color)"

definition draw_vline :: "int \<Rightarrow> int \<Rightarrow> int \<Rightarrow> 32 word \<Rightarrow> canvas \<Rightarrow> canvas run" where
  "draw_vline x y len color = for_each (upto_ex 0 len) (\<lambda>i. put_pixel x (y + i) color)"

section \<open>Blending\<close>

definition chan :: "nat \<Rightarrow> 32 word \<Rightarrow> nat" where
  "chan k color = unat (drop_bit k color AND 0xFF)"

definition blend_chan :: "nat \<Rightarrow> nat \<Rightarrow> nat \<Rightarrow> 32 word" where
  "blend_chan alpha src dst = of_nat (((src * alpha + dst * (255 - alpha)) div 255) mod 256)"

definition blend_color :: "nat \<Rightarrow> 32 word \<Rightarrow> 32 word \<Rightarrow> 32 word" where
  "blend_color alpha color dst =
     0xFF000000 OR push_bit 16 (blend_chan alpha (chan 16 color) (chan 16 dst))
       OR push_bit 8 (blend_chan alpha (chan 8 color) (chan 8 dst))
       OR blend_chan alpha (chan 0 color) (chan 0 dst)"

definition blend_pixel :: "int \<Rightarrow> int \<Rightarrow> 32 word \<Rightarrow> 8 word \<Rightarrow> canvas \<Rightarrow> canvas run" where
  "blend_pixel x y color alpha c =
     (if x < 0 \<or> x \<ge> cv_w c \<or> y < 0 \<or> y \<ge> cv_h c then Done c
      else if alpha = 0 then Done c
      else if alpha = 255 then store_px (y * cv_w c + x) color c
      else run_bind (load_px (y * cv_w c + x) c) (\<lambda>dst.
           store_px (y * cv_w c + x) (blend_color (unat alpha) color dst) c))"

section \<open>The bitmap font\<close>

definition font_glyphs :: "16 word list" where
  "font_glyphs = [
    0x0000, 0x2092, 0x002d, 0x5f7d, 0x279e, 0x52a5, 0x7ad6, 0x0012,
    0x4494, 0x1491, 0x0aba, 0x05d0, 0x1400, 0x01c0, 0x0400, 0x12a4,
    0x2b6a, 0x749a, 0x752a, 0x38a3, 0x4f4a, 0x38cf, 0x3bce, 0x12a7,
    0x3aae, 0x49ae, 0x0410, 0x1410, 0x4454, 0x0e38, 0x1511, 0x10e3,
    0x73ee, 0x5f7a, 0x3beb, 0x624e, 0x3b6b, 0x73cf, 0x13cf, 0x6b4e,
    0x5bed, 0x7497, 0x2b27, 0x5add, 0x7249, 0x5b7d, 0x5b6b, 0x3b6e,
    0x12eb, 0x4f6b, 0x5aeb, 0x388e, 0x2497, 0x6b6d, 0x256d, 0x5f6d,
    0x5aad, 0x24ad, 0x72a7, 0x6496, 0x4889, 0x3493, 0x002a, 0xf000,
    0x0011, 0x6b98, 0x3b79, 0x7270, 0x7b74, 0x6750, 0x95d6, 0xb9ee,
    0x5b59, 0x6410, 0xb482, 0x56e8, 0x6492, 0x5be8, 0x5b58, 0x3b70,
    0x976a, 0xcd6a, 0x1370, 0x38f0, 0x64ba, 0x3b68, 0x2568, 0x5f68,
    0x54a8, 0xb9ad, 0x73b8, 0x64d6, 0x2492, 0x3593, 0x03e0]"

definition font_width :: nat where "font_width = 3"
definition font_height :: nat where "font_height = 5"
definition font_advance :: int where "font_advance = 4"

definition char_code :: "char \<Rightarrow> nat" where
  "char_code c = of_char c"

text \<open>The square of \<open>scale\<close> by \<open>scale\<close> pixels for a bit of a glyph.\<close>

definition draw_scaled :: "int \<Rightarrow> int \<Rightarrow> 32 word \<Rightarrow> int \<Rightarrow> canvas \<Rightarrow> canvas run" where
  "draw_scaled px py color scale =
     for_each (upto_ex 0 scale) (\<lambda>sy. for_each (upto_ex 0 scale) (\<lambda>sx. put_pixel (px + sx) (py + sy) color))"

definition draw_blit16_char :: "int \<Rightarrow> int \<Rightarrow> char \<Rightarrow> 32 word \<Rightarrow> int \<Rightarrow> canvas \<Rightarrow> canvas run" where
  "draw_blit16_char x y ch color scale c =
     (if char_code ch < 32 \<or> char_code ch > 126 then Done c
      else let glyph = font_glyphs ! (char_code ch - 32);
               offset_y = (if bit glyph 15 then scale else 0)
           in for_each [0..<font_height] (\<lambda>gy. for_each [0..<font_width] (\<lambda>gx.
                if bit glyph (gy * font_width + gx)
                then draw_scaled (x + int gx * scale) (y + int gy * scale + offset_y) color scale
                else Done)) c)"

fun blit16_loop :: "int \<Rightarrow> int \<Rightarrow> int \<Rightarrow> string \<Rightarrow> 32 word \<Rightarrow> int \<Rightarrow> canvas \<Rightarrow> canvas run" where
  "blit16_loop x cx cy [] color scale c = Done c"
| "blit16_loop x cx cy (ch # cs) color scale c =
     (if ch = CHR 0x0A then blit16_loop x x (cy + (int font_height + 2) * scale) cs color scale c
      else if ch = CHR '' '' then blit16_loop x (cx + font_advance * scale) cy cs color scale c
      else run_bind (draw_blit16_char cx cy ch color scale c) (\<lambda>c.
           blit16_loop x (cx + font_advance * scale) cy cs color scale c))"

definition draw_blit16_text :: "int \<Rightarrow> int \<Rightarrow> string \<Rightarrow> 32 word \<Rightarrow> int \<Rightarrow> canvas \<Rightarrow> canvas run" where
  "draw_blit16_text x y text color scale c = blit16_loop x x y (cstr text) color scale c"

section \<open>The outline font\<close>

datatype app_error = App_font_not_loaded | App_glyph_lookup_failed | App_glyph_metrics_failed
  | App_memory_alloc_failed | App_glyph_render_failed

text \<open>
  What the library answers for a size in pixels and a glyph: advance and bearing, the offset
  and the size of the image, and the image; for a size, the ascender and the line height.
  \<open>tf_memory\<close> says whether there is memory for an image of so many bytes.
\<close>

record metrics =
  gm_advance :: int
  gm_bearing :: int
  gm_yoff :: int
  gm_w :: int
  gm_h :: int

record font =
  tf_lookup :: "nat \<Rightarrow> nat option"
  tf_metrics :: "int \<Rightarrow> nat \<Rightarrow> metrics option"
  tf_render :: "int \<Rightarrow> nat \<Rightarrow> 8 word list option"
  tf_ascender :: "int \<Rightarrow> int option"
  tf_line :: "int \<Rightarrow> int option"
  tf_memory :: "int \<Rightarrow> bool"

definition blit_image :: "int \<Rightarrow> int \<Rightarrow> 32 word \<Rightarrow> int \<Rightarrow> int \<Rightarrow> 8 word list \<Rightarrow> canvas \<Rightarrow> canvas run" where
  "blit_image x y color w h px =
     for_each (upto_ex 0 h) (\<lambda>py. for_each (upto_ex 0 w) (\<lambda>qx c.
       if nat (py * w + qx) < length px then blend_pixel (x + qx) (y + py) color (px ! nat (py * w + qx)) c
       else Undefined Ub_index))"

definition draw_ttf_char ::
  "font option \<Rightarrow> int \<Rightarrow> int \<Rightarrow> char \<Rightarrow> 32 word \<Rightarrow> int \<Rightarrow> canvas \<Rightarrow> (canvas \<times> (app_error + int)) run" where
  "draw_ttf_char f x y ch color size_px c = (case f of
      None \<Rightarrow> Done (c, Inl App_font_not_loaded)
    | Some f \<Rightarrow> (case tf_lookup f (char_code ch) of
        None \<Rightarrow> Done (c, Inl App_glyph_lookup_failed)
      | Some g \<Rightarrow> (case tf_metrics f size_px g of
          None \<Rightarrow> Done (c, Inl App_glyph_metrics_failed)
        | Some m \<Rightarrow>
            if gm_w m \<le> 0 \<or> gm_h m \<le> 0 then Done (c, Inr (gm_advance m))
            else if \<not> tf_memory f (gm_w m * gm_h m) then Done (c, Inl App_memory_alloc_failed)
            else (case tf_render f size_px g of
                None \<Rightarrow> Done (c, Inl App_glyph_render_failed)
              | Some px \<Rightarrow> (case tf_ascender f size_px of
                  None \<Rightarrow> Done (c, Inr (gm_advance m))
                | Some asc \<Rightarrow>
                    run_bind (blit_image (x + gm_bearing m) (y + asc + gm_yoff m) color (gm_w m) (gm_h m) px c)
                      (\<lambda>c. Done (c, Inr (gm_advance m))))))))"

fun ttf_loop ::
  "font option \<Rightarrow> int \<Rightarrow> int \<Rightarrow> int \<Rightarrow> string \<Rightarrow> 32 word \<Rightarrow> int \<Rightarrow> canvas \<Rightarrow> (canvas \<times> (app_error + int)) run" where
  "ttf_loop f x cx y [] color size_px c = Done (c, Inr (cx - x))"
| "ttf_loop f x cx y (ch # cs) color size_px c =
     (if ch = CHR 0x0A then ttf_loop f x x (y + (size_px + 2)) cs color size_px c
      else run_bind (draw_ttf_char f cx y ch color size_px c) (\<lambda>(c, r). case r of
          Inl e \<Rightarrow> Done (c, Inl e)
        | Inr adv \<Rightarrow> ttf_loop f x (cx + adv) y cs color size_px c))"

definition draw_ttf_text ::
  "font option \<Rightarrow> int \<Rightarrow> int \<Rightarrow> string \<Rightarrow> 32 word \<Rightarrow> int \<Rightarrow> canvas \<Rightarrow> (canvas \<times> (app_error + int)) run" where
  "draw_ttf_text f x y text color size_px c =
     (if f = None then Done (c, Inl App_font_not_loaded) else ttf_loop f x x y (cstr text) color size_px c)"

fun measure_loop :: "font \<Rightarrow> string \<Rightarrow> int \<Rightarrow> int \<Rightarrow> int" where
  "measure_loop f [] size_px w = w"
| "measure_loop f (ch # cs) size_px w =
     (if ch = CHR 0x0A then measure_loop f cs size_px w
      else (case tf_lookup f (char_code ch) of
          None \<Rightarrow> measure_loop f cs size_px w
        | Some g \<Rightarrow> (case tf_metrics f size_px g of
            None \<Rightarrow> measure_loop f cs size_px w
          | Some m \<Rightarrow> measure_loop f cs size_px (w + gm_advance m))))"

definition measure_ttf_text :: "font option \<Rightarrow> string \<Rightarrow> int \<Rightarrow> app_error + int" where
  "measure_ttf_text f text size_px = (case f of
      None \<Rightarrow> Inl App_font_not_loaded
    | Some f \<Rightarrow> Inr (measure_loop f (cstr text) size_px 0))"

fun wrapped_loop ::
  "font \<Rightarrow> int \<Rightarrow> int \<Rightarrow> int \<Rightarrow> int \<Rightarrow> int \<Rightarrow> string \<Rightarrow> 32 word \<Rightarrow> int \<Rightarrow> canvas \<Rightarrow> (canvas \<times> int) run" where
  "wrapped_loop f x max_w line cx cy [] color size_px c = Done (c, cy)"
| "wrapped_loop f x max_w line cx cy (ch # cs) color size_px c =
     (if ch = CHR 0x0A then wrapped_loop f x max_w line x (cy + line) cs color size_px c
      else (case tf_lookup f (char_code ch) of
          None \<Rightarrow> wrapped_loop f x max_w line cx cy cs color size_px c
        | Some g \<Rightarrow> (case tf_metrics f size_px g of
            None \<Rightarrow> wrapped_loop f x max_w line cx cy cs color size_px c
          | Some m \<Rightarrow>
              let wrap = (cx + gm_advance m > x + max_w \<and> cx > x);
                  cx = (if wrap then x else cx);
                  cy = (if wrap then cy + line else cy)
              in run_bind (draw_ttf_char (Some f) cx cy ch color size_px c) (\<lambda>(c, r).
                 wrapped_loop f x max_w line (case r of Inl _ \<Rightarrow> cx | Inr adv \<Rightarrow> cx + adv) cy cs color size_px c))))"

definition draw_ttf_text_wrapped ::
  "font option \<Rightarrow> int \<Rightarrow> int \<Rightarrow> int \<Rightarrow> string \<Rightarrow> 32 word \<Rightarrow> int \<Rightarrow> canvas \<Rightarrow> (canvas \<times> (app_error + int)) run" where
  "draw_ttf_text_wrapped f x y max_w text color size_px c = (case f of
      None \<Rightarrow> Done (c, Inl App_font_not_loaded)
    | Some f \<Rightarrow> (case tf_line f size_px of
        None \<Rightarrow> Done (c, Inl App_glyph_metrics_failed)
      | Some h \<Rightarrow> run_bind (wrapped_loop f x max_w (h + 2) x y (cstr text) color size_px c) (\<lambda>(c, cy).
          Done (c, Inr (cy - y + (h + 2))))))"

section \<open>Every drawing operation stays on the canvas\<close>

text \<open>
  Two canvases differ at most in the pixels of \<open>P\<close>, a set of positions in the memory;
  \<open>keeps\<close> says that an operation is defined and changes only such pixels.
\<close>

definition same_but :: "nat set \<Rightarrow> canvas \<Rightarrow> canvas \<Rightarrow> bool" where
  "same_but P c c' \<longleftrightarrow> cv_w c' = cv_w c \<and> cv_h c' = cv_h c \<and> length (cv_px c') = length (cv_px c)
     \<and> (\<forall>i < length (cv_px c). i \<notin> P \<longrightarrow> cv_px c' ! i = cv_px c ! i)"

lemma same_but_refl [simp]: "same_but P c c"
  by (simp add: same_but_def)

lemma same_but_trans: "same_but P c d \<Longrightarrow> same_but P d e \<Longrightarrow> same_but P c e"
  by (simp add: same_but_def)

lemma same_but_mono: "same_but P c d \<Longrightarrow> P \<subseteq> Q \<Longrightarrow> same_but Q c d"
  by (auto simp: same_but_def)

text \<open>The positions of the rows from \<open>r\<close> on of a canvas that fits into its memory.\<close>

definition cv_ok :: "canvas \<Rightarrow> bool" where
  "cv_ok c \<longleftrightarrow> 0 \<le> cv_w c \<and> 0 \<le> cv_h c \<and> cv_w c * cv_h c \<le> int (length (cv_px c))"

definition rows_from :: "int \<Rightarrow> canvas \<Rightarrow> nat set" where
  "rows_from r c = {i. r * cv_w c \<le> int i \<and> int i < cv_w c * cv_h c}"

lemma same_but_ok: "same_but P c d \<Longrightarrow> cv_ok c \<Longrightarrow> cv_ok d"
  by (simp add: same_but_def cv_ok_def)

lemma same_but_rows: "same_but P c d \<Longrightarrow> rows_from r d = rows_from r c"
  by (simp add: same_but_def rows_from_def)

lemma pixel_index:
  assumes "0 \<le> x" "x < w" "r \<le> y" "y < h" "0 \<le> (y :: int)"
  shows "r * w \<le> y * w + x" "y * w + x < w * h" "0 \<le> y * w + x"
proof -
  have w: "0 \<le> w" using assms by simp
  show "r * w \<le> y * w + x" using mult_right_mono [OF assms(3) w] assms(1) by simp
  have "y + 1 \<le> h" using assms by simp
  then have "(y + 1) * w \<le> h * w" using w by (rule mult_right_mono)
  then show "y * w + x < w * h" using assms(2) by (simp add: algebra_simps)
  show "0 \<le> y * w + x" using assms w by simp
qed

text \<open>The operations on canvases of a width and height that leave the rows above \<open>r\<close> alone, and
  those that do so on every canvas.\<close>

definition keeps_at :: "int \<Rightarrow> int \<Rightarrow> int \<Rightarrow> (canvas \<Rightarrow> canvas run) \<Rightarrow> bool" where
  "keeps_at w h r f \<longleftrightarrow> (\<forall>c. cv_ok c \<longrightarrow> cv_w c = w \<longrightarrow> cv_h c = h \<longrightarrow>
     (\<exists>c'. f c = Done c' \<and> same_but (rows_from r c) c c'))"

definition keeps_above :: "int \<Rightarrow> (canvas \<Rightarrow> canvas run) \<Rightarrow> bool" where
  "keeps_above r f \<longleftrightarrow> (\<forall>c. cv_ok c \<longrightarrow> (\<exists>c'. f c = Done c' \<and> same_but (rows_from r c) c c'))"

lemma keeps_above_at: "keeps_above r f \<longleftrightarrow> (\<forall>w h. keeps_at w h r f)"
  by (auto simp: keeps_above_def keeps_at_def)

lemma keeps_atD:
  "keeps_at w h r f \<Longrightarrow> cv_ok c \<Longrightarrow> cv_w c = w \<Longrightarrow> cv_h c = h \<Longrightarrow>
   \<exists>c'. f c = Done c' \<and> same_but (rows_from r c) c c' \<and> cv_ok c' \<and> cv_w c' = w \<and> cv_h c' = h"
  unfolding keeps_at_def using same_but_ok by (metis same_but_def)

lemma keeps_aboveD:
  "keeps_above r f \<Longrightarrow> cv_ok c \<Longrightarrow> \<exists>c'. f c = Done c' \<and> same_but (rows_from r c) c c' \<and> cv_ok c'"
  unfolding keeps_above_def using same_but_ok by blast

lemma keeps_Done [simp]: "keeps_at w h r Done" "keeps_above r Done"
  by (simp_all add: keeps_at_def keeps_above_def)

lemma keeps_at_bind:
  assumes "keeps_at w h r f" and "keeps_at w h r g"
  shows "keeps_at w h r (\<lambda>c. run_bind (f c) g)"
  unfolding keeps_at_def
proof (intro allI impI)
  fix c assume c: "cv_ok c" "cv_w c = w" "cv_h c = h"
  obtain d where d: "f c = Done d" "same_but (rows_from r c) c d" "cv_ok d" "cv_w d = w" "cv_h d = h"
    using keeps_atD [OF assms(1) c] by blast
  obtain e where e: "g d = Done e" "same_but (rows_from r d) d e"
    using keeps_atD [OF assms(2) d(3-5)] by blast
  show "\<exists>c'. run_bind (f c) g = Done c' \<and> same_but (rows_from r c) c c'"
    using d e same_but_trans [OF d(2)] by (auto simp: same_but_rows [OF d(2)])
qed

lemma keeps_at_for_each: "(\<And>x. x \<in> set xs \<Longrightarrow> keeps_at w h r (f x)) \<Longrightarrow> keeps_at w h r (for_each xs f)"
proof (induction xs)
  case Nil
  show ?case by (simp add: keeps_at_def)
next
  case (Cons x xs)
  then have "keeps_at w h r (\<lambda>c. run_bind (f x c) (for_each xs f))" by (intro keeps_at_bind) auto
  then show ?case by (simp add: keeps_at_def)
qed

lemma keeps_bind: "keeps_above r f \<Longrightarrow> keeps_above r g \<Longrightarrow> keeps_above r (\<lambda>c. run_bind (f c) g)"
  by (simp add: keeps_above_at keeps_at_bind)

lemma keeps_for_each: "(\<And>x. x \<in> set xs \<Longrightarrow> keeps_above r (f x)) \<Longrightarrow> keeps_above r (for_each xs f)"
  by (simp add: keeps_above_at keeps_at_for_each)

lemma keeps_at_store:
  assumes "r * w \<le> i" "0 \<le> i" "i < w * h"
  shows "keeps_at w h r (store_px i color)"
  using assms by (auto simp: keeps_at_def store_px_def cv_ok_def same_but_def rows_from_def nth_list_update)

lemma keeps_put_pixel: "r \<le> y \<or> y < 0 \<Longrightarrow> keeps_above r (put_pixel x y color)"
  unfolding keeps_above_def put_pixel_def
proof (intro allI impI)
  fix c assume ok: "cv_ok c" and y: "r \<le> y \<or> y < 0"
  show "\<exists>c'. (if 0 \<le> x \<and> x < cv_w c \<and> 0 \<le> y \<and> y < cv_h c then store_px (y * cv_w c + x) color c else Done c) = Done c'
     \<and> same_but (rows_from r c) c c'"
  proof (cases "0 \<le> x \<and> x < cv_w c \<and> 0 \<le> y \<and> y < cv_h c")
    case True
    then have ix: "r * cv_w c \<le> y * cv_w c + x" "y * cv_w c + x < cv_w c * cv_h c" "0 \<le> y * cv_w c + x"
      using pixel_index [of x "cv_w c" r y "cv_h c"] y by auto
    then have "nat (y * cv_w c + x) \<in> rows_from r c" by (simp add: rows_from_def)
    then show ?thesis using True ix ok
      by (auto simp: store_px_def cv_ok_def same_but_def nth_list_update)
  qed auto
qed

lemma keeps_blend_pixel: "r \<le> y \<or> y < 0 \<Longrightarrow> keeps_above r (blend_pixel x y color alpha)"
  unfolding keeps_above_def blend_pixel_def
proof (intro allI impI)
  fix c assume ok: "cv_ok c" and y: "r \<le> y \<or> y < 0"
  let ?i = "y * cv_w c + x"
  show "\<exists>c'. (if x < 0 \<or> x \<ge> cv_w c \<or> y < 0 \<or> y \<ge> cv_h c then Done c else if alpha = 0 then Done c
      else if alpha = 255 then store_px ?i color c
      else run_bind (load_px ?i c) (\<lambda>dst. store_px ?i (blend_color (unat alpha) color dst) c)) = Done c'
     \<and> same_but (rows_from r c) c c'"
  proof (cases "x < 0 \<or> x \<ge> cv_w c \<or> y < 0 \<or> y \<ge> cv_h c")
    case False
    then have ix: "r * cv_w c \<le> ?i" "?i < cv_w c * cv_h c" "0 \<le> ?i"
      using pixel_index [of x "cv_w c" r y "cv_h c"] y by auto
    then have "nat ?i \<in> rows_from r c" "?i < int (length (cv_px c))" using ok by (simp_all add: rows_from_def cv_ok_def)
    then have "\<exists>c'. store_px ?i v c = Done c' \<and> same_but (rows_from r c) c c'" for v
      using ix(3) by (auto simp: store_px_def same_but_def nth_list_update)
    moreover have "load_px ?i c = Done (cv_px c ! nat ?i)"
      using ix(3) \<open>?i < int (length (cv_px c))\<close> by (simp add: load_px_def)
    ultimately show ?thesis using False by auto
  qed auto
qed

text \<open>What the font has to respect: an image has as many pixels as its size says, and no glyph of
  a size starts more than \<open>up\<close> rows above the position it is drawn at.\<close>

definition font_ok :: "font \<Rightarrow> bool" where
  "font_ok f \<longleftrightarrow> (\<forall>size_px g m px. tf_metrics f size_px g = Some m \<longrightarrow> tf_render f size_px g = Some px \<longrightarrow>
     gm_w m * gm_h m \<le> int (length px))"

definition font_starts :: "font \<Rightarrow> int \<Rightarrow> int \<Rightarrow> bool" where
  "font_starts f size_px up \<longleftrightarrow> (\<forall>g m asc. tf_metrics f size_px g = Some m \<longrightarrow> tf_ascender f size_px = Some asc \<longrightarrow>
     - up \<le> asc + gm_yoff m)"

lemma keeps_blit_image:
  assumes "w * h \<le> int (length px)" and "r \<le> y \<or> r \<le> 0"
  shows "keeps_above r (blit_image x y color w h px)"
  unfolding blit_image_def
proof (intro keeps_for_each)
  fix py qx assume "py \<in> set (upto_ex 0 h)" "qx \<in> set (upto_ex 0 w)"
  then have b: "0 \<le> py" "py < h" "0 \<le> qx" "qx < w" by simp_all
  then have "py * w + qx < w * h" "0 \<le> py * w + qx" using pixel_index [of qx w 0 py h] by simp_all
  then have "nat (py * w + qx) < length px" using assms(1) by linarith
  moreover have "r \<le> y + py \<or> y + py < 0" using assms(2) b(1) by linarith
  ultimately show "keeps_above r (\<lambda>c. if nat (py * w + qx) < length px
      then blend_pixel (x + qx) (y + py) color (px ! nat (py * w + qx)) c else Undefined Ub_index)"
    using keeps_blend_pixel [of r "y + py" "x + qx" color "px ! nat (py * w + qx)"] by simp
qed

text \<open>The same for operations that also return a value.\<close>

definition keeps_above2 :: "int \<Rightarrow> (canvas \<Rightarrow> (canvas \<times> 'a) run) \<Rightarrow> bool" where
  "keeps_above2 r f \<longleftrightarrow> (\<forall>c. cv_ok c \<longrightarrow> (\<exists>c' v. f c = Done (c', v) \<and> same_but (rows_from r c) c c'))"

lemma keeps2_Done [simp]: "keeps_above2 r (\<lambda>c. Done (c, v))"
  by (simp add: keeps_above2_def)

lemma keeps2_bind:
  assumes "keeps_above2 r f" and "\<And>v. keeps_above2 r (\<lambda>c. g (c, v))"
  shows "keeps_above2 r (\<lambda>c. run_bind (f c) g)"
  unfolding keeps_above2_def
proof (intro allI impI)
  fix c assume c: "cv_ok c"
  obtain d v where d: "f c = Done (d, v)" "same_but (rows_from r c) c d"
    using assms(1) c unfolding keeps_above2_def by blast
  then have "cv_ok d" using same_but_ok c by blast
  then obtain e u where e: "g (d, v) = Done (e, u)" "same_but (rows_from r d) d e"
    using assms(2) [of v] unfolding keeps_above2_def by blast
  show "\<exists>c' v. run_bind (f c) g = Done (c', v) \<and> same_but (rows_from r c) c c'"
    using d e same_but_trans [OF d(2)] by (auto simp: same_but_rows [OF d(2)])
qed

lemma keeps2_if: "(b \<Longrightarrow> keeps_above2 r f) \<Longrightarrow> (\<not> b \<Longrightarrow> keeps_above2 r g) \<Longrightarrow> keeps_above2 r (\<lambda>c. if b then f c else g c)"
  by (cases b) simp_all

lemma keeps2_option:
  "(q = None \<Longrightarrow> keeps_above2 r f) \<Longrightarrow> (\<And>v. q = Some v \<Longrightarrow> keeps_above2 r (g v)) \<Longrightarrow>
   keeps_above2 r (\<lambda>c. case q of None \<Rightarrow> f c | Some v \<Rightarrow> g v c)"
  by (cases q) simp_all

lemma keeps_with_value: "keeps_above r f \<Longrightarrow> keeps_above2 r (\<lambda>c. run_bind (f c) (\<lambda>c. Done (c, v)))"
  by (force simp: keeps_above_def keeps_above2_def)

lemma keeps_ttf_char:
  assumes f: "font_ok f" and r: "r \<le> 0 \<or> font_starts f size_px up \<and> r \<le> y - up"
  shows "keeps_above2 r (draw_ttf_char (Some f) x y ch color size_px)"
proof -
  have body: "keeps_above2 r (\<lambda>c. run_bind (blit_image (x + gm_bearing m) (y + asc + gm_yoff m) color (gm_w m) (gm_h m) px c)
      (\<lambda>c. Done (c, Inr (gm_advance m))))"
    if "tf_metrics f size_px g = Some m" "tf_render f size_px g = Some px" "tf_ascender f size_px = Some asc"
    for g m px asc
  proof -
    have "gm_w m * gm_h m \<le> int (length px)" using f that by (simp add: font_ok_def)
    moreover have "r \<le> y + asc + gm_yoff m \<or> r \<le> 0"
      using r that unfolding font_starts_def by (smt (verit))
    ultimately show ?thesis by (intro keeps_with_value keeps_blit_image)
  qed
  show ?thesis unfolding draw_ttf_char_def option.case
    by (intro keeps2_option keeps2_if; (rule keeps2_Done | rule body; assumption))
qed

lemma keeps_ttf_loop:
  assumes f: "font_ok f" and r: "r \<le> 0 \<or> font_starts f size_px up \<and> 0 \<le> size_px"
  shows "r \<le> 0 \<or> r \<le> y - up \<Longrightarrow> keeps_above2 r (ttf_loop (Some f) x cx y cs color size_px)"
proof (induction cs arbitrary: cx y)
  case (Cons ch cs)
  have IH: "keeps_above2 r (ttf_loop (Some f) x cx' y' cs color size_px)" if "y \<le> y' \<or> r \<le> 0" for cx' y'
    using Cons.IH [of y' cx'] Cons.prems that by linarith
  have step: "keeps_above2 r (\<lambda>c. case q of Inl e \<Rightarrow> Done (c, Inl e)
      | Inr adv \<Rightarrow> ttf_loop (Some f) x (cx + adv) y cs color size_px c)" for q
    using IH by (cases q) auto
  have "keeps_above2 r (draw_ttf_char (Some f) cx y ch color size_px)"
    using Cons.prems r by (intro keeps_ttf_char [OF f]) auto
  then have "keeps_above2 r (\<lambda>c. run_bind (draw_ttf_char (Some f) cx y ch color size_px c) (\<lambda>(c, q). case q of
      Inl e \<Rightarrow> Done (c, Inl e) | Inr adv \<Rightarrow> ttf_loop (Some f) x (cx + adv) y cs color size_px c))"
    by (intro keeps2_bind) (simp_all add: step)
  moreover have "keeps_above2 r (ttf_loop (Some f) x x (y + (size_px + 2)) cs color size_px)" if "ch = CHR 0x0A"
    using IH [of "y + (size_px + 2)" x] r by auto
  ultimately show ?case by (cases "ch = CHR 0x0A") simp_all
qed (simp add: keeps_above2_def)

lemma keeps_ttf_text:
  assumes "\<And>g. f = Some g \<Longrightarrow> font_ok g \<and> (r \<le> 0 \<or> font_starts g size_px up \<and> 0 \<le> size_px \<and> r \<le> y - up)"
  shows "keeps_above2 r (draw_ttf_text f x y text color size_px)"
  using assms keeps_ttf_loop [of _ r size_px up y x x "cstr text" color]
  by (cases f) (auto simp: draw_ttf_text_def keeps_above2_def)

lemma keeps_wrapped_loop:
  assumes "font_ok f" shows "keeps_above2 0 (wrapped_loop f x max_w line cx cy cs color size_px)"
proof (induction cs arbitrary: cx cy)
  case (Cons ch cs)
  have "keeps_above2 0 (\<lambda>c. run_bind (draw_ttf_char (Some f) px py ch color size_px c) (\<lambda>(c, r).
      wrapped_loop f x max_w line (case r of Inl _ \<Rightarrow> px | Inr adv \<Rightarrow> px + adv) py cs color size_px c))" for px py
    by (intro keeps2_bind keeps_ttf_char [OF assms]) (simp_all add: Cons.IH)
  then have "keeps_above2 0 (\<lambda>c. let wrap = (cx + gm_advance m > x + max_w \<and> cx > x); cx = (if wrap then x else cx);
      cy = (if wrap then cy + line else cy) in run_bind (draw_ttf_char (Some f) cx cy ch color size_px c) (\<lambda>(c, r).
      wrapped_loop f x max_w line (case r of Inl _ \<Rightarrow> cx | Inr adv \<Rightarrow> cx + adv) cy cs color size_px c))" for m
    unfolding Let_def by blast
  then have "keeps_above2 0 (\<lambda>c. case tf_metrics f size_px g of None \<Rightarrow> wrapped_loop f x max_w line cx cy cs color size_px c
      | Some m \<Rightarrow> let wrap = (cx + gm_advance m > x + max_w \<and> cx > x); cx = (if wrap then x else cx);
      cy = (if wrap then cy + line else cy) in run_bind (draw_ttf_char (Some f) cx cy ch color size_px c) (\<lambda>(c, r).
      wrapped_loop f x max_w line (case r of Inl _ \<Rightarrow> cx | Inr adv \<Rightarrow> cx + adv) cy cs color size_px c))" for g
    using Cons.IH by (cases "tf_metrics f size_px g") simp_all
  then show ?case using Cons.IH
    by (cases "ch = CHR 0x0A"; cases "tf_lookup f (char_code ch)") simp_all
qed (simp add: keeps_above2_def)

lemma keeps_ttf_wrapped:
  assumes "\<And>g. f = Some g \<Longrightarrow> font_ok g"
  shows "keeps_above2 0 (draw_ttf_text_wrapped f x y max_w text color size_px)"
proof -
  have body: "keeps_above2 0 (\<lambda>c. run_bind (wrapped_loop g x max_w line x y (cstr text) color size_px c)
      (\<lambda>(c, cy). Done (c, Inr (cy - y + line))))" if "f = Some g" for g line
    by (intro keeps2_bind keeps_wrapped_loop) (simp_all add: assms that)
  show ?thesis unfolding draw_ttf_text_wrapped_def
    by (intro keeps2_option; (rule keeps2_Done | rule body; assumption))
qed

lemma keeps_rects:
  "r \<le> y \<Longrightarrow> keeps_above r (fill_rect x y w h color)"
  "r \<le> y \<or> y < 0 \<Longrightarrow> keeps_above r (draw_hline x y n color)"
  "r \<le> y \<Longrightarrow> keeps_above r (draw_vline x y n color)"
  "keeps_above 0 (fill_rect x y w h color)" "keeps_above 0 (draw_vline x y n color)"
  by (auto simp: fill_rect_def draw_hline_def draw_vline_def intro!: keeps_for_each keeps_put_pixel)

lemma keeps_blit16_char: "keeps_above 0 (draw_blit16_char x y ch color scale)"
proof -
  have "keeps_above 0 (draw_scaled px py color scale)" for px py
    by (auto simp: draw_scaled_def intro!: keeps_for_each keeps_put_pixel)
  then have "keeps_above 0 (for_each [0..<font_height] (\<lambda>gy. for_each [0..<font_width] (\<lambda>gx.
      if bit g (gy * font_width + gx) then draw_scaled (x + int gx * scale) (y + int gy * scale + off) color scale
      else Done)))" for g :: "16 word" and off
    by (intro keeps_for_each) auto
  then show ?thesis unfolding draw_blit16_char_def keeps_above_def by (auto simp: Let_def)
qed

lemma keeps_blit16_text: "keeps_above 0 (draw_blit16_text x y text color scale)"
proof -
  have "keeps_above 0 (blit16_loop x cx cy cs color scale)" for cx cy cs
  proof (induction cs arbitrary: cx cy)
    case Nil
    show ?case by (simp add: keeps_above_def)
  next
    case (Cons ch cs)
    then have "keeps_above 0 (\<lambda>c. run_bind (draw_blit16_char cx cy ch color scale c)
        (blit16_loop x (cx + font_advance * scale) cy cs color scale))"
      by (intro keeps_bind keeps_blit16_char)
    then show ?case using Cons.IH by (auto simp: keeps_above_def)
  qed
  then show ?thesis by (simp add: draw_blit16_text_def keeps_above_def)
qed

lemma keeps_clear: "keeps_above 0 (cv_clear color)"
  unfolding keeps_above_at
proof (intro allI)
  fix w h
  have "keeps_at w h 0 (for_each (upto_ex 0 (w * h)) (\<lambda>i. store_px i color))"
    by (intro keeps_at_for_each keeps_at_store) auto
  then show "keeps_at w h 0 (cv_clear color)" by (simp add: keeps_at_def cv_clear_def)
qed


definition block_font :: font where
  "block_font = \<lparr>tf_lookup = (\<lambda>ch. if ch = 32 then None else Some ch),
     tf_metrics = (\<lambda>size_px g. Some \<lparr>gm_advance = 3, gm_bearing = 0, gm_yoff = - 2, gm_w = 2, gm_h = 2\<rparr>),
     tf_render = (\<lambda>size_px g. Some [255, 128, 0, 255]), tf_ascender = (\<lambda>size_px. Some 2),
     tf_line = (\<lambda>size_px. Some 4), tf_memory = (\<lambda>n. True)\<rparr>"

lemma block_font_ok: "font_ok block_font"
  by (auto simp: font_ok_def block_font_def)


section \<open>What the rectangles paint\<close>

definition on_canvas :: "canvas \<Rightarrow> int \<Rightarrow> int \<Rightarrow> bool" where
  "on_canvas c x y \<longleftrightarrow> 0 \<le> x \<and> x < cv_w c \<and> 0 \<le> y \<and> y < cv_h c"

definition pixel :: "canvas \<Rightarrow> int \<Rightarrow> int \<Rightarrow> 32 word" where
  "pixel c x y = cv_px c ! nat (y * cv_w c + x)"

lemma get_pixel_eq: "cv_ok c \<Longrightarrow> get_pixel x y c = Done (if on_canvas c x y then pixel c x y else 0)"
  using pixel_index [of x "cv_w c" y y "cv_h c"]
  by (auto simp: get_pixel_def on_canvas_def load_px_def pixel_def cv_ok_def)

text \<open>\<open>f\<close> gives the pixels of \<open>S\<close> on the canvas the color and leaves the others.\<close>

definition paints :: "(int \<times> int) set \<Rightarrow> 32 word \<Rightarrow> (canvas \<Rightarrow> canvas run) \<Rightarrow> bool" where
  "paints S color f \<longleftrightarrow> (\<forall>c. cv_ok c \<longrightarrow> (\<exists>c'. f c = Done c' \<and> cv_ok c' \<and> cv_w c' = cv_w c \<and> cv_h c' = cv_h c
     \<and> (\<forall>x y. on_canvas c x y \<longrightarrow> pixel c' x y = (if (x, y) \<in> S then color else pixel c x y))))"

lemma pixel_inj:
  assumes "0 \<le> x" "x < w" "0 \<le> u" "u < w" "y * w + x = v * w + (u :: int)"
  shows "x = u" "y = v"
proof -
  have "(y * w + x) mod w = x" "(v * w + u) mod w = u" using assms(1-4) by simp_all
  then show xu: "x = u" using assms(5) by metis
  have "y * w = v * w" using assms(5) xu by simp
  then show "y = v" using assms(1,2) by simp
qed

lemma paints_put_pixel: "paints {(x, y)} color (put_pixel x y color)"
  unfolding paints_def
proof (intro allI impI)
  fix c assume ok: "cv_ok c"
  show "\<exists>c'. put_pixel x y color c = Done c' \<and> cv_ok c' \<and> cv_w c' = cv_w c \<and> cv_h c' = cv_h c
     \<and> (\<forall>u v. on_canvas c u v \<longrightarrow> pixel c' u v = (if (u, v) \<in> {(x, y)} then color else pixel c u v))"
  proof (cases "on_canvas c x y")
    case True
    then have ix: "y * cv_w c + x < int (length (cv_px c))" "0 \<le> y * cv_w c + x"
      using pixel_index [of x "cv_w c" y y "cv_h c"] ok by (auto simp: on_canvas_def cv_ok_def)
    define c' where "c' = c\<lparr>cv_px := (cv_px c)[nat (y * cv_w c + x) := color]\<rparr>"
    have "pixel c' u v = (if (u, v) = (x, y) then color else pixel c u v)" if on: "on_canvas c u v" for u v
    proof -
      have iu: "0 \<le> v * cv_w c + u" using on pixel_index [of u "cv_w c" v v "cv_h c"] by (auto simp: on_canvas_def)
      have "nat (v * cv_w c + u) \<noteq> nat (y * cv_w c + x)" if "(u, v) \<noteq> (x, y)"
        using pixel_inj [of u "cv_w c" x v y] that on True iu ix(2) by (auto simp: on_canvas_def eq_nat_nat_iff)
      then show ?thesis using ix by (auto simp: pixel_def c'_def)
    qed
    moreover have "put_pixel x y color c = Done c'"
      using True ix by (simp add: put_pixel_def on_canvas_def store_px_def c'_def)
    moreover have "cv_ok c'" using ok by (simp add: cv_ok_def c'_def)
    ultimately show ?thesis by (auto simp: c'_def)
  next
    case False
    then show ?thesis using ok by (auto simp: put_pixel_def on_canvas_def)
  qed
qed

lemma paints_bind:
  assumes "paints S color f" and "paints T color g"
  shows "paints (S \<union> T) color (\<lambda>c. run_bind (f c) g)"
  unfolding paints_def
proof (intro allI impI)
  fix c assume "cv_ok c"
  then obtain d where d: "f c = Done d" "cv_ok d" "cv_w d = cv_w c" "cv_h d = cv_h c"
      "\<And>x y. on_canvas c x y \<Longrightarrow> pixel d x y = (if (x, y) \<in> S then color else pixel c x y)"
    using assms(1) unfolding paints_def by blast
  obtain e where e: "g d = Done e" "cv_ok e" "cv_w e = cv_w d" "cv_h e = cv_h d"
      "\<And>x y. on_canvas d x y \<Longrightarrow> pixel e x y = (if (x, y) \<in> T then color else pixel d x y)"
    using assms(2) d(2) unfolding paints_def by blast
  have "on_canvas d x y = on_canvas c x y" for x y using d by (simp add: on_canvas_def)
  then show "\<exists>c'. run_bind (f c) g = Done c' \<and> cv_ok c' \<and> cv_w c' = cv_w c \<and> cv_h c' = cv_h c
     \<and> (\<forall>x y. on_canvas c x y \<longrightarrow> pixel c' x y = (if (x, y) \<in> S \<union> T then color else pixel c x y))"
    using d e by auto
qed

lemma paints_for_each: "(\<And>x. x \<in> set xs \<Longrightarrow> paints (S x) color (f x)) \<Longrightarrow> paints (\<Union>x\<in>set xs. S x) color (for_each xs f)"
proof (induction xs)
  case Nil
  show ?case by (simp add: paints_def)
next
  case (Cons x xs)
  then have "paints (S x \<union> (\<Union>x\<in>set xs. S x)) color (\<lambda>c. run_bind (f x c) (for_each xs f))"
    by (intro paints_bind) auto
  then show ?case by (simp add: paints_def)
qed

lemma paints_fill_rect: "paints {(u, v). x \<le> u \<and> u < x + w \<and> y \<le> v \<and> v < y + h} color (fill_rect x y w h color)"
proof -
  have "paints (\<Union>dy\<in>set (upto_ex 0 h). \<Union>dx\<in>set (upto_ex 0 w). {(x + dx, y + dy)}) color (fill_rect x y w h color)"
    unfolding fill_rect_def by (intro paints_for_each paints_put_pixel)
  moreover have "(\<Union>dy\<in>set (upto_ex 0 h). \<Union>dx\<in>set (upto_ex 0 w). {(x + dx, y + dy)})
      = {(u, v). x \<le> u \<and> u < x + w \<and> y \<le> v \<and> v < y + h}" (is "?A = ?B")
  proof (intro set_eqI iffI)
    fix p assume "p \<in> ?B"
    then have "snd p - y \<in> set (upto_ex 0 h)" "fst p - x \<in> set (upto_ex 0 w)" "p = (x + (fst p - x), y + (snd p - y))" by auto
    then show "p \<in> ?A" by blast
  qed auto
  ultimately show ?thesis by simp
qed

text \<open>A filled rectangle, read back pixel by pixel.\<close>

theorem fill_rect_paints:
  assumes "0 \<le> cv_w c" and "0 \<le> cv_h c" and "cv_w c * cv_h c \<le> int (length (cv_px c))"
    and "0 \<le> u" "u < cv_w c" "0 \<le> v" "v < cv_h c"
  shows "run_bind (fill_rect x y w h color c) (get_pixel u v)
     = (if x \<le> u \<and> u < x + w \<and> y \<le> v \<and> v < y + h then Done color else get_pixel u v c)"
proof -
  have ok: "cv_ok c" and on: "on_canvas c u v" using assms by (simp_all add: cv_ok_def on_canvas_def)
  obtain c' where c': "fill_rect x y w h color c = Done c'" "cv_ok c'" "cv_w c' = cv_w c" "cv_h c' = cv_h c"
      "pixel c' u v = (if (u, v) \<in> {(u, v). x \<le> u \<and> u < x + w \<and> y \<le> v \<and> v < y + h} then color else pixel c u v)"
    using paints_fill_rect [of x w y h color] ok on unfolding paints_def by blast
  have "on_canvas c' u v" using on c' by (simp add: on_canvas_def)
  then show ?thesis using c' ok on by (simp add: get_pixel_eq)
qed

end
