(* ===== verification/Graphics.thy ===== *)
theory Graphics
  imports Canvas FileClient
begin

text \<open>
  The graphics server (\<open>user/graphics/impl.cpp\<close>, \<open>user/gen/graphics-server.cpp\<close>): the table of
  registered programs, the active one, switching by key, the task bar and the idle screen.
  The back end is its frame buffer and what it last showed; which processes are alive is an
  answer of the kernel at each request.
\<close>

section \<open>State\<close>

definition max_registered_apps :: nat where "max_registered_apps = 9"
definition taskbar_height :: int where "taskbar_height = 28"
definition taskbar_font_size :: int where "taskbar_font_size = 16"
definition taskbar_bg_color :: "32 word" where "taskbar_bg_color = 0xFF1a1a2e"
definition taskbar_border_color :: "32 word" where "taskbar_border_color = 0xFF2d2d44"
definition taskbar_text_color :: "32 word" where "taskbar_text_color = 0xFF888899"
definition taskbar_active_color :: "32 word" where "taskbar_active_color = 0xFFccccdd"

record app =
  ap_used :: bool
  ap_pid :: "32 word"
  ap_id :: "8 word"
  ap_name :: string

text \<open>The frame buffer is at \<open>bk_fb\<close>, 0 when there is none; \<open>bk_shown\<close> is the last picture flushed.\<close>

record backend =
  bk_fb :: "32 word"
  bk_canvas :: canvas
  bk_shown :: "32 word list"

record gfx =
  g_backend :: "backend option"
  g_font :: "font option"
  g_apps :: "app list"
  g_active :: int
  g_next_id :: "8 word"

definition unused_app :: app where
  "unused_app = \<lparr>ap_used = False, ap_pid = 0, ap_id = 0, ap_name = []\<rparr>"

definition gfx_start :: "backend option \<Rightarrow> font option \<Rightarrow> gfx" where
  "gfx_start b f = \<lparr>g_backend = b, g_font = f, g_apps = replicate max_registered_apps unused_app,
     g_active = - 1, g_next_id = 1\<rparr>"

section \<open>The table\<close>

text \<open>A loop that returns the first index with a property, or -1.\<close>

fun find_slot :: "(app \<Rightarrow> bool) \<Rightarrow> nat \<Rightarrow> app list \<Rightarrow> int" where
  "find_slot p i [] = - 1"
| "find_slot p i (a # as) = (if p a then int i else find_slot p (i + 1) as)"

definition find_app_by_pid :: "32 word \<Rightarrow> gfx \<Rightarrow> int" where
  "find_app_by_pid pid g = find_slot (\<lambda>a. ap_used a \<and> ap_pid a = pid) 0 (g_apps g)"

definition find_app_by_id :: "8 word \<Rightarrow> gfx \<Rightarrow> int" where
  "find_app_by_id n g = find_slot (\<lambda>a. ap_used a \<and> ap_id a = n) 0 (g_apps g)"

fun count_used :: "app list \<Rightarrow> nat" where
  "count_used [] = 0"
| "count_used (a # as) = (if ap_used a then 1 else 0) + count_used as"

text \<open>The renumbering loop: the new table, the next number and the last used index.\<close>

fun renumber :: "nat \<Rightarrow> 8 word \<Rightarrow> int \<Rightarrow> app list \<Rightarrow> app list \<times> 8 word \<times> int" where
  "renumber i n lst [] = ([], n, lst)"
| "renumber i n lst (a # as) =
     (if ap_used a
      then (case renumber (i + 1) (n + 1) (int i) as of (as, r) \<Rightarrow> (a\<lparr>ap_id := n\<rparr> # as, r))
      else (case renumber (i + 1) n lst as of (as, r) \<Rightarrow> (a # as, r)))"

text \<open>Renumbering and the choice of a new active program; the second result is the last used index.\<close>

definition settle_apps :: "gfx \<Rightarrow> gfx \<times> int" where
  "settle_apps g = (case renumber 0 1 (- 1) (g_apps g) of (as, n, lst) \<Rightarrow>
     (g\<lparr>g_apps := as, g_next_id := n,
        g_active := (if g_active g = - 1 \<and> 0 \<le> lst then lst else g_active g)\<rparr>, lst))"

section \<open>Drawing\<close>

definition on_backend :: "(canvas \<Rightarrow> canvas run) \<Rightarrow> backend \<Rightarrow> backend run" where
  "on_backend f b = (if bk_fb b = 0 then Undefined Ub_null
     else run_bind (f (bk_canvas b)) (\<lambda>c. Done (b\<lparr>bk_canvas := c\<rparr>)))"

definition flush_backend :: "backend \<Rightarrow> backend" where
  "flush_backend b = b\<lparr>bk_shown := cv_px (bk_canvas b)\<rparr>"

definition digit_of :: "nat \<Rightarrow> char" where
  "digit_of n = char_of (48 + n)"

text \<open>The loop that copies the name, with its three bounds; \<open>len\<close> is the length of the label so far.\<close>

fun copy_label :: "nat \<Rightarrow> nat \<Rightarrow> string \<Rightarrow> string" where
  "copy_label len j [] = []"
| "copy_label len j (ch # cs) = (if ch \<noteq> CHR 0x00 \<and> j < 12 \<and> len < 28 then ch # copy_label (len + 1) (j + 1) cs else [])"

definition app_label :: "app \<Rightarrow> string" where
  "app_label a =
     (let front = ''['' @ (if 10 \<le> unat (ap_id a) then [digit_of (unat (ap_id a) div 10)] else [])
                    @ [digit_of (unat (ap_id a) mod 10)] @ ''] '';
          p = unat (ap_pid a)
      in front @ copy_label (length front) 0 (ap_name a) @ ''/''
         @ (if 100 \<le> p then [digit_of (p div 100 mod 10)] else [])
         @ (if 10 \<le> p then [digit_of (p div 10 mod 10)] else []) @ [digit_of (p mod 10)])"

text \<open>The labels from slot \<open>i\<close> on.\<close>

fun draw_labels :: "font \<Rightarrow> int \<Rightarrow> int \<Rightarrow> int \<Rightarrow> nat \<Rightarrow> app list \<Rightarrow> canvas \<Rightarrow> canvas run" where
  "draw_labels f active x y i [] c = Done c"
| "draw_labels f active x y i (a # as) c =
     (if ap_used a then
        run_bind (draw_ttf_text (Some f) x y (app_label a)
            (if int i = active then taskbar_active_color else taskbar_text_color) taskbar_font_size c) (\<lambda>(c, r).
        draw_labels f active (case r of Inl _ \<Rightarrow> x | Inr w \<Rightarrow> x + (w + 20)) y (i + 1) as c)
      else draw_labels f active x y (i + 1) as c)"

definition taskbar_canvas :: "font option \<Rightarrow> int \<Rightarrow> app list \<Rightarrow> canvas \<Rightarrow> canvas run" where
  "taskbar_canvas font active apps c =
     (let w = cv_w c; h = cv_h c; ty = h - taskbar_height in
      run_bind (for_each (upto_ex ty h) (\<lambda>y. for_each (upto_ex 0 w) (\<lambda>x. store_px (y * w + x) taskbar_bg_color)) c) (\<lambda>c.
      run_bind (for_each (upto_ex 0 w) (\<lambda>x. store_px (ty * w + x) taskbar_border_color) c) (\<lambda>c.
      case font of None \<Rightarrow> Done c | Some f \<Rightarrow> draw_labels f active 12 (ty + 5) 0 apps c)))"

definition render_taskbar :: "gfx \<Rightarrow> gfx run" where
  "render_taskbar g = (case g_backend g of None \<Rightarrow> Done g
    | Some b \<Rightarrow> run_bind (on_backend (taskbar_canvas (g_font g) (g_active g) (g_apps g)) b) (\<lambda>b.
        Done (g\<lparr>g_backend := Some b\<rparr>)))"

definition flush_gfx :: "gfx \<Rightarrow> gfx" where
  "flush_gfx g = g\<lparr>g_backend := map_option flush_backend (g_backend g)\<rparr>"

definition idle_text :: string where
  "idle_text = ''No apps running''"

text \<open>Division by two as in C, which rounds towards zero.\<close>

definition half :: "int \<Rightarrow> int" where
  "half n = (if n < 0 then - ((- n) div 2) else n div 2)"

definition idle_canvas :: "font option \<Rightarrow> canvas \<Rightarrow> canvas run" where
  "idle_canvas font c =
     (let w = cv_w c; h = cv_h c in
      run_bind (for_each (upto_ex 0 (w * h)) (\<lambda>i. store_px i taskbar_bg_color) c) (\<lambda>c.
      case font of None \<Rightarrow> Done c
      | Some f \<Rightarrow> (case measure_ttf_text (Some f) idle_text 20 of
          Inl _ \<Rightarrow> Done c
        | Inr m \<Rightarrow> run_bind (draw_ttf_text (Some f) (half (w - m)) (half (h - taskbar_height)) idle_text 0xFF666666 20 c)
            (\<lambda>(c, _). Done c))))"

definition render_idle_screen :: "gfx \<Rightarrow> gfx run" where
  "render_idle_screen g = (case g_backend g of None \<Rightarrow> Done g
    | Some b \<Rightarrow> run_bind (on_backend (idle_canvas (g_font g)) b) (\<lambda>b.
        run_bind (render_taskbar (g\<lparr>g_backend := Some b\<rparr>)) (\<lambda>g. Done (flush_gfx g))))"

section \<open>Dead programs\<close>

text \<open>The first loop of \<open>reap_dead_processes\<close>: the table, the active index, whether any was dead.\<close>

fun reap_loop :: "(32 word \<Rightarrow> bool) \<Rightarrow> nat \<Rightarrow> int \<Rightarrow> app list \<Rightarrow> app list \<times> int \<times> bool" where
  "reap_loop alive i active [] = ([], active, False)"
| "reap_loop alive i active (a # as) =
     (if ap_used a \<and> \<not> alive (ap_pid a)
      then (case reap_loop alive (i + 1) (if active = int i then - 1 else active) as of
          (as, active, _) \<Rightarrow> (a\<lparr>ap_used := False\<rparr> # as, active, True))
      else (case reap_loop alive (i + 1) active as of (as, r) \<Rightarrow> (a # as, r)))"

definition reap_dead_processes :: "(32 word \<Rightarrow> bool) \<Rightarrow> gfx \<Rightarrow> gfx run" where
  "reap_dead_processes alive g = (case reap_loop alive 0 (g_active g) (g_apps g) of (as, active, reaped) \<Rightarrow>
     let g = g\<lparr>g_apps := as, g_active := active\<rparr> in
     if reaped then (case settle_apps g of (g, lst) \<Rightarrow> if lst < 0 then render_idle_screen g else Done g)
     else Done g)"

section \<open>The handlers\<close>

datatype gfx_error = Gfx_not_initialized | Gfx_too_many_apps | Gfx_not_registered | Gfx_method_not_known

definition handle_get_framebuffer :: "gfx \<Rightarrow> gfx_error + 32 word \<times> 32 word \<times> 32 word" where
  "handle_get_framebuffer g = (case g_backend g of
      None \<Rightarrow> Inl Gfx_not_initialized
    | Some b \<Rightarrow> if bk_fb b = 0 then Inl Gfx_not_initialized
        else Inr (bk_fb b, of_int (cv_w (bk_canvas b)), of_int (cv_h (bk_canvas b)) - of_int taskbar_height))"

definition handle_flush :: "(32 word \<Rightarrow> bool) \<Rightarrow> gfx \<Rightarrow> (gfx \<times> (gfx_error + bool)) run" where
  "handle_flush alive g =
     (if g_backend g = None then Done (g, Inl Gfx_not_initialized)
      else run_bind (reap_dead_processes alive g) (\<lambda>g.
           run_bind (render_taskbar g) (\<lambda>g. Done (flush_gfx g, Inr True))))"

definition handle_register_app :: "32 word \<Rightarrow> string \<Rightarrow> gfx \<Rightarrow> gfx \<times> (gfx_error + 8 word)" where
  "handle_register_app sender name g =
     (let slot = find_slot (\<lambda>a. \<not> ap_used a) 0 (g_apps g) in
      if slot < 0 then (g, Inl Gfx_too_many_apps)
      else let n = (if length name < 15 then length name else 15);
               a = \<lparr>ap_used = True, ap_pid = sender, ap_id = g_next_id g, ap_name = take n name\<rparr>
           in (g\<lparr>g_apps := (g_apps g)[nat slot := a], g_next_id := g_next_id g + 1, g_active := slot\<rparr>,
               Inr (g_next_id g)))"

definition handle_should_render :: "32 word \<Rightarrow> gfx \<Rightarrow> gfx_error + nat" where
  "handle_should_render sender g =
     (let slot = find_app_by_pid sender g in
      if slot < 0 then Inl Gfx_not_registered else Inr (if slot = g_active g then 1 else 0))"

definition handle_unregister_app :: "32 word \<Rightarrow> gfx \<Rightarrow> (gfx \<times> (gfx_error + bool)) run" where
  "handle_unregister_app sender g =
     (let slot = find_app_by_pid sender g in
      if slot < 0 then Done (g, Inl Gfx_not_registered)
      else let g = g\<lparr>g_apps := (g_apps g)[nat slot := (g_apps g ! nat slot)\<lparr>ap_used := False\<rparr>],
                     g_active := (if g_active g = slot then - 1 else g_active g)\<rparr>;
               g = fst (settle_apps g)
           in run_bind (if count_used (g_apps g) = 0 then render_idle_screen g else Done g) (\<lambda>g.
              Done (g, Inr True)))"

definition handle_handle_key :: "32 word \<Rightarrow> 32 word \<Rightarrow> gfx \<Rightarrow> gfx \<times> nat" where
  "handle_handle_key code flags g =
     (if flags AND 0x01 = 0 then (g, 0)
      else if flags AND 0x08 \<noteq> 0 \<and> 2 \<le> code \<and> code \<le> 10 then
        (let slot = find_app_by_id (ucast (code - 2 + 1)) g
         in (if 0 \<le> slot then g\<lparr>g_active := slot\<rparr> else g, 1))
      else (g, 0))"

section \<open>Requests\<close>

definition m_get_framebuffer :: "32 word" where "m_get_framebuffer = 0x1300"
definition m_flush :: "32 word" where "m_flush = 0x1400"
definition m_register_app :: "32 word" where "m_register_app = 0x1500"
definition m_should_render :: "32 word" where "m_should_render = 0x1600"
definition m_unregister_app :: "32 word" where "m_unregister_app = 0x1700"
definition m_handle_key :: "32 word" where "m_handle_key = 0x1800"

text \<open>One message: who sent it, the method and flags, two arguments and the communication page.\<close>

record gfx_msg =
  gq_sender :: "32 word"
  gq_method :: "32 word"
  gq_arg0 :: "32 word"
  gq_arg1 :: "32 word"
  gq_page :: "byte list"

definition answer_of :: "gfx \<times> (gfx_error + 'a) \<Rightarrow> ('a \<Rightarrow> nat list) \<Rightarrow> (gfx \<times> (gfx_error + nat list)) run" where
  "answer_of gr f = Done (fst gr, case snd gr of Inl e \<Rightarrow> Inl e | Inr v \<Rightarrow> Inr (f v))"

definition gfx_request :: "(32 word \<Rightarrow> bool) \<Rightarrow> gfx_msg \<Rightarrow> gfx \<Rightarrow> (gfx \<times> (gfx_error + nat list)) run" where
  "gfx_request alive msg g = (let m = ipc_method (gq_method msg); sender = gq_sender msg in
     if m = m_get_framebuffer
     then answer_of (g, handle_get_framebuffer g) (\<lambda>(p, w, h). [unat p, unat w, unat h])
     else if m = m_flush
     then run_bind (handle_flush alive g) (\<lambda>gr. answer_of gr (\<lambda>_. []))
     else if m = m_register_app
     then run_bind (run_bind (read_string (mr_new (gq_page msg))) view_bytes) (\<lambda>name.
          answer_of (handle_register_app sender (map char_of_byte name) g) (\<lambda>n. [unat n]))
     else if m = m_should_render
     then answer_of (g, handle_should_render sender g) (\<lambda>v. [v])
     else if m = m_unregister_app
     then run_bind (handle_unregister_app sender g) (\<lambda>gr. answer_of gr (\<lambda>_. []))
     else if m = m_handle_key
     then (case handle_handle_key (gq_arg0 msg) (gq_arg1 msg) g of (g, v) \<Rightarrow> Done (g, Inr [v]))
     else Done (g, Inl Gfx_method_not_known))"

text \<open>The loop of the server over the messages it receives, with what the kernel answers
  about live processes while each is handled.\<close>

fun gfx_run :: "((32 word \<Rightarrow> bool) \<times> gfx_msg) list \<Rightarrow> gfx \<Rightarrow> gfx run" where
  "gfx_run [] g = Done g"
| "gfx_run ((alive, msg) # ms) g = run_bind (gfx_request alive msg g) (\<lambda>(g, _). gfx_run ms g)"

end
