(* ===== verification/GraphicsProps.thy ===== *)
theory GraphicsProps
  imports Graphics "HOL-Library.Multiset"
begin

text \<open>
  The graphics server over any sequence of requests: the numbers of the registered programs,
  the active one, who is told to render, and the rows of the screen that drawing touches.
\<close>

section \<open>The table\<close>

lemma find_slot_cases:
  obtains (none) "find_slot p i as = - 1" "\<forall>a\<in>set as. \<not> p a"
  | (some) j where "j < length as" "find_slot p i as = int (i + j)" "p (as ! j)" "\<forall>k<j. \<not> p (as ! k)"
proof -
  have "(find_slot p i as = - 1 \<and> (\<forall>a\<in>set as. \<not> p a)) \<or>
      (\<exists>j<length as. find_slot p i as = int (i + j) \<and> p (as ! j) \<and> (\<forall>k<j. \<not> p (as ! k)))"
  proof (induction as arbitrary: i)
    case (Cons a as)
    show ?case
    proof (cases "p a")
      case True
      then show ?thesis by (intro disjI2 exI [of _ 0]) simp
    next
      case False
      from Cons.IH [of "i + 1"] show ?thesis
      proof (elim disjE exE conjE)
        fix j assume j: "j < length as" "find_slot p (i + 1) as = int (i + 1 + j)" "p (as ! j)" "\<forall>k<j. \<not> p (as ! k)"
        have "\<not> p ((a # as) ! k)" if "k < Suc j" for k using that j(4) False by (cases k) auto
        then show ?thesis using j False by (intro disjI2 exI [of _ "Suc j"]) simp
      qed (use False in simp)
    qed
  qed simp
  then show thesis using that by blast
qed

definition used_nos :: "app list \<Rightarrow> nat list" where
  "used_nos as = map (\<lambda>a. unat (ap_id a)) (filter ap_used as)"

lemma count_used_eq: "count_used as = length (filter ap_used as)"
  by (induction as) auto

lemma count_used_le: "count_used as \<le> length as"
  by (simp add: count_used_eq)

lemma renumber_props:
  assumes "renumber i n l as = (as', n', l')"
  shows "length as' = length as" "\<forall>j<length as. ap_used (as' ! j) = ap_used (as ! j) \<and> ap_pid (as' ! j) = ap_pid (as ! j)"
    "n' = n + of_nat (count_used as)" "map ap_id (filter ap_used as') = map (\<lambda>k. n + of_nat k) [0..<count_used as]"
    "(count_used as = 0 \<and> l' = l) \<or> (\<exists>j<length as. l' = int (i + j) \<and> ap_used (as ! j))"
proof -
  have "length as' = length as \<and> (\<forall>j<length as. ap_used (as' ! j) = ap_used (as ! j) \<and> ap_pid (as' ! j) = ap_pid (as ! j))
    \<and> n' = n + of_nat (count_used as) \<and> map ap_id (filter ap_used as') = map (\<lambda>k. n + of_nat k) [0..<count_used as]
    \<and> ((count_used as = 0 \<and> l' = l) \<or> (\<exists>j<length as. l' = int (i + j) \<and> ap_used (as ! j)))"
    using assms
  proof (induction as arbitrary: i n l as' n' l')
    case (Cons a as)
    show ?case
    proof (cases "ap_used a")
      case True
      obtain bs where bs: "renumber (i + 1) (n + 1) (int i) as = (bs, n', l')" "as' = a\<lparr>ap_id := n\<rparr> # bs"
        using Cons.prems True by (auto split: prod.splits)
      note IH = Cons.IH [OF bs(1)]
      have "map (\<lambda>k. n + of_nat k) [0..<Suc (count_used as)] = n # map (\<lambda>k. n + 1 + of_nat k) [0..<count_used as]"
        by (subst upt_conv_Cons) (auto simp: map_Suc_upt [symmetric] algebra_simps simp del: upt_Suc map_Suc_upt)
      moreover have "\<exists>j<Suc (length as). l' = int (i + j) \<and> ap_used ((a # as) ! j)"
        using IH True by (metis Suc_mono add.right_neutral add_Suc_right add_Suc_shift nth_Cons_0 nth_Cons_Suc plus_1_eq_Suc add.commute zero_less_Suc)
      ultimately show ?thesis using IH bs(2) True by (auto simp: nth_Cons split: nat.split simp del: upt_Suc)
    next
      case False
      obtain bs where bs: "renumber (i + 1) n l as = (bs, n', l')" "as' = a # bs"
        using Cons.prems False by (auto split: prod.splits)
      note IH = Cons.IH [OF bs(1)]
      have "(count_used as = 0 \<and> l' = l) \<or> (\<exists>j<Suc (length as). l' = int (i + j) \<and> ap_used ((a # as) ! j))"
        using IH by (metis Suc_mono add_Suc_right add_Suc_shift nth_Cons_Suc plus_1_eq_Suc add.commute)
      then show ?thesis using IH bs(2) False by (auto simp: nth_Cons split: nat.split)
    qed
  qed auto
  then show "length as' = length as" "\<forall>j<length as. ap_used (as' ! j) = ap_used (as ! j) \<and> ap_pid (as' ! j) = ap_pid (as ! j)"
    "n' = n + of_nat (count_used as)" "map ap_id (filter ap_used as') = map (\<lambda>k. n + of_nat k) [0..<count_used as]"
    "(count_used as = 0 \<and> l' = l) \<or> (\<exists>j<length as. l' = int (i + j) \<and> ap_used (as ! j))"
    by blast+
qed

section \<open>The invariant\<close>

text \<open>The numbers in use are 1 to the number of programs, the next number follows, and a program
  is active whenever there is one.\<close>

definition nos_inv :: "gfx \<Rightarrow> bool" where
  "nos_inv g \<longleftrightarrow> length (g_apps g) = max_registered_apps
     \<and> mset (used_nos (g_apps g)) = mset [1..<Suc (count_used (g_apps g))]
     \<and> unat (g_next_id g) = Suc (count_used (g_apps g))"

definition active_inv :: "gfx \<Rightarrow> bool" where
  "active_inv g \<longleftrightarrow> (if count_used (g_apps g) = 0 then g_active g = - 1
     else 0 \<le> g_active g \<and> g_active g < int max_registered_apps \<and> ap_used (g_apps g ! nat (g_active g)))"

definition gfx_inv :: "gfx \<Rightarrow> bool" where
  "gfx_inv g \<longleftrightarrow> nos_inv g \<and> active_inv g"

lemma gfx_start_inv: "gfx_inv (gfx_start b f)"
  by (simp add: gfx_inv_def nos_inv_def active_inv_def gfx_start_def unused_app_def used_nos_def count_used_eq
      max_registered_apps_def)

text \<open>Before the programs are settled: the active one may be lost, the numbers may have gaps.\<close>

definition loose_inv :: "gfx \<Rightarrow> bool" where
  "loose_inv g \<longleftrightarrow> length (g_apps g) = max_registered_apps \<and>
     (g_active g = - 1 \<or> 0 \<le> g_active g \<and> g_active g < int max_registered_apps \<and> ap_used (g_apps g ! nat (g_active g)))"

lemma settle_inv:
  assumes "loose_inv g" and "settle_apps g = (g', l)"
  shows "gfx_inv g'" "g_backend g' = g_backend g" "g_font g' = g_font g" "l < 0 \<longleftrightarrow> count_used (g_apps g') = 0"
proof -
  obtain as n where r: "renumber 0 1 (- 1) (g_apps g) = (as, n, l)"
      and g': "g' = g\<lparr>g_apps := as, g_next_id := n, g_active := (if g_active g = - 1 \<and> 0 \<le> l then l else g_active g)\<rparr>"
    using assms(2) by (auto simp: settle_apps_def split: prod.splits)
  note R = renumber_props [OF r]
  have len: "length (g_apps g) = 9" using assms(1) by (simp add: loose_inv_def max_registered_apps_def)
  define m where "m = count_used (g_apps g)"
  have m: "m \<le> 9" using count_used_le [of "g_apps g"] len by (simp add: m_def)
  have cnt: "count_used as = m" using arg_cong [OF R(4), of length] by (simp add: count_used_eq [of as] m_def)
  have "used_nos as = map unat (map ap_id (filter ap_used as))" by (simp add: used_nos_def o_def)
  also have "\<dots> = map (\<lambda>k. unat (1 + of_nat k :: 8 word)) [0..<m]" by (simp add: R(4) m_def o_def)
  also have "\<dots> = map Suc [0..<m]"
  proof (rule map_cong [OF refl])
    fix k assume "k \<in> set [0..<m]"
    then show "unat (1 + of_nat k :: 8 word) = Suc k" using m by (subst unat_word_ariths) (simp add: unat_of_nat)
  qed
  also have "\<dots> = [1..<Suc m]" by (simp add: map_Suc_upt)
  finally have nos: "used_nos as = [1..<Suc m]" .
  have nx: "unat n = Suc m" using m by (simp add: R(3) m_def [symmetric]) (subst unat_word_ariths, simp add: unat_of_nat)
  have "nos_inv g'" using R(1) len nos cnt nx by (simp add: nos_inv_def g' max_registered_apps_def)
  moreover have "active_inv g'"
  proof (cases "m = 0")
    case True
    then have none: "\<not> ap_used (g_apps g ! j)" if "j < 9" for j
      using that len by (auto simp: m_def count_used_eq filter_empty_conv)
    then have "g_active g = - 1" using assms(1) by (auto simp: loose_inv_def max_registered_apps_def)
    moreover have "l = - 1" using R(5) none len by auto
    ultimately show ?thesis using True cnt by (simp add: active_inv_def g')
  next
    case False
    then obtain j where j: "j < 9" "l = int j" "ap_used (g_apps g ! j)" using R(5) len by (auto simp: m_def)
    then show ?thesis using False cnt assms(1) R(2) len
      by (auto simp: active_inv_def g' loose_inv_def max_registered_apps_def)
  qed
  ultimately show "gfx_inv g'" by (simp add: gfx_inv_def)
  show "g_backend g' = g_backend g" "g_font g' = g_font g" by (simp_all add: g')
  show "l < 0 \<longleftrightarrow> count_used (g_apps g') = 0" using R(5) cnt m_def len
    by (auto simp: g' count_used_eq filter_empty_conv)
qed

section \<open>Drawing is defined\<close>

lemma keeps2_bind_above:
  assumes "keeps_above2 r f" and "\<And>v. keeps_above r (\<lambda>c. g (c, v))"
  shows "keeps_above r (\<lambda>c. run_bind (f c) g)"
  unfolding keeps_above_def
proof (intro allI impI)
  fix c assume c: "cv_ok c"
  obtain d v where d: "f c = Done (d, v)" "same_but (rows_from r c) c d"
    using assms(1) c unfolding keeps_above2_def by blast
  obtain e where e: "g (d, v) = Done e" "same_but (rows_from r d) d e"
    using assms(2) [of v] same_but_ok [OF d(2) c] unfolding keeps_above_def by blast
  show "\<exists>c'. run_bind (f c) g = Done c' \<and> same_but (rows_from r c) c c'"
    using d e same_but_trans [OF d(2)] by (auto simp: same_but_rows [OF d(2)])
qed

lemma keeps_labels:
  assumes "font_ok f" and "r \<le> 0 \<or> font_starts f 16 up \<and> r \<le> y - up"
  shows "keeps_above r (draw_labels f active x y i as)"
proof (induction as arbitrary: x i)
  case Nil
  show ?case by (simp add: keeps_above_def)
next
  case (Cons a as)
  have "keeps_above2 r (draw_ttf_text (Some f) x y (app_label a) color taskbar_font_size)" for color
    using assms by (intro keeps_ttf_text [where up = up]) (auto simp: taskbar_font_size_def)
  then have "keeps_above r (\<lambda>c. run_bind (draw_ttf_text (Some f) x y (app_label a) color taskbar_font_size c)
      (\<lambda>(c, q). draw_labels f active (case q of Inl _ \<Rightarrow> x | Inr w \<Rightarrow> x + (w + 20)) y (i + 1) as c))" for color
    by (rule keeps2_bind_above) (use Cons.IH in auto)
  then show ?case using Cons.IH by (cases "ap_used a") simp_all
qed

lemma keeps_taskbar:
  assumes "\<And>f. font = Some f \<Longrightarrow> font_ok f \<and> (r \<le> 0 \<or> font_starts f 16 5)" and h: "28 \<le> h" "r \<le> h - 28" and w: "0 \<le> w"
  shows "keeps_at w h r (taskbar_canvas font active apps)"
proof -
  have fill: "keeps_at w h r (for_each (upto_ex (h - 28) h) (\<lambda>y. for_each (upto_ex 0 w) (\<lambda>x. store_px (y * w + x) col)))" for col
    using pixel_index [of _ w r _ h] h by (intro keeps_at_for_each keeps_at_store) auto
  have line: "keeps_at w h r (for_each (upto_ex 0 w) (\<lambda>x. store_px ((h - 28) * w + x) col))" for col
    using pixel_index [of _ w r "h - 28" h] h by (intro keeps_at_for_each keeps_at_store) auto
  have labels: "keeps_at w h r (\<lambda>c. case font of None \<Rightarrow> Done c | Some f \<Rightarrow> draw_labels f active 12 (h - 28 + 5) 0 apps c)"
  proof (cases font)
    case (Some f)
    then have "keeps_above r (draw_labels f active 12 (h - 28 + 5) 0 apps)"
      using assms(1) [OF Some] h by (intro keeps_labels [where up = 5]) auto
    then show ?thesis using Some by (simp add: keeps_above_at)
  qed (simp add: keeps_at_def)
  have "keeps_at w h r (\<lambda>c. run_bind (for_each (upto_ex (h - 28) h) (\<lambda>y. for_each (upto_ex 0 w) (\<lambda>x. store_px (y * w + x) taskbar_bg_color)) c) (\<lambda>c.
      run_bind (for_each (upto_ex 0 w) (\<lambda>x. store_px ((h - 28) * w + x) taskbar_border_color) c) (\<lambda>c.
      case font of None \<Rightarrow> Done c | Some f \<Rightarrow> draw_labels f active 12 (h - 28 + 5) 0 apps c)))"
    by (intro keeps_at_bind fill line labels)
  then show ?thesis by (simp add: keeps_at_def taskbar_canvas_def Let_def taskbar_height_def)
qed

lemma keeps_idle:
  assumes "\<And>f. font = Some f \<Longrightarrow> font_ok f"
  shows "keeps_at w h 0 (idle_canvas font)"
proof -
  have fill: "keeps_at w h 0 (for_each (upto_ex 0 (w * h)) (\<lambda>i. store_px i taskbar_bg_color))"
    by (intro keeps_at_for_each keeps_at_store) auto
  have msg: "keeps_above 0 (\<lambda>c. case font of None \<Rightarrow> Done c
      | Some f \<Rightarrow> (case measure_ttf_text (Some f) idle_text 20 of
          Inl _ \<Rightarrow> Done c
        | Inr m \<Rightarrow> run_bind (draw_ttf_text (Some f) (half (w - m)) (half (h - taskbar_height)) idle_text 0xFF666666 20 c)
            (\<lambda>(c, _). Done c)))"
  proof (cases font)
    case None
    then show ?thesis by (simp add: keeps_above_def)
  next
    case (Some f)
    have "keeps_above2 0 (draw_ttf_text (Some f) x y idle_text col 20)" for x y col
      using assms Some by (intro keeps_ttf_text [where up = 0]) auto
    then have "keeps_above 0 (\<lambda>c. run_bind (draw_ttf_text (Some f) x y idle_text col 20 c) (\<lambda>(c, _). Done c))" for x y col
      by (rule keeps2_bind_above) (simp add: keeps_above_def)
    then show ?thesis using Some by (simp add: measure_ttf_text_def)
  qed
  have "keeps_at w h 0 (\<lambda>c. run_bind (for_each (upto_ex 0 (w * h)) (\<lambda>i. store_px i taskbar_bg_color) c) (\<lambda>c. case font of None \<Rightarrow> Done c
      | Some f \<Rightarrow> (case measure_ttf_text (Some f) idle_text 20 of
          Inl _ \<Rightarrow> Done c
        | Inr m \<Rightarrow> run_bind (draw_ttf_text (Some f) (half (w - m)) (half (h - taskbar_height)) idle_text 0xFF666666 20 c)
            (\<lambda>(c, _). Done c))))"
    using msg by (intro keeps_at_bind fill) (simp add: keeps_above_at)
  then show ?thesis by (simp add: keeps_at_def idle_canvas_def Let_def)
qed

definition screen_ok :: "gfx \<Rightarrow> bool" where
  "screen_ok g \<longleftrightarrow> (\<forall>b. g_backend g = Some b \<longrightarrow> bk_fb b \<noteq> 0 \<and> cv_ok (bk_canvas b) \<and> 28 \<le> cv_h (bk_canvas b))
     \<and> (\<forall>f. g_font g = Some f \<longrightarrow> font_ok f)"

definition same_table :: "gfx \<Rightarrow> gfx \<Rightarrow> bool" where
  "same_table g g' \<longleftrightarrow> g_apps g' = g_apps g \<and> g_active g' = g_active g \<and> g_next_id g' = g_next_id g \<and> g_font g' = g_font g"

lemma same_table_inv: "same_table g g' \<Longrightarrow> gfx_inv g' = gfx_inv g"
  by (simp add: same_table_def gfx_inv_def nos_inv_def active_inv_def)

lemma same_table_trans: "same_table g g' \<Longrightarrow> same_table g' g'' \<Longrightarrow> same_table g g''"
  by (simp add: same_table_def)

lemma on_backend_ok:
  assumes "bk_fb b \<noteq> 0" "cv_ok (bk_canvas b)" "28 \<le> cv_h (bk_canvas b)"
    and "keeps_at (cv_w (bk_canvas b)) (cv_h (bk_canvas b)) r f"
  shows "\<exists>b'. on_backend f b = Done b' \<and> bk_fb b' \<noteq> 0 \<and> cv_ok (bk_canvas b') \<and> 28 \<le> cv_h (bk_canvas b')
     \<and> same_but (rows_from r (bk_canvas b)) (bk_canvas b) (bk_canvas b')"
  using keeps_atD [OF assms(4,2) refl refl] assms by (auto simp: on_backend_def)

lemma render_taskbar_ok:
  assumes "screen_ok g"
  shows "\<exists>g'. render_taskbar g = Done g' \<and> screen_ok g' \<and> same_table g g'"
proof (cases "g_backend g")
  case None
  then show ?thesis using assms by (simp add: render_taskbar_def same_table_def)
next
  case (Some b)
  then have b: "bk_fb b \<noteq> 0" "cv_ok (bk_canvas b)" "28 \<le> cv_h (bk_canvas b)" using assms by (auto simp: screen_ok_def)
  have "keeps_at (cv_w (bk_canvas b)) (cv_h (bk_canvas b)) 0 (taskbar_canvas (g_font g) (g_active g) (g_apps g))"
    using b assms by (intro keeps_taskbar) (auto simp: screen_ok_def cv_ok_def)
  from on_backend_ok [OF b this] show ?thesis using assms Some
    by (auto simp: render_taskbar_def same_table_def screen_ok_def)
qed

lemma flush_gfx_ok: "screen_ok g \<Longrightarrow> screen_ok (flush_gfx g)" "same_table g (flush_gfx g)"
  by (auto simp: screen_ok_def flush_gfx_def flush_backend_def same_table_def)

lemma render_idle_ok:
  assumes "screen_ok g"
  shows "\<exists>g'. render_idle_screen g = Done g' \<and> screen_ok g' \<and> same_table g g'"
proof (cases "g_backend g")
  case None
  then show ?thesis using assms by (simp add: render_idle_screen_def same_table_def)
next
  case (Some b)
  then have b: "bk_fb b \<noteq> 0" "cv_ok (bk_canvas b)" "28 \<le> cv_h (bk_canvas b)" using assms by (auto simp: screen_ok_def)
  have "keeps_at (cv_w (bk_canvas b)) (cv_h (bk_canvas b)) 0 (idle_canvas (g_font g))"
    using assms by (intro keeps_idle) (auto simp: screen_ok_def)
  from on_backend_ok [OF b this] obtain b' where b': "on_backend (idle_canvas (g_font g)) b = Done b'" "bk_fb b' \<noteq> 0"
      "cv_ok (bk_canvas b')" "28 \<le> cv_h (bk_canvas b')" by blast
  have "screen_ok (g\<lparr>g_backend := Some b'\<rparr>)" using b' assms by (simp add: screen_ok_def)
  from render_taskbar_ok [OF this] obtain g1 where g1: "render_taskbar (g\<lparr>g_backend := Some b'\<rparr>) = Done g1" "screen_ok g1"
      "same_table g g1" by (auto simp: same_table_def)
  then show ?thesis using b' Some flush_gfx_ok [of g1] same_table_trans [OF g1(3)] 
    by (auto simp: render_idle_screen_def)
qed

section \<open>The operations keep the invariant\<close>

lemma reap_loop_props:
  assumes "reap_loop alive i act as = (as', act', r)"
  shows "length as' = length as" "\<not> r \<Longrightarrow> as' = as \<and> act' = act"
    "act' = - 1 \<or> act' = act"
    "\<forall>j<length as. ap_used (as' ! j) \<longleftrightarrow> ap_used (as ! j) \<and> alive (ap_pid (as ! j))"
    "\<forall>j<length as. act = int (i + j) \<and> ap_used (as ! j) \<and> \<not> alive (ap_pid (as ! j)) \<longrightarrow> act' = - 1"
proof -
  have "length as' = length as \<and> (\<not> r \<longrightarrow> as' = as \<and> act' = act) \<and> (act' = - 1 \<or> act' = act)
    \<and> (\<forall>j<length as. ap_used (as' ! j) \<longleftrightarrow> ap_used (as ! j) \<and> alive (ap_pid (as ! j)))
    \<and> (\<forall>j<length as. act = int (i + j) \<and> ap_used (as ! j) \<and> \<not> alive (ap_pid (as ! j)) \<longrightarrow> act' = - 1)"
    using assms
  proof (induction as arbitrary: i act as' act' r)
    case (Cons a as)
    have all: "(\<forall>j<length (a # as). P j) \<longleftrightarrow> P 0 \<and> (\<forall>j<length as. P (Suc j))" for P
      by (metis length_Cons less_Suc_eq_0_disj)
    show ?case
    proof (cases "ap_used a \<and> \<not> alive (ap_pid a)")
      case True
      then obtain bs q where bs: "reap_loop alive (i + 1) (if act = int i then - 1 else act) as = (bs, act', q)"
          "as' = a\<lparr>ap_used := False\<rparr> # bs" "r"
        using Cons.prems by (auto split: prod.splits)
      have "\<forall>j<length as. act = int (i + Suc j) \<and> ap_used (as ! j) \<and> \<not> alive (ap_pid (as ! j)) \<longrightarrow> act' = - 1"
        using Cons.IH [OF bs(1)] by (metis (no_types, lifting) add.assoc plus_1_eq_Suc)
      then show ?thesis unfolding all using Cons.IH [OF bs(1)] bs(2,3) True by (auto split: if_splits)
    next
      case False
      then obtain bs where bs: "reap_loop alive (i + 1) act as = (bs, act', r)" "as' = a # bs"
        using Cons.prems by (auto split: prod.splits)
      have "\<forall>j<length as. act = int (i + Suc j) \<and> ap_used (as ! j) \<and> \<not> alive (ap_pid (as ! j)) \<longrightarrow> act' = - 1"
        using Cons.IH [OF bs(1)] by (metis (no_types, lifting) add.assoc plus_1_eq_Suc)
      then show ?thesis unfolding all using Cons.IH [OF bs(1)] bs(2) False by auto
    qed
  qed auto
  then show "length as' = length as" "\<not> r \<Longrightarrow> as' = as \<and> act' = act" "act' = - 1 \<or> act' = act"
    "\<forall>j<length as. ap_used (as' ! j) \<longleftrightarrow> ap_used (as ! j) \<and> alive (ap_pid (as ! j))"
    "\<forall>j<length as. act = int (i + j) \<and> ap_used (as ! j) \<and> \<not> alive (ap_pid (as ! j)) \<longrightarrow> act' = - 1"
    by blast+
qed

lemma reap_loop_alive:
  "\<forall>a\<in>set as. ap_used a \<longrightarrow> alive (ap_pid a) \<Longrightarrow> reap_loop alive i act as = (as, act, False)"
  by (induction as arbitrary: i) auto

lemma loose_if_inv: "gfx_inv g \<Longrightarrow> loose_inv g"
  by (auto simp: gfx_inv_def nos_inv_def active_inv_def loose_inv_def split: if_splits)

lemma reap_ok:
  assumes inv: "gfx_inv g" and ok: "screen_ok g"
  shows "\<exists>g'. reap_dead_processes alive g = Done g' \<and> gfx_inv g' \<and> screen_ok g'"
proof -
  obtain as act r where l: "reap_loop alive 0 (g_active g) (g_apps g) = (as, act, r)" by (metis prod_cases3)
  note L = reap_loop_props [OF l]
  define g1 where "g1 = g\<lparr>g_apps := as, g_active := act\<rparr>"
  have ok1: "screen_ok g1" using ok by (simp add: screen_ok_def g1_def)
  show ?thesis
  proof (cases r)
    case False
    then have "g1 = g" using L(2) by (simp add: g1_def)
    then show ?thesis using False l assms by (simp add: reap_dead_processes_def g1_def [symmetric])
  next
    case True
    have len: "length (g_apps g) = 9" using inv by (simp add: gfx_inv_def nos_inv_def max_registered_apps_def)
    have "loose_inv g1"
    proof -
      have "ap_used (as ! nat act)" if "act \<noteq> - 1"
      proof -
        have a: "act = g_active g" using L(3) that by simp
        then have b: "0 \<le> act" "act < 9" "ap_used (g_apps g ! nat act)"
          using loose_if_inv [OF inv] that by (auto simp: loose_inv_def max_registered_apps_def)
        have "alive (ap_pid (g_apps g ! nat act))"
        proof (rule ccontr)
          assume "\<not> alive (ap_pid (g_apps g ! nat act))"
          then have "g_active g = int (0 + nat act) \<and> ap_used (g_apps g ! nat act) \<and> \<not> alive (ap_pid (g_apps g ! nat act))"
            using a b by simp
          moreover have "nat act < length (g_apps g)" using b len by simp
          ultimately have "act = - 1" using L(5) by blast
          then show False using that by simp
        qed
        then show ?thesis using L(4) b len by simp
      qed
      moreover have "act = - 1 \<or> 0 \<le> act \<and> act < 9"
        using L(3) loose_if_inv [OF inv] by (auto simp: loose_inv_def max_registered_apps_def)
      ultimately show ?thesis using L(1) len by (auto simp: loose_inv_def g1_def max_registered_apps_def)
    qed
    obtain g2 n where s: "settle_apps g1 = (g2, n)" by (metis surj_pair)
    have "gfx_inv g2" "screen_ok g2" using settle_inv [OF \<open>loose_inv g1\<close> s] ok1 by (auto simp: screen_ok_def)
    then show ?thesis using True l s render_idle_ok [of g2] same_table_inv
      by (auto simp: reap_dead_processes_def g1_def [symmetric] Let_def)
  qed
qed

lemma flush_ok:
  assumes "gfx_inv g" "screen_ok g"
  shows "\<exists>g' a. handle_flush alive g = Done (g', a) \<and> gfx_inv g' \<and> screen_ok g'"
proof -
  obtain g1 where g1: "reap_dead_processes alive g = Done g1" "gfx_inv g1" "screen_ok g1" using reap_ok assms by blast
  obtain g2 where g2: "render_taskbar g1 = Done g2" "screen_ok g2" "same_table g1 g2" using render_taskbar_ok g1(3) by blast
  have "gfx_inv (flush_gfx g2)" using same_table_inv g1(2) g2(3) flush_gfx_ok(2) by blast
  then show ?thesis using assms g1 g2 flush_gfx_ok(1) by (simp add: handle_flush_def)
qed

lemma register_ok:
  assumes inv: "gfx_inv g"
  shows "gfx_inv (fst (handle_register_app pid name g))"
proof (cases rule: find_slot_cases [of "\<lambda>a. \<not> ap_used a" 0 "g_apps g"])
  case none
  then show ?thesis using inv by (simp add: handle_register_app_def)
next
  case (some j)
  define n where "n = count_used (g_apps g)"
  define a where "a = \<lparr>ap_used = True, ap_pid = pid, ap_id = g_next_id g, ap_name = take (if length name < 15 then length name else 15) name\<rparr>"
  have len: "length (g_apps g) = 9" and nos: "mset (used_nos (g_apps g)) = mset [1..<Suc n]" and nx: "unat (g_next_id g) = Suc n"
    using inv by (simp_all add: gfx_inv_def nos_inv_def max_registered_apps_def n_def)
  define xs ys where "xs = take j (g_apps g)" and "ys = drop (Suc j) (g_apps g)"
  have as: "g_apps g = xs @ g_apps g ! j # ys" using some(1) by (simp add: xs_def ys_def id_take_nth_drop)
  have as': "(g_apps g)[j := a] = xs @ a # ys" using some(1) by (simp add: xs_def ys_def upd_conv_take_nth_drop)
  have u: "used_nos (g_apps g) = used_nos xs @ used_nos ys"
    by (subst as) (use some(3) in \<open>simp add: used_nos_def\<close>)
  have u': "used_nos ((g_apps g)[j := a]) = used_nos xs @ Suc n # used_nos ys"
    unfolding as' by (simp add: used_nos_def a_def nx)
  have cnt: "count_used (g_apps g) = length (used_nos (g_apps g))" "count_used ((g_apps g)[j := a]) = length (used_nos ((g_apps g)[j := a]))"
    by (simp_all add: count_used_eq used_nos_def)
  have c': "count_used ((g_apps g)[j := a]) = Suc n" using cnt u u' by (simp add: n_def)
  then have "Suc n \<le> 9" using count_used_le [of "(g_apps g)[j := a]"] len by simp
  then have "unat (g_next_id g + 1) = Suc (Suc n)" using nx by (subst unat_word_ariths) simp
  moreover have "mset (used_nos ((g_apps g)[j := a])) = mset [1..<Suc (Suc n)]"
    using nos u u' by simp
  ultimately have "gfx_inv (g\<lparr>g_apps := (g_apps g)[j := a], g_next_id := g_next_id g + 1, g_active := int j\<rparr>)"
    using c' len some(1) by (simp add: gfx_inv_def nos_inv_def active_inv_def max_registered_apps_def a_def)
  then show ?thesis using some(2) by (simp add: handle_register_app_def a_def)
qed

lemma unregister_ok:
  assumes inv: "gfx_inv g" and ok: "screen_ok g"
  shows "\<exists>g' a. handle_unregister_app pid g = Done (g', a) \<and> gfx_inv g' \<and> screen_ok g'"
proof (cases rule: find_slot_cases [of "\<lambda>a. ap_used a \<and> ap_pid a = pid" 0 "g_apps g"])
  case none
  then show ?thesis using assms by (simp add: handle_unregister_app_def find_app_by_pid_def)
next
  case (some j)
  define g1 where "g1 = g\<lparr>g_apps := (g_apps g)[j := (g_apps g ! j)\<lparr>ap_used := False\<rparr>],
      g_active := (if g_active g = int j then - 1 else g_active g)\<rparr>"
  have "loose_inv g1" using loose_if_inv [OF inv] some(1)
    by (auto simp: loose_inv_def g1_def nth_list_update)
  obtain g2 n where s: "settle_apps g1 = (g2, n)" by (metis surj_pair)
  have g2: "gfx_inv g2" "screen_ok g2" using settle_inv [OF \<open>loose_inv g1\<close> s] ok by (auto simp: screen_ok_def g1_def)
  have "find_app_by_pid pid g = int j" using some(2) by (simp add: find_app_by_pid_def)
  then show ?thesis using g2 s render_idle_ok [OF g2(2)] same_table_inv
    by (auto simp: handle_unregister_app_def g1_def [symmetric])
qed

lemma key_ok: "gfx_inv g \<Longrightarrow> gfx_inv (fst (handle_handle_key code flags g))"
proof -
  assume inv: "gfx_inv g"
  have "gfx_inv (g\<lparr>g_active := find_app_by_id n g\<rparr>)" if "0 \<le> find_app_by_id n g" for n
  proof (cases rule: find_slot_cases [of "\<lambda>a. ap_used a \<and> ap_id a = n" 0 "g_apps g"])
    case none
    then show ?thesis using that by (simp add: find_app_by_id_def)
  next
    case (some j)
    have "count_used (g_apps g) \<noteq> 0" using some by (auto simp: count_used_eq filter_empty_conv)
    then show ?thesis using inv some
      by (auto simp: gfx_inv_def nos_inv_def active_inv_def find_app_by_id_def)
  qed
  then show ?thesis using inv by (simp add: handle_handle_key_def Let_def)
qed

section \<open>Any sequence of requests\<close>

text \<open>A request to register a program carries a string.\<close>

definition good_msg :: "gfx_msg \<Rightarrow> bool" where
  "good_msg msg \<longleftrightarrow> (ipc_method (gq_method msg) = m_register_app \<longrightarrow>
     (\<exists>name. run_bind (read_string (mr_new (gq_page msg))) view_bytes = Done name))"

lemma request_ok:
  assumes inv: "gfx_inv g" and ok: "screen_ok g" and msg: "good_msg msg"
  shows "\<exists>g' a. gfx_request alive msg g = Done (g', a) \<and> gfx_inv g' \<and> screen_ok g'"
proof -
  note flush = flush_ok [OF inv ok, of alive] and unreg = unregister_ok [OF inv ok, of "gq_sender msg"]
  have reg: "gfx_inv (fst (handle_register_app p n g))" "screen_ok (fst (handle_register_app p n g))" for p n
    using register_ok [OF inv] ok by (auto simp: handle_register_app_def screen_ok_def Let_def)
  have key: "gfx_inv (fst (handle_handle_key c f g))" "screen_ok (fst (handle_handle_key c f g))" for c f
    using key_ok [OF inv] ok by (auto simp: handle_handle_key_def screen_ok_def Let_def)
  show ?thesis
  proof (cases "ipc_method (gq_method msg) = m_register_app")
    case True
    then obtain name where "run_bind (read_string (mr_new (gq_page msg))) view_bytes = Done name"
      using msg by (auto simp: good_msg_def)
    then show ?thesis using True reg
      by (auto simp: gfx_request_def Let_def answer_of_def m_register_app_def m_get_framebuffer_def m_flush_def)
  next
    case False
    then show ?thesis using flush unreg key inv ok
      by (auto simp: gfx_request_def Let_def answer_of_def split: prod.split) (metis fst_conv)+
  qed
qed

lemma run_ok:
  "gfx_inv g \<Longrightarrow> screen_ok g \<Longrightarrow> \<forall>m\<in>set ms. good_msg (snd m) \<Longrightarrow>
   \<exists>g'. gfx_run ms g = Done g' \<and> gfx_inv g' \<and> screen_ok g'"
proof (induction ms arbitrary: g)
  case (Cons m ms)
  obtain alive msg where m: "m = (alive, msg)" by (cases m)
  obtain g1 a where g1: "gfx_request alive msg g = Done (g1, a)" "gfx_inv g1" "screen_ok g1"
    using request_ok [OF Cons.prems(1,2), of msg alive] Cons.prems(3) by (auto simp: m)
  then show ?case using Cons.IH [OF g1(2,3)] Cons.prems(3) by (simp add: m)
qed simp

section \<open>Who renders\<close>

text \<open>The active program's pid, as the table has it.\<close>

lemma should_render_active:
  assumes "handle_should_render p g = Inr 1"
  shows "0 \<le> g_active g" "ap_pid (g_apps g ! nat (g_active g)) = p"
proof -
  have "find_app_by_pid p g \<ge> 0" "find_app_by_pid p g = g_active g"
    using assms by (auto simp: handle_should_render_def Let_def split: if_splits)
  moreover have "ap_pid (g_apps g ! nat (find_app_by_pid p g)) = p" if "find_app_by_pid p g \<ge> 0"
    using that unfolding find_app_by_pid_def
    by (cases rule: find_slot_cases [of "\<lambda>a. ap_used a \<and> ap_pid a = p" 0 "g_apps g"]) auto
  ultimately show "0 \<le> g_active g" "ap_pid (g_apps g ! nat (g_active g)) = p" by auto
qed

lemma filter_map_inj:
  "distinct (map f (filter P xs)) \<Longrightarrow> i < length xs \<Longrightarrow> j < length xs \<Longrightarrow> P (xs ! i) \<Longrightarrow> P (xs ! j) \<Longrightarrow>
   f (xs ! i) = f (xs ! j) \<Longrightarrow> i = j"
proof (induction xs arbitrary: i j)
  case (Cons x xs)
  have "f x \<noteq> f (xs ! k)" if "P x" "k < length xs" "P (xs ! k)" for k
    using Cons.prems(1) that by (auto simp: image_iff)
  then show ?case using Cons by (cases i; cases j) (auto split: if_splits, metis)
qed simp

lemma active_is_told:
  assumes inv: "gfx_inv g" and some: "filter ap_used (g_apps g) \<noteq> []"
    and dist: "distinct (map ap_pid (filter ap_used (g_apps g)))"
  shows "handle_should_render (ap_pid (g_apps g ! nat (g_active g))) g = Inr 1"
proof -
  define j where "j = nat (g_active g)"
  have "count_used (g_apps g) \<noteq> 0" using some by (simp add: count_used_eq)
  then have j: "g_active g = int j" "j < length (g_apps g)" "ap_used (g_apps g ! j)"
    using inv by (auto simp: gfx_inv_def nos_inv_def active_inv_def j_def)
  have "find_app_by_pid (ap_pid (g_apps g ! j)) g = int j"
  proof (cases rule: find_slot_cases [of "\<lambda>a. ap_used a \<and> ap_pid a = ap_pid (g_apps g ! j)" 0 "g_apps g"])
    case none
    then show ?thesis using j nth_mem [OF j(2)] by blast
  next
    case (some i)
    then have "i = j" using filter_map_inj [OF dist, of i j] j by auto
    then show ?thesis using some by (simp add: find_app_by_pid_def)
  qed
  then show ?thesis using j by (simp add: handle_should_render_def j_def [symmetric])
qed

lemma id_found:
  assumes inv: "gfx_inv g" and k: "1 \<le> k" "k \<le> count_used (g_apps g)"
  shows "\<exists>j<length (g_apps g). find_app_by_id (of_nat k) g = int j \<and> ap_used (g_apps g ! j) \<and> unat (ap_id (g_apps g ! j)) = k"
proof -
  have len: "length (g_apps g) = 9" using inv by (simp add: gfx_inv_def nos_inv_def max_registered_apps_def)
  then have k9: "k \<le> 9" using count_used_le [of "g_apps g"] k by simp
  have "k \<in> set (used_nos (g_apps g))"
    using inv k by (metis gfx_inv_def nos_inv_def set_mset_mset atLeastLessThan_iff less_Suc_eq_le set_upt)
  then obtain a where a: "a \<in> set (g_apps g)" "ap_used a" "unat (ap_id a) = k" by (auto simp: used_nos_def)
  have ka: "ap_id a = of_nat k" by (simp add: a(3) [symmetric])
  have "unat (of_nat k :: 8 word) = k" using k9 by (simp add: unat_of_nat)
  then show ?thesis
    by (cases rule: find_slot_cases [of "\<lambda>a. ap_used a \<and> ap_id a = of_nat k" 0 "g_apps g"])
      (use a ka in \<open>auto simp: find_app_by_id_def\<close>)
qed


definition small_screen :: backend where
  "small_screen = \<lparr>bk_fb = 0x80600000, bk_canvas = \<lparr>cv_px = replicate 60 0, cv_w = 2, cv_h = 30\<rparr>, bk_shown = []\<rparr>"

definition from_pid :: "32 word \<Rightarrow> 32 word \<Rightarrow> gfx_msg" where
  "from_pid p m = \<lparr>gq_sender = p, gq_method = m, gq_arg0 = 0, gq_arg1 = 0, gq_page = [0xa1, 0x61]\<rparr>"

lemma sample_name: "run_bind (read_string (mr_new [0xa1, 0x61])) view_bytes = Done [0x61]"
  by code_simp

lemma from_pid_good: "good_msg (from_pid p m)"
  using sample_name by (auto simp: good_msg_def from_pid_def)


section \<open>What goes wrong\<close>

text \<open>A program that registers twice is never told to render: its first slot is found, its second is active.\<close>

lemma double_registration:
  "let g = fst (handle_register_app 5 n (fst (handle_register_app 5 n (gfx_start None None))))
   in handle_should_render 5 g = Inr 0 \<and> (\<forall>q. handle_should_render q g \<noteq> Inr 1)"
  by (simp add: handle_register_app_def gfx_start_def max_registered_apps_def unused_app_def Let_def
      handle_should_render_def find_app_by_pid_def numeral_eq_Suc)

text \<open>When the active program leaves, the program in the highest slot follows, whenever it was
  registered: a slot below may hold the program registered last.\<close>

lemma renumber_ge: "renumber i n l as = (as', n', l') \<Longrightarrow> l < int i \<Longrightarrow> l \<le> l'"
  by (induction as arbitrary: i n l as') (auto split: if_splits prod.splits, fastforce+)

lemma renumber_highest:
  "renumber i n l as = (as', n', l') \<Longrightarrow> j < length as \<Longrightarrow> ap_used (as ! j) \<Longrightarrow> int (i + j) \<le> l'"
proof (induction as arbitrary: i n l as' j)
  case (Cons a as)
  show ?case
  proof (cases j)
    case 0
    then obtain bs where "renumber (i + 1) (n + 1) (int i) as = (bs, n', l')"
      using Cons.prems by (auto split: prod.splits)
    then show ?thesis using 0 renumber_ge by fastforce
  next
    case (Suc k)
    then show ?thesis using Cons.prems Cons.IH [where j = k] by (auto split: if_splits prod.splits; fastforce)
  qed
qed simp

lemma highest_slot_follows:
  "settle_apps g = (g', l) \<Longrightarrow> g_active g = - 1 \<Longrightarrow> j < length (g_apps g) \<Longrightarrow> ap_used (g_apps g ! j) \<Longrightarrow> int j \<le> g_active g'"
  using renumber_highest [of 0 1 "- 1" "g_apps g" _ _ _ j] by (fastforce simp: settle_apps_def split: prod.splits)

text \<open>Programs that draw and flush only while they are told to render cannot take over from an active
  program that died: the table is looked through for dead programs only on a flush.\<close>

theorem dead_app_keeps_screen:
  assumes "\<forall>(alive, msg)\<in>set ms. ipc_method (gq_method msg) = m_should_render \<and> gq_sender msg \<noteq> ap_pid (g_apps g ! nat (g_active g))"
  shows "gfx_run ms g = Done g \<and> (\<forall>(alive, msg)\<in>set ms. handle_should_render (gq_sender msg) g \<noteq> Inr 1)"
proof
  show "gfx_run ms g = Done g"
    using assms
    by (induction ms) (auto simp: gfx_request_def answer_of_def Let_def m_should_render_def m_get_framebuffer_def
        m_flush_def m_register_app_def)
  show "\<forall>(alive, msg)\<in>set ms. handle_should_render (gq_sender msg) g \<noteq> Inr 1"
    using assms should_render_active(2) by fastforce
qed

section \<open>The rows of the programs\<close>

text \<open>A flush that finds no dead program draws only in the rows of the task bar, so what the programs
  drew above it is what is shown.\<close>

theorem flush_keeps_rows:
  assumes ok: "screen_ok g" and b: "g_backend g = Some b" and alive: "\<forall>a\<in>set (g_apps g). ap_used a \<longrightarrow> alive (ap_pid a)"
    and up: "\<And>f. g_font g = Some f \<Longrightarrow> font_starts f 16 5"
  shows "\<exists>g' b'. handle_flush alive g = Done (g', Inr True) \<and> g_backend g' = Some b' \<and>
     take (nat (cv_w (bk_canvas b) * (cv_h (bk_canvas b) - 28))) (bk_shown b')
       = take (nat (cv_w (bk_canvas b) * (cv_h (bk_canvas b) - 28))) (cv_px (bk_canvas b))"
proof -
  define w h where "w = cv_w (bk_canvas b)" and "h = cv_h (bk_canvas b)"
  have B: "bk_fb b \<noteq> 0" "cv_ok (bk_canvas b)" "28 \<le> h" using ok b by (auto simp: screen_ok_def h_def)
  obtain as act r where l: "reap_loop alive 0 (g_active g) (g_apps g) = (as, act, r)" by (metis prod_cases3)
  have "\<not> r" using l reap_loop_alive [OF alive] by simp
  then have reap: "reap_dead_processes alive g = Done g"
    using reap_loop_props(2) [OF l] l by (simp add: reap_dead_processes_def)
  have "keeps_at w h (h - 28) (taskbar_canvas (g_font g) (g_active g) (g_apps g))"
    using B ok up by (intro keeps_taskbar) (auto simp: screen_ok_def cv_ok_def w_def)
  then obtain b' where b': "on_backend (taskbar_canvas (g_font g) (g_active g) (g_apps g)) b = Done b'"
      "same_but (rows_from (h - 28) (bk_canvas b)) (bk_canvas b) (bk_canvas b')"
    using on_backend_ok [OF B(1,2) B(3) [unfolded h_def], of "h - 28"] by (auto simp: w_def h_def)
  have "take (nat (w * (h - 28))) (cv_px (bk_canvas b')) = take (nat (w * (h - 28))) (cv_px (bk_canvas b))"
  proof (rule nth_equalityI)
    fix i assume "i < length (take (nat (w * (h - 28))) (cv_px (bk_canvas b')))"
    then have i: "int i < w * (h - 28)" "i < length (cv_px (bk_canvas b))" using b'(2) by (auto simp: same_but_def)
    then have "i \<notin> rows_from (h - 28) (bk_canvas b)" by (simp add: rows_from_def w_def mult.commute)
    then show "take (nat (w * (h - 28))) (cv_px (bk_canvas b')) ! i = take (nat (w * (h - 28))) (cv_px (bk_canvas b)) ! i"
      using i b'(2) by (simp add: same_but_def)
  qed (use b'(2) in \<open>simp add: same_but_def\<close>)
  then show ?thesis using b b' reap
    by (auto simp: handle_flush_def render_taskbar_def flush_gfx_def flush_backend_def w_def h_def)
qed

end
