(* ===== verification/Arena.thy ===== *)
theory Arena
  imports Prelude
begin

text \<open>
  Bump allocation: the arena behind glyph rendering (\<open>lib/arena.hpp\<close>, \<open>lib/arena.cpp\<close>) and
  the allocator within a page (\<open>lib/page-allocator.hpp\<close>), with the arithmetic of a 32-bit
  \<open>size_t\<close>; and the frame timing of graphical programs (\<open>lib/frame-manager.cpp\<close>).
\<close>

section \<open>The arena\<close>

record arena =
  ar_base :: "32 word"
  ar_size :: "32 word"
  ar_pos :: "32 word"

definition arena_new :: "32 word \<Rightarrow> 32 word \<Rightarrow> arena" where
  "arena_new base n = \<lparr>ar_base = base, ar_size = n, ar_pos = 0\<rparr>"

text \<open>The address of the block, or none when the arena is exhausted.\<close>

definition arena_alloc :: "32 word \<Rightarrow> 32 word \<Rightarrow> arena \<Rightarrow> arena \<times> 32 word option" where
  "arena_alloc n align a =
     (let aligned_pos = (ar_pos a + align - 1) AND NOT (align - 1);
          new_pos = aligned_pos + n
      in if new_pos \<le> ar_size a then (a\<lparr>ar_pos := new_pos\<rparr>, Some (ar_base a + aligned_pos)) else (a, None))"

text \<open>\<open>sft_arena_alloc\<close> and \<open>sft_arena_alloc_zeroed\<close>: the second zeroes the block in memory.\<close>

definition sft_arena_alloc :: "arena option \<Rightarrow> 32 word \<Rightarrow> arena option \<times> 32 word option" where
  "sft_arena_alloc a n = (case a of None \<Rightarrow> (None, None)
     | Some a \<Rightarrow> (case arena_alloc n 8 a of (a, p) \<Rightarrow> (Some a, p)))"

definition zero_block :: "32 word \<Rightarrow> 32 word \<Rightarrow> (32 word \<Rightarrow> 8 word) \<Rightarrow> 32 word \<Rightarrow> 8 word" where
  "zero_block p n mem x = (if unat (x - p) < unat n then 0 else mem x)"

definition arena_alloc_zeroed ::
  "32 word \<Rightarrow> 32 word \<Rightarrow> arena \<Rightarrow> (32 word \<Rightarrow> 8 word) \<Rightarrow> arena \<times> 32 word option \<times> (32 word \<Rightarrow> 8 word)" where
  "arena_alloc_zeroed n align a mem = (case arena_alloc n align a of (a, p) \<Rightarrow>
     (a, p, case p of None \<Rightarrow> mem | Some p \<Rightarrow> zero_block p n mem))"

definition sft_arena_alloc_zeroed ::
  "arena option \<Rightarrow> 32 word \<Rightarrow> (32 word \<Rightarrow> 8 word) \<Rightarrow> arena option \<times> 32 word option \<times> (32 word \<Rightarrow> 8 word)" where
  "sft_arena_alloc_zeroed a n mem = (case a of None \<Rightarrow> (None, None, mem)
     | Some a \<Rightarrow> (case arena_alloc_zeroed n 8 a mem of (a, p, mem) \<Rightarrow> (Some a, p, mem)))"

definition arena_reset :: "arena \<Rightarrow> arena" where
  "arena_reset a = a\<lparr>ar_pos := 0\<rparr>"

definition arena_remaining :: "arena \<Rightarrow> 32 word" where
  "arena_remaining a = ar_size a - ar_pos a"

text \<open>The arena of the drawing framework: the object is 12 bytes long and stands at the start of
  two pages, the rest is what it hands out.\<close>

definition framework_arena :: "32 word \<Rightarrow> arena" where
  "framework_arena page = arena_new (page + 12) (2 * 4096 - 12)"

text \<open>A sequence of requests, each a size and an alignment, and the blocks they get.\<close>

fun arena_run :: "(32 word \<times> 32 word) list \<Rightarrow> arena \<Rightarrow> arena \<times> (32 word \<times> 32 word) list" where
  "arena_run [] a = (a, [])"
| "arena_run ((n, align) # rs) a = (case arena_alloc n align a of (a, p) \<Rightarrow>
     (case arena_run rs a of (a, bs) \<Rightarrow> (a, case p of None \<Rightarrow> bs | Some p \<Rightarrow> (p, n) # bs)))"

section \<open>Allocation within a page\<close>

record page_alloc =
  pa_paddr :: "32 word"
  pa_vaddr :: "32 word"
  pa_allocated :: "32 word"

definition page_alloc_new :: "32 word \<Rightarrow> 32 word \<Rightarrow> page_alloc" where
  "page_alloc_new p v = \<lparr>pa_paddr = p, pa_vaddr = v, pa_allocated = 0\<rparr>"

text \<open>The physical and the virtual address of the block.\<close>

definition page_alloc_take :: "32 word \<Rightarrow> page_alloc \<Rightarrow> page_alloc \<times> (32 word \<times> 32 word) option" where
  "page_alloc_take n a =
     (if pa_allocated a + n > 4096 then (a, None)
      else (a\<lparr>pa_allocated := pa_allocated a + n\<rparr>, Some (pa_paddr a + pa_allocated a, pa_vaddr a + pa_allocated a)))"

definition page_alloc_remaining :: "page_alloc \<Rightarrow> 32 word" where
  "page_alloc_remaining a = 4096 - pa_allocated a"

definition page_alloc_reset :: "page_alloc \<Rightarrow> page_alloc" where
  "page_alloc_reset a = a\<lparr>pa_allocated := 0\<rparr>"

section \<open>Frame timing\<close>

record frame_manager =
  fm_duration :: "64 word"
  fm_last :: "64 word"
  fm_in_frame :: bool

text \<open>The quotient is taken in \<open>int\<close>; a rate of zero has no defined result.\<close>

definition frame_manager_new :: "int \<Rightarrow> int \<Rightarrow> frame_manager run" where
  "frame_manager_new units_per_second fps =
     (if fps = 0 then Undefined Ub_division
      else Done \<lparr>fm_duration = of_int (if fps < 0 then - (units_per_second div (- fps)) else units_per_second div fps),
                 fm_last = 0, fm_in_frame = False\<rparr>)"

definition begin_frame :: "64 word \<Rightarrow> frame_manager \<Rightarrow> frame_manager \<times> bool" where
  "begin_frame now m =
     (if fm_in_frame m then (m, False)
      else if fm_duration m \<le> now - fm_last m then (m\<lparr>fm_last := now, fm_in_frame := True\<rparr>, True)
      else (m, False))"

definition end_frame :: "frame_manager \<Rightarrow> frame_manager" where
  "end_frame m = m\<lparr>fm_in_frame := False\<rparr>"

text \<open>The loop of a program: the frames begun at a sequence of times.\<close>

fun frames_at :: "64 word list \<Rightarrow> frame_manager \<Rightarrow> 64 word list" where
  "frames_at [] m = []"
| "frames_at (t # ts) m = (case begin_frame t m of (m, go) \<Rightarrow>
     if go then t # frames_at ts (end_frame m) else frames_at ts m)"

section \<open>Blocks do not overlap\<close>

text \<open>Rounding a position up to a power of two.\<close>

lemma align_up:
  assumes "unat p + 2 ^ k \<le> 2 ^ 31" and "k < 31"
  defines "q \<equiv> (p + 2 ^ k - 1) AND NOT ((2 :: 32 word) ^ k - 1)"
  shows "unat p \<le> unat q" "unat q mod 2 ^ k = 0" "unat q < unat p + 2 ^ k"
proof -
  define w where "w = p + 2 ^ k - 1"
  have two: "unat ((2 :: 32 word) ^ k) = 2 ^ k"
  proof -
    have "(2 :: nat) ^ k < 2 ^ 32" using assms(2) by (intro power_strict_increasing) simp_all
    then have "unat (of_nat (2 ^ k) :: 32 word) = 2 ^ k" by (subst unat_of_nat) simp
    then show ?thesis by simp
  qed
  have "w = p + (2 ^ k - 1)" by (simp add: w_def)
  moreover have "unat ((2 :: 32 word) ^ k - 1) = 2 ^ k - 1"
    using two by (subst unat_sub) (simp_all add: word_le_nat_alt)
  moreover have "unat p + (2 ^ k - 1) < 2 ^ 32"
    using assms(1) power_strict_increasing [of 31 32 "2 :: nat"] by simp
  ultimately have w: "unat w = unat p + (2 ^ k - 1)"
    using unat_word_ariths(1) [of p "2 ^ k - 1"] by simp
  have m: "(2 :: 32 word) ^ k - 1 = mask k" by (simp add: mask_eq_exp_minus_1)
  have "w AND NOT (mask k) = push_bit k (drop_bit k w)" by (rule bit_eqI) (auto simp: bit_simps)
  moreover have "push_bit k (drop_bit k w) + take_bit k w = w" by (rule bits_ident)
  ultimately have "q = w - take_bit k w" unfolding q_def w_def [symmetric] m by (metis add_diff_cancel_right')
  moreover have t: "unat (take_bit k w) = unat w mod 2 ^ k"
    using two by (simp add: take_bit_eq_mod unat_mod)
  moreover have "take_bit k w \<le> w" using t by (simp add: word_le_nat_alt)
  ultimately have q: "unat q = unat w div 2 ^ k * 2 ^ k" by (simp add: unat_sub minus_mod_eq_div_mult)
  have "unat w mod 2 ^ k < 2 ^ k" by simp
  moreover have "unat q + unat w mod 2 ^ k = unat w" by (simp only: q div_mult_mod_eq)
  ultimately show "unat p \<le> unat q" "unat q < unat p + 2 ^ k" using w by (simp_all, linarith+)
  show "unat q mod 2 ^ k = 0" by (simp add: q)
qed

lemma arena_alloc_block:
  assumes a: "ar_pos a \<le> ar_size a" "unat (ar_size a) < 2 ^ 30" and al: "al = 2 ^ k" "k \<le> 29" and n: "unat n < 2 ^ 31"
    and alloc: "arena_alloc n al a = (a', Some p)"
  shows "\<exists>off. p = ar_base a + off \<and> unat (ar_pos a) \<le> unat off \<and> unat off mod 2 ^ k = 0 \<and> unat (ar_pos a') = unat off + unat n
     \<and> a' = a\<lparr>ar_pos := ar_pos a'\<rparr> \<and> ar_pos a' \<le> ar_size a'"
proof -
  define off where "off = (ar_pos a + al - 1) AND NOT (al - 1)"
  have "unat (ar_pos a) \<le> unat (ar_size a)" using a(1) by (simp add: word_le_nat_alt)
  moreover have "(2 :: nat) ^ k \<le> 2 ^ 29" using al(2) by (rule power_increasing) simp
  ultimately have "unat (ar_pos a) + 2 ^ k \<le> 2 ^ 31" using a(2) by simp
  note u = align_up [OF this, folded al(1)]
  have off: "unat (ar_pos a) \<le> unat off" "unat off mod 2 ^ k = 0" "unat off < unat (ar_pos a) + 2 ^ k"
    using u al(2) by (simp_all add: off_def)
  have "unat off + unat n < 2 ^ 32"
    using off(3) n a(2) \<open>unat (ar_pos a) \<le> unat (ar_size a)\<close> \<open>(2 :: nat) ^ k \<le> 2 ^ 29\<close> by simp
  then have "unat (off + n) = unat off + unat n" by (subst unat_word_ariths) simp
  then show ?thesis using alloc off
    by (intro exI [of _ off]) (auto simp: arena_alloc_def Let_def off_def [symmetric] split: if_splits)
qed

text \<open>Where the blocks of a run lie: in order, apart from each other, within the arena.\<close>

fun blocks_from :: "nat \<Rightarrow> 32 word \<Rightarrow> (32 word \<times> 32 word) list \<Rightarrow> bool" where
  "blocks_from lo base [] \<longleftrightarrow> True"
| "blocks_from lo base ((p, n) # bs) \<longleftrightarrow> lo \<le> unat (p - base) \<and> blocks_from (unat (p - base) + unat n) base bs"

lemma blocks_from_mono: "blocks_from lo base bs \<Longrightarrow> l \<le> lo \<Longrightarrow> blocks_from l base bs"
  by (cases "(l, base, bs)" rule: blocks_from.cases) auto

definition good_requests :: "(32 word \<times> 32 word) list \<Rightarrow> bool" where
  "good_requests rs \<longleftrightarrow> (\<forall>(n, al)\<in>set rs. unat n < 2 ^ 31 \<and> (\<exists>k \<le> 29. al = 2 ^ k))"

lemma arena_run_blocks:
  "ar_pos a \<le> ar_size a \<Longrightarrow> unat (ar_size a) < 2 ^ 30 \<Longrightarrow> good_requests rs \<Longrightarrow> arena_run rs a = (a', bs) \<Longrightarrow>
   blocks_from (unat (ar_pos a)) (ar_base a) bs \<and> (\<forall>(p, n)\<in>set bs. unat (p - ar_base a) + unat n \<le> unat (ar_size a))"
proof (induction rs arbitrary: a a' bs)
  case (Cons r rs)
  obtain n al where r: "r = (n, al)" by (cases r)
  obtain k where n: "unat n < 2 ^ 31" and al: "al = 2 ^ k" "k \<le> 29" and rs: "good_requests rs"
    using Cons.prems(3) by (auto simp: good_requests_def r)
  obtain a1 q where a1: "arena_alloc n al a = (a1, q)" by (cases "arena_alloc n al a")
  obtain b2 bs2 where run: "arena_run rs a1 = (b2, bs2)" by (cases "arena_run rs a1")
  show ?case
  proof (cases q)
    case None
    then have "a1 = a" using a1 by (auto simp: arena_alloc_def Let_def split: if_splits)
    then show ?thesis using Cons.IH [OF _ _ rs run] Cons.prems a1 run None by (simp add: r)
  next
    case (Some p)
    obtain off where off: "p = ar_base a + off" "unat (ar_pos a) \<le> unat off" "unat (ar_pos a1) = unat off + unat n"
        "a1 = a\<lparr>ar_pos := ar_pos a1\<rparr>" "ar_pos a1 \<le> ar_size a1"
      using arena_alloc_block [OF Cons.prems(1,2) al n a1 [unfolded Some]] by blast
    have same: "ar_base a1 = ar_base a" "ar_size a1 = ar_size a" using off(4) by (metis arena.select_convs(1,2) arena.surjective arena.update_convs(3))+
    have "blocks_from (unat (ar_pos a1)) (ar_base a) bs2 \<and> (\<forall>(p, n)\<in>set bs2. unat (p - ar_base a) + unat n \<le> unat (ar_size a))"
      using Cons.IH [OF off(5) _ rs run] Cons.prems(2) same by simp
    moreover have "unat off + unat n \<le> unat (ar_size a)" using off(3,5) same by (simp add: word_le_nat_alt)
    moreover have "bs = (p, n) # bs2" using Cons.prems(4) a1 run Some by (simp add: r)
    ultimately show ?thesis using off by simp
  qed
qed simp

lemma blocks_from_disjoint:
  "blocks_from lo base bs \<Longrightarrow> i < j \<Longrightarrow> j < length bs \<Longrightarrow>
   unat (fst (bs ! i) - base) + unat (snd (bs ! i)) \<le> unat (fst (bs ! j) - base)"
proof (induction bs arbitrary: lo i j)
  case (Cons b bs)
  obtain p n where b: "b = (p, n)" by (cases b)
  have first: "lo' \<le> unat (fst (bs ! k) - base)" if "blocks_from lo' base bs" "k < length bs" for lo' k
    using that
  proof (induction bs arbitrary: lo' k)
    case (Cons c cs)
    obtain p n where c: "c = (p, n)" by (cases c)
    show ?case using Cons.prems Cons.IH [of "unat (p - base) + unat n"] by (cases k) (auto simp: c dest: add_leD1 intro: le_trans [OF _ add_leD1])
  qed simp
  show ?case
  proof (cases i)
    case 0
    then show ?thesis using Cons.prems first [of "unat (p - base) + unat n" "j - 1"] by (cases j) (auto simp: b)
  next
    case (Suc i')
    then show ?thesis using Cons.prems Cons.IH [of "unat (p - base) + unat n" i' "j - 1"] by (cases j) (auto simp: b)
  qed
qed simp



text \<open>A size close to the end of the address space wraps: it is granted, and the position moves back.\<close>

lemma arena_wraps:
  "arena_alloc 0xFFFFFFF8 8 \<lparr>ar_base = 0x1000, ar_size = 64, ar_pos = 16\<rparr>
     = (\<lparr>ar_base = 0x1000, ar_size = 64, ar_pos = 8\<rparr>, Some 0x1010)"
  by (simp add: arena_alloc_def)

text \<open>The arena of the framework does not start at a multiple of 8, so its blocks are not aligned to 8.\<close>

lemma framework_arena_unaligned:
  "snd (arena_alloc 4 8 (framework_arena 0x80001000)) = Some 0x8000100c" "unat (0x8000100c :: 32 word) mod 8 = 4"
  by (simp_all add: arena_alloc_def framework_arena_def arena_new_def)

lemma page_alloc_block:
  assumes "pa_allocated a \<le> 4096" and "unat n < 2 ^ 31" and "page_alloc_take n a = (a', Some (p, v))"
  shows "p = pa_paddr a + pa_allocated a" "v = pa_vaddr a + pa_allocated a"
    "unat (pa_allocated a) + unat n \<le> 4096" "unat (pa_allocated a') = unat (pa_allocated a) + unat n"
proof -
  have "unat (pa_allocated a) \<le> 4096" using assms(1) by (simp add: word_le_nat_alt)
  then have s: "unat (pa_allocated a + n) = unat (pa_allocated a) + unat n"
    using assms(2) by (subst unat_word_ariths) simp
  show "p = pa_paddr a + pa_allocated a" "v = pa_vaddr a + pa_allocated a"
    "unat (pa_allocated a') = unat (pa_allocated a) + unat n"
    using assms(3) s by (auto simp: page_alloc_take_def split: if_splits)
  show "unat (pa_allocated a) + unat n \<le> 4096"
    using assms(3) s by (auto simp: page_alloc_take_def word_le_nat_alt not_less split: if_splits)
qed

section \<open>Frames\<close>

text \<open>Successive frames are at least the duration of a frame apart.\<close>

lemma frames_spaced:
  "\<not> fm_in_frame m \<Longrightarrow> frames_at ts m = u # us \<Longrightarrow> fm_duration m \<le> u - fm_last m"
proof (induction ts arbitrary: m)
  case (Cons t ts)
  show ?case
  proof (cases "fm_duration m \<le> t - fm_last m")
    case True
    then show ?thesis using Cons.prems by (simp add: begin_frame_def)
  next
    case False
    then show ?thesis using Cons.prems Cons.IH [of m] by (simp add: begin_frame_def)
  qed
qed simp

theorem frames_apart:
  "\<not> fm_in_frame m \<Longrightarrow> i + 1 < length (frames_at ts m) \<Longrightarrow>
   fm_duration m \<le> frames_at ts m ! (i + 1) - frames_at ts m ! i"
proof (induction ts arbitrary: m i)
  case (Cons t ts)
  show ?case
  proof (cases "fm_duration m \<le> t - fm_last m")
    case True
    define m' where "m' = m\<lparr>fm_last := t, fm_in_frame := False\<rparr>"
    have f: "frames_at (t # ts) m = t # frames_at ts m'"
      using True Cons.prems(1) by (simp add: begin_frame_def end_frame_def m'_def)
    show ?thesis
    proof (cases i)
      case 0
      then obtain u us where "frames_at ts m' = u # us" using Cons.prems(2) f by (cases "frames_at ts m'") auto
      then show ?thesis using frames_spaced [of m' ts u us] 0 f by (simp add: m'_def)
    next
      case (Suc j)
      then show ?thesis using Cons.IH [of m' j] Cons.prems(2) f by (simp add: m'_def)
    qed
  next
    case False
    then show ?thesis using Cons.IH [of m i] Cons.prems by (simp add: begin_frame_def)
  qed
qed simp

end
