(* ===== verification/Shell.thy ===== *)
theory Shell
  imports FileClient TclInterp
begin

text \<open>
  The commands of the shells (\<open>user/prog/shell/commands.cpp\<close>) as commands of the Tcl
  interpreter, the text shell's line editor (\<open>user/prog/shell/textshell.cpp\<close>) and the names
  of error codes (\<open>lib/error-codes.hpp\<close>). The files go through the file class and the file
  system service; the other system calls are parameters. \<open>dofile\<close>, which evaluates a script
  from within a command, is left out.
\<close>

section \<open>Names of error codes\<close>

definition error_code_to_string :: "int \<Rightarrow> string" where
  "error_code_to_string n = (case map_of
     [(0, ''none''), (1, ''kernel.invariant-violation''), (2, ''ipc.pid-not-found''), (3, ''ipc.method-not-known''),
      (4, ''ipc.method-not-implemented''), (5, ''ipc.queue-full''), (6, ''virtio.device-not-found''),
      (7, ''virtio.setup-fail''), (8, ''disk.out-of-bounds''), (9, ''disk.io-error''), (10, ''disk.device-error''),
      (11, ''app.font-not-loaded''), (12, ''app.font-load-failed''), (13, ''app.glyph-lookup-failed''),
      (14, ''app.glyph-metrics-failed''), (15, ''app.glyph-render-failed''), (16, ''app.memory-alloc-failed''),
      (100, ''fibonacci.invalid-input''), (101, ''graphics.not-initialized''), (102, ''graphics.too-many-apps''),
      (103, ''graphics.not-registered''), (104, ''filesystem.file-not-found''), (105, ''filesystem.path-too-long''),
      (106, ''filesystem.too-many-open-files''), (107, ''filesystem.invalid-handle''), (108, ''filesystem.io-error''),
      (109, ''filesystem.already-exists''), (110, ''filesystem.parent-not-found''), (111, ''filesystem.dir-not-found''),
      (112, ''filesystem.not-empty''), (113, ''keyboard.not-initialized'')] n of
     Some s \<Rightarrow> s | None \<Rightarrow> ''unknown-error-code'')"

fun code_of :: "ipc_error \<Rightarrow> int" where
  "code_of Err_pid_not_found = 2"
| "code_of Err_method_not_known = 3"
| "code_of (Err_fs Fs_file_not_found) = 104"
| "code_of (Err_fs Fs_path_too_long) = 105"
| "code_of (Err_fs Fs_too_many_open_files) = 106"
| "code_of (Err_fs Fs_invalid_handle) = 107"
| "code_of (Err_fs Fs_io_error) = 108"
| "code_of (Err_fs Fs_already_exists) = 109"
| "code_of (Err_fs Fs_parent_not_found) = 110"
| "code_of (Err_fs Fs_dir_not_found) = 111"
| "code_of (Err_fs Fs_not_empty) = 112"

section \<open>The world of a shell\<close>

text \<open>The system calls a shell command makes, on a state of the kernel; pid 0 is no process.\<close>

record 'k kernel_calls =
  kc_lookup :: "string \<Rightarrow> 'k \<Rightarrow> nat"
  kc_alive :: "int \<Rightarrow> 'k \<Rightarrow> bool"
  kc_spawn :: "string list \<Rightarrow> 'k \<Rightarrow> 'k \<times> nat"
  kc_send :: "int \<Rightarrow> int \<Rightarrow> int \<Rightarrow> int \<times> int \<times> int \<Rightarrow> 'k \<Rightarrow> 'k \<times> int \<times> int \<times> int \<times> int"
  kc_yield :: "'k \<Rightarrow> 'k"
  kc_shutdown :: "'k \<Rightarrow> 'k"

record 'k shell =
  sh_link :: link
  sh_kernel :: 'k
  sh_running :: bool

type_synonym 's cmd_result = "('s \<times> string option \<times> status) run"
type_synonym 'k shell_result = "'k shell cmd_result"

text \<open>A message is formatted into a page and taken over as a C string.\<close>

definition sh_err :: "'s \<Rightarrow> string \<Rightarrow> 's cmd_result" where
  "sh_err s msg = Done (s, Some (cstr (take 4095 msg)), S_ERR)"

definition sh_ok :: "'s \<Rightarrow> string \<Rightarrow> 's cmd_result" where
  "sh_ok s r = Done (s, Some r, S_OK)"

definition sh_arity :: "'s \<Rightarrow> string \<Rightarrow> string list \<Rightarrow> nat \<Rightarrow> nat \<Rightarrow> 's cmd_result \<Rightarrow> 's cmd_result" where
  "sh_arity s name argv mn mx rest =
     (if mn = mx \<and> length argv \<noteq> mn
      then sh_err s (''wrong number of args for '' @ name @ '' (expected '' @ dec_nat mn @ '')'')
      else if length argv < mn \<or> length argv > mx
      then sh_err s (''['' @ name @ '']: wrong number of args (expected '' @ dec_nat mn @ '' to '' @ dec_nat mx @ '')'')
      else rest)"

text \<open>An argument checked to be an integer and read with \<open>atoi\<close>.\<close>

definition sh_int :: "'s \<Rightarrow> string \<Rightarrow> string list \<Rightarrow> nat \<Rightarrow> (int \<Rightarrow> 's cmd_result) \<Rightarrow> 's cmd_result" where
  "sh_int s name argv idx rest =
     (if int_chars (argv ! idx) then run_bind (atoi (argv ! idx)) rest
      else sh_err s (''['' @ name @ '']: argument '' @ dec_nat idx @ '' is not an integer''))"

text \<open>The optional argument \<open>idx\<close>, 0 when it is not there.\<close>

definition sh_opt_int :: "'s \<Rightarrow> string \<Rightarrow> string list \<Rightarrow> nat \<Rightarrow> (int \<Rightarrow> 's cmd_result) \<Rightarrow> 's cmd_result" where
  "sh_opt_int s name argv idx rest = (if length argv > idx then sh_int s name argv idx rest else rest 0)"

section \<open>Processes\<close>

definition cmd_proc_lookup :: "'k kernel_calls \<Rightarrow> 'k shell \<Rightarrow> string list \<Rightarrow> 'k shell_result" where
  "cmd_proc_lookup kc s argv =
     (if length argv \<noteq> 2 then sh_err s ''arity check failed''
      else let pid = kc_lookup kc (cstr (argv ! 1)) (sh_kernel s)
           in if pid = 0 then sh_err s ''proc not found'' else sh_ok s (dec_nat pid))"

definition cmd_ipc_send :: "'k kernel_calls \<Rightarrow> 'k shell \<Rightarrow> string list \<Rightarrow> 'k shell_result" where
  "cmd_ipc_send kc s argv =
     sh_arity s ''ipc/send'' argv 3 7
       (sh_int s ''ipc/send'' argv 1 (\<lambda>pid. sh_int s ''ipc/send'' argv 2 (\<lambda>m.
        sh_opt_int s ''ipc/send'' argv 3 (\<lambda>flags. sh_opt_int s ''ipc/send'' argv 4 (\<lambda>a0.
        sh_opt_int s ''ipc/send'' argv 5 (\<lambda>a1. sh_opt_int s ''ipc/send'' argv 6 (\<lambda>a2.
        case kc_send kc pid flags m (a0, a1, a2) (sh_kernel s) of (k, e, v0, v1, v2) \<Rightarrow>
          sh_ok (s\<lparr>sh_kernel := k\<rparr>) (dec_int e @ '' '' @ dec_int v0 @ '' '' @ dec_int v1 @ '' '' @ dec_int v2))))))))"

definition cmd_error_string :: "'k shell \<Rightarrow> string list \<Rightarrow> 'k shell_result" where
  "cmd_error_string s argv = sh_arity s ''error/string'' argv 2 2
     (sh_int s ''error/string'' argv 1 (\<lambda>n. sh_ok s (error_code_to_string n)))"

definition cmd_yield :: "'k kernel_calls \<Rightarrow> 'k shell \<Rightarrow> string list \<Rightarrow> 'k shell_result" where
  "cmd_yield kc s argv = Done (s\<lparr>sh_kernel := kc_yield kc (sh_kernel s)\<rparr>, None, S_OK)"

definition cmd_length :: "'k shell \<Rightarrow> string list \<Rightarrow> 'k shell_result" where
  "cmd_length s argv = sh_arity s ''length'' argv 2 2 (sh_ok s (dec_nat (length (argv ! 1))))"

definition cmd_proc_is_alive :: "'k kernel_calls \<Rightarrow> 'k shell \<Rightarrow> string list \<Rightarrow> 'k shell_result" where
  "cmd_proc_is_alive kc s argv = sh_arity s ''proc/is-alive'' argv 2 2
     (sh_int s ''proc/is-alive'' argv 1 (\<lambda>pid. sh_ok s (if kc_alive kc pid (sh_kernel s) then ''1'' else ''0'')))"

definition max_spawn_args :: nat where "max_spawn_args = 32"

definition cmd_run :: "'k kernel_calls \<Rightarrow> 'k shell \<Rightarrow> string list \<Rightarrow> 'k shell_result" where
  "cmd_run kc s argv = sh_arity s ''run'' argv 2 (max_spawn_args + 2)
     (case kc_spawn kc (map cstr (take max_spawn_args (tl argv))) (sh_kernel s) of (k, pid) \<Rightarrow>
        let s = s\<lparr>sh_kernel := k\<rparr> in
        if pid = 0 then sh_err s (''run: failed to spawn '' @ [CHR 0x27] @ cstr (argv ! 1) @ [CHR 0x27]
                                   @ '' (unknown program or process limit)'')
        else sh_ok s (dec_nat pid))"

definition cmd_quit :: "'k shell \<Rightarrow> string list \<Rightarrow> 'k shell_result" where
  "cmd_quit s argv = Done (s\<lparr>sh_running := False\<rparr>, None, S_OK)"

definition cmd_shutdown :: "'k kernel_calls \<Rightarrow> 'k shell \<Rightarrow> string list \<Rightarrow> 'k shell_result" where
  "cmd_shutdown kc s argv = Done (s\<lparr>sh_kernel := kc_shutdown kc (sh_kernel s)\<rparr>, None, S_OK)"

section \<open>Files\<close>

definition fs_found :: "'k kernel_calls \<Rightarrow> 'k shell \<Rightarrow> bool" where
  "fs_found kc s \<longleftrightarrow> kc_lookup kc ''filesystem'' (sh_kernel s) \<noteq> 0"

text \<open>\<open><cmd>: failed to <do> file '<name>': <error>\<close>.\<close>

definition file_message :: "string \<Rightarrow> string \<Rightarrow> string \<Rightarrow> ipc_error \<Rightarrow> string" where
  "file_message name verb path e =
     name @ '': failed to '' @ verb @ '' file '' @ [CHR 0x27] @ cstr path @ [CHR 0x27] @ '': '' @ error_code_to_string (code_of e)"

definition cmd_fs_read :: "'k kernel_calls \<Rightarrow> nat \<Rightarrow> 'k shell \<Rightarrow> string list \<Rightarrow> 'k shell_result" where
  "cmd_fs_read kc fuel s argv = sh_arity s ''fs/read'' argv 2 2
     (run_bind (file_open (fs_found kc s) (file_new (cstr (argv ! 1)) M_read) (sh_link s)) (\<lambda>(l, f, e).
      case e of
        Some e \<Rightarrow> run_bind (file_delete f l) (\<lambda>(l, _). sh_err (s\<lparr>sh_link := l\<rparr>) (file_message ''fs/read'' ''open'' (argv ! 1) e))
      | None \<Rightarrow> run_bind (file_read_all fuel f l) (\<lambda>(l, bs, e). run_bind (file_delete f l) (\<lambda>(l, _).
          case e of
            Some e \<Rightarrow> sh_err (s\<lparr>sh_link := l\<rparr>) (file_message ''fs/read'' ''read'' (argv ! 1) e)
          | None \<Rightarrow> sh_ok (s\<lparr>sh_link := l\<rparr>) (map char_of_byte bs)))))"

definition cmd_fs_write :: "'k kernel_calls \<Rightarrow> 'k shell \<Rightarrow> string list \<Rightarrow> 'k shell_result" where
  "cmd_fs_write kc s argv = sh_arity s ''fs/write'' argv 3 3
     (run_bind (file_open (fs_found kc s) (file_new (cstr (argv ! 1)) M_write) (sh_link s)) (\<lambda>(l, f, e).
      case e of
        Some e \<Rightarrow> run_bind (file_delete f l) (\<lambda>(l, _). sh_err (s\<lparr>sh_link := l\<rparr>) (file_message ''fs/write'' ''open'' (argv ! 1) e))
      | None \<Rightarrow> run_bind (file_write_all f (bytes_of (argv ! 2)) l) (\<lambda>(l, e). run_bind (file_delete f l) (\<lambda>(l, _).
          case e of
            Some e \<Rightarrow> sh_err (s\<lparr>sh_link := l\<rparr>) (file_message ''fs/write'' ''write'' (argv ! 1) e)
          | None \<Rightarrow> Done (s\<lparr>sh_link := l\<rparr>, None, S_OK)))))"

definition cmd_fs_create :: "'k kernel_calls \<Rightarrow> 'k shell \<Rightarrow> string list \<Rightarrow> 'k shell_result" where
  "cmd_fs_create kc s argv = sh_arity s ''fs/create'' argv 2 2
     (if \<not> fs_found kc s then sh_err s ''fs/create: filesystem server not found''
      else run_bind (client_create_file (argv ! 1) (sh_link s)) (\<lambda>(l, r). case r of
          Inl e \<Rightarrow> sh_err (s\<lparr>sh_link := l\<rparr>) (file_message ''fs/create'' ''create'' (argv ! 1) e)
        | Inr _ \<Rightarrow> Done (s\<lparr>sh_link := l\<rparr>, None, S_OK)))"

text \<open>The entries of an answer; one that cannot be read leaves an empty view.\<close>

fun read_entries :: "nat \<Rightarrow> mpack_reader \<Rightarrow> string list run" where
  "read_entries 0 r = Done []"
| "read_entries (Suc n) r = run_bind (read_string r) (\<lambda>(r, v).
     run_bind (view_bytes (r, v)) (\<lambda>bs. run_bind (read_entries n r) (\<lambda>xs. Done (map char_of_byte bs # xs))))"

text \<open>The count is not initialised when the array cannot be entered.\<close>

definition cmd_dir_ls :: "'k kernel_calls \<Rightarrow> 'k shell \<Rightarrow> string list \<Rightarrow> 'k shell_result" where
  "cmd_dir_ls kc s argv = sh_arity s ''fs/ls-dir'' argv 1 2
     (if \<not> fs_found kc s then sh_err s ''dir/ls: filesystem server not found''
      else run_bind (client_list_dir (if length argv > 1 then cstr (argv ! 1) else ''/'') (sh_link s)) (\<lambda>(l, r).
        let s = s\<lparr>sh_link := l\<rparr> in case r of
          Inl e \<Rightarrow> sh_err s (''dir/ls: '' @ error_code_to_string (code_of e))
        | Inr _ \<Rightarrow> run_bind (enter_array (mr_new (l_client_page l))) (\<lambda>(r, n). case n of
            None \<Rightarrow> Undefined Ub_index
          | Some n \<Rightarrow> run_bind (read_entries n r) (\<lambda>xs. sh_ok s (list_format xs)))))"

section \<open>The table of commands\<close>

definition shell_commands :: "(string \<times> func \<times> string) list" where
  "shell_commands =
    [(''proc/lookup'', F_ext 0, ''[proc/lookup name:string] => pid:int - Lookup a procedure'' @ [CHR 0x27] @ ''s PID''),
     (''proc/is-alive'', F_ext 1, ''[proc/is-alive pid:int] => bool - Check if a process is alive (1=alive, 0=dead)''),
     (''ipc/send'', F_ext 2, ''[ipc/send pid:int method:int flags?:int arg1?:int arg2?:int arg3?:int] => list - Send IPC ''
        @ ''message and return response (error_code val1 val2 val3)''),
     (''error/string'', F_ext 3, ''[error/string code:int] => string - Convert error code to string''),
     (''length'', F_ext 4, ''[length str:string] => int - Return the length of a string''),
     (''ot_yield'', F_ext 5, ''[ot_yield] - Yields to the OS scheduler''),
     (''fs/read'', F_ext 6, ''[fs/read filename:string] => string - Read entire file into a string''),
     (''fs/write'', F_ext 7, ''[fs/write filename:string content:string] => nil - Write string to a file''),
     (''fs/create'', F_ext 8, ''[fs/create filename:string] => nil - Create a new empty file''),
     (''fs/ls-dir'', F_ext 10, ''[fs/ls-dir path?] => list - List directory contents (dirs have trailing /)''),
     (''run'', F_ext 11, ''[run program:string args...] => pid:int - Spawn a new process and return its PID''),
     (''quit'', F_ext 12, ''[quit] - Quit the shell''),
     (''shutdown'', F_ext 13, ''[shutdown] - Shutdown all processes and exit the kernel'')]"

definition shell_command :: "'k kernel_calls \<Rightarrow> nat \<Rightarrow> nat \<Rightarrow> 'k shell \<Rightarrow> string list \<Rightarrow> 'k shell_result" where
  "shell_command kc fuel k s argv =
     (if k = 0 then cmd_proc_lookup kc s argv
      else if k = 1 then cmd_proc_is_alive kc s argv
      else if k = 2 then cmd_ipc_send kc s argv
      else if k = 3 then cmd_error_string s argv
      else if k = 4 then cmd_length s argv
      else if k = 5 then cmd_yield kc s argv
      else if k = 6 then cmd_fs_read kc fuel s argv
      else if k = 7 then cmd_fs_write kc s argv
      else if k = 8 then cmd_fs_create kc s argv
      else if k = 10 then cmd_dir_ls kc s argv
      else if k = 11 then cmd_run kc s argv
      else if k = 12 then cmd_quit s argv
      else if k = 13 then cmd_shutdown kc s argv
      else Undefined Ub_command)"

definition shell_env :: "bool \<Rightarrow> 'k kernel_calls \<Rightarrow> nat \<Rightarrow> 'k shell env" where
  "shell_env sc kc fuel = \<lparr>env_signed = sc, env_command = shell_command kc fuel\<rparr>"

definition register_shell_commands :: "'e env \<Rightarrow> 'e interp \<Rightarrow> 'e interp run" where
  "register_shell_commands env = register_all env shell_commands"

section \<open>The line of the text shell\<close>

text \<open>\<open>buffer\<close> up to \<open>buffer_i\<close>; a full buffer starts over. \<open>ev\<close> evaluates a line.\<close>

definition text_key :: "(string \<Rightarrow> 's \<Rightarrow> 's run) \<Rightarrow> char \<Rightarrow> string \<times> 's \<Rightarrow> (string \<times> 's) run" where
  "text_key ev c bs = (case bs of (buf, s) \<Rightarrow>
     let n = (of_char c :: nat);
         buf = (if 32 \<le> n \<and> n \<le> 126 then (let b = buf @ [c] in if length b = 4096 then [] else b) else buf)
     in if n = 13 then run_bind (ev buf s) (\<lambda>s. Done ([], s))
        else if (n = 8 \<or> n = 127) \<and> buf \<noteq> [] then Done (butlast buf, s)
        else Done (buf, s))"

fun text_keys :: "(string \<Rightarrow> 's \<Rightarrow> 's run) \<Rightarrow> string \<Rightarrow> string \<times> 's \<Rightarrow> (string \<times> 's) run" where
  "text_keys ev [] bs = Done bs"
| "text_keys ev (c # cs) bs = run_bind (text_key ev c bs) (text_keys ev cs)"

end
