(* ===== verification/ShellProps.thy ===== *)
theory ShellProps
  imports Shell FileProps TclProps
begin

text \<open>
  The commands of the shell at work: a script that writes a file and one that reads it, through
  tokenizer, interpreter, file class, message encoding and the file system server.
\<close>

section \<open>A shell\<close>

definition shell_interp :: "'k shell env \<Rightarrow> 'k shell \<Rightarrow> 'k shell interp run" where
  "shell_interp env s = run_bind (register_core_commands env (interp_with s)) (register_shell_commands env)"

lemma shell_registered:
  "\<exists>i. shell_interp env s = Done i \<and> i_ext i = s \<and> (\<forall>e\<in>set shell_commands. get_command env i (fst e) = Some (cmd_of e))"
proof -
  have "distinct (map fst (core_commands @ shell_commands))" "length core_commands + length shell_commands \<le> hm_limit"
    by (simp_all add: core_commands_def shell_commands_def hm_limit_def)
  from extension_registered [OF this, of env s] show ?thesis
    by (auto simp: shell_interp_def register_shell_commands_def run_bind_Done_iff)
qed

lemma shell_lookup:
  assumes "\<forall>e\<in>set shell_commands. get_command env i (fst e) = Some (cmd_of e)"
  shows "get_command env i ''fs/write'' = Some (cmd_of (''fs/write'', F_ext 7, ''[fs/write filename:string content:string] => nil - Write string to a file''))"
    and "get_command env i ''fs/read'' = Some (cmd_of (''fs/read'', F_ext 6, ''[fs/read filename:string] => string - Read entire file into a string''))"
  using assms by (simp_all add: shell_commands_def)

section \<open>Writing and reading\<close>

lemma cmd_fs_write_run:
  assumes "server_ready (l_fs (sh_link s))" and p: "path_ok path" and "length text < size_mod"
    and "fs_abs (l_fs (sh_link s)) (butlast (split_path path)) = Some E_dir" "fs_abs (l_fs (sh_link s)) (split_path path) \<noteq> Some E_dir"
    and found: "fs_found kc s"
  shows "\<exists>l. cmd_fs_write kc s [name, path, text] = Done (s\<lparr>sh_link := l\<rparr>, None, S_OK) \<and>
    fs_abs (l_fs l) = (fs_abs (l_fs (sh_link s)))(split_path path \<mapsto> E_file (bytes_of text)) \<and>
    fs_inv (l_fs l) \<and> handles_ok (l_fs l) \<and> handle_free (l_fs l) \<and> fs_next_handle (l_fs l) = fs_next_handle (l_fs (sh_link s)) + 1"
proof -
  have c: "cstr path = path" using p by (simp add: path_ok_def)
  have "length (bytes_of text) < size_mod" using assms(3) by (simp add: bytes_of_def)
  from file_save_run [OF assms(1,2) this assms(4,5)] obtain l where l:
      "file_save path (bytes_of text) (sh_link s) = Done (l, None, None)"
      "fs_abs (l_fs l) = (fs_abs (l_fs (sh_link s)))(split_path path \<mapsto> E_file (bytes_of text))"
      "fs_inv (l_fs l)" "handles_ok (l_fs l)" "handle_free (l_fs l)" "fs_next_handle (l_fs l) = fs_next_handle (l_fs (sh_link s)) + 1"
    by blast
  then show ?thesis using c found
    by (intro exI [of _ l]) (auto simp: file_save_def cmd_fs_write_def sh_arity_def run_bind_Done_iff)
qed

lemma cmd_fs_read_run:
  assumes "fs_inv (l_fs (sh_link s))" "can_open (l_fs (sh_link s))" and p: "path_ok path"
    and "fs_abs (l_fs (sh_link s)) (split_path path) = Some (E_file d)"
    and "length d < size_mod" "length d div chunk_size < fuel" and found: "fs_found kc s"
  shows "\<exists>l. cmd_fs_read kc fuel s [name, path] = Done (s\<lparr>sh_link := l\<rparr>, Some (map char_of_byte d), S_OK) \<and>
    fs_abs (l_fs l) = fs_abs (l_fs (sh_link s))"
proof -
  have c: "cstr path = path" using p by (simp add: path_ok_def)
  obtain l where "file_load fuel path (sh_link s) = Done (l, None, d, None)" "fs_abs (l_fs l) = fs_abs (l_fs (sh_link s))"
    using file_load_run [OF assms(1-6)] by blast
  then show ?thesis using c found
    by (intro exI [of _ l]) (auto simp: file_load_def cmd_fs_read_def sh_arity_def sh_ok_def run_bind_Done_iff)
qed

lemma bytes_of_length: "length (bytes_of s) = length s"
  by (simp add: bytes_of_def)

lemma esc_longer: "length s \<le> length (esc s)"
proof (induction s)
  case (Cons c s)
  then show ?case by (simp add: esc_char_def)
qed simp

lemma line3_length: "word_ok w \<Longrightarrow> length (word_text w) \<le> length (line [u, v, w])"
  by (cases w) (simp_all add: le_SucI trans_le_add2 esc_longer)

text \<open>A line whose first word names a command of the shell runs this command.\<close>

lemma eval_ext:
  assumes "get_command env i name = Some c" and "c_func c = F_ext k" and "list_all bare name" "name \<noteq> []"
    and "\<forall>w\<in>set ws. word_ok w" and "length (line (Bare name # ws)) < size_mod"
    and "env_command env k (i_ext i) (name # map word_text ws) = Done (e, r, S_OK)"
  shows "eval env (Suc n) i (line (Bare name # ws)) =
    Done (i\<lparr>i_result := (case r of None \<Rightarrow> [] | Some x \<Rightarrow> x), i_ext := e\<rparr>, S_OK)"
proof -
  have "get_command env (i\<lparr>i_result := []\<rparr>) name = Some c" using assms(1) by (simp add: get_command_def)
  then show ?thesis
    using eval_dispatch [of "Bare name # ws" env n i] assms
    by (simp add: dispatch_def run_command_def call_ext_def split: option.split)
qed

text \<open>C19. What a script writes with \<open>fs/write\<close> a later script reads back with \<open>fs/read\<close>: in a
  shell as it starts, the line that writes any text under a path, and the line that reads the
  path, succeed, and the result of the second is the text, whatever characters it has, passed
  through tokenizer, interpreter, file class, message encoding, server and back.\<close>

theorem shell_write_read:
  assumes "shell_interp (shell_env sc kc fuel) s = Done i"
    and "server_ready (l_fs (sh_link s))" and "fs_next_handle (l_fs (sh_link s)) + 2 < size_mod" and "fs_found kc s"
    and "word_ok p" and "word_ok t" and "path_ok (word_text p)" and "length (word_text t) div chunk_size < fuel"
    and "length (line [Bare ''fs/write'', p, t]) < size_mod"
    and "fs_abs (l_fs (sh_link s)) (butlast (split_path (word_text p))) = Some E_dir"
    and "fs_abs (l_fs (sh_link s)) (split_path (word_text p)) \<noteq> Some E_dir"
  shows "\<exists>i1 i2. eval (shell_env sc kc fuel) (Suc n) i (line [Bare ''fs/write'', p, t]) = Done (i1, S_OK) \<and>
    eval (shell_env sc kc fuel) (Suc n) i1 (line [Bare ''fs/read'', p]) = Done (i2, S_OK) \<and> i_result i2 = word_text t"
proof -
  let ?env = "shell_env sc kc fuel" and ?p = "word_text p" and ?t = "word_text t"
  have i: "i_ext i = s" "\<forall>e\<in>set shell_commands. get_command ?env i (fst e) = Some (cmd_of e)"
    using shell_registered [of ?env s] assms(1) by auto
  have len: "length ?t < size_mod" using line3_length [OF assms(6)] assms(9) by (rule le_less_trans)
  obtain l1 where w: "cmd_fs_write kc s [''fs/write'', ?p, ?t] = Done (s\<lparr>sh_link := l1\<rparr>, None, S_OK)"
      "fs_abs (l_fs l1) (split_path ?p) = Some (E_file (bytes_of ?t))" "fs_inv (l_fs l1)" "can_open (l_fs l1)"
    using cmd_fs_write_run [OF assms(2,7) len assms(10,11,4), of "''fs/write''"] assms(3) by (auto simp: can_open_def)
  let ?i1 = "i\<lparr>i_result := [], i_ext := s\<lparr>sh_link := l1\<rparr>\<rparr>"
  have e1: "eval ?env (Suc n) i (line [Bare ''fs/write'', p, t]) = Done (?i1, S_OK)"
    using eval_ext [OF shell_lookup(1) [OF i(2)], of 7 "[p, t]"] assms(5,6,9) w(1) i(1)
    by (simp add: cmd_of_def bare_def is_blank_def shell_env_def shell_command_def del: line.simps)
  have found: "fs_found kc (s\<lparr>sh_link := l1\<rparr>)" using assms(4) by (simp add: fs_found_def)
  obtain l2 where r: "cmd_fs_read kc fuel (s\<lparr>sh_link := l1\<rparr>) [''fs/read'', ?p] =
      Done (s\<lparr>sh_link := l2\<rparr>, Some ?t, S_OK)"
    using cmd_fs_read_run [of "s\<lparr>sh_link := l1\<rparr>", OF _ _ assms(7) _ _ _ found, of "bytes_of ?t" fuel "''fs/read''"] w(2-4) len assms(8)
    by (auto simp: path_bytes bytes_of_length)
  have "length (line [Bare ''fs/read'', p]) < size_mod" using assms(9) by simp
  moreover have "get_command ?env ?i1 (fst e) = get_command ?env i (fst e)" for e :: "string \<times> func \<times> string"
    by (simp add: get_command_def)
  ultimately have "eval ?env (Suc n) ?i1 (line [Bare ''fs/read'', p]) = Done (?i1\<lparr>i_result := ?t, i_ext := s\<lparr>sh_link := l2\<rparr>\<rparr>, S_OK)"
    using eval_ext [OF shell_lookup(2), of ?env ?i1 6 "[p]"] i(2) assms(5) r
    by (simp add: cmd_of_def bare_def is_blank_def shell_env_def shell_command_def del: line.simps)
  with e1 show ?thesis by auto
qed

definition demo_calls :: "unit kernel_calls" where
  "demo_calls = \<lparr>kc_lookup = (\<lambda>_ _. 1), kc_alive = (\<lambda>_ _. True), kc_spawn = (\<lambda>_ k. (k, 0)),
     kc_send = (\<lambda>_ _ _ _ k. (k, 0, 0, 0, 0)), kc_yield = id, kc_shutdown = id\<rparr>"

theorem shell_write_read_witness:
  "\<exists>i i1 i2. shell_interp (shell_env True demo_calls 1) \<lparr>sh_link = link_start, sh_kernel = (), sh_running = True\<rparr> = Done i \<and>
    eval (shell_env True demo_calls 1) 1 i (line [Bare ''fs/write'', Bare ''/a'', Braced ''$x y'']) = Done (i1, S_OK) \<and>
    eval (shell_env True demo_calls 1) 1 i1 (line [Bare ''fs/read'', Bare ''/a'']) = Done (i2, S_OK) \<and> i_result i2 = ''$x y''"
proof -
  let ?s = "\<lparr>sh_link = link_start, sh_kernel = (), sh_running = True\<rparr>"
  obtain i where i: "shell_interp (shell_env True demo_calls 1) ?s = Done i"
    using shell_registered [of "shell_env True demo_calls 1" ?s] by blast
  have p: "split_path ''/a'' = [''a'']" by (simp add: split_path_def is_absolute_def add_part_def)
  have h: "fs_next_handle fs_start = 1" by (simp add: fs_start_def fs_storage_def)
  show ?thesis
    using shell_write_read [OF i, of "Bare ''/a''" "Braced ''$x y''" 0] i
    by (simp add: link_start_def server_ready_start h p fs_abs_start spec_start_def fs_found_def demo_calls_def path_ok_def
        max_path_length_def size_mod_def nul_def chunk_size_def bare_def is_blank_def)
qed

end
