(* ===== verification/UiShell.thy ===== *)
theory UiShell
  imports Shell Keyboard Canvas Arena
begin

text \<open>
  The graphical shell (\<open>user/prog/shell/uishell.cpp\<close>): the line being typed, the ring of the
  last hundred output lines with its scroll position, the interpreter's output, the drawing
  commands, and a frame of the main loop. The evaluation of a line is an argument \<open>ev\<close>: it takes the
  state of the shell, which holds the interpreter and all that scripts can change, to the next
  one, with the result and the status. The graphics server's answers are the input of a frame.
\<close>

section \<open>State\<close>

definition max_output_lines :: nat where "max_output_lines = 100"
definition max_line_length :: nat where "max_line_length = 256"
definition title_size :: int where "title_size = 28"
definition subtitle_size :: int where "subtitle_size = 14"
definition body_size :: int where "body_size = 16"
definition text_start_x :: int where "text_start_x = 15"
definition text_start_y :: int where "text_start_y = 80"
definition line_spacing :: int where "line_spacing = 20"

text \<open>\<open>ui_console\<close> is what has been printed to the console, \<open>ui_rest\<close> the interpreter and whatever
  else scripts act on.\<close>

record 'w ui =
  ui_buf :: string
  ui_pos :: nat
  ui_lines :: "string list"
  ui_start :: nat
  ui_count :: nat
  ui_scroll :: int
  ui_visible :: bool
  ui_blink :: int
  ui_running :: bool
  ui_canvas :: canvas
  ui_console :: "string list"
  ui_rest :: 'w

definition ui_new :: "canvas \<Rightarrow> 'w \<Rightarrow> 'w ui" where
  "ui_new c w = \<lparr>ui_buf = replicate max_line_length nul, ui_pos = 0, ui_lines = replicate max_output_lines [],
     ui_start = 0, ui_count = 0, ui_scroll = 0, ui_visible = True, ui_blink = 0, ui_running = True,
     ui_canvas = c, ui_console = [], ui_rest = w\<rparr>"

section \<open>Output lines\<close>

text \<open>A line is stored as a C string in a block of \<open>max_line_length\<close> bytes.\<close>

definition fit :: "string \<Rightarrow> string" where
  "fit s = take (max_line_length - 1) (cstr s)"

definition add_output_line :: "string \<Rightarrow> 'w ui \<Rightarrow> 'w ui" where
  "add_output_line text u =
     (let k = (ui_start u + ui_count u) mod max_output_lines;
          u = (if ui_count u = max_output_lines then u\<lparr>ui_start := (ui_start u + 1) mod max_output_lines\<rparr>
               else u\<lparr>ui_count := ui_count u + 1\<rparr>)
      in u\<lparr>ui_lines := (ui_lines u)[k := fit text], ui_scroll := 0\<rparr>)"

definition get_output_line :: "nat \<Rightarrow> 'w ui \<Rightarrow> string option" where
  "get_output_line idx u =
     (if ui_count u \<le> idx then None else Some (ui_lines u ! ((ui_start u + idx) mod max_output_lines)))"

definition ui_greet :: "'w ui \<Rightarrow> 'w ui" where
  "ui_greet u = add_output_line (''Type '' @ [CHR 0x27] @ ''help'' @ [CHR 0x27] @ '' for commands'')
     (add_output_line ''OTIUM Graphical Shell'' u)"

definition clear_output :: "'w ui \<Rightarrow> 'w ui" where
  "clear_output u = u\<lparr>ui_start := 0, ui_count := 0\<rparr>"

text \<open>The loop that collects lines: \<open>buf\<close> is the line so far, empty lines are skipped and
  characters beyond the block are dropped.\<close>

fun split_output :: "string \<Rightarrow> string \<Rightarrow> 'w ui \<Rightarrow> 'w ui" where
  "split_output buf [] u = (if buf \<noteq> [] then add_output_line buf u else u)"
| "split_output buf (c # cs) u =
     (if c = CHR 0x0A then split_output [] cs (if buf \<noteq> [] then add_output_line buf u else u)
      else if length buf < max_line_length - 1 then split_output (buf @ [c]) cs u
      else split_output buf cs u)"

text \<open>The output of scripts: \<open>to_console\<close> says whether the variable \<open>uishell_output_to_console\<close> is 1.\<close>

definition console_print :: "string \<Rightarrow> 'w ui \<Rightarrow> 'w ui" where
  "console_print s u = u\<lparr>ui_console := ui_console u @ [cstr s]\<rparr>"

definition console_mode :: "'e interp \<Rightarrow> bool" where
  "console_mode i \<longleftrightarrow> get_var i ''uishell_output_to_console'' = Some ''1''"

definition ui_write :: "('w \<Rightarrow> bool) \<Rightarrow> string \<Rightarrow> 'w ui \<Rightarrow> 'w ui" where
  "ui_write to_console s u =
     (if to_console (ui_rest u) then console_print s u else split_output [] (cstr s) u)"

definition ui_write_error :: "('w \<Rightarrow> bool) \<Rightarrow> string \<Rightarrow> 'w ui \<Rightarrow> 'w ui" where
  "ui_write_error to_console s u =
     (let u = console_print s u in if to_console (ui_rest u) then u else ui_write to_console s u)"

section \<open>Keys\<close>

definition key_u :: "16 word" where "key_u = 22"
definition key_d :: "16 word" where "key_d = 32"
definition key_backspace :: "16 word" where "key_backspace = 14"
definition key_enter :: "16 word" where "key_enter = 28"
definition key_q :: "16 word" where "key_q = 16"

text \<open>The lines that fit on a height, with the division of C; the scroll keys take 700 pixels for it.\<close>

definition page_lines :: "int \<Rightarrow> int" where
  "page_lines height =
     (let n = height - text_start_y - 40 in if n < 0 then - (- n div line_spacing) else n div line_spacing)"

definition scroll_up :: "'w ui \<Rightarrow> 'w ui" where
  "scroll_up u =
     (let page = page_lines 700;
          off = ui_scroll u + page;
          mx = (if int (ui_count u) > page then int (ui_count u) - page else 0)
      in u\<lparr>ui_scroll := (if off > mx then mx else off)\<rparr>)"

definition scroll_down :: "'w ui \<Rightarrow> 'w ui" where
  "scroll_down u = (let off = ui_scroll u - page_lines 700 in u\<lparr>ui_scroll := (if off < 0 then 0 else off)\<rparr>)"

definition show_cursor :: "'w ui \<Rightarrow> 'w ui" where
  "show_cursor u = u\<lparr>ui_blink := 0, ui_visible := True\<rparr>"

definition ui_backspace :: "'w ui \<Rightarrow> 'w ui" where
  "ui_backspace u = show_cursor
     (if 0 < ui_pos u then u\<lparr>ui_pos := ui_pos u - 1, ui_buf := (ui_buf u)[ui_pos u - 1 := nul]\<rparr> else u)"

text \<open>Enter: the prompt line, the evaluation of the line, its result or error, an empty line.\<close>

definition prompt_of :: "'w ui \<Rightarrow> string" where
  "prompt_of u = ''> '' @ cstr (ui_buf u)"

definition ui_enter :: "(string \<Rightarrow> 'w ui \<Rightarrow> ('w ui \<times> string \<times> status) run) \<Rightarrow> 'w ui \<Rightarrow> 'w ui run" where
  "ui_enter ev u =
     (let u = add_output_line (fit (prompt_of u)) u;
          u = u\<lparr>ui_buf := (ui_buf u)[ui_pos u := nul]\<rparr>
      in run_bind (ev (cstr (ui_buf u)) u) (\<lambda>(u, r, st).
         let u = (if st \<noteq> S_OK then add_output_line (fit (''error: '' @ cstr r)) u else split_output [] r u)
         in Done (show_cursor (u\<lparr>ui_pos := 0, ui_buf := (ui_buf u)[0 := nul]\<rparr>))))"

definition ui_insert :: "16 word \<Rightarrow> bool \<Rightarrow> 'w ui \<Rightarrow> 'w ui" where
  "ui_insert code shift u =
     (let ch = scancode_to_ascii code shift in
      if ch \<noteq> nul \<and> ui_pos u < max_line_length - 1
      then show_cursor (u\<lparr>ui_pos := ui_pos u + 1, ui_buf := (ui_buf u)[ui_pos u := ch, ui_pos u + 1 := nul]\<rparr>)
      else u)"

definition handle_key_event ::
  "(string \<Rightarrow> 'w ui \<Rightarrow> ('w ui \<times> string \<times> status) run) \<Rightarrow> 16 word \<Rightarrow> 8 word \<Rightarrow> 'w ui \<Rightarrow> 'w ui run" where
  "handle_key_event ev code flags u =
     (if flags AND key_flag_pressed = 0 then Done u
      else let ctrl = flags AND key_flag_ctrl \<noteq> 0 in
        if ctrl \<and> code = key_u then Done (scroll_up u)
        else if ctrl \<and> code = key_d then Done (scroll_down u)
        else if code = key_backspace then Done (ui_backspace u)
        else if code = key_enter then ui_enter ev u
        else Done (ui_insert code (flags AND key_flag_shift \<noteq> 0) u))"

section \<open>Drawing commands\<close>

definition gfx_int :: "'w ui \<Rightarrow> string list \<Rightarrow> nat \<Rightarrow> string \<Rightarrow> (int \<Rightarrow> 'w ui cmd_result) \<Rightarrow> 'w ui cmd_result" where
  "gfx_int u argv k msg rest = run_bind (parse_int (argv ! k)) (\<lambda>r. case r of
      None \<Rightarrow> Done (u, Some msg, S_ERR) | Some n \<Rightarrow> rest n)"

definition draw_done :: "(canvas \<Rightarrow> canvas run) \<Rightarrow> 'w ui \<Rightarrow> 'w ui cmd_result" where
  "draw_done f u = run_bind (f (ui_canvas u)) (\<lambda>c. Done (u\<lparr>ui_canvas := c\<rparr>, None, S_OK))"

definition cmd_gfx_rectangle :: "'w ui \<Rightarrow> string list \<Rightarrow> 'w ui cmd_result" where
  "cmd_gfx_rectangle u argv =
     sh_arity u ''gfx/rectangle'' argv 6 6
       (gfx_int u argv 1 ''Invalid color'' (\<lambda>color. gfx_int u argv 2 ''Invalid x'' (\<lambda>x.
        gfx_int u argv 3 ''Invalid y'' (\<lambda>y. gfx_int u argv 4 ''Invalid width'' (\<lambda>w.
        gfx_int u argv 5 ''Invalid height'' (\<lambda>h.
        draw_done (fill_rect x y w h (of_int color))
          (console_print (''gfx/rectangle: x='' @ dec_int x @ '' y='' @ dec_int y @ '' width='' @ dec_int w
             @ '' height='' @ dec_int h @ '' color='' @ dec_int color @ [CHR 0x0A]) u)))))))"

definition cmd_gfx_pixel :: "'w ui \<Rightarrow> string list \<Rightarrow> 'w ui cmd_result" where
  "cmd_gfx_pixel u argv =
     sh_arity u ''gfx/pixel'' argv 4 4
       (gfx_int u argv 1 ''Invalid color'' (\<lambda>color. gfx_int u argv 2 ''Invalid x'' (\<lambda>x.
        gfx_int u argv 3 ''Invalid y'' (\<lambda>y. draw_done (put_pixel x y (of_int color)) u))))"

definition cmd_gfx_text :: "font option \<Rightarrow> 'w ui \<Rightarrow> string list \<Rightarrow> 'w ui cmd_result" where
  "cmd_gfx_text font u argv =
     sh_arity u ''gfx/text'' argv 5 5
       (gfx_int u argv 2 ''Invalid x'' (\<lambda>x. gfx_int u argv 3 ''Invalid y'' (\<lambda>y.
        gfx_int u argv 4 ''Invalid color'' (\<lambda>color.
        run_bind (draw_ttf_text font x y (argv ! 1) (of_int color) 16 (ui_canvas u)) (\<lambda>(c, r).
          case r of Inl _ \<Rightarrow> Done (u\<lparr>ui_canvas := c\<rparr>, Some ''Text rendering failed'', S_ERR)
          | Inr _ \<Rightarrow> Done (u\<lparr>ui_canvas := c\<rparr>, None, S_OK))))))"

section \<open>A frame\<close>

definition ui_text :: "font option \<Rightarrow> int \<Rightarrow> int \<Rightarrow> string \<Rightarrow> 32 word \<Rightarrow> int \<Rightarrow> canvas \<Rightarrow> canvas run" where
  "ui_text font x y s color size_px c = run_bind (draw_ttf_text font x y s color size_px c) (\<lambda>(c, _). Done c)"

text \<open>The first line shown.\<close>

definition first_line :: "int \<Rightarrow> 'w ui \<Rightarrow> nat" where
  "first_line height u =
     (let vis = page_lines height;
          start = (if int (ui_count u) > vis then int (ui_count u) - vis - ui_scroll u else 0)
      in nat (if start < 0 then 0 else start))"

definition shown_lines :: "int \<Rightarrow> 'w ui \<Rightarrow> string list" where
  "shown_lines height u = List.map_filter (\<lambda>k. get_output_line k u) [first_line height u..<ui_count u]"

fun draw_lines :: "font option \<Rightarrow> int \<Rightarrow> string list \<Rightarrow> canvas \<Rightarrow> canvas run" where
  "draw_lines font y [] c = Done c"
| "draw_lines font y (s # ss) c =
     run_bind (ui_text font text_start_x y s 0xFFFFFFFF body_size c) (draw_lines font (y + line_spacing) ss)"

definition ui_draw :: "font option \<Rightarrow> 'w ui \<Rightarrow> canvas run" where
  "ui_draw font u =
     (let w = cv_w (ui_canvas u); h = cv_h (ui_canvas u); shown = shown_lines h u;
          y = text_start_y + line_spacing * int (length shown);
          prompt = prompt_of u
      in run_bind (cv_clear 0xFF1A1A2E (ui_canvas u)) (\<lambda>c.
         run_bind (ui_text font text_start_x 15 ''OTIUM SHELL'' 0xFFEEEEEE title_size c) (\<lambda>c.
         run_bind (ui_text font text_start_x 48
           ''Interactive TCL Shell; Ctrl-U = scroll up, Ctrl-D = scroll down, Alt-Q = quit'' 0xFFCCCCCC subtitle_size c) (\<lambda>c.
         run_bind (draw_hline text_start_x 68 (w - text_start_x * 2) 0xFF444444 c) (\<lambda>c.
         run_bind (draw_lines font text_start_y shown c) (\<lambda>c.
         run_bind (ui_text font text_start_x y prompt 0xFF88FF88 body_size c) (\<lambda>c.
         if ui_visible u then
           ui_text font (text_start_x + (case measure_ttf_text font prompt body_size of Inl _ \<Rightarrow> 0 | Inr m \<Rightarrow> m)) y ''_''
             0xFFFFFF00 body_size c
         else Done c)))))))"

text \<open>
  What a frame meets: the answer about who is active (none is an error), the time, the keyboard's
  answer, an error code or presence, code and flags, and whether the graphics server
  took the key for itself.
\<close>

record frame_input =
  fi_active :: "nat option"
  fi_time :: "64 word"
  fi_key :: "int + bool \<times> 16 word \<times> 8 word"
  fi_consumed :: bool

definition ui_key ::
  "(string \<Rightarrow> 'w ui \<Rightarrow> ('w ui \<times> string \<times> status) run) \<Rightarrow> bool \<Rightarrow> 16 word \<Rightarrow> 8 word \<Rightarrow> 'w ui \<Rightarrow> 'w ui run" where
  "ui_key ev consumed code flags u =
     (let u = (if flags AND key_flag_alt \<noteq> 0 \<and> code = key_q
              then (console_print (''UISHELL: Alt+Q pressed, exiting'' @ [CHR 0x0A]) u)\<lparr>ui_running := False\<rparr> else u)
      in if consumed then Done u else handle_key_event ev code flags u)"

definition ui_tick :: "'w ui \<Rightarrow> 'w ui" where
  "ui_tick u = (let n = ui_blink u + 1 in
     if 30 \<le> n then u\<lparr>ui_visible := \<not> ui_visible u, ui_blink := 0\<rparr> else u\<lparr>ui_blink := n\<rparr>)"

text \<open>One round of the main loop: none when the program exits, else the state, the frame manager
  and whether the picture was flushed.\<close>

definition ui_frame ::
  "(string \<Rightarrow> 'w ui \<Rightarrow> ('w ui \<times> string \<times> status) run) \<Rightarrow> font option \<Rightarrow> frame_input \<Rightarrow> 'w ui \<times> frame_manager \<Rightarrow>
     ('w ui \<times> frame_manager \<times> bool) option run" where
  "ui_frame ev font f um = (case um of (u, m) \<Rightarrow> (case fi_active f of
      None \<Rightarrow> Done None
    | Some a \<Rightarrow>
        if a = 0 then Done (Some (u, m, False))
        else (case begin_frame (fi_time f) m of (m, go) \<Rightarrow>
          if \<not> go then Done (Some (u, m, False))
          else run_bind (case fi_key f of
                   Inl e \<Rightarrow> Done (console_print (''UISHELL: poll_key error: '' @ dec_int e @ [CHR 0x0A]) u)
                 | Inr (has, code, flags) \<Rightarrow> if has then ui_key ev (fi_consumed f) code flags u else Done u) (\<lambda>u.
               let u = ui_tick u in
               run_bind (ui_draw font u) (\<lambda>c. Done (Some (u\<lparr>ui_canvas := c\<rparr>, end_frame m, True)))))))"

end
