(* ===== verification/UiShellProps.thy ===== *)
theory UiShellProps
  imports UiShell
begin

text \<open>
  The graphical shell as a user sees it: the input line is a text edited at its end, the history is
  the last hundred lines of output, and Enter hands the line to the interpreter and
  appends what it answers.
\<close>

section \<open>What the user sees\<close>

definition ui_input :: "'w ui \<Rightarrow> string" where
  "ui_input u = take (ui_pos u) (ui_buf u)"

definition ui_history :: "'w ui \<Rightarrow> string list" where
  "ui_history u = ring_slice (ui_lines u) (ui_start u) (ui_count u)"

definition ui_ok :: "'w ui \<Rightarrow> bool" where
  "ui_ok u \<longleftrightarrow> length (ui_lines u) = max_output_lines \<and> ui_count u \<le> max_output_lines \<and>
     length (ui_buf u) = max_line_length \<and> ui_pos u < max_line_length \<and> ui_buf u ! ui_pos u = nul \<and> nul \<notin> set (ui_input u)"

definition latest :: "'a list \<Rightarrow> 'a list" where
  "latest xs = drop (length xs - max_output_lines) xs"

text \<open>The lines of a text: those that are not empty, cut to the length of a line.\<close>

fun split_at_lf :: "string \<Rightarrow> string list" where
  "split_at_lf [] = [[]]"
| "split_at_lf (c # cs) = (if c = CHR 0x0A then [] # split_at_lf cs
     else (c # hd (split_at_lf cs)) # tl (split_at_lf cs))"

definition text_lines :: "string \<Rightarrow> string list" where
  "text_lines s = map fit (filter (\<lambda>l. l \<noteq> []) (split_at_lf s))"

section \<open>History\<close>

lemma latest_snoc: "latest (latest xs @ ys) = latest (xs @ ys)"
  by (cases "length xs \<le> max_output_lines") (simp_all add: latest_def add.commute)

lemma latest_short: "length xs \<le> max_output_lines \<Longrightarrow> latest xs = xs"
  by (simp add: latest_def)

lemma history_length: "ui_ok u \<Longrightarrow> length (ui_history u) \<le> max_output_lines"
  by (simp add: ui_ok_def ui_history_def)

lemma add_line_input [simp]: "ui_input (add_output_line t u) = ui_input u" "ui_buf (add_output_line t u) = ui_buf u"
  "ui_pos (add_output_line t u) = ui_pos u"
  by (simp_all add: add_output_line_def ui_input_def Let_def)

lemma add_line_history:
  assumes "ui_ok u"
  shows "ui_history (add_output_line t u) = latest (ui_history u @ [fit t])"
proof (cases "ui_count u = max_output_lines")
  case True
  let ?r = "(ui_lines u)[ui_start u mod max_output_lines := fit t]"
  have len: "length (ui_lines u) = 100" using assms by (simp add: ui_ok_def max_output_lines_def)
  have "(ui_start u + 1 + 99) mod 100 = ui_start u mod 100" by simp
  then have "ring_slice ?r (ui_start u + 1) (Suc 99) = ring_slice (ui_lines u) (ui_start u + 1) 99 @ [fit t]"
    using ring_slice_push [of 99 "ui_lines u" "ui_start u + 1" "fit t"] len by (simp add: max_output_lines_def)
  moreover have "ring_slice (ui_lines u) (ui_start u + 1) 99 = tl (ring_slice (ui_lines u) (ui_start u) 100)"
    by (simp add: ring_slice_tl)
  moreover have "ring_slice ?r ((ui_start u + 1) mod 100) (Suc 99) = ring_slice ?r (ui_start u + 1) (Suc 99)"
    using ring_slice_mod [of ?r "ui_start u + 1" "Suc 99"] len by simp
  ultimately show ?thesis using True
    by (simp add: add_output_line_def ui_history_def latest_def max_output_lines_def drop_Suc)
next
  case False
  then have "ui_count u < length (ui_lines u)" using assms by (simp add: ui_ok_def)
  from ring_slice_push [OF this, of "ui_start u" "fit t"] show ?thesis using False assms
    by (simp add: add_output_line_def ui_history_def latest_def ui_ok_def)
qed

lemma add_line_ok: "ui_ok u \<Longrightarrow> ui_ok (add_output_line t u)"
  by (simp add: ui_ok_def) (simp add: add_output_line_def Let_def)

lemma cstr_take: "cstr (take n s) = take n (cstr s)"
  by (induction s arbitrary: n) (auto simp: cstr_def take_Cons split: nat.split)

lemma fit_take: "fit (take (max_line_length - Suc 0) s) = fit s"
  by (simp add: fit_def cstr_take)

lemma split_at_lf_ne: "split_at_lf s \<noteq> []"
  by (cases s) simp_all

text \<open>The loop holds the line so far, cut to the block.\<close>

lemma split_output_run:
  "ui_ok u \<Longrightarrow> ui_ok (split_output (take (max_line_length - 1) b) s u) \<and>
    ui_input (split_output (take (max_line_length - 1) b) s u) = ui_input u \<and>
    ui_history (split_output (take (max_line_length - 1) b) s u) = latest (ui_history u @
      map fit (filter (\<lambda>l. l \<noteq> []) ((b @ hd (split_at_lf s)) # tl (split_at_lf s))))"
proof (induction s arbitrary: b u)
  case Nil
  have "take (max_line_length - 1) b = [] \<longleftrightarrow> b = []" by (simp add: max_line_length_def)
  then show ?case using Nil history_length [OF Nil]
    by (auto simp: add_line_ok add_line_history fit_take latest_short)
next
  case (Cons c s)
  let ?k = "max_line_length - 1"
  have e: "take ?k b = [] \<longleftrightarrow> b = []" by (simp add: max_line_length_def)
  show ?case
  proof (cases "c = CHR 0x0A")
    case True
    define u' where "u' = (if take ?k b \<noteq> [] then add_output_line (take ?k b) u else u)"
    have u': "ui_ok u'" "ui_input u' = ui_input u"
      "ui_history u' = latest (ui_history u @ map fit (filter (\<lambda>l. l \<noteq> []) [b]))"
      using Cons.prems history_length [OF Cons.prems] e
      by (auto simp: u'_def add_line_ok add_line_history fit_take latest_short)
    have "split_output (take ?k b) (c # s) u = split_output (take ?k []) s u'" using True by (simp add: u'_def)
    then show ?thesis using Cons.IH [OF u'(1), of "[]"] u' True split_at_lf_ne [of s]
      by (simp add: latest_snoc)
  next
    case False
    have "split_output (take ?k b) (c # s) u = split_output (take ?k (b @ [c])) s u"
      using False by (cases "length b < ?k") (auto simp: min_def)
    moreover have "(b @ hd (split_at_lf (c # s))) # tl (split_at_lf (c # s)) = ((b @ [c]) @ hd (split_at_lf s)) # tl (split_at_lf s)"
      using False by simp
    ultimately show ?thesis using Cons.IH [OF Cons.prems, of "b @ [c]"] by argo
  qed
qed

lemma split_output_text:
  assumes "ui_ok u"
  shows "ui_ok (split_output [] s u)" "ui_input (split_output [] s u) = ui_input u"
    "ui_history (split_output [] s u) = latest (ui_history u @ text_lines s)"
  using split_output_run [OF assms, of "[]" s] split_at_lf_ne [of s] by (simp_all add: text_lines_def)

section \<open>The input line\<close>

text \<open>What a key that is not Enter does to the line.\<close>

definition line_key :: "16 word \<Rightarrow> 8 word \<Rightarrow> string \<Rightarrow> string" where
  "line_key code flags s =
     (if flags AND key_flag_pressed = 0 \<or> (flags AND key_flag_ctrl \<noteq> 0 \<and> (code = key_u \<or> code = key_d)) then s
      else if code = key_backspace then butlast s
      else let ch = scancode_to_ascii code (flags AND key_flag_shift \<noteq> 0)
           in if ch \<noteq> nul \<and> length s < max_line_length - 1 then s @ [ch] else s)"

lemma input_length: "ui_ok u \<Longrightarrow> length (ui_input u) = ui_pos u"
  by (simp add: ui_ok_def ui_input_def)

lemma cstr_until:
  assumes "k < length s" "s ! k = nul" "nul \<notin> set (take k s)"
  shows "cstr s = take k s"
proof -
  have "s = take k s @ nul # drop (Suc k) s" using assms(1,2) by (metis id_take_nth_drop)
  then have "cstr s = cstr (take k s @ nul # drop (Suc k) s)" by simp
  also have "\<dots> = take k s" unfolding cstr_def using assms(3) by (subst takeWhile_append) auto
  finally show ?thesis .
qed

lemma cstr_input: "ui_ok u \<Longrightarrow> cstr (ui_buf u) = ui_input u"
  unfolding ui_input_def by (rule cstr_until) (simp_all add: ui_ok_def ui_input_def)

lemma handle_key_line:
  assumes ok: "ui_ok u" and e: "code \<noteq> key_enter \<or> flags AND key_flag_pressed = 0"
  shows "\<exists>u'. handle_key_event ev code flags u = Done u' \<and> ui_ok u' \<and> ui_input u' = line_key code flags (ui_input u) \<and>
    ui_history u' = ui_history u \<and> ui_rest u' = ui_rest u"
proof -
  have b: "length (ui_buf u) = max_line_length" "ui_pos u < max_line_length" "nul \<notin> set (ui_input u)" using ok by (simp_all add: ui_ok_def)
  have "ui_ok (ui_backspace u) \<and> ui_input (ui_backspace u) = butlast (ui_input u) \<and> ui_history (ui_backspace u) = ui_history u \<and>
      ui_rest (ui_backspace u) = ui_rest u"
  proof (cases "ui_pos u")
    case (Suc k)
    then have "ui_input (ui_backspace u) = butlast (ui_input u)" using b
      by (simp add: ui_backspace_def ui_input_def show_cursor_def butlast_take)
    then show ?thesis using Suc ok in_set_butlastD [of nul "ui_input u"]
      by (auto simp: ui_backspace_def ui_ok_def ui_history_def show_cursor_def)
  qed (use ok in \<open>simp add: ui_backspace_def ui_ok_def ui_history_def show_cursor_def ui_input_def\<close>)
  moreover have "ui_ok (ui_insert code sh u) \<and> ui_history (ui_insert code sh u) = ui_history u \<and> ui_rest (ui_insert code sh u) = ui_rest u \<and>
      ui_input (ui_insert code sh u) = (let ch = scancode_to_ascii code sh in
        if ch \<noteq> nul \<and> length (ui_input u) < max_line_length - 1 then ui_input u @ [ch] else ui_input u)" for sh
  proof (cases "scancode_to_ascii code sh \<noteq> nul \<and> ui_pos u < max_line_length - 1")
    case True
    then have "ui_input (ui_insert code sh u) = ui_input u @ [scancode_to_ascii code sh]" using b
      by (simp add: ui_insert_def ui_input_def show_cursor_def take_Suc_conv_app_nth)
    then show ?thesis using True ok b
      by (auto simp: ui_insert_def ui_ok_def ui_history_def show_cursor_def input_length [OF ok] Let_def)
  qed (use ok in \<open>auto simp: ui_insert_def input_length Let_def\<close>)
  ultimately show ?thesis using e ok
    by (auto simp: handle_key_event_def line_key_def Let_def scroll_up_def scroll_down_def ui_ok_def ui_history_def ui_input_def)
qed

section \<open>A line and its answer\<close>

definition ui_press :: "16 word \<Rightarrow> bool \<Rightarrow> 16 word \<times> 8 word" where
  "ui_press code shift = (code, key_flag_pressed OR (if shift then key_flag_shift else 0))"

fun handle_keys ::
  "(string \<Rightarrow> 'w ui \<Rightarrow> ('w ui \<times> string \<times> status) run) \<Rightarrow> (16 word \<times> 8 word) list \<Rightarrow> 'w ui \<Rightarrow> 'w ui run" where
  "handle_keys ev [] u = Done u"
| "handle_keys ev ((code, flags) # ks) u = run_bind (handle_key_event ev code flags u) (handle_keys ev ks)"

definition line_keys :: "(16 word \<times> 8 word) list \<Rightarrow> string \<Rightarrow> string" where
  "line_keys ks s = fold (\<lambda>(code, flags). line_key code flags) ks s"

definition no_enter :: "(16 word \<times> 8 word) list \<Rightarrow> bool" where
  "no_enter ks \<longleftrightarrow> (\<forall>(code, flags)\<in>set ks. code \<noteq> key_enter \<or> flags AND key_flag_pressed = 0)"

lemma handle_keys_line:
  "ui_ok u \<Longrightarrow> no_enter ks \<Longrightarrow> \<exists>u'. handle_keys ev (ks @ rest) u = handle_keys ev rest u' \<and> ui_ok u' \<and>
    ui_input u' = line_keys ks (ui_input u) \<and> ui_history u' = ui_history u \<and> ui_rest u' = ui_rest u"
proof (induction ks arbitrary: u)
  case (Cons k ks)
  obtain code flags where k: "k = (code, flags)" by fastforce
  with Cons.prems(2) have "code \<noteq> key_enter \<or> flags AND key_flag_pressed = 0" "no_enter ks" by (auto simp: no_enter_def)
  then show ?case using handle_key_line [OF Cons.prems(1), of code flags ev] Cons.IH k
    by (fastforce simp: line_keys_def)
qed (auto simp: line_keys_def)

lemma fit_fit: "fit (fit s) = fit s"
  by (simp add: fit_def cstr_take)

lemma cstr_append: "nul \<notin> set s \<Longrightarrow> cstr (s @ t) = s @ cstr t"
  unfolding cstr_def by (subst takeWhile_append) auto

lemma fit_cstr: "nul \<notin> set s \<Longrightarrow> fit (s @ cstr t) = fit (s @ t)"
  by (simp add: fit_def cstr_append)

lemma split_output_rest [simp]: "ui_rest (split_output b s u) = ui_rest u"
proof (induction s arbitrary: b u)
  case (Cons c s)
  show ?case by (simp add: Cons.IH) (simp add: add_output_line_def Let_def)
qed (simp add: add_output_line_def Let_def)

lemma ui_ready:
  assumes "ui_ok u"
  shows "ui_ok (show_cursor (u\<lparr>ui_pos := 0, ui_buf := (ui_buf u)[0 := nul]\<rparr>))"
    "ui_history (show_cursor (u\<lparr>ui_pos := 0, ui_buf := (ui_buf u)[0 := nul]\<rparr>)) = ui_history u"
    "ui_input (show_cursor (u\<lparr>ui_pos := 0, ui_buf := (ui_buf u)[0 := nul]\<rparr>)) = []"
  using assms by (simp_all add: ui_ok_def show_cursor_def ui_history_def ui_input_def max_line_length_def)

lemma add_line_same_buf: "(add_output_line t u)\<lparr>ui_buf := ui_buf u\<rparr> = add_output_line t u"
  using add_line_input(2) [of t u] by simp

lemma enter_run:
  assumes ok: "ui_ok u" and ev: "ev (ui_input u) (add_output_line (''> '' @ ui_input u) u) = Done (u2, r, st)" "ui_ok u2"
  shows "\<exists>u'. ui_enter ev u = Done u' \<and> ui_ok u' \<and> ui_input u' = [] \<and> ui_rest u' = ui_rest u2 \<and>
    ui_history u' = latest (ui_history u2 @ (if st = S_OK then text_lines r else [fit (''error: '' @ r)]))"
proof -
  have "add_output_line (fit (prompt_of u)) u = add_output_line (''> '' @ ui_input u) u"
    by (simp add: add_output_line_def fit_fit prompt_of_def cstr_input [OF ok] Let_def)
  moreover have b: "(ui_buf u)[ui_pos u := nul] = ui_buf u" using ok by (metis list_update_id ui_ok_def)
  ultimately have "ui_enter ev u = run_bind (ev (ui_input u) (add_output_line (''> '' @ ui_input u) u)) (\<lambda>(u, r, st).
      let u = (if st \<noteq> S_OK then add_output_line (fit (''error: '' @ cstr r)) u else split_output [] r u)
      in Done (show_cursor (u\<lparr>ui_pos := 0, ui_buf := (ui_buf u)[0 := nul]\<rparr>)))"
    using b by (simp add: ui_enter_def Let_def cstr_input [OF ok] add_line_same_buf)
  moreover define u3 where "u3 = (if st \<noteq> S_OK then add_output_line (fit (''error: '' @ cstr r)) u2 else split_output [] r u2)"
  ultimately have "ui_enter ev u = Done (show_cursor (u3\<lparr>ui_pos := 0, ui_buf := (ui_buf u3)[0 := nul]\<rparr>))"
    using ev(1) by (simp add: Let_def)
  moreover have "ui_ok u3" "ui_rest u3 = ui_rest u2"
    "ui_history u3 = latest (ui_history u2 @ (if st = S_OK then text_lines r else [fit (''error: '' @ r)]))"
    using ev(2) split_output_text [OF ev(2), of r] fit_cstr [of "''error: ''" r]
    by (auto simp: u3_def add_line_ok add_line_history fit_fit nul_def) (simp_all add: add_output_line_def Let_def)
  ultimately show ?thesis using ui_ready [of u3] by (auto simp: show_cursor_def)
qed



text \<open>Scrolling: the page keys count with a height of 700 pixels, the frame with the real one, which
  is at most 672: as soon as the history is longer than the window, the two oldest lines
  cannot be brought into it by any number of page keys.\<close>

lemma oldest_lines_unreachable:
  assumes "int (ui_count u) > 27" and "u' = (scroll_up ^^ Suc n) u" and "0 \<le> ui_scroll u"
  shows "first_line 672 u' \<ge> (if ui_count u = 28 then 1 else 2)"
proof -
  have c: "ui_count ((scroll_up ^^ k) u) = ui_count u" for k by (induction k) (simp_all add: scroll_up_def Let_def)
  have "ui_scroll u' \<le> (if int (ui_count u) > 29 then int (ui_count u) - 29 else 0)"
    using c [of n] by (simp add: assms(2) scroll_up_def Let_def page_lines_def text_start_y_def line_spacing_def)
  then show ?thesis using assms(1) c [of "Suc n"]
    by (simp add: assms(2) first_line_def Let_def page_lines_def text_start_y_def line_spacing_def split: if_splits)
      arith?
qed

section \<open>The picture\<close>

lemma keeps_ui_text:
  assumes "\<And>g. font = Some g \<Longrightarrow> font_ok g"
  shows "keeps_above 0 (ui_text font x y s color size_px)"
proof -
  have "keeps_above2 0 (draw_ttf_text font x y s color size_px)" by (rule keeps_ttf_text) (use assms in auto)
  then show ?thesis by (fastforce simp: keeps_above_def keeps_above2_def ui_text_def)
qed

lemma keeps_draw_lines:
  assumes "\<And>g. font = Some g \<Longrightarrow> font_ok g"
  shows "keeps_above 0 (draw_lines font y ss)"
proof (induction ss arbitrary: y)
  case (Cons s ss)
  have "keeps_above 0 (\<lambda>c. run_bind (ui_text font text_start_x y s 0xFFFFFFFF body_size c) (draw_lines font (y + line_spacing) ss))"
    by (intro keeps_bind keeps_ui_text [OF assms] Cons.IH)
  then show ?case by simp
next
  case Nil
  have "draw_lines font y [] = Done" by (rule ext) simp
  then show ?case by simp
qed

text \<open>Whatever is on the screen and however far it is scrolled, a frame draws without an access
  outside the frame buffer.\<close>

theorem ui_draw_safe:
  assumes "cv_ok (ui_canvas u)" and f: "\<And>g. font = Some g \<Longrightarrow> font_ok g"
  shows "\<exists>c. ui_draw font u = Done c \<and> cv_ok c \<and> cv_w c = cv_w (ui_canvas u) \<and> cv_h c = cv_h (ui_canvas u)"
proof -
  define body where "body = (\<lambda>c. let h = cv_h (ui_canvas u); shown = shown_lines h u;
          y = text_start_y + line_spacing * int (length shown); prompt = prompt_of u in
         run_bind (cv_clear 0xFF1A1A2E c) (\<lambda>c.
         run_bind (ui_text font text_start_x 15 ''OTIUM SHELL'' 0xFFEEEEEE title_size c) (\<lambda>c.
         run_bind (ui_text font text_start_x 48
           ''Interactive TCL Shell; Ctrl-U = scroll up, Ctrl-D = scroll down, Alt-Q = quit'' 0xFFCCCCCC subtitle_size c) (\<lambda>c.
         run_bind (draw_hline text_start_x 68 (cv_w (ui_canvas u) - text_start_x * 2) 0xFF444444 c) (\<lambda>c.
         run_bind (draw_lines font text_start_y shown c) (\<lambda>c.
         run_bind (ui_text font text_start_x y prompt 0xFF88FF88 body_size c) (\<lambda>c.
         if ui_visible u then
           ui_text font (text_start_x + (case measure_ttf_text font prompt body_size of Inl _ \<Rightarrow> 0 | Inr m \<Rightarrow> m)) y ''_''
             0xFFFFFF00 body_size c
         else Done c)))))))"
  have last_step: "keeps_above 0 (\<lambda>c. if b then ui_text font x y s color size_px c else Done c)" for b x y s color size_px
    using keeps_ui_text [OF f] by (cases b) auto
  have "keeps_above 0 body" unfolding body_def Let_def
    by (intro keeps_bind last_step keeps_ui_text [OF f] keeps_draw_lines [OF f] keeps_clear keeps_rects(2)) simp_all
  moreover have "ui_draw font u = body (ui_canvas u)" by (simp add: ui_draw_def body_def Let_def)
  ultimately show ?thesis using keeps_aboveD [of 0 body "ui_canvas u"] assms(1) by (auto simp: same_but_def)
qed

end
