(* ===== verification/Spec2Isabelle.thy ===== *)
theory Spec2Isabelle
  imports Prelude OuString OuVector OuHashMap TclParser TclList Mpack MpackPrint TclInterp TclProps
    PageMemory KernelProcess KernelIpc KernelInv KernelProps FsMemory FsProps FsFiles FileClient FileProps Md5 Md5Props Editor EditorProps EditorSave
    Virtio Keyboard KeyboardProps Disk DiskProps Canvas Graphics GraphicsProps Arena Shell ShellProps UiShell UiShellProps
begin

text \<open>
  A model of Otium, a small microkernel operating system with its user-space library, its Tcl
  interpreter and its servers and programs, and what has been proved of it. Paths are
  relative to \<open>src/os/ot/\<close>.

  \<^bold>\<open>The system.\<close> The kernel (\<open>core/\<close>) keeps the pages of memory and a table of sixteen
  processes, switches between them cooperatively, and passes messages: a caller blocks in
  \<open>ou_ipc_send\<close> until the server it names has answered with \<open>ou_ipc_reply\<close>; larger data travel
  on the page each process has for communication, as MessagePack. Everything else is a process:
  the file system, keyboard and graphics servers, which wait for messages in a loop and
  dispatch on a method number, and the programs, which call them through generated stubs. A
  shell evaluates Tcl lines whose commands call the kernel and the servers; the editor uses
  the same interpreter for its command line.

  \<^bold>\<open>Conventions.\<close> \<open>size_t\<close> and addresses have 32 bits, as on the 32-bit RISC-V target; where
  wrap-around matters the type is a word or the reduction is written out (\<open>sz\<close>, \<open>size_mod\<close> of \<open>Prelude\<close>).
  A run of the code is a value of the type \<open>run\<close>: \<open>Done x\<close>, \<open>Undefined u\<close> with the cause \<open>u\<close> when
  the C++ behaviour is undefined (an access out of range, a null pointer, signed overflow), or
  \<open>NoFuel\<close> when a recursion with a bound has used it up. Errors of the code are values of sums or
  options. State is passed explicitly, each component's in a record. Objects in
  memory are modelled down to cells where the code manages them by hand (strings, vectors,
  hash tables, pages, rings shared with devices) and as values elsewhere. Allocation by the user
  allocator always succeeds; the code does not check it either.

  \<^bold>\<open>The user-space library.\<close>
  \<^item> \<open>OuString\<close>: \<open>ou::string\<close> and \<open>string_view\<close> (\<open>user/string.hpp\<close>, \<open>user/string.cpp\<close>), a block
    of cells with length and capacity. Every operation keeps the block well-formed and
    terminated and acts on the represented text as the list operation.
  \<^item> \<open>OuVector\<close>: \<open>ou::vector\<close> (\<open>user/vector.hpp\<close>), slots that are constructed or raw. The same, and exactly
    the slots below the size are constructed. Both classes interpret the locale \<open>seq_buffer\<close> of
    \<open>Prelude\<close>, in which the facts about building and editing sequences are proved once.
  \<^item> \<open>OuHashMap\<close>: \<open>StringHashMap\<close> (\<open>user/hashmap.hpp\<close>), open addressing with the djb2 hash. Insertion,
    growth, search and clearing refine a map (locale \<open>string_map\<close>); removal breaks probe chains.
  \<^item> \<open>Mpack\<close>: the MessagePack writer and reader (\<open>lib/mpack/\<close>) with the tokens of the C library they use;
    what is written is read back, the boundaries of the encodings included.
  \<^item> \<open>MpackPrint\<close>: the printer (\<open>lib/mpack/mpack-utils.cpp\<close>) as callbacks of the library's object parser,
    with its node stack; a value of any shape up to the depth of the stack prints as its text.
  \<^item> \<open>Md5\<close>, \<open>Md5Props\<close>: \<open>lib/md5.cpp\<close>. The table of 64 steps is RFC 1321's; a stream of updates has the
    digest of the whole.
  \<^item> \<open>Arena\<close>: the arena, the allocation within a page and the frame timer (\<open>lib/arena.hpp\<close>,
    \<open>lib/page-allocator.hpp\<close>, \<open>lib/frame-manager.cpp\<close>), in 32- and 64-bit words.

  \<^bold>\<open>The Tcl interpreter\<close> (\<open>user/tcl.cpp\<close>, \<open>user/tcl.hpp\<close>).
  \<^item> \<open>TclParser\<close>: the tokenizer \<open>Parser::_next_token\<close> with its modes, escapes, braces and nested
    parsers. It always returns a token, stays within the script and makes progress.
  \<^item> \<open>TclList\<close>: lists in string form and the parsing, printing and arithmetic of integers.
  \<^item> \<open>TclInterp\<close>: command table and hash index, call frames, \<open>eval\<close>, procedures, the core and the
    MessagePack commands. Commands of other components are \<open>F_ext k\<close>, served by the environment
    \<open>env\<close> from their own state \<open>i_ext\<close>.
  \<^item> \<open>TclProps\<close>: relations that hold between the state before and after any script, by one induction
    (locale \<open>interp_rel\<close>, interpreted for call frames and command table here and for the
    text of the editor in \<open>EditorProps\<close>), and the evaluation of lines of literal words.

  \<^bold>\<open>The kernel.\<close>
  \<^item> \<open>PageMemory\<close>: \<open>core/memory.cpp\<close>, the table of pages at the start of the memory it manages, the free
    list, and the reserved regions with their locks. Allocation and freeing refine an ordered list
    of free pages; pages in use are left alone by operations for others.
  \<^item> \<open>KernelProcess\<close>: \<open>core/process.cpp\<close>, the process table, creation with argument, communication,
    storage and stack pages, the scheduler's choice, exit.
  \<^item> \<open>KernelIpc\<close>: \<open>core/platform/platform-riscv.cpp\<close>, \<open>core/main.cpp\<close>, \<open>core/startup.cpp\<close>: every system call
    on trap frames, with the queues of waiting senders, direct switches, crashes and the start.
    The saved context of a process is its continuation in the kernel and its registers.
  \<^item> \<open>KernelInv\<close>, \<open>KernelProps\<close>: the step relation \<open>kernel_step\<close> (any system call with any arguments, a
    crash, or stores of the running process to its own pages), its invariant (locale \<open>step_inv\<close> of \<open>Prelude\<close>),
    the order in which callers are served, a call and its reply, booting, disjointness of pages,
    and the ways in which callers are left behind.

  \<^bold>\<open>Files.\<close>
  \<^item> \<open>FsMemory\<close>, \<open>FsProps\<close>, \<open>FsFiles\<close>: the in-memory server (\<open>user/fs/impl-memory.cpp\<close>): inodes, paths,
    handles. The inodes form a tree, which stands for a map from paths to entries; every
    operation refines the operation on the map.
  \<^item> \<open>FileClient\<close>, \<open>FileProps\<close>: the generated client and server (\<open>user/gen/filesystem-*.cpp\<close>) and \<open>ou::File\<close>
    (\<open>core/platform/ipc-file.cpp\<close>) over the two communication pages. A call is one exchange of
    request and response, which is what \<open>KernelProps\<close> proves of a call to a waiting server.
  \<^item> \<open>Disk\<close>, \<open>DiskProps\<close>: the block driver (\<open>user/fs/virtio-disk.cpp\<close>), the layer below FatFs
    (\<open>user/fs/fatfs-diskio.cpp\<close>) and the server of one file (\<open>user/fs/impl-onefile.cpp\<close>). The disk interface is the
    locale \<open>sector_disk\<close>, interpreted by the driver on any device with the hypothesis
    \<open>block_device\<close>.

  \<^bold>\<open>Devices and screen.\<close>
  \<^item> \<open>Virtio\<close>: registers and queues (\<open>user/virtio/virtio.hpp\<close>). A register file is a function
    from the log of writes to the values read, so a device may answer as it likes.
  \<^item> \<open>Keyboard\<close>, \<open>KeyboardProps\<close>: key map, driver and service (\<open>lib/keyboard-utils.cpp\<close>,
    \<open>user/keyboard/\<close>); the polls report the key events in order, on any device with the
    hypothesis \<open>input_device\<close>.
  \<^item> \<open>Canvas\<close>: drawing (\<open>lib/app-framework.cpp\<close>), with the pixels as a list whose bounds are those of the
    frame buffer. The font library is the record \<open>font\<close> of what it answers, with the hypothesis
    \<open>font_ok\<close> that an image has the size announced for it.
  \<^item> \<open>Graphics\<close>, \<open>GraphicsProps\<close>: the graphics server (\<open>user/graphics/impl.cpp\<close>): registration, the active program,
    switching, reaping, the task bar.

  \<^bold>\<open>Programs.\<close>
  \<^item> \<open>Editor\<close>, \<open>EditorProps\<close>, \<open>EditorSave\<close>: the editor (\<open>user/edit.cpp\<close>): key tables, motions, operators,
    editing, commands, scrolling and drawing. The back end is the input of a frame: the
    key, the time, the window size. In insert mode the editor refines a text with a
    gap; a session from the first key to the file is proved through interpreter, files and server.
  \<^item> \<open>Shell\<close>, \<open>ShellProps\<close>: the commands of the shells (\<open>user/prog/shell/commands.cpp\<close>), with the kernel's
    answers as the record \<open>kernel_calls\<close>; writing and reading files from scripts.
  \<^item> \<open>UiShell\<close>, \<open>UiShellProps\<close>: the graphical shell (\<open>user/prog/shell/uishell.cpp\<close>) with its ring of a
    hundred lines; the evaluation of a line is an argument.

  \<^bold>\<open>Bounds and fuel.\<close> \<open>grow_fuel\<close> (33 doublings) covers every capacity below \<open>2 ^ 32\<close>; the code diverges
  beyond \<open>2 ^ 31\<close> (\<open>str_capacity_diverges\<close>). \<open>tok_fuel\<close> is linear in the rest of the script and
  always enough (\<open>next_token_total\<close>); \<open>script_fuel\<close> bounds the tokens of a script (\<open>eval_loop_ends\<close>). The
  fuel of \<open>eval\<close> is the depth of nested evaluations; scripts need not end, but an
  evaluation that has ended does not depend on it (\<open>eval_fuel_mono\<close>), and lines of literal words need
  one level. Reading a file takes one round per chunk of \<open>chunk_size\<close> bytes and one more. The wait for
  the disk ends within \<open>bound + 2\<close> rounds on a device that answers within \<open>bound\<close> of them.
  Statements about sizes assume what the 32-bit arithmetic needs: texts of editor and files
  below \<open>2 ^ 31\<close> or \<open>2 ^ 32\<close> bytes, arenas below 1 GiB. Coordinates and counters that the code
  keeps in \<open>int\<close> are unbounded integers in \<open>Canvas\<close>, \<open>Graphics\<close>, \<open>UiShell\<close> and \<open>Editor\<close>.

  \<^bold>\<open>Hypotheses on what is not in the sources or not in C++.\<close> \<open>input_device\<close> and \<open>block_device\<close> say that a VirtIO
  device uses the buffers made available to it in order, fills them and announces them in the used
  ring; \<open>font_ok\<close> and \<open>font_starts\<close> speak of the font library. Each is shown to hold for a concrete
  instance next to the theorem that uses it.

  \<^bold>\<open>Not modelled.\<close> The WebAssembly platform (\<open>core/platform/platform-wasm.cpp\<close>: the same calls over
  host fibers) and its file server; the server over FatFs and FatFs itself, the allocator TLSF, the
  font library and the font's data, which are vendored; the GPU driver and the host's back ends;
  floating-point gradients; the start-up code of servers, which chooses back ends at compile time; the
  shutdown request, after which a server does not return; \<open>dofile\<close> and the drawing loops of the
  shells, which evaluate scripts from within a command; the generated glue of services without a
  model; trace and log output; firmware calls and assembly; demonstration programs and tests;
  and the Lisp system under \<open>src/lang\<close>, a program of its own in C.
\<close>

end
